(* ===== verification/Prelude.thy ===== *)
theory Prelude
  imports Main "HOL-Library.Word"
begin

text \<open>
  Shared vocabulary of the development: the machine types of \<^verbatim>\<open>inc/core/MojCoreDefs.h\<close>, the
  error codes of \<^verbatim>\<open>inc/core/MojErr.h\<close> that the modelled code throws, the result type that
  stands for a \<^verbatim>\<open>MojErr\<close> return value with its out parameters, and the run of a list of
  callbacks (a visitor) that stops at the first error.
\<close>

named_theorems moj_defs \<open>definitions of the model that component proofs unfold together\<close>
named_theorems res_simps \<open>how the result combinators compute\<close>

section \<open>Machine types\<close>

type_synonym byte = "8 word"
type_synonym u16 = "16 word"
type_synonym u32 = "32 word"
type_synonym i64 = "64 word"
type_synonym u64 = "64 word"

section \<open>Errors\<close>

text \<open>
  The error codes that the modelled code throws. The last four constructors are not codes:
  \<open>MojAssertFailed\<close> is a \<^verbatim>\<open>MojAssert\<close> that does not hold (a debug build stops there, a release
  build goes on with undefined behaviour), \<open>MojDivByZero\<close> an integer division by zero (the
  process dies), \<open>MojReadPastEnd\<close> a read behind the end of a buffer, \<open>MojStackOverflow\<close> a
  recursion that goes deeper than the fuel of the model. The model stops at each.
\<close>

datatype MojErr =
    MojErrAlreadyOpen
  | MojErrExists
  | MojErrInvalidArg
  | MojErrInvalidBase64Data
  | MojErrInvalidDecimal
  | MojErrInsufficientBuf
  | MojErrInvalidSchema
  | MojErrInvalidMsg
  | MojErrNotFound
  | MojErrNotOpen
  | MojErrRequiredPropNotFound
  | MojErrSchemaValidation
  | MojErrUnexpectedEof
  | MojErrValueOutOfRange
  | MojErrInternalIndexOnDel
  | MojErrInternalIndexOnFind
  | MojErrTranSizeLimit
  | MojErrObjectReaderUnexpectedMarker
  | MojErrJson
  | MojErrJsonParseArray
  | MojErrJsonParseBool
  | MojErrJsonParseComment
  | MojErrJsonParseEof
  | MojErrJsonParseEscape
  | MojErrJsonParseInt
  | MojErrJsonParseMaxDepth
  | MojErrJsonParseNull
  | MojErrJsonParsePropName
  | MojErrJsonParseUnexpected
  | MojErrJsonParseValueSep
  | MojErrDbCorruptDatabase
  | MojErrDbCursorAlreadyOpen
  | MojErrDbFatal
  | MojErrDbHeaderVersionMismatch
  | MojErrDbInconsistentIndex
  | MojErrDbInvalidCaller
  | MojErrDbInvalidCollation
  | MojErrDbInvalidIndex
  | MojErrDbInvalidIndexName
  | MojErrDbInvalidKindToken
  | MojErrDbInvalidOwner
  | MojErrDbInvalidPermissions
  | MojErrDbInvalidQuery
  | MojErrDbInvalidQueryCollationMismatch
  | MojErrDbInvalidQueryOp
  | MojErrDbInvalidQueryOpCombo
  | MojErrDbInvalidRevisionSet
  | MojErrDbInvalidToken
  | MojErrDbInvalidTokenization
  | MojErrDbIO
  | MojErrDbKindHasSubKinds
  | MojErrDbKindNotRegistered
  | MojErrDbKindNotSpecified
  | MojErrDbMalformedId
  | MojErrDbNoIndexForQuery
  | MojErrDbPermissionDenied
  | MojErrDbQuotaExceeded
  | MojErrDbRevisionMismatch
  | MojErrDbRevNotSpecified
  | MojErrDbWatcherNotRegistered
  | MojAssertFailed
  | MojDivByZero
  | MojReadPastEnd
  | MojStackOverflow

type_synonym 'a res = "MojErr + 'a"

text \<open>\<^verbatim>\<open>MojErrCheck(err)\<close>: return the error, or go on with the result.\<close>

definition rbind :: "'a res \<Rightarrow> ('a \<Rightarrow> 'b res) \<Rightarrow> 'b res" where
  "rbind x f = (case x of Inl e \<Rightarrow> Inl e | Inr a \<Rightarrow> f a)"

lemma rbind_simps [simp, res_simps]:
  "rbind (Inl e) f = Inl e"
  "rbind (Inr a) f = f a"
  by (simp_all add: rbind_def)

lemma rbind_Inr [simp]: "rbind x Inr = x"
  by (cases x) simp_all

lemma rbind_assoc: "rbind (rbind x f) g = rbind x (\<lambda>a. rbind (f a) g)"
  by (cases x) simp_all

lemma rbind_Inr_iff: "rbind x f = Inr b \<longleftrightarrow> (\<exists>a. x = Inr a \<and> f a = Inr b)"
  by (cases x) simp_all

lemma rbind_cong [fundef_cong]:
  "x = y \<Longrightarrow> (\<And>a. y = Inr a \<Longrightarrow> f a = g a) \<Longrightarrow> rbind x f = rbind y g"
  by (cases y) simp_all

text \<open>
  A sequence of callbacks on a visitor: each one changes the visitor's state or throws, and the
  first error ends the sequence.
\<close>

fun run :: "('s \<Rightarrow> 'e \<Rightarrow> 's res) \<Rightarrow> 's \<Rightarrow> 'e list \<Rightarrow> 's res" where
  "run step s [] = Inr s"
| "run step s (e # es) = rbind (step s e) (\<lambda>s'. run step s' es)"

lemma run_append: "run step s (es @ es') = rbind (run step s es) (\<lambda>s'. run step s' es')"
  by (induction es arbitrary: s) (simp_all add: rbind_assoc)

lemma run_cong [fundef_cong]:
  "s = s' \<Longrightarrow> es = es' \<Longrightarrow> (\<And>s e. e \<in> set es' \<Longrightarrow> f s e = g s e) \<Longrightarrow> run f s es = run g s' es'"
proof (induction es arbitrary: s s' es')
  case (Cons e es)
  then have "run f a es = run g a es" for a by (intro Cons.IH) auto
  then show ?case using Cons.prems by auto
qed simp

lemma run_total: "run (\<lambda>s e. Inr (f s e)) s es = Inr (foldl f s es)"
  by (induction es arbitrary: s) simp_all

section \<open>Lists and characters\<close>

text \<open>A C string ends at its first NUL, so \<open>nonul\<close> strings are those a C string holds whole.\<close>

abbreviation NUL :: char where "NUL \<equiv> CHR 0x00"

definition nonul :: "string \<Rightarrow> bool" where
  "nonul s \<longleftrightarrow> NUL \<notin> set s"

lemma nonul_simps [simp]:
  "nonul []"
  "nonul (c # s) \<longleftrightarrow> c \<noteq> NUL \<and> nonul s"
  "nonul (s @ t) \<longleftrightarrow> nonul s \<and> nonul t"
  by (auto simp: nonul_def)

text \<open>A \<^verbatim>\<open>MojChar\<close> is one byte; buffers hold bytes and strings hold characters.\<close>

definition byte_of :: "char \<Rightarrow> byte" where
  "byte_of c = word_of_nat (of_char c)"

definition char_of_byte :: "byte \<Rightarrow> char" where
  "char_of_byte b = char_of (unat b)"

lemma unat_byte_of [simp]: "unat (byte_of c) = of_char c"
  using nat_of_char_less_256 [of c] by (simp add: byte_of_def unat_of_nat)

lemma uint_byte_of [simp]: "uint (byte_of c) = int (of_char c)"
  by (simp flip: unat_byte_of)

lemma char_of_byte_of [simp]: "char_of_byte (byte_of c) = c"
  by (simp add: char_of_byte_def)

lemma byte_of_char_of_byte [simp]: "byte_of (char_of_byte b) = b"
proof -
  have "unat b < 256" using unsigned_less [of b, where 'a=nat] by simp
  then show ?thesis by (simp add: byte_of_def char_of_byte_def)
qed

lemma byte_of_eq_iff [simp]: "byte_of c = byte_of d \<longleftrightarrow> c = d"
  by (metis char_of_byte_of)

lemma byte_of_NUL [simp]: "byte_of NUL = 0"
  by (simp add: byte_of_def)

lemma byte_of_eq_0_iff [simp]: "byte_of c = 0 \<longleftrightarrow> c = NUL" "0 = byte_of c \<longleftrightarrow> c = NUL"
  using byte_of_eq_iff [of c NUL] by auto

text \<open>The C integer conversions that the comparisons use: a byte or a \<^verbatim>\<open>MojSize\<close> read as an \<^verbatim>\<open>int\<close>.\<close>

definition to_int32 :: "int \<Rightarrow> int" where
  "to_int32 i = sint (word_of_int i :: 32 word)"

lemma to_int32_id: "- (2 ^ 31) \<le> i \<Longrightarrow> i < 2 ^ 31 \<Longrightarrow> to_int32 i = i"
  by (simp add: to_int32_def signed_of_int signed_take_bit_int_eq_self)

lemma sint_eq_iff [simp]: "sint v = sint w \<longleftrightarrow> v = w"
  by (auto intro: signed_word_eqI)

end
