(* ===== verification/Compare.thy ===== *)
theory Compare
  imports Prelude
begin

text \<open>
  Three-way comparison, as \<^verbatim>\<open>inc/core/MojComp.h\<close> and its users define it: a negative, zero or
  positive \<^verbatim>\<open>int\<close>. The locale \<open>comparator\<close> is the contract every container of the library
  relies on (a total preorder given by the sign), \<open>comparator_strict\<close> adds that only equal values
  compare as zero. The element-wise comparisons of \<^verbatim>\<open>MojVector\<close> and \<^verbatim>\<open>MojMap\<close> keep the contract.
\<close>

section \<open>The comparison functions\<close>

text \<open>\<^verbatim>\<open>MojComp<T>::operator()\<close>: the default comparison, from \<open><\<close> alone.\<close>

definition MojComp :: "'a::linorder \<Rightarrow> 'a \<Rightarrow> int" where
  "MojComp val1 val2 = (if val1 < val2 then - 1 else if val2 < val1 then 1 else 0)"

text \<open>\<^verbatim>\<open>strcmp\<close> of the C library: bytes compared unsigned, up to the first NUL.\<close>

fun MojStrCmp :: "string \<Rightarrow> string \<Rightarrow> int" where
  "MojStrCmp [] [] = 0"
| "MojStrCmp [] (d # ds) = 0 - of_char d"
| "MojStrCmp (c # cs) [] = of_char c"
| "MojStrCmp (c # cs) (d # ds) =
     (if c \<noteq> d then of_char c - of_char d else if c = NUL then 0 else MojStrCmp cs ds)"

text \<open>\<^verbatim>\<open>strncmp\<close>: the same, over at most \<open>n\<close> bytes.\<close>

fun MojStrNCmp :: "string \<Rightarrow> string \<Rightarrow> nat \<Rightarrow> int" where
  "MojStrNCmp s t 0 = 0"
| "MojStrNCmp [] [] (Suc n) = 0"
| "MojStrNCmp [] (d # ds) (Suc n) = 0 - of_char d"
| "MojStrNCmp (c # cs) [] (Suc n) = of_char c"
| "MojStrNCmp (c # cs) (d # ds) (Suc n) =
     (if c \<noteq> d then of_char c - of_char d else if c = NUL then 0 else MojStrNCmp cs ds n)"

text \<open>\<^verbatim>\<open>MojVector::compare\<close>: element by element, a proper prefix first.\<close>

fun vec_compare :: "('a \<Rightarrow> 'a \<Rightarrow> int) \<Rightarrow> 'a list \<Rightarrow> 'a list \<Rightarrow> int" where
  "vec_compare cmpf [] ys = (if ys = [] then 0 else - 1)"
| "vec_compare cmpf (x # xs) [] = 1"
| "vec_compare cmpf (x # xs) (y # ys) =
     (let c = cmpf x y in if c \<noteq> 0 then c else vec_compare cmpf xs ys)"

text \<open>\<^verbatim>\<open>MojMap::compareFull\<close>: the key, then the value.\<close>

definition pair_compare ::
  "('k \<Rightarrow> 'k \<Rightarrow> int) \<Rightarrow> ('v \<Rightarrow> 'v \<Rightarrow> int) \<Rightarrow> 'k \<times> 'v \<Rightarrow> 'k \<times> 'v \<Rightarrow> int" where
  "pair_compare kcomp vcomp node1 node2 =
     (let c = kcomp (fst node1) (fst node2) in
      if c = 0 then vcomp (snd node1) (snd node2) else c)"

text \<open>
  \<^verbatim>\<open>MojLexicalCompare\<close>: the first differing byte, or the difference of the sizes cast to
  \<^verbatim>\<open>int\<close>. The loop drops the same number of bytes from both sides, so the sizes' difference is
  that of what is left.
\<close>

fun MojLexicalCompare :: "byte list \<Rightarrow> byte list \<Rightarrow> int" where
  "MojLexicalCompare (x # xs) (y # ys) =
     (if x \<noteq> y then uint x - uint y else MojLexicalCompare xs ys)"
| "MojLexicalCompare xs ys = to_int32 (int (length xs) - int (length ys))"

text \<open>\<^verbatim>\<open>MojPrefixSize\<close>: the length of the shared prefix.\<close>

fun MojPrefixSize :: "byte list \<Rightarrow> byte list \<Rightarrow> nat" where
  "MojPrefixSize (x # xs) (y # ys) = (if x \<noteq> y then 0 else Suc (MojPrefixSize xs ys))"
| "MojPrefixSize xs ys = 0"

text \<open>The comparison of byte vectors that \<^verbatim>\<open>MojDbKey\<close> uses.\<close>

abbreviation bcmp :: "byte list \<Rightarrow> byte list \<Rightarrow> int" where
  "bcmp \<equiv> vec_compare MojComp"

lemma vec_compare_cong [fundef_cong]:
  "xs = xs' \<Longrightarrow> ys = ys' \<Longrightarrow> (\<And>x y. x \<in> set xs' \<Longrightarrow> y \<in> set ys' \<Longrightarrow> f x y = g x y) \<Longrightarrow>
   vec_compare f xs ys = vec_compare g xs' ys'"
proof (induction f xs ys arbitrary: xs' ys' rule: vec_compare.induct)
  case (3 f x xs y ys)
  then show ?case by (cases "f x y = 0") (auto simp: Let_def)
qed auto

lemma pair_compare_cong [fundef_cong]:
  "p = p' \<Longrightarrow> q = q' \<Longrightarrow> kc (fst p') (fst q') = kc' (fst p') (fst q') \<Longrightarrow>
   vc (snd p') (snd q') = vc' (snd p') (snd q') \<Longrightarrow> pair_compare kc vc p q = pair_compare kc' vc' p' q'"
  by (simp add: pair_compare_def Let_def)

section \<open>The contract\<close>

locale comparator =
  fixes cmp :: "'a \<Rightarrow> 'a \<Rightarrow> int" and ok :: "'a \<Rightarrow> bool"
  assumes cmp_antisym: "ok x \<Longrightarrow> ok y \<Longrightarrow> sgn (cmp y x) = - sgn (cmp x y)"
    and cmp_trans: "ok x \<Longrightarrow> ok y \<Longrightarrow> ok z \<Longrightarrow> cmp x y \<le> 0 \<Longrightarrow> cmp y z \<le> 0 \<Longrightarrow> cmp x z \<le> 0"
begin

lemma cmp_refl: "ok x \<Longrightarrow> cmp x x = 0"
  using cmp_antisym [of x x] by (simp add: sgn_if split: if_splits)

lemma cmp_lt_iff: "ok x \<Longrightarrow> ok y \<Longrightarrow> cmp y x < 0 \<longleftrightarrow> 0 < cmp x y"
  using cmp_antisym [of x y] by (auto simp: sgn_if split: if_splits)

lemma cmp_le_iff: "ok x \<Longrightarrow> ok y \<Longrightarrow> cmp y x \<le> 0 \<longleftrightarrow> 0 \<le> cmp x y"
  using cmp_antisym [of x y] by (auto simp: sgn_if split: if_splits)

lemma cmp_eq_sym: "ok x \<Longrightarrow> ok y \<Longrightarrow> cmp y x = 0 \<longleftrightarrow> cmp x y = 0"
  using cmp_antisym [of x y] by (auto simp: sgn_if split: if_splits)

lemma cmp_trans_eq:
  assumes "ok x" "ok y" "ok z" "cmp x y \<le> 0" "cmp y z \<le> 0" "cmp x z = 0"
  shows "cmp x y = 0 \<and> cmp y z = 0"
proof -
  have zx: "cmp z x \<le> 0" using assms cmp_eq_sym [of x z] by simp
  have "cmp y x \<le> 0" using cmp_trans [of y z x] assms zx by blast
  moreover have "cmp z y \<le> 0" using cmp_trans [of z x y] assms zx by blast
  ultimately show ?thesis using assms cmp_le_iff [of x y] cmp_le_iff [of y z] by auto
qed

lemma cmp_trans_lt:
  "ok x \<Longrightarrow> ok y \<Longrightarrow> ok z \<Longrightarrow> cmp x y < 0 \<Longrightarrow> cmp y z \<le> 0 \<Longrightarrow> cmp x z < 0"
  using cmp_trans [of x y z] cmp_trans_eq [of x y z] by fastforce

lemma cmp_trans_lt':
  "ok x \<Longrightarrow> ok y \<Longrightarrow> ok z \<Longrightarrow> cmp x y \<le> 0 \<Longrightarrow> cmp y z < 0 \<Longrightarrow> cmp x z < 0"
  using cmp_trans [of x y z] cmp_trans_eq [of x y z] by fastforce

lemma vec_antisym:
  "list_all ok xs \<Longrightarrow> list_all ok ys \<Longrightarrow> sgn (vec_compare cmp ys xs) = - sgn (vec_compare cmp xs ys)"
proof (induction xs arbitrary: ys)
  case Nil
  then show ?case by (cases ys) simp_all
next
  case (Cons x xs)
  then show ?case
    using cmp_antisym [of x "hd ys"] cmp_eq_sym [of x "hd ys"] by (cases ys) (auto simp: Let_def)
qed

lemma vec_trans:
  assumes "list_all ok xs" "list_all ok ys" "list_all ok zs"
    "vec_compare cmp xs ys \<le> 0" "vec_compare cmp ys zs \<le> 0"
  shows "vec_compare cmp xs zs \<le> 0"
  using assms
proof (induction xs arbitrary: ys zs)
  case (Cons x xs)
  obtain y ys' where ys: "ys = y # ys'" using Cons.prems(4) by (cases ys) simp_all
  obtain z zs' where "zs = z # zs'" using Cons.prems(5) ys by (cases zs) simp_all
  note eq = ys this
  note c = Cons.prems [unfolded eq list.pred_inject]
  have le: "cmp x y \<le> 0" "cmp y z \<le> 0"
    using c(4,5) by (auto simp: Let_def split: if_splits)
  then have xz: "cmp x z \<le> 0" using c cmp_trans [of x y z] by blast
  show ?case
  proof (cases "cmp x z = 0")
    case True
    then have "cmp x y = 0" "cmp y z = 0" using cmp_trans_eq [of x y z] c le by auto
    then have "vec_compare cmp xs zs' \<le> 0"
      using Cons.IH [of ys' zs'] c by (simp add: Let_def)
    then show ?thesis using True eq by simp
  next
    case False
    then show ?thesis using xz eq by simp
  qed
qed simp

lemma vec_comparator: "comparator (vec_compare cmp) (list_all ok)"
proof (unfold_locales, goal_cases)
  case (1 xs ys)
  then show ?case by (rule vec_antisym)
next
  case (2 xs ys zs)
  then show ?case by (rule vec_trans)
qed

end

locale comparator_strict = comparator +
  assumes cmp_eq: "ok x \<Longrightarrow> ok y \<Longrightarrow> cmp x y = 0 \<Longrightarrow> x = y"
begin

lemma cmp_eq_iff: "ok x \<Longrightarrow> ok y \<Longrightarrow> cmp x y = 0 \<longleftrightarrow> x = y"
  using cmp_eq cmp_refl by blast

lemma vec_eq: "list_all ok xs \<Longrightarrow> list_all ok ys \<Longrightarrow> vec_compare cmp xs ys = 0 \<Longrightarrow> xs = ys"
proof (induction xs arbitrary: ys)
  case Nil
  then show ?case by (simp split: if_splits)
next
  case (Cons x xs)
  then show ?case
    using cmp_eq [of x "hd ys"] by (cases ys) (auto simp: Let_def split: if_splits)
qed

lemma vec_comparator_strict: "comparator_strict (vec_compare cmp) (list_all ok)"
  using vec_comparator unfolding comparator_strict_def comparator_strict_axioms_def
  by (blast intro: vec_eq)

end

lemma comparator_mono: "comparator cmp ok \<Longrightarrow> (\<And>x. ok' x \<Longrightarrow> ok x) \<Longrightarrow> comparator cmp ok'"
  unfolding comparator_def by blast

lemma comparator_via:
  assumes "comparator cmp ok" "\<And>x. ok' x \<Longrightarrow> ok (f x)"
    and "\<And>x y. ok' x \<Longrightarrow> ok' y \<Longrightarrow> sgn (cmp' x y) = sgn (cmp (f x) (f y))"
  shows "comparator cmp' ok'"
proof -
  have le: "cmp' x y \<le> 0 \<longleftrightarrow> cmp (f x) (f y) \<le> 0" if "ok' x" "ok' y" for x y
    using assms(3) [OF that] by (auto simp: sgn_if split: if_splits)
  show ?thesis
  proof (unfold_locales, goal_cases)
    case (1 x y)
    then show ?case
      using assms(3) comparator.cmp_antisym [OF assms(1), of "f x" "f y"] assms(2) by simp
  next
    case (2 x y z)
    then show ?case
      using le comparator.cmp_trans [OF assms(1), of "f x" "f y" "f z"] assms(2) by blast
  qed
qed

lemma pair_comparator:
  assumes k: "comparator kc kok" and v: "comparator vc vok"
  shows "comparator (pair_compare kc vc) (\<lambda>p. kok (fst p) \<and> vok (snd p))"
proof
  fix p q
  assume "kok (fst p) \<and> vok (snd p)" "kok (fst q) \<and> vok (snd q)"
  then show "sgn (pair_compare kc vc q p) = - sgn (pair_compare kc vc p q)"
    using comparator.cmp_antisym [OF k, of "fst p" "fst q"]
      comparator.cmp_antisym [OF v, of "snd p" "snd q"]
      comparator.cmp_eq_sym [OF k, of "fst p" "fst q"]
    by (simp add: pair_compare_def)
next
  fix p q r
  assume ok: "kok (fst p) \<and> vok (snd p)" "kok (fst q) \<and> vok (snd q)" "kok (fst r) \<and> vok (snd r)"
    and le: "pair_compare kc vc p q \<le> 0" "pair_compare kc vc q r \<le> 0"
  have kle: "kc (fst p) (fst q) \<le> 0" "kc (fst q) (fst r) \<le> 0"
    using le by (auto simp: pair_compare_def Let_def split: if_splits)
  then have pr: "kc (fst p) (fst r) \<le> 0"
    using comparator.cmp_trans [OF k] ok by blast
  show "pair_compare kc vc p r \<le> 0"
  proof (cases "kc (fst p) (fst r) = 0")
    case True
    then have "kc (fst p) (fst q) = 0" "kc (fst q) (fst r) = 0"
      using comparator.cmp_trans_eq [OF k, of "fst p" "fst q" "fst r"] ok kle by auto
    then show ?thesis
      using True le ok comparator.cmp_trans [OF v, of "snd p" "snd q" "snd r"]
      by (simp add: pair_compare_def)
  next
    case False
    then show ?thesis using pr by (simp add: pair_compare_def)
  qed
qed

section \<open>The providers\<close>

interpretation default_comp: comparator_strict "MojComp :: 'a::linorder \<Rightarrow> 'a \<Rightarrow> int" "\<lambda>_. True"
  by unfold_locales (auto simp: MojComp_def split: if_splits)

interpretation bcmp: comparator_strict bcmp "list_all (\<lambda>_. True)"
  by (rule default_comp.vec_comparator_strict)

text \<open>A C string up to its NUL; \<^verbatim>\<open>strcmp\<close> compares these.\<close>

definition cstr :: "string \<Rightarrow> string" where
  "cstr s = takeWhile (\<lambda>c. c \<noteq> NUL) s"

lemma cstr_nonul [simp]: "nonul s \<Longrightarrow> cstr s = s"
  by (auto simp: cstr_def nonul_def takeWhile_eq_all_conv)

definition char_comp :: "char \<Rightarrow> char \<Rightarrow> int" where
  "char_comp c d = of_char c - of_char d"

lemma of_char_int_eq [simp]: "(of_char c :: int) = of_char d \<longleftrightarrow> c = d"
  by (metis of_char_eq_iff of_nat_eq_iff of_nat_of_char)

lemma of_char_int_0 [simp]: "(of_char c :: int) = 0 \<longleftrightarrow> c = NUL"
  using of_char_int_eq [of c NUL] by (simp del: of_char_int_eq)

lemma of_char_int_pos [simp]: "c \<noteq> NUL \<Longrightarrow> (0::int) < of_char c"
proof -
  assume "c \<noteq> NUL"
  then have "(of_char c :: int) \<noteq> 0" by simp
  moreover have "(0::int) \<le> of_char c" by (metis of_nat_0_le_iff of_nat_of_char)
  ultimately show ?thesis by linarith
qed

interpretation char_comp: comparator_strict char_comp "\<lambda>_. True"
  by unfold_locales (auto simp: char_comp_def sgn_if)

lemma MojStrCmp_vec: "sgn (MojStrCmp s t) = sgn (vec_compare char_comp (cstr s) (cstr t))"
proof (induction s t rule: MojStrCmp.induct)
  case (2 d ds)
  then show ?case by (cases "d = NUL") (simp_all add: cstr_def)
next
  case (3 c cs)
  then show ?case by (cases "c = NUL") (simp_all add: cstr_def)
next
  case (4 c cs d ds)
  then show ?case
    by (cases "c = NUL"; cases "d = NUL") (auto simp: cstr_def char_comp_def Let_def)
qed (simp add: cstr_def)

interpretation str_comp: comparator MojStrCmp "\<lambda>_. True"
  by (rule comparator_via [OF char_comp.vec_comparator, where f = cstr])
    (simp_all add: MojStrCmp_vec list_all_iff)

interpretation str_comp_nonul: comparator_strict MojStrCmp nonul
proof (unfold comparator_strict_def comparator_strict_axioms_def, intro conjI allI impI)
  show "comparator MojStrCmp nonul"
    by (rule comparator_mono [OF str_comp.comparator_axioms]) simp
  fix s t
  assume "nonul s" "nonul t" "MojStrCmp s t = 0"
  then have "vec_compare char_comp s t = 0"
    using MojStrCmp_vec [of s t] by (simp add: sgn_eq_0_iff)
  then show "s = t" using char_comp.vec_eq [of s t] by (simp add: list_all_iff)
qed

section \<open>Byte comparisons\<close>

lemma bcmp_prefix [simp]: "bcmp (p @ xs) (p @ ys) = bcmp xs ys"
  by (induction p) (simp_all add: MojComp_def)

lemma MojComp_self [simp]: "MojComp x x = 0"
  by (simp add: MojComp_def)

lemma MojComp_eq_0 [simp]: "MojComp x y = 0 \<longleftrightarrow> x = y"
  by (auto simp: MojComp_def)

text \<open>
  The two byte comparisons of the code, \<^verbatim>\<open>MojDbKey::compare\<close> and \<^verbatim>\<open>MojLexicalCompare\<close>, agree on
  buffers below 2 GiB, where the cast of the sizes' difference is exact.
\<close>

lemma MojLexicalCompare_bcmp:
  "length xs < 2 ^ 31 \<Longrightarrow> length ys < 2 ^ 31 \<Longrightarrow> sgn (MojLexicalCompare xs ys) = sgn (bcmp xs ys)"
proof (induction xs arbitrary: ys)
  case Nil
  then show ?case by (cases ys) (simp_all add: to_int32_id)
next
  case (Cons x xs)
  then show ?case
    by (cases ys) (auto simp: to_int32_id MojComp_def word_less_def word_uint_eq_iff)
qed

lemma MojPrefixSize_prefix:
  "take (MojPrefixSize xs ys) xs = take (MojPrefixSize xs ys) ys"
  "MojPrefixSize xs ys \<le> length xs" "MojPrefixSize xs ys \<le> length ys"
  by (induction xs ys rule: MojPrefixSize.induct) auto

lemma MojPrefixSize_maximal:
  "take n xs = take n ys \<Longrightarrow> n \<le> length xs \<Longrightarrow> n \<le> length ys \<Longrightarrow> n \<le> MojPrefixSize xs ys"
proof (induction xs ys arbitrary: n rule: MojPrefixSize.induct)
  case (1 x xs y ys)
  then show ?case by (cases n) auto
qed auto

end
