(* ===== verification/DataSerial.thy ===== *)
theory DataSerial
  imports Compare
begin

text \<open>
  \<^verbatim>\<open>src/core/MojDataSerialization.cpp\<close>: the byte-level writer and reader under the object
  serialization. A writer appends to a buffer, so every \<^verbatim>\<open>write\<close> is the bytes it appends; a
  reader is the list of the bytes from \<^verbatim>\<open>m_pos\<close> to \<^verbatim>\<open>m_end\<close>, and every \<^verbatim>\<open>read\<close> returns the value
  and the bytes left, or \<^verbatim>\<open>MojErrUnexpectedEof\<close>. The lemmas give the round trip of each width and
  show that big-endian bytes compare as the unsigned numbers they hold.
\<close>

section \<open>MojDataWriter\<close>

text \<open>The low \<open>n\<close> bytes of a word in memory after the conversion to big endian.\<close>

fun be_bytes :: "nat \<Rightarrow> 'a::len word \<Rightarrow> byte list" where
  "be_bytes 0 w = []"
| "be_bytes (Suc n) w = ucast (drop_bit (8 * n) w) # be_bytes n w"

definition writeUInt8 :: "byte \<Rightarrow> byte list" where
  "writeUInt8 val = [val]"

definition writeUInt16 :: "u16 \<Rightarrow> byte list" where
  "writeUInt16 val = be_bytes 2 val"

definition writeUInt32 :: "u32 \<Rightarrow> byte list" where
  "writeUInt32 val = be_bytes 4 val"

definition writeInt64 :: "i64 \<Rightarrow> byte list" where
  "writeInt64 val = be_bytes 8 val"

text \<open>A decimal is written as its 64-bit representation.\<close>

definition writeDecimal :: "i64 \<Rightarrow> byte list" where
  "writeDecimal rep = writeInt64 rep"

definition writeChars :: "string \<Rightarrow> byte list" where
  "writeChars chars = map byte_of chars"

section \<open>MojDataReader\<close>

type_synonym data_reader = "byte list"

definition readUInt8 :: "data_reader \<Rightarrow> (byte \<times> data_reader) res" where
  "readUInt8 r = (case r of [] \<Rightarrow> Inl MojErrUnexpectedEof | b # bs \<Rightarrow> Inr (b, bs))"

definition readUInt16 :: "data_reader \<Rightarrow> (u16 \<times> data_reader) res" where
  "readUInt16 r =
     (if length r < 2 then Inl MojErrUnexpectedEof
      else Inr (ucast (r ! 1) + push_bit 8 (ucast (r ! 0)), drop 2 r))"

definition readUInt32 :: "data_reader \<Rightarrow> (u32 \<times> data_reader) res" where
  "readUInt32 r =
     (if length r < 4 then Inl MojErrUnexpectedEof
      else Inr (ucast (r ! 3) + push_bit 8 (ucast (r ! 2)) + push_bit 16 (ucast (r ! 1))
                + push_bit 24 (ucast (r ! 0)), drop 4 r))"

definition readInt64 :: "data_reader \<Rightarrow> (i64 \<times> data_reader) res" where
  "readInt64 r =
     (if length r < 8 then Inl MojErrUnexpectedEof
      else Inr (ucast (r ! 7) + push_bit 8 (ucast (r ! 6))
                + push_bit 16 (ucast (r ! 5)) + push_bit 24 (ucast (r ! 4))
                + push_bit 32 (ucast (r ! 3)) + push_bit 40 (ucast (r ! 2))
                + push_bit 48 (ucast (r ! 1)) + push_bit 56 (ucast (r ! 0)), drop 8 r))"

definition readDecimal :: "data_reader \<Rightarrow> (i64 \<times> data_reader) res" where
  "readDecimal r = rbind (readInt64 r) (\<lambda>(rep, r'). Inr (rep, r'))"

definition skip :: "nat \<Rightarrow> data_reader \<Rightarrow> data_reader res" where
  "skip len r = (if length r < len then Inl MojErrUnexpectedEof else Inr (drop len r))"

section \<open>Bytes as numbers\<close>

fun be_val :: "byte list \<Rightarrow> int" where
  "be_val [] = 0"
| "be_val (b # bs) = uint b * 256 ^ length bs + be_val bs"

lemma length_be_bytes [simp]: "length (be_bytes n w) = n"
  by (induction n) simp_all

lemma be_val_bounds: "0 \<le> be_val bs" "be_val bs < 256 ^ length bs"
proof (induction bs)
  case (Cons b bs)
  have b: "0 \<le> uint b" "uint b \<le> 255"
    using uint_lt2p [of b] by simp_all
  case 1
  show ?case using Cons b by simp
  case 2
  have "uint b * 256 ^ length bs \<le> 255 * 256 ^ length bs"
    using b by (intro mult_right_mono) simp_all
  moreover have "be_val bs < 256 ^ length bs" by (rule Cons(2))
  ultimately have "uint b * 256 ^ length bs + be_val bs < 255 * 256 ^ length bs + 256 ^ length bs"
    by linarith
  then show ?case by simp
qed simp_all

lemma uint_byte_drop_bit:
  "uint (ucast (drop_bit k (w :: 'a::len word)) :: byte) = uint w div 2 ^ k mod 256"
  unfolding unsigned_ucast_eq unsigned_drop_bit_eq
  by (simp add: take_bit_eq_mod drop_bit_eq_div)

lemma be_val_be_bytes: "be_val (be_bytes n w) = uint w mod 256 ^ n"
proof (induction n)
  case (Suc n)
  have p: "(256::int) ^ n = 2 ^ (8 * n)" by (simp add: power_mult)
  have "uint w mod (256 ^ n * 256) = 256 ^ n * (uint w div 256 ^ n mod 256) + uint w mod 256 ^ n"
    by (simp add: zmod_zmult2_eq)
  then show ?case using Suc by (simp add: uint_byte_drop_bit p mult.commute)
qed simp

lemma bcmp_be_val:
  "length xs = length ys \<Longrightarrow> sgn (bcmp xs ys) = sgn (be_val xs - be_val ys)"
proof (induction xs ys rule: list_induct2)
  case (Cons x xs y ys)
  note b = be_val_bounds [of xs] be_val_bounds [of ys]
  consider "x = y" | "uint x < uint y" | "uint y < uint x"
    using word_uint_eq_iff [of x y] by linarith
  then show ?case
  proof cases
    case 1
    then show ?thesis using Cons by simp
  next
    case 2
    then have "(uint x + 1) * 256 ^ length xs \<le> uint y * 256 ^ length xs"
      by (intro mult_right_mono) simp_all
    then have "be_val (x # xs) - be_val (y # ys) < 0"
      using b Cons(1) by (simp add: algebra_simps)
    then show ?thesis using 2 by (simp add: MojComp_def word_less_def)
  next
    case 3
    then have "(uint y + 1) * 256 ^ length xs \<le> uint x * 256 ^ length xs"
      by (intro mult_right_mono) simp_all
    then have "0 < be_val (x # xs) - be_val (y # ys)"
      using b Cons(1) by (simp add: algebra_simps)
    then show ?thesis using 3 by (simp add: MojComp_def word_less_def)
  qed
qed simp

text \<open>
  Numbers of one width, written big endian and followed by anything, compare as the numbers.
\<close>

lemma bcmp_be_bytes_append:
  assumes "uint v < 256 ^ n" "uint w < 256 ^ n"
  shows "sgn (bcmp (be_bytes n v @ r) (be_bytes n w @ s)) =
         (if v = w then sgn (bcmp r s) else sgn (uint v - uint w))"
proof -
  have split: "sgn (bcmp (xs @ r) (ys @ s)) =
      (if xs = ys then sgn (bcmp r s) else sgn (bcmp xs ys))" if "length xs = length ys" for xs ys
    using that by (induction xs ys rule: list_induct2) (auto simp: Let_def)
  have cmp: "sgn (bcmp (be_bytes n v) (be_bytes n w)) = sgn (uint v - uint w)"
    using assms by (simp add: bcmp_be_val be_val_be_bytes)
  have eq: "be_bytes n v = be_bytes n w \<longleftrightarrow> v = w"
    using assms be_val_be_bytes [of n v] be_val_be_bytes [of n w] by (metis mod_pos_pos_trivial uint_0_iff uint_ge_0 word_uint_eqI)
  show ?thesis using split [of "be_bytes n v" "be_bytes n w"] by (simp add: cmp eq)
qed

section \<open>Round trips\<close>

lemma word_of_be_val:
  "word_of_int (be_val (be_bytes n (w :: 'a::len word))) = w" if "LENGTH('a) = 8 * n"
proof -
  have "uint w < 256 ^ n" using uint_lt2p [of w] that by (simp add: power_mult)
  then show ?thesis by (simp add: be_val_be_bytes)
qed

lemma readUInt8_write [simp]: "readUInt8 (writeUInt8 b @ r) = Inr (b, r)"
  by (simp add: readUInt8_def writeUInt8_def)

text \<open>Each reader computes the number the bytes hold.\<close>

lemma readUInt16_list: "readUInt16 (b0 # b1 # r) = Inr (word_of_int (be_val [b0, b1]), r)"
  by (simp add: readUInt16_def push_bit_eq_mult)

lemma readUInt32_list:
  "readUInt32 (b0 # b1 # b2 # b3 # r) = Inr (word_of_int (be_val [b0, b1, b2, b3]), r)"
  by (simp add: readUInt32_def push_bit_eq_mult)

lemma readInt64_list:
  "readInt64 (b0 # b1 # b2 # b3 # b4 # b5 # b6 # b7 # r) =
   Inr (word_of_int (be_val [b0, b1, b2, b3, b4, b5, b6, b7]), r)"
  by (simp add: readInt64_def push_bit_eq_mult)

lemma be_bytes_expand:
  "be_bytes 2 v = [ucast (drop_bit 8 v), ucast v]"
  "be_bytes 4 v = [ucast (drop_bit 24 v), ucast (drop_bit 16 v), ucast (drop_bit 8 v), ucast v]"
  "be_bytes 8 v = [ucast (drop_bit 56 v), ucast (drop_bit 48 v), ucast (drop_bit 40 v),
     ucast (drop_bit 32 v), ucast (drop_bit 24 v), ucast (drop_bit 16 v), ucast (drop_bit 8 v), ucast v]"
  by (simp_all add: eval_nat_numeral)

lemma readUInt16_write [simp]: "readUInt16 (writeUInt16 v @ r) = Inr (v, r)"
  using word_of_be_val [of 2 v] unfolding writeUInt16_def be_bytes_expand
  by (simp del: be_val.simps add: readUInt16_list)

lemma readUInt32_write [simp]: "readUInt32 (writeUInt32 v @ r) = Inr (v, r)"
  using word_of_be_val [of 4 v] unfolding writeUInt32_def be_bytes_expand
  by (simp del: be_val.simps add: readUInt32_list)

lemma readInt64_write [simp]: "readInt64 (writeInt64 v @ r) = Inr (v, r)"
  using word_of_be_val [of 8 v] unfolding writeInt64_def be_bytes_expand
  by (simp del: be_val.simps add: readInt64_list)

lemma readDecimal_write [simp]: "readDecimal (writeDecimal v @ r) = Inr (v, r)"
  by (simp add: readDecimal_def writeDecimal_def)

text \<open>A successful read consumes bytes: the reader's loops end.\<close>

lemma read_shrinks:
  "readUInt8 r = Inr (b, r') \<Longrightarrow> length r' < length r"
  "readUInt16 r = Inr (v16, r') \<Longrightarrow> length r' < length r"
  "readUInt32 r = Inr (v32, r') \<Longrightarrow> length r' < length r"
  "readInt64 r = Inr (v64, r') \<Longrightarrow> length r' < length r"
  "skip n r = Inr r' \<Longrightarrow> length r' \<le> length r"
  by (auto simp: readUInt8_def readUInt16_def readUInt32_def readInt64_def skip_def
      split: list.splits if_splits)

end
