(* ===== verification/MojMap.thy ===== *)
theory MojMap
  imports Compare
begin

text \<open>
  \<^verbatim>\<open>MojMap\<close> and \<^verbatim>\<open>MojSet\<close> (\<^verbatim>\<open>inc/core/MojMap.h\<close>, \<^verbatim>\<open>inc/core/MojSet.h\<close>) as their iterators show
  them: the nodes in key order. A node's key is compared with the argument's by \<^verbatim>\<open>compareKey\<close>,
  that is \<open>kcmp (key of the node) key\<close>. The red-black tree underneath is the theory RbTree; here
  are the abstract operations, and the contract \<open>sorted_map\<close> that the clients use.
\<close>

section \<open>Operations on the node list\<close>

fun map_put :: "('k \<Rightarrow> 'k \<Rightarrow> int) \<Rightarrow> 'k \<Rightarrow> 'v \<Rightarrow> ('k \<times> 'v) list \<Rightarrow> ('k \<times> 'v) list" where
  "map_put kcmp key val [] = [(key, val)]"
| "map_put kcmp key val ((k, v) # nodes) =
     (if kcmp k key = 0 then (key, val) # nodes
      else if kcmp k key < 0 then (k, v) # map_put kcmp key val nodes
      else (key, val) # (k, v) # nodes)"

fun map_get :: "('k \<Rightarrow> 'k \<Rightarrow> int) \<Rightarrow> 'k \<Rightarrow> ('k \<times> 'v) list \<Rightarrow> 'v option" where
  "map_get kcmp key [] = None"
| "map_get kcmp key ((k, v) # nodes) = (if kcmp k key = 0 then Some v else map_get kcmp key nodes)"

fun map_del :: "('k \<Rightarrow> 'k \<Rightarrow> int) \<Rightarrow> 'k \<Rightarrow> ('k \<times> 'v) list \<Rightarrow> ('k \<times> 'v) list" where
  "map_del kcmp key [] = []"
| "map_del kcmp key ((k, v) # nodes) =
     (if kcmp k key = 0 then nodes else (k, v) # map_del kcmp key nodes)"

text \<open>A \<^verbatim>\<open>MojSet\<close> is a tree of keys alone.\<close>

fun set_put :: "('k \<Rightarrow> 'k \<Rightarrow> int) \<Rightarrow> 'k \<Rightarrow> 'k list \<Rightarrow> 'k list" where
  "set_put kcmp key [] = [key]"
| "set_put kcmp key (k # ks) =
     (if kcmp k key = 0 then key # ks
      else if kcmp k key < 0 then k # set_put kcmp key ks
      else key # k # ks)"

fun set_del :: "('k \<Rightarrow> 'k \<Rightarrow> int) \<Rightarrow> 'k \<Rightarrow> 'k list \<Rightarrow> 'k list" where
  "set_del kcmp key [] = []"
| "set_del kcmp key (k # ks) = (if kcmp k key = 0 then ks else k # set_del kcmp key ks)"

definition set_contains :: "('k \<Rightarrow> 'k \<Rightarrow> int) \<Rightarrow> 'k \<Rightarrow> 'k list \<Rightarrow> bool" where
  "set_contains kcmp key ks = (\<exists>k \<in> set ks. kcmp k key = 0)"

text \<open>\<^verbatim>\<open>MojRbTreeBase::put(const MojRbTreeBase&)\<close>: every node of another tree, in order.\<close>

definition set_put_all :: "('k \<Rightarrow> 'k \<Rightarrow> int) \<Rightarrow> 'k list \<Rightarrow> 'k list \<Rightarrow> 'k list" where
  "set_put_all kcmp other ks = foldl (\<lambda>acc k. set_put kcmp k acc) ks other"

text \<open>\<^verbatim>\<open>MojRbTreeBase::diff\<close>: a walk along both trees that keeps what the second one lacks.\<close>

fun set_diff :: "('k \<Rightarrow> 'k \<Rightarrow> int) \<Rightarrow> 'k list \<Rightarrow> 'k list \<Rightarrow> 'k list \<Rightarrow> 'k list" where
  "set_diff kcmp [] other out = out"
| "set_diff kcmp (k # ks) [] out = set_diff kcmp ks [] (set_put kcmp k out)"
| "set_diff kcmp (k # ks) (c # other) out =
     (if kcmp k c < 0 then set_diff kcmp ks (c # other) (set_put kcmp k out)
      else if kcmp k c = 0 then set_diff kcmp ks other out
      else set_diff kcmp (k # ks) other out)"

section \<open>The contract\<close>

definition sorted_keys :: "('k \<Rightarrow> 'k \<Rightarrow> int) \<Rightarrow> ('k \<times> 'v) list \<Rightarrow> bool" where
  "sorted_keys kcmp nodes \<longleftrightarrow> sorted_wrt (\<lambda>p q. kcmp (fst p) (fst q) < 0) nodes"

lemma sorted_keys_simps [simp]:
  "sorted_keys kcmp []"
  "sorted_keys kcmp ((k, v) # nodes) \<longleftrightarrow> (\<forall>p \<in> set nodes. kcmp k (fst p) < 0) \<and> sorted_keys kcmp nodes"
  by (simp_all add: sorted_keys_def)

lemma map_put_mem: "p \<in> set (map_put kcmp key val nodes) \<Longrightarrow> p = (key, val) \<or> p \<in> set nodes"
  by (induction nodes) (auto split: if_splits)

lemma map_del_subset: "set (map_del kcmp key nodes) \<subseteq> set nodes"
  by (induction nodes) (auto split: if_splits)

lemma map_put_last:
  "(\<And>p. p \<in> set nodes \<Longrightarrow> kcmp (fst p) key < 0) \<Longrightarrow> map_put kcmp key val nodes = nodes @ [(key, val)]"
proof (induction nodes)
  case (Cons p nodes)
  have "kcmp (fst p) key < 0" using Cons.prems by simp
  moreover have "map_put kcmp key val nodes = nodes @ [(key, val)]" using Cons by simp
  ultimately show ?case by (cases p) simp
qed simp

locale sorted_map = comparator kcmp ok for kcmp :: "'k \<Rightarrow> 'k \<Rightarrow> int" and ok :: "'k \<Rightarrow> bool"
begin

abbreviation (input) all_ok :: "('k \<times> 'v) list \<Rightarrow> bool" where
  "all_ok nodes \<equiv> \<forall>p \<in> set nodes. ok (fst p)"

lemma put_ok: "ok key \<Longrightarrow> all_ok nodes \<Longrightarrow> all_ok (map_put kcmp key val nodes)"
  by (auto dest: map_put_mem)

lemma put_sorted:
  "ok key \<Longrightarrow> all_ok nodes \<Longrightarrow> sorted_keys kcmp nodes \<Longrightarrow> sorted_keys kcmp (map_put kcmp key val nodes)"
proof (induction nodes)
  case (Cons p nodes)
  obtain k v where p: "p = (k, v)" by (cases p)
  have k: "ok k" "all_ok nodes" "\<And>q. q \<in> set nodes \<Longrightarrow> kcmp k (fst q) < 0"
    using Cons.prems p by auto
  consider "kcmp k key = 0" | "kcmp k key < 0" | "0 < kcmp k key" by linarith
  then show ?case
  proof cases
    case 1
    then have "kcmp key (fst q) < 0" if "q \<in> set nodes" for q
      using that k Cons.prems(1) cmp_trans_lt' [of key k "fst q"] cmp_eq_sym [of k key] by auto
    then show ?thesis using 1 Cons.prems p by simp
  next
    case 2
    then show ?thesis using Cons p k by (auto dest!: map_put_mem)
  next
    case 3
    then have kk: "kcmp key k < 0" using k Cons.prems(1) cmp_lt_iff [of k key] by simp
    then have "kcmp key (fst q) < 0" if "q \<in> set nodes" for q
      using that k Cons.prems(1) cmp_trans_lt [of key k "fst q"] by fastforce
    then show ?thesis using 3 kk Cons.prems p by auto
  qed
qed simp

lemma get_put:
  assumes "ok key" "ok key'" "all_ok nodes" "sorted_keys kcmp nodes"
  shows "map_get kcmp key' (map_put kcmp key val nodes) =
    (if kcmp key key' = 0 then Some val else map_get kcmp key' nodes)"
  using assms
proof (induction nodes)
  case (Cons p nodes)
  obtain k v where p: "p = (k, v)" by (cases p)
  have k: "ok k" "all_ok nodes" using Cons.prems p by auto
  have eq: "kcmp k key' = 0 \<longleftrightarrow> kcmp key key' = 0" if "kcmp k key = 0"
  proof -
    have "kcmp key k = 0" using that k Cons.prems(1) cmp_eq_sym [of k key] by simp
    then show ?thesis
      using that k Cons.prems cmp_trans [of k key key'] cmp_trans [of key' key k]
        cmp_trans [of key k key'] cmp_trans [of key' k key]
        cmp_le_iff [of k key'] cmp_le_iff [of key key'] by force
  qed
  have ne: "kcmp key key' \<noteq> 0" if "kcmp k key < 0" "kcmp k key' = 0"
    using that k Cons.prems cmp_trans_lt [of k key key'] by fastforce
  show ?case using Cons p k eq ne by auto
qed simp

lemma del_sorted: "sorted_keys kcmp nodes \<Longrightarrow> sorted_keys kcmp (map_del kcmp key nodes)"
proof (induction nodes)
  case (Cons p nodes)
  then show ?case
    using map_del_subset [of kcmp key nodes] by (cases p) (auto dest: subsetD)
qed simp

lemma get_None: "\<forall>p \<in> set nodes. kcmp (fst p) key \<noteq> 0 \<Longrightarrow> map_get kcmp key nodes = None"
  by (induction nodes) auto

lemma get_del:
  assumes "ok key" "ok key'" "all_ok nodes" "sorted_keys kcmp nodes"
  shows "map_get kcmp key' (map_del kcmp key nodes) =
    (if kcmp key key' = 0 then None else map_get kcmp key' nodes)"
  using assms
proof (induction nodes)
  case (Cons p nodes)
  obtain k v where p: "p = (k, v)" by (cases p)
  have k: "ok k" "all_ok nodes" "\<And>q. q \<in> set nodes \<Longrightarrow> kcmp k (fst q) < 0"
    using Cons.prems p by auto
  have eq: "kcmp k key' = 0 \<longleftrightarrow> kcmp key key' = 0" if "kcmp k key = 0"
  proof -
    have "kcmp key k = 0" using that k Cons.prems(1) cmp_eq_sym [of k key] by simp
    then show ?thesis
      using that k Cons.prems cmp_trans [of k key key'] cmp_trans [of key' key k]
        cmp_trans [of key k key'] cmp_trans [of key' k key]
        cmp_le_iff [of k key'] cmp_le_iff [of key key'] by force
  qed
  have none: "map_get kcmp key' nodes = None" if "kcmp k key' = 0"
  proof (rule get_None, intro ballI)
    fix q assume q: "q \<in> set nodes"
    then have "ok (fst q)" "kcmp k (fst q) < 0" using k by auto
    then show "kcmp (fst q) key' \<noteq> 0"
      using that k(1) Cons.prems(2) cmp_trans_lt [of k "fst q" key'] by fastforce
  qed
  have ne: "kcmp key key' \<noteq> 0" if "kcmp k key \<noteq> 0" "kcmp k key' = 0"
  proof
    assume z: "kcmp key key' = 0"
    have "kcmp key' key = 0" "kcmp key' k = 0"
      using z that k(1) Cons.prems cmp_eq_sym by auto
    then show False
      using that z k(1) Cons.prems cmp_trans [of k key' key] cmp_trans [of key key' k]
        cmp_le_iff [of k key] by force
  qed
  show ?case using Cons p k eq none ne by auto
qed simp

end

section \<open>The providers\<close>

interpretation str_map: sorted_map MojStrCmp "\<lambda>_. True"
  by (rule sorted_map.intro) (rule str_comp.comparator_axioms)

interpretation key_map: sorted_map bcmp "\<lambda>_. True"
  by (rule sorted_map.intro) (rule comparator_mono [OF bcmp.comparator_axioms], simp add: list_all_iff)

end
