(* ===== verification/MojObj.thy ===== *)
theory MojObj
  imports DataSerial MojMap
begin

text \<open>
  \<^verbatim>\<open>MojObject\<close> (\<^verbatim>\<open>inc/core/MojObject.h\<close>, \<^verbatim>\<open>src/core/MojObject.cpp\<close>): the dynamically typed value that
  every layer above passes around. One constructor per \<^verbatim>\<open>Impl\<close> class. An object's \<^verbatim>\<open>PropMap\<close> is
  the list of its nodes in key order, which is all that its operations and its iterators show.
\<close>

section \<open>Values\<close>

datatype MojType =
    TypeUndefined | TypeNull | TypeObject | TypeArray | TypeString | TypeBool | TypeDecimal | TypeInt

datatype obj =
    OUndefined
  | ONull
  | OObject "(string \<times> obj) list"
  | OArray "obj list"
  | OString string
  | OBool bool
  | ODecimal i64
  | OInt i64

type_synonym props = "(string \<times> obj) list"

fun type_rank :: "MojType \<Rightarrow> int" where
  "type_rank TypeUndefined = 0"
| "type_rank TypeNull = 1"
| "type_rank TypeObject = 2"
| "type_rank TypeArray = 3"
| "type_rank TypeString = 4"
| "type_rank TypeBool = 5"
| "type_rank TypeDecimal = 6"
| "type_rank TypeInt = 7"

fun obj_type :: "obj \<Rightarrow> MojType" where
  "obj_type OUndefined = TypeUndefined"
| "obj_type ONull = TypeNull"
| "obj_type (OObject ps) = TypeObject"
| "obj_type (OArray xs) = TypeArray"
| "obj_type (OString s) = TypeString"
| "obj_type (OBool b) = TypeBool"
| "obj_type (ODecimal d) = TypeDecimal"
| "obj_type (OInt i) = TypeInt"

lemma type_rank_inj [simp]: "type_rank t = type_rank u \<longleftrightarrow> t = u"
  by (cases t; cases u) simp_all

text \<open>The enumeration order of \<^verbatim>\<open>MojObject::Type\<close>, as a library order.\<close>

instantiation MojType :: linorder
begin

definition less_eq_MojType :: "MojType \<Rightarrow> MojType \<Rightarrow> bool" where
  "less_eq_MojType t u \<longleftrightarrow> type_rank t \<le> type_rank u"

definition less_MojType :: "MojType \<Rightarrow> MojType \<Rightarrow> bool" where
  "less_MojType t u \<longleftrightarrow> type_rank t < type_rank u"

instance
  by standard (auto simp: less_eq_MojType_def less_MojType_def)

end

lemma obj_size_elem [termination_simp]: "x \<in> set xs \<Longrightarrow> size x < size (OArray xs)"
  by (induction xs) auto

lemma obj_size_prop [termination_simp]: "p \<in> set ps \<Longrightarrow> size (snd p) < size (OObject ps)"
  by (induction ps) auto

section \<open>compare and operator==\<close>

text \<open>
  Each \<^verbatim>\<open>Impl\<close> class brings its own \<^verbatim>\<open>compare\<close> and \<^verbatim>\<open>equals\<close>; those of the containers take the
  comparison of the elements as an argument. The property map compares node by node in key order
  (\<^verbatim>\<open>MojRbTreeBase::compare\<close>).
\<close>

definition NullImpl_compare :: int where
  "NullImpl_compare = 0"

definition ObjectImpl_compare :: "(obj \<Rightarrow> obj \<Rightarrow> int) \<Rightarrow> props \<Rightarrow> props \<Rightarrow> int" where
  "ObjectImpl_compare vcomp ps qs = vec_compare (pair_compare MojStrCmp vcomp) ps qs"

definition ArrayImpl_compare :: "(obj \<Rightarrow> obj \<Rightarrow> int) \<Rightarrow> obj list \<Rightarrow> obj list \<Rightarrow> int" where
  "ArrayImpl_compare vcomp xs ys = vec_compare vcomp xs ys"

definition StringImpl_compare :: "string \<Rightarrow> string \<Rightarrow> int" where
  "StringImpl_compare s t = MojStrCmp s t"

definition BoolImpl_compare :: "bool \<Rightarrow> bool \<Rightarrow> int" where
  "BoolImpl_compare p q = of_bool p - of_bool q"

definition DecimalImpl_compare :: "i64 \<Rightarrow> i64 \<Rightarrow> int" where
  "DecimalImpl_compare d e = MojComp (sint d) (sint e)"

definition IntImpl_compare :: "i64 \<Rightarrow> i64 \<Rightarrow> int" where
  "IntImpl_compare i j = MojComp (sint i) (sint j)"

lemma ObjectImpl_compare_cong [fundef_cong]:
  "ps = ps' \<Longrightarrow> qs = qs' \<Longrightarrow>
   (\<And>p q. p \<in> set ps' \<Longrightarrow> q \<in> set qs' \<Longrightarrow> f (snd p) (snd q) = g (snd p) (snd q)) \<Longrightarrow>
   ObjectImpl_compare f ps qs = ObjectImpl_compare g ps' qs'"
  unfolding ObjectImpl_compare_def by (intro vec_compare_cong pair_compare_cong) auto

lemma ArrayImpl_compare_cong [fundef_cong]:
  "xs = xs' \<Longrightarrow> ys = ys' \<Longrightarrow> (\<And>x y. x \<in> set xs' \<Longrightarrow> y \<in> set ys' \<Longrightarrow> f x y = g x y) \<Longrightarrow>
   ArrayImpl_compare f xs ys = ArrayImpl_compare g xs' ys'"
  unfolding ArrayImpl_compare_def by (rule vec_compare_cong)

lemmas Impl_compare_defs [moj_defs] = NullImpl_compare_def ObjectImpl_compare_def
  ArrayImpl_compare_def StringImpl_compare_def BoolImpl_compare_def DecimalImpl_compare_def
  IntImpl_compare_def

text \<open>\<^verbatim>\<open>MojObject::compare\<close>: the types first, then the implementation's own comparison.\<close>

function obj_compare :: "obj \<Rightarrow> obj \<Rightarrow> int" where
  "obj_compare val1 val2 =
     (if obj_type val1 \<noteq> obj_type val2
      then type_rank (obj_type val1) - type_rank (obj_type val2)
      else (case val1 of
              OObject ps \<Rightarrow>
                (case val2 of OObject qs \<Rightarrow> ObjectImpl_compare obj_compare ps qs | _ \<Rightarrow> 0)
            | OArray xs \<Rightarrow> (case val2 of OArray ys \<Rightarrow> ArrayImpl_compare obj_compare xs ys | _ \<Rightarrow> 0)
            | OString s \<Rightarrow> (case val2 of OString t \<Rightarrow> StringImpl_compare s t | _ \<Rightarrow> 0)
            | OBool p \<Rightarrow> (case val2 of OBool q \<Rightarrow> BoolImpl_compare p q | _ \<Rightarrow> 0)
            | ODecimal d \<Rightarrow> (case val2 of ODecimal e \<Rightarrow> DecimalImpl_compare d e | _ \<Rightarrow> 0)
            | OInt i \<Rightarrow> (case val2 of OInt j \<Rightarrow> IntImpl_compare i j | _ \<Rightarrow> 0)
            | ONull \<Rightarrow> NullImpl_compare
            | OUndefined \<Rightarrow> NullImpl_compare))"
  by pat_completeness auto
termination
  by (relation "measure (\<lambda>(a, b). size a)")
    (auto simp del: obj.size dest: obj_size_elem obj_size_prop)

declare obj_compare.simps [simp del]

lemma obj_compare_simps [simp]:
  "obj_compare (OObject ps) (OObject qs) = vec_compare (pair_compare MojStrCmp obj_compare) ps qs"
  "obj_compare (OArray xs) (OArray ys) = vec_compare obj_compare xs ys"
  "obj_compare (OString s) (OString t) = MojStrCmp s t"
  "obj_compare (OBool p) (OBool q) = of_bool p - of_bool q"
  "obj_compare (ODecimal d) (ODecimal e) = MojComp (sint d) (sint e)"
  "obj_compare (OInt i) (OInt j) = MojComp (sint i) (sint j)"
  "obj_compare ONull ONull = 0"
  "obj_compare OUndefined OUndefined = 0"
  by (simp_all add: obj_compare.simps Impl_compare_defs)

lemma obj_compare_types:
  "obj_type a \<noteq> obj_type b \<Longrightarrow> obj_compare a b = type_rank (obj_type a) - type_rank (obj_type b)"
  by (simp add: obj_compare.simps)

text \<open>
  \<^verbatim>\<open>MojObject::operator==\<close>: maps by size and \<^verbatim>\<open>compare\<close> (\<^verbatim>\<open>MojRbTreeBase::equals\<close>), vectors element
  by element with \<^verbatim>\<open>==\<close> (\<^verbatim>\<open>MojVector::operator==\<close>).
\<close>

definition ObjectImpl_equals :: "props \<Rightarrow> props \<Rightarrow> bool" where
  "ObjectImpl_equals ps qs \<longleftrightarrow>
     (if length ps \<noteq> length qs then False else ObjectImpl_compare obj_compare ps qs = 0)"

definition StringImpl_equals :: "string \<Rightarrow> string \<Rightarrow> bool" where
  "StringImpl_equals s t \<longleftrightarrow> MojStrCmp s t = 0"

fun obj_eq :: "obj \<Rightarrow> obj \<Rightarrow> bool" where
  "obj_eq val1 val2 =
     (if obj_type val1 \<noteq> obj_type val2 then False
      else (case val1 of
              OObject ps \<Rightarrow> (case val2 of OObject qs \<Rightarrow> ObjectImpl_equals ps qs | _ \<Rightarrow> False)
            | OArray xs \<Rightarrow> (case val2 of OArray ys \<Rightarrow> list_all2 obj_eq xs ys | _ \<Rightarrow> False)
            | OString s \<Rightarrow> (case val2 of OString t \<Rightarrow> StringImpl_equals s t | _ \<Rightarrow> False)
            | OBool p \<Rightarrow> (case val2 of OBool q \<Rightarrow> p = q | _ \<Rightarrow> False)
            | ODecimal d \<Rightarrow> (case val2 of ODecimal e \<Rightarrow> d = e | _ \<Rightarrow> False)
            | OInt i \<Rightarrow> (case val2 of OInt j \<Rightarrow> i = j | _ \<Rightarrow> False)
            | _ \<Rightarrow> True))"

lemmas obj_eq_defs = obj_eq.simps ObjectImpl_equals_def ObjectImpl_compare_def StringImpl_equals_def

declare obj_eq.simps [simp del]

section \<open>Well-formed values\<close>

text \<open>
  The keys of a property map are in strict \<^verbatim>\<open>strcmp\<close> order, and no string holds a NUL. The
  operations below keep it; the JSON parser and the readers only build such values.
\<close>

abbreviation sorted_props :: "props \<Rightarrow> bool" where
  "sorted_props \<equiv> sorted_keys MojStrCmp"

fun wf_obj :: "obj \<Rightarrow> bool" where
  "wf_obj (OObject ps) \<longleftrightarrow> sorted_props ps \<and> (\<forall>p \<in> set ps. nonul (fst p) \<and> wf_obj (snd p))"
| "wf_obj (OArray xs) \<longleftrightarrow> (\<forall>x \<in> set xs. wf_obj x)"
| "wf_obj (OString s) \<longleftrightarrow> nonul s"
| "wf_obj _ \<longleftrightarrow> True"

text \<open>Values without an undefined part: undefined is visited as null, so it does not survive a trip.\<close>

fun no_undef :: "obj \<Rightarrow> bool" where
  "no_undef (OObject ps) \<longleftrightarrow> (\<forall>p \<in> set ps. no_undef (snd p))"
| "no_undef (OArray xs) \<longleftrightarrow> (\<forall>x \<in> set xs. no_undef x)"
| "no_undef OUndefined \<longleftrightarrow> False"
| "no_undef _ \<longleftrightarrow> True"

section \<open>compare is a comparator\<close>

lemma sgn_type_diff: "obj_type a \<noteq> obj_type b \<Longrightarrow>
   sgn (obj_compare a b) = (if obj_type a < obj_type b then - 1 else 1)"
  using type_rank_inj [of "obj_type a" "obj_type b"]
  by (auto simp: obj_compare_types less_MojType_def sgn_if)

lemma obj_compare_le_type: "obj_compare a b \<le> 0 \<Longrightarrow> obj_type a \<le> obj_type b"
  using sgn_type_diff [of a b] by (cases "obj_type a = obj_type b") (auto simp: sgn_if split: if_splits)

lemma obj_compare_lt_type: "obj_type a < obj_type b \<Longrightarrow> obj_compare a b < 0"
  by (cases "obj_type a = obj_type b") (auto simp: obj_compare_types less_MojType_def)

lemma same_type_cases [consumes 1, case_names Undefined Null Object Array String Bool Decimal Int]:
  assumes "obj_type x = obj_type y"
  obtains "x = OUndefined" "y = OUndefined"
  | "x = ONull" "y = ONull"
  | ps qs where "x = OObject ps" "y = OObject qs"
  | xs ys where "x = OArray xs" "y = OArray ys"
  | s t where "x = OString s" "y = OString t"
  | p q where "x = OBool p" "y = OBool q"
  | d e where "x = ODecimal d" "y = ODecimal e"
  | i j where "x = OInt i" "y = OInt j"
  using assms by (cases x; cases y) simp_all

lemma obj_comparator_size: "comparator obj_compare (\<lambda>x. size x < n)"
proof (induction n)
  case 0
  show ?case by unfold_locales simp_all
next
  case (Suc n)
  have elems: "list_all (\<lambda>x. size x < n) xs" if "size (OArray xs) < Suc n" for xs
    using that obj_size_elem [of _ xs] by (fastforce simp: list_all_iff simp del: obj.size)
  have prs: "list_all (\<lambda>p. True \<and> size (snd p) < n) ps" if "size (OObject ps) < Suc n" for ps
    using that obj_size_prop [of _ ps] by (fastforce simp: list_all_iff simp del: obj.size)
  note V = comparator.vec_comparator [OF Suc]
  note P = comparator.vec_comparator [OF pair_comparator [OF str_comp.comparator_axioms Suc]]
  show ?case
  proof (unfold_locales, goal_cases)
    case (1 x y)
    show ?case
    proof (cases "obj_type x = obj_type y")
      case True
      then show ?thesis
      proof (cases rule: same_type_cases)
        case (Object ps qs)
        then show ?thesis using 1 comparator.cmp_antisym [OF P, OF prs prs, of ps qs] by simp
      next
        case (Array xs ys)
        then show ?thesis using 1 comparator.cmp_antisym [OF V, OF elems elems, of xs ys] by simp
      next
        case (String s t)
        then show ?thesis using str_comp.cmp_antisym [of s t] by simp
      next
        case (Decimal d e)
        then show ?thesis using default_comp.cmp_antisym [of "sint d" "sint e"] by simp
      next
        case (Int i j)
        then show ?thesis using default_comp.cmp_antisym [of "sint i" "sint j"] by simp
      qed simp_all
    next
      case False
      then show ?thesis using sgn_type_diff [of x y] sgn_type_diff [of y x] by auto
    qed
  next
    case (2 x y z)
    then have t: "obj_type x \<le> obj_type y" "obj_type y \<le> obj_type z"
      by (auto dest: obj_compare_le_type)
    show ?case
    proof (cases "obj_type x = obj_type z")
      case True
      then have xy: "obj_type x = obj_type y" and yz: "obj_type y = obj_type z" using t by auto
      from xy show ?thesis
      proof (cases rule: same_type_cases)
        case (Object ps qs)
        then obtain rs where "z = OObject rs" using yz by (cases z) simp_all
        then show ?thesis
          using 2 Object comparator.cmp_trans [OF P, OF prs prs prs, of ps qs rs] by simp
      next
        case (Array xs ys)
        then obtain zs where "z = OArray zs" using yz by (cases z) simp_all
        then show ?thesis
          using 2 Array comparator.cmp_trans [OF V, OF elems elems elems, of xs ys zs] by simp
      next
        case (String s u)
        then obtain v where "z = OString v" using yz by (cases z) simp_all
        then show ?thesis using 2 String str_comp.cmp_trans [of s u v] by simp
      next
        case (Bool p q)
        then obtain r where "z = OBool r" using yz by (cases z) simp_all
        then show ?thesis using 2 Bool by auto
      next
        case (Decimal d e)
        then obtain f where "z = ODecimal f" using yz by (cases z) simp_all
        then show ?thesis
          using 2 Decimal default_comp.cmp_trans [of "sint d" "sint e" "sint f"] by simp
      next
        case (Int i j)
        then obtain k where "z = OInt k" using yz by (cases z) simp_all
        then show ?thesis
          using 2 Int default_comp.cmp_trans [of "sint i" "sint j" "sint k"] by simp
      qed (use yz in \<open>cases z; simp\<close>)+
    next
      case False
      then have "obj_type x < obj_type z" using t by (metis order.trans order_le_neq_trans)
      then show ?thesis using obj_compare_lt_type [of x z] by simp
    qed
  qed
qed

interpretation obj_comp: comparator obj_compare "\<lambda>_. True"
proof (unfold_locales, goal_cases)
  case (1 x y)
  then show ?case
    using comparator.cmp_antisym [OF obj_comparator_size, of x "Suc (max (size x) (size y))" y] by simp
next
  case (2 x y z)
  then show ?case
    using comparator.cmp_trans
      [OF obj_comparator_size, of x "Suc (max (size x) (max (size y) (size z)))" y z]
    by simp
qed

text \<open>On well-formed values zero means equal.\<close>

lemma vec_compare_0_eq:
  "vec_compare cmp xs ys = 0 \<Longrightarrow> (\<And>x y. x \<in> set xs \<Longrightarrow> y \<in> set ys \<Longrightarrow> cmp x y = 0 \<Longrightarrow> x = y) \<Longrightarrow> xs = ys"
proof (induction xs arbitrary: ys)
  case Nil
  then show ?case by (simp split: if_splits)
next
  case (Cons x xs)
  then obtain y ys' where ys: "ys = y # ys'" by (cases ys) simp_all
  with Cons.prems(1) have c: "cmp x y = 0" "vec_compare cmp xs ys' = 0"
    by (simp_all add: Let_def split: if_splits)
  have "xs = ys'" using c(2) Cons.prems(2) ys by (intro Cons.IH) simp_all
  moreover have "x = y" using c(1) Cons.prems(2) ys by simp
  ultimately show ?case using ys by simp
qed

lemma vec_compare_0_list_all2:
  "vec_compare cmp xs ys = 0 \<longleftrightarrow> list_all2 (\<lambda>x y. cmp x y = 0) xs ys"
proof (induction xs arbitrary: ys)
  case Nil
  then show ?case by (cases ys) simp_all
next
  case (Cons x xs)
  then show ?case by (cases ys) (simp_all add: Let_def)
qed

lemma obj_compare_0_type: "obj_compare x y = 0 \<Longrightarrow> obj_type x = obj_type y"
  using obj_compare_types [of x y] by fastforce

lemma obj_compare_eq: "wf_obj x \<Longrightarrow> wf_obj y \<Longrightarrow> obj_compare x y = 0 \<Longrightarrow> x = y"
proof (induction x arbitrary: y rule: measure_induct_rule [of size])
  case (less x)
  from obj_compare_0_type [OF less.prems(3)] show ?case
  proof (cases rule: same_type_cases)
    case (Object ps qs)
    have "ps = qs"
    proof (rule vec_compare_0_eq)
      show "vec_compare (pair_compare MojStrCmp obj_compare) ps qs = 0"
        using less.prems(3) Object by simp
      fix p q
      assume pq: "p \<in> set ps" "q \<in> set qs" "pair_compare MojStrCmp obj_compare p q = 0"
      then have z: "MojStrCmp (fst p) (fst q) = 0" "obj_compare (snd p) (snd q) = 0"
        by (auto simp: pair_compare_def Let_def split: if_splits)
      have "snd p = snd q"
        using z(2) less.prems Object pq obj_size_prop [of p ps] by (intro less.IH) auto
      moreover have "fst p = fst q"
        using z(1) less.prems Object pq str_comp_nonul.cmp_eq [of "fst p" "fst q"] by simp
      ultimately show "p = q" by (simp add: prod_eq_iff)
    qed
    then show ?thesis using Object by simp
  next
    case (Array xs ys)
    have "xs = ys"
    proof (rule vec_compare_0_eq)
      show "vec_compare obj_compare xs ys = 0" using less.prems(3) Array by simp
      fix u v
      assume "u \<in> set xs" "v \<in> set ys" "obj_compare u v = 0"
      then show "u = v" using less.prems Array obj_size_elem [of u xs] by (intro less.IH) auto
    qed
    then show ?thesis using Array by simp
  next
    case (String s t)
    then show ?thesis using less.prems str_comp_nonul.cmp_eq [of s t] by simp
  qed (use less.prems in \<open>auto split: if_splits\<close>)
qed

interpretation obj_comp_wf: comparator_strict obj_compare wf_obj
proof (unfold comparator_strict_def comparator_strict_axioms_def, intro conjI allI impI)
  show "comparator obj_compare wf_obj"
    by (rule comparator_mono [OF obj_comp.comparator_axioms]) simp
qed (rule obj_compare_eq)

text \<open>\<^verbatim>\<open>==\<close> and \<^verbatim>\<open>compare\<close> agree, on any two values.\<close>

lemma obj_eq_compare: "obj_eq x y \<longleftrightarrow> obj_compare x y = 0"
proof (induction x arbitrary: y rule: measure_induct_rule [of size])
  case (less x)
  show ?case
  proof (cases "obj_type x = obj_type y")
    case True
    then show ?thesis
    proof (cases rule: same_type_cases)
      case (Object ps qs)
      then show ?thesis
        by (auto simp: obj_eq_defs vec_compare_0_list_all2 dest: list_all2_lengthD)
    next
      case (Array xs ys)
      have "obj_eq u v = (obj_compare u v = 0)" if "u \<in> set xs" for u v
        using less.IH Array obj_size_elem that by blast
      then have "list_all2 obj_eq xs ys = list_all2 (\<lambda>u v. obj_compare u v = 0) xs ys"
        by (intro list.rel_cong) auto
      then show ?thesis using Array by (simp add: obj_eq_defs vec_compare_0_list_all2)
    qed (auto simp: obj_eq_defs)
  next
    case False
    then show ?thesis using obj_compare_0_type [of x y] by (auto simp: obj_eq.simps)
  qed
qed

end
