(* ===== verification/Decimal.thy ===== *)
theory Decimal
  imports Prelude
begin

text \<open>
  \<^verbatim>\<open>MojDecimal\<close> (\<^verbatim>\<open>src/core/MojDecimal.cpp\<close>): a fixed-point number, a signed 64-bit count of
  millionths; its text form, and the number lexer and parser that read it back
  (\<^verbatim>\<open>inc/core/internal/MojNumberLexer.h\<close>, \<^verbatim>\<open>MojNumberParser.h\<close>).
\<close>

section \<open>MojDecimal\<close>

definition Numerator :: int where "Numerator = 1000000"
definition Precision :: nat where "Precision = 6"
definition MaxStringSize :: nat where "MaxStringSize = 24"
definition MojInt64Max :: int where "MojInt64Max = 9223372036854775807"
definition MojInt64Min :: int where "MojInt64Min = - 9223372036854775808"

text \<open>C's division truncates towards zero.\<close>

definition tdiv :: "int \<Rightarrow> int \<Rightarrow> int" where
  "tdiv a b = sgn a * sgn b * (\<bar>a\<bar> div \<bar>b\<bar>)"

definition MagnitudeMax :: int where "MagnitudeMax = tdiv MojInt64Max Numerator - Numerator"
definition MagnitudeMin :: int where "MagnitudeMin = tdiv MojInt64Min Numerator + Numerator"
definition FractionMax :: int where "FractionMax = Numerator - 1"

text \<open>\<^verbatim>\<open>MojDecimal::assign(magnitude, fraction)\<close>: the asserts, then 64-bit arithmetic.\<close>

definition dec_assign :: "i64 \<Rightarrow> u32 \<Rightarrow> i64 res" where
  "dec_assign magnitude fraction =
     (if sint magnitude > MagnitudeMax \<or> sint magnitude < MagnitudeMin then Inl MojAssertFailed
      else if uint fraction > FractionMax then Inl MojAssertFailed
      else (let rep = magnitude * word_of_int Numerator in
        Inr (if sint magnitude < 0 then rep - ucast fraction else rep + ucast fraction)))"

definition dec_magnitude :: "i64 \<Rightarrow> i64" where
  "dec_magnitude rep = word_of_int (tdiv (sint rep) Numerator)"

text \<open>\<^verbatim>\<open>MojAbs\<close> on a 64-bit integer: the least one has no positive counterpart and stays.\<close>

definition MojAbs :: "i64 \<Rightarrow> i64" where
  "MojAbs t = (if sint t < 0 then - t else t)"

definition dec_fraction :: "i64 \<Rightarrow> u32" where
  "dec_fraction rep =
     word_of_int (sint (MojAbs rep) - tdiv (sint (MojAbs rep)) Numerator * Numerator)"

text \<open>
  \<^verbatim>\<open>MojDecimal::stringValue\<close>. The first loop writes the digits of the representation in
  reverse order into \<^verbatim>\<open>tmp\<close>, and \<^verbatim>\<open>firstDigit\<close> points at the first that is not zero.
\<close>

function rev_digits :: "int \<Rightarrow> string" where
  "rev_digits rep =
     (if rep = 0 then []
      else (let nxt = tdiv rep 10 in
        char_of (nat (48 + rep - nxt * 10)) # rev_digits nxt))"
  by pat_completeness auto
termination
proof (relation "measure (\<lambda>rep. nat \<bar>rep\<bar>)", goal_cases)
  case (2 rep nxt)
  have "\<bar>rep\<bar> div 10 < \<bar>rep\<bar>" using 2(1) by (intro int_div_less_self) auto
  with 2 show ?case by (simp add: tdiv_def abs_mult)
qed simp

declare rev_digits.simps [simp del]

fun first_nonzero :: "string \<Rightarrow> nat option" where
  "first_nonzero [] = None"
| "first_nonzero (c # cs) = (if c \<noteq> CHR ''0'' then Some 0 else map_option Suc (first_nonzero cs))"

definition dec_stringValue :: "i64 \<Rightarrow> nat \<Rightarrow> string res" where
  "dec_stringValue m_rep bufSize =
     (if bufSize < MaxStringSize then Inl MojErrInsufficientBuf
      else
        let digits = rev_digits (sint (MojAbs m_rep));
            decimalPoint = Precision;
            tmp = digits @ replicate (Suc decimalPoint - length digits) (CHR ''0'');
            firstDigit = (case first_nonzero digits of
                            None \<Rightarrow> decimalPoint - 1
                          | Some i \<Rightarrow> if i > decimalPoint - 1 then decimalPoint - 1 else i)
        in Inr ((if sint m_rep < 0 then ''-'' else []) @
                concat (map (\<lambda>pos. tmp ! pos # (if pos = decimalPoint then ''.'' else []))
                  (rev [firstDigit..<length tmp]))))"

section \<open>MojNumber::Parser\<close>

definition INT_MAX :: int where "INT_MAX = 2147483647"
definition num_base :: int where "num_base = 10"
definition num_bound :: int where "num_bound = (18446744073709551615 - (num_base - 1)) div num_base"
definition exponentBound :: int where "exponentBound = (INT_MAX - (10 - 1)) div 10"
definition int64_pow10_max :: int where "int64_pow10_max = 18"

text \<open>\<^verbatim>\<open>npow\<close>: binary powers from the bit \<^verbatim>\<open>(INT_MAX >> 1) + 1\<close>, that is bit 30, downwards.\<close>

fun npow_loop :: "nat \<Rightarrow> u64 \<Rightarrow> u64 \<Rightarrow> u64 \<Rightarrow> u64" where
  "npow_loop 0 x exp y = y"
| "npow_loop (Suc b) x exp y =
     (let y2 = y * y in npow_loop b x exp (if bit exp b then y2 * x else y2))"

definition npow :: "u64 \<Rightarrow> u64 \<Rightarrow> u64" where
  "npow x exp = npow_loop 31 x exp 1"

record parser =
  positive :: bool
  pvalue :: u64
  valueExp :: int
  exponentPositive :: bool
  exponent :: int

definition parser_reset :: parser where
  "parser_reset = \<lparr>positive = True, pvalue = 0, valueExp = 0, exponentPositive = True, exponent = 0\<rparr>"

definition haveFraction :: "parser \<Rightarrow> bool" where
  "haveFraction p \<longleftrightarrow> valueExp p + exponent p < 0"

text \<open>The callbacks of the lexer.\<close>

definition p_negative :: "parser \<Rightarrow> parser res" where
  "p_negative p = Inr (p\<lparr>positive := False\<rparr>)"

definition realignValue :: "parser \<Rightarrow> parser" where
  "realignValue p =
     (if valueExp p > 0
      then p\<lparr>pvalue := pvalue p * npow (word_of_int num_base) (word_of_int (valueExp p)), valueExp := 0\<rparr>
      else p)"

definition pushDigit :: "int \<Rightarrow> parser \<Rightarrow> parser res" where
  "pushDigit x p =
     (if valueExp p > 0 then Inl MojAssertFailed
      else if uint (pvalue p) > num_bound then Inl MojErrValueOutOfRange
      else Inr (p\<lparr>pvalue := pvalue p * word_of_int num_base + word_of_int x\<rparr>))"

definition p_digit :: "int \<Rightarrow> parser \<Rightarrow> parser res" where
  "p_digit x p =
     (if pvalue p \<noteq> 0 \<and> x = 0
      then (if valueExp p = INT_MAX then Inl MojErrValueOutOfRange
            else Inr (p\<lparr>valueExp := valueExp p + 1\<rparr>))
      else pushDigit x (realignValue p))"

definition p_fractionDigit :: "int \<Rightarrow> parser \<Rightarrow> parser res" where
  "p_fractionDigit x p =
     (let q = realignValue p in pushDigit x (q\<lparr>valueExp := valueExp q - 1\<rparr>))"

definition p_negativeExponent :: "parser \<Rightarrow> parser res" where
  "p_negativeExponent p = Inr (p\<lparr>exponentPositive := False\<rparr>)"

definition p_exponentDigit :: "int \<Rightarrow> parser \<Rightarrow> parser res" where
  "p_exponentDigit x p =
     (if exponent p = 0 \<and> x = 0 then Inr p
      else if exponent p \<ge> exponentBound then Inl MojErrValueOutOfRange
      else Inr (p\<lparr>exponent := exponent p * 10 + x\<rparr>))"

definition p_end :: "parser \<Rightarrow> parser res" where
  "p_end p = Inr (if exponentPositive p then p else p\<lparr>exponent := - exponent p\<rparr>)"

text \<open>
  \<^verbatim>\<open>Parser::toDecimal\<close>. The alignment is an \<^verbatim>\<open>int\<close>, kept at its width; the divisor of the
  rounding branch is a 64-bit power of ten, which is 0 when the exponent is 64 or more.
\<close>

definition toDecimal :: "parser \<Rightarrow> i64 res" where
  "toDecimal p =
     (let alignExp = to_int32 (int Precision + valueExp p + exponent p);
          signed = (\<lambda>rep :: u64. if positive p then rep else - rep)
      in
      if alignExp < 0
      then
        if alignExp < - 1 \<and> npow (word_of_int num_base) (word_of_int (- alignExp - 1)) = 0
        then Inl MojDivByZero
        else
          let rep = (if alignExp < - 1
                     then pvalue p div npow (word_of_int num_base) (word_of_int (- alignExp - 1))
                     else pvalue p)
          in Inr (signed (if uint (rep mod word_of_int num_base) * 2 > num_base
                          then rep div word_of_int num_base + 1
                          else rep div word_of_int num_base))
      else if alignExp > int64_pow10_max then Inl MojErrValueOutOfRange
      else
        let factor = npow (word_of_int num_base) (word_of_int alignExp)
        in if pvalue p > word_of_int MojInt64Max div factor then Inl MojErrValueOutOfRange
           else Inr (signed (pvalue p * factor)))"

section \<open>MojNumber::Lexer\<close>

datatype lex_state =
    StateNumber | StateMagnitude | StateMagnitudeDigits | StateFraction | StateFractionDigits
  | StateExponent | StateExponentFirstDigit | StateExponentDigits

definition isdigit :: "char \<Rightarrow> bool" where
  "isdigit c \<longleftrightarrow> 48 \<le> (of_char c :: nat) \<and> (of_char c :: nat) \<le> 57"

definition digit_val :: "char \<Rightarrow> int" where
  "digit_val c = of_char c - 48"

text \<open>The three digit states, which the cases above them fall through to.\<close>

definition lex_magnitude :: "parser \<Rightarrow> char \<Rightarrow> (lex_state \<times> parser) res" where
  "lex_magnitude p c =
     (if isdigit c
      then rbind (p_digit (digit_val c) p) (\<lambda>p'. Inr (StateMagnitudeDigits, p'))
      else if c = CHR ''.'' then Inr (StateFraction, p)
      else if c = CHR ''e'' \<or> c = CHR ''E'' then Inr (StateExponent, p)
      else Inl MojErrInvalidDecimal)"

definition lex_exponent :: "parser \<Rightarrow> char \<Rightarrow> (lex_state \<times> parser) res" where
  "lex_exponent p c =
     (if isdigit c
      then rbind (p_exponentDigit (digit_val c) p) (\<lambda>p'. Inr (StateExponentDigits, p'))
      else Inl MojErrInvalidDecimal)"

text \<open>One turn of the loop of \<^verbatim>\<open>Lexer::parse\<close>, the visitor being the parser.\<close>

fun lex_step :: "lex_state \<times> parser \<Rightarrow> char \<Rightarrow> (lex_state \<times> parser) res" where
  "lex_step (StateNumber, p) c =
     (if c = CHR ''-'' then rbind (p_negative p) (\<lambda>p'. Inr (StateMagnitude, p'))
      else if c = CHR ''+'' then Inr (StateMagnitude, p)
      else if \<not> isdigit c then Inl MojErrInvalidDecimal
      else lex_magnitude p c)"
| "lex_step (StateMagnitude, p) c = lex_magnitude p c"
| "lex_step (StateMagnitudeDigits, p) c = lex_magnitude p c"
| "lex_step (StateFraction, p) c =
     (if isdigit c
      then rbind (p_fractionDigit (digit_val c) p) (\<lambda>p'. Inr (StateFractionDigits, p'))
      else Inl MojErrInvalidDecimal)"
| "lex_step (StateFractionDigits, p) c =
     (if isdigit c
      then rbind (p_fractionDigit (digit_val c) p) (\<lambda>p'. Inr (StateFractionDigits, p'))
      else if c = CHR ''e'' \<or> c = CHR ''E'' then Inr (StateExponent, p)
      else Inl MojErrInvalidDecimal)"
| "lex_step (StateExponent, p) c =
     (if c = CHR ''-'' then rbind (p_negativeExponent p) (\<lambda>p'. Inr (StateExponentFirstDigit, p'))
      else if c = CHR ''+'' then Inr (StateExponentFirstDigit, p)
      else lex_exponent p c)"
| "lex_step (StateExponentFirstDigit, p) c = lex_exponent p c"
| "lex_step (StateExponentDigits, p) c = lex_exponent p c"

definition lex_final :: "lex_state \<Rightarrow> bool" where
  "lex_final s \<longleftrightarrow> s = StateMagnitudeDigits \<or> s = StateFractionDigits \<or> s = StateExponentDigits"

definition Lexer_parse :: "parser \<Rightarrow> string \<Rightarrow> parser res" where
  "Lexer_parse p number =
     rbind (run lex_step (StateNumber, p) number)
       (\<lambda>(state, p'). if lex_final state then p_end p' else Inl MojErrInvalidDecimal)"

text \<open>\<^verbatim>\<open>MojDecimal::assign(str, n)\<close>, with the characters before the end or the NUL.\<close>

definition dec_parse :: "string \<Rightarrow> i64 res" where
  "dec_parse str = rbind (Lexer_parse parser_reset str) toDecimal"


section \<open>Digit strings and their values\<close>

definition dig :: "int \<Rightarrow> char" where
  "dig r = char_of (nat (48 + r))"

definition digits_of :: "string \<Rightarrow> bool" where
  "digits_of cs \<longleftrightarrow> list_all isdigit cs"

text \<open>The value of a digit string written from its most or from its least significant digit.\<close>

definition mval :: "int \<Rightarrow> string \<Rightarrow> int" where
  "mval v cs = foldl (\<lambda>v c. 10 * v + digit_val c) v cs"

definition lval :: "string \<Rightarrow> int" where
  "lval cs = foldr (\<lambda>c a. digit_val c + 10 * a) cs 0"

lemma of_char_int_nat: "(of_char c :: int) = int (of_char c)"
  by (simp add: of_nat_of_char)

lemma dig_val [simp]: "0 \<le> r \<Longrightarrow> r < 10 \<Longrightarrow> digit_val (dig r) = r"
  and dig_isdigit [simp]: "0 \<le> r \<Longrightarrow> r < 10 \<Longrightarrow> isdigit (dig r)"
  by (simp_all add: digit_val_def isdigit_def dig_def of_char_int_nat nat_add_distrib)

lemma digit_val_range: "isdigit c \<Longrightarrow> 0 \<le> digit_val c \<and> digit_val c < 10"
  by (simp add: isdigit_def digit_val_def of_char_int_nat)

lemma digit_val_eq_0: "isdigit c \<Longrightarrow> digit_val c = 0 \<longleftrightarrow> c = CHR ''0''"
proof -
  have "digit_val c = 0 \<longleftrightarrow> (of_char c :: nat) = of_char (CHR ''0'')"
    by (simp add: digit_val_def of_char_int_nat)
  then show ?thesis by (simp only: of_char_eq_iff)
qed

lemma digits_of_simps [simp]:
  "digits_of []"
  "digits_of (c # cs) \<longleftrightarrow> isdigit c \<and> digits_of cs"
  "digits_of (cs @ ds) \<longleftrightarrow> digits_of cs \<and> digits_of ds"
  "digits_of (rev cs) \<longleftrightarrow> digits_of cs"
  by (auto simp: digits_of_def list_all_iff)

lemma digits_of_take_drop [simp]: "digits_of cs \<Longrightarrow> digits_of (take n cs) \<and> digits_of (drop n cs)"
  by (auto simp: digits_of_def list_all_iff dest: in_set_takeD in_set_dropD)

lemma mval_simps [simp]:
  "mval v [] = v"
  "mval v (c # cs) = mval (10 * v + digit_val c) cs"
  "mval v (cs @ ds) = mval (mval v cs) ds"
  by (simp_all add: mval_def)

lemma lval_simps [simp]:
  "lval [] = 0"
  "lval (c # cs) = digit_val c + 10 * lval cs"
  by (simp_all add: lval_def)

lemma lval_append: "lval (cs @ ds) = lval cs + 10 ^ length cs * lval ds"
  by (induction cs) (simp_all add: algebra_simps)

lemma lval_zeros [simp]: "lval (replicate n (CHR ''0'')) = 0"
  by (induction n) (simp_all add: digit_val_def)

lemma lval_nonneg: "digits_of cs \<Longrightarrow> 0 \<le> lval cs"
  by (induction cs) (auto dest: digit_val_range)

lemma mval_rev: "mval v (rev cs) = v * 10 ^ length cs + lval cs"
  by (induction cs) (simp_all add: algebra_simps)

lemma mval_mono: "digits_of cs \<Longrightarrow> 0 \<le> v \<Longrightarrow> v \<le> mval v cs"
proof (induction cs arbitrary: v)
  case (Cons c cs)
  have "10 * v + digit_val c \<le> mval (10 * v + digit_val c) cs"
    using Cons by (intro Cons.IH) (auto dest: digit_val_range)
  moreover have "v \<le> 10 * v + digit_val c"
    using Cons.prems digit_val_range [of c] by simp
  ultimately show ?case by simp
qed simp

lemma rev_digits_correct:
  "0 \<le> n \<Longrightarrow> digits_of (rev_digits n) \<and> lval (rev_digits n) = n"
proof (induction n rule: rev_digits.induct)
  case (1 rep)
  show ?case
  proof (cases "rep = 0")
    case True
    then show ?thesis by (simp add: rev_digits.simps)
  next
    case False
    have nxt: "tdiv rep 10 = rep div 10"
      using 1(2) False by (simp add: tdiv_def)
    have "rep - rep div 10 * 10 = rep mod 10" by (simp add: minus_div_mult_eq_mod)
    then have eq: "rev_digits rep = dig (rep mod 10) # rev_digits (rep div 10)"
      using False by (subst rev_digits.simps) (simp add: nxt dig_def Let_def add_diff_eq [symmetric])
    show ?thesis
      using 1(1) [OF False refl] 1(2) by (simp add: eq nxt)
  qed
qed

section \<open>Powers of ten\<close>

lemma npow_loop_correct: "npow_loop b x e (x ^ (unat e div 2 ^ b)) = x ^ unat e"
proof (induction b)
  case (Suc b)
  have "x ^ (unat e div 2 ^ Suc b) * x ^ (unat e div 2 ^ Suc b) * (if bit e b then x else 1)
        = x ^ (unat e div 2 ^ b)"
  proof -
    let ?q = "unat e div 2 ^ b"
    have "bit e b \<longleftrightarrow> bit (unat e) b" by (simp add: bit_unsigned_iff)
    then have bit: "bit e b \<longleftrightarrow> odd ?q" by (simp only: bit_iff_odd)
    have half: "unat e div 2 ^ Suc b = ?q div 2"
      by (simp add: div_mult2_eq power_Suc2 del: power_Suc)
    have "q = q div 2 + q div 2 + (if odd q then 1 else 0)" for q :: nat by presburger
    from this [of ?q] have "?q = unat e div 2 ^ Suc b + unat e div 2 ^ Suc b + (if odd ?q then 1 else 0)"
      by (simp only: half)
    then have "x ^ ?q = x ^ (unat e div 2 ^ Suc b + unat e div 2 ^ Suc b + (if odd ?q then 1 else 0))"
      by (rule arg_cong)
    then show ?thesis by (simp add: power_add bit)
  qed
  then show ?case using Suc by (simp add: Let_def split: if_splits)
qed simp


lemma npow_correct: "e < 2 ^ 31 \<Longrightarrow> npow x e = x ^ unat e"
proof -
  assume "e < 2 ^ 31"
  then have "unat e < 2 ^ 31" by (simp add: word_less_nat_alt)
  then show ?thesis using npow_loop_correct [of 31 x e] by (simp add: npow_def)
qed

lemma uint_of_int64: "(w :: u64) = word_of_int i \<Longrightarrow> 0 \<le> i \<Longrightarrow> i < 2 ^ 64 \<Longrightarrow> uint w = i"
  by (simp add: unsigned_of_int take_bit_int_eq_self)

lemma sint_of_int64:
  "(w :: i64) = word_of_int i \<Longrightarrow> - (2 ^ 63) \<le> i \<Longrightarrow> i < 2 ^ 63 \<Longrightarrow> sint w = i"
  by (simp add: signed_of_int signed_take_bit_int_eq_self)

lemma sint64_range: "- (2 ^ 63) \<le> sint (w :: i64) \<and> sint w < 2 ^ 63"
  using sint_greater_eq [of w] sint_less [of w] by simp

lemma pow10_word: "uint v * 10 ^ n < 2 ^ 64 \<Longrightarrow> uint (v * 10 ^ n :: u64) = uint v * 10 ^ n"
  by (rule uint_of_int64) simp_all

lemma npow10: "0 \<le> i \<Longrightarrow> i < 2 ^ 31 \<Longrightarrow> npow (word_of_int num_base) (word_of_int i) = 10 ^ nat i"
proof -
  assume i: "0 \<le> i" "i < 2 ^ 31"
  have "uint (word_of_int i :: u64) = i"
    using i by (simp add: unsigned_of_int take_bit_int_eq_self)
  then have "unat (word_of_int i :: u64) = nat i" "(word_of_int i :: u64) < 2 ^ 31"
    using i by (simp_all add: word_less_def flip: nat_uint_eq)
  then show ?thesis by (simp add: npow_correct num_base_def)
qed

section \<open>The parser's value\<close>

text \<open>
  The parser has read a number of value \<open>v\<close> whose last \<open>k\<close> digits are the fraction. Trailing
  zeros of the magnitude are counted in \<^verbatim>\<open>valueExp\<close>, those after the point are pushed.
\<close>

definition holds :: "parser \<Rightarrow> bool \<Rightarrow> int \<Rightarrow> nat \<Rightarrow> bool" where
  "holds p pos v k \<longleftrightarrow> positive p = pos \<and> exponent p = 0 \<and> exponentPositive p \<and>
     (if k = 0 then 0 \<le> valueExp p \<and> (pvalue p = 0 \<longrightarrow> valueExp p = 0) \<and>
                    uint (pvalue p) * 10 ^ nat (valueExp p) = v
      else valueExp p = - int k \<and> uint (pvalue p) = v)"

lemma pow10_bound: "10 ^ n < (2::int) ^ 63 \<Longrightarrow> n < 19"
proof (rule ccontr)
  assume "10 ^ n < (2::int) ^ 63" and "\<not> n < 19"
  then have "(10::int) ^ 19 \<le> 10 ^ n" by (intro power_increasing) auto
  with \<open>10 ^ n < (2::int) ^ 63\<close> show False by simp
qed

lemma holds_exp_bound:
  assumes "holds p pos v 0" and "v < 2 ^ 63"
  shows "0 \<le> valueExp p \<and> valueExp p < 19"
proof (cases "pvalue p = 0")
  case True
  then show ?thesis using assms by (simp add: holds_def)
next
  case False
  then have "1 \<le> uint (pvalue p)" by (metis int_one_le_iff_zero_less uint_0_iff uint_ge_0 order_le_less)
  then have "10 ^ nat (valueExp p) \<le> uint (pvalue p) * 10 ^ nat (valueExp p)"
    using mult_right_mono [of 1 "uint (pvalue p)" "10 ^ nat (valueExp p)"] by simp
  also have "\<dots> = v" using assms(1) by (simp add: holds_def)
  finally have "10 ^ nat (valueExp p) < (2::int) ^ 63" using assms(2) by simp
  then show ?thesis using pow10_bound assms by (fastforce simp: holds_def)
qed

lemma realignValue_holds:
  assumes "holds p pos v k" and "v < 2 ^ 63"
  shows "holds (realignValue p) pos v k \<and> valueExp (realignValue p) = - int k \<and>
         uint (pvalue (realignValue p)) = v"
proof (cases "k = 0 \<and> valueExp p > 0")
  case True
  have e: "0 \<le> valueExp p" "valueExp p < 19"
    using holds_exp_bound [of p pos v] True assms by auto
  then have "uint (pvalue p * 10 ^ nat (valueExp p)) = v"
    using True assms by (subst pow10_word) (auto simp: holds_def)
  then show ?thesis
    using True assms e by (auto simp: realignValue_def holds_def npow10)
next
  case False
  then show ?thesis using assms by (auto simp: realignValue_def holds_def split: if_splits)
qed

lemma pushDigit_correct:
  assumes "valueExp p \<le> 0" and "0 \<le> x" and "x < 10" and "10 * uint (pvalue p) + x < 2 ^ 63"
  shows "\<exists>q. pushDigit x p = Inr (p\<lparr>pvalue := q\<rparr>) \<and> uint q = 10 * uint (pvalue p) + x"
proof -
  have "\<not> uint (pvalue p) > num_bound" using assms by (simp add: num_bound_def num_base_def)
  moreover have "uint (pvalue p * word_of_int num_base + word_of_int x) = 10 * uint (pvalue p) + x"
    using assms by (intro uint_of_int64) (simp_all add: num_base_def)
  ultimately show ?thesis using assms(1)
    by (intro exI [of _ "pvalue p * word_of_int num_base + word_of_int x"]) (simp add: pushDigit_def)
qed


lemma p_digit_holds:
  assumes "holds p pos v 0" and "0 \<le> x" and "x < 10" and "0 \<le> v" and "10 * v + x < 2 ^ 63"
  shows "\<exists>p'. p_digit x p = Inr p' \<and> holds p' pos (10 * v + x) 0"
proof (cases "pvalue p \<noteq> 0 \<and> x = 0")
  case True
  have "0 \<le> valueExp p \<and> valueExp p < 19" using assms by (intro holds_exp_bound [of p pos v]) auto
  then show ?thesis using True assms(1)
    by (auto simp: p_digit_def holds_def INT_MAX_def nat_add_distrib)
next
  case False
  have r: "holds (realignValue p) pos v 0" "valueExp (realignValue p) = 0"
    "uint (pvalue (realignValue p)) = v"
    using realignValue_holds [OF assms(1)] assms by auto
  obtain q where "pushDigit x (realignValue p) = Inr (realignValue p\<lparr>pvalue := q\<rparr>)"
    and "uint q = 10 * v + x"
    using pushDigit_correct [of "realignValue p" x] r assms by auto
  moreover have "p_digit x p = pushDigit x (realignValue p)" using False by (auto simp: p_digit_def)
  ultimately show ?thesis using r by (simp add: holds_def)
qed

lemma p_fractionDigit_holds:
  assumes "holds p pos v k" and "0 \<le> x" and "x < 10" and "0 \<le> v" and "10 * v + x < 2 ^ 63"
  shows "\<exists>p'. p_fractionDigit x p = Inr p' \<and> holds p' pos (10 * v + x) (Suc k)"
proof -
  have r: "holds (realignValue p) pos v k" "valueExp (realignValue p) = - int k"
    "uint (pvalue (realignValue p)) = v"
    using realignValue_holds [OF assms(1)] assms by auto
  let ?q = "realignValue p\<lparr>valueExp := valueExp (realignValue p) - 1\<rparr>"
  obtain q where "pushDigit x ?q = Inr (?q\<lparr>pvalue := q\<rparr>)" and "uint q = 10 * v + x"
    using pushDigit_correct [of ?q x] r assms by auto
  then show ?thesis using r by (simp add: p_fractionDigit_def holds_def Let_def)
qed

lemma run_magnitude:
  assumes "digits_of cs" and "holds p pos v 0" and "0 \<le> v" and "mval v cs < 2 ^ 63"
  shows "\<exists>p'. run lex_step (StateMagnitudeDigits, p) cs = Inr (StateMagnitudeDigits, p') \<and>
              holds p' pos (mval v cs) 0"
  using assms
proof (induction cs arbitrary: p v)
  case (Cons c cs)
  have c: "isdigit c" "0 \<le> digit_val c" "digit_val c < 10" "digits_of cs"
    using Cons.prems(1) digit_val_range [of c] by auto
  have "10 * v + digit_val c \<le> mval (10 * v + digit_val c) cs"
    using c Cons.prems(3) by (intro mval_mono) auto
  then have "10 * v + digit_val c < 2 ^ 63" using Cons.prems(4) by simp
  then obtain p' where "p_digit (digit_val c) p = Inr p'" "holds p' pos (10 * v + digit_val c) 0"
    using p_digit_holds [OF Cons.prems(2) c(2,3) Cons.prems(3)] by blast
  then show ?case
    using Cons.IH [of p' "10 * v + digit_val c"] c Cons.prems by (simp add: lex_magnitude_def)
qed auto

lemma run_fraction:
  assumes "digits_of cs" and "holds p pos v k" and "0 \<le> v" and "mval v cs < 2 ^ 63"
  shows "\<exists>p'. run lex_step (StateFractionDigits, p) cs = Inr (StateFractionDigits, p') \<and>
              holds p' pos (mval v cs) (k + length cs)"
  using assms
proof (induction cs arbitrary: p v k)
  case (Cons c cs)
  have c: "isdigit c" "0 \<le> digit_val c" "digit_val c < 10" "digits_of cs"
    using Cons.prems(1) digit_val_range [of c] by auto
  have "10 * v + digit_val c \<le> mval (10 * v + digit_val c) cs"
    using c Cons.prems(3) by (intro mval_mono) auto
  then have "10 * v + digit_val c < 2 ^ 63" using Cons.prems(4) by simp
  then obtain p' where "p_fractionDigit (digit_val c) p = Inr p'"
    "holds p' pos (10 * v + digit_val c) (Suc k)"
    using p_fractionDigit_holds [OF Cons.prems(2) c(2,3) Cons.prems(3)] by blast
  then show ?case
    using Cons.IH [of p' "10 * v + digit_val c" "Suc k"] c Cons.prems by simp
qed auto

text \<open>A digit string that is not empty moves both states to their digit state.\<close>

lemma run_magnitude_first:
  "cs \<noteq> [] \<Longrightarrow> digits_of cs \<Longrightarrow> s = StateNumber \<or> s = StateMagnitude \<Longrightarrow>
   run lex_step (s, p) cs = run lex_step (StateMagnitudeDigits, p) cs"
proof (cases cs)
  case (Cons c cs')
  assume "digits_of cs" and s: "s = StateNumber \<or> s = StateMagnitude"
  then have "isdigit c" using Cons by simp
  moreover from this have "c \<noteq> CHR ''-'' \<and> c \<noteq> CHR ''+''" by (auto simp: isdigit_def)
  ultimately show ?thesis using s Cons by auto
qed simp

lemma run_fraction_first:
  "cs \<noteq> [] \<Longrightarrow> digits_of cs \<Longrightarrow>
   run lex_step (StateFraction, p) cs = run lex_step (StateFractionDigits, p) cs"
  by (cases cs) auto


lemma toDecimal_holds:
  assumes "holds p pos v k" and "0 < k" and "k + j = 6" and "0 \<le> v" and "v * 10 ^ j < 2 ^ 63"
  shows "rbind (p_end p) toDecimal =
           Inr (if pos then word_of_int (v * 10 ^ j) else - word_of_int (v * 10 ^ j))"
proof -
  have j: "j \<le> 6" using assms(3) by simp
  have a: "to_int32 (int Precision + valueExp p + exponent p) = int j"
    using assms(1-3) by (simp add: to_int32_id holds_def Precision_def)
  have n: "npow (word_of_int num_base) (word_of_int (int j)) = (10 :: u64) ^ j"
    using npow10 [of "int j"] j by simp
  have le: "\<not> (pvalue p > word_of_int MojInt64Max div (10 :: u64) ^ j)"
  proof -
    have "(10::int) ^ j \<le> 10 ^ 6" using j by (intro power_increasing) simp_all
    then have u: "uint ((10 :: u64) ^ j) = 10 ^ j"
      by (intro uint_of_int64) simp_all
    have "v \<le> MojInt64Max div 10 ^ j"
      using assms(5) zdiv_mono1 [of "v * 10 ^ j" MojInt64Max "10 ^ j"]
      by (simp add: MojInt64Max_def)
    moreover have "uint (pvalue p) = v" using assms(1,2) by (simp add: holds_def)
    moreover have "uint (word_of_int MojInt64Max :: u64) = MojInt64Max"
      by (simp add: MojInt64Max_def)
    ultimately show ?thesis by (simp add: word_less_def uint_div u)
  qed
  have "pvalue p * 10 ^ j = word_of_int (v * 10 ^ j)"
    using assms(1,2) by (auto simp: holds_def)
  moreover have "rbind (p_end p) toDecimal = toDecimal p" "positive p = pos"
    using assms(1) by (simp_all add: p_end_def holds_def)
  ultimately show ?thesis
    using j le unfolding toDecimal_def Let_def a n by (simp add: int64_pow10_max_def)
qed

section \<open>The text that \<^verbatim>\<open>stringValue\<close> writes\<close>

lemma map_nth_upt: "b \<le> length xs \<Longrightarrow> map (nth xs) [a..<b] = drop a (take b xs)"
  by (rule nth_equalityI) simp_all

lemma copy_digits:
  assumes "f \<le> d" and "d < length tmp"
  shows "concat (map (\<lambda>pos. tmp ! pos # (if pos = d then ''.'' else [])) (rev [f..<length tmp])) =
         rev (drop d tmp) @ CHR ''.'' # rev (drop f (take d tmp))"
proof -
  have c: "concat (map (\<lambda>pos. tmp ! pos # (if pos = d then ''.'' else [])) ps) = map (nth tmp) ps"
    if "d \<notin> set ps" for ps using that by (induction ps) auto
  have "[f..<length tmp] = [f..<d] @ d # [Suc d..<length tmp]"
    using assms by (metis upt_conv_Cons upt_add_eq_append le_add_diff_inverse less_imp_le)
  moreover have "map (nth tmp) (rev [Suc d..<length tmp]) = rev (drop (Suc d) tmp)"
    by (simp add: rev_map map_nth_upt flip: rev_map)
  moreover have "map (nth tmp) (rev [f..<d]) = rev (drop f (take d tmp))"
    using assms by (simp add: rev_map [symmetric] map_nth_upt)
  moreover have "rev (drop d tmp) = rev (drop (Suc d) tmp) @ [tmp ! d]"
    using assms by (metis Cons_nth_drop_Suc rev.simps(2))
  ultimately show ?thesis by (simp add: c)
qed

lemma first_nonzero_zeros:
  "f \<le> (case first_nonzero cs of None \<Rightarrow> length cs + m | Some i \<Rightarrow> i) \<Longrightarrow>
   lval (take f (cs @ replicate m (CHR ''0''))) = 0"
proof (induction cs arbitrary: f)
  case Nil
  then show ?case by (simp add: min_def)
next
  case (Cons c cs)
  then show ?case
    by (cases f) (auto simp: digit_val_def split: if_splits option.splits)
qed

lemma sint_not_min: "rep \<noteq> word_of_int MojInt64Min \<Longrightarrow> sint (rep :: i64) \<noteq> MojInt64Min"
proof
  assume "sint rep = MojInt64Min"
  then have "(word_of_int (sint rep) :: i64) = word_of_int MojInt64Min" by (rule arg_cong)
  moreover assume "rep \<noteq> word_of_int MojInt64Min"
  ultimately show False by simp
qed

lemma sint_gt_min: "rep \<noteq> word_of_int MojInt64Min \<Longrightarrow> - (2 ^ 63) < sint (rep :: i64)"
proof -
  assume "rep \<noteq> word_of_int MojInt64Min"
  from sint_not_min [OF this] have "sint rep \<noteq> - (2 ^ 63)" by (simp add: MojInt64Min_def)
  then show ?thesis using sint64_range [of rep] by linarith
qed

lemma sint_MojAbs: "rep \<noteq> word_of_int MojInt64Min \<Longrightarrow> sint (MojAbs rep) = \<bar>sint rep\<bar>"
proof -
  assume "rep \<noteq> word_of_int MojInt64Min"
  note r = sint_gt_min [OF this] sint64_range [of rep]
  show ?thesis
  proof (cases "sint rep < 0")
    case True
    then have "sint (- rep) = - sint rep" using r by (intro sint_of_int64) auto
    then show ?thesis using True by (simp add: MojAbs_def)
  qed (simp add: MojAbs_def)
qed

text \<open>
  The written number: a sign, the digits of the magnitude, the point, and at least one and at
  most six digits of the fraction, which together have the value of the representation.
\<close>

lemma dec_stringValue_shape:
  assumes "rep \<noteq> word_of_int MojInt64Min" and "MaxStringSize \<le> n"
  obtains ms fs where
    "dec_stringValue rep n = Inr ((if sint rep < 0 then ''-'' else []) @ ms @ CHR ''.'' # fs)"
    "digits_of ms" "digits_of fs" "ms \<noteq> []" "fs \<noteq> []" "length fs \<le> 6"
    "mval (mval 0 ms) fs * 10 ^ (6 - length fs) = \<bar>sint rep\<bar>"
proof -
  define digits where "digits = rev_digits (sint (MojAbs rep))"
  define tmp where "tmp = digits @ replicate (Suc Precision - length digits) (CHR ''0'')"
  define f where "f = (case first_nonzero digits of None \<Rightarrow> Precision - 1
                       | Some i \<Rightarrow> if i > Precision - 1 then Precision - 1 else i)"
  have abs: "sint (MojAbs rep) = \<bar>sint rep\<bar>" using assms(1) by (rule sint_MojAbs)
  have f: "f \<le> 5" by (simp add: f_def Precision_def split: option.splits)
  have len: "7 \<le> length tmp" by (simp add: tmp_def Precision_def)
  have "digits_of digits" "lval digits = \<bar>sint rep\<bar>"
    using rev_digits_correct [of "sint (MojAbs rep)"] by (simp_all add: digits_def abs)
  moreover have "digits_of (replicate m (CHR ''0''))" for m
    by (simp add: digits_of_def list_all_iff isdigit_def)
  ultimately have dt: "digits_of tmp" "lval tmp = \<bar>sint rep\<bar>"
    by (simp_all add: tmp_def lval_append)
  have z: "lval (take f tmp) = 0"
    unfolding tmp_def by (rule first_nonzero_zeros) (auto simp: f_def Precision_def split: option.splits)
  have "lval tmp = lval (take f tmp) + 10 ^ f * lval (drop f tmp)"
    using lval_append [of "take f tmp" "drop f tmp"] f len by (simp add: min_def)
  moreover have "drop f tmp = drop f (take 6 tmp) @ drop 6 tmp"
    using f len drop_append [of f "take 6 tmp" "drop 6 tmp"] by simp
  ultimately have v: "\<bar>sint rep\<bar> = 10 ^ f * lval (drop f (take 6 tmp) @ drop 6 tmp)"
    using dt z by simp
  have str: "dec_stringValue rep n = Inr ((if sint rep < 0 then ''-'' else []) @
      concat (map (\<lambda>pos. tmp ! pos # (if pos = 6 then ''.'' else [])) (rev [f..<length tmp])))"
    if "MaxStringSize \<le> n"
    using that unfolding dec_stringValue_def Let_def tmp_def digits_def f_def Precision_def by simp
  show ?thesis
  proof
    show "dec_stringValue rep n = Inr ((if sint rep < 0 then ''-'' else []) @
            rev (drop 6 tmp) @ CHR ''.'' # rev (drop f (take 6 tmp)))"
      using assms(2) f len copy_digits [of f 6 tmp] str by simp
    show "mval (mval 0 (rev (drop 6 tmp))) (rev (drop f (take 6 tmp))) *
            10 ^ (6 - length (rev (drop f (take 6 tmp)))) = \<bar>sint rep\<bar>"
      using f len by (simp add: v mval_rev lval_append min_def algebra_simps flip: power_add)
  qed (use f len dt in simp_all)
qed


lemma dec_parse_stringValue:
  assumes "rep \<noteq> word_of_int MojInt64Min" and "MaxStringSize \<le> n"
  shows "rbind (dec_stringValue rep n) dec_parse = Inr rep"
proof -
  obtain ms fs where str: "dec_stringValue rep n = Inr ((if sint rep < 0 then ''-'' else []) @ ms @ CHR ''.'' # fs)"
    and d: "digits_of ms" "digits_of fs" "ms \<noteq> []" "fs \<noteq> []" "length fs \<le> 6"
    and v: "mval (mval 0 ms) fs * 10 ^ (6 - length fs) = \<bar>sint rep\<bar>"
    using dec_stringValue_shape [OF assms] by metis
  have nn: "0 \<le> mval 0 ms" "mval 0 ms \<le> mval (mval 0 ms) fs"
    using d mval_mono [of ms 0] mval_mono [of fs "mval 0 ms"] by simp_all
  have r: "\<bar>sint rep\<bar> < 2 ^ 63"
    using sint64_range [of rep] sint_gt_min [OF assms(1)] by (simp add: abs_if)
  have b: "mval (mval 0 ms) fs < 2 ^ 63"
    using r nn mult_left_mono [of 1 "10 ^ (6 - length fs)" "mval (mval 0 ms) fs"] by (simp flip: v)
  define pos where "pos \<longleftrightarrow> \<not> sint rep < 0"
  define p0 where "p0 = parser_reset\<lparr>positive := pos\<rparr>"
  have "holds p0 pos 0 0" by (simp add: holds_def p0_def parser_reset_def)
  then obtain p1 where p1: "run lex_step (StateMagnitudeDigits, p0) ms = Inr (StateMagnitudeDigits, p1)"
    "holds p1 pos (mval 0 ms) 0"
    using run_magnitude [of ms p0 pos 0] d nn b by auto
  obtain p2 where p2: "run lex_step (StateFractionDigits, p1) fs = Inr (StateFractionDigits, p2)"
    "holds p2 pos (mval (mval 0 ms) fs) (length fs)"
    using run_fraction [OF d(2) p1(2) nn(1) b] by auto
  have p3: "run lex_step (s, p0) (ms @ CHR ''.'' # fs) = Inr (StateFractionDigits, p2)"
    if "s = StateNumber \<or> s = StateMagnitude" for s
    using p1 p2 d that
    by (simp add: run_append run_magnitude_first run_fraction_first lex_magnitude_def isdigit_def)
  have "p0 = (if pos then parser_reset else parser_reset\<lparr>positive := False\<rparr>)"
    by (simp add: p0_def parser_reset_def)
  then have "run lex_step (StateNumber, parser_reset)
          ((if sint rep < 0 then ''-'' else []) @ ms @ CHR ''.'' # fs) =
        Inr (StateFractionDigits, p2)"
    using p3 [of StateNumber] p3 [of StateMagnitude]
    by (cases pos) (simp_all add: pos_def p_negative_def)
  moreover have "rbind (p_end p2) toDecimal = Inr rep"
    using toDecimal_holds [OF p2(2), of "6 - length fs"] d(4,5) nn r v
    by (simp add: pos_def abs_if)
  ultimately show ?thesis
    by (simp add: str dec_parse_def Lexer_parse_def lex_final_def)
qed

text \<open>
  C37. A decimal is read back from the text it is written as: for every representation but the least
  64-bit integer, \<^verbatim>\<open>MojDecimal::stringValue\<close> into a buffer that is large enough gives a
  text that \<^verbatim>\<open>MojDecimal::assign(str)\<close> parses to the same decimal.
\<close>

theorem dec_roundtrip:
  assumes "rep \<noteq> word_of_int MojInt64Min" and "MaxStringSize \<le> n"
  shows "rbind (dec_stringValue rep n) dec_parse = Inr rep"
  by (rule dec_parse_stringValue [OF assms])

theorem dec_roundtrip_witness:
  "(- 12345000 :: i64) \<noteq> word_of_int MojInt64Min \<and> MaxStringSize \<le> 24 \<and>
   rbind (dec_stringValue (- 12345000) 24) dec_parse = Inr (- 12345000)"
proof -
  have "(- 12345000 :: i64) \<noteq> word_of_int MojInt64Min" "MaxStringSize \<le> 24"
    by (simp_all add: MojInt64Min_def MaxStringSize_def)
  from dec_roundtrip [OF this] and this show ?thesis by simp
qed

section \<open>Where the parser and the writer go wrong\<close>

text \<open>
  \<^verbatim>\<open>npow\<close> wraps: the divisor of a negative alignment is \<open>10 ^ 93 mod 2 ^ 64 = 0\<close>.
\<close>

lemma toDecimal_div_by_zero: "dec_parse ''1e-100'' = Inl MojDivByZero"
  by code_simp

text \<open>A magnitude with 64 zeros between two digits passes the bound check of \<^verbatim>\<open>pushDigit\<close>.\<close>

lemma realignValue_wraps:
  "dec_parse (''1'' @ replicate 64 (CHR ''0'') @ ''1'') = Inr 1000000"
  by code_simp

text \<open>\<^verbatim>\<open>MojAbs\<close> leaves the least integer negative, and its digits are no digits.\<close>

lemma stringValue_min_not_a_number:
  "rbind (dec_stringValue (word_of_int MojInt64Min) 24) dec_parse = Inl MojErrInvalidDecimal"
  by code_simp

end
