(* ===== verification/ObjOps.thy ===== *)
theory ObjOps
  imports MojObj Decimal
begin

text \<open>
  The property and array operations of \<^verbatim>\<open>MojObject\<close> (\<^verbatim>\<open>src/core/MojObject.cpp\<close>): put, get and its
  range-checked variants, del, push, setAt, at, delString, and the laws they obey.
\<close>

section \<open>Storage\<close>

text \<open>\<^verbatim>\<open>init(type)\<close>, \<^verbatim>\<open>ensureObject\<close>, \<^verbatim>\<open>ensureArray\<close>: another type's contents are dropped.\<close>

fun obj_init :: "MojType \<Rightarrow> obj" where
  "obj_init TypeObject = OObject []"
| "obj_init TypeArray = OArray []"
| "obj_init TypeString = OString []"
| "obj_init TypeBool = OBool False"
| "obj_init TypeDecimal = ODecimal 0"
| "obj_init TypeInt = OInt 0"
| "obj_init TypeNull = ONull"
| "obj_init TypeUndefined = OUndefined"

fun ensureObject :: "obj \<Rightarrow> props" where
  "ensureObject (OObject ps) = ps"
| "ensureObject _ = []"

fun ensureArray :: "obj \<Rightarrow> obj list" where
  "ensureArray (OArray xs) = xs"
| "ensureArray _ = []"

section \<open>Properties\<close>

definition obj_put :: "string \<Rightarrow> obj \<Rightarrow> obj \<Rightarrow> obj" where
  "obj_put key val obj = OObject (map_put MojStrCmp key val (ensureObject obj))"

text \<open>\<^verbatim>\<open>get(key, MojObject&)\<close>: \<open>None\<close> for not found, which also clears the result.\<close>

fun obj_get :: "string \<Rightarrow> obj \<Rightarrow> obj option" where
  "obj_get key (OObject ps) = map_get MojStrCmp key ps"
| "obj_get key _ = None"

text \<open>\<^verbatim>\<open>del(key, foundOut)\<close> leaves what is not an object alone.\<close>

fun obj_del :: "string \<Rightarrow> obj \<Rightarrow> bool \<times> obj" where
  "obj_del key (OObject ps) =
     (map_get MojStrCmp key ps \<noteq> None, OObject (map_del MojStrCmp key ps))"
| "obj_del key obj = (False, obj)"

definition obj_contains :: "string \<Rightarrow> obj \<Rightarrow> bool" where
  "obj_contains key obj \<longleftrightarrow> obj_get key obj \<noteq> None"

fun containerSize :: "obj \<Rightarrow> nat" where
  "containerSize (OObject ps) = length ps"
| "containerSize (OArray xs) = length xs"
| "containerSize _ = 0"

fun boolValue :: "obj \<Rightarrow> bool" where
  "boolValue (OObject ps) = (ps \<noteq> [])"
| "boolValue (OArray xs) = (xs \<noteq> [])"
| "boolValue (OString s) = (s \<noteq> [])"
| "boolValue (OBool b) = b"
| "boolValue (ODecimal d) = (d \<noteq> 0)"
| "boolValue (OInt i) = (i \<noteq> 0)"
| "boolValue _ = False"

text \<open>
  \<^verbatim>\<open>intValue\<close> of a string is \<^verbatim>\<open>strtoll\<close> with base 0, which the parameter \<open>strtoll\<close> stands for
  here; the theory CStrings has its definition.
\<close>

fun intValueWith :: "(string \<Rightarrow> i64) \<Rightarrow> obj \<Rightarrow> i64" where
  "intValueWith strtoll (OString s) = strtoll s"
| "intValueWith strtoll (OBool b) = of_bool b"
| "intValueWith strtoll (ODecimal d) = dec_magnitude d"
| "intValueWith strtoll (OInt i) = i"
| "intValueWith strtoll _ = 0"

definition get_bool :: "string \<Rightarrow> obj \<Rightarrow> bool option" where
  "get_bool key obj = map_option boolValue (obj_get key obj)"

definition get_int :: "(string \<Rightarrow> i64) \<Rightarrow> string \<Rightarrow> obj \<Rightarrow> i64 option" where
  "get_int strtoll key obj = map_option (intValueWith strtoll) (obj_get key obj)"

text \<open>The narrower integers are checked; a property that is absent is found nowhere, without error.\<close>

definition get_int32 :: "(string \<Rightarrow> i64) \<Rightarrow> string \<Rightarrow> obj \<Rightarrow> 32 word option res" where
  "get_int32 strtoll key obj =
     (case get_int strtoll key obj of
        None \<Rightarrow> Inr None
      | Some val \<Rightarrow>
          if sint val \<ge> - 2147483648 \<and> sint val \<le> 2147483647 then Inr (Some (ucast val))
          else Inl MojErrValueOutOfRange)"

definition get_uint32 :: "(string \<Rightarrow> i64) \<Rightarrow> string \<Rightarrow> obj \<Rightarrow> u32 option res" where
  "get_uint32 strtoll key obj =
     (case get_int strtoll key obj of
        None \<Rightarrow> Inr None
      | Some val \<Rightarrow>
          if sint val \<ge> 0 \<and> sint val \<le> 4294967295 then Inr (Some (ucast val))
          else Inl MojErrValueOutOfRange)"

definition get_uint64 :: "(string \<Rightarrow> i64) \<Rightarrow> string \<Rightarrow> obj \<Rightarrow> u64 option res" where
  "get_uint64 strtoll key obj =
     (case get_int strtoll key obj of
        None \<Rightarrow> Inr None
      | Some val \<Rightarrow> if sint val \<ge> 0 then Inr (Some val) else Inl MojErrValueOutOfRange)"

text \<open>The two templates behind \<^verbatim>\<open>getRequired\<close>.\<close>

definition getRequiredT :: "'a option \<Rightarrow> 'a res" where
  "getRequiredT got = (case got of None \<Rightarrow> Inl MojErrRequiredPropNotFound | Some v \<Rightarrow> Inr v)"

definition getRequiredErrT :: "'a option res \<Rightarrow> 'a res" where
  "getRequiredErrT got = rbind got getRequiredT"

definition getRequired :: "string \<Rightarrow> obj \<Rightarrow> obj res" where
  "getRequired key obj = getRequiredT (obj_get key obj)"

definition getRequired_bool :: "string \<Rightarrow> obj \<Rightarrow> bool res" where
  "getRequired_bool key obj = getRequiredT (get_bool key obj)"

definition getRequired_int :: "(string \<Rightarrow> i64) \<Rightarrow> string \<Rightarrow> obj \<Rightarrow> i64 res" where
  "getRequired_int strtoll key obj = getRequiredT (get_int strtoll key obj)"

definition getRequired_int32 :: "(string \<Rightarrow> i64) \<Rightarrow> string \<Rightarrow> obj \<Rightarrow> 32 word res" where
  "getRequired_int32 strtoll key obj = getRequiredErrT (get_int32 strtoll key obj)"

section \<open>Arrays\<close>

definition obj_push :: "obj \<Rightarrow> obj \<Rightarrow> obj" where
  "obj_push val obj = OArray (ensureArray obj @ [val])"

text \<open>
  \<^verbatim>\<open>MojVector::resize\<close> grows with undefined values or cuts off the end; \<^verbatim>\<open>erase\<close> asserts that the
  range it removes lies inside the vector.
\<close>

definition vec_resize :: "nat \<Rightarrow> 'a \<Rightarrow> 'a list \<Rightarrow> 'a list" where
  "vec_resize numElems val xs = take numElems xs @ replicate (numElems - length xs) val"

definition vec_erase :: "nat \<Rightarrow> nat \<Rightarrow> 'a list \<Rightarrow> 'a list res" where
  "vec_erase idx numElems xs =
     (if idx + numElems > length xs then Inl MojAssertFailed
      else Inr (take idx xs @ drop (idx + numElems) xs))"

definition vec_setAt :: "nat \<Rightarrow> 'a \<Rightarrow> 'a list \<Rightarrow> 'a list res" where
  "vec_setAt idx val xs = (if idx \<ge> length xs then Inl MojAssertFailed else Inr (xs[idx := val]))"

definition obj_setAt :: "nat \<Rightarrow> obj \<Rightarrow> obj \<Rightarrow> obj res" where
  "obj_setAt idx val obj =
     (let vec = ensureArray obj;
          vec' = (if length vec \<le> idx then vec_resize (idx + 1) OUndefined vec else vec)
      in rbind (vec_setAt idx val vec') (\<lambda>v. Inr (OArray v)))"

definition obj_delString :: "nat \<Rightarrow> obj \<Rightarrow> obj res" where
  "obj_delString idx obj =
     (let vec = ensureArray obj
      in if idx \<le> length vec then rbind (vec_erase idx 1 vec) (\<lambda>v. Inr (OArray v))
         else Inr (OArray vec))"

fun obj_at :: "nat \<Rightarrow> obj \<Rightarrow> obj option" where
  "obj_at idx (OArray xs) = (if idx \<ge> length xs then None else Some (xs ! idx))"
| "obj_at idx _ = None"

definition at_bool :: "nat \<Rightarrow> obj \<Rightarrow> bool \<times> bool" where
  "at_bool idx obj = (case obj_at idx obj of Some o' \<Rightarrow> (True, boolValue o') | None \<Rightarrow> (False, False))"

definition at_int :: "(string \<Rightarrow> i64) \<Rightarrow> nat \<Rightarrow> obj \<Rightarrow> bool \<times> i64" where
  "at_int strtoll idx obj =
     (case obj_at idx obj of Some o' \<Rightarrow> (True, intValueWith strtoll o') | None \<Rightarrow> (False, 0))"

section \<open>Laws\<close>

lemma wf_ensureObject: "wf_obj obj \<Longrightarrow>
   sorted_props (ensureObject obj) \<and> (\<forall>p \<in> set (ensureObject obj). nonul (fst p) \<and> wf_obj (snd p))"
  by (cases obj) auto

lemma wf_ensureArray: "wf_obj obj \<Longrightarrow> list_all wf_obj (ensureArray obj)"
  by (cases obj) (auto simp: list_all_iff)

lemma obj_put_wf [intro]:
  "wf_obj obj \<Longrightarrow> wf_obj val \<Longrightarrow> nonul key \<Longrightarrow> wf_obj (obj_put key val obj)"
  using wf_ensureObject [of obj] str_map.put_sorted [where key=key and nodes="ensureObject obj" and val=val]
  by (auto simp: obj_put_def dest: map_put_mem)

lemma obj_del_wf [intro]: "wf_obj obj \<Longrightarrow> wf_obj (snd (obj_del key obj))"
  using subsetD [OF map_del_subset [of MojStrCmp key]] str_map.del_sorted
  by (cases obj) fastforce+

lemma obj_push_wf [intro]: "wf_obj obj \<Longrightarrow> wf_obj val \<Longrightarrow> wf_obj (obj_push val obj)"
  using wf_ensureArray [of obj] by (auto simp: obj_push_def list_all_iff)

lemma obj_setAt_wf:
  "wf_obj obj \<Longrightarrow> wf_obj val \<Longrightarrow> obj_setAt idx val obj = Inr obj' \<Longrightarrow> wf_obj obj'"
  using wf_ensureArray [of obj]
  by (auto simp: obj_setAt_def vec_setAt_def vec_resize_def Let_def list_all_iff
      dest!: in_set_takeD subsetD [OF set_update_subset_insert] split: if_splits)

lemma obj_delString_wf: "wf_obj obj \<Longrightarrow> obj_delString idx obj = Inr obj' \<Longrightarrow> wf_obj obj'"
  using wf_ensureArray [of obj]
  by (auto simp: obj_delString_def vec_erase_def Let_def list_all_iff
      dest!: in_set_takeD in_set_dropD split: if_splits)

lemma obj_get_wf: "wf_obj obj \<Longrightarrow> obj_get key obj = Some v \<Longrightarrow> wf_obj v"
proof (cases obj)
  case (OObject ps)
  have "map_get MojStrCmp key ps = Some v \<Longrightarrow> \<exists>k. (k, v) \<in> set ps"
    by (induction ps) (auto split: if_splits)
  then show "wf_obj obj \<Longrightarrow> obj_get key obj = Some v \<Longrightarrow> wf_obj v"
    using OObject by fastforce
qed auto

lemma obj_get_put:
  assumes "wf_obj obj"
  shows "obj_get key' (obj_put key val obj) =
    (if MojStrCmp key key' = 0 then Some val
     else case obj of OObject ps \<Rightarrow> obj_get key' obj | _ \<Rightarrow> None)"
  using wf_ensureObject [OF assms] str_map.get_put [where key=key and key'=key' and nodes="ensureObject obj" and val=val]
  by (cases obj) (simp_all add: obj_put_def)

lemma obj_get_del:
  assumes "wf_obj obj"
  shows "obj_get key' (snd (obj_del key obj)) =
    (if MojStrCmp key key' = 0 then None else obj_get key' obj)"
  using assms str_map.get_del [where key=key and key'=key' and nodes="ensureObject obj"] by (cases obj) simp_all

lemma obj_del_found: "fst (obj_del key obj) \<longleftrightarrow> obj_contains key obj"
  by (cases obj) (simp_all add: obj_contains_def)

lemma obj_setAt_ok: "\<exists>obj'. obj_setAt idx val obj = Inr obj'"
  by (auto simp: obj_setAt_def vec_setAt_def vec_resize_def Let_def)

lemma obj_at_setAt:
  assumes "obj_setAt idx val obj = Inr obj'"
  shows "obj_at i obj' =
    (if i = idx then Some val
     else if i < length (ensureArray obj) then Some (ensureArray obj ! i)
     else if i < idx then Some OUndefined else None)"
  using assms
  by (auto simp: obj_setAt_def vec_setAt_def vec_resize_def Let_def nth_append nth_list_update
      split: if_splits)

text \<open>The test \<^verbatim>\<open>idx <= size()\<close> of \<^verbatim>\<open>delString\<close> lets the end of the array through to \<^verbatim>\<open>erase\<close>.\<close>

lemma delString_asserts_at_end:
  "obj_delString (length (ensureArray obj)) obj = Inl MojAssertFailed"
  by (simp add: obj_delString_def vec_erase_def Let_def)

end
