(* ===== verification/CStrings.thy ===== *)
theory CStrings
  imports ObjOps
begin

text \<open>
  The C library functions on characters and strings that the code calls: \<^verbatim>\<open>isspace\<close>,
  \<^verbatim>\<open>isxdigit\<close>, \<^verbatim>\<open>strtoll\<close> with base 0 (\<^verbatim>\<open>MojStrToInt64\<close>) and the conversion \<^verbatim>\<open>%lld\<close>.
\<close>

definition MojIsSpace :: "char \<Rightarrow> bool" where
  "MojIsSpace c \<longleftrightarrow> c = CHR '' '' \<or> (9 \<le> (of_char c :: nat) \<and> (of_char c :: nat) \<le> 13)"

definition MojIsHexDigit :: "char \<Rightarrow> bool" where
  "MojIsHexDigit c \<longleftrightarrow> isdigit c \<or> (65 \<le> (of_char c :: nat) \<and> (of_char c :: nat) \<le> 70) \<or>
     (97 \<le> (of_char c :: nat) \<and> (of_char c :: nat) \<le> 102)"

text \<open>The digit a character stands for in bases up to 16; 16 when it is none.\<close>

definition xdigit_val :: "char \<Rightarrow> int" where
  "xdigit_val c =
     (if isdigit c then digit_val c
      else if 65 \<le> (of_char c :: nat) \<and> (of_char c :: nat) \<le> 70 then of_char c - 55
      else if 97 \<le> (of_char c :: nat) \<and> (of_char c :: nat) \<le> 102 then of_char c - 87
      else 16)"

definition strtoll_sign :: "string \<Rightarrow> bool \<times> string" where
  "strtoll_sign s =
     (case s of
        c # cs \<Rightarrow> if c = CHR ''-'' then (True, cs) else if c = CHR ''+'' then (False, cs) else (False, s)
      | [] \<Rightarrow> (False, []))"

definition strtoll_base :: "string \<Rightarrow> int \<times> string" where
  "strtoll_base s =
     (case s of
        c # x # h # cs \<Rightarrow>
          if c = CHR ''0'' \<and> (x = CHR ''x'' \<or> x = CHR ''X'') \<and> MojIsHexDigit h then (16, h # cs)
          else if c = CHR ''0'' then (8, s) else (10, s)
      | c # cs \<Rightarrow> if c = CHR ''0'' then (8, s) else (10, s)
      | [] \<Rightarrow> (10, s))"

text \<open>Too large a value saturates; without a digit nothing is consumed. The result has the rest.\<close>

definition strtoll :: "string \<Rightarrow> i64 \<times> string" where
  "strtoll str =
     (let (neg, s) = strtoll_sign (dropWhile MojIsSpace str);
          (base, ds) = strtoll_base s;
          digits = takeWhile (\<lambda>c. xdigit_val c < base) ds;
          n = foldl (\<lambda>v c. base * v + xdigit_val c) 0 digits;
          v = (if neg then - n else n)
      in if digits = [] then (0, str)
         else (word_of_int (max MojInt64Min (min MojInt64Max v)), drop (length digits) ds))"

definition MojStrToInt64 :: "string \<Rightarrow> i64" where
  "MojStrToInt64 str = fst (strtoll (takeWhile (\<lambda>c. c \<noteq> NUL) str))"

definition show_nat :: "int \<Rightarrow> string" where
  "show_nat n = (if n = 0 then ''0'' else rev (rev_digits n))"

definition fmt_lld :: "i64 \<Rightarrow> string" where
  "fmt_lld val = (if sint val < 0 then CHR ''-'' # show_nat (- sint val) else show_nat (sint val))"

section \<open>Reading back a printed integer\<close>

lemma rev_digits_step:
  "0 < n \<Longrightarrow> rev_digits n = dig (n mod 10) # rev_digits (n div 10)"
proof -
  assume n: "0 < n"
  have "n - n div 10 * 10 = n mod 10" by (simp add: minus_div_mult_eq_mod)
  moreover have "tdiv n 10 = n div 10" using n by (simp add: tdiv_def)
  ultimately show ?thesis
    using n by (subst rev_digits.simps) (simp add: dig_def Let_def add_diff_eq [symmetric])
qed

lemma rev_digits_last:
  "0 < n \<Longrightarrow> rev_digits n \<noteq> [] \<and> last (rev_digits n) \<noteq> CHR ''0''"
proof (induction n rule: rev_digits.induct)
  case (1 rep)
  have nxt: "tdiv rep 10 = rep div 10" using 1(2) by (simp add: tdiv_def)
  show ?case
  proof (cases "rep < 10")
    case True
    then have "rev_digits rep = [dig rep]"
      using 1(2) by (simp add: rev_digits_step rev_digits.simps [of 0])
    moreover have "dig rep \<noteq> CHR ''0''"
      using True 1(2) dig_val [of rep] by (auto simp: digit_val_def)
    ultimately show ?thesis by simp
  next
    case False
    then have "0 < rep div 10" by (simp add: pos_imp_zdiv_pos_iff)
    then show ?thesis using 1 False by (simp add: nxt rev_digits_step [of rep])
  qed
qed

lemma xdigit_val_digit [simp]: "isdigit c \<Longrightarrow> xdigit_val c = digit_val c"
  by (simp add: xdigit_val_def)

lemma xdigits_mval:
  "digits_of ds \<Longrightarrow> foldl (\<lambda>v c. 10 * v + xdigit_val c) v ds = mval v ds"
  by (induction ds arbitrary: v) (auto simp: mval_def)

lemma show_nat_digits:
  assumes "0 \<le> n"
  shows "digits_of (show_nat n)" "mval 0 (show_nat n) = n" "show_nat n \<noteq> []"
    "0 < n \<Longrightarrow> hd (show_nat n) \<noteq> CHR ''0''"
proof -
  have d: "digits_of (rev_digits n)" "lval (rev_digits n) = n"
    using rev_digits_correct [OF assms] by auto
  show "digits_of (show_nat n)" using d by (simp add: show_nat_def isdigit_def)
  show "mval 0 (show_nat n) = n"
    using d mval_rev [of 0 "rev_digits n"] by (simp add: show_nat_def digit_val_def)
  show "show_nat n \<noteq> []"
    using assms rev_digits_last [of n] by (simp add: show_nat_def)
  show "0 < n \<Longrightarrow> hd (show_nat n) \<noteq> CHR ''0''"
    using rev_digits_last [of n] by (simp add: show_nat_def hd_rev)
qed

lemma strtoll_base_10: "s \<noteq> [] \<Longrightarrow> hd s \<noteq> CHR ''0'' \<Longrightarrow> strtoll_base s = (10, s)"
  by (auto simp: strtoll_base_def split: list.splits)

lemma digits_ten: "digits_of ds \<Longrightarrow> takeWhile (\<lambda>c. xdigit_val c < 10) ds = ds"
  by (induction ds) (auto dest: digit_val_range)

lemma strtoll_zero: "strtoll ''0'' = (0, [])"
  by code_simp

lemma strtoll_show_nat:
  assumes "0 < n" and "n \<le> - MojInt64Min"
  shows "n \<le> MojInt64Max \<Longrightarrow> strtoll (show_nat n) = (word_of_int n, [])"
    and "strtoll (CHR ''-'' # show_nat n) = (word_of_int (- n), [])"
proof -
  note s = show_nat_digits [of n]
  obtain c cs where c: "show_nat n = c # cs" "isdigit c"
    using s assms by (cases "show_nat n") auto
  have nosp: "\<not> MojIsSpace c" "c \<noteq> CHR ''-''" "c \<noteq> CHR ''+''"
    using c by (auto simp: isdigit_def MojIsSpace_def)
  have b: "strtoll_base (show_nat n) = (10, show_nat n)"
    using s assms by (intro strtoll_base_10) auto
  have t: "takeWhile (\<lambda>c. xdigit_val c < 10) (show_nat n) = show_nat n"
    "foldl (\<lambda>v c. 10 * v + xdigit_val c) 0 (show_nat n) = n"
    using s assms by (simp_all add: digits_ten xdigits_mval)
  have g1: "strtoll_sign (dropWhile MojIsSpace (show_nat n)) = (False, show_nat n)"
    using nosp by (simp add: c strtoll_sign_def)
  show "n \<le> MojInt64Max \<Longrightarrow> strtoll (show_nat n) = (word_of_int n, [])"
    unfolding strtoll_def Let_def g1 prod.case b t
    using assms s by (simp add: MojInt64Min_def)
  have g2: "strtoll_sign (dropWhile MojIsSpace (CHR ''-'' # show_nat n)) = (True, show_nat n)"
    by (simp add: strtoll_sign_def MojIsSpace_def)
  show "strtoll (CHR ''-'' # show_nat n) = (word_of_int (- n), [])"
    unfolding strtoll_def Let_def g2 prod.case b t
    using assms s by (simp add: MojInt64Min_def MojInt64Max_def)
qed


lemma strtoll_fmt_lld: "strtoll (fmt_lld v) = (v, [])"
proof -
  have r: "MojInt64Min \<le> sint v" "sint v \<le> MojInt64Max"
    using sint64_range [of v] by (simp_all add: MojInt64Min_def MojInt64Max_def)
  consider "sint v < 0" | "sint v = 0" | "0 < sint v" by linarith
  then show ?thesis
  proof cases
    case 1
    then show ?thesis using r strtoll_show_nat(2) [of "- sint v"] by (simp add: fmt_lld_def)
  next
    case 2
    then have "v = 0" by (metis sint_0 sint_eq_iff)
    then show ?thesis by (simp add: fmt_lld_def show_nat_def strtoll_zero)
  next
    case 3
    then show ?thesis
      using r strtoll_show_nat(1) [of "sint v"]
      by (simp add: fmt_lld_def MojInt64Min_def MojInt64Max_def)
  qed
qed

text \<open>The characters of a printed integer: a digit or a sign.\<close>

lemma fmt_lld_chars: "c \<in> set (fmt_lld v) \<Longrightarrow> isdigit c \<or> c = CHR ''-''"
  using show_nat_digits(1) [of "\<bar>sint v\<bar>"]
  by (auto simp: fmt_lld_def digits_of_def list_all_iff abs_if split: if_splits)

lemma fmt_lld_first: "\<exists>c cs. fmt_lld v = c # cs \<and> (isdigit c \<or> c = CHR ''-'')"
proof -
  have "fmt_lld v \<noteq> []"
    using show_nat_digits(3) [of "sint v"] by (simp add: fmt_lld_def)
  then obtain c cs where "fmt_lld v = c # cs" by (cases "fmt_lld v") auto
  then show ?thesis using fmt_lld_chars [of c v] by auto
qed

lemma MojStrToInt64_nonul [simp]: "nonul s \<Longrightarrow> MojStrToInt64 s = fst (strtoll s)"
proof -
  assume "nonul s"
  then have "takeWhile (\<lambda>c. c \<noteq> NUL) s = s" by (auto simp: takeWhile_eq_all_conv nonul_def)
  then show ?thesis by (simp only: MojStrToInt64_def)
qed

abbreviation intValue :: "obj \<Rightarrow> i64" where
  "intValue \<equiv> intValueWith MojStrToInt64"

section \<open>MojString\<close>

text \<open>\<^verbatim>\<open>MojString::split\<close>: the pieces between the separators, the empty ones left out.\<close>

fun split_from :: "char \<Rightarrow> string \<Rightarrow> string \<Rightarrow> string list" where
  "split_from c cur [] = (if cur = [] then [] else [rev cur])"
| "split_from c cur (x # xs) =
     (if x = c then (if cur = [] then [] else [rev cur]) @ split_from c [] xs
      else split_from c (x # cur) xs)"

definition str_split :: "char \<Rightarrow> string \<Rightarrow> string list" where
  "str_split c s = split_from c [] s"

end
