(* ===== verification/Visitor.thy ===== *)
theory Visitor
  imports ObjOps
begin

text \<open>
  \<^verbatim>\<open>MojObjectVisitor\<close> as a sequence of events, the traversal \<^verbatim>\<open>MojObject::visit\<close>, and the visitor
  that rebuilds a value, \<^verbatim>\<open>MojObjectBuilder\<close> (\<^verbatim>\<open>src/core/MojObjectBuilder.cpp\<close>).
\<close>

section \<open>Events\<close>

datatype ev =
    BeginObject
  | EndObject
  | BeginArray
  | EndArray
  | PropName string
  | NullValue
  | BoolValue bool
  | IntValue i64
  | DecimalValue i64
  | StringValue string

text \<open>The calls that the visit of a value makes, in order; undefined inherits the visit of null.\<close>

fun obj_visit :: "obj \<Rightarrow> ev list" where
  "obj_visit (OObject ps) =
     BeginObject # concat (map (\<lambda>(k, v). PropName k # obj_visit v) ps) @ [EndObject]"
| "obj_visit (OArray xs) = BeginArray # concat (map obj_visit xs) @ [EndArray]"
| "obj_visit (OString s) = [StringValue s]"
| "obj_visit (OBool b) = [BoolValue b]"
| "obj_visit (ODecimal d) = [DecimalValue d]"
| "obj_visit (OInt i) = [IntValue i]"
| "obj_visit ONull = [NullValue]"
| "obj_visit OUndefined = [NullValue]"

text \<open>The convenience methods of the visitor.\<close>

definition boolProp :: "string \<Rightarrow> bool \<Rightarrow> ev list" where
  "boolProp name val = [PropName name, BoolValue val]"

definition intProp :: "string \<Rightarrow> i64 \<Rightarrow> ev list" where
  "intProp name val = [PropName name, IntValue val]"

definition decimalProp :: "string \<Rightarrow> i64 \<Rightarrow> ev list" where
  "decimalProp name val = [PropName name, DecimalValue val]"

definition stringProp :: "string \<Rightarrow> string \<Rightarrow> ev list" where
  "stringProp name val = [PropName name, StringValue val]"

definition objectProp :: "string \<Rightarrow> obj \<Rightarrow> ev list" where
  "objectProp name val = PropName name # obj_visit val"

section \<open>MojObjectBuilder\<close>

text \<open>The stack holds the open containers, each with the property name that was current before it.\<close>

record builder =
  m_obj :: obj
  m_stack :: "(obj \<times> string) list"
  m_propName :: string

definition builder_reset :: builder where
  "builder_reset = \<lparr>m_obj = OUndefined, m_stack = [], m_propName = []\<rparr>"

definition builder_value :: "obj \<Rightarrow> builder \<Rightarrow> builder res" where
  "builder_value val b =
     (case m_stack b of
        [] \<Rightarrow> Inr (b\<lparr>m_obj := val\<rparr>)
      | (back, pn) # st \<Rightarrow>
          if obj_type back = TypeObject
          then Inr (b\<lparr>m_stack := (obj_put (m_propName b) val back, pn) # st\<rparr>)
          else if obj_type back \<noteq> TypeArray then Inl MojAssertFailed
          else Inr (b\<lparr>m_stack := (obj_push val back, pn) # st\<rparr>))"

definition builder_push :: "MojType \<Rightarrow> builder \<Rightarrow> builder res" where
  "builder_push type b = Inr (b\<lparr>m_stack := (obj_init type, m_propName b) # m_stack b\<rparr>)"

definition builder_pop :: "builder \<Rightarrow> builder res" where
  "builder_pop b =
     (case m_stack b of
        [] \<Rightarrow> Inl MojAssertFailed
      | (obj, pn) # st \<Rightarrow> builder_value obj (b\<lparr>m_propName := pn, m_stack := st\<rparr>))"

fun builder_ev :: "builder \<Rightarrow> ev \<Rightarrow> builder res" where
  "builder_ev b BeginObject = builder_push TypeObject b"
| "builder_ev b EndObject = builder_pop b"
| "builder_ev b BeginArray = builder_push TypeArray b"
| "builder_ev b EndArray = builder_pop b"
| "builder_ev b (PropName name) = Inr (b\<lparr>m_propName := name\<rparr>)"
| "builder_ev b NullValue = builder_value ONull b"
| "builder_ev b (BoolValue val) = builder_value (OBool val) b"
| "builder_ev b (IntValue val) = builder_value (OInt val) b"
| "builder_ev b (DecimalValue val) = builder_value (ODecimal val) b"
| "builder_ev b (StringValue val) = builder_value (OString val) b"

section \<open>The builder rebuilds what it is shown\<close>

text \<open>What comes back: undefined parts are null.\<close>

fun undef_to_null :: "obj \<Rightarrow> obj" where
  "undef_to_null (OObject ps) = OObject (map (\<lambda>(k, v). (k, undef_to_null v)) ps)"
| "undef_to_null (OArray xs) = OArray (map undef_to_null xs)"
| "undef_to_null OUndefined = ONull"
| "undef_to_null v = v"

lemma undef_to_null_id: "no_undef v \<Longrightarrow> undef_to_null v = v"
proof (induction v rule: undef_to_null.induct)
  case (1 ps)
  then show ?case by (force intro!: map_idI)
next
  case (2 xs)
  then show ?case by (auto intro!: map_idI)
qed auto

lemma builder_value_append:
  "\<lbrakk>m_stack b = []; builder_value val b = Inr b'\<rbrakk> \<Longrightarrow> m_obj b' = val"
  by (auto simp: builder_value_def)

lemma run_props:
  assumes "\<And>p b. p \<in> set ps \<Longrightarrow> run builder_ev b (obj_visit (snd p)) = builder_value (undef_to_null (snd p)) b"
    and "sorted_props (ds @ ps)"
  shows "run builder_ev (b\<lparr>m_stack := (OObject (map (\<lambda>(k, v). (k, undef_to_null v)) ds), pn) # st\<rparr>)
           (concat (map (\<lambda>(k, v). PropName k # obj_visit v) ps)) =
         Inr (b\<lparr>m_propName := (if ps = [] then m_propName b else fst (last ps)),
                m_stack := (OObject (map (\<lambda>(k, v). (k, undef_to_null v)) (ds @ ps)), pn) # st\<rparr>)"
  using assms
proof (induction ps arbitrary: ds b)
  case (Cons p ps)
  obtain k v where p: "p = (k, v)" by (cases p)
  let ?m = "map (\<lambda>(k, v). (k, undef_to_null v))"
  have last: "map_put MojStrCmp k (undef_to_null v) (?m ds) = ?m (ds @ [p])"
  proof -
    have "map_put MojStrCmp k (undef_to_null v) (?m ds) = ?m ds @ [(k, undef_to_null v)]"
      using Cons.prems(2) by (intro map_put_last) (auto simp: p sorted_keys_def sorted_wrt_append)
    then show ?thesis by (simp add: p)
  qed
  have split: "concat (map (\<lambda>(k, v). PropName k # obj_visit v) (p # ps)) =
      (PropName k # obj_visit v) @ concat (map (\<lambda>(k, v). PropName k # obj_visit v) ps)"
    by (simp add: p)
  have step: "run builder_ev (b\<lparr>m_stack := (OObject (?m ds), pn) # st\<rparr>) (PropName k # obj_visit v) =
        Inr (b\<lparr>m_propName := k, m_stack := (OObject (?m (ds @ [p])), pn) # st\<rparr>)"
    using Cons.prems(1) [of p] by (simp add: p builder_value_def obj_put_def last)
  have rest: "run builder_ev (b\<lparr>m_propName := k, m_stack := (OObject (?m (ds @ [p])), pn) # st\<rparr>)
          (concat (map (\<lambda>(k, v). PropName k # obj_visit v) ps)) =
        Inr (b\<lparr>m_propName := (if ps = [] then k else fst (last ps)),
               m_stack := (OObject (?m (ds @ p # ps)), pn) # st\<rparr>)"
    using Cons.IH [of "ds @ [p]" "b\<lparr>m_propName := k\<rparr>"] Cons.prems by simp
  show ?case unfolding split run_append step rbind_simps rest by (simp add: p)
qed simp


lemma run_elems:
  assumes "\<And>x b. x \<in> set xs \<Longrightarrow> run builder_ev b (obj_visit x) = builder_value (undef_to_null x) b"
  shows "run builder_ev (b\<lparr>m_stack := (OArray (map undef_to_null ds), pn) # st\<rparr>)
           (concat (map obj_visit xs)) =
         Inr (b\<lparr>m_stack := (OArray (map undef_to_null (ds @ xs)), pn) # st\<rparr>)"
  using assms
proof (induction xs arbitrary: ds)
  case (Cons x xs)
  then show ?case
    using Cons.IH [of "ds @ [x]"]
    by (simp add: run_append builder_value_def obj_push_def)
qed simp

lemma builder_same [simp]:
  "b\<lparr>m_propName := m_propName b, m_stack := m_stack b\<rparr> = b"
  "b\<lparr>m_stack := m_stack b\<rparr> = b"
  by (cases b, simp)+

lemma run_visit:
  "wf_obj v \<Longrightarrow> run builder_ev b (obj_visit v) = builder_value (undef_to_null v) b"
proof (induction v arbitrary: b rule: obj_visit.induct)
  case (1 ps)
  have "run builder_ev b' (obj_visit (snd p)) = builder_value (undef_to_null (snd p)) b'"
    if "p \<in> set ps" for p b'
  proof -
    obtain k w where "p = (k, w)" by (cases p)
    then show ?thesis using 1(1) [OF that, of k w] 1(2) that by auto
  qed
  then show ?case
    using run_props [where ps=ps and ds="[]" and b=b and pn="m_propName b" and st="m_stack b"] 1(2)
    by (simp add: run_append builder_push_def builder_pop_def)
next
  case (2 xs)
  have "run builder_ev b' (obj_visit x) = builder_value (undef_to_null x) b'"
    if "x \<in> set xs" for x b' using that 2 by auto
  then show ?case
    using run_elems [where xs=xs and ds="[]" and b=b and pn="m_propName b" and st="m_stack b"]
    by (simp add: run_append builder_push_def builder_pop_def)
qed auto

lemma builder_run:
  "wf_obj v \<Longrightarrow> run builder_ev builder_reset (obj_visit v) = Inr (builder_reset\<lparr>m_obj := undef_to_null v\<rparr>)"
  by (simp add: run_visit builder_value_def builder_reset_def)

section \<open>The builder's invariant\<close>

text \<open>The builder's state is well-formed; the types of its open containers.\<close>

definition bwf :: "builder \<Rightarrow> bool" where
  "bwf b \<longleftrightarrow> wf_obj (m_obj b) \<and> nonul (m_propName b) \<and>
     (\<forall>p \<in> set (m_stack b). wf_obj (fst p) \<and> nonul (snd p) \<and> obj_type (fst p) \<in> {TypeObject, TypeArray})"

definition btypes :: "builder \<Rightarrow> MojType list" where
  "btypes b = map (\<lambda>p. obj_type (fst p)) (m_stack b)"

lemma builder_value_ok:
  assumes "bwf b" and "wf_obj val"
  shows "\<exists>b'. builder_value val b = Inr b' \<and> bwf b' \<and> btypes b' = btypes b"
proof (cases "m_stack b")
  case (Cons p st)
  obtain bk pn where p: "p = (bk, pn)" by (cases p)
  have bk: "wf_obj bk" "nonul pn" "obj_type bk = TypeObject \<or> obj_type bk = TypeArray"
    "nonul (m_propName b)"
    using assms(1) by (auto simp: bwf_def Cons p)
  have types: "obj_type (obj_put k val bk) = TypeObject" "obj_type (obj_push val bk) = TypeArray" for k
    by (simp_all add: obj_put_def obj_push_def)
  show ?thesis
    using assms bk types obj_put_wf [OF bk(1) assms(2) bk(4)] obj_push_wf [OF bk(1) assms(2)]
    by (auto simp: builder_value_def Cons p bwf_def btypes_def)
qed (use assms in \<open>simp add: builder_value_def bwf_def btypes_def\<close>)

lemma builder_pop_ok:
  assumes "bwf b" and "btypes b = t # ts"
  shows "\<exists>b'. builder_pop b = Inr b' \<and> bwf b' \<and> btypes b' = ts"
proof -
  obtain obj pn st where s: "m_stack b = (obj, pn) # st" using assms(2) by (auto simp: btypes_def)
  then have "bwf (b\<lparr>m_propName := pn, m_stack := st\<rparr>)" "wf_obj obj"
    using assms(1) by (auto simp: bwf_def)
  then show ?thesis
    using builder_value_ok [of "b\<lparr>m_propName := pn, m_stack := st\<rparr>" obj] assms(2) s
    by (simp add: builder_pop_def btypes_def)
qed

lemma builder_push_ok:
  "bwf b \<Longrightarrow> t \<in> {TypeObject, TypeArray} \<Longrightarrow>
   \<exists>b'. builder_push t b = Inr b' \<and> bwf b' \<and> btypes b' = t # btypes b"
  by (auto simp: builder_push_def bwf_def btypes_def)

lemma builder_propName_ok: "bwf b \<Longrightarrow> nonul k \<Longrightarrow> bwf (b\<lparr>m_propName := k\<rparr>) \<and>
   btypes (b\<lparr>m_propName := k\<rparr>) = btypes b"
  by (simp add: bwf_def btypes_def)

text \<open>
  C36. Visiting a well-formed value with a fresh builder gives the value back, its undefined parts
  as null, and leaves no container open.
\<close>

theorem builder_visit:
  assumes "wf_obj v"
  shows "run builder_ev builder_reset (obj_visit v) = Inr (builder_reset\<lparr>m_obj := undef_to_null v\<rparr>)"
  by (rule builder_run [OF assms])


theorem builder_visit_witness:
  "run builder_ev builder_reset (obj_visit (OArray [OInt 1, OObject [(''k'', OString ''v'')]])) =
   Inr (builder_reset\<lparr>m_obj := undef_to_null (OArray [OInt 1, OObject [(''k'', OString ''v'')]])\<rparr>)"
  by (rule builder_visit) simp

end
