(* ===== verification/OrderEnc.thy ===== *)
theory OrderEnc
  imports MojObj
begin

text \<open>
  The contract of an order-preserving encoding: encoded values, whatever follows them, compare byte
  by byte as the values do, and an encoding is never empty and never begins with the end marker 0.
  The contract is closed under pairs and under lists that the end marker terminates, which is how
  \<^verbatim>\<open>MojObjectWriter\<close> composes properties, objects and arrays.
\<close>

locale order_encoder =
  fixes enc :: "'a \<Rightarrow> byte list" and cmp :: "'a \<Rightarrow> 'a \<Rightarrow> int" and ok :: "'a \<Rightarrow> bool"
  assumes enc_cmp: "ok x \<Longrightarrow> ok y \<Longrightarrow> sgn (bcmp (enc x @ r) (enc y @ s)) =
      (if cmp x y = 0 then sgn (bcmp r s) else sgn (cmp x y))"
    and enc_first: "ok x \<Longrightarrow> \<exists>b bs. enc x = b # bs \<and> 0 < b"
begin

lemma enc_list:
  "list_all ok xs \<Longrightarrow> list_all ok ys \<Longrightarrow>
   sgn (bcmp (concat (map enc xs) @ 0 # r) (concat (map enc ys) @ 0 # s)) =
     (if vec_compare cmp xs ys = 0 then sgn (bcmp r s) else sgn (vec_compare cmp xs ys))"
proof (induction xs arbitrary: ys)
  case Nil
  show ?case
  proof (cases ys)
    case (Cons y ys')
    then obtain b bs where "enc y = b # bs" "0 < b" using enc_first [of y] Nil by auto
    then show ?thesis using Cons by (simp add: MojComp_def)
  qed simp
next
  case (Cons x xs)
  show ?case
  proof (cases ys)
    case Nil
    obtain b bs where "enc x = b # bs" "0 < b" using enc_first [of x] Cons.prems by auto
    then show ?thesis using Nil by (simp add: MojComp_def)
  next
    case (Cons y ys')
    then show ?thesis
      using Cons.prems Cons.IH [of ys'] \<open>ys = y # ys'\<close> by (simp add: enc_cmp Let_def)
  qed
qed

lemma enc_cmp_0: "ok x \<Longrightarrow> ok y \<Longrightarrow> cmp x y = 0 \<Longrightarrow> sgn (bcmp (enc x) (enc y)) = 0"
  using enc_cmp [of x y "[]" "[]"] by simp

text \<open>Without a tail: the bytes of two values compare as the values.\<close>

lemma enc_order: "ok x \<Longrightarrow> ok y \<Longrightarrow> sgn (bcmp (enc x) (enc y)) = sgn (cmp x y)"
  using enc_cmp [of x y "[]" "[]"] by simp

text \<open>A comparison of whole encodings of lists, that is of keys made of several values.\<close>

lemma enc_concat:
  "list_all ok xs \<Longrightarrow> list_all ok ys \<Longrightarrow>
   sgn (bcmp (concat (map enc xs)) (concat (map enc ys))) = sgn (vec_compare cmp xs ys)"
proof (induction xs arbitrary: ys)
  case Nil
  then show ?case using enc_first by (cases ys) force+
next
  case (Cons x xs)
  show ?case
  proof (cases ys)
    case Nil
    then show ?thesis using enc_first [of x] Cons.prems by auto
  next
    case (Cons y ys')
    then show ?thesis using Cons.prems Cons.IH [of ys'] \<open>ys = y # ys'\<close> by (simp add: enc_cmp Let_def)
  qed
qed

end

lemma order_encoder_pair:
  assumes "order_encoder e1 c1 ok1" and "order_encoder e2 c2 ok2"
  shows "order_encoder (\<lambda>p. e1 (fst p) @ e2 (snd p)) (pair_compare c1 c2) (\<lambda>p. ok1 (fst p) \<and> ok2 (snd p))"
proof (unfold_locales, goal_cases)
  case (1 x y r s)
  then show ?case
    using order_encoder.enc_cmp [OF assms(1), of "fst x" "fst y"]
      order_encoder.enc_cmp [OF assms(2), of "snd x" "snd y"]
    by (simp add: pair_compare_def Let_def)
next
  case (2 x)
  then show ?case using order_encoder.enc_first [OF assms(1), of "fst x"] by auto
qed

lemma order_encoder_mono:
  "order_encoder e c P \<Longrightarrow> (\<And>x. Q x \<Longrightarrow> P x) \<Longrightarrow> order_encoder e c Q"
  by (simp add: order_encoder_def)

lemma order_encoder_cong:
  assumes "order_encoder e c P" and "\<And>x. P x \<Longrightarrow> e' x = e x"
  shows "order_encoder e' c P"
  using assms unfolding order_encoder_def by auto

end
