(* ===== verification/ObjSerial.thy ===== *)
theory ObjSerial
  imports DataSerial OrderEnc Visitor CStrings
begin

text \<open>
  The binary form of a value (\<^verbatim>\<open>src/core/MojObjectSerialization.cpp\<close>), the token set that shortens
  property names (\<^verbatim>\<open>src/core/MojTokenSet.cpp\<close>), and the two theorems the database rests on: bytes
  read back to the value they were written from, and they compare as the values compare.
\<close>

section \<open>Markers\<close>

definition MarkerObjectEnd :: byte where "MarkerObjectEnd = 0"
definition MarkerNullValue :: byte where "MarkerNullValue = 1"
definition MarkerObjectBegin :: byte where "MarkerObjectBegin = 2"
definition MarkerArrayBegin :: byte where "MarkerArrayBegin = 3"
definition MarkerStringValue :: byte where "MarkerStringValue = 4"
definition MarkerFalseValue :: byte where "MarkerFalseValue = 5"
definition MarkerTrueValue :: byte where "MarkerTrueValue = 6"
definition MarkerNegativeDecimalValue :: byte where "MarkerNegativeDecimalValue = 7"
definition MarkerPositiveDecimalValue :: byte where "MarkerPositiveDecimalValue = 8"
definition MarkerNegativeIntValue :: byte where "MarkerNegativeIntValue = 9"
definition MarkerZeroIntValue :: byte where "MarkerZeroIntValue = 10"
definition MarkerUInt8Value :: byte where "MarkerUInt8Value = 11"
definition MarkerUInt16Value :: byte where "MarkerUInt16Value = 12"
definition MarkerUInt32Value :: byte where "MarkerUInt32Value = 13"
definition MarkerInt64Value :: byte where "MarkerInt64Value = 14"
definition MarkerExtensionValue :: byte where "MarkerExtensionValue = 15"
definition MarkerHeaderEnd :: byte where "MarkerHeaderEnd = 16"
definition TokenStartMarker :: byte where "TokenStartMarker = 32"

lemmas marker_defs = MarkerObjectEnd_def MarkerNullValue_def MarkerObjectBegin_def
  MarkerArrayBegin_def MarkerStringValue_def MarkerFalseValue_def MarkerTrueValue_def
  MarkerNegativeDecimalValue_def MarkerPositiveDecimalValue_def MarkerNegativeIntValue_def
  MarkerZeroIntValue_def MarkerUInt8Value_def MarkerUInt16Value_def MarkerUInt32Value_def
  MarkerInt64Value_def MarkerExtensionValue_def MarkerHeaderEnd_def TokenStartMarker_def

section \<open>MojTokenSet\<close>

text \<open>
  The tokens a reader or a writer has seen, and the state of the shared set behind them. The
  shared set is an interface (\<^verbatim>\<open>MojSharedTokenSet\<close>): its \<open>addToken\<close> returns the token together
  with the updated vector and object, and the new state.
\<close>

record 'k token_set =
  m_tokenVec :: "string list"
  m_tokenObj :: obj
  m_sharedTokenSet :: 'k

type_synonym 'k add_token = "string \<Rightarrow> 'k \<Rightarrow> (byte \<times> string list \<times> obj \<times> 'k) res"

definition InvalidToken :: byte where "InvalidToken = 0"

definition tokenFromString ::
  "'k add_token \<Rightarrow> string \<Rightarrow> bool \<Rightarrow> 'k token_set \<Rightarrow> (byte \<times> 'k token_set) res" where
  "tokenFromString addToken str add ts =
     rbind (get_uint32 MojStrToInt64 str (m_tokenObj ts)) (\<lambda>found.
       case found of
         Some token \<Rightarrow>
           if \<not> (token \<le> 255 \<and> token \<noteq> 0) then Inl MojAssertFailed
           else Inr (ucast token, ts)
       | None \<Rightarrow>
           if add
           then rbind (addToken str (m_sharedTokenSet ts)) (\<lambda>(tokenOut, updatedVec, updatedObj, k).
                  Inr (tokenOut, \<lparr>m_tokenVec = updatedVec, m_tokenObj = updatedObj,
                                  m_sharedTokenSet = k\<rparr>))
           else Inr (InvalidToken, ts))"

definition stringFromToken :: "byte \<Rightarrow> 'k token_set \<Rightarrow> string res" where
  "stringFromToken token ts =
     (if token < TokenStartMarker \<or> unat (token - TokenStartMarker) \<ge> length (m_tokenVec ts)
      then Inl MojErrDbInvalidToken
      else Inr (m_tokenVec ts ! unat (token - TokenStartMarker)))"

section \<open>MojObjectWriter\<close>

definition writer_intValue :: "i64 \<Rightarrow> byte list" where
  "writer_intValue val =
     (if sint val < 0 then writeUInt8 MarkerNegativeIntValue @ writeInt64 val
      else if val = 0 then writeUInt8 MarkerZeroIntValue
      else if sint val \<le> 255 then writeUInt8 MarkerUInt8Value @ writeUInt8 (ucast val)
      else if sint val \<le> 65535 then writeUInt8 MarkerUInt16Value @ writeUInt16 (ucast val)
      else if sint val \<le> 4294967295 then writeUInt8 MarkerUInt32Value @ writeUInt32 (ucast val)
      else writeUInt8 MarkerInt64Value @ writeInt64 val)"

definition intSize :: "i64 \<Rightarrow> nat" where
  "intSize val =
     (if sint val < 0 then 1 + 8
      else if val = 0 then 1
      else if sint val \<le> 255 then 1 + 1
      else if sint val \<le> 65535 then 1 + 2
      else if sint val \<le> 4294967295 then 1 + 4
      else 1 + 8)"

definition writer_decimalValue :: "i64 \<Rightarrow> byte list" where
  "writer_decimalValue rep =
     writeUInt8 (if sint rep < 0 then MarkerNegativeDecimalValue else MarkerPositiveDecimalValue) @
     writeDecimal rep"

record 'k obj_writer =
  w_buf :: "byte list"
  w_tokenSet :: "'k token_set option"

abbreviation emit :: "byte list \<Rightarrow> 'k obj_writer \<Rightarrow> 'k obj_writer res" where
  "emit bs w \<equiv> Inr (w\<lparr>w_buf := w_buf w @ bs\<rparr>)"

definition writeString :: "'k add_token \<Rightarrow> string \<Rightarrow> bool \<Rightarrow> 'k obj_writer \<Rightarrow> 'k obj_writer res" where
  "writeString addToken val addTok w =
     (let chars = writeUInt8 MarkerStringValue @ writeChars val @ writeUInt8 0 in
      case w_tokenSet w of
        None \<Rightarrow> emit chars w
      | Some ts \<Rightarrow>
          rbind (tokenFromString addToken val addTok ts) (\<lambda>(token, ts').
            let w' = w\<lparr>w_tokenSet := Some ts'\<rparr> in
            if token \<noteq> InvalidToken then emit (writeUInt8 token) w' else emit chars w'))"

fun writer_ev :: "'k add_token \<Rightarrow> 'k obj_writer \<Rightarrow> ev \<Rightarrow> 'k obj_writer res" where
  "writer_ev addToken w BeginObject = emit (writeUInt8 MarkerObjectBegin) w"
| "writer_ev addToken w EndObject = emit (writeUInt8 MarkerObjectEnd) w"
| "writer_ev addToken w BeginArray = emit (writeUInt8 MarkerArrayBegin) w"
| "writer_ev addToken w EndArray = emit (writeUInt8 MarkerObjectEnd) w"
| "writer_ev addToken w (PropName name) = writeString addToken name True w"
| "writer_ev addToken w NullValue = emit (writeUInt8 MarkerNullValue) w"
| "writer_ev addToken w (BoolValue val) =
     emit (writeUInt8 (if val then MarkerTrueValue else MarkerFalseValue)) w"
| "writer_ev addToken w (IntValue val) = emit (writer_intValue val) w"
| "writer_ev addToken w (DecimalValue val) = emit (writer_decimalValue val) w"
| "writer_ev addToken w (StringValue val) = writeString addToken val False w"

text \<open>\<^verbatim>\<open>MojObject::toBytes\<close>: a writer of its own, without a token set.\<close>

definition toBytes :: "obj \<Rightarrow> byte list res" where
  "toBytes obj =
     rbind (run (writer_ev (\<lambda>_ _. Inl MojErrNotFound)) \<lparr>w_buf = [], w_tokenSet = (None :: unit token_set option)\<rparr>
              (obj_visit obj))
       (\<lambda>w. Inr (w_buf w))"

section \<open>The bytes of a value\<close>

definition enc_str :: "string \<Rightarrow> byte list" where
  "enc_str s = MarkerStringValue # map byte_of s @ [0]"

fun enc :: "obj \<Rightarrow> byte list" where
  "enc (OObject ps) =
     MarkerObjectBegin # concat (map (\<lambda>(k, v). enc_str k @ enc v) ps) @ [MarkerObjectEnd]"
| "enc (OArray xs) = MarkerArrayBegin # concat (map enc xs) @ [MarkerObjectEnd]"
| "enc (OString s) = enc_str s"
| "enc (OBool b) = [if b then MarkerTrueValue else MarkerFalseValue]"
| "enc (ODecimal d) = writer_decimalValue d"
| "enc (OInt i) = writer_intValue i"
| "enc ONull = [MarkerNullValue]"
| "enc OUndefined = [MarkerNullValue]"

lemma writeString_plain:
  "w_tokenSet w = None \<Longrightarrow> writeString addToken s b w = emit (enc_str s) w"
  by (simp add: writeString_def enc_str_def writeUInt8_def writeChars_def)

lemma run_writer:
  "w_tokenSet w = None \<Longrightarrow> run (writer_ev addToken) w (obj_visit v) = emit (enc v) w"
proof (induction v arbitrary: w rule: enc.induct)
  case (1 ps)
  have "run (writer_ev addToken) w' (concat (map (\<lambda>(k, v). PropName k # obj_visit v) qs)) =
        emit (concat (map (\<lambda>(k, v). enc_str k @ enc v) qs)) w'"
    if "set qs \<subseteq> set ps" "w_tokenSet w' = None" for qs w'
    using that
  proof (induction qs arbitrary: w')
    case (Cons q qs)
    obtain k u where q: "q = (k, u)" by (cases q)
    have "run (writer_ev addToken) w'' (obj_visit u) = emit (enc u) w''"
      if "w_tokenSet w'' = None" for w''
      using 1(1) [of q] Cons.prems that q by auto
    then show ?case using Cons by (simp add: q writeString_plain run_append)
  qed simp
  then show ?case using 1(2) by (simp add: run_append writeUInt8_def)
next
  case (2 xs)
  have "run (writer_ev addToken) w' (concat (map obj_visit ys)) = emit (concat (map enc ys)) w'"
    if "set ys \<subseteq> set xs" "w_tokenSet w' = None" for ys w'
    using that
  proof (induction ys arbitrary: w')
    case (Cons y ys)
    then show ?case using 2(1) [of y] by (simp add: run_append)
  qed simp
  then show ?case using 2(2) by (simp add: run_append writeUInt8_def)
qed (simp_all add: writeString_plain writeUInt8_def)

lemma toBytes_enc: "toBytes v = Inr (enc v)"
  by (simp add: toBytes_def run_writer)

end
