(* ===== verification/ObjOrder.thy ===== *)
theory ObjOrder
  imports ObjSerial
begin

text \<open>
  The bytes of \<^verbatim>\<open>MojObject::toBytes\<close> compare, as unsigned bytes, as \<^verbatim>\<open>MojObject::compare\<close> compares
  the values: the property that lets the database engines keep index keys in byte order.
\<close>

section \<open>Strings\<close>

lemma MojComp_byte_of:
  "MojComp (byte_of c) (byte_of d) = sgn (of_char c - of_char d)"
proof (cases "c = d")
  case False
  then have "(of_char c :: int) \<noteq> of_char d" by simp
  then show ?thesis by (auto simp: MojComp_def word_less_def sgn_if of_nat_of_char)
qed simp

lemma enc_chars:
  "nonul x \<Longrightarrow> nonul y \<Longrightarrow> sgn (bcmp (map byte_of x @ 0 # r) (map byte_of y @ 0 # s)) =
     (if MojStrCmp x y = 0 then sgn (bcmp r s) else sgn (MojStrCmp x y))"
proof (induction x y rule: MojStrCmp.induct)
  case (4 c cs d ds)
  then show ?case by (cases "c = d") (simp_all add: MojComp_byte_of Let_def sgn_eq_0_iff)
next
  case (2 d ds)
  then show ?case by (auto simp: MojComp_byte_of simp flip: byte_of_NUL)
next
  case (3 c cs)
  then show ?case by (auto simp: MojComp_byte_of simp flip: byte_of_NUL)
qed simp

interpretation enc_str: order_encoder enc_str MojStrCmp nonul
  by unfold_locales (auto simp: enc_str_def marker_defs enc_chars)

section \<open>Numbers\<close>

definition int_marker :: "i64 \<Rightarrow> byte" where
  "int_marker val =
     (if sint val < 0 then 9 else if val = 0 then 10 else if sint val \<le> 255 then 11
      else if sint val \<le> 65535 then 12 else if sint val \<le> 4294967295 then 13 else 14)"

definition int_width :: "byte \<Rightarrow> nat" where
  "int_width m = (if m = 10 then 0 else if m = 11 then 1 else if m = 12 then 2 else if m = 13 then 4 else 8)"

lemma be_bytes_ucast:
  "8 * n \<le> LENGTH('b::len) \<Longrightarrow> be_bytes n (ucast (w :: 'a::len word) :: 'b word) = be_bytes n w"
proof (induction n)
  case (Suc n)
  have "ucast (drop_bit (8 * n) (ucast w :: 'b word)) = (ucast (drop_bit (8 * n) w) :: byte)"
    using Suc.prems by (intro bit_word_eqI) (auto simp: bit_simps)
  then show ?case using Suc by simp
qed simp

lemma writer_intValue_bytes:
  "writer_intValue val = int_marker val # be_bytes (int_width (int_marker val)) val"
  using be_bytes_ucast [of 2 val, where 'b=16] be_bytes_ucast [of 4 val, where 'b=32]
  by (auto simp: writer_intValue_def int_marker_def int_width_def writeUInt8_def writeUInt16_def
      writeUInt32_def writeInt64_def marker_defs)

lemma uint_sint64: "uint (v :: i64) = (if sint v < 0 then sint v + 2 ^ 64 else sint v)"
proof -
  have r: "- (2 ^ 63) \<le> sint v" "sint v < 2 ^ 63" using sint64_range [of v] by auto
  show ?thesis
  proof (cases "sint v < 0")
    case True
    have "v = word_of_int (sint v + 2 ^ 64)" by simp
    then show ?thesis using True r by (intro trans [OF uint_of_int64]) auto
  next
    case False
    have "v = word_of_int (sint v)" by simp
    then show ?thesis using False r by (intro trans [OF uint_of_int64]) auto
  qed
qed

lemma int_width_bound: "uint v < 256 ^ int_width (int_marker v)"
proof -
  have "sint v < 0 \<Longrightarrow> uint v < 256 ^ 8" using uint_lt2p [of v] by simp
  moreover have "v = 0 \<Longrightarrow> uint v < 256 ^ 0" by simp
  ultimately show ?thesis
    using uint_lt2p [of v] by (auto simp: int_marker_def int_width_def uint_sint64)
qed

lemma sint_zero_iff [simp]: "sint (v :: i64) = 0 \<longleftrightarrow> v = 0"
  using sint_eq_iff [of v 0] by simp

lemma int_marker_mono: "sint i \<le> sint j \<Longrightarrow> int_marker i \<le> int_marker j"
  by (auto simp: int_marker_def)

lemma int_marker_pos: "0 < int_marker v"
  by (simp add: int_marker_def)

lemma int_marker_sign: "int_marker i = int_marker j \<Longrightarrow> sint i < 0 \<longleftrightarrow> sint j < 0"
  by (auto simp: int_marker_def split: if_splits)

lemma enc_int:
  "sgn (bcmp (writer_intValue i @ r) (writer_intValue j @ s)) =
     (if MojComp (sint i) (sint j) = 0 then sgn (bcmp r s) else sgn (MojComp (sint i) (sint j)))"
proof -
  consider "int_marker i = int_marker j" | "int_marker i < int_marker j" | "int_marker j < int_marker i"
    by fastforce
  then show ?thesis
  proof cases
    case 1
    have "uint i - uint j = sint i - sint j"
      using int_marker_sign [OF 1] by (simp add: uint_sint64)
    then show ?thesis
      using bcmp_be_bytes_append [where v=i and w=j and n="int_width (int_marker i)" and r=r and s=s]
        int_width_bound [of i] int_width_bound [of j] 1
      by (auto simp: writer_intValue_bytes MojComp_def)
  next
    case 2
    then have "sint i < sint j" using int_marker_mono [of j i] by force
    then show ?thesis using 2 by (simp add: writer_intValue_bytes MojComp_def)
  next
    case 3
    then have "sint j < sint i" using int_marker_mono [of i j] by force
    then show ?thesis using 3 by (simp add: writer_intValue_bytes MojComp_def)
  qed
qed

lemma enc_decimal:
  "sgn (bcmp (writer_decimalValue i @ r) (writer_decimalValue j @ s)) =
     (if MojComp (sint i) (sint j) = 0 then sgn (bcmp r s) else sgn (MojComp (sint i) (sint j)))"
proof -
  have u: "uint v < 256 ^ 8" for v :: i64 using uint_lt2p [of v] by simp
  show ?thesis
    using bcmp_be_bytes_append [OF u u, where r=r and s=s]
    by (auto simp: writer_decimalValue_def writeUInt8_def writeDecimal_def writeInt64_def marker_defs
        MojComp_def uint_sint64)
qed

section \<open>Values\<close>

definition ser_ok :: "obj \<Rightarrow> bool" where
  "ser_ok v \<longleftrightarrow> wf_obj v \<and> no_undef v"

fun type_lo :: "MojType \<Rightarrow> byte" where
  "type_lo TypeUndefined = 1"
| "type_lo TypeNull = 1"
| "type_lo TypeObject = 2"
| "type_lo TypeArray = 3"
| "type_lo TypeString = 4"
| "type_lo TypeBool = 5"
| "type_lo TypeDecimal = 7"
| "type_lo TypeInt = 9"

fun type_hi :: "MojType \<Rightarrow> byte" where
  "type_hi TypeBool = 6"
| "type_hi TypeDecimal = 8"
| "type_hi TypeInt = 14"
| "type_hi t = type_lo t"

lemma type_range_mono:
  "s \<noteq> TypeUndefined \<Longrightarrow> type_rank s < type_rank t \<Longrightarrow> type_hi s < type_lo t"
  by (cases s; cases t) simp_all

lemma type_lo_pos: "0 < type_lo t"
  by (cases t) simp_all

text \<open>The first byte tells the type, and its order is that of the types.\<close>

lemma enc_head: "\<exists>b bs. enc v = b # bs \<and> type_lo (obj_type v) \<le> b \<and> b \<le> type_hi (obj_type v)"
  by (cases v) (auto simp: marker_defs enc_str_def writer_intValue_bytes int_marker_def
      writer_decimalValue_def writeUInt8_def)

lemma enc_first_byte: "\<exists>b bs. enc v = b # bs \<and> 0 < b"
  using enc_head [of v] type_lo_pos [of "obj_type v"] by (auto intro: less_le_trans)

lemma enc_types:
  assumes "no_undef v" "no_undef w" "obj_type v \<noteq> obj_type w"
  shows "sgn (bcmp (enc v @ r) (enc w @ s)) = sgn (obj_compare v w)"
proof -
  obtain b bs c cs where e: "enc v = b # bs" "enc w = c # cs"
    and r: "type_lo (obj_type v) \<le> b" "b \<le> type_hi (obj_type v)"
      "type_lo (obj_type w) \<le> c" "c \<le> type_hi (obj_type w)"
    using enc_head [of v] enc_head [of w] by blast
  have t: "obj_type v \<noteq> TypeUndefined" "obj_type w \<noteq> TypeUndefined"
    using assms by (cases v; cases w; simp)+
  have "type_rank (obj_type v) \<noteq> type_rank (obj_type w)" using assms(3) by simp
  then consider "type_rank (obj_type v) < type_rank (obj_type w)"
    | "type_rank (obj_type w) < type_rank (obj_type v)" by linarith
  then show ?thesis
  proof cases
    case 1
    then have "b < c" using type_range_mono [OF t(1) 1] r by (meson le_less_trans less_le_trans)
    then show ?thesis using 1 by (simp add: obj_compare_types [OF assms(3)] e MojComp_def)
  next
    case 2
    then have "c < b" using type_range_mono [OF t(2) 2] r by (meson le_less_trans less_le_trans)
    then show ?thesis using 2 by (simp add: obj_compare_types [OF assms(3)] e MojComp_def)
  qed
qed

lemma enc_obj_size: "order_encoder enc obj_compare (\<lambda>v. ser_ok v \<and> size v < n)"
proof (induction n)
  case 0
  show ?case by unfold_locales simp_all
next
  case (Suc n)
  have elems: "list_all (\<lambda>v. ser_ok v \<and> size v < n) xs" if "ser_ok (OArray xs) \<and> size (OArray xs) < Suc n" for xs
    using that obj_size_elem [of _ xs] by (fastforce simp: list_all_iff ser_ok_def simp del: obj.size)
  have prs: "list_all (\<lambda>p. nonul (fst p) \<and> ser_ok (snd p) \<and> size (snd p) < n) ps"
    if "ser_ok (OObject ps) \<and> size (OObject ps) < Suc n" for ps
    using that obj_size_prop [of _ ps] by (fastforce simp: list_all_iff ser_ok_def simp del: obj.size)
  note P = order_encoder_pair [OF enc_str.order_encoder_axioms Suc]
  have props: "concat (map (\<lambda>(k, v). enc_str k @ enc v) ps) = concat (map (\<lambda>p. enc_str (fst p) @ enc (snd p)) ps)" for ps
    by (simp add: case_prod_unfold)
  show ?case
  proof (unfold_locales, goal_cases)
    case (1 x y r s)
    show ?case
    proof (cases "obj_type x = obj_type y")
      case True
      then show ?thesis
      proof (cases rule: same_type_cases)
        case (Object ps qs)
        then show ?thesis
          using 1 order_encoder.enc_list [OF P, OF prs prs, of ps qs r s]
          by (simp add: props MarkerObjectEnd_def)
      next
        case (Array xs ys)
        then show ?thesis
          using 1 order_encoder.enc_list [OF Suc, OF elems elems, of xs ys r s]
          by (simp add: MarkerObjectEnd_def)
      next
        case (String t u)
        then show ?thesis using 1 enc_str.enc_cmp [of t u r s] by (simp add: ser_ok_def)
      next
        case (Bool p q)
        then show ?thesis by (cases p; cases q) (simp_all add: marker_defs MojComp_def)
      qed (simp_all add: enc_int enc_decimal)
    next
      case False
      then have "obj_compare x y \<noteq> 0" using obj_compare_0_type by blast
      then show ?thesis using False 1 by (simp add: enc_types ser_ok_def)
    qed
  next
    case (2 x)
    show ?case by (rule enc_first_byte)
  qed
qed

interpretation enc_obj: order_encoder enc obj_compare ser_ok
proof
  fix x y r s
  assume "ser_ok x" "ser_ok y"
  then show "sgn (bcmp (enc x @ r) (enc y @ s)) =
      (if obj_compare x y = 0 then sgn (bcmp r s) else sgn (obj_compare x y))"
    using order_encoder.enc_cmp [OF enc_obj_size, of x "Suc (max (size x) (size y))" y r s] by simp
qed (rule enc_first_byte)


text \<open>
  C13. Serialization preserves order: for well-formed values without undefined parts, the bytes of
  \<^verbatim>\<open>toBytes\<close> compare lexicographically as \<^verbatim>\<open>MojObject::compare\<close> compares the values, whatever
  their types and nesting.
\<close>

theorem toBytes_order:
  assumes "wf_obj x" "no_undef x" "wf_obj y" "no_undef y"
    and "toBytes x = Inr bx" "toBytes y = Inr by'"
  shows "sgn (bcmp bx by') = sgn (obj_compare x y)"
  using assms enc_obj.enc_order [of x y] by (simp add: toBytes_enc ser_ok_def)

theorem toBytes_order_witness:
  "sgn (bcmp (enc (OObject [(''a'', OInt 5)])) (enc (OObject [(''a'', OInt 300)]))) =
   sgn (obj_compare (OObject [(''a'', OInt 5)]) (OObject [(''a'', OInt 300)]))"
  by (rule toBytes_order) (simp_all add: toBytes_enc)

text \<open>
  C34. Serialized values never run into one another: of two distinct well-formed values without
  undefined parts (undefined is written as null), the bytes of one, whatever follows them, are never
  the bytes of the other, whatever follows those. In particular distinct values never serialize to the
  same bytes, nor one to a prefix of the bytes of another.
\<close>

theorem toBytes_prefix_free:
  assumes "wf_obj x" "no_undef x" "wf_obj y" "no_undef y" "x \<noteq> y"
    and "toBytes x = Inr bx" "toBytes y = Inr by'"
  shows "bx @ r \<noteq> by' @ s"
proof
  assume "bx @ r = by' @ s"
  moreover have "enc x = bx" "enc y = by'" using assms(6,7) by (simp_all add: toBytes_enc)
  moreover have "ser_ok x" "ser_ok y" using assms(1-4) by (simp_all add: ser_ok_def)
  moreover have "obj_compare x y \<noteq> 0" using obj_compare_eq assms(1,3,5) by blast
  ultimately have "sgn (bcmp (bx @ r) (bx @ r)) = sgn (obj_compare x y)"
    using enc_obj.enc_cmp [of x y r s] by simp
  then show False
    using \<open>obj_compare x y \<noteq> 0\<close> bcmp.cmp_refl [of "bx @ r"] by (simp add: sgn_eq_0_iff list_all_iff)
qed

theorem toBytes_prefix_free_witness:
  "toBytes (OString ''a'') = Inr (enc (OString ''a'')) \<and>
   toBytes (OString ''ab'') = Inr (enc (OString ''ab'')) \<and>
   (\<forall>r s. enc (OString ''a'') @ r \<noteq> enc (OString ''ab'') @ s)"
proof (intro conjI allI)
  show "enc (OString ''a'') @ r \<noteq> enc (OString ''ab'') @ s" for r s
    by (rule toBytes_prefix_free [of "OString ''a''" "OString ''ab''"]) (simp_all add: toBytes_enc)
qed (simp_all add: toBytes_enc)

section \<open>Sizes\<close>

definition decimalSize :: "i64 \<Rightarrow> nat" where
  "decimalSize val = 1 + 8"

definition stringSize :: "string \<Rightarrow> nat" where
  "stringSize val = 2 + length val"

lemma intSize_correct: "length (writer_intValue v) = intSize v"
  by (simp add: writer_intValue_def intSize_def writeUInt8_def writeUInt16_def writeUInt32_def
      writeInt64_def)

lemma decimalSize_correct: "length (writer_decimalValue v) = decimalSize v"
  by (simp add: writer_decimalValue_def decimalSize_def writeUInt8_def writeDecimal_def writeInt64_def)

lemma stringSize_correct: "length (enc_str s) = stringSize s"
  by (simp add: enc_str_def stringSize_def)

section \<open>Undefined\<close>

text \<open>
  Undefined is written as null, so the order of the bytes is not that of the values there.
\<close>

lemma undefined_breaks_order:
  "toBytes OUndefined = toBytes ONull \<and> obj_compare OUndefined ONull < 0"
  by (simp add: toBytes_enc obj_compare_types)

end
