(* ===== verification/ObjReader.thy ===== *)
theory ObjReader
  imports ObjOrder
begin

text \<open>
  \<^verbatim>\<open>MojObjectReader\<close> (\<^verbatim>\<open>src/core/MojObjectSerialization.cpp\<close>): a state machine over the bytes that
  calls a visitor. The theorems: it reads every written value back, and it always ends.
\<close>

section \<open>The reader\<close>

datatype rstate = RStateValue | RStateObject | RStateArray

record 'k obj_reader =
  r_reader :: data_reader
  r_stack :: "rstate list"
  r_skipBeginObj :: bool
  r_tokenSet :: "'k token_set option"

definition readInt :: "byte \<Rightarrow> data_reader \<Rightarrow> (i64 \<times> data_reader) res" where
  "readInt marker r =
     (if marker = MarkerZeroIntValue then Inr (0, r)
      else if marker = MarkerUInt8Value then rbind (readUInt8 r) (\<lambda>(v, r'). Inr (ucast v, r'))
      else if marker = MarkerUInt16Value then rbind (readUInt16 r) (\<lambda>(v, r'). Inr (ucast v, r'))
      else if marker = MarkerUInt32Value then rbind (readUInt32 r) (\<lambda>(v, r'). Inr (ucast v, r'))
      else if marker = MarkerNegativeIntValue \<or> marker = MarkerInt64Value then readInt64 r
      else Inl MojErrObjectReaderUnexpectedMarker)"

definition readString :: "data_reader \<Rightarrow> (string \<times> data_reader) res" where
  "readString r =
     (let str = takeWhile (\<lambda>b. b \<noteq> 0) r in
      if length str = length r then Inl MojErrUnexpectedEof
      else rbind (skip (length str + 1) r) (\<lambda>r'. Inr (map char_of_byte str, r')))"

definition is_int_marker :: "byte \<Rightarrow> bool" where
  "is_int_marker m \<longleftrightarrow> m = MarkerZeroIntValue \<or> m = MarkerUInt8Value \<or> m = MarkerUInt16Value \<or>
     m = MarkerUInt32Value \<or> m = MarkerNegativeIntValue \<or> m = MarkerInt64Value"

definition lookupToken :: "'k obj_reader \<Rightarrow> byte \<Rightarrow> string res" where
  "lookupToken rd marker =
     (case r_tokenSet rd of
        Some ts \<Rightarrow> stringFromToken marker ts
      | None \<Rightarrow> Inl MojErrObjectReaderUnexpectedMarker)"

text \<open>
  The state \<^verbatim>\<open>StateValue\<close>, just popped from the stack. Each function returns the events it sends
  to the visitor and the reader.
\<close>

definition next_value :: "byte \<Rightarrow> 'k obj_reader \<Rightarrow> (ev list \<times> 'k obj_reader) res" where
  "next_value marker rd =
     (if marker = MarkerObjectBegin then
        (if \<not> r_skipBeginObj rd then Inr ([BeginObject], rd\<lparr>r_stack := RStateObject # r_stack rd\<rparr>)
         else Inr ([], rd\<lparr>r_stack := RStateObject # r_stack rd, r_skipBeginObj := False\<rparr>))
      else if marker = MarkerArrayBegin then
        Inr ([BeginArray], rd\<lparr>r_stack := RStateArray # r_stack rd\<rparr>)
      else if marker = MarkerStringValue then
        rbind (readString (r_reader rd)) (\<lambda>(str, r). Inr ([StringValue str], rd\<lparr>r_reader := r\<rparr>))
      else if marker = MarkerNullValue then Inr ([NullValue], rd)
      else if marker = MarkerTrueValue then Inr ([BoolValue True], rd)
      else if marker = MarkerFalseValue then Inr ([BoolValue False], rd)
      else if marker = MarkerNegativeDecimalValue \<or> marker = MarkerPositiveDecimalValue then
        rbind (readDecimal (r_reader rd)) (\<lambda>(val, r). Inr ([DecimalValue val], rd\<lparr>r_reader := r\<rparr>))
      else if is_int_marker marker then
        rbind (readInt marker (r_reader rd)) (\<lambda>(val, r). Inr ([IntValue val], rd\<lparr>r_reader := r\<rparr>))
      else if marker = MarkerExtensionValue then
        rbind (readUInt32 (r_reader rd)) (\<lambda>(extSize, r).
          rbind (skip (unat extSize) r) (\<lambda>r'. Inr ([], rd\<lparr>r_reader := r'\<rparr>)))
      else rbind (lookupToken rd marker) (\<lambda>val. Inr ([StringValue val], rd)))"

definition next_object :: "byte \<Rightarrow> 'k obj_reader \<Rightarrow> (ev list \<times> 'k obj_reader) res" where
  "next_object marker rd =
     (if marker = MarkerObjectEnd then Inr ([EndObject], rd\<lparr>r_stack := tl (r_stack rd)\<rparr>)
      else if marker = MarkerStringValue then
        rbind (readString (r_reader rd)) (\<lambda>(str, r).
          Inr ([PropName str], rd\<lparr>r_reader := r, r_stack := RStateValue # r_stack rd\<rparr>))
      else rbind (lookupToken rd marker) (\<lambda>name.
          Inr ([PropName name], rd\<lparr>r_stack := RStateValue # r_stack rd\<rparr>)))"

text \<open>In an array a value is pushed and the marker is looked at again (\<^verbatim>\<open>goto Redo\<close>).\<close>

definition next_array :: "byte \<Rightarrow> 'k obj_reader \<Rightarrow> (ev list \<times> 'k obj_reader) res" where
  "next_array marker rd =
     (if marker = MarkerObjectEnd then Inr ([EndArray], rd\<lparr>r_stack := tl (r_stack rd)\<rparr>)
      else next_value marker rd)"

definition reader_next :: "'k obj_reader \<Rightarrow> (ev list \<times> 'k obj_reader) res" where
  "reader_next rd =
     (let stack = (if r_stack rd = [] then [RStateValue] else r_stack rd) in
      rbind (readUInt8 (r_reader rd)) (\<lambda>(marker, r).
        let rd' = rd\<lparr>r_reader := r, r_stack := stack\<rparr> in
        case hd stack of
          RStateValue \<Rightarrow> next_value marker (rd'\<lparr>r_stack := tl stack\<rparr>)
        | RStateObject \<Rightarrow> next_object marker rd'
        | RStateArray \<Rightarrow> next_array marker rd'))"

lemma next_value_shrinks:
  "next_value m rd = Inr (es, rd') \<Longrightarrow> length (r_reader rd') \<le> length (r_reader rd)"
  by (auto simp: next_value_def readString_def skip_def readInt_def readDecimal_def readUInt8_def
      readUInt16_def readUInt32_def readInt64_def lookupToken_def rbind_Inr_iff Let_def
      split: if_splits list.splits)

lemma reader_next_shrinks:
  "reader_next rd = Inr (es, rd') \<Longrightarrow> length (r_reader rd') < length (r_reader rd)"
  by (auto simp: reader_next_def next_object_def next_array_def readUInt8_def readString_def skip_def
      rbind_Inr_iff Let_def dest!: next_value_shrinks split: if_splits list.splits rstate.splits)

text \<open>
  \<^verbatim>\<open>MojObjectReader::read\<close>: while there are bytes. A visitor that throws stops it; the visitor
  here is any step function, and the events are those it is sent.
\<close>

function reader_read ::
  "('s \<Rightarrow> ev \<Rightarrow> 's res) \<Rightarrow> 's \<Rightarrow> 'k obj_reader \<Rightarrow> ('s \<times> 'k obj_reader) res" where
  "reader_read visitor s rd =
     (if r_reader rd = [] then Inr (s, rd)
      else rbind (reader_next rd) (\<lambda>(es, rd').
             rbind (run visitor s es) (\<lambda>s'. reader_read visitor s' rd')))"
  by pat_completeness auto
termination
  by (relation "measure (\<lambda>(v, s, rd). length (r_reader rd))") (auto dest!: reader_next_shrinks)

declare reader_read.simps [simp del]

text \<open>\<^verbatim>\<open>nextObject\<close>: one whole value, until the stack is empty again.\<close>

function reader_nextObject ::
  "('s \<Rightarrow> ev \<Rightarrow> 's res) \<Rightarrow> 's \<Rightarrow> 'k obj_reader \<Rightarrow> ('s \<times> 'k obj_reader) res" where
  "reader_nextObject visitor s rd =
     rbind (reader_next rd) (\<lambda>(es, rd').
       rbind (run visitor s es) (\<lambda>s'.
         if r_stack rd' = [] then Inr (s', rd') else reader_nextObject visitor s' rd'))"
  by pat_completeness auto
termination
  by (relation "measure (\<lambda>(v, s, rd). length (r_reader rd))") (auto dest!: reader_next_shrinks)

declare reader_nextObject.simps [simp del]

definition reader_init :: "byte list \<Rightarrow> unit obj_reader" where
  "reader_init data = \<lparr>r_reader = data, r_stack = [], r_skipBeginObj = False, r_tokenSet = None\<rparr>"

definition fromBytes :: "byte list \<Rightarrow> obj res" where
  "fromBytes data =
     rbind (reader_read builder_ev builder_reset (reader_init data)) (\<lambda>(b, rd). Inr (m_obj b))"


section \<open>The bytes a writer with tokens leaves\<close>

text \<open>
  A writer with a token set writes a name either out or as its token, and which of the two depends on the state of the
  set. What it leaves is one of the byte strings below, for the vector \<open>names\<close> of the names that have tokens.
\<close>

definition tok_str :: "string list \<Rightarrow> string \<Rightarrow> byte list \<Rightarrow> bool" where
  "tok_str names s bs \<longleftrightarrow> bs = enc_str s \<or>
     (\<exists>i < length names. i < 223 \<and> names ! i = s \<and> bs = [TokenStartMarker + word_of_nat i])"

fun obj_leaf :: "obj \<Rightarrow> bool" where
  "obj_leaf (OObject ps) = False"
| "obj_leaf (OArray xs) = False"
| "obj_leaf (OString s) = False"
| "obj_leaf _ = True"

inductive tok_enc :: "string list \<Rightarrow> obj \<Rightarrow> byte list \<Rightarrow> bool" for names where
  tok_object: "list_all2 (\<lambda>p bs. \<exists>b b'. bs = b @ b' \<and> tok_str names (fst p) b \<and> tok_enc names (snd p) b') ps bss \<Longrightarrow>
     tok_enc names (OObject ps) (MarkerObjectBegin # concat bss @ [MarkerObjectEnd])"
| tok_array: "list_all2 (tok_enc names) xs bss \<Longrightarrow>
     tok_enc names (OArray xs) (MarkerArrayBegin # concat bss @ [MarkerObjectEnd])"
| tok_string: "tok_str names s bs \<Longrightarrow> tok_enc names (OString s) bs"
| tok_leaf: "obj_leaf v \<Longrightarrow> tok_enc names v (enc v)"

lemma tok_str_mono: "tok_str names s bs \<Longrightarrow> tok_str (names @ names') s bs"
  by (auto simp: tok_str_def nth_append)

lemma tok_enc_mono: "tok_enc names v bs \<Longrightarrow> tok_enc (names @ names') v bs"
proof (induction rule: tok_enc.induct)
  case (tok_object ps bss)
  then have "list_all2 (\<lambda>p bs. \<exists>b b'. bs = b @ b' \<and> tok_str (names @ names') (fst p) b \<and> tok_enc (names @ names') (snd p) b') ps bss"
    by (auto elim!: list_all2_mono) (metis tok_str_mono)
  then show ?case by (rule tok_enc.tok_object)
next
  case (tok_array xs bss)
  then show ?case by (auto intro!: tok_enc.tok_array elim: list_all2_mono)
qed (auto intro: tok_enc.intros tok_str_mono)

text \<open>Without tokens it is the encoding itself.\<close>

lemma tok_enc_enc: "tok_enc names v (enc v)"
proof (induction v rule: enc.induct)
  case (1 ps)
  have "list_all2 (\<lambda>p bs. \<exists>b b'. bs = b @ b' \<and> tok_str names (fst p) b \<and> tok_enc names (snd p) b') ps
      (map (\<lambda>(k, v). enc_str k @ enc v) ps)"
    using 1 by (fastforce simp: list_all2_map2 list_all2_same tok_str_def)
  from tok_object [OF this] show ?case by simp
next
  case (2 xs)
  then have "list_all2 (tok_enc names) xs (map enc xs)" by (simp add: list_all2_map2 list_all2_same)
  from tok_array [OF this] show ?case by simp
next
  case (3 s)
  show ?case by (auto intro: tok_string simp: tok_str_def)
qed (metis tok_leaf obj_leaf.simps)+

lemma enc_not_Nil [simp]: "enc v \<noteq> []"
  using enc_first_byte [of v] by auto

lemma tok_str_not_Nil: "tok_str names s bs \<Longrightarrow> bs \<noteq> []"
  by (auto simp: tok_str_def enc_str_def)

text \<open>A reader knows the names if its token set has them.\<close>

definition reads_names :: "'k token_set option \<Rightarrow> string list \<Rightarrow> bool" where
  "reads_names ts names \<longleftrightarrow> names = [] \<or> (\<exists>set. ts = Some set \<and> m_tokenVec set = names)"

section \<open>Reading what was written\<close>

abbreviation rd_at :: "'k token_set option \<Rightarrow> rstate list \<Rightarrow> byte list \<Rightarrow> 'k obj_reader" where
  "rd_at ts st bs \<equiv> \<lparr>r_reader = bs, r_stack = st, r_skipBeginObj = False, r_tokenSet = ts\<rparr>"

text \<open>The stacks on which a value may come, and the stack it leaves.\<close>

definition value_next :: "rstate list \<Rightarrow> bool" where
  "value_next st \<longleftrightarrow> st = [] \<or> hd st \<noteq> RStateObject"

definition after_value :: "rstate list \<Rightarrow> rstate list" where
  "after_value st = (if st \<noteq> [] \<and> hd st = RStateValue then tl st else st)"

lemma readString_enc: "nonul s \<Longrightarrow> readString (map byte_of s @ 0 # r) = Inr (s, r)"
proof -
  assume "nonul s"
  then have "takeWhile (\<lambda>b. b \<noteq> 0) (map byte_of s @ 0 # r) = map byte_of s"
    by (subst takeWhile_append2) (auto simp: nonul_def)
  then show ?thesis by (simp add: readString_def skip_def o_def)
qed

lemma ucast_ucast_small:
  "uint (i :: 'a::len word) < 2 ^ LENGTH('b::len) \<Longrightarrow> ucast (ucast i :: 'b word) = i"
  by (simp add: word_uint_eq_iff unsigned_ucast_eq unsigned_take_bit_eq take_bit_int_eq_self)

lemma readInt_enc:
  "\<exists>m bs. writer_intValue i @ r = m # bs \<and> is_int_marker m \<and> readInt m bs = Inr (i, r)"
proof -
  have u: "0 \<le> sint i \<Longrightarrow> sint i \<le> 255 \<Longrightarrow> ucast (ucast i :: byte) = i"
    "0 \<le> sint i \<Longrightarrow> sint i \<le> 65535 \<Longrightarrow> ucast (ucast i :: u16) = i"
    "0 \<le> sint i \<Longrightarrow> sint i \<le> 4294967295 \<Longrightarrow> ucast (ucast i :: u32) = i"
    by (rule ucast_ucast_small, simp add: uint_sint64)+
  have b: "readUInt8 (b # bs) = Inr (b, bs)" for b bs by (simp add: readUInt8_def)
  note defs = writer_intValue_def readInt_def is_int_marker_def marker_defs
  have "sint i = 0 \<longleftrightarrow> i = 0" by simp
  then consider "sint i < 0"
    | "i = 0"
    | "0 < sint i \<and> sint i \<le> 255"
    | "255 < sint i \<and> sint i \<le> 65535"
    | "65535 < sint i \<and> sint i \<le> 4294967295"
    | "4294967295 < sint i"
    by linarith
  then show ?thesis
  proof cases
    case 1
    then show ?thesis
      using u by (intro exI [of _ MarkerNegativeIntValue] exI [of _ "writeInt64 i @ r"])
        (auto simp: defs b writeUInt8_def)
  next
    case 2
    then show ?thesis
      using u by (intro exI [of _ MarkerZeroIntValue] exI [of _ "[] @ r"])
        (auto simp: defs b writeUInt8_def)
  next
    case 3
    then show ?thesis
      using u by (intro exI [of _ MarkerUInt8Value] exI [of _ "writeUInt8 (ucast i) @ r"])
        (auto simp: defs b writeUInt8_def)
  next
    case 4
    then show ?thesis
      using u by (intro exI [of _ MarkerUInt16Value] exI [of _ "writeUInt16 (ucast i) @ r"])
        (auto simp: defs b writeUInt8_def)
  next
    case 5
    then show ?thesis
      using u by (intro exI [of _ MarkerUInt32Value] exI [of _ "writeUInt32 (ucast i) @ r"])
        (auto simp: defs b writeUInt8_def)
  next
    case 6
    then show ?thesis
      using u by (intro exI [of _ MarkerInt64Value] exI [of _ "writeInt64 i @ r"])
        (auto simp: defs b writeUInt8_def)
  qed
qed

lemma next_value_stack: "value_next st \<Longrightarrow>
   reader_next (rd_at ts st (m # bs)) =
     (if m = MarkerObjectEnd \<and> st \<noteq> [] \<and> hd st = RStateArray
      then Inr ([EndArray], rd_at ts (tl st) bs)
      else next_value m (rd_at ts (after_value st) bs))"
proof (cases st)
  case (Cons a l)
  then show "value_next st \<Longrightarrow> ?thesis"
    by (cases a) (simp_all add: reader_next_def readUInt8_def value_next_def after_value_def
        next_array_def Let_def)
qed (simp add: reader_next_def readUInt8_def after_value_def Let_def)

text \<open>A value that is no container is one step.\<close>

lemma next_leaf:
  assumes "value_next st" and "obj_leaf v"
  shows "reader_next (rd_at ts st (enc v @ r)) = Inr (obj_visit v, rd_at ts (after_value st) r)"
  using assms(2)
proof (cases v)
  case (OInt i)
  obtain m bs where m: "writer_intValue i @ r = m # bs" "is_int_marker m" "readInt m bs = Inr (i, r)"
    using readInt_enc by blast
  then show ?thesis
    by (simp add: OInt next_value_stack [OF assms(1)]) (auto simp: next_value_def is_int_marker_def marker_defs)
next
  case (OBool b)
  then show ?thesis by (simp add: next_value_stack [OF assms(1)] next_value_def marker_defs)
next
  case (ODecimal d)
  then show ?thesis
    by (simp add: next_value_stack [OF assms(1)] next_value_def marker_defs writer_decimalValue_def writeUInt8_def)
qed (simp_all add: next_value_stack [OF assms(1)] next_value_def marker_defs)

text \<open>A token is no marker.\<close>

lemma token_no_marker:
  assumes "i < 223"
  shows "\<not> TokenStartMarker + word_of_nat i < TokenStartMarker" "unat (TokenStartMarker + word_of_nat i - TokenStartMarker) = i"
    "m \<le> 31 \<Longrightarrow> TokenStartMarker + word_of_nat i \<noteq> m"
proof -
  have "unat (word_of_nat i :: byte) = i" using assms by (simp add: unat_of_nat take_bit_nat_eq_self)
  then have *: "unat (TokenStartMarker + word_of_nat i) = 32 + i"
    using assms by (simp add: TokenStartMarker_def unat_word_ariths)
  then show "\<not> TokenStartMarker + word_of_nat i < TokenStartMarker"
    by (simp add: word_less_nat_alt TokenStartMarker_def)
  show "unat (TokenStartMarker + word_of_nat i - TokenStartMarker) = i"
    using \<open>unat (word_of_nat i :: byte) = i\<close> by simp
  show "m \<le> 31 \<Longrightarrow> TokenStartMarker + word_of_nat i \<noteq> m"
    using * by (auto simp: word_le_nat_alt)
qed

lemma lookup_names:
  assumes "reads_names ts names" "i < length names" "i < 223"
  shows "lookupToken (rd_at ts st bs) (TokenStartMarker + word_of_nat i) = Inr (names ! i)"
  using assms token_no_marker [OF assms(3)]
  by (auto simp: reads_names_def lookupToken_def stringFromToken_def)

lemma next_string:
  assumes "value_next st" "nonul s" "tok_str names s bs" "reads_names ts names"
  shows "reader_next (rd_at ts st (bs @ r)) = Inr ([StringValue s], rd_at ts (after_value st) r)"
  using assms(3) unfolding tok_str_def
proof (elim disjE exE conjE)
  assume "bs = enc_str s"
  then show ?thesis
    using assms(2) by (simp add: enc_str_def next_value_stack [OF assms(1)] next_value_def marker_defs readString_enc)
next
  fix i
  assume i: "i < length names" "i < 223" "names ! i = s" "bs = [TokenStartMarker + word_of_nat i]"
  note m = token_no_marker(3) [OF i(2)]
  show ?thesis
    using i(3) lookup_names [OF assms(4) i(1,2)] unfolding i(4)
    by (simp add: next_value_stack [OF assms(1)] next_value_def is_int_marker_def m marker_defs [unfolded TokenStartMarker_def])
qed

lemma next_begin:
  "value_next st \<Longrightarrow> reader_next (rd_at ts st (MarkerObjectBegin # bs)) =
     Inr ([BeginObject], rd_at ts (RStateObject # after_value st) bs)"
  "value_next st \<Longrightarrow> reader_next (rd_at ts st (MarkerArrayBegin # bs)) =
     Inr ([BeginArray], rd_at ts (RStateArray # after_value st) bs)"
  by (simp_all add: next_value_stack next_value_def marker_defs)

lemma next_end:
  "reader_next (rd_at ts (RStateObject # st) (MarkerObjectEnd # bs)) = Inr ([EndObject], rd_at ts st bs)"
  "reader_next (rd_at ts (RStateArray # st) (MarkerObjectEnd # bs)) = Inr ([EndArray], rd_at ts st bs)"
  by (simp_all add: reader_next_def readUInt8_def next_object_def next_array_def Let_def)

lemma next_propName:
  assumes "nonul k" "tok_str names k bs" "reads_names ts names"
  shows "reader_next (rd_at ts (RStateObject # st) (bs @ r)) =
     Inr ([PropName k], rd_at ts (RStateValue # RStateObject # st) r)"
  using assms(2) unfolding tok_str_def
proof (elim disjE exE conjE)
  assume "bs = enc_str k"
  then show ?thesis
    using assms(1) by (simp add: reader_next_def readUInt8_def next_object_def Let_def enc_str_def marker_defs readString_enc)
next
  fix i
  assume i: "i < length names" "i < 223" "names ! i = k" "bs = [TokenStartMarker + word_of_nat i]"
  note m = token_no_marker(3) [OF i(2)]
  show ?thesis
    using i(3) lookup_names [OF assms(3) i(1,2)] unfolding i(4)
    by (simp add: reader_next_def readUInt8_def next_object_def Let_def m MarkerObjectEnd_def MarkerStringValue_def)
qed

text \<open>
  The two loops of the reader, \<^verbatim>\<open>read\<close> and \<^verbatim>\<open>nextObject\<close>, differ in when they stop; both go on
  while a container is open.
\<close>

locale reader_loop =
  fixes loop :: "'s \<Rightarrow> 'k obj_reader \<Rightarrow> ('s \<times> 'k obj_reader) res"
    and visitor :: "'s \<Rightarrow> ev \<Rightarrow> 's res"
    and stop :: "'k obj_reader \<Rightarrow> bool"
  assumes loop_step: "r_reader rd \<noteq> [] \<Longrightarrow> loop s rd =
      rbind (reader_next rd) (\<lambda>(es, rd'). rbind (run visitor s es) (\<lambda>s'.
        if stop rd' then Inr (s', rd') else loop s' rd'))"
    and go_on: "r_stack rd \<noteq> [] \<Longrightarrow> \<not> stop rd"
begin

definition cont :: "'k obj_reader \<Rightarrow> 's \<Rightarrow> ('s \<times> 'k obj_reader) res" where
  "cont rd s = (if stop rd then Inr (s, rd) else loop s rd)"

lemma cont_loop: "r_stack rd \<noteq> [] \<Longrightarrow> cont rd = (\<lambda>s. loop s rd)"
  by (rule ext) (simp add: cont_def go_on)

lemma loop_next: "r_reader rd \<noteq> [] \<Longrightarrow> reader_next rd = Inr (es, rd') \<Longrightarrow>
   loop s rd = rbind (run visitor s es) (cont rd')"
  by (simp add: loop_step cont_def [abs_def])

lemma loop_value:
  "\<lbrakk>tok_enc names v bs; reads_names ts names; wf_obj v; value_next st\<rbrakk> \<Longrightarrow>
   loop s (rd_at ts st (bs @ r)) = rbind (run visitor s (obj_visit v)) (cont (rd_at ts (after_value st) r))"
proof (induction arbitrary: s st r rule: tok_enc.induct)
  case (tok_object ps bss)
  let ?st = "RStateObject # after_value st"
  have props: "loop s' (rd_at ts ?st (concat bs @ r')) =
        rbind (run visitor s' (concat (map (\<lambda>(k, v). PropName k # obj_visit v) qs)))
          (\<lambda>s''. loop s'' (rd_at ts ?st r'))"
    if "list_all2 (\<lambda>p bs. \<exists>b b'. bs = b @ b' \<and> tok_str names (fst p) b \<and> tok_enc names (snd p) b' \<and>
        (\<forall>s st r. reads_names ts names \<longrightarrow> wf_obj (snd p) \<longrightarrow> value_next st \<longrightarrow>
          loop s (rd_at ts st (b' @ r)) = rbind (run visitor s (obj_visit (snd p))) (cont (rd_at ts (after_value st) r))))
      qs bs" "set qs \<subseteq> set ps" for qs bs s' r'
    using that
  proof (induction qs bs arbitrary: s' rule: list_all2_induct)
    case (Cons q qs b bs)
    obtain k u where q: "q = (k, u)" by (cases q)
    obtain b1 b2 where b: "b = b1 @ b2" "tok_str names k b1" "\<And>s st r. value_next st \<Longrightarrow>
        loop s (rd_at ts st (b2 @ r)) = rbind (run visitor s (obj_visit u)) (cont (rd_at ts (after_value st) r))"
      and ku: "nonul k" "wf_obj u"
      using Cons.hyps(1) Cons.prems tok_object.prems(1,2) q by auto
    let ?rest = "concat bs @ r'"
    have "loop s' (rd_at ts ?st (b1 @ b2 @ ?rest)) =
          rbind (visitor s' (PropName k)) (\<lambda>s''. loop s'' (rd_at ts (RStateValue # ?st) (b2 @ ?rest)))"
      using b(2) by (subst loop_next [OF _ next_propName [OF ku(1) b(2) tok_object.prems(1)]])
        (auto simp: tok_str_def enc_str_def cont_loop)
    then show ?case
      using Cons.IH Cons.prems
      by (simp add: q b(1) b(3) value_next_def after_value_def cont_loop run_append rbind_assoc)
  qed simp
  have "loop s' (rd_at ts ?st (concat bss @ r')) =
        rbind (run visitor s' (concat (map (\<lambda>(k, v). PropName k # obj_visit v) ps)))
          (\<lambda>s''. loop s'' (rd_at ts ?st r'))" for s' r'
    using tok_object.IH by (intro props) (simp_all add: conj_assoc)
  then show ?case
    by (simp add: loop_next [OF _ next_begin(1) [OF tok_object.prems(3)]] cont_loop run_append
        rbind_assoc loop_next [OF _ next_end(1)])
next
  case (tok_array xs bss)
  let ?st = "RStateArray # after_value st"
  have elems: "loop s' (rd_at ts ?st (concat bs @ r')) =
        rbind (run visitor s' (concat (map obj_visit ys))) (\<lambda>s''. loop s'' (rd_at ts ?st r'))"
    if "list_all2 (\<lambda>v bs. tok_enc names v bs \<and>
        (\<forall>s st r. reads_names ts names \<longrightarrow> wf_obj v \<longrightarrow> value_next st \<longrightarrow>
          loop s (rd_at ts st (bs @ r)) = rbind (run visitor s (obj_visit v)) (cont (rd_at ts (after_value st) r))))
      ys bs" "set ys \<subseteq> set xs" for ys bs s' r'
    using that
  proof (induction ys bs arbitrary: s' rule: list_all2_induct)
    case (Cons y ys b bs)
    then show ?case
      using tok_array.prems(1,2)
      by (simp add: value_next_def after_value_def cont_loop run_append rbind_assoc subset_iff)
  qed simp
  have "loop s' (rd_at ts ?st (concat bss @ r')) =
        rbind (run visitor s' (concat (map obj_visit xs))) (\<lambda>s''. loop s'' (rd_at ts ?st r'))" for s' r'
    using tok_array.IH by (intro elems) simp_all
  then show ?case
    by (simp add: loop_next [OF _ next_begin(2) [OF tok_array.prems(3)]] cont_loop run_append
        rbind_assoc loop_next [OF _ next_end(2)])
next
  case (tok_string t bs)
  then show ?case
    by (intro loop_next) (auto simp: next_string tok_str_def enc_str_def)
next
  case (tok_leaf v)
  then show ?case
    by (intro loop_next next_leaf) (simp_all add: enc_first_byte)
qed

lemmas loop_enc = loop_value [OF tok_enc_enc, where names = "[]"]

lemma loop_plain:
  "\<lbrakk>wf_obj v; value_next st\<rbrakk> \<Longrightarrow>
   loop s (rd_at ts st (enc v @ r)) =
     rbind (run visitor s (obj_visit v)) (cont (rd_at ts (after_value st) r))"
  by (rule loop_enc) (simp_all add: reads_names_def)

end


interpretation read_loop: reader_loop "reader_read visitor" visitor "\<lambda>_. False" for visitor
  by unfold_locales (subst reader_read.simps, simp_all)

interpretation object_loop: reader_loop "reader_nextObject visitor" visitor "\<lambda>rd. r_stack rd = []"
  for visitor
  by unfold_locales (subst reader_nextObject.simps, simp_all)

lemma fromBytes_enc:
  assumes "wf_obj v"
  shows "fromBytes (enc v) = Inr (undef_to_null v)"
proof -
  have "reader_read builder_ev builder_reset (rd_at (None :: unit token_set option) [] (enc v)) =
        rbind (run builder_ev builder_reset (obj_visit v)) (\<lambda>b. Inr (b, rd_at None [] []))"
    using read_loop.loop_plain [OF assms, where st="[]" and visitor=builder_ev and s=builder_reset and ts=None and r="[]"]
    by (simp add: value_next_def after_value_def read_loop.cont_def [abs_def] reader_read.simps [of _ _ "rd_at _ _ []"])
  then show ?thesis
    using assms by (simp add: fromBytes_def reader_init_def builder_run)
qed

text \<open>
  C14. Bytes read back: for every well-formed value, \<^verbatim>\<open>fromBytes\<close> of its \<^verbatim>\<open>toBytes\<close> is the value
  itself, its undefined parts as null.
\<close>

theorem fromBytes_toBytes:
  assumes "wf_obj v"
  shows "rbind (toBytes v) fromBytes = Inr (undef_to_null v)"
  by (simp add: toBytes_enc fromBytes_enc assms)

theorem fromBytes_toBytes_witness:
  "rbind (toBytes (OObject [(''a'', OArray [OInt (- 1), ONull])])) fromBytes =
   Inr (undef_to_null (OObject [(''a'', OArray [OInt (- 1), ONull])]))"
  by (rule fromBytes_toBytes) simp

lemma nextObject_enc:
  assumes "wf_obj v"
  shows "reader_nextObject visitor s (rd_at ts [] (enc v @ r)) =
         rbind (run visitor s (obj_visit v)) (\<lambda>s'. Inr (s', rd_at ts [] r))"
  using object_loop.loop_plain [OF assms, where st="[]" and visitor=visitor and s=s and ts=ts and r=r]
  by (simp add: value_next_def after_value_def object_loop.cont_def [abs_def])

text \<open>
  C35. A sequence of values is read one at a time: \<^verbatim>\<open>nextObject\<close> at the beginning of a written value
  shows the visitor exactly the visit of that value and stops right behind it, whatever follows
  and whatever the token set.
\<close>

theorem nextObject_value:
  assumes "wf_obj v"
  shows "reader_nextObject visitor s (rd_at ts [] (enc v @ r)) =
         rbind (run visitor s (obj_visit v)) (\<lambda>s'. Inr (s', rd_at ts [] r))"
  by (rule nextObject_enc [OF assms])

theorem nextObject_value_witness:
  "reader_nextObject builder_ev builder_reset (rd_at (None :: unit token_set option) [] (enc (OInt 7) @ [0])) =
   rbind (run builder_ev builder_reset (obj_visit (OInt 7))) (\<lambda>s'. Inr (s', rd_at None [] [0]))"
  by (rule nextObject_value) simp

section \<open>Arbitrary bytes\<close>

text \<open>The containers the reader has open.\<close>

definition rtypes :: "rstate list \<Rightarrow> MojType list" where
  "rtypes st = map (\<lambda>s. if s = RStateObject then TypeObject else TypeArray) (filter (\<lambda>s. s \<noteq> RStateValue) st)"

lemma rtypes_simps [simp]:
  "rtypes [] = []"
  "rtypes (RStateValue # st) = rtypes st"
  "rtypes (RStateObject # st) = TypeObject # rtypes st"
  "rtypes (RStateArray # st) = TypeArray # rtypes st"
  by (simp_all add: rtypes_def)

lemma readString_nonul: "readString r = Inr (s, r') \<Longrightarrow> nonul s"
proof -
  have "NUL \<noteq> char_of_byte b" if "b \<in> set (takeWhile (\<lambda>b. b \<noteq> 0) r)" for b
  proof -
    have "b \<noteq> 0" using set_takeWhileD [OF that] by simp
    then show ?thesis by (metis byte_of_NUL byte_of_char_of_byte)
  qed
  then have "nonul (map char_of_byte (takeWhile (\<lambda>b. b \<noteq> 0) r))"
    unfolding nonul_def by (metis (no_types, lifting) imageE list.set_map)
  then show "readString r = Inr (s, r') \<Longrightarrow> nonul s"
    by (auto simp: readString_def Let_def rbind_Inr_iff split: if_splits)
qed

text \<open>The relation between reader and builder, and that a step keeps it.\<close>

definition synced :: "unit obj_reader \<Rightarrow> builder \<Rightarrow> bool" where
  "synced rd b \<longleftrightarrow> r_tokenSet rd = None \<and> \<not> r_skipBeginObj rd \<and> bwf b \<and> btypes b = rtypes (r_stack rd)"

lemma next_value_synced:
  assumes "synced rd b" and "next_value m rd = Inr (es, rd')"
  shows "\<exists>b'. run builder_ev b es = Inr b' \<and> synced rd' b'"
proof -
  have ok: "bwf b" "btypes b = rtypes (r_stack rd)" "r_tokenSet rd = None" "\<not> r_skipBeginObj rd"
    using assms(1) by (simp_all add: synced_def)
  show ?thesis
    using assms(2) ok builder_push_ok [OF ok(1), of TypeObject] builder_push_ok [OF ok(1), of TypeArray]
      builder_value_ok [OF ok(1)]
    by (fastforce simp: next_value_def synced_def rbind_Inr_iff lookupToken_def
        dest: readString_nonul split: if_splits)
qed

lemma reader_next_synced:
  assumes "synced rd b" and "reader_next rd = Inr (es, rd')"
  shows "\<exists>b'. run builder_ev b es = Inr b' \<and> synced rd' b'"
proof -
  obtain m r where r: "r_reader rd = m # r"
    using assms(2) by (auto simp: reader_next_def readUInt8_def Let_def split: list.splits)
  have ok: "bwf b" "btypes b = rtypes (r_stack rd)" "r_tokenSet rd = None" "\<not> r_skipBeginObj rd"
    using assms(1) by (simp_all add: synced_def)
  have v: "\<exists>b'. run builder_ev b es = Inr b' \<and> synced rd' b'"
    if "next_value m (rd\<lparr>r_reader := r, r_stack := st\<rparr>) = Inr (es, rd')" "rtypes st = rtypes (r_stack rd)" for st
    using that ok next_value_synced [of "rd\<lparr>r_reader := r, r_stack := st\<rparr>" b m] by (simp add: synced_def)
  show ?thesis
  proof (cases "r_stack rd")
    case Nil
    then show ?thesis using assms(2) v [of "[]"] by (simp add: reader_next_def r readUInt8_def)
  next
    case (Cons a st)
    then show ?thesis
    proof (cases a)
      case RStateValue
      then show ?thesis using Cons assms(2) v [of st] by (simp add: reader_next_def r readUInt8_def)
    next
      case RStateObject
      then show ?thesis
        using Cons assms(2) ok builder_pop_ok [OF ok(1), of TypeObject "rtypes st"] builder_propName_ok [OF ok(1)]
        by (auto simp: reader_next_def r readUInt8_def next_object_def rbind_Inr_iff synced_def
            lookupToken_def Let_def dest: readString_nonul split: if_splits)
    next
      case RStateArray
      then show ?thesis
        using Cons assms(2) ok builder_pop_ok [OF ok(1), of TypeArray "rtypes st"] v [of "RStateArray # st"]
        by (auto simp: reader_next_def r readUInt8_def next_array_def synced_def Let_def
            split: if_splits)
    qed
  qed
qed

lemma reader_next_errors:
  "reader_next rd = Inl e \<Longrightarrow> r_tokenSet rd = None \<Longrightarrow>
   e = MojErrUnexpectedEof \<or> e = MojErrObjectReaderUnexpectedMarker"
  by (auto simp: reader_next_def next_value_def next_object_def next_array_def readUInt8_def
      readString_def readInt_def readDecimal_def readUInt16_def readUInt32_def readInt64_def skip_def
      lookupToken_def rbind_def Let_def
      split: if_splits list.splits rstate.splits sum.splits prod.splits)

lemma reader_read_synced:
  "synced rd b \<Longrightarrow>
   (case reader_read builder_ev b rd of
      Inl e \<Rightarrow> e = MojErrUnexpectedEof \<or> e = MojErrObjectReaderUnexpectedMarker
    | Inr (b', rd') \<Rightarrow> synced rd' b')"
proof (induction "length (r_reader rd)" arbitrary: b rd rule: less_induct)
  case less
  show ?case
  proof (cases "r_reader rd = []")
    case True
    then show ?thesis using less.prems by (simp add: reader_read.simps)
  next
    case False
    show ?thesis
    proof (cases "reader_next rd")
      case (Inl e)
      then show ?thesis
        using False less.prems reader_next_errors [OF Inl] by (simp add: reader_read.simps [of _ _ rd] synced_def)
    next
      case (Inr p)
      obtain es rd' where p: "p = (es, rd')" by (cases p)
      obtain b' where b': "run builder_ev b es = Inr b'" "synced rd' b'"
        using reader_next_synced [OF less.prems] Inr p by blast
      show ?thesis
        using less.hyps [OF _ b'(2)] reader_next_shrinks [of rd es rd'] False Inr p b'
        by (simp add: reader_read.simps [of _ _ rd])
    qed
  qed
qed

text \<open>
  C27. Reading is safe on any bytes: \<^verbatim>\<open>fromBytes\<close> returns either one of the two format errors or a
  well-formed value, and never breaks an assertion of the builder.
\<close>

theorem fromBytes_safe:
  "case fromBytes data of
     Inl e \<Rightarrow> e = MojErrUnexpectedEof \<or> e = MojErrObjectReaderUnexpectedMarker
   | Inr v \<Rightarrow> wf_obj v"
proof -
  have "synced (reader_init data) builder_reset"
    by (simp add: synced_def reader_init_def builder_reset_def bwf_def btypes_def)
  then show ?thesis
    using reader_read_synced [of "reader_init data" builder_reset]
    by (auto simp: fromBytes_def synced_def bwf_def split: sum.splits prod.splits)
qed

text \<open>Bytes that end inside a container are accepted: the loop of \<^verbatim>\<open>read\<close> only looks for more bytes.\<close>

lemma fromBytes_truncated:
  "fromBytes [MarkerObjectBegin] = Inr OUndefined"
  by code_simp

end
