(* ===== verification/Base64.thy ===== *)
theory Base64
  imports DataSerial
begin

text \<open>
  Base 64 and hexadecimal (\<^verbatim>\<open>src/core/MojUtil.cpp\<close>): the encoder and the decoder over their two
  alphabets, the string functions on top (\<^verbatim>\<open>src/core/MojString.cpp\<close>), and the round trip.
\<close>

unbundle bit_operations_syntax

section \<open>The alphabets\<close>

definition chars64 :: string where
  "chars64 = ''+0123456789ABCDEFGHIJKLMNOPQRSTUVWXYZ_abcdefghijklmnopqrstuvwxyz''"

definition charsMIME :: string where
  "charsMIME = ''ABCDEFGHIJKLMNOPQRSTUVWXYZabcdefghijklmnopqrstuvwxyz0123456789+/''"

definition vals64 :: "byte list" where
  "vals64 =
    [255,255,255,255,255,255,255,255,255,255,255,255,255,255,255,255,
     255,255,255,255,255,255,255,255,255,255,255,255,255,255,255,255,
     255,255,255,255,255,255,255,255,255,255,255,  0,255,255,255,255,
       1,  2,  3,  4,  5,  6,  7,  8,  9, 10,255,255,255,255,255,255,
     255, 11, 12, 13, 14, 15, 16, 17, 18, 19, 20, 21, 22, 23, 24, 25,
      26, 27, 28, 29, 30, 31, 32, 33, 34, 35, 36,255,255,255,255, 37,
     255, 38, 39, 40, 41, 42, 43, 44, 45, 46, 47, 48, 49, 50, 51, 52,
      53, 54, 55, 56, 57, 58, 59, 60, 61, 62, 63]"

definition valsMIME :: "byte list" where
  "valsMIME =
    [255,255,255,255,255,255,255,255,255,255,255,255,255,255,255,255,
     255,255,255,255,255,255,255,255,255,255,255,255,255,255,255,255,
     255,255,255,255,255,255,255,255,255,255,255, 62,255,255,255, 63,
      52, 53, 54, 55, 56, 57, 58, 59, 60, 61,255,255,255,255,255,255,
     255,  0,  1,  2,  3,  4,  5,  6,  7,  8,  9, 10, 11, 12, 13, 14,
      15, 16, 17, 18, 19, 20, 21, 22, 23, 24, 25,255,255,255,255,255,
     255, 26, 27, 28, 29, 30, 31, 32, 33, 34, 35, 36, 37, 38, 39, 40,
      41, 42, 43, 44, 45, 46, 47, 48, 49, 50, 51]"

section \<open>Encoding\<close>

definition MojBase64EncodedLenMax :: "nat \<Rightarrow> nat" where
  "MojBase64EncodedLenMax srcSize = ((srcSize + 2) div 3) * 4"

definition MojBase64DecodedSizeMax :: "nat \<Rightarrow> nat" where
  "MojBase64DecodedSizeMax encodedLen = ((encodedLen + 3) div 4) * 3"

definition sextet :: "string \<Rightarrow> u32 \<Rightarrow> nat \<Rightarrow> char" where
  "sextet chars chunk sh = chars ! unat (drop_bit sh chunk AND 0x3F)"

fun enc_chunks :: "string \<Rightarrow> bool \<Rightarrow> byte list \<Rightarrow> string" where
  "enc_chunks chars pad (a # b # c # src) =
     (let chunk = push_bit 16 (ucast a) + push_bit 8 (ucast b) + ucast c
      in chars ! unat (drop_bit 18 chunk) # sextet chars chunk 12 # sextet chars chunk 6
         # sextet chars chunk 0 # enc_chunks chars pad src)"
| "enc_chunks chars pad [a, b] =
     (let chunk = push_bit 16 (ucast a) + push_bit 8 (ucast b) :: u32
      in [chars ! unat (drop_bit 18 chunk), sextet chars chunk 12, sextet chars chunk 6] @
         (if pad then ''='' else []))"
| "enc_chunks chars pad [a] =
     (let chunk = push_bit 16 (ucast a) :: u32
      in [chars ! unat (drop_bit 18 chunk), sextet chars chunk 12] @ (if pad then ''=='' else []))"
| "enc_chunks chars pad [] = []"

definition MojBase64EncodeImpl :: "string \<Rightarrow> byte list \<Rightarrow> nat \<Rightarrow> bool \<Rightarrow> string res" where
  "MojBase64EncodeImpl chars src bufLen pad =
     (if bufLen < MojBase64EncodedLenMax (length src) then Inl MojErrInsufficientBuf
      else Inr (enc_chunks chars pad src))"

definition MojBase64Encode :: "byte list \<Rightarrow> nat \<Rightarrow> bool \<Rightarrow> string res" where
  "MojBase64Encode src bufLen pad = MojBase64EncodeImpl chars64 src bufLen pad"

definition MojBase64EncodeMIME :: "byte list \<Rightarrow> nat \<Rightarrow> bool \<Rightarrow> string res" where
  "MojBase64EncodeMIME src bufLen pad = MojBase64EncodeImpl charsMIME src bufLen pad"

section \<open>Decoding\<close>

text \<open>At most two padding characters are trimmed.\<close>

definition trim_pad :: "string \<Rightarrow> string" where
  "trim_pad src = (if src \<noteq> [] \<and> last src = CHR ''='' then butlast src else src)"

text \<open>The loop over the characters: the index, the chunk so far and the bytes written.\<close>

fun dec_loop :: "byte list \<Rightarrow> nat \<Rightarrow> u32 \<Rightarrow> string \<Rightarrow> (u32 \<times> byte list) res" where
  "dec_loop vals i chunk [] = Inr (chunk, [])"
| "dec_loop vals i chunk (c # src) =
     (if of_char c \<ge> length vals \<or> vals ! of_char c = 255 then Inl MojErrInvalidBase64Data
      else
        let b = ucast (vals ! of_char c) :: u32 in
        if i mod 4 = 0 then dec_loop vals (i + 1) (push_bit 18 b) src
        else if i mod 4 = 1 then dec_loop vals (i + 1) (chunk OR push_bit 12 b) src
        else if i mod 4 = 2 then dec_loop vals (i + 1) (chunk OR push_bit 6 b) src
        else
          let chunk' = chunk OR b in
          rbind (dec_loop vals (i + 1) chunk' src) (\<lambda>(ch, out).
            Inr (ch, [ucast (drop_bit 16 chunk'), ucast (drop_bit 8 chunk' AND 0xFF),
                      ucast (chunk' AND 0xFF)] @ out)))"

definition MojBase64DecodeImpl :: "byte list \<Rightarrow> string \<Rightarrow> nat \<Rightarrow> byte list res" where
  "MojBase64DecodeImpl vals src bufSize =
     (let sizeOut = MojBase64DecodedSizeMax (length src) in
      if bufSize < sizeOut then Inl MojErrInsufficientBuf
      else
        let src' = trim_pad (trim_pad src) in
        rbind (dec_loop vals 0 0 src') (\<lambda>(chunk, out).
          let finish = (\<lambda>bytes size. if length bytes = size then Inr bytes else Inl MojAssertFailed) in
          if length src' mod 4 = 0 then finish out sizeOut
          else if length src' mod 4 = 2 then
            finish (out @ [ucast (drop_bit 16 chunk)]) (sizeOut - 2)
          else if length src' mod 4 = 3 then
            finish (out @ [ucast (drop_bit 16 chunk), ucast (drop_bit 8 chunk AND 0xFF)]) (sizeOut - 1)
          else Inl MojErrInvalidBase64Data))"

definition MojBase64Decode :: "string \<Rightarrow> nat \<Rightarrow> byte list res" where
  "MojBase64Decode src bufSize = MojBase64DecodeImpl vals64 src bufSize"

definition MojBase64DecodeMIME :: "string \<Rightarrow> nat \<Rightarrow> byte list res" where
  "MojBase64DecodeMIME src bufSize = MojBase64DecodeImpl valsMIME src bufSize"

text \<open>\<^verbatim>\<open>MojString::base64Encode\<close> and \<^verbatim>\<open>base64Decode\<close>: buffers of the largest size.\<close>

definition base64Encode :: "byte list \<Rightarrow> bool \<Rightarrow> string res" where
  "base64Encode vec pad = MojBase64Encode vec (MojBase64EncodedLenMax (length vec)) pad"

definition base64Decode :: "string \<Rightarrow> byte list res" where
  "base64Decode str = MojBase64Decode str (MojBase64DecodedSizeMax (length str))"

section \<open>Hexadecimal\<close>

definition hexval :: string where
  "hexval = ''0123456789ABCDEF''"

definition MojByteArrayToHex :: "byte list \<Rightarrow> string" where
  "MojByteArrayToHex bytes =
     concat (map (\<lambda>b. [hexval ! unat (drop_bit 4 b AND 0xF), hexval ! unat (b AND 0x0F)]) bytes)"

section \<open>The chunks as bits\<close>

lemma chunk3: "push_bit 16 (ucast a) + push_bit 8 (ucast b) + ucast c =
  (push_bit 16 (ucast a) OR push_bit 8 (ucast b) OR ucast c :: u32)" for a b c :: byte
proof -
  have "push_bit 8 (ucast b) + ucast c = (push_bit 8 (ucast b) OR ucast c :: u32)"
    by (rule disjunctive_add) (auto simp: bit_simps dest!: bit_imp_le_length)
  moreover have "push_bit 16 (ucast a) + (push_bit 8 (ucast b) OR ucast c) =
      (push_bit 16 (ucast a) OR (push_bit 8 (ucast b) OR ucast c) :: u32)"
    by (rule disjunctive_add) (auto simp: bit_simps dest!: bit_imp_le_length)
  ultimately show ?thesis by (simp add: add.assoc)
qed

lemma chunk2: "push_bit 16 (ucast a) + push_bit 8 (ucast b) =
  (push_bit 16 (ucast a) OR push_bit 8 (ucast b) :: u32)" for a b :: byte
  by (rule disjunctive_add) (auto simp: bit_simps dest!: bit_imp_le_length)

lemma and_63: "(w :: u32) AND 63 = take_bit 6 w"
  by (simp add: take_bit_eq_mask mask_eq_exp_minus_1)

lemma and_255: "(w :: u32) AND 255 = take_bit 8 w"
  by (simp add: take_bit_eq_mask mask_eq_exp_minus_1)

text \<open>Putting the four sextets together again.\<close>

lemma join_sextets:
  "((push_bit 18 (drop_bit 18 w) OR push_bit 12 (take_bit 6 (drop_bit 12 w))) OR
   push_bit 6 (take_bit 6 (drop_bit 6 w))) OR take_bit 6 w = (w :: u32)"
proof (rule bit_word_eqI)
  fix n assume "n < LENGTH(32)"
  consider "n < 6" | "6 \<le> n \<and> n < 12" | "12 \<le> n \<and> n < 18" | "18 \<le> n" by linarith
  then show "bit (((push_bit 18 (drop_bit 18 w) OR push_bit 12 (take_bit 6 (drop_bit 12 w))) OR
      push_bit 6 (take_bit 6 (drop_bit 6 w))) OR take_bit 6 w) n \<longleftrightarrow> bit w n"
    using \<open>n < LENGTH(32)\<close> by cases (auto simp: bit_simps)
qed

lemma join_two:
  "push_bit 18 (drop_bit 18 w) OR push_bit 12 (take_bit 6 (drop_bit 12 w)) = push_bit 12 (drop_bit 12 (w :: u32))"
proof (rule bit_word_eqI)
  fix n assume "n < LENGTH(32)"
  consider "n < 12" | "12 \<le> n \<and> n < 18" | "18 \<le> n" by linarith
  then show "bit (push_bit 18 (drop_bit 18 w) OR push_bit 12 (take_bit 6 (drop_bit 12 w))) n \<longleftrightarrow>
      bit (push_bit 12 (drop_bit 12 w)) n"
    using \<open>n < LENGTH(32)\<close> by cases (auto simp: bit_simps)
qed

lemma join_three:
  "push_bit 12 (drop_bit 12 w) OR push_bit 6 (take_bit 6 (drop_bit 6 w)) = push_bit 6 (drop_bit 6 (w :: u32))"
proof (rule bit_word_eqI)
  fix n assume "n < LENGTH(32)"
  consider "n < 6" | "6 \<le> n \<and> n < 12" | "12 \<le> n" by linarith
  then show "bit (push_bit 12 (drop_bit 12 w) OR push_bit 6 (take_bit 6 (drop_bit 6 w))) n \<longleftrightarrow>
      bit (push_bit 6 (drop_bit 6 w)) n"
    using \<open>n < LENGTH(32)\<close> by cases (auto simp: bit_simps)
qed

lemma cleared:
  "drop_bit 16 (push_bit 12 (drop_bit 12 w)) = drop_bit 16 (w :: u32)"
  "drop_bit 16 (push_bit 6 (drop_bit 6 w)) = drop_bit 16 w"
  "drop_bit 8 (push_bit 6 (drop_bit 6 w)) = drop_bit 8 w"
  by (rule bit_word_eqI, use bit_imp_le_length [of w] in \<open>fastforce simp: bit_simps\<close>)+

lemma byte_beyond: "\<not> bit (b :: byte) (8 + n)" "\<not> bit (b :: byte) (16 + n)"
  by (auto dest!: bit_imp_le_length)

lemma chunk_bytes:
  fixes a b c :: byte
  shows "ucast (drop_bit 16 (push_bit 16 (ucast a) OR push_bit 8 (ucast b) OR ucast c :: u32)) = a"
    and "ucast (take_bit 8 (drop_bit 8 (push_bit 16 (ucast a) OR push_bit 8 (ucast b) OR ucast c :: u32))) = b"
    and "ucast (take_bit 8 (push_bit 16 (ucast a) OR push_bit 8 (ucast b) OR ucast c :: u32)) = c"
  by (rule bit_word_eqI, auto simp: bit_simps byte_beyond)+

lemma take_bit_24_less: "take_bit 24 (w :: u32) = w \<Longrightarrow> w < 2 ^ 24"
proof -
  assume "take_bit 24 w = w"
  then have "uint (take_bit 24 w) = uint w" by simp
  then have "uint w = take_bit 24 (uint w)" by (simp only: unsigned_take_bit_eq)
  then have "uint w < 2 ^ 24" using take_bit_int_less_exp [of 24 "uint w"] by simp
  then show ?thesis by (simp add: word_less_def)
qed

lemma chunk_bound:
  "(push_bit 16 (ucast a) OR push_bit 8 (ucast b) OR ucast c :: u32) < 2 ^ 24" for a b c :: byte
  by (rule take_bit_24_less, rule bit_word_eqI) (auto simp: bit_simps dest: bit_imp_le_length)

lemma triple_induct [case_names zero one two three]:
  "\<lbrakk>P []; \<And>a. P [a]; \<And>a b. P [a, b]; \<And>a b c r. P r \<Longrightarrow> P (a # b # c # r)\<rbrakk> \<Longrightarrow> P xs"
  for P :: "byte list \<Rightarrow> bool"
  by (rule enc_chunks.induct [of "\<lambda>_ _ xs. P xs"]) blast+

section \<open>Round trip\<close>

lemma top_sextet: "(w :: u32) < 2 ^ 24 \<Longrightarrow> drop_bit 18 w < 64"
proof -
  assume "w < 2 ^ 24"
  then have "unat w < 2 ^ 24" by (simp add: word_less_nat_alt)
  then have "unat w div 2 ^ 18 < 64" by (simp add: less_mult_imp_div_less)
  then show ?thesis
    unfolding word_less_nat_alt unsigned_drop_bit_eq
    using \<open>unat w < 2 ^ 24\<close> by (simp add: drop_bit_eq_div take_bit_nat_eq_self)
qed

lemma enc_pad: "enc_chunks chars True src =
    enc_chunks chars False src @ replicate ((3 - length src mod 3) mod 3) (CHR ''='')"
proof (induction src rule: triple_induct)
  case (three a b c r)
  have "Suc (Suc (Suc n)) mod 3 = n mod 3" for n by presburger
  then show ?case using three by (simp add: Let_def)
qed (simp_all add: Let_def numeral_2_eq_2)

lemma enc_length: "length (enc_chunks chars False src) = (4 * length src + 2) div 3"
  by (induction src rule: triple_induct) (simp_all add: Let_def)

lemma mod_3_cases: "\<exists>q. n = 3 * q \<or> n = 3 * q + 1 \<or> n = 3 * q + (2 :: nat)"
  by presburger

text \<open>The length of the encoding and that of its padding, per remainder.\<close>

lemma enc_sizes:
  fixes q :: nat
  shows "(4 * (3 * q) + 2) div 3 = 4 * q" "(4 * (3 * q + 1) + 2) div 3 = 4 * q + 2"
    "(4 * (3 * q + 2) + 2) div 3 = 4 * q + 3"
  by presburger+

lemma pad_sizes:
  fixes q :: nat
  shows "(3 - 3 * q mod 3) mod 3 = 0" "(3 - (3 * q + 1) mod 3) mod 3 = 2"
    "(3 - (3 * q + 2) mod 3) mod 3 = 1"
  by (simp_all add: mod_Suc)

lemma enc_pad_length: "(length (enc_chunks chars pad src) + 3) div 4 = (length (enc_chunks chars False src) + 3) div 4"
proof (cases pad)
  case True
  obtain q where "length src = 3 * q \<or> length src = 3 * q + 1 \<or> length src = 3 * q + 2"
    using mod_3_cases by blast
  then show ?thesis using True
    by (elim disjE) (simp_all only: enc_pad enc_length enc_sizes pad_sizes length_append length_replicate, simp_all)
qed simp

text \<open>What the decoder relies on: its table inverts the alphabet, which has no padding character.\<close>

locale alphabet =
  fixes chars :: string and vals :: "byte list"
  assumes inverse: "v < 64 \<Longrightarrow> of_char (chars ! v) < length vals \<and> vals ! of_char (chars ! v) = word_of_nat v"
    and no_pad: "v < 64 \<Longrightarrow> chars ! v \<noteq> CHR ''=''"
begin

lemma dec_char:
  assumes "w < (64 :: u32)"
  shows "\<not> length vals \<le> of_char (chars ! unat w)" "vals ! of_char (chars ! unat w) \<noteq> 255"
    "ucast (vals ! of_char (chars ! unat w)) = w"
proof -
  have u: "unat w < 64" using assms by (simp add: word_less_nat_alt)
  have v: "vals ! of_char (chars ! unat w) = word_of_nat (unat w)"
    using inverse [OF u] by simp
  show "\<not> length vals \<le> of_char (chars ! unat w)" using inverse [OF u] by simp
  obtain b :: byte where b: "vals ! of_char (chars ! unat w) = b" "unat b = unat w"
  proof
    show "vals ! of_char (chars ! unat w) = word_of_nat (unat w)" by (rule v)
    show "unat (word_of_nat (unat w) :: byte) = unat w"
      unfolding unat_of_nat using u by (simp add: take_bit_nat_eq_self)
  qed
  then show "vals ! of_char (chars ! unat w) \<noteq> 255" using u by auto
  have "unat (ucast b :: u32) = unat w"
    using b(2) u unfolding unsigned_ucast_eq by (simp add: take_bit_nat_eq_self)
  then show "ucast (vals ! of_char (chars ! unat w)) = w"
    unfolding b by (simp add: word_unat_eq_iff)
qed

lemma small: "take_bit 6 (w :: u32) < 64"
  using take_bit_nat_less_exp [of 6 "unat w"]
  by (simp add: word_less_nat_alt unsigned_take_bit_eq)

lemma dec_chunk:
  assumes "w < 2 ^ 24" and "i mod 4 = 0"
  shows "dec_loop vals i ch (chars ! unat (drop_bit 18 w) # sextet chars w 12 # sextet chars w 6 # sextet chars w 0 # src) =
    rbind (dec_loop vals (Suc (Suc (Suc (Suc i)))) w src) (\<lambda>(ch, out).
      Inr (ch, [ucast (drop_bit 16 w), ucast (take_bit 8 (drop_bit 8 w)), ucast (take_bit 8 w)] @ out))"
    and "dec_loop vals i ch [chars ! unat (drop_bit 18 w), sextet chars w 12, sextet chars w 6] =
    Inr (push_bit 6 (drop_bit 6 w), [])"
    and "dec_loop vals i ch [chars ! unat (drop_bit 18 w), sextet chars w 12] =
    Inr (push_bit 12 (drop_bit 12 w), [])"
proof -
  have "drop_bit 18 w < 64" using assms(1) by (rule top_sextet)
  note d = dec_char [OF this] dec_char [OF small]
  have m: "Suc i mod 4 = 1" "Suc (Suc i) mod 4 = 2" "Suc (Suc (Suc i)) mod 4 = 3"
    "(2 + i) mod 4 = 2" "(3 + i) mod 4 = 3"
    using assms(2) by presburger+
  show "dec_loop vals i ch (chars ! unat (drop_bit 18 w) # sextet chars w 12 # sextet chars w 6 # sextet chars w 0 # src) =
    rbind (dec_loop vals (Suc (Suc (Suc (Suc i)))) w src) (\<lambda>(ch, out).
      Inr (ch, [ucast (drop_bit 16 w), ucast (take_bit 8 (drop_bit 8 w)), ucast (take_bit 8 w)] @ out))"
    by (simp add: join_sextets d m assms(2) sextet_def and_63 and_255 Let_def
        del: drop_bit_or take_bit_or)
  show "dec_loop vals i ch [chars ! unat (drop_bit 18 w), sextet chars w 12, sextet chars w 6] =
    Inr (push_bit 6 (drop_bit 6 w), [])"
    by (simp add: d m assms(2) sextet_def and_63 Let_def join_two join_three)
  show "dec_loop vals i ch [chars ! unat (drop_bit 18 w), sextet chars w 12] =
    Inr (push_bit 12 (drop_bit 12 w), [])"
    by (simp add: d m assms(2) sextet_def and_63 Let_def join_two join_three)
qed

text \<open>The last, incomplete chunk.\<close>

fun tail_bytes :: "u32 \<Rightarrow> nat \<Rightarrow> byte list" where
  "tail_bytes chunk n =
     (if n mod 4 = 2 then [ucast (drop_bit 16 chunk)]
      else if n mod 4 = 3 then [ucast (drop_bit 16 chunk), ucast (drop_bit 8 chunk AND 0xFF)] else [])"

lemma dec_enc:
  "i mod 4 = 0 \<Longrightarrow> \<exists>ch' out. dec_loop vals i ch (enc_chunks chars False src) = Inr (ch', out) \<and>
     out @ tail_bytes ch' (length (enc_chunks chars False src)) = src"
proof (induction src arbitrary: i ch rule: triple_induct)
  case (one a)
  let ?w = "push_bit 16 (ucast a) OR push_bit 8 (ucast (0 :: byte)) OR ucast (0 :: byte) :: u32"
  have e: "enc_chunks chars False [a] = [chars ! unat (drop_bit 18 ?w), sextet chars ?w 12]"
    by (simp add: Let_def)
  show ?case
    using dec_chunk(3) [OF chunk_bound [of a 0 0], where i=i] one chunk_bytes [of a 0 0]
    unfolding e by (simp add: cleared del: drop_bit_or take_bit_or)
next
  case (two a b)
  let ?w = "push_bit 16 (ucast a) OR push_bit 8 (ucast b) OR ucast (0 :: byte) :: u32"
  have e: "enc_chunks chars False [a, b] =
      [chars ! unat (drop_bit 18 ?w), sextet chars ?w 12, sextet chars ?w 6]"
    by (simp add: Let_def chunk2)
  show ?case
    using dec_chunk(2) [OF chunk_bound [of a b 0], where i=i] two chunk_bytes [of a b 0]
    unfolding e by (simp add: cleared and_255 del: drop_bit_or take_bit_or)
next
  case (three a b c r)
  let ?w = "push_bit 16 (ucast a) OR push_bit 8 (ucast b) OR ucast c :: u32"
  have "Suc (Suc (Suc (Suc i))) mod 4 = 0" using three(2) by presburger
  from three(1) [OF this, of ?w] obtain ch' out where
    r: "dec_loop vals (Suc (Suc (Suc (Suc i)))) ?w (enc_chunks chars False r) = Inr (ch', out)"
      "out @ tail_bytes ch' (length (enc_chunks chars False r)) = r" by blast
  have "Suc (Suc (Suc (Suc n))) mod 4 = n mod 4" for n by presburger
  then have t: "tail_bytes w (Suc (Suc (Suc (Suc n)))) = tail_bytes w n" for w n
    by (simp only: tail_bytes.simps)
  show ?case
    using dec_chunk(1) [OF chunk_bound [of a b c] three(2), where ch=ch and src="enc_chunks chars False r"] r chunk_bytes [of a b c]
    unfolding enc_chunks.simps Let_def chunk3
    by (simp del: drop_bit_or take_bit_or tail_bytes.simps dec_loop.simps add: t)
qed simp

lemma sextet_no_pad: "(w :: u32) < 64 \<Longrightarrow> CHR ''='' \<noteq> chars ! unat w"
  using no_pad [of "unat w"] by (simp add: word_less_nat_alt)

lemma sextets_no_pad:
  "CHR ''='' \<noteq> chars ! unat (take_bit 6 (w :: u32))"
  "(w :: u32) < 2 ^ 24 \<Longrightarrow> CHR ''='' \<noteq> chars ! unat (drop_bit 18 w)"
  using sextet_no_pad [OF small] sextet_no_pad [OF top_sextet] by auto

lemma enc_no_pad: "c \<in> set (enc_chunks chars False src) \<Longrightarrow> c \<noteq> CHR ''=''"
proof (induction src rule: triple_induct)
  case (one a)
  then show ?case
    using sextets_no_pad chunk_bound [of a 0 0]
    by (auto simp: Let_def sextet_def and_63 simp del: take_bit_or drop_bit_or)
next
  case (two a b)
  then show ?case
    using sextets_no_pad chunk_bound [of a b 0]
    by (auto simp: Let_def sextet_def and_63 chunk2 simp del: take_bit_or drop_bit_or)
next
  case (three a b c r)
  then show ?case
    using sextets_no_pad chunk_bound [of a b c]
    by (auto simp: Let_def sextet_def and_63 chunk3 simp del: take_bit_or drop_bit_or)
qed simp

lemma decode_encode:
  assumes "MojBase64DecodedSizeMax (length (enc_chunks chars pad src)) \<le> n"
  shows "MojBase64DecodeImpl vals (enc_chunks chars pad src) n = Inr src"
proof -
  let ?e = "enc_chunks chars False src"
  have trim: "trim_pad (trim_pad (enc_chunks chars pad src)) = ?e"
  proof -
    have l: "?e \<noteq> [] \<Longrightarrow> last ?e \<noteq> CHR ''=''" using enc_no_pad [OF last_in_set] by blast
    have "enc_chunks chars pad src = ?e \<or> enc_chunks chars pad src = ?e @ ''='' \<or>
        enc_chunks chars pad src = ?e @ ''==''"
    proof -
      have "(3 - length src mod 3) mod 3 < 3" by simp
      then have "(3 - length src mod 3) mod 3 = 0 \<or> (3 - length src mod 3) mod 3 = 1 \<or>
          (3 - length src mod 3) mod 3 = 2" by linarith
      then show ?thesis using enc_pad [of chars src] by (cases pad) (auto simp: numeral_2_eq_2)
    qed
    then show ?thesis using l by (auto simp: trim_pad_def butlast_append)
  qed
  obtain ch' out where d: "dec_loop vals 0 0 ?e = Inr (ch', out)" "out @ tail_bytes ch' (length ?e) = src"
    using dec_enc [of 0 0 src] by auto
  have len: "length ?e = (4 * length src + 2) div 3" by (rule enc_length)
  have max: "MojBase64DecodedSizeMax (length (enc_chunks chars pad src)) = (length ?e + 3) div 4 * 3"
    using enc_pad_length [of chars pad src] by (simp add: MojBase64DecodedSizeMax_def)
  have out: "length out + length (tail_bytes ch' (length ?e)) = length src"
    using arg_cong [OF d(2), of length] by simp
  obtain q where "length src = 3 * q \<or> length src = 3 * q + 1 \<or> length src = 3 * q + 2"
    using mod_3_cases by blast
  then consider "length ?e = 4 * q" "length src = 3 * q"
    | "length ?e = 4 * q + 2" "length src = 3 * q + 1"
    | "length ?e = 4 * q + 3" "length src = 3 * q + 2"
    unfolding len by (auto simp only: enc_sizes)
  then show ?thesis
  proof cases
    case 1
    then show ?thesis using assms max trim d out by (simp add: MojBase64DecodeImpl_def Let_def)
  next
    case 2
    have "(4 * q + 2) mod 4 = 2" "(4 * q + 2 + 3) div 4 = q + 1" by presburger+
    then show ?thesis using 2 assms max trim d out by (simp add: MojBase64DecodeImpl_def Let_def)
  next
    case 3
    have "(4 * q + 3) mod 4 = 3" "(4 * q + 3 + 3) div 4 = q + 1" by presburger+
    then show ?thesis using 3 assms max trim d out by (simp add: MojBase64DecodeImpl_def Let_def)
  qed
qed

end

text \<open>Both tables invert their alphabets.\<close>

definition inverts :: "string \<Rightarrow> byte list \<Rightarrow> nat \<Rightarrow> bool" where
  "inverts chars vals v \<longleftrightarrow> of_char (chars ! v) < length vals \<and>
     vals ! of_char (chars ! v) = word_of_nat v \<and> chars ! v \<noteq> CHR ''=''"

lemma alphabet_check:
  "list_all (inverts chars64 vals64) [0..<64]" "list_all (inverts charsMIME valsMIME) [0..<64]"
  by code_simp+

interpretation b64: alphabet chars64 vals64
  by unfold_locales (use alphabet_check(1) in \<open>simp_all add: list_all_iff inverts_def\<close>)

interpretation mime: alphabet charsMIME valsMIME
  by unfold_locales (use alphabet_check(2) in \<open>simp_all add: list_all_iff inverts_def\<close>)

text \<open>
  C38. Base 64 decodes to what was encoded: for any bytes, with or without padding, the string that
  \<^verbatim>\<open>base64Encode\<close> makes is decoded by \<^verbatim>\<open>base64Decode\<close> to the same bytes, and neither fails; the
  MIME alphabet obeys the same law.
\<close>

theorem base64_roundtrip:
  "rbind (base64Encode vec pad) base64Decode = Inr vec \<and>
   rbind (MojBase64EncodeMIME vec (MojBase64EncodedLenMax (length vec)) pad)
     (\<lambda>s. MojBase64DecodeMIME s (MojBase64DecodedSizeMax (length s))) = Inr vec"
  using b64.decode_encode [of pad vec, OF order_refl] mime.decode_encode [of pad vec, OF order_refl]
  by (simp add: base64Encode_def base64Decode_def MojBase64Encode_def MojBase64Decode_def
      MojBase64EncodeMIME_def MojBase64DecodeMIME_def MojBase64EncodeImpl_def)

text \<open>A padding character behind a complete chunk is counted in the size but writes nothing.\<close>

lemma base64Decode_stray_pad: "base64Decode ''AAAA='' = Inl MojAssertFailed"
  by code_simp

end
