(* ===== verification/JsonWrite.thy ===== *)
theory JsonWrite
  imports Visitor CStrings
begin

text \<open>
  \<^verbatim>\<open>MojJsonWriter\<close> (\<^verbatim>\<open>src/core/MojJsonWriter.cpp\<close>): the visitor that writes JSON text, \<^verbatim>\<open>toJson\<close> and
  the \<^verbatim>\<open>stringValue\<close> of a value. \<open>json_text\<close> is the text of a value on its own; the writer appends
  exactly it.
\<close>

section \<open>The writer\<close>

record json_writer =
  jw_str :: string
  jw_comma :: bool

definition jw_reset :: json_writer where
  "jw_reset = \<lparr>jw_str = [], jw_comma = False\<rparr>"

abbreviation jw_append :: "string \<Rightarrow> json_writer \<Rightarrow> json_writer" where
  "jw_append s w \<equiv> w\<lparr>jw_str := jw_str w @ s\<rparr>"

definition jw_writeComma :: "json_writer \<Rightarrow> json_writer" where
  "jw_writeComma w = (if jw_comma w then jw_append '','' w else w\<lparr>jw_comma := True\<rparr>)"

text \<open>The table \<^verbatim>\<open>escape\<close>: 0 for none, 1 for \<^verbatim>\<open>\u\<close>, else the character behind the backslash.\<close>

definition json_escape :: "nat list" where
  "json_escape =
     replicate 8 1 @ [98, 116, 110, 1, 102, 114, 1, 1] @ replicate 16 1 @
     [0, 0, 34] @ replicate 13 0 @ replicate 16 0 @ replicate 16 0 @ replicate 12 0 @ [92, 0, 0, 0]"

text \<open>One digit of the conversion \<^verbatim>\<open>%X\<close>.\<close>

definition hex_upper :: "nat \<Rightarrow> char" where
  "hex_upper d = char_of (if d < 10 then 48 + d else 55 + d)"

definition fmt_u04X :: "nat \<Rightarrow> string" where
  "fmt_u04X c =
     CHR 0x5C # CHR ''u'' # map (\<lambda>i. hex_upper (c div 16 ^ i mod 16)) [3, 2, 1, 0]"

text \<open>What the loop of \<^verbatim>\<open>writeString\<close> appends for one character.\<close>

definition jw_char :: "char \<Rightarrow> string" where
  "jw_char ch =
     (let c = of_char ch in
      if c < length json_escape \<and> json_escape ! c \<noteq> 0
      then (if json_escape ! c = 1 then fmt_u04X c else [CHR 0x5C, char_of (json_escape ! c)])
      else [ch])"

definition jw_writeString :: "string \<Rightarrow> json_writer \<Rightarrow> json_writer" where
  "jw_writeString val w = jw_append (CHR 0x22 # concat (map jw_char val) @ [CHR 0x22]) w"

fun jw_ev :: "json_writer \<Rightarrow> ev \<Rightarrow> json_writer res" where
  "jw_ev w BeginObject = Inr ((jw_append ''{'' (jw_writeComma w))\<lparr>jw_comma := False\<rparr>)"
| "jw_ev w EndObject = Inr ((jw_append ''}'' w)\<lparr>jw_comma := True\<rparr>)"
| "jw_ev w BeginArray = Inr ((jw_append ''['' (jw_writeComma w))\<lparr>jw_comma := False\<rparr>)"
| "jw_ev w EndArray = Inr ((jw_append '']'' w)\<lparr>jw_comma := True\<rparr>)"
| "jw_ev w (PropName name) =
     Inr ((jw_append '':'' (jw_writeString name (jw_writeComma w)))\<lparr>jw_comma := False\<rparr>)"
| "jw_ev w NullValue = Inr (jw_append ''null'' (jw_writeComma w))"
| "jw_ev w (BoolValue val) = Inr (jw_append (if val then ''true'' else ''false'') (jw_writeComma w))"
| "jw_ev w (IntValue val) = Inr (jw_append (fmt_lld val) (jw_writeComma w))"
| "jw_ev w (DecimalValue val) =
     rbind (dec_stringValue val MaxStringSize) (\<lambda>buf. Inr (jw_append buf (jw_writeComma w)))"
| "jw_ev w (StringValue val) = Inr (jw_writeString val (jw_writeComma w))"

section \<open>toJson and stringValue\<close>

definition toJson :: "obj \<Rightarrow> string res" where
  "toJson obj = rbind (run jw_ev jw_reset (obj_visit obj)) (\<lambda>w. Inr (jw_str w))"

text \<open>A string's \<^verbatim>\<open>stringValue\<close> is the string; every other value's is its JSON text.\<close>

fun obj_stringValue :: "obj \<Rightarrow> string res" where
  "obj_stringValue (OString s) = Inr s"
| "obj_stringValue obj = toJson obj"

definition get_string :: "string \<Rightarrow> obj \<Rightarrow> string option res" where
  "get_string key obj =
     (case obj_get key obj of
        None \<Rightarrow> Inr None
      | Some v \<Rightarrow> rbind (obj_stringValue v) (\<lambda>s. Inr (Some s)))"

definition getRequired_string :: "string \<Rightarrow> obj \<Rightarrow> string res" where
  "getRequired_string key obj = getRequiredErrT (get_string key obj)"

section \<open>The text of a value\<close>

definition dec_text :: "i64 \<Rightarrow> string" where
  "dec_text rep = (case dec_stringValue rep MaxStringSize of Inr s \<Rightarrow> s | Inl _ \<Rightarrow> [])"

definition json_string :: "string \<Rightarrow> string" where
  "json_string s = CHR 0x22 # concat (map jw_char s) @ [CHR 0x22]"

text \<open>The members of a container, separated by commas.\<close>

fun join_comma :: "string list \<Rightarrow> string" where
  "join_comma [] = []"
| "join_comma (s # ss) = s @ concat (map (\<lambda>t. CHR '','' # t) ss)"

fun json_text :: "obj \<Rightarrow> string" where
  "json_text (OObject ps) =
     CHR ''{'' # join_comma (map (\<lambda>(k, v). json_string k @ CHR '':'' # json_text v) ps) @ ''}''"
| "json_text (OArray xs) = CHR ''['' # join_comma (map json_text xs) @ '']''"
| "json_text (OString s) = json_string s"
| "json_text (OBool b) = (if b then ''true'' else ''false'')"
| "json_text (ODecimal d) = dec_text d"
| "json_text (OInt i) = fmt_lld i"
| "json_text ONull = ''null''"
| "json_text OUndefined = ''null''"

lemma dec_stringValue_total: "dec_stringValue rep MaxStringSize = Inr (dec_text rep)"
  by (simp add: dec_text_def dec_stringValue_def Let_def)

abbreviation comma_if :: "bool \<Rightarrow> string" where
  "comma_if b \<equiv> (if b then '','' else [])"

lemma comma_simps [simp]:
  "jw_str (jw_writeComma w) = jw_str w @ comma_if (jw_comma w)"
  "jw_comma (jw_writeComma w) = True"
  by (simp_all add: jw_writeComma_def)

lemma jw_eqI: "jw_str (w :: json_writer) = jw_str w' \<Longrightarrow> jw_comma w = jw_comma w' \<Longrightarrow> w = w'"
  by simp

lemma jw_lit: "w\<lparr>jw_str := s, jw_comma := c\<rparr> = \<lparr>jw_str = s, jw_comma = c\<rparr>"
  by simp

lemma join_comma_run:
  assumes "\<And>x w. x \<in> set xs \<Longrightarrow>
      run jw_ev w (f x) = Inr \<lparr>jw_str = jw_str w @ comma_if (jw_comma w) @ g x, jw_comma = True\<rparr>"
  shows "run jw_ev \<lparr>jw_str = s, jw_comma = c\<rparr> (concat (map f xs)) =
    Inr (if xs = [] then \<lparr>jw_str = s, jw_comma = c\<rparr>
         else \<lparr>jw_str = s @ comma_if c @ join_comma (map g xs), jw_comma = True\<rparr>)"
proof -
  have more: "run jw_ev \<lparr>jw_str = s, jw_comma = True\<rparr> (concat (map f ys)) =
      Inr \<lparr>jw_str = s @ concat (map (\<lambda>y. CHR '','' # g y) ys), jw_comma = True\<rparr>"
    if "set ys \<subseteq> set xs" for ys s
    using that assms by (induction ys arbitrary: s) (simp_all add: run_append)
  show ?thesis
  proof (cases xs)
    case (Cons y ys)
    then show ?thesis
      using more [of ys] assms [of y] by (auto simp: run_append o_def subset_insertI)
  qed simp
qed

text \<open>The writer appends the text of the value it visits, behind a comma where one is due.\<close>

lemma run_jw:
  "run jw_ev w (obj_visit v) =
   Inr \<lparr>jw_str = jw_str w @ comma_if (jw_comma w) @ json_text v, jw_comma = True\<rparr>"
proof (induction v arbitrary: w rule: json_text.induct)
  case (1 ps)
  have "run jw_ev w (PropName (fst p) # obj_visit (snd p)) =
      Inr \<lparr>jw_str = jw_str w @ comma_if (jw_comma w) @ (json_string (fst p) @ CHR '':'' # json_text (snd p)),
           jw_comma = True\<rparr>" if "p \<in> set ps" for p w
    using 1 [of p] that by (cases p) (simp add: jw_writeString_def json_string_def)
  from join_comma_run [of ps "\<lambda>p. PropName (fst p) # obj_visit (snd p)", OF this]
  show ?case by (cases "jw_comma w") (auto simp: run_append case_prod_unfold jw_lit)
next
  case (2 xs)
  from join_comma_run [of xs obj_visit json_text, OF 2]
  show ?case by (cases "jw_comma w") (auto simp: run_append jw_lit)
qed (auto intro!: jw_eqI simp: jw_writeString_def json_string_def dec_stringValue_total)

lemma toJson_text: "toJson v = Inr (json_text v)"
  by (simp add: toJson_def run_jw jw_reset_def)

lemma obj_stringValue_total: "\<exists>s. obj_stringValue v = Inr s"
  by (cases v) (simp_all add: toJson_text)

end
