(* ===== verification/JsonParse.thy ===== *)
theory JsonParse
  imports JsonWrite
begin

text \<open>
  \<^verbatim>\<open>MojJsonParser\<close> (\<^verbatim>\<open>src/core/MojJsonParser.cpp\<close>): the parser that is fed characters, keeps a stack
  of states and calls a visitor. One definition per group of states of \<^verbatim>\<open>parseChunk\<close>. The theorems:
  it always ends, it reads back what the writer wrote, and it never breaks the builder.
\<close>

section \<open>States\<close>

datatype jstate =
    JEatWhitespace | JStart | JFinish | JNull | JCommentStart | JComment | JCommentEol | JCommentEnd
  | JString | JStringEscape | JEscapeUnicode | JBool | JNumber | JArray | JArraySep
  | JObjFieldStart | JObjField | JObjFieldEnd | JObjValue | JObjSep

text \<open>
  The records of \<^verbatim>\<open>m_stack\<close> up to \<^verbatim>\<open>m_depth\<close>, the current one first, each the state and the saved
  state; a record above is reset by \<^verbatim>\<open>push\<close> before it is used. \<^verbatim>\<open>m_depth\<close> is the length less one.
\<close>

record json_parser =
  jp_line :: u32
  jp_col :: u32
  jp_strPos :: nat
  jp_ucsChar :: u32
  jp_matchStr :: string
  jp_isDecimal :: bool
  jp_chars :: string
  jp_stack :: "(jstate \<times> jstate) list"

definition MaxDepth :: nat where "MaxDepth = 32"

definition jp_begin :: json_parser where
  "jp_begin = \<lparr>jp_line = 1, jp_col = 1, jp_strPos = 0, jp_ucsChar = 0, jp_matchStr = [],
     jp_isDecimal = False, jp_chars = [], jp_stack = [(JEatWhitespace, JStart)]\<rparr>"

abbreviation jp_state :: "json_parser \<Rightarrow> jstate" where
  "jp_state p \<equiv> fst (hd (jp_stack p))"

abbreviation jp_saved :: "json_parser \<Rightarrow> jstate" where
  "jp_saved p \<equiv> snd (hd (jp_stack p))"

definition jp_to :: "jstate \<Rightarrow> json_parser \<Rightarrow> json_parser" where
  "jp_to st p = p\<lparr>jp_stack := (st, jp_saved p) # tl (jp_stack p)\<rparr>"

definition jp_save :: "jstate \<Rightarrow> jstate \<Rightarrow> json_parser \<Rightarrow> json_parser" where
  "jp_save saved st p = p\<lparr>jp_stack := (st, saved) # tl (jp_stack p)\<rparr>"

definition jp_push :: "json_parser \<Rightarrow> json_parser res" where
  "jp_push p =
     (if length (jp_stack p) - 1 \<ge> MaxDepth - 1 then Inl MojErrJsonParseMaxDepth
      else Inr (p\<lparr>jp_stack := (JEatWhitespace, JStart) # jp_stack p\<rparr>))"

definition jp_finished :: "json_parser \<Rightarrow> bool" where
  "jp_finished p \<longleftrightarrow> jp_state p = JFinish \<and> length (jp_stack p) - 1 = 0"

text \<open>How a state ends: with the next character, with the same one again, or the parse is done.\<close>

datatype jnext = JNext | JRedo | JDone

type_synonym 's jstep = "(jnext \<times> json_parser \<times> 's) res"

abbreviation jgo :: "jnext \<Rightarrow> json_parser \<Rightarrow> 's res \<Rightarrow> 's jstep" where
  "jgo n p r \<equiv> rbind r (\<lambda>s. Inr (n, p, s))"

section \<open>Values\<close>

definition MojJsonTrueString :: string where "MojJsonTrueString = ''true''"
definition MojJsonFalseString :: string where "MojJsonFalseString = ''false''"
definition MojJsonNullString :: string where "MojJsonNullString = ''null''"

text \<open>A C string read at an index, with its terminator.\<close>

definition cstr_at :: "string \<Rightarrow> nat \<Rightarrow> char" where
  "cstr_at s i = (if i < length s then s ! i else NUL)"

definition jp_start :: "('s \<Rightarrow> ev \<Rightarrow> 's res) \<Rightarrow> char \<Rightarrow> json_parser \<Rightarrow> 's \<Rightarrow> 's jstep" where
  "jp_start vis c p s =
     (if c = CHR ''{'' then jgo JNext (jp_save JObjFieldStart JEatWhitespace p) (vis s BeginObject)
      else if c = CHR ''['' then jgo JNext (jp_save JArray JEatWhitespace p) (vis s BeginArray)
      else if c = CHR ''n'' then Inr (JRedo, (jp_to JNull p)\<lparr>jp_strPos := 0\<rparr>, s)
      else if c = CHR 0x22 then Inr (JNext, (jp_to JString p)\<lparr>jp_chars := []\<rparr>, s)
      else if c = CHR ''t'' \<or> c = CHR ''f'' then
        Inr (JRedo, (jp_to JBool p)\<lparr>jp_strPos := 0,
               jp_matchStr := if c = CHR ''t'' then MojJsonTrueString else MojJsonFalseString\<rparr>, s)
      else if isdigit c \<or> c = CHR ''-'' then
        Inr (JRedo, (jp_to JNumber p)\<lparr>jp_chars := [], jp_isDecimal := False\<rparr>, s)
      else if c = NUL then Inr (JNext, p, s)
      else Inl MojErrJsonParseUnexpected)"

definition jp_null :: "('s \<Rightarrow> ev \<Rightarrow> 's res) \<Rightarrow> char \<Rightarrow> json_parser \<Rightarrow> 's \<Rightarrow> 's jstep" where
  "jp_null vis c p s =
     (if c \<noteq> cstr_at MojJsonNullString (jp_strPos p) then Inl MojErrJsonParseNull
      else
        let p' = p\<lparr>jp_strPos := jp_strPos p + 1\<rparr> in
        if cstr_at MojJsonNullString (jp_strPos p') = NUL
        then jgo JNext (jp_save JFinish JEatWhitespace p') (vis s NullValue)
        else Inr (JNext, p', s))"

definition jp_bool :: "('s \<Rightarrow> ev \<Rightarrow> 's res) \<Rightarrow> char \<Rightarrow> json_parser \<Rightarrow> 's \<Rightarrow> 's jstep" where
  "jp_bool vis c p s =
     (if c \<noteq> cstr_at (jp_matchStr p) (jp_strPos p) then Inl MojErrJsonParseBool
      else
        let p' = p\<lparr>jp_strPos := jp_strPos p + 1\<rparr> in
        if cstr_at (jp_matchStr p') (jp_strPos p') = NUL
        then jgo JNext (jp_save JFinish JEatWhitespace p') (vis s (BoolValue (jp_matchStr p' = MojJsonTrueString)))
        else Inr (JNext, p', s))"

definition jp_number :: "('s \<Rightarrow> ev \<Rightarrow> 's res) \<Rightarrow> char \<Rightarrow> json_parser \<Rightarrow> 's \<Rightarrow> 's jstep" where
  "jp_number vis c p s =
     (if c = CHR ''.'' \<or> c = CHR ''e'' \<or> c = CHR ''E''
      then Inr (JNext, p\<lparr>jp_isDecimal := True, jp_chars := jp_chars p @ [c]\<rparr>, s)
      else if isdigit c \<or> c = CHR ''+'' \<or> c = CHR ''-''
      then Inr (JNext, p\<lparr>jp_chars := jp_chars p @ [c]\<rparr>, s)
      else
        let p' = jp_save JFinish JEatWhitespace p in
        if jp_isDecimal p
        then rbind (dec_parse (jp_chars p)) (\<lambda>d. jgo JRedo p' (vis s (DecimalValue d)))
        else
          let (i, numberEnd) = strtoll (jp_chars p) in
          rbind (vis s (IntValue i)) (\<lambda>s'.
            if numberEnd \<noteq> [] then Inl MojErrJsonParseInt else Inr (JRedo, p', s')))"

section \<open>Strings\<close>

text \<open>\<^verbatim>\<open>hexDigit\<close>: a digit, or the low three bits of a letter and 9.\<close>

definition jp_hexDigit :: "char \<Rightarrow> nat" where
  "jp_hexDigit c = (if of_char c \<le> (57 :: nat) then of_char c - 48 else of_char c mod 8 + 9)"

unbundle bit_operations_syntax

definition jp_utf8 :: "u32 \<Rightarrow> string" where
  "jp_utf8 u =
     map (\<lambda>w. char_of_byte (ucast w))
       (if u < 0x80 then [u]
        else if u < 0x800 then [0xc0 OR drop_bit 6 u, 0x80 OR (u AND 0x3f)]
        else [0xe0 OR drop_bit 12 u, 0x80 OR (drop_bit 6 u AND 0x3f), 0x80 OR (u AND 0x3f)])"

definition jp_string :: "('s \<Rightarrow> ev \<Rightarrow> 's res) \<Rightarrow> char \<Rightarrow> json_parser \<Rightarrow> 's \<Rightarrow> 's jstep" where
  "jp_string vis c p s =
     (if c = CHR 0x22 then
        jgo JNext (jp_save JFinish JEatWhitespace p) (vis s (StringValue (jp_chars p)))
      else if c = CHR 0x5C then Inr (JNext, jp_save JString JStringEscape p, s)
      else Inr (JNext, p\<lparr>jp_chars := jp_chars p @ [c]\<rparr>, s))"

definition jp_escape :: "char \<Rightarrow> json_parser \<Rightarrow> 's \<Rightarrow> 's jstep" where
  "jp_escape c p s =
     (if c = CHR ''u'' then Inr (JNext, (jp_to JEscapeUnicode p)\<lparr>jp_ucsChar := 0, jp_strPos := 0\<rparr>, s)
      else
        let escapeChar = (if c \<in> {CHR 0x22, CHR 0x5C, CHR ''/''} then Some c
                          else map_of [(CHR ''b'', CHR 0x08), (CHR ''n'', CHR 0x0A), (CHR ''r'', CHR 0x0D),
                                       (CHR ''t'', CHR 0x09), (CHR ''f'', CHR 0x0C)] c)
        in case escapeChar of
             None \<Rightarrow> Inl MojErrJsonParseEscape
           | Some e \<Rightarrow> Inr (JNext, (jp_to (jp_saved p) p)\<lparr>jp_chars := jp_chars p @ [e]\<rparr>, s))"

definition jp_unicode :: "char \<Rightarrow> json_parser \<Rightarrow> 's \<Rightarrow> 's jstep" where
  "jp_unicode c p s =
     (if MojIsHexDigit c then
        let u = jp_ucsChar p + push_bit ((3 - jp_strPos p) * 4) (of_nat (jp_hexDigit c));
            p' = p\<lparr>jp_ucsChar := u, jp_strPos := jp_strPos p + 1\<rparr>
        in if jp_strPos p' = 4
           then (if u = 0 then Inl MojErrJsonParseEscape
                 else Inr (JNext, (jp_to (jp_saved p') p')\<lparr>jp_chars := jp_chars p @ jp_utf8 u\<rparr>, s))
           else Inr (JNext, p', s)
      else Inl MojErrJsonParseEscape)"

section \<open>Containers\<close>

definition jp_array :: "('s \<Rightarrow> ev \<Rightarrow> 's res) \<Rightarrow> char \<Rightarrow> json_parser \<Rightarrow> 's \<Rightarrow> 's jstep" where
  "jp_array vis c p s =
     (if c = CHR '']'' then jgo JNext (jp_save JFinish JEatWhitespace p) (vis s EndArray)
      else rbind (jp_push (jp_to JArraySep p)) (\<lambda>p'. Inr (JRedo, p', s)))"

definition jp_arraySep :: "('s \<Rightarrow> ev \<Rightarrow> 's res) \<Rightarrow> char \<Rightarrow> json_parser \<Rightarrow> 's \<Rightarrow> 's jstep" where
  "jp_arraySep vis c p s =
     (if c = CHR '']'' then jgo JNext (jp_save JFinish JEatWhitespace p) (vis s EndArray)
      else if c = CHR '','' then Inr (JNext, jp_save JArray JEatWhitespace p, s)
      else Inl MojErrJsonParseArray)"

definition jp_objFieldStart :: "('s \<Rightarrow> ev \<Rightarrow> 's res) \<Rightarrow> char \<Rightarrow> json_parser \<Rightarrow> 's \<Rightarrow> 's jstep" where
  "jp_objFieldStart vis c p s =
     (if c = CHR ''}'' then jgo JNext (jp_save JFinish JEatWhitespace p) (vis s EndObject)
      else if c = CHR 0x22 then Inr (JNext, (jp_to JObjField p)\<lparr>jp_chars := []\<rparr>, s)
      else Inl MojErrJsonParsePropName)"

definition jp_objField :: "('s \<Rightarrow> ev \<Rightarrow> 's res) \<Rightarrow> char \<Rightarrow> json_parser \<Rightarrow> 's \<Rightarrow> 's jstep" where
  "jp_objField vis c p s =
     (if c = CHR 0x22 then
        jgo JNext (jp_save JObjFieldEnd JEatWhitespace p) (vis s (PropName (jp_chars p)))
      else if c = CHR 0x5C then Inr (JNext, jp_save JObjField JStringEscape p, s)
      else Inr (JNext, p\<lparr>jp_chars := jp_chars p @ [c]\<rparr>, s))"

definition jp_objFieldEnd :: "char \<Rightarrow> json_parser \<Rightarrow> 's \<Rightarrow> 's jstep" where
  "jp_objFieldEnd c p s =
     (if c = CHR '':'' then Inr (JNext, jp_save JObjValue JEatWhitespace p, s)
      else Inl MojErrJsonParsePropName)"

definition jp_objValue :: "json_parser \<Rightarrow> 's \<Rightarrow> 's jstep" where
  "jp_objValue p s = rbind (jp_push (jp_save JObjSep JEatWhitespace p)) (\<lambda>p'. Inr (JRedo, p', s))"

definition jp_objSep :: "('s \<Rightarrow> ev \<Rightarrow> 's res) \<Rightarrow> char \<Rightarrow> json_parser \<Rightarrow> 's \<Rightarrow> 's jstep" where
  "jp_objSep vis c p s =
     (if c = CHR ''}'' then jgo JNext (jp_save JFinish JEatWhitespace p) (vis s EndObject)
      else if c = CHR '','' then Inr (JNext, jp_save JObjFieldStart JEatWhitespace p, s)
      else Inl MojErrJsonParseValueSep)"

section \<open>parseChunk\<close>

text \<open>One pass of the switch.\<close>

definition jp_step :: "('s \<Rightarrow> ev \<Rightarrow> 's res) \<Rightarrow> char \<Rightarrow> json_parser \<Rightarrow> 's \<Rightarrow> 's jstep" where
  "jp_step vis c p s =
     (case jp_state p of
        JEatWhitespace \<Rightarrow>
          if MojIsSpace c then Inr (JNext, p, s)
          else if c = CHR ''/'' then Inr (JNext, jp_to JCommentStart p, s)
          else Inr (JRedo, jp_to (jp_saved p) p, s)
      | JStart \<Rightarrow> jp_start vis c p s
      | JFinish \<Rightarrow>
          if length (jp_stack p) - 1 = 0 then Inr (JDone, p, s)
          else Inr (JRedo, p\<lparr>jp_stack := tl (jp_stack p)\<rparr>, s)
      | JNull \<Rightarrow> jp_null vis c p s
      | JCommentStart \<Rightarrow>
          if c = CHR ''*'' then Inr (JNext, jp_to JComment p, s)
          else if c = CHR ''/'' then Inr (JNext, jp_to JCommentEol p, s)
          else Inl MojErrJsonParseComment
      | JComment \<Rightarrow> Inr (JNext, if c = CHR ''*'' then jp_to JCommentEnd p else p, s)
      | JCommentEol \<Rightarrow> Inr (JNext, if c = CHR 0x0A then jp_to JEatWhitespace p else p, s)
      | JCommentEnd \<Rightarrow>
          if c = CHR ''/'' then Inr (JNext, jp_to JEatWhitespace p, s)
          else Inr (JRedo, jp_to JComment p, s)
      | JString \<Rightarrow> jp_string vis c p s
      | JStringEscape \<Rightarrow> jp_escape c p s
      | JEscapeUnicode \<Rightarrow> jp_unicode c p s
      | JBool \<Rightarrow> jp_bool vis c p s
      | JNumber \<Rightarrow> jp_number vis c p s
      | JArray \<Rightarrow> jp_array vis c p s
      | JArraySep \<Rightarrow> jp_arraySep vis c p s
      | JObjFieldStart \<Rightarrow> jp_objFieldStart vis c p s
      | JObjField \<Rightarrow> jp_objField vis c p s
      | JObjFieldEnd \<Rightarrow> jp_objFieldEnd c p s
      | JObjValue \<Rightarrow> jp_objValue p s
      | JObjSep \<Rightarrow> jp_objSep vis c p s)"

text \<open>The \<^verbatim>\<open>goto Redo\<close>: not known to end, so \<open>None\<close> stands for not ending.\<close>

partial_function (option) jp_char ::
  "('s \<Rightarrow> ev \<Rightarrow> 's res) \<Rightarrow> char \<Rightarrow> json_parser \<Rightarrow> 's \<Rightarrow> 's jstep option" where
  "jp_char vis c p s =
     (case jp_step vis c p s of
        Inl e \<Rightarrow> Some (Inl e)
      | Inr r \<Rightarrow> (case r of (n, p', s') \<Rightarrow>
          (case n of
             JRedo \<Rightarrow> jp_char vis c p' s'
           | JNext \<Rightarrow> Some (Inr r)
           | JDone \<Rightarrow> Some (Inr r))))"

declare jp_char.simps [code]

text \<open>The loop over the characters; the result has the characters left, which \<^verbatim>\<open>parseEnd\<close> points at.\<close>

definition jp_newline :: "char \<Rightarrow> json_parser \<Rightarrow> json_parser" where
  "jp_newline c p = (if c = CHR 0x0A then p\<lparr>jp_line := jp_line p + 1, jp_col := 1\<rparr> else p)"

fun parseChunk ::
  "('s \<Rightarrow> ev \<Rightarrow> 's res) \<Rightarrow> json_parser \<Rightarrow> 's \<Rightarrow> string \<Rightarrow> (json_parser \<times> 's \<times> string) res option" where
  "parseChunk vis p s [] = Some (Inr (p, s, []))"
| "parseChunk vis p s (c # cs) =
     (case jp_char vis c (jp_newline c p) s of
        None \<Rightarrow> None
      | Some (Inl e) \<Rightarrow> Some (Inl e)
      | Some (Inr (n, p', s')) \<Rightarrow>
          (if n = JDone then Some (Inr (p', s', c # cs))
           else parseChunk vis (p'\<lparr>jp_col := jp_col p' + 1\<rparr>) s' cs))"

text \<open>\<^verbatim>\<open>end\<close> feeds a NUL; \<^verbatim>\<open>parse\<close> of a text with its length.\<close>

definition parse_end :: "('s \<Rightarrow> ev \<Rightarrow> 's res) \<Rightarrow> json_parser \<Rightarrow> 's \<Rightarrow> (json_parser \<times> 's) res option" where
  "parse_end vis p s = map_option (\<lambda>r. rbind r (\<lambda>(p', s', _). Inr (p', s'))) (parseChunk vis p s [NUL])"

definition parse_finish :: "('s \<Rightarrow> ev \<Rightarrow> 's res) \<Rightarrow> json_parser \<Rightarrow> 's \<Rightarrow> 's res option" where
  "parse_finish vis p s = map_option
     (\<lambda>r. rbind r (\<lambda>(p', s'). if \<not> jp_finished p' then Inl MojErrJsonParseEof else Inr s')) (parse_end vis p s)"

definition json_parse :: "('s \<Rightarrow> ev \<Rightarrow> 's res) \<Rightarrow> 's \<Rightarrow> string \<Rightarrow> 's res option" where
  "json_parse vis s chars =
     (case parseChunk vis jp_begin s chars of
        None \<Rightarrow> None
      | Some (Inl e) \<Rightarrow> Some (Inl e)
      | Some (Inr (p, s', _)) \<Rightarrow> parse_finish vis p s')"

text \<open>
  \<^verbatim>\<open>parse\<close> of a C string, without its length: the loop has no end but \<^verbatim>\<open>Done\<close>. The memory that is
  known to be there ends with the NUL, so a loop that gets past it reads past the end.
\<close>

definition json_parse_cstr :: "('s \<Rightarrow> ev \<Rightarrow> 's res) \<Rightarrow> 's \<Rightarrow> string \<Rightarrow> 's res option" where
  "json_parse_cstr vis s str =
     (case parseChunk vis jp_begin s (str @ [NUL]) of
        None \<Rightarrow> None
      | Some (Inl e) \<Rightarrow> Some (Inl e)
      | Some (Inr (p, s', rest)) \<Rightarrow> if rest = [] then Some (Inl MojReadPastEnd) else parse_finish vis p s')"

definition fromJson :: "string \<Rightarrow> obj res option" where
  "fromJson chars = map_option (\<lambda>r. rbind r (\<lambda>b. Inr (m_obj b))) (json_parse builder_ev builder_reset chars)"

definition fromJson_cstr :: "string \<Rightarrow> obj res option" where
  "fromJson_cstr str = map_option (\<lambda>r. rbind r (\<lambda>b. Inr (m_obj b))) (json_parse_cstr builder_ev builder_reset str)"

end
