(* ===== verification/JsonRound.thy ===== *)
theory JsonRound
  imports JsonParse
begin

text \<open>
  The JSON parser reads back what the JSON writer wrote. \<open>eats\<close> says that a stretch of text moves
  the parser from one state to another, whatever follows.
\<close>

section \<open>Steps\<close>

lemma jp_char_cases:
  "jp_step vis c p s = Inr (JNext, p', s') \<Longrightarrow> jp_char vis c p s = Some (Inr (JNext, p', s'))"
  "jp_step vis c p s = Inr (JDone, p', s') \<Longrightarrow> jp_char vis c p s = Some (Inr (JDone, p', s'))"
  "jp_step vis c p s = Inr (JRedo, p', s') \<Longrightarrow> jp_char vis c p s = jp_char vis c p' s'"
  "jp_step vis c p s = Inl e \<Longrightarrow> jp_char vis c p s = Some (Inl e)"
  by (subst jp_char.simps, simp)+

text \<open>The switch, state by state.\<close>

lemma jp_step_simps:
  "jp_stack p = (JEatWhitespace, sv) # st \<Longrightarrow> jp_step vis c p s =
     (if MojIsSpace c then Inr (JNext, p, s) else if c = CHR ''/'' then Inr (JNext, jp_to JCommentStart p, s)
      else Inr (JRedo, jp_to sv p, s))"
  "jp_stack p = (JStart, sv) # st \<Longrightarrow> jp_step vis c p s = jp_start vis c p s"
  "jp_stack p = (JFinish, sv) # st \<Longrightarrow> jp_step vis c p s =
     (if st = [] then Inr (JDone, p, s) else Inr (JRedo, p\<lparr>jp_stack := st\<rparr>, s))"
  "jp_stack p = (JNull, sv) # st \<Longrightarrow> jp_step vis c p s = jp_null vis c p s"
  "jp_stack p = (JString, sv) # st \<Longrightarrow> jp_step vis c p s = jp_string vis c p s"
  "jp_stack p = (JStringEscape, sv) # st \<Longrightarrow> jp_step vis c p s = jp_escape c p s"
  "jp_stack p = (JEscapeUnicode, sv) # st \<Longrightarrow> jp_step vis c p s = jp_unicode c p s"
  "jp_stack p = (JBool, sv) # st \<Longrightarrow> jp_step vis c p s = jp_bool vis c p s"
  "jp_stack p = (JNumber, sv) # st \<Longrightarrow> jp_step vis c p s = jp_number vis c p s"
  "jp_stack p = (JArray, sv) # st \<Longrightarrow> jp_step vis c p s = jp_array vis c p s"
  "jp_stack p = (JArraySep, sv) # st \<Longrightarrow> jp_step vis c p s = jp_arraySep vis c p s"
  "jp_stack p = (JObjFieldStart, sv) # st \<Longrightarrow> jp_step vis c p s = jp_objFieldStart vis c p s"
  "jp_stack p = (JObjField, sv) # st \<Longrightarrow> jp_step vis c p s = jp_objField vis c p s"
  "jp_stack p = (JObjFieldEnd, sv) # st \<Longrightarrow> jp_step vis c p s = jp_objFieldEnd c p s"
  "jp_stack p = (JObjValue, sv) # st \<Longrightarrow> jp_step vis c p s = jp_objValue p s"
  "jp_stack p = (JObjSep, sv) # st \<Longrightarrow> jp_step vis c p s = jp_objSep vis c p s"
  by (simp_all only: jp_step_def list.sel prod.sel jstate.case length_Cons diff_Suc_1 length_0_conv)

lemma jp_newline_stack [simp]: "jp_stack (jp_newline c p) = jp_stack p" "jp_chars (jp_newline c p) = jp_chars p"
  "jp_strPos (jp_newline c p) = jp_strPos p" "jp_matchStr (jp_newline c p) = jp_matchStr p"
  "jp_isDecimal (jp_newline c p) = jp_isDecimal p" "jp_ucsChar (jp_newline c p) = jp_ucsChar p"
  by (simp_all add: jp_newline_def)

lemma jp_newline_other [simp]: "c \<noteq> CHR 0x0A \<Longrightarrow> jp_newline c p = p"
  by (simp add: jp_newline_def)

lemma jp_to_save_simps [simp]:
  "jp_stack (jp_to st p) = (st, jp_saved p) # tl (jp_stack p)"
  "jp_stack (jp_save sv st p) = (st, sv) # tl (jp_stack p)"
  "jp_chars (jp_to st p) = jp_chars p" "jp_chars (jp_save sv st p) = jp_chars p"
  "jp_strPos (jp_to st p) = jp_strPos p" "jp_strPos (jp_save sv st p) = jp_strPos p"
  "jp_matchStr (jp_to st p) = jp_matchStr p" "jp_matchStr (jp_save sv st p) = jp_matchStr p"
  "jp_isDecimal (jp_to st p) = jp_isDecimal p" "jp_isDecimal (jp_save sv st p) = jp_isDecimal p"
  "jp_ucsChar (jp_to st p) = jp_ucsChar p" "jp_ucsChar (jp_save sv st p) = jp_ucsChar p"
  by (simp_all add: jp_to_def jp_save_def)

definition eats ::
  "('s \<Rightarrow> ev \<Rightarrow> 's res) \<Rightarrow> json_parser \<Rightarrow> 's \<Rightarrow> string \<Rightarrow> json_parser \<Rightarrow> 's \<Rightarrow> bool" where
  "eats vis p s cs p' s' \<longleftrightarrow> (\<forall>r. parseChunk vis p s (cs @ r) = parseChunk vis p' s' r)"

lemma eats_Nil [simp]: "eats vis p s [] p s"
  by (simp add: eats_def)

lemma eats_append: "eats vis p s cs p' s' \<Longrightarrow> eats vis p' s' ds p'' s'' \<Longrightarrow> eats vis p s (cs @ ds) p'' s''"
  by (simp add: eats_def)

lemma eats_next:
  "jp_char vis c (jp_newline c p) s = Some (Inr (JNext, p', s')) \<Longrightarrow>
   eats vis (p'\<lparr>jp_col := jp_col p' + 1\<rparr>) s' cs p'' s'' \<Longrightarrow> eats vis p s (c # cs) p'' s''"
  by (simp add: eats_def)

lemma eats_one:
  "jp_step vis c (jp_newline c p) s = Inr (JNext, p', s') \<Longrightarrow>
   eats vis p s [c] (p'\<lparr>jp_col := jp_col p' + 1\<rparr>) s'"
  by (rule eats_next [OF jp_char_cases(1)]) (assumption, rule eats_Nil)

lemma eats_redo:
  "c \<noteq> CHR 0x0A \<Longrightarrow> jp_char vis c p s = jp_char vis c q t \<Longrightarrow>
   eats vis q t (c # cs) p' s' \<Longrightarrow> eats vis p s (c # cs) p' s'"
  by (simp add: eats_def)

section \<open>Strings\<close>

lemma hex_low: "\<not> d < 10 \<Longrightarrow> d < 16 \<Longrightarrow> (55 + d) mod 8 + 9 = (d :: nat)"
  by presburger

lemma hex_upper_digit:
  "d < 16 \<Longrightarrow> MojIsHexDigit (hex_upper d) \<and> jp_hexDigit (hex_upper d) = d \<and> hex_upper d \<noteq> CHR 0x0A"
  using hex_low [of d] by (auto simp: hex_upper_def MojIsHexDigit_def jp_hexDigit_def isdigit_def take_bit_nat_eq_self
      simp flip: of_char_eq_iff [where 'a=nat])

definition in_string :: "json_parser \<Rightarrow> jstate \<Rightarrow> (jstate \<times> jstate) list \<Rightarrow> string \<Rightarrow> bool" where
  "in_string p st rest cs \<longleftrightarrow> (\<exists>sv. jp_stack p = (st, sv) # rest) \<and> jp_chars p = cs"

abbreviation string_state :: "jstate \<Rightarrow> bool" where
  "string_state st \<equiv> st = JString \<or> st = JObjField"

lemma eats_plain:
  assumes "string_state st" "in_string p st rest cs" "c \<noteq> CHR 0x22" "c \<noteq> CHR 0x5C"
  shows "\<exists>p'. eats vis p s [c] p' s \<and> in_string p' st rest (cs @ [c])"
proof (intro exI conjI)
  obtain sv where p: "jp_stack p = (st, sv) # rest" "jp_chars p = cs" using assms(2) by (auto simp: in_string_def)
  let ?p = "(jp_newline c p)\<lparr>jp_chars := cs @ [c]\<rparr>"
  have "jp_step vis c (jp_newline c p) s = Inr (JNext, ?p, s)"
    using assms p by (elim disjE) (simp_all add: jp_step_simps jp_string_def jp_objField_def)
  then show "eats vis p s [c] (?p\<lparr>jp_col := jp_col ?p + 1\<rparr>) s" by (rule eats_one)
  show "in_string (?p\<lparr>jp_col := jp_col ?p + 1\<rparr>) st rest (cs @ [c])" using p by (simp add: in_string_def)
qed

lemma eats_backslash:
  assumes "string_state st" "in_string p st rest cs"
  shows "\<exists>p'. eats vis p s [CHR 0x5C] p' s \<and> jp_stack p' = (JStringEscape, st) # rest \<and> jp_chars p' = cs"
proof (intro exI conjI)
  obtain sv where p: "jp_stack p = (st, sv) # rest" "jp_chars p = cs" using assms(2) by (auto simp: in_string_def)
  let ?p = "jp_save st JStringEscape p"
  have "jp_step vis (CHR 0x5C) (jp_newline (CHR 0x5C) p) s = Inr (JNext, ?p, s)"
    using assms p by (elim disjE) (simp_all add: jp_step_simps jp_string_def jp_objField_def)
  then show "eats vis p s [CHR 0x5C] (?p\<lparr>jp_col := jp_col ?p + 1\<rparr>) s" by (rule eats_one)
qed (use assms in \<open>auto simp: in_string_def\<close>)

text \<open>The characters that the writer's table escapes with a letter.\<close>

definition letter_escapes :: "(char \<times> char) list" where
  "letter_escapes = [(CHR 0x22, CHR 0x22), (CHR 0x5C, CHR 0x5C), (CHR ''b'', CHR 0x08),
      (CHR ''n'', CHR 0x0A), (CHR ''r'', CHR 0x0D), (CHR ''t'', CHR 0x09), (CHR ''f'', CHR 0x0C)]"

lemma eats_letter:
  assumes "jp_stack p = (JStringEscape, st) # rest" "jp_chars p = cs"
    and "(e, c) \<in> set letter_escapes"
  shows "\<exists>p'. eats vis p s [e] p' s \<and> in_string p' st rest (cs @ [c])"
proof (intro exI conjI)
  let ?p = "(jp_to st p)\<lparr>jp_chars := cs @ [c]\<rparr>"
  have e: "e \<noteq> CHR 0x0A" using assms(3) by (auto simp: letter_escapes_def)
  have "jp_escape e p s = Inr (JNext, ?p, s)"
    using assms(3) unfolding letter_escapes_def by (auto simp only: set_simps insert_iff prod.inject empty_iff)
      (simp_all add: jp_escape_def assms(1,2))
  then have "jp_step vis e (jp_newline e p) s = Inr (JNext, ?p, s)"
    by (simp only: jp_step_simps(6) [OF assms(1)] jp_newline_other [OF e(1)])
  then show "eats vis p s [e] (?p\<lparr>jp_col := jp_col ?p + 1\<rparr>) s" by (rule eats_one)
qed (use assms in \<open>simp add: in_string_def\<close>)

lemma jp_unicode_digit:
  "jp_strPos p < 3 \<Longrightarrow> MojIsHexDigit c \<Longrightarrow> jp_unicode c p s =
     Inr (JNext, p\<lparr>jp_ucsChar := jp_ucsChar p + push_bit ((3 - jp_strPos p) * 4) (of_nat (jp_hexDigit c)),
                  jp_strPos := jp_strPos p + 1\<rparr>, s)"
  apply (subst jp_unicode_def)
  apply (simp only: if_P Let_def)
  apply simp
  done

lemma of_char_pos: "c \<noteq> NUL \<Longrightarrow> (of_char c :: nat) \<noteq> 0"
proof
  assume "c \<noteq> NUL" "(of_char c :: nat) = 0"
  then have "(of_char c :: int) = 0" by (simp only: of_char_int_nat of_nat_0)
  then show False using \<open>c \<noteq> NUL\<close> by simp
qed

lemma jp_unicode_last:
  "jp_strPos p = 3 \<Longrightarrow> MojIsHexDigit c \<Longrightarrow> jp_ucsChar p + of_nat (jp_hexDigit c) = u \<Longrightarrow> u \<noteq> 0 \<Longrightarrow>
   jp_unicode c p s =
     Inr (JNext, (jp_to (jp_saved p) (p\<lparr>jp_ucsChar := u, jp_strPos := 4\<rparr>))\<lparr>jp_chars := jp_chars p @ jp_utf8 u\<rparr>, s)"
  apply (subst jp_unicode_def)
  apply (simp only: if_P Let_def)
  apply simp
  done

lemma eats_hex:
  assumes "jp_stack p = (JEscapeUnicode, st) # rest" "d < 16"
    and "jp_strPos p < 3"
  shows "\<exists>p'. eats vis p s [hex_upper d] p' s \<and> jp_stack p' = (JEscapeUnicode, st) # rest \<and>
    jp_chars p' = jp_chars p \<and> jp_strPos p' = jp_strPos p + 1 \<and>
    jp_ucsChar p' = jp_ucsChar p + push_bit ((3 - jp_strPos p) * 4) (of_nat d)"
proof (intro exI conjI)
  note h = hex_upper_digit [OF assms(2)]
  let ?p = "p\<lparr>jp_ucsChar := jp_ucsChar p + push_bit ((3 - jp_strPos p) * 4) (of_nat d), jp_strPos := jp_strPos p + 1\<rparr>"
  have "jp_step vis (hex_upper d) (jp_newline (hex_upper d) p) s = Inr (JNext, ?p, s)"
    using h by (simp add: jp_step_simps(7) [OF assms(1)] jp_unicode_digit [OF assms(3)])
  then show "eats vis p s [hex_upper d] (?p\<lparr>jp_col := jp_col ?p + 1\<rparr>) s" by (rule eats_one)
qed (use assms in simp_all)

lemma eats_hex_last:
  assumes "jp_stack p = (JEscapeUnicode, st) # rest" "d < 16" "jp_strPos p = 3" "jp_chars p = cs"
    and "jp_ucsChar p + of_nat d = of_nat (of_char c)" "c \<noteq> NUL" "of_char c < (128 :: nat)"
  shows "\<exists>p'. eats vis p s [hex_upper d] p' s \<and> in_string p' st rest (cs @ [c])"
proof (intro exI conjI)
  note h = hex_upper_digit [OF assms(2)]
  define u where "u = (of_nat (of_char c) :: u32)"
  have n: "unat u = of_char c" unfolding u_def using assms(7) by (subst unat_of_nat) simp
  have "(of_char c :: nat) \<noteq> 0" using assms(6) by (rule of_char_pos)
  then have "u \<noteq> 0" using n by (metis unat_0)
  moreover have "u < 0x80" using n assms(7) by (simp add: word_less_nat_alt)
  moreover have "char_of_byte (ucast u) = c"
    using n assms(7) by (simp add: char_of_byte_def unsigned_ucast_eq take_bit_nat_eq_self)
  ultimately have u: "u \<noteq> 0" "jp_utf8 u = [c]" by (simp_all add: jp_utf8_def)
  let ?p = "(jp_to st (p\<lparr>jp_ucsChar := u, jp_strPos := 4\<rparr>))\<lparr>jp_chars := cs @ [c]\<rparr>"
  have "jp_step vis (hex_upper d) (jp_newline (hex_upper d) p) s = Inr (JNext, ?p, s)"
    using assms(1,4) h u jp_unicode_last [of p "hex_upper d" u s] assms(3,5) [folded u_def]
    by (simp add: jp_step_simps(7) [OF assms(1)])
  then show "eats vis p s [hex_upper d] (?p\<lparr>jp_col := jp_col ?p + 1\<rparr>) s" by (rule eats_one)
qed (use assms in \<open>simp add: in_string_def\<close>)

text \<open>The three ways the writer's table treats a character.\<close>

definition char_written :: "char \<Rightarrow> bool" where
  "char_written c \<longleftrightarrow>
     (jw_char c = [c] \<and> c \<noteq> CHR 0x22 \<and> c \<noteq> CHR 0x5C) \<or>
     (\<exists>(e, d) \<in> set letter_escapes. d = c \<and> jw_char c = [CHR 0x5C, e]) \<or>
     (of_char c < (32 :: nat) \<and> jw_char c = fmt_u04X (of_char c))"

lemma escape_table:
  "list_all (\<lambda>n. let e = json_escape ! n in
     e = 0 \<and> n \<noteq> 34 \<and> n \<noteq> 92 \<or> e = 1 \<and> n < 32 \<or>
     e \<noteq> 1 \<and> e \<noteq> 0 \<and> (e, n) \<in> set [(34, 34), (92, 92), (98, 8), (110, 10), (114, 13), (116, 9), (102, 12)]) [0..<96]"
  by code_simp

lemma letter_escapes_map: "letter_escapes = map (map_prod char_of char_of)
    [(34 :: nat, 34 :: nat), (92, 92), (98, 8), (110, 10), (114, 13), (116, 9), (102, 12)]"
  by code_simp

lemma char_written: "char_written c"
proof -
  have len: "length json_escape = 96" by (simp add: json_escape_def)
  let ?n = "of_char c :: nat"
  have q: "?n = 34 \<longleftrightarrow> c = CHR 0x22" "?n = 92 \<longleftrightarrow> c = CHR 0x5C"
    using of_char_eq_iff [of c "CHR 0x22", where 'a=nat] of_char_eq_iff [of c "CHR 0x5C", where 'a=nat] by simp_all
  show ?thesis
  proof (cases "?n < 96")
    case True
    then have "?n \<in> set [0..<96]" by (simp only: set_upt atLeastLessThan_iff) simp
    from bspec [OF escape_table [unfolded list_all_iff] this]
    show ?thesis unfolding Let_def
    proof (elim disjE conjE, goal_cases)
      case 1
      then show ?thesis using q by (simp add: char_written_def jw_char_def)
    next
      case 2
      then show ?thesis using True by (simp add: char_written_def jw_char_def len)
    next
      case 3
      then have w: "jw_char c = [CHR 0x5C, char_of (json_escape ! ?n)]" using True by (simp add: jw_char_def len)
      have "(char_of (json_escape ! ?n), char_of ?n) \<in> set letter_escapes"
        using imageI [OF 3(3), of "map_prod char_of char_of"] unfolding letter_escapes_map set_map map_prod_simp .
      then have "(char_of (json_escape ! ?n), c) \<in> set letter_escapes" by (simp only: char_of_char)
      then show ?thesis
        unfolding char_written_def w
        by (intro disjI2 disjI1 bexI [where x = "(char_of (json_escape ! ?n), c)"])
          (simp_all only: prod.case refl simp_thms)
    qed
  next
    case False
    then have "jw_char c = [c]" by (simp add: jw_char_def len)
    then show ?thesis using False q by (simp add: char_written_def)
  qed
qed

lemma eats_u:
  assumes "jp_stack p = (JStringEscape, st) # rest"
  shows "\<exists>p'. eats vis p s [CHR ''u''] p' s \<and> jp_stack p' = (JEscapeUnicode, st) # rest \<and>
    jp_chars p' = jp_chars p \<and> jp_ucsChar p' = 0 \<and> jp_strPos p' = 0"
proof (intro exI conjI)
  let ?p = "(jp_to JEscapeUnicode p)\<lparr>jp_ucsChar := 0, jp_strPos := 0\<rparr>"
  have "jp_step vis (CHR ''u'') (jp_newline (CHR ''u'') p) s = Inr (JNext, ?p, s)"
    by (simp add: jp_step_simps(6) [OF assms] jp_escape_def)
  then show "eats vis p s [CHR ''u''] (?p\<lparr>jp_col := jp_col ?p + 1\<rparr>) s" by (rule eats_one)
qed (use assms in simp_all)

lemma fmt_u_small:
  assumes "n < 32"
  shows "fmt_u04X n = [CHR 0x5C, CHR ''u'', hex_upper 0, hex_upper 0, hex_upper (n div 16), hex_upper (n mod 16)]"
proof -
  have "n div 4096 = 0" "n div 256 = 0" "n div 16 mod 16 = n div 16" using assms by simp_all
  then show ?thesis by (simp add: fmt_u04X_def)
qed

lemma eats_fmt_u:
  assumes "string_state st" "in_string p st rest cs" "c \<noteq> NUL" "of_char c < (32 :: nat)"
  shows "\<exists>p'. eats vis p s (fmt_u04X (of_char c)) p' s \<and> in_string p' st rest (cs @ [c])"
proof -
  let ?n = "of_char c :: nat"
  have written: "fmt_u04X ?n = [CHR 0x5C] @ [CHR ''u''] @ [hex_upper 0] @ [hex_upper 0] @
      [hex_upper (?n div 16)] @ [hex_upper (?n mod 16)]"
    unfolding fmt_u_small [OF assms(4)] by (simp only: append.simps)
  obtain p1 where p1: "eats vis p s [CHR 0x5C] p1 s" "jp_stack p1 = (JStringEscape, st) # rest" "jp_chars p1 = cs"
    using eats_backslash [OF assms(1,2), of vis s] by (elim exE conjE) (rule that)
  obtain p2 where p2: "eats vis p1 s [CHR ''u''] p2 s" "jp_stack p2 = (JEscapeUnicode, st) # rest"
    "jp_chars p2 = cs" "jp_ucsChar p2 = 0" "jp_strPos p2 = 0"
    using eats_u [OF p1(2)] p1(3) by metis
  obtain p3 where p3: "eats vis p2 s [hex_upper 0] p3 s" "jp_stack p3 = (JEscapeUnicode, st) # rest"
    "jp_chars p3 = cs" "jp_ucsChar p3 = 0" "jp_strPos p3 = 1"
    using eats_hex [OF p2(2), of 0 vis s] p2(3-) by auto
  obtain p4 where p4: "eats vis p3 s [hex_upper 0] p4 s" "jp_stack p4 = (JEscapeUnicode, st) # rest"
    "jp_chars p4 = cs" "jp_ucsChar p4 = 0" "jp_strPos p4 = 2"
    using eats_hex [OF p3(2), of 0 vis s] p3(3-) by auto
  have h: "?n div 16 < 16" "?n mod 16 < 16" using assms(4) by auto
  obtain p5 where p5: "eats vis p4 s [hex_upper (?n div 16)] p5 s" "jp_stack p5 = (JEscapeUnicode, st) # rest"
    "jp_chars p5 = cs" "jp_ucsChar p5 = push_bit 4 (of_nat (?n div 16))" "jp_strPos p5 = 3"
    using eats_hex [OF p4(2) h(1), of vis s] p4(3-) by auto
  have "push_bit 4 (of_nat (?n div 16)) + (of_nat (?n mod 16) :: u32) = of_nat (?n div 16 * 16 + ?n mod 16)"
    unfolding of_nat_add of_nat_mult push_bit_eq_mult by simp
  also have "\<dots> = of_nat ?n" by (simp only: div_mult_mod_eq)
  finally have sum: "jp_ucsChar p5 + of_nat (?n mod 16) = of_nat ?n" by (simp only: p5(4))
  obtain p6 where p6: "eats vis p5 s [hex_upper (?n mod 16)] p6 s" "in_string p6 st rest (cs @ [c])"
    using eats_hex_last [OF p5(2) h(2) p5(5) p5(3) sum assms(3)] assms(4) by fastforce
  have "eats vis p s (fmt_u04X ?n) p6 s"
    unfolding written using p1(1) p2(1) p3(1) p4(1) p5(1) p6(1) by (blast intro: eats_append)
  then show ?thesis using p6(2) by blast
qed

lemma eats_char:
  assumes "string_state st" "in_string p st rest cs" "c \<noteq> NUL"
  shows "\<exists>p'. eats vis p s (jw_char c) p' s \<and> in_string p' st rest (cs @ [c])"
proof -
  show ?thesis using char_written [of c] unfolding char_written_def
  proof (elim disjE conjE bexE, goal_cases)
    case 1
    then show ?case using eats_plain [OF assms(1,2)] by simp
  next
    case (2 ed)
    obtain e where e: "(e, c) \<in> set letter_escapes" "jw_char c = [CHR 0x5C] @ [e]"
    proof -
      obtain e d where "ed = (e, d)" by (cases ed)
      then show ?thesis using 2 that [of e] by simp
    qed
    obtain p1 where p1: "eats vis p s [CHR 0x5C] p1 s" "jp_stack p1 = (JStringEscape, st) # rest" "jp_chars p1 = cs"
      using eats_backslash [OF assms(1,2), of vis s] by (elim exE conjE) (rule that)
    obtain p2 where "eats vis p1 s [e] p2 s" "in_string p2 st rest (cs @ [c])"
      using eats_letter [OF p1(2,3) e(1), of vis s] by blast
    then show ?case unfolding e(2) using eats_append [OF p1(1)] by blast
  next
    case 3
    then show ?case using eats_fmt_u [OF assms] by simp
  qed
qed

lemma eats_chars:
  "string_state st \<Longrightarrow> in_string p st rest cs \<Longrightarrow> nonul t \<Longrightarrow>
   \<exists>p'. eats vis p s (concat (map jw_char t)) p' s \<and> in_string p' st rest (cs @ t)"
proof (induction t arbitrary: p cs)
  case Nil
  then show ?case by (auto intro: eats_Nil)
next
  case (Cons c t)
  then obtain p1 where p1: "eats vis p s (jw_char c) p1 s" "in_string p1 st rest (cs @ [c])"
    using eats_char [OF Cons.prems(1,2), of c vis s] Cons.prems(3) by auto
  obtain p2 where "eats vis p1 s (concat (map jw_char t)) p2 s" "in_string p2 st rest ((cs @ [c]) @ t)"
    using Cons.IH [OF Cons.prems(1) p1(2)] Cons.prems(3) by (auto simp del: append_assoc)
  then show ?case using eats_append [OF p1(1)] by auto
qed

section \<open>The beginning and the end of a value\<close>

definition value_first :: "char \<Rightarrow> bool" where
  "value_first c \<longleftrightarrow> c \<in> set [CHR ''{'', CHR ''['', CHR 0x22, CHR ''t'', CHR ''f'', CHR ''n'', CHR ''-''] \<or> isdigit c"

definition delim :: "char \<Rightarrow> bool" where
  "delim c \<longleftrightarrow> c \<in> set [CHR '','', CHR '']'', CHR ''}'', NUL]"

lemma isdigit_range: "isdigit c \<longleftrightarrow> 48 \<le> (of_char c :: nat) \<and> (of_char c :: nat) \<le> 57"
  by (simp add: isdigit_def)

lemma value_first_not:
  "value_first c \<Longrightarrow> \<not> MojIsSpace c \<and> c \<noteq> CHR ''/'' \<and> c \<noteq> CHR '']'' \<and> c \<noteq> CHR ''}'' \<and> c \<noteq> CHR 0x0A \<and> c \<noteq> NUL"
  by (auto simp: value_first_def MojIsSpace_def isdigit_range)

lemma delim_not: "delim c \<Longrightarrow> \<not> MojIsSpace c \<and> c \<noteq> CHR ''/'' \<and> c \<noteq> CHR 0x0A"
  by (auto simp: delim_def MojIsSpace_def)

lemma delims [simp]: "delim (CHR '','')" "delim (CHR '']'')" "delim (CHR ''}'')" "delim NUL"
  by (simp_all add: delim_def)

lemma jp_char_EW:
  "jp_stack p = (JEatWhitespace, sv) # st \<Longrightarrow> \<not> MojIsSpace c \<Longrightarrow> c \<noteq> CHR ''/'' \<Longrightarrow>
   jp_char vis c p s = jp_char vis c (jp_to sv p) s"
  by (rule jp_char_cases(3)) (simp add: jp_step_simps(1))

text \<open>\<open>p\<close> in the visitor state \<open>s\<close> has a value behind it as soon as a delimiter comes.\<close>

definition ends_value ::
  "('s \<Rightarrow> ev \<Rightarrow> 's res) \<Rightarrow> json_parser \<Rightarrow> 's \<Rightarrow> (jstate \<times> jstate) list \<Rightarrow> 's \<Rightarrow> bool" where
  "ends_value vis p s st s' \<longleftrightarrow>
     (\<forall>c. delim c \<longrightarrow> (\<exists>q sv. jp_stack q = (JFinish, sv) # st \<and> jp_char vis c p s = jp_char vis c q s'))"

lemma ends_value_finish:
  "jp_stack p = (JEatWhitespace, JFinish) # st \<Longrightarrow> ends_value vis p s st s"
  unfolding ends_value_def by (intro allI impI exI [of _ "jp_to JFinish p"] exI) (auto dest: delim_not intro: jp_char_EW)

lemma ends_value_pop:
  assumes "ends_value vis p s (r # st) s'" "delim c"
  shows "\<exists>q. jp_stack q = r # st \<and> jp_char vis c p s = jp_char vis c q s'"
proof -
  obtain q sv where q: "jp_stack q = (JFinish, sv) # r # st" "jp_char vis c p s = jp_char vis c q s'"
    using assms unfolding ends_value_def by blast
  have "jp_char vis c q s' = jp_char vis c (q\<lparr>jp_stack := r # st\<rparr>) s'"
    by (rule jp_char_cases(3)) (simp add: jp_step_simps(3) [OF q(1)])
  then show ?thesis using q(2) by (intro exI [of _ "q\<lparr>jp_stack := r # st\<rparr>"]) simp
qed

definition reads ::
  "('s \<Rightarrow> ev \<Rightarrow> 's res) \<Rightarrow> json_parser \<Rightarrow> 's \<Rightarrow> string \<Rightarrow> (jstate \<times> jstate) list \<Rightarrow> 's \<Rightarrow> bool" where
  "reads vis p s cs st s' \<longleftrightarrow> (\<exists>p' t. eats vis p s cs p' t \<and> ends_value vis p' t st s')"

lemma reads_finish:
  "eats vis p s cs p' s' \<Longrightarrow> jp_stack p' = (JEatWhitespace, JFinish) # st \<Longrightarrow> reads vis p s cs st s'"
  unfolding reads_def by (intro exI conjI) (assumption, rule ends_value_finish)

text \<open>A step that consumes a character, after some that do not.\<close>

lemma eats_step:
  assumes "c \<noteq> CHR 0x0A" "jp_char vis c p s = jp_char vis c q t" "jp_step vis c q t = Inr (JNext, q', t')"
  shows "eats vis p s [c] (q'\<lparr>jp_col := jp_col q' + 1\<rparr>) t'"
proof -
  have "jp_char vis c (jp_newline c p) s = Some (Inr (JNext, q', t'))"
    using assms(1,2) jp_char_cases(1) [OF assms(3)] by simp
  then show ?thesis by (rule eats_next) (rule eats_Nil)
qed

lemma eats_EW:
  assumes "jp_stack p = (JEatWhitespace, sv) # st" "\<not> MojIsSpace c" "c \<noteq> CHR ''/''" "c \<noteq> CHR 0x0A"
    and "jp_step vis c (jp_to sv p) s = Inr (JNext, q', t')"
  shows "eats vis p s [c] (q'\<lparr>jp_col := jp_col q' + 1\<rparr>) t'"
  using assms(4) jp_char_EW [OF assms(1-3)] assms(5) by (rule eats_step)

section \<open>Literals and numbers\<close>

lemma eats_bool:
  assumes "jp_stack p = (JBool, sv) # st" "jp_matchStr p = m" "jp_strPos p = length m - length cs"
    and "m = pre @ cs" "cs \<noteq> []" "nonul m" "CHR 0x0A \<notin> set m" "vis s (BoolValue (m = MojJsonTrueString)) = Inr s'"
  shows "\<exists>p'. eats vis p s cs p' s' \<and> jp_stack p' = (JEatWhitespace, JFinish) # st"
  using assms
proof (induction cs arbitrary: p pre)
  case (Cons c cs)
  let ?p = "p\<lparr>jp_strPos := jp_strPos p + 1\<rparr>"
  have at: "cstr_at m (jp_strPos p) = c" using Cons.prems(3,4) by (simp add: cstr_at_def)
  have c: "c \<noteq> CHR 0x0A" using Cons.prems(4,7) by auto
  show ?case
  proof (cases cs)
    case Nil
    then have "cstr_at m (jp_strPos p + 1) = NUL" using Cons.prems(3,4) by (simp add: cstr_at_def)
    then have "jp_step vis c (jp_newline c p) s = Inr (JNext, jp_save JFinish JEatWhitespace ?p, s')"
      using c at Cons.prems by (simp add: jp_step_simps(8) [OF Cons.prems(1)] jp_bool_def)
    from eats_one [OF this] show ?thesis using Nil Cons.prems(1) by (intro exI conjI) auto
  next
    case (Cons d ds)
    have "cstr_at m (jp_strPos p + 1) = d" using Cons Cons.prems(3,4) by (simp add: cstr_at_def nth_append)
    moreover have "d \<noteq> NUL" using Cons Cons.prems(4,6) by simp
    ultimately have "jp_step vis c (jp_newline c p) s = Inr (JNext, ?p, s)"
      using c at Cons.prems by (simp add: jp_step_simps(8) [OF Cons.prems(1)] jp_bool_def)
    from eats_one [OF this] have e: "eats vis p s [c] (?p\<lparr>jp_col := jp_col ?p + 1\<rparr>) s" .
    obtain p' where "eats vis (?p\<lparr>jp_col := jp_col ?p + 1\<rparr>) s cs p' s'" "jp_stack p' = (JEatWhitespace, JFinish) # st"
      using Cons.IH [of "?p\<lparr>jp_col := jp_col ?p + 1\<rparr>" "pre @ [c]"] Cons Cons.prems by auto
    then show ?thesis using eats_append [OF e] by auto
  qed
qed simp

lemma eats_null:
  assumes "jp_stack p = (JNull, sv) # st" "jp_strPos p = 0" "vis s NullValue = Inr s'"
  shows "\<exists>p'. eats vis p s ''null'' p' s' \<and> jp_stack p' = (JEatWhitespace, JFinish) # st"
proof -
  have char_l: "CHR ''l'' \<noteq> CHR 0x0A" by simp
  let ?n = "\<lambda>i p. p\<lparr>jp_strPos := Suc i, jp_col := jp_col p + 1\<rparr>"
  have step: "eats vis q s [c] (?n i q) s"
    if "jp_stack q = (JNull, sv) # st" "jp_strPos q = i" "i < 3" "c = ''null'' ! i" for q i c
  proof -
    have "c \<noteq> CHR 0x0A" "cstr_at MojJsonNullString i = c" "cstr_at MojJsonNullString (Suc i) \<noteq> NUL"
      using that(3,4) by (auto simp: MojJsonNullString_def cstr_at_def numeral_3_eq_3 less_Suc_eq)
    then have "jp_step vis c (jp_newline c q) s = Inr (JNext, q\<lparr>jp_strPos := Suc i\<rparr>, s)"
      using that(2) by (simp add: jp_step_simps(4) [OF that(1)] jp_null_def)
    from eats_one [OF this] show ?thesis by simp
  qed
  let ?p1 = "?n 0 p" let ?p2 = "?n 1 ?p1" let ?p3 = "?n 2 ?p2"
  have p3: "jp_stack ?p3 = (JNull, sv) # st" using assms(1) by simp
  have "jp_step vis (CHR ''l'') (jp_newline (CHR ''l'') ?p3) s =
      Inr (JNext, jp_save JFinish JEatWhitespace (?p3\<lparr>jp_strPos := 4\<rparr>), s')"
    unfolding jp_newline_other [OF char_l] jp_step_simps(4) [OF p3]
    using assms(1,3) by (simp add: jp_null_def MojJsonNullString_def cstr_at_def)
  from eats_one [OF this] obtain p' where
    last: "eats vis ?p3 s ''l'' p' s'" "jp_stack p' = (JEatWhitespace, JFinish) # st"
    using assms(1) by (auto intro: that)
  have "eats vis p s (''n'' @ ''u'' @ ''l'' @ ''l'') p' s'"
    by (intro eats_append [OF step [of p 0]] eats_append [OF step [of ?p1 1]] eats_append [OF step [of ?p2 2]] last(1))
      (simp_all add: assms)
  then show ?thesis using last(2) by auto
qed

text \<open>The characters of a number, and those that make it a decimal.\<close>

definition num_char :: "char \<Rightarrow> bool" where
  "num_char c \<longleftrightarrow> isdigit c \<or> c = CHR ''.'' \<or> c = CHR ''-''"

lemma num_char_not: "num_char c \<Longrightarrow> c \<noteq> CHR 0x0A"
  by (auto simp: num_char_def isdigit_range)

lemma eats_number:
  "jp_stack p = (JNumber, sv) # st \<Longrightarrow> list_all num_char cs \<Longrightarrow>
   \<exists>p'. eats vis p s cs p' s \<and> jp_stack p' = (JNumber, sv) # st \<and> jp_chars p' = jp_chars p @ cs \<and>
     (jp_isDecimal p' \<longleftrightarrow> jp_isDecimal p \<or> CHR ''.'' \<in> set cs)"
proof (induction cs arbitrary: p)
  case (Cons c cs)
  have c: "num_char c" "c \<noteq> CHR 0x0A" using Cons.prems(2) num_char_not by auto
  define q where "q = p\<lparr>jp_isDecimal := (jp_isDecimal p \<or> c = CHR ''.''), jp_chars := jp_chars p @ [c]\<rparr>"
  have "jp_number vis c p s = Inr (JNext, q, s)"
  proof (cases "c = CHR ''.''")
    case False
    have "\<not> (c = CHR ''e'' \<or> c = CHR ''E'')" using c(1) by (auto simp: num_char_def isdigit_range)
    then show ?thesis using False c(1) by (auto simp: jp_number_def q_def num_char_def)
  qed (simp add: jp_number_def q_def)
  then have "jp_step vis c (jp_newline c p) s = Inr (JNext, q, s)"
    using c(2) by (simp add: jp_step_simps(9) [OF Cons.prems(1)])
  note e = eats_one [OF this]
  obtain p' where p': "eats vis (q\<lparr>jp_col := jp_col q + 1\<rparr>) s cs p' s" "jp_stack p' = (JNumber, sv) # st"
    "jp_chars p' = jp_chars q @ cs" "jp_isDecimal p' \<longleftrightarrow> jp_isDecimal q \<or> CHR ''.'' \<in> set cs"
    using Cons.IH [of "q\<lparr>jp_col := jp_col q + 1\<rparr>"] Cons.prems by (auto simp: q_def)
  then show ?case
    using eats_append [OF e p'(1)] by (intro exI [of _ p']) (auto simp: q_def)
qed (auto intro: eats_Nil)

lemma delim_number:
  "delim c \<Longrightarrow> \<not> isdigit c \<and> c \<noteq> CHR ''.'' \<and> c \<noteq> CHR ''e'' \<and> c \<noteq> CHR ''E'' \<and> c \<noteq> CHR ''+'' \<and> c \<noteq> CHR ''-''"
  by (auto simp: delim_def isdigit_range)

lemma ends_number:
  assumes "jp_stack p = (JNumber, sv) # st"
    and "\<And>c. delim c \<Longrightarrow> jp_number vis c p s = Inr (JRedo, jp_save JFinish JEatWhitespace p, s')"
  shows "ends_value vis p s st s'"
  unfolding ends_value_def
proof (intro allI impI)
  fix c assume d: "delim c"
  have "jp_char vis c p s = jp_char vis c (jp_save JFinish JEatWhitespace p) s'"
    by (rule jp_char_cases(3)) (simp add: jp_step_simps(9) [OF assms(1)] assms(2) [OF d])
  moreover have "jp_stack (jp_save JFinish JEatWhitespace p) = (JEatWhitespace, JFinish) # st"
    using assms(1) by simp
  ultimately show "\<exists>q sv. jp_stack q = (JFinish, sv) # st \<and> jp_char vis c p s = jp_char vis c q s'"
    using ends_value_finish d unfolding ends_value_def by metis
qed

lemma fmt_lld_num_chars: "list_all num_char (fmt_lld v)" "CHR ''.'' \<notin> set (fmt_lld v)"
  using fmt_lld_chars [of _ v] fmt_lld_chars [of "CHR ''.''" v] by (auto simp: list_all_iff num_char_def isdigit_range)

text \<open>From the first character of a number.\<close>

lemma start_number:
  assumes "jp_stack p = (JEatWhitespace, JStart) # st" "isdigit c \<or> c = CHR ''-''"
  shows "\<exists>q. jp_stack q = (JNumber, JStart) # st \<and> jp_chars q = [] \<and> \<not> jp_isDecimal q \<and>
    jp_char vis c p s = jp_char vis c q s"
proof (intro exI conjI)
  have v: "value_first c" using assms(2) by (auto simp: value_first_def)
  let ?q = "(jp_to JNumber (jp_to JStart p))\<lparr>jp_chars := [], jp_isDecimal := False\<rparr>"
  have ne: "c \<noteq> CHR ''{''" "c \<noteq> CHR ''[''" "c \<noteq> CHR ''n''" "c \<noteq> CHR 0x22" "c \<noteq> CHR ''t''" "c \<noteq> CHR ''f''"
    using assms(2) by (auto simp: isdigit_range)
  have "jp_char vis c p s = jp_char vis c (jp_to JStart p) s"
    using value_first_not [OF v] by (intro jp_char_EW [OF assms(1)]) auto
  also have "\<dots> = jp_char vis c ?q s"
    using assms ne by (intro jp_char_cases(3)) (simp add: jp_step_simps(2) [of "jp_to JStart p" JStart st] jp_start_def)
  finally show "jp_char vis c p s = jp_char vis c ?q s" .
qed (use assms in simp_all)

lemma reads_number:
  assumes "jp_stack p = (JEatWhitespace, JStart) # st" "list_all num_char (c # cs)" "isdigit c \<or> c = CHR ''-''"
    and "\<And>p d. delim d \<Longrightarrow> jp_chars p = c # cs \<Longrightarrow> (jp_isDecimal p \<longleftrightarrow> CHR ''.'' \<in> set (c # cs)) \<Longrightarrow>
        jp_number vis d p s = Inr (JRedo, jp_save JFinish JEatWhitespace p, s')"
  shows "reads vis p s (c # cs) st s'"
proof -
  obtain q where q: "jp_stack q = (JNumber, JStart) # st" "jp_chars q = []" "\<not> jp_isDecimal q"
    "jp_char vis c p s = jp_char vis c q s"
    using start_number [OF assms(1,3), of vis s] by (elim exE conjE) (rule that)
  obtain p' where p': "eats vis q s (c # cs) p' s" "jp_stack p' = (JNumber, JStart) # st" "jp_chars p' = c # cs"
    "jp_isDecimal p' \<longleftrightarrow> CHR ''.'' \<in> set (c # cs)"
    using eats_number [OF q(1) assms(2), of vis s] q(2,3) by auto
  have "eats vis p s (c # cs) p' s"
    using num_char_not [of c] assms(2) q(4) p'(1) by (intro eats_redo [of c vis p s q s]) auto
  moreover have "ends_value vis p' s st s'"
    by (rule ends_number [OF p'(2)]) (rule assms(4) [OF _ p'(3,4)])
  ultimately show ?thesis unfolding reads_def by blast
qed

lemma reads_int:
  assumes "jp_stack p = (JEatWhitespace, JStart) # st" "vis s (IntValue v) = Inr s'"
  shows "reads vis p s (fmt_lld v) st s'"
proof -
  obtain c cs where c: "fmt_lld v = c # cs" "isdigit c \<or> c = CHR ''-''" using fmt_lld_first by blast
  show ?thesis unfolding c(1)
  proof (rule reads_number [OF assms(1) _ c(2)])
    show "list_all num_char (c # cs)" using fmt_lld_num_chars(1) [of v] c(1) by simp
    fix q :: json_parser and d
    assume "delim d" "jp_chars q = c # cs" "jp_isDecimal q \<longleftrightarrow> CHR ''.'' \<in> set (c # cs)"
    then show "jp_number vis d q s = Inr (JRedo, jp_save JFinish JEatWhitespace q, s')"
      using delim_number [of d] fmt_lld_num_chars(2) [of v] strtoll_fmt_lld [of v] assms(2) c(1)
      by (simp add: jp_number_def)
  qed
qed

lemma dec_text_chars:
  assumes "rep \<noteq> word_of_int MojInt64Min"
  shows "\<exists>c cs. dec_text rep = c # cs \<and> (isdigit c \<or> c = CHR ''-'') \<and> list_all num_char (dec_text rep) \<and>
    CHR ''.'' \<in> set (dec_text rep)"
proof -
  obtain ms fs where s: "dec_stringValue rep MaxStringSize = Inr ((if sint rep < 0 then ''-'' else []) @ ms @ CHR ''.'' # fs)"
    and d: "digits_of ms" "digits_of fs" "ms \<noteq> []"
    using dec_stringValue_shape [OF assms order_refl] by metis
  then have "dec_text rep = (if sint rep < 0 then ''-'' else []) @ ms @ CHR ''.'' # fs" by (simp add: dec_text_def)
  then show ?thesis
    using d by (cases ms) (auto simp: digits_of_def list_all_iff num_char_def)
qed

lemma reads_decimal:
  assumes "jp_stack p = (JEatWhitespace, JStart) # st" "v \<noteq> word_of_int MojInt64Min" "vis s (DecimalValue v) = Inr s'"
  shows "reads vis p s (dec_text v) st s'"
proof -
  obtain c cs where c: "dec_text v = c # cs" "isdigit c \<or> c = CHR ''-''" "list_all num_char (dec_text v)"
    "CHR ''.'' \<in> set (dec_text v)"
    using dec_text_chars [OF assms(2)] by blast
  have p: "dec_parse (c # cs) = Inr v"
    using dec_parse_stringValue [OF assms(2) order_refl] by (simp add: dec_stringValue_total c(1))
  show ?thesis unfolding c(1)
  proof (rule reads_number [OF assms(1) _ c(2)])
    show "list_all num_char (c # cs)" using c by simp
    fix q :: json_parser and d
    assume "delim d" "jp_chars q = c # cs" "jp_isDecimal q \<longleftrightarrow> CHR ''.'' \<in> set (c # cs)"
    then show "jp_number vis d q s = Inr (JRedo, jp_save JFinish JEatWhitespace q, s')"
      using delim_number [of d] assms(3) c(1,4) p by (simp add: jp_number_def)
  qed
qed

section \<open>Strings and literals as values\<close>

lemma reads_string:
  assumes "jp_stack p = (JEatWhitespace, JStart) # st" "nonul t" "vis s (StringValue t) = Inr s'"
  shows "reads vis p s (json_string t) st s'"
proof -
  let ?q = "jp_to JString (jp_to JStart p)\<lparr>jp_chars := []\<rparr>"
  have "eats vis p s [CHR 0x22] (?q\<lparr>jp_col := jp_col ?q + 1\<rparr>) s"
    by (rule eats_EW [OF assms(1)])
      (simp_all add: assms(1) jp_step_simps(2) [of "jp_to JStart p" JStart st] jp_start_def MojIsSpace_def)
  moreover have "in_string (?q\<lparr>jp_col := jp_col ?q + 1\<rparr>) JString st []"
    using assms(1) by (simp add: in_string_def)
  ultimately obtain p1 where p1: "eats vis p s [CHR 0x22] p1 s" "in_string p1 JString st []" by blast
  obtain p2 where p2: "eats vis p1 s (concat (map jw_char t)) p2 s" "in_string p2 JString st t"
    using eats_chars [OF disjI1 [OF refl] p1(2) assms(2), of vis s] by auto
  obtain sv where sv: "jp_stack p2 = (JString, sv) # st" "jp_chars p2 = t" using p2(2) by (auto simp: in_string_def)
  let ?e = "jp_save JFinish JEatWhitespace p2"
  have "jp_step vis (CHR 0x22) (jp_newline (CHR 0x22) p2) s = Inr (JNext, ?e, s')"
    by (simp add: jp_step_simps(5) [OF sv(1)] jp_string_def sv(2) assms(3))
  from eats_append [OF p1(1) eats_append [OF p2(1) eats_one [OF this]]]
  show ?thesis using sv(1) by (intro reads_finish [of vis p s _ "?e\<lparr>jp_col := jp_col ?e + 1\<rparr>"]) (simp_all add: json_string_def)
qed

lemma reads_null:
  assumes "jp_stack p = (JEatWhitespace, JStart) # st" "vis s NullValue = Inr s'"
  shows "reads vis p s ''null'' st s'"
proof -
  let ?q = "jp_to JNull (jp_to JStart p)\<lparr>jp_strPos := 0\<rparr>"
  have n: "CHR ''n'' \<noteq> CHR 0x0A" "\<not> MojIsSpace (CHR ''n'')" "CHR ''n'' \<noteq> CHR ''/''"
    by (simp_all add: MojIsSpace_def)
  have st: "jp_stack (jp_to JStart p) = (JStart, JStart) # st" using assms(1) by simp
  have c: "jp_char vis (CHR ''n'') p s = jp_char vis (CHR ''n'') ?q s"
    unfolding jp_char_EW [OF assms(1) n(2,3)]
    by (rule jp_char_cases(3)) (simp add: jp_step_simps(2) [OF st] jp_start_def)
  obtain p' where p': "eats vis ?q s ''null'' p' s'" "jp_stack p' = (JEatWhitespace, JFinish) # st"
    using eats_null [of ?q JStart st vis s s'] assms by auto
  show ?thesis by (rule reads_finish [OF eats_redo [OF n(1) c p'(1)] p'(2)])
qed

lemma reads_bool:
  assumes "jp_stack p = (JEatWhitespace, JStart) # st" "vis s (BoolValue b) = Inr s'"
  shows "reads vis p s (if b then ''true'' else ''false'') st s'"
proof -
  let ?m = "if b then MojJsonTrueString else MojJsonFalseString"
  let ?c = "if b then CHR ''t'' else CHR ''f''"
  let ?q = "jp_to JBool (jp_to JStart p)\<lparr>jp_strPos := 0, jp_matchStr := ?m\<rparr>"
  have n: "?c \<noteq> CHR 0x0A" "\<not> MojIsSpace ?c" "?c \<noteq> CHR ''/''"
    by (simp_all add: MojIsSpace_def)
  have st: "jp_stack (jp_to JStart p) = (JStart, JStart) # st" using assms(1) by simp
  have c: "jp_char vis ?c p s = jp_char vis ?c ?q s"
    unfolding jp_char_EW [OF assms(1) n(2,3)]
    by (rule jp_char_cases(3)) (simp add: jp_step_simps(2) [OF st] jp_start_def)
  have m: "?m = ?c # tl ?m" "nonul ?m" "CHR 0x0A \<notin> set ?m" "(?m = MojJsonTrueString) = b" "?m \<noteq> []"
    by (simp_all add: MojJsonTrueString_def MojJsonFalseString_def)
  obtain p' where p': "eats vis ?q s ?m p' s'" "jp_stack p' = (JEatWhitespace, JFinish) # st"
    using eats_bool [of ?q JStart st ?m ?m "[]" vis s s'] assms m by auto
  have "eats vis p s ?m p' s'"
    using eats_redo [OF n(1) c, of "tl ?m" p' s'] p'(1) m(1) by simp
  from reads_finish [OF this p'(2)] show ?thesis
    by (simp add: MojJsonTrueString_def MojJsonFalseString_def split: if_splits)
qed

section \<open>Values\<close>

text \<open>The values whose text is read back: no NUL in a string, no decimal that has no text.\<close>

fun json_ok :: "obj \<Rightarrow> bool" where
  "json_ok (OObject ps) \<longleftrightarrow> (\<forall>p \<in> set ps. nonul (fst p) \<and> json_ok (snd p))"
| "json_ok (OArray xs) \<longleftrightarrow> (\<forall>x \<in> set xs. json_ok x)"
| "json_ok (OString s) \<longleftrightarrow> nonul s"
| "json_ok (ODecimal d) \<longleftrightarrow> d \<noteq> word_of_int MojInt64Min"
| "json_ok _ \<longleftrightarrow> True"

text \<open>The records the parser pushes for a value.\<close>

fun json_depth :: "obj \<Rightarrow> nat" where
  "json_depth (OObject ps) = foldr max (map (\<lambda>p. Suc (json_depth (snd p))) ps) 0"
| "json_depth (OArray xs) = foldr max (map (\<lambda>x. Suc (json_depth x)) xs) 0"
| "json_depth _ = 0"

lemma foldr_max_le: "x \<in> set xs \<Longrightarrow> f x \<le> foldr max (map f xs) (0 :: nat)"
  by (induction xs) auto

lemma json_depth_elem: "x \<in> set xs \<Longrightarrow> json_depth x < json_depth (OArray xs)"
  using foldr_max_le [of x xs "\<lambda>x. Suc (json_depth x)"] by simp

lemma json_depth_prop: "p \<in> set ps \<Longrightarrow> json_depth (snd p) < json_depth (OObject ps)"
  using foldr_max_le [of p ps "\<lambda>p. Suc (json_depth (snd p))"] by simp

lemma json_text_first:
  "json_ok v \<Longrightarrow> \<exists>c cs. json_text v = c # cs \<and> value_first c"
proof (cases v)
  case (ODecimal d)
  then show "json_ok v \<Longrightarrow> ?thesis" using dec_text_chars [of d] by (auto simp: value_first_def)
next
  case (OInt i)
  then show ?thesis using fmt_lld_first [of i] by (auto simp: value_first_def)
qed (auto simp: json_string_def value_first_def)

lemma jp_push_ok: "length (jp_stack p) \<le> 31 \<Longrightarrow>
   jp_push p = Inr (p\<lparr>jp_stack := (JEatWhitespace, JStart) # jp_stack p\<rparr>)"
  by (simp add: jp_push_def MaxDepth_def)

text \<open>The claim for one value, at a depth that leaves room for it.\<close>

definition reads_value :: "('s \<Rightarrow> ev \<Rightarrow> 's res) \<Rightarrow> (jstate \<times> jstate) list \<Rightarrow> obj \<Rightarrow> bool" where
  "reads_value vis st v \<longleftrightarrow> (\<forall>p s s'. jp_stack p = (JEatWhitespace, JStart) # st \<longrightarrow>
     run vis s (obj_visit v) = Inr s' \<longrightarrow> reads vis p s (json_text v) st s')"

lemma reads_valueD:
  "reads_value vis st v \<Longrightarrow> jp_stack p = (JEatWhitespace, JStart) # st \<Longrightarrow>
   run vis s (obj_visit v) = Inr s' \<Longrightarrow> reads vis p s (json_text v) st s'"
  by (simp add: reads_value_def)

lemma elem_start:
  assumes "jp_stack p = (JEatWhitespace, JArray) # st" "length st < 31" "value_first c"
  shows "\<exists>q. jp_stack q = (JEatWhitespace, JStart) # (JArraySep, JArray) # st \<and> jp_char vis c p s = jp_char vis c q s"
proof (intro exI conjI)
  note c = value_first_not [OF assms(3)]
  let ?p = "jp_to JArraySep (jp_to JArray p)"
  let ?q = "?p\<lparr>jp_stack := (JEatWhitespace, JStart) # jp_stack ?p\<rparr>"
  have st: "jp_stack (jp_to JArray p) = (JArray, JArray) # st" using assms(1) by simp
  have push: "jp_push ?p = Inr ?q" using assms(1,2) by (intro jp_push_ok) simp
  have "jp_char vis c p s = jp_char vis c (jp_to JArray p) s" using c by (intro jp_char_EW [OF assms(1)]) auto
  also have "\<dots> = jp_char vis c ?q s"
    using c push by (intro jp_char_cases(3)) (simp add: jp_step_simps(10) [OF st] jp_array_def)
  finally show "jp_char vis c p s = jp_char vis c ?q s" .
  show "jp_stack ?q = (JEatWhitespace, JStart) # (JArraySep, JArray) # st" using assms(1) by simp
qed

lemma eats_elems:
  assumes "\<And>x. x \<in> set xs \<Longrightarrow> reads_value vis ((JArraySep, JArray) # st) x \<and> json_ok x"
    and "jp_stack p = (JEatWhitespace, JArray) # st" "length st < 31" "xs \<noteq> []"
    and "run vis s (concat (map obj_visit xs)) = Inr t" "vis t EndArray = Inr s'"
  shows "\<exists>p'. eats vis p s (join_comma (map json_text xs) @ '']'') p' s' \<and> jp_stack p' = (JEatWhitespace, JFinish) # st"
  using assms
proof (induction xs arbitrary: p s)
  case (Cons x xs)
  obtain c cs where c: "json_text x = c # cs" "value_first c" using json_text_first [of x] Cons.prems(1) by auto
  obtain q where q: "jp_stack q = (JEatWhitespace, JStart) # (JArraySep, JArray) # st"
    "jp_char vis c p s = jp_char vis c q s"
    using elem_start [OF Cons.prems(2,3) c(2), of vis s] by (elim exE conjE) (rule that)
  obtain u where u: "run vis s (obj_visit x) = Inr u" "run vis u (concat (map obj_visit xs)) = Inr t"
    using Cons.prems(5) by (auto simp: run_append rbind_Inr_iff)
  have "reads_value vis ((JArraySep, JArray) # st) x" using Cons.prems(1) by simp
  from reads_valueD [OF this q(1) u(1)] obtain p1 t1 where
    p1: "eats vis q s (json_text x) p1 t1" "ends_value vis p1 t1 ((JArraySep, JArray) # st) u"
    unfolding reads_def by (elim exE conjE) (rule that)
  have e: "eats vis p s (json_text x) p1 t1"
    using p1(1) value_first_not [OF c(2)] q(2) unfolding c(1) by (intro eats_redo [of c vis p s q s]) auto
  have next': "\<exists>q. jp_stack q = (JArraySep, JArray) # st \<and> jp_char vis d p1 t1 = jp_char vis d q u" if "delim d" for d
    by (rule ends_value_pop [OF p1(2) that])
  show ?case
  proof (cases xs)
    case Nil
    obtain q' where q': "jp_stack q' = (JArraySep, JArray) # st" "jp_char vis (CHR '']'') p1 t1 = jp_char vis (CHR '']'') q' u"
      using next' [of "CHR '']''"] by auto
    have "jp_step vis (CHR '']'') q' u = Inr (JNext, jp_save JFinish JEatWhitespace q', s')"
      using Cons.prems(6) u(2) Nil by (simp add: jp_step_simps(11) [OF q'(1)] jp_arraySep_def)
    from eats_append [OF e eats_step [OF _ q'(2) this]] show ?thesis using Nil q'(1) by (intro exI conjI) auto
  next
    case (Cons y ys)
    obtain q' where q': "jp_stack q' = (JArraySep, JArray) # st" "jp_char vis (CHR '','') p1 t1 = jp_char vis (CHR '','') q' u"
      using next' [of "CHR '',''"] by auto
    have "jp_step vis (CHR '','') q' u = Inr (JNext, jp_save JArray JEatWhitespace q', u)"
      by (simp add: jp_step_simps(11) [OF q'(1)] jp_arraySep_def)
    note e' = eats_append [OF e eats_step [OF _ q'(2) this]]
    let ?r = "jp_save JArray JEatWhitespace q'\<lparr>jp_col := jp_col (jp_save JArray JEatWhitespace q') + 1\<rparr>"
    obtain p' where "eats vis ?r u (join_comma (map json_text xs) @ '']'') p' s'"
      "jp_stack p' = (JEatWhitespace, JFinish) # st"
      using Cons.IH [of ?r u] Cons.prems u(2) q'(1) \<open>xs = y # ys\<close> by auto
    then show ?thesis using eats_append [OF e'] Cons by (intro exI [of _ p']) auto
  qed
qed simp

lemma member_start:
  assumes "jp_stack p = (JEatWhitespace, JObjValue) # st" "length st < 31" "value_first c"
  shows "\<exists>q. jp_stack q = (JEatWhitespace, JStart) # (JEatWhitespace, JObjSep) # st \<and> jp_char vis c p s = jp_char vis c q s"
proof (intro exI conjI)
  note c = value_first_not [OF assms(3)]
  let ?p = "jp_save JObjSep JEatWhitespace (jp_to JObjValue p)"
  let ?q = "?p\<lparr>jp_stack := (JEatWhitespace, JStart) # jp_stack ?p\<rparr>"
  have st: "jp_stack (jp_to JObjValue p) = (JObjValue, JObjValue) # st" using assms(1) by simp
  have push: "jp_push ?p = Inr ?q" using assms(1,2) by (intro jp_push_ok) simp
  have "jp_char vis c p s = jp_char vis c (jp_to JObjValue p) s" using c by (intro jp_char_EW [OF assms(1)]) auto
  also have "\<dots> = jp_char vis c ?q s"
    using push by (intro jp_char_cases(3)) (simp add: jp_step_simps(15) [OF st] jp_objValue_def)
  finally show "jp_char vis c p s = jp_char vis c ?q s" .
  show "jp_stack ?q = (JEatWhitespace, JStart) # (JEatWhitespace, JObjSep) # st" using assms(1) by simp
qed

lemma eats_key:
  assumes "jp_stack p = (JEatWhitespace, JObjFieldStart) # st" "nonul k" "vis s (PropName k) = Inr s'"
  shows "\<exists>p'. eats vis p s (json_string k @ '':'') p' s' \<and> jp_stack p' = (JEatWhitespace, JObjValue) # st"
proof -
  let ?q = "jp_to JObjField (jp_to JObjFieldStart p)\<lparr>jp_chars := []\<rparr>"
  have st: "jp_stack (jp_to JObjFieldStart p) = (JObjFieldStart, JObjFieldStart) # st" using assms(1) by simp
  have "eats vis p s [CHR 0x22] (?q\<lparr>jp_col := jp_col ?q + 1\<rparr>) s"
    by (rule eats_EW [OF assms(1)]) (simp_all add: jp_step_simps(12) [OF st] jp_objFieldStart_def MojIsSpace_def)
  moreover have "in_string (?q\<lparr>jp_col := jp_col ?q + 1\<rparr>) JObjField st []"
    using assms(1) by (simp add: in_string_def)
  ultimately obtain p1 where p1: "eats vis p s [CHR 0x22] p1 s" "in_string p1 JObjField st []" by blast
  obtain p2 where p2: "eats vis p1 s (concat (map jw_char k)) p2 s" "in_string p2 JObjField st k"
    using eats_chars [OF disjI2 [OF refl] p1(2) assms(2), of vis s] by auto
  obtain sv where sv: "jp_stack p2 = (JObjField, sv) # st" "jp_chars p2 = k" using p2(2) by (auto simp: in_string_def)
  let ?e = "jp_save JObjFieldEnd JEatWhitespace p2"
  have "jp_step vis (CHR 0x22) (jp_newline (CHR 0x22) p2) s = Inr (JNext, ?e, s')"
    by (simp add: jp_step_simps(13) [OF sv(1)] jp_objField_def sv(2) assms(3))
  note e = eats_append [OF p1(1) eats_append [OF p2(1) eats_one [OF this]]]
  let ?f = "?e\<lparr>jp_col := jp_col ?e + 1\<rparr>"
  have f: "jp_stack ?f = (JEatWhitespace, JObjFieldEnd) # st" using sv(1) by simp
  have f': "jp_stack (jp_to JObjFieldEnd ?f) = (JObjFieldEnd, JObjFieldEnd) # st" using sv(1) by simp
  let ?g = "jp_save JObjValue JEatWhitespace (jp_to JObjFieldEnd ?f)"
  have "eats vis ?f s' [CHR '':''] (?g\<lparr>jp_col := jp_col ?g + 1\<rparr>) s'"
    by (rule eats_EW [OF f]) (simp_all add: jp_step_simps(14) [OF f'] jp_objFieldEnd_def MojIsSpace_def)
  from eats_append [OF e this] show ?thesis using sv(1) by (intro exI conjI) (auto simp: json_string_def)
qed

lemma eats_members:
  assumes "\<And>x. x \<in> set xs \<Longrightarrow> reads_value vis ((JEatWhitespace, JObjSep) # st) (snd x) \<and> json_ok (snd x) \<and> nonul (fst x)"
    and "jp_stack p = (JEatWhitespace, JObjFieldStart) # st" "length st < 31" "xs \<noteq> []"
    and "run vis s (concat (map (\<lambda>p. PropName (fst p) # obj_visit (snd p)) xs)) = Inr t" "vis t EndObject = Inr s'"
  shows "\<exists>p'. eats vis p s (join_comma (map (\<lambda>p. json_string (fst p) @ CHR '':'' # json_text (snd p)) xs) @ ''}'') p' s' \<and>
    jp_stack p' = (JEatWhitespace, JFinish) # st"
  using assms
proof (induction xs arbitrary: p s)
  case (Cons x xs)
  have x: "json_ok (snd x)" "nonul (fst x)" "reads_value vis ((JEatWhitespace, JObjSep) # st) (snd x)"
    using Cons.prems(1) by auto
  obtain s0 where s0: "vis s (PropName (fst x)) = Inr s0"
    "run vis s0 (obj_visit (snd x) @ concat (map (\<lambda>p. PropName (fst p) # obj_visit (snd p)) xs)) = Inr t"
    using Cons.prems(5) by (auto simp: rbind_Inr_iff)
  obtain u where u: "run vis s0 (obj_visit (snd x)) = Inr u"
    "run vis u (concat (map (\<lambda>p. PropName (fst p) # obj_visit (snd p)) xs)) = Inr t"
    using s0(2) by (auto simp: run_append rbind_Inr_iff)
  obtain p0 where p0: "eats vis p s (json_string (fst x) @ '':'') p0 s0" "jp_stack p0 = (JEatWhitespace, JObjValue) # st"
    using eats_key [of p st "fst x" vis s s0] Cons.prems(2) x(2) s0(1) by (elim meta_impE exE conjE) auto
  obtain c cs where c: "json_text (snd x) = c # cs" "value_first c" using json_text_first [OF x(1)] by auto
  obtain q where q: "jp_stack q = (JEatWhitespace, JStart) # (JEatWhitespace, JObjSep) # st"
    "jp_char vis c p0 s0 = jp_char vis c q s0"
    using member_start [OF p0(2) Cons.prems(3) c(2), of vis s0] by (elim exE conjE) (rule that)
  from reads_valueD [OF x(3) q(1) u(1)] obtain p1 t1 where
    p1: "eats vis q s0 (json_text (snd x)) p1 t1" "ends_value vis p1 t1 ((JEatWhitespace, JObjSep) # st) u"
    unfolding reads_def by (elim exE conjE) (rule that)
  have "eats vis p0 s0 (json_text (snd x)) p1 t1"
    using p1(1) value_first_not [OF c(2)] q(2) unfolding c(1) by (intro eats_redo [of c vis p0 s0 q s0]) auto
  note e = eats_append [OF p0(1) this]
  have sep: "\<exists>q. jp_stack q = (JObjSep, JObjSep) # st \<and> jp_char vis d p1 t1 = jp_char vis d q u" if d: "delim d" for d
  proof -
    obtain q where q: "jp_stack q = (JEatWhitespace, JObjSep) # st" "jp_char vis d p1 t1 = jp_char vis d q u"
      using ends_value_pop [OF p1(2) d] by blast
    have "jp_char vis d q u = jp_char vis d (jp_to JObjSep q) u"
      using delim_not [OF d] by (intro jp_char_EW [OF q(1)]) auto
    then show ?thesis using q by (intro exI [of _ "jp_to JObjSep q"]) simp
  qed
  show ?case
  proof (cases xs)
    case Nil
    obtain q' where q': "jp_stack q' = (JObjSep, JObjSep) # st" "jp_char vis (CHR ''}'') p1 t1 = jp_char vis (CHR ''}'') q' u"
      using sep [of "CHR ''}''"] by auto
    have "jp_step vis (CHR ''}'') q' u = Inr (JNext, jp_save JFinish JEatWhitespace q', s')"
      using Cons.prems(6) u(2) Nil by (simp add: jp_step_simps(16) [OF q'(1)] jp_objSep_def)
    from eats_append [OF e eats_step [OF _ q'(2) this]] show ?thesis using Nil q'(1) by (intro exI conjI) auto
  next
    case (Cons y ys)
    obtain q' where q': "jp_stack q' = (JObjSep, JObjSep) # st" "jp_char vis (CHR '','') p1 t1 = jp_char vis (CHR '','') q' u"
      using sep [of "CHR '',''"] by auto
    have "jp_step vis (CHR '','') q' u = Inr (JNext, jp_save JObjFieldStart JEatWhitespace q', u)"
      by (simp add: jp_step_simps(16) [OF q'(1)] jp_objSep_def)
    note e' = eats_append [OF e eats_step [OF _ q'(2) this]]
    let ?r = "jp_save JObjFieldStart JEatWhitespace q'\<lparr>jp_col := jp_col (jp_save JObjFieldStart JEatWhitespace q') + 1\<rparr>"
    obtain p' where "eats vis ?r u (join_comma (map (\<lambda>p. json_string (fst p) @ CHR '':'' # json_text (snd p)) xs) @ ''}'') p' s'"
      "jp_stack p' = (JEatWhitespace, JFinish) # st"
      using Cons.IH [of ?r u] Cons.prems u(2) q'(1) \<open>xs = y # ys\<close> by auto
    then show ?thesis using eats_append [OF e'] Cons by (intro exI [of _ p']) auto
  qed
qed simp

text \<open>The opening bracket of a container, and a container that is closed at once.\<close>

lemma eats_open:
  assumes "jp_stack p = (JEatWhitespace, JStart) # st"
  shows "vis s BeginArray = Inr s' \<Longrightarrow> \<exists>p'. eats vis p s ''['' p' s' \<and> jp_stack p' = (JEatWhitespace, JArray) # st"
    and "vis s BeginObject = Inr s' \<Longrightarrow> \<exists>p'. eats vis p s ''{'' p' s' \<and> jp_stack p' = (JEatWhitespace, JObjFieldStart) # st"
proof -
  have st: "jp_stack (jp_to JStart p) = (JStart, JStart) # st" using assms(1) by simp
  let ?a = "jp_save JArray JEatWhitespace (jp_to JStart p)"
  let ?o = "jp_save JObjFieldStart JEatWhitespace (jp_to JStart p)"
  show "vis s BeginArray = Inr s' \<Longrightarrow> \<exists>p'. eats vis p s ''['' p' s' \<and> jp_stack p' = (JEatWhitespace, JArray) # st"
    by (intro exI [of _ "?a\<lparr>jp_col := jp_col ?a + 1\<rparr>"] conjI eats_EW [OF assms(1)])
      (simp_all add: jp_step_simps(2) [OF st] jp_start_def MojIsSpace_def assms(1))
  show "vis s BeginObject = Inr s' \<Longrightarrow> \<exists>p'. eats vis p s ''{'' p' s' \<and> jp_stack p' = (JEatWhitespace, JObjFieldStart) # st"
    by (intro exI [of _ "?o\<lparr>jp_col := jp_col ?o + 1\<rparr>"] conjI eats_EW [OF assms(1)])
      (simp_all add: jp_step_simps(2) [OF st] jp_start_def MojIsSpace_def assms(1))
qed

lemma eats_close:
  "jp_stack p = (JEatWhitespace, JArray) # st \<Longrightarrow> vis s EndArray = Inr s' \<Longrightarrow>
   \<exists>p'. eats vis p s '']'' p' s' \<and> jp_stack p' = (JEatWhitespace, JFinish) # st"
  "jp_stack p = (JEatWhitespace, JObjFieldStart) # st \<Longrightarrow> vis s EndObject = Inr s' \<Longrightarrow>
   \<exists>p'. eats vis p s ''}'' p' s' \<and> jp_stack p' = (JEatWhitespace, JFinish) # st"
proof -
  assume p: "jp_stack p = (JEatWhitespace, JArray) # st" "vis s EndArray = Inr s'"
  have st: "jp_stack (jp_to JArray p) = (JArray, JArray) # st" using p(1) by simp
  let ?a = "jp_save JFinish JEatWhitespace (jp_to JArray p)"
  show "\<exists>p'. eats vis p s '']'' p' s' \<and> jp_stack p' = (JEatWhitespace, JFinish) # st"
    by (intro exI [of _ "?a\<lparr>jp_col := jp_col ?a + 1\<rparr>"] conjI eats_EW [OF p(1)])
      (simp_all add: jp_step_simps(10) [OF st] jp_array_def MojIsSpace_def p)
next
  assume p: "jp_stack p = (JEatWhitespace, JObjFieldStart) # st" "vis s EndObject = Inr s'"
  have st: "jp_stack (jp_to JObjFieldStart p) = (JObjFieldStart, JObjFieldStart) # st" using p(1) by simp
  let ?a = "jp_save JFinish JEatWhitespace (jp_to JObjFieldStart p)"
  show "\<exists>p'. eats vis p s ''}'' p' s' \<and> jp_stack p' = (JEatWhitespace, JFinish) # st"
    by (intro exI [of _ "?a\<lparr>jp_col := jp_col ?a + 1\<rparr>"] conjI eats_EW [OF p(1)])
      (simp_all add: jp_step_simps(12) [OF st] jp_objFieldStart_def MojIsSpace_def p)
qed

lemma reads_json:
  "json_ok v \<Longrightarrow> length st + json_depth v \<le> 31 \<Longrightarrow> reads_value vis st v"
proof (induction v arbitrary: st rule: measure_induct_rule [of size])
  case (less v)
  show ?case unfolding reads_value_def
  proof (intro allI impI)
    fix p :: json_parser and s s'
    assume p: "jp_stack p = (JEatWhitespace, JStart) # st" and r: "run vis s (obj_visit v) = Inr s'"
    show "reads vis p s (json_text v) st s'"
    proof (cases v)
      case (OObject ps)
      obtain s1 t where s1: "vis s BeginObject = Inr s1"
        "run vis s1 (concat (map (\<lambda>p. PropName (fst p) # obj_visit (snd p)) ps)) = Inr t" "vis t EndObject = Inr s'"
        using r OObject by (auto simp: run_append rbind_Inr_iff case_prod_unfold)
      obtain p1 where p1: "eats vis p s ''{'' p1 s1" "jp_stack p1 = (JEatWhitespace, JObjFieldStart) # st"
        using eats_open(2) [where vis=vis and s=s, OF p s1(1)] by (elim exE conjE) (rule that)
      have "\<exists>p'. eats vis p1 s1 (join_comma (map (\<lambda>p. json_string (fst p) @ CHR '':'' # json_text (snd p)) ps) @ ''}'') p' s' \<and>
          jp_stack p' = (JEatWhitespace, JFinish) # st"
      proof (cases "ps = []")
        case True
        then show ?thesis using eats_close(2) [where vis=vis and s=s1, OF p1(2)] s1 by simp
      next
        case False
        have ih: "reads_value vis ((JEatWhitespace, JObjSep) # st) (snd x) \<and> json_ok (snd x) \<and> nonul (fst x)"
          if "x \<in> set ps" for x
          using less.prems OObject that json_depth_prop [OF that] obj_size_prop [OF that]
          by (auto intro!: less.IH simp del: obj.size json_depth.simps)
        have "length st < 31" using False less.prems(2) OObject by (cases ps) auto
        then show ?thesis using eats_members [OF ih p1(2) _ False s1(2,3)] by blast
      qed
      then obtain p' where p': "eats vis p1 s1 (join_comma (map (\<lambda>p. json_string (fst p) @ CHR '':'' # json_text (snd p)) ps) @ ''}'') p' s'"
        "jp_stack p' = (JEatWhitespace, JFinish) # st" by blast
      show ?thesis
        using reads_finish [OF eats_append [OF p1(1) p'(1)] p'(2)] OObject by (simp add: case_prod_unfold)
    next
      case (OArray xs)
      obtain s1 t where s1: "vis s BeginArray = Inr s1" "run vis s1 (concat (map obj_visit xs)) = Inr t" "vis t EndArray = Inr s'"
        using r OArray by (auto simp: run_append rbind_Inr_iff)
      obtain p1 where p1: "eats vis p s ''['' p1 s1" "jp_stack p1 = (JEatWhitespace, JArray) # st"
        using eats_open(1) [where vis=vis and s=s, OF p s1(1)] by (elim exE conjE) (rule that)
      have "\<exists>p'. eats vis p1 s1 (join_comma (map json_text xs) @ '']'') p' s' \<and> jp_stack p' = (JEatWhitespace, JFinish) # st"
      proof (cases "xs = []")
        case True
        then show ?thesis using eats_close(1) [where vis=vis and s=s1, OF p1(2)] s1 by simp
      next
        case False
        have ih: "reads_value vis ((JArraySep, JArray) # st) x \<and> json_ok x" if "x \<in> set xs" for x
          using less.prems OArray that json_depth_elem [OF that] obj_size_elem [OF that]
          by (auto intro!: less.IH simp del: obj.size json_depth.simps)
        have "length st < 31" using False less.prems(2) OArray by (cases xs) auto
        then show ?thesis using eats_elems [OF ih p1(2) _ False s1(2,3)] by blast
      qed
      then obtain p' where p': "eats vis p1 s1 (join_comma (map json_text xs) @ '']'') p' s'"
        "jp_stack p' = (JEatWhitespace, JFinish) # st" by blast
      show ?thesis using reads_finish [OF eats_append [OF p1(1) p'(1)] p'(2)] OArray by simp
    next
      case (OBool b)
      then show ?thesis using reads_bool [OF p, of vis s b s'] r by simp
    qed (use r less.prems in \<open>auto intro: reads_null [OF p] reads_string [OF p] reads_int [OF p] reads_decimal [OF p]\<close>)
  qed
qed

section \<open>The round trip\<close>

lemma json_parse_reads:
  assumes "reads vis jp_begin s cs [] s'"
  shows "json_parse vis s cs = Some (Inr s')"
proof -
  obtain p t where p: "eats vis jp_begin s cs p t" "ends_value vis p t [] s'"
    using assms unfolding reads_def by blast
  obtain q sv where q: "jp_stack q = [(JFinish, sv)]" "jp_char vis NUL p t = jp_char vis NUL q s'"
    using p(2) unfolding ends_value_def by (metis delims(4))
  have "jp_char vis NUL q s' = Some (Inr (JDone, q, s'))"
    by (rule jp_char_cases(2)) (simp add: jp_step_simps(3) [OF q(1)])
  then have "parse_finish vis p t = Some (Inr s')"
    using q by (simp add: parse_finish_def parse_end_def jp_finished_def)
  moreover have "parseChunk vis jp_begin s cs = Some (Inr (p, t, []))"
    using p(1) [unfolded eats_def, rule_format, of "[]"] by simp
  ultimately show ?thesis by (simp add: json_parse_def)
qed

lemma json_parse_text:
  assumes "json_ok v" "json_depth v \<le> 31" "run vis s (obj_visit v) = Inr s'"
  shows "json_parse vis s (json_text v) = Some (Inr s')"
proof (rule json_parse_reads)
  have "reads_value vis [] v" using assms(1,2) by (intro reads_json) auto
  then show "reads vis jp_begin s (json_text v) [] s'"
    by (rule reads_valueD) (simp_all add: jp_begin_def assms(3))
qed

text \<open>
  C15. JSON read back: a well-formed value that nests at most 31 records deep and holds no decimal
  of the least representation is written by \<^verbatim>\<open>toJson\<close> as a text that \<^verbatim>\<open>fromJson\<close> parses to the same
  value, its undefined parts as null.
\<close>

theorem json_roundtrip:
  assumes "wf_obj v" "json_ok v" "json_depth v \<le> 31" "toJson v = Inr text"
  shows "fromJson text = Some (Inr (undef_to_null v))"
proof -
  have "text = json_text v" using assms(4) by (simp add: toJson_text)
  then show ?thesis
    using json_parse_text [OF assms(2,3) builder_run [OF assms(1)]] by (simp add: fromJson_def)
qed

theorem json_roundtrip_witness:
  "fromJson (json_text (OObject [(''a'', OArray [OInt (- 5), OString [CHR 0x0A, CHR 0x22], ODecimal 1500000])])) =
   Some (Inr (undef_to_null (OObject [(''a'', OArray [OInt (- 5), OString [CHR 0x0A, CHR 0x22], ODecimal 1500000])])))"
  by (rule json_roundtrip) (simp_all add: toJson_text MojInt64Min_def)

end
