(* ===== verification/JsonSafe.thy ===== *)
theory JsonSafe
  imports JsonRound
begin

text \<open>
  The JSON parser on arbitrary text: the jumps back to the switch end, so the parser does; and
  the events it calls keep the builder's assertions, so that what it builds is well-formed.
\<close>

section \<open>The stack's invariant\<close>

lemma jp_step_comment:
  "jp_stack p = (JCommentStart, sv) # st \<Longrightarrow> jp_step vis c p s =
     (if c = CHR ''*'' then Inr (JNext, jp_to JComment p, s)
      else if c = CHR ''/'' then Inr (JNext, jp_to JCommentEol p, s) else Inl MojErrJsonParseComment)"
  "jp_stack p = (JComment, sv) # st \<Longrightarrow> jp_step vis c p s =
     Inr (JNext, if c = CHR ''*'' then jp_to JCommentEnd p else p, s)"
  "jp_stack p = (JCommentEol, sv) # st \<Longrightarrow> jp_step vis c p s =
     Inr (JNext, if c = CHR 0x0A then jp_to JEatWhitespace p else p, s)"
  "jp_stack p = (JCommentEnd, sv) # st \<Longrightarrow> jp_step vis c p s =
     (if c = CHR ''/'' then Inr (JNext, jp_to JEatWhitespace p, s) else Inr (JRedo, jp_to JComment p, s))"
  by (simp_all only: jp_step_def list.sel prod.sel jstate.case)

text \<open>The states that whitespace and comments may come back to, and those of a waiting record.\<close>

definition resumes :: "jstate \<Rightarrow> bool" where
  "resumes sv \<longleftrightarrow> sv \<in> {JStart, JFinish, JArray, JObjFieldStart, JObjFieldEnd, JObjValue, JObjSep}"

fun rec_ok :: "jstate \<times> jstate \<Rightarrow> bool" where
  "rec_ok (st, sv) \<longleftrightarrow>
     (if st \<in> {JEatWhitespace, JCommentStart, JComment, JCommentEol, JCommentEnd} then resumes sv
      else st \<in> {JStringEscape, JEscapeUnicode} \<longrightarrow> sv = JString \<or> sv = JObjField)"

definition waiting :: "jstate \<times> jstate \<Rightarrow> bool" where
  "waiting r \<longleftrightarrow> r = (JEatWhitespace, JObjSep) \<or> fst r = JArraySep"

definition stack_ok :: "json_parser \<Rightarrow> bool" where
  "stack_ok p \<longleftrightarrow> jp_stack p \<noteq> [] \<and> rec_ok (hd (jp_stack p)) \<and> (\<forall>q \<in> set (tl (jp_stack p)). waiting q)"

text \<open>How many times the switch may still be entered for the character \<open>c\<close>.\<close>

fun state_rank :: "char \<Rightarrow> jstate \<Rightarrow> nat" where
  "state_rank c JStart = 1"
| "state_rank c JFinish = 3"
| "state_rank c JCommentEnd = 1"
| "state_rank c JNumber = (if isdigit c \<or> c = CHR ''-'' then 0 else 5)"
| "state_rank c JArray = 3"
| "state_rank c JObjValue = 3"
| "state_rank c st = 0"

fun rec_rank :: "char \<Rightarrow> jstate \<times> jstate \<Rightarrow> nat" where
  "rec_rank c (st, sv) = (if st = JEatWhitespace then 1 + state_rank c sv else state_rank c st)"

abbreviation top_rank :: "char \<Rightarrow> json_parser \<Rightarrow> nat" where
  "top_rank c p \<equiv> rec_rank c (hd (jp_stack p))"

definition step_ok :: "char \<Rightarrow> json_parser \<Rightarrow> 's jstep \<Rightarrow> bool" where
  "step_ok c p r \<longleftrightarrow> (\<forall>n p' s'. r = Inr (n, p', s') \<longrightarrow>
     stack_ok p' \<and> (n = JRedo \<longrightarrow> top_rank c p' < top_rank c p))"

lemma step_ok_simps [simp]:
  "step_ok c p (Inl e)"
  "step_ok c p (Inr (n, p', s')) \<longleftrightarrow> stack_ok p' \<and> (n = JRedo \<longrightarrow> top_rank c p' < top_rank c p)"
  "step_ok c p (jgo n p' r) \<longleftrightarrow> (\<forall>s'. r = Inr s' \<longrightarrow> stack_ok p' \<and> (n = JRedo \<longrightarrow> top_rank c p' < top_rank c p))"
  by (auto simp: step_ok_def rbind_Inr_iff)

lemma jp_push_stack_ok:
  "jp_stack p = r # rest \<Longrightarrow> waiting r \<Longrightarrow> \<forall>q \<in> set rest. waiting q \<Longrightarrow> jp_push p = Inr p' \<Longrightarrow>
   stack_ok p' \<and> jp_stack p' = (JEatWhitespace, JStart) # r # rest"
  by (auto simp: jp_push_def stack_ok_def resumes_def split: if_splits)

lemma waiting_rec_ok: "waiting r \<Longrightarrow> rec_ok r \<and> rec_rank c r < 3"
  by (cases r) (auto simp: waiting_def resumes_def)

lemma jp_step_ok:
  assumes "stack_ok p"
  shows "step_ok c p (jp_step vis c p s)"
proof -
  obtain st sv rest where p: "jp_stack p = (st, sv) # rest" "rec_ok (st, sv)" "\<forall>q \<in> set rest. waiting q"
    using assms by (cases "jp_stack p") (auto simp: stack_ok_def)
  show ?thesis
  proof (cases st)
    case JEatWhitespace
    then show ?thesis
      using p by (auto simp: jp_step_simps(1) [of p sv rest] stack_ok_def resumes_def)
  next
    case JStart
    then show ?thesis
      using p by (auto simp: jp_step_simps(2) [of p sv rest] jp_start_def stack_ok_def resumes_def)
  next
    case JFinish
    then show ?thesis
      using p waiting_rec_ok [of "hd rest" c]
      by (cases rest) (auto simp: jp_step_simps(3) [of p sv rest] stack_ok_def)
  next
    case JNull
    then show ?thesis
      using p by (auto simp: jp_step_simps(4) [of p sv rest] jp_null_def stack_ok_def resumes_def Let_def)
  next
    case JCommentStart
    then show ?thesis using p by (auto simp: jp_step_comment(1) [of p sv rest] stack_ok_def)
  next
    case JComment
    then show ?thesis using p by (auto simp: jp_step_comment(2) [of p sv rest] stack_ok_def)
  next
    case JCommentEol
    then show ?thesis using p by (auto simp: jp_step_comment(3) [of p sv rest] stack_ok_def)
  next
    case JCommentEnd
    then show ?thesis using p by (auto simp: jp_step_comment(4) [of p sv rest] stack_ok_def)
  next
    case JString
    then show ?thesis
      using p by (auto simp: jp_step_simps(5) [of p sv rest] jp_string_def stack_ok_def resumes_def)
  next
    case JStringEscape
    then show ?thesis
      using p by (auto simp: jp_step_simps(6) [of p sv rest] jp_escape_def stack_ok_def Let_def split: option.splits)
  next
    case JEscapeUnicode
    then have "jp_step vis c p s = jp_unicode c p s" using p(1) by (simp add: jp_step_simps(7) [of p sv rest])
    moreover have "step_ok c p (jp_unicode c p s)"
      using p JEscapeUnicode by (auto simp: jp_unicode_def stack_ok_def Let_def simp del: step_ok_simps(3))
    ultimately show ?thesis by simp
  next
    case JBool
    then show ?thesis
      using p by (auto simp: jp_step_simps(8) [of p sv rest] jp_bool_def stack_ok_def resumes_def Let_def)
  next
    case JNumber
    have "step_ok c p (jp_number vis c p s)"
      using p JNumber
      by (auto simp: jp_number_def stack_ok_def resumes_def step_ok_def rbind_Inr_iff Let_def split: if_splits prod.splits)
    then show ?thesis using p JNumber by (simp add: jp_step_simps(9) [of p sv rest])
  next
    case JArray
    have "stack_ok p' \<and> jp_stack p' = (JEatWhitespace, JStart) # (JArraySep, sv) # rest"
      if "jp_push (jp_to JArraySep p) = Inr p'" for p'
      using p JArray by (intro jp_push_stack_ok [OF _ _ _ that]) (simp_all add: waiting_def)
    then have "step_ok c p (jp_array vis c p s)"
      using p JArray
      by (auto simp: jp_array_def step_ok_def rbind_Inr_iff stack_ok_def resumes_def split: if_splits)
    then show ?thesis using p JArray by (simp add: jp_step_simps(10) [of p sv rest])
  next
    case JArraySep
    then show ?thesis
      using p by (auto simp: jp_step_simps(11) [of p sv rest] jp_arraySep_def stack_ok_def resumes_def)
  next
    case JObjFieldStart
    then show ?thesis
      using p by (auto simp: jp_step_simps(12) [of p sv rest] jp_objFieldStart_def stack_ok_def resumes_def)
  next
    case JObjField
    then show ?thesis
      using p by (auto simp: jp_step_simps(13) [of p sv rest] jp_objField_def stack_ok_def resumes_def)
  next
    case JObjFieldEnd
    then show ?thesis
      using p by (auto simp: jp_step_simps(14) [of p sv rest] jp_objFieldEnd_def stack_ok_def resumes_def)
  next
    case JObjValue
    have "stack_ok p' \<and> jp_stack p' = (JEatWhitespace, JStart) # (JEatWhitespace, JObjSep) # rest"
      if "jp_push (jp_save JObjSep JEatWhitespace p) = Inr p'" for p'
      using p JObjValue by (intro jp_push_stack_ok [OF _ _ _ that]) (simp_all add: waiting_def)
    then have "step_ok c p (jp_objValue p s)"
      using p JObjValue by (auto simp: jp_objValue_def step_ok_def rbind_Inr_iff)
    then show ?thesis using p JObjValue by (simp add: jp_step_simps(15) [of p sv rest])
  next
    case JObjSep
    then show ?thesis
      using p by (auto simp: jp_step_simps(16) [of p sv rest] jp_objSep_def stack_ok_def resumes_def)
  qed
qed

section \<open>The parser ends\<close>

text \<open>
  An invariant of the text read so far, the parser and the visitor that every pass of the switch keeps
  is kept by the jumps and by the loop, which end; an error is one that a pass gives.
\<close>

type_synonym 's jinv = "string \<Rightarrow> json_parser \<Rightarrow> 's \<Rightarrow> bool"

definition step_keeps ::
  "('s \<Rightarrow> ev \<Rightarrow> 's res) \<Rightarrow> string \<Rightarrow> char \<Rightarrow> 's jinv \<Rightarrow> (MojErr \<Rightarrow> bool) \<Rightarrow> bool" where
  "step_keeps vis pre c I E \<longleftrightarrow> (\<forall>p s. stack_ok p \<longrightarrow> I pre p s \<longrightarrow>
     (case jp_step vis c p s of Inl e \<Rightarrow> E e | Inr (n, p', s') \<Rightarrow> I (if n = JNext then pre @ [c] else pre) p' s'))"

lemma jp_char_keeps:
  assumes "step_keeps vis pre c I E"
  shows "stack_ok p \<Longrightarrow> I pre p s \<Longrightarrow>
    \<exists>r. jp_char vis c p s = Some r \<and> (case r of Inl e \<Rightarrow> E e
      | Inr (n, p', s') \<Rightarrow> stack_ok p' \<and> n \<noteq> JRedo \<and> I (if n = JNext then pre @ [c] else pre) p' s')"
proof (induction "top_rank c p" arbitrary: p s rule: less_induct)
  case less
  note ok = jp_step_ok [OF less.prems(1), of c vis s]
  note keep = assms [unfolded step_keeps_def, rule_format, OF less.prems]
  show ?case
  proof (cases "jp_step vis c p s")
    case (Inl e)
    then show ?thesis using keep by (simp add: jp_char_cases(4))
  next
    case (Inr r)
    obtain n p' s' where r: "jp_step vis c p s = Inr (n, p', s')" using Inr by (cases r) auto
    have ok': "stack_ok p'" "I (if n = JNext then pre @ [c] else pre) p' s'"
      "n = JRedo \<Longrightarrow> top_rank c p' < top_rank c p"
      using ok keep by (simp_all add: r)
    show ?thesis
    proof (cases n)
      case JRedo
      then show ?thesis
        using less.hyps [OF ok'(3) [OF JRedo] ok'(1)] ok'(2) r by (simp add: jp_char_cases(3))
    qed (use r ok' in \<open>simp_all add: jp_char_cases(1,2)\<close>)
  qed
qed

lemma stack_ok_same:
  "stack_ok (jp_newline c p) = stack_ok p" "stack_ok (p\<lparr>jp_col := x\<rparr>) = stack_ok p"
  by (simp_all add: stack_ok_def)

lemma parseChunk_keeps:
  assumes "\<And>u c. \<exists>rest. cs = u @ c # rest \<Longrightarrow> step_keeps vis (pre @ u) c I E"
    and pos: "\<And>pre p s c x. I pre p s \<Longrightarrow> I pre (jp_newline c p) s \<and> I pre (p\<lparr>jp_col := x\<rparr>) s"
  shows "stack_ok p \<Longrightarrow> I pre p s \<Longrightarrow>
    \<exists>r. parseChunk vis p s cs = Some r \<and> (case r of Inl e \<Rightarrow> E e
      | Inr (p', s', _) \<Rightarrow> stack_ok p' \<and> (\<exists>pre' rest. pre @ cs = pre' @ rest \<and> I pre' p' s'))"
  using assms(1)
proof (induction cs arbitrary: p s pre)
  case (Cons c cs)
  have c: "step_keeps vis pre c I E" using Cons.prems(3) [of "[]" c] by simp
  have n: "stack_ok (jp_newline c p)" "I pre (jp_newline c p) s" using Cons.prems pos by (simp_all add: stack_ok_same)
  from jp_char_keeps [OF c n] obtain r where r: "jp_char vis c (jp_newline c p) s = Some r"
    "case r of Inl e \<Rightarrow> E e
     | Inr (n, p', s') \<Rightarrow> stack_ok p' \<and> n \<noteq> JRedo \<and> I (if n = JNext then pre @ [c] else pre) p' s'" by blast
  show ?case
  proof (cases r)
    case (Inr q)
    obtain m p' s' where q: "q = (m, p', s')" by (cases q)
    then have p': "stack_ok p'" "m \<noteq> JRedo" "I (if m = JNext then pre @ [c] else pre) p' s'"
      using r Inr by simp_all
    show ?thesis
    proof (cases m)
      case JNext
      have ok: "stack_ok (p'\<lparr>jp_col := jp_col p' + 1\<rparr>)" "I (pre @ [c]) (p'\<lparr>jp_col := jp_col p' + 1\<rparr>) s'"
        using p' pos JNext by (simp_all add: stack_ok_same)
      have k: "step_keeps vis ((pre @ [c]) @ u) d I E" if "\<exists>rest. cs = u @ d # rest" for u d
        using Cons.prems(3) [of "c # u" d] that by simp
      note IH = Cons.IH [OF ok k, unfolded append_assoc append_Cons append_Nil]
      then show ?thesis using r(1) Inr q JNext by (simp only: parseChunk.simps option.case sum.case prod.case jnext.distinct if_False)
    next
      case JDone
      then show ?thesis using r(1) Inr q p' by auto
    qed (use p' in simp)
  qed (use r in simp)
qed auto

lemma jp_begin_ok: "stack_ok jp_begin"
  by (simp add: jp_begin_def stack_ok_def resumes_def)

text \<open>
  C28. The parser always ends: on any text, with any visitor, the jumps back to the switch stop and
  \<^verbatim>\<open>parse\<close> returns a result or an error.
\<close>

theorem json_parse_terminates: "\<exists>r. json_parse vis s chars = Some r"
proof -
  have k: "step_keeps vis pre c (\<lambda>_ _ _. True) (\<lambda>_. True)" for pre c
    by (auto simp: step_keeps_def split: sum.splits)
  have ends: "\<exists>r. parseChunk vis p s cs = Some r \<and> (case r of Inl e \<Rightarrow> True | Inr (p', s', _) \<Rightarrow> stack_ok p')"
    if "stack_ok p" for p s cs
    using parseChunk_keeps [where I = "\<lambda>_ _ _. True" and E = "\<lambda>_. True" and pre = "[]" and cs = cs and s = s, OF k _ that]
    by (fastforce split: sum.splits)
  obtain r where r: "parseChunk vis jp_begin s chars = Some r"
    "case r of Inl e \<Rightarrow> True | Inr (p', s', _) \<Rightarrow> stack_ok p'"
    using ends [OF jp_begin_ok] by blast
  show ?thesis
  proof (cases r)
    case (Inr q)
    obtain p' s' rest where q: "q = (p', s', rest)" by (cases q)
    have "stack_ok p'" using r(2) Inr q by simp
    then obtain r' where "parseChunk vis p' s' [NUL] = Some r'" using ends by blast
    then show ?thesis using r(1) Inr q by (simp add: json_parse_def parse_finish_def parse_end_def)
  qed (use r in \<open>simp add: json_parse_def\<close>)
qed

section \<open>The builder is safe\<close>

fun state_open :: "jstate \<Rightarrow> MojType list" where
  "state_open JArray = [TypeArray]"
| "state_open JArraySep = [TypeArray]"
| "state_open JObjFieldStart = [TypeObject]"
| "state_open JObjField = [TypeObject]"
| "state_open JObjFieldEnd = [TypeObject]"
| "state_open JObjValue = [TypeObject]"
| "state_open JObjSep = [TypeObject]"
| "state_open _ = []"

text \<open>The containers that the records of the stack have open.\<close>

fun rec_open :: "jstate \<times> jstate \<Rightarrow> MojType list" where
  "rec_open (st, sv) =
     (if st \<in> {JEatWhitespace, JCommentStart, JComment, JCommentEol, JCommentEnd, JStringEscape, JEscapeUnicode}
      then state_open sv else state_open st)"

definition in_step :: "json_parser \<Rightarrow> builder \<Rightarrow> bool" where
  "in_step p b \<longleftrightarrow> bwf b \<and> btypes b = concat (map rec_open (jp_stack p))"

text \<open>No digit of a number meets the assertion of \<^verbatim>\<open>pushDigit\<close>.\<close>

lemma realignValue_exp: "valueExp (realignValue p) \<le> 0"
  by (simp add: realignValue_def)

lemma lex_step_no_assert: "lex_step sp c \<noteq> Inl MojAssertFailed"
proof (cases sp)
  case (Pair st p)
  have "pushDigit x (realignValue p) \<noteq> Inl MojAssertFailed"
    "pushDigit x (realignValue p\<lparr>valueExp := valueExp (realignValue p) - 1\<rparr>) \<noteq> Inl MojAssertFailed" for x
    using realignValue_exp [of p] by (simp_all add: pushDigit_def)
  then have d: "p_digit x p \<noteq> Inl MojAssertFailed" "p_fractionDigit x p \<noteq> Inl MojAssertFailed"
    "p_exponentDigit x p \<noteq> Inl MojAssertFailed" for x
    by (simp_all add: p_digit_def p_fractionDigit_def p_exponentDigit_def Let_def)
  have n: "rbind x (\<lambda>y. Inr (f y)) = Inl e \<longleftrightarrow> x = Inl e" for x :: "parser res" and f :: "parser \<Rightarrow> lex_state \<times> parser" and e
    by (cases x) simp_all
  show ?thesis
    unfolding Pair by (cases st) (simp_all add: lex_magnitude_def lex_exponent_def n d p_negative_def p_negativeExponent_def)
qed

lemma run_no_assert: "(\<And>s e. f s e \<noteq> Inl err) \<Longrightarrow> run f s es \<noteq> Inl err"
proof (induction es arbitrary: s)
  case (Cons e es)
  then show ?case by (cases "f s e") auto
qed simp

lemma dec_parse_no_assert: "dec_parse str \<noteq> Inl MojAssertFailed"
proof -
  have "run lex_step (StateNumber, parser_reset) str \<noteq> Inl MojAssertFailed"
    by (rule run_no_assert) (rule lex_step_no_assert)
  then have "Lexer_parse parser_reset str \<noteq> Inl MojAssertFailed"
    by (cases "run lex_step (StateNumber, parser_reset) str") (auto simp: Lexer_parse_def p_end_def split: if_splits)
  moreover have "toDecimal p \<noteq> Inl MojAssertFailed" for p
    by (simp add: toDecimal_def Let_def)
  ultimately show ?thesis
    by (cases "Lexer_parse parser_reset str") (auto simp: dec_parse_def)
qed

definition safe :: "builder jstep \<Rightarrow> bool" where
  "safe r \<longleftrightarrow> (case r of Inl e \<Rightarrow> e \<noteq> MojAssertFailed \<and> e \<noteq> MojDivByZero | Inr (n, p', b') \<Rightarrow> in_step p' b')"

lemma safe_simps [simp]:
  "safe (Inl e) \<longleftrightarrow> e \<noteq> MojAssertFailed \<and> e \<noteq> MojDivByZero"
  "safe (Inr (n, p', b')) \<longleftrightarrow> in_step p' b'"
  by (simp_all add: safe_def)

abbreviation opens :: "json_parser \<Rightarrow> MojType list" where
  "opens p \<equiv> concat (map rec_open (jp_stack p))"

lemma in_step_same: "in_step p b \<Longrightarrow> opens p' = opens p \<Longrightarrow> in_step p' b"
  by (simp add: in_step_def)

lemma safe_value:
  "in_step p b \<Longrightarrow> wf_obj val \<Longrightarrow> opens p' = opens p \<Longrightarrow> safe (jgo n p' (builder_value val b))"
  using builder_value_ok [of b val] by (auto simp: in_step_def)

lemma safe_push:
  "in_step p b \<Longrightarrow> t \<in> {TypeObject, TypeArray} \<Longrightarrow> opens p' = t # opens p \<Longrightarrow> safe (jgo n p' (builder_push t b))"
  using builder_push_ok [of b t] by (auto simp: in_step_def)

lemma safe_pop:
  "in_step p b \<Longrightarrow> opens p = t # opens p' \<Longrightarrow> safe (jgo n p' (builder_pop b))"
  using builder_pop_ok [of b t "opens p'"] by (auto simp: in_step_def)

lemma safe_name:
  "in_step p b \<Longrightarrow> nonul k \<Longrightarrow> opens p' = opens p \<Longrightarrow> safe (jgo n p' (builder_ev b (PropName k)))"
  using builder_propName_ok [of b k] by (auto simp: in_step_def)

lemma safe_jp_push:
  assumes "in_step p b" "opens p' = opens p"
  shows "safe (rbind (jp_push p') (\<lambda>q. Inr (n, q, b)))"
  using assms by (auto simp: jp_push_def in_step_def)

text \<open>
  One pass of the switch keeps the builder in step and safe, unless it ends a number that the decimal
  parser divides by zero for.
\<close>

lemma jp_number_safe:
  assumes "jp_stack p = (JNumber, sv) # rest" "in_step p b"
  shows "safe (jp_number builder_ev c p b) \<or>
    jp_number builder_ev c p b = Inl MojDivByZero \<and> dec_parse (jp_chars p) = Inl MojDivByZero"
proof -
  note same = in_step_same [OF assms(2)] and vals = safe_value [OF assms(2)]
  have o: "opens (jp_save JFinish JEatWhitespace p) = opens p" using assms(1) by simp
  have i: "safe (rbind (builder_ev b (IntValue i)) (\<lambda>s'. if q then Inl MojErrJsonParseInt
      else Inr (JRedo, jp_save JFinish JEatWhitespace p, s')))" for i q
    using vals [OF _ o, of "OInt i" JRedo] by (cases "builder_value (OInt i) b") auto
  have d: "safe (rbind (dec_parse (jp_chars p)) (\<lambda>d. jgo JRedo (jp_save JFinish JEatWhitespace p) (builder_ev b (DecimalValue d))))"
    if "dec_parse (jp_chars p) \<noteq> Inl MojDivByZero"
    using dec_parse_no_assert [of "jp_chars p"] that vals [OF _ o] by (cases "dec_parse (jp_chars p)") auto
  show ?thesis
  proof (cases "dec_parse (jp_chars p) = Inl MojDivByZero")
    case False
    then have "safe (jp_number builder_ev c p b)"
      unfolding jp_number_def Let_def using assms(1)
      by (auto simp del: builder_ev.simps intro!: same d i split: prod.splits)
    then show ?thesis ..
  next
    case True
    then show ?thesis
      unfolding jp_number_def Let_def using assms(1)
      by (auto simp del: builder_ev.simps intro!: same i split: prod.splits)
  qed
qed

lemma jp_step_safe:
  assumes "stack_ok p" "in_step p b" "c = CHR 0x22 \<Longrightarrow> nonul (jp_chars p)"
  shows "safe (jp_step builder_ev c p b) \<or> jp_step builder_ev c p b = Inl MojDivByZero \<and>
    jp_state p = JNumber \<and> dec_parse (jp_chars p) = Inl MojDivByZero"
proof -
  obtain st sv rest where p: "jp_stack p = (st, sv) # rest" "rec_ok (st, sv)"
    using assms(1) by (cases "jp_stack p") (auto simp: stack_ok_def)
  note same = in_step_same [OF assms(2)]
  note vals = safe_value [OF assms(2)]
  show ?thesis
  proof (cases st)
    case JEatWhitespace
    then show ?thesis
      using p assms(2) by (auto simp: jp_step_simps(1) [of p sv rest] resumes_def intro!: same)
  next
    case JStart
    have o: "safe (jgo JNext (jp_save JObjFieldStart JEatWhitespace p) (builder_ev b BeginObject))"
      "safe (jgo JNext (jp_save JArray JEatWhitespace p) (builder_ev b BeginArray))"
      using safe_push [OF assms(2), of TypeObject "jp_save JObjFieldStart JEatWhitespace p" JNext]
        safe_push [OF assms(2), of TypeArray "jp_save JArray JEatWhitespace p" JNext] p(1) JStart by simp_all
    have "in_step (jp_to JNull p\<lparr>jp_strPos := 0\<rparr>) b" "in_step (jp_to JString p\<lparr>jp_chars := []\<rparr>) b"
      "in_step (jp_to JBool p\<lparr>jp_strPos := 0, jp_matchStr := m\<rparr>) b"
      "in_step (jp_to JNumber p\<lparr>jp_chars := [], jp_isDecimal := False\<rparr>) b" for m
      using p(1) JStart by (intro same; simp)+
    then have "safe (jp_start builder_ev c p b)"
      unfolding jp_start_def using o assms(2) by (simp del: builder_ev.simps)
    then show ?thesis using p JStart by (simp add: jp_step_simps(2) [of p sv rest])
  next
    case JFinish
    then show ?thesis
      using p assms(2) by (auto simp: jp_step_simps(3) [of p sv rest] intro!: same)
  next
    case JNull
    have "safe (jp_null builder_ev c p b)"
      using p(1) JNull by (auto simp: jp_null_def Let_def intro!: same vals)
    then show ?thesis using p JNull by (simp add: jp_step_simps(4) [of p sv rest])
  next
    case JCommentStart
    then show ?thesis using p by (auto simp: jp_step_comment(1) [of p sv rest] intro!: same)
  next
    case JComment
    then show ?thesis using p by (auto simp: jp_step_comment(2) [of p sv rest] intro!: same)
  next
    case JCommentEol
    then show ?thesis using p by (auto simp: jp_step_comment(3) [of p sv rest] intro!: same)
  next
    case JCommentEnd
    then show ?thesis using p by (auto simp: jp_step_comment(4) [of p sv rest] intro!: same)
  next
    case JString
    have "safe (jp_string builder_ev c p b)"
      using p(1) JString assms(3) by (auto simp: jp_string_def intro!: same vals)
    then show ?thesis using p JString by (simp add: jp_step_simps(5) [of p sv rest])
  next
    case JStringEscape
    have "in_step (jp_to JEscapeUnicode p\<lparr>jp_ucsChar := 0, jp_strPos := 0\<rparr>) b"
      "in_step (jp_to (jp_saved p) p\<lparr>jp_chars := cs\<rparr>) b" for cs
      using p JStringEscape by (intro same; auto)+
    then have "safe (jp_escape c p b)"
      unfolding jp_escape_def Let_def by (simp split: option.split)
    then show ?thesis using p JStringEscape by (simp add: jp_step_simps(6) [of p sv rest])
  next
    case JEscapeUnicode
    have "safe (jp_unicode c p b)"
      using p JEscapeUnicode by (auto simp: jp_unicode_def Let_def intro!: same)
    then show ?thesis using p JEscapeUnicode by (simp add: jp_step_simps(7) [of p sv rest])
  next
    case JBool
    have "safe (jp_bool builder_ev c p b)"
      using p(1) JBool by (auto simp: jp_bool_def Let_def intro!: same vals)
    then show ?thesis using p JBool by (simp add: jp_step_simps(8) [of p sv rest])
  next
    case JNumber
    then show ?thesis
      using p jp_number_safe [of p sv rest b c] assms(2) by (simp add: jp_step_simps(9) [of p sv rest])
  next
    case JArray
    have "safe (jp_array builder_ev c p b)"
      using p(1) JArray
      by (auto simp: jp_array_def intro!: same safe_pop [OF assms(2)] safe_jp_push [OF assms(2)])
    then show ?thesis using p JArray by (simp add: jp_step_simps(10) [of p sv rest])
  next
    case JArraySep
    have "safe (jp_arraySep builder_ev c p b)"
      using p(1) JArraySep by (auto simp: jp_arraySep_def intro!: same safe_pop [OF assms(2)])
    then show ?thesis using p JArraySep by (simp add: jp_step_simps(11) [of p sv rest])
  next
    case JObjFieldStart
    have "safe (jp_objFieldStart builder_ev c p b)"
      using p(1) JObjFieldStart by (auto simp: jp_objFieldStart_def intro!: same safe_pop [OF assms(2)])
    then show ?thesis using p JObjFieldStart by (simp add: jp_step_simps(12) [of p sv rest])
  next
    case JObjField
    have "safe (jp_objField builder_ev c p b)"
      using p(1) JObjField assms(3)
      by (auto simp: jp_objField_def simp del: builder_ev.simps intro!: same safe_name [OF assms(2)])
    then show ?thesis using p JObjField by (simp add: jp_step_simps(13) [of p sv rest])
  next
    case JObjFieldEnd
    have "safe (jp_objFieldEnd c p b)"
      using p(1) JObjFieldEnd by (auto simp: jp_objFieldEnd_def intro!: same)
    then show ?thesis using p JObjFieldEnd by (simp add: jp_step_simps(14) [of p sv rest])
  next
    case JObjValue
    have "safe (jp_objValue p b)"
      using p(1) JObjValue by (auto simp: jp_objValue_def intro!: safe_jp_push [OF assms(2)])
    then show ?thesis using p JObjValue by (simp add: jp_step_simps(15) [of p sv rest])
  next
    case JObjSep
    have "safe (jp_objSep builder_ev c p b)"
      using p(1) JObjSep by (auto simp: jp_objSep_def intro!: same safe_pop [OF assms(2)])
    then show ?thesis using p JObjSep by (simp add: jp_step_simps(16) [of p sv rest])
  qed
qed

section \<open>No NUL gets into a string\<close>

lemma word_or_not_0:
  "bit (u :: u32) n \<Longrightarrow> n < 8 \<Longrightarrow> char_of_byte (ucast (u OR w)) \<noteq> NUL"
proof
  assume b: "bit u n" "n < 8" and "char_of_byte (ucast (u OR w)) = NUL"
  then have "(ucast (u OR w) :: byte) = 0" by (metis byte_of_NUL byte_of_char_of_byte)
  moreover have "bit (ucast (u OR w) :: byte) n" using b by (simp add: bit_simps)
  ultimately show False by simp
qed

lemma jp_utf8_nonul: "u \<noteq> 0 \<Longrightarrow> nonul (jp_utf8 u)"
proof -
  assume u: "u \<noteq> 0"
  have b: "bit (0xc0 :: u32) 7" "bit (0x80 :: u32) 7" "bit (0xe0 :: u32) 7"
    by (simp_all add: bit_iff_odd)
  show ?thesis
  proof (cases "u < 0x80")
    case True
    then have n: "unat u < 128" "unat u \<noteq> 0" using u by (simp_all add: word_less_nat_alt unat_eq_0)
    have "char_of_byte (ucast u) \<noteq> NUL"
    proof
      assume "char_of_byte (ucast u) = NUL"
      then have "(ucast u :: byte) = 0" by (metis byte_of_NUL byte_of_char_of_byte)
      then have "unat (ucast u :: byte) = 0" by simp
      then show False using n by (simp add: unsigned_ucast_eq take_bit_nat_eq_self)
    qed
    then show ?thesis using True by (simp add: jp_utf8_def)
  next
    case False
    then show ?thesis
      using word_or_not_0 [OF b(1)] word_or_not_0 [OF b(2)] word_or_not_0 [OF b(3)] by (simp add: jp_utf8_def)
  qed
qed

definition chars_ok :: "'s jstep \<Rightarrow> bool" where
  "chars_ok r \<longleftrightarrow> (\<forall>n p' s'. r = Inr (n, p', s') \<longrightarrow> nonul (jp_chars p'))"

lemma chars_ok_simps [simp]:
  "chars_ok (Inl e)"
  "chars_ok (Inr (n, p', s')) \<longleftrightarrow> nonul (jp_chars p')"
  "nonul (jp_chars p') \<Longrightarrow> chars_ok (jgo n p' r)"
  by (auto simp: chars_ok_def rbind_Inr_iff)

lemma chars_ok_push: "nonul (jp_chars p) \<Longrightarrow> chars_ok (rbind (jp_push p) (\<lambda>q. Inr (n, q, s)))"
  by (simp add: jp_push_def)

lemma chars_ok_number: "nonul (jp_chars p) \<Longrightarrow> c \<noteq> NUL \<Longrightarrow> chars_ok (jp_number vis c p s)"
  by (auto simp: jp_number_def chars_ok_def rbind_Inr_iff Let_def split: if_splits prod.splits)

lemma chars_ok_escape:
  assumes "nonul (jp_chars p)" "c \<noteq> NUL"
  shows "chars_ok (jp_escape c p s)"
proof -
  let ?letters = "[(CHR ''b'', CHR 0x08), (CHR ''n'', CHR 0x0A), (CHR ''r'', CHR 0x0D),
      (CHR ''t'', CHR 0x09), (CHR ''f'', CHR 0x0C)]"
  define e where "e = (if c \<in> {CHR 0x22, CHR 0x5C, CHR ''/''} then Some c else map_of ?letters c)"
  have e: "x \<noteq> NUL" if "e = Some x" for x
  proof (cases "c \<in> {CHR 0x22, CHR 0x5C, CHR ''/''}")
    case False
    then have "(c, x) \<in> set ?letters" using that unfolding e_def by (intro map_of_SomeD) simp
    then show ?thesis by auto
  qed (use that assms(2) in \<open>simp add: e_def\<close>)
  have "chars_ok (case e of None \<Rightarrow> Inl MojErrJsonParseEscape
      | Some x \<Rightarrow> Inr (JNext, (jp_to (jp_saved p) p)\<lparr>jp_chars := jp_chars p @ [x]\<rparr>, s))"
    using e assms(1) by (cases e) auto
  then show ?thesis
    unfolding jp_escape_def Let_def e_def using assms(1) by (cases "c = CHR ''u''") (simp_all only: if_True if_False, simp)
qed

lemma jp_step_nonul:
  assumes "c \<noteq> NUL" "nonul (jp_chars p)" "stack_ok p"
  shows "chars_ok (jp_step vis c p s)"
proof -
  obtain st sv rest where p: "jp_stack p = (st, sv) # rest"
    using assms(3) by (cases "jp_stack p") (auto simp: stack_ok_def)
  show ?thesis
  proof (cases st)
    case JEatWhitespace
    then show ?thesis using p assms(1,2) by (auto simp: jp_step_simps(1) [of p sv rest] )
  next
    case JStart
    then show ?thesis using p assms(1,2) by (auto simp: jp_step_simps(2) [of p sv rest] jp_start_def)
  next
    case JFinish
    then show ?thesis using p assms(1,2) by (auto simp: jp_step_simps(3) [of p sv rest] )
  next
    case JNull
    then show ?thesis using p assms(1,2) by (auto simp: jp_step_simps(4) [of p sv rest] jp_null_def Let_def)
  next
    case JCommentStart
    then show ?thesis using p assms(1,2) by (auto simp: jp_step_comment(1) [of p sv rest] )
  next
    case JComment
    then show ?thesis using p assms(1,2) by (auto simp: jp_step_comment(2) [of p sv rest] )
  next
    case JCommentEol
    then show ?thesis using p assms(1,2) by (auto simp: jp_step_comment(3) [of p sv rest] )
  next
    case JCommentEnd
    then show ?thesis using p assms(1,2) by (auto simp: jp_step_comment(4) [of p sv rest] )
  next
    case JString
    then show ?thesis using p assms(1,2) by (auto simp: jp_step_simps(5) [of p sv rest] jp_string_def)
  next
    case JStringEscape
    then show ?thesis using p chars_ok_escape [OF assms(2,1)] by (simp add: jp_step_simps(6) [of p sv rest])
  next
    case JEscapeUnicode
    have "chars_ok (jp_unicode c p s)" using assms(1,2) jp_utf8_nonul by (auto simp: jp_unicode_def Let_def)
    then show ?thesis using p JEscapeUnicode by (simp add: jp_step_simps(7) [of p sv rest])
  next
    case JBool
    then show ?thesis using p assms(1,2) by (auto simp: jp_step_simps(8) [of p sv rest] jp_bool_def Let_def)
  next
    case JNumber
    then show ?thesis using p chars_ok_number [OF assms(2,1)] by (simp add: jp_step_simps(9) [of p sv rest])
  next
    case JArray
    then show ?thesis using p assms(1,2) by (auto simp: jp_step_simps(10) [of p sv rest] jp_array_def chars_ok_push)
  next
    case JArraySep
    then show ?thesis using p assms(1,2) by (auto simp: jp_step_simps(11) [of p sv rest] jp_arraySep_def)
  next
    case JObjFieldStart
    then show ?thesis using p assms(1,2) by (auto simp: jp_step_simps(12) [of p sv rest] jp_objFieldStart_def)
  next
    case JObjField
    then show ?thesis using p assms(1,2) by (auto simp: jp_step_simps(13) [of p sv rest] jp_objField_def)
  next
    case JObjFieldEnd
    then show ?thesis using p assms(1,2) by (auto simp: jp_step_simps(14) [of p sv rest] jp_objFieldEnd_def)
  next
    case JObjValue
    then show ?thesis using p assms(1,2) by (auto simp: jp_step_simps(15) [of p sv rest] jp_objValue_def chars_ok_push)
  next
    case JObjSep
    then show ?thesis using p assms(1,2) by (auto simp: jp_step_simps(16) [of p sv rest] jp_objSep_def)
  qed
qed

section \<open>What is read as a number\<close>

text \<open>The characters kept for a number are the last ones read.\<close>

definition number_read :: "string \<Rightarrow> json_parser \<Rightarrow> bool" where
  "number_read pre p \<longleftrightarrow> (jp_state p = JNumber \<longrightarrow> (\<exists>u. pre = u @ jp_chars p))"

lemma number_read_other: "jp_state p \<noteq> JNumber \<Longrightarrow> number_read pre p"
  by (simp add: number_read_def)

definition number_ok :: "string \<Rightarrow> char \<Rightarrow> 's jstep \<Rightarrow> bool" where
  "number_ok pre c r \<longleftrightarrow> (\<forall>n p' s'. r = Inr (n, p', s') \<longrightarrow> number_read (if n = JNext then pre @ [c] else pre) p')"

lemma number_ok_simps [simp]:
  "number_ok pre c (Inl e)"
  "number_ok pre c (Inr (n, p', s')) \<longleftrightarrow> number_read (if n = JNext then pre @ [c] else pre) p'"
  "jp_state p' \<noteq> JNumber \<Longrightarrow> number_ok pre c (jgo n p' r)"
  by (auto simp: number_ok_def rbind_Inr_iff number_read_other)

lemma number_ok_push: "number_ok pre c (rbind (jp_push p) (\<lambda>q. Inr (n, q, s)))"
  by (simp add: jp_push_def number_read_other)

lemma number_ok_number:
  assumes "number_read pre p" "jp_state p = JNumber"
  shows "number_ok pre c (jp_number vis c p s)"
proof -
  obtain u where u: "pre = u @ jp_chars p" using assms by (auto simp: number_read_def)
  then have a: "number_read (pre @ [c]) (p\<lparr>jp_isDecimal := q, jp_chars := jp_chars p @ [c]\<rparr>)"
    "number_read (pre @ [c]) (p\<lparr>jp_chars := jp_chars p @ [c]\<rparr>)" for q
    by (auto simp: number_read_def)
  have o: "number_read x (jp_save JFinish JEatWhitespace p)" for x
    by (simp add: number_read_other jp_save_def)
  show ?thesis
    unfolding jp_number_def Let_def number_ok_def using a o by (auto simp: rbind_Inr_iff split: prod.splits if_split_asm)
qed

lemma jp_step_number:
  assumes "stack_ok p" "number_read pre p"
  shows "number_ok pre c (jp_step vis c p s)"
proof -
  obtain st sv rest where p: "jp_stack p = (st, sv) # rest" "rec_ok (st, sv)" "\<forall>q \<in> set rest. waiting q"
    using assms(1) by (cases "jp_stack p") (auto simp: stack_ok_def)
  note other = number_read_other
  show ?thesis
  proof (cases st)
    case JEatWhitespace
    then show ?thesis using p by (auto simp: jp_step_simps(1) [of p sv rest] resumes_def other)
  next
    case JStart
    then show ?thesis using p by (auto simp: jp_step_simps(2) [of p sv rest] jp_start_def number_read_def)
  next
    case JFinish
    have "fst (hd rest) \<noteq> JNumber" if "rest \<noteq> []"
      using p(3) that by (cases rest) (auto simp: waiting_def)
    then show ?thesis using p JFinish by (auto simp: jp_step_simps(3) [of p sv rest] other)
  next
    case JNull
    then show ?thesis using p by (auto simp: jp_step_simps(4) [of p sv rest] jp_null_def Let_def other)
  next
    case JCommentStart
    then show ?thesis using p by (auto simp: jp_step_comment(1) [of p sv rest] other)
  next
    case JComment
    then show ?thesis using p by (auto simp: jp_step_comment(2) [of p sv rest] other)
  next
    case JCommentEol
    then show ?thesis using p by (auto simp: jp_step_comment(3) [of p sv rest] other)
  next
    case JCommentEnd
    then show ?thesis using p by (auto simp: jp_step_comment(4) [of p sv rest] other)
  next
    case JString
    then show ?thesis using p by (auto simp: jp_step_simps(5) [of p sv rest] jp_string_def other)
  next
    case JStringEscape
    have "number_read x (jp_to JEscapeUnicode p\<lparr>jp_ucsChar := 0, jp_strPos := 0\<rparr>)"
      "number_read x (jp_to (jp_saved p) p\<lparr>jp_chars := cs\<rparr>)" for x cs
      using p JStringEscape by (auto intro!: other)
    then have "number_ok pre c (jp_escape c p s)"
      unfolding jp_escape_def Let_def by (simp split: option.split)
    then show ?thesis using p JStringEscape by (simp add: jp_step_simps(6) [of p sv rest])
  next
    case JEscapeUnicode
    have "number_ok pre c (jp_unicode c p s)"
      using p JEscapeUnicode by (auto simp: jp_unicode_def Let_def other)
    then show ?thesis using p JEscapeUnicode by (simp add: jp_step_simps(7) [of p sv rest])
  next
    case JBool
    then show ?thesis using p by (auto simp: jp_step_simps(8) [of p sv rest] jp_bool_def Let_def other)
  next
    case JNumber
    then show ?thesis
      using p number_ok_number [OF assms(2), of c vis s] by (simp add: jp_step_simps(9) [of p sv rest])
  next
    case JArray
    then show ?thesis using p by (auto simp: jp_step_simps(10) [of p sv rest] jp_array_def number_ok_push)
  next
    case JArraySep
    then show ?thesis using p by (auto simp: jp_step_simps(11) [of p sv rest] jp_arraySep_def other)
  next
    case JObjFieldStart
    then show ?thesis using p by (auto simp: jp_step_simps(12) [of p sv rest] jp_objFieldStart_def other)
  next
    case JObjField
    then show ?thesis using p by (auto simp: jp_step_simps(13) [of p sv rest] jp_objField_def other)
  next
    case JObjFieldEnd
    then show ?thesis using p by (auto simp: jp_step_simps(14) [of p sv rest] jp_objFieldEnd_def other)
  next
    case JObjValue
    then show ?thesis using p by (auto simp: jp_step_simps(15) [of p sv rest] jp_objValue_def number_ok_push)
  next
    case JObjSep
    then show ?thesis using p by (auto simp: jp_step_simps(16) [of p sv rest] jp_objSep_def other)
  qed
qed

section \<open>fromJson\<close>

text \<open>Some literal of the text, read as a decimal, makes the decimal parser divide by zero.\<close>

definition bad_literal :: "string \<Rightarrow> bool" where
  "bad_literal chars \<longleftrightarrow> (\<exists>u w v. chars = u @ w @ v \<and> dec_parse w = Inl MojDivByZero)"

text \<open>What holds between two passes; the NUL that ends the text may be kept for a string.\<close>

definition parse_inv :: "builder jinv" where
  "parse_inv pre p b \<longleftrightarrow> in_step p b \<and> number_read pre p"

definition text_inv :: "builder jinv" where
  "text_inv pre p b \<longleftrightarrow> parse_inv pre p b \<and> nonul (jp_chars p)"

definition parse_err :: "string \<Rightarrow> MojErr \<Rightarrow> bool" where
  "parse_err chars e \<longleftrightarrow> e \<noteq> MojAssertFailed \<and> (e = MojDivByZero \<longrightarrow> bad_literal chars)"

lemma parse_step:
  assumes "stack_ok p" "parse_inv pre p b" "c = CHR 0x22 \<Longrightarrow> nonul (jp_chars p)" "chars = pre @ rest"
  shows "case jp_step builder_ev c p b of Inl e \<Rightarrow> parse_err chars e
    | Inr (n, p', s') \<Rightarrow> parse_inv (if n = JNext then pre @ [c] else pre) p' s'"
proof -
  have i: "in_step p b" "number_read pre p" using assms(2) by (simp_all add: parse_inv_def)
  have safe: "safe (jp_step builder_ev c p b) \<or> jp_step builder_ev c p b = Inl MojDivByZero \<and>
      jp_state p = JNumber \<and> dec_parse (jp_chars p) = Inl MojDivByZero"
    by (rule jp_step_safe [OF assms(1) i(1)]) (rule assms(3))
  show ?thesis
  proof (cases "jp_step builder_ev c p b")
    case (Inl e)
    have bad: "bad_literal chars" if n: "jp_state p = JNumber" "dec_parse (jp_chars p) = Inl MojDivByZero"
    proof -
      obtain u where "pre = u @ jp_chars p" using i(2) n(1) unfolding number_read_def by blast
      then have "chars = u @ jp_chars p @ rest" using assms(4) by simp
      then show ?thesis using n(2) unfolding bad_literal_def by blast
    qed
    then show ?thesis using Inl safe by (auto simp: parse_err_def)
  next
    case (Inr r)
    obtain n p' b' where r: "jp_step builder_ev c p b = Inr (n, p', b')" using Inr by (cases r) simp
    have "in_step p' b'" using safe unfolding r by simp
    moreover have "number_read (if n = JNext then pre @ [c] else pre) p'"
      using jp_step_number [OF assms(1) i(2), of c builder_ev b] unfolding r number_ok_simps .
    ultimately show ?thesis unfolding r sum.case prod.case parse_inv_def by (rule conjI)
  qed
qed

lemma text_step_keeps:
  "nonul chars \<Longrightarrow> chars = pre @ c # rest \<Longrightarrow> step_keeps builder_ev pre c text_inv (parse_err chars)"
  unfolding step_keeps_def text_inv_def
proof (intro allI impI)
  fix p b
  assume c: "nonul chars" "chars = pre @ c # rest"
    and ok: "stack_ok p" "parse_inv pre p b \<and> nonul (jp_chars p)"
  have "c \<noteq> NUL" using c by (auto simp: nonul_def)
  then have n: "chars_ok (jp_step builder_ev c p b)" by (rule jp_step_nonul [OF _ conjunct2 [OF ok(2)] ok(1)])
  note step = parse_step [OF ok(1) conjunct1 [OF ok(2)] conjunct2 [OF ok(2)] c(2), of c]
  show "case jp_step builder_ev c p b of Inl e \<Rightarrow> parse_err chars e
    | Inr (n, p', s') \<Rightarrow> parse_inv (if n = JNext then pre @ [c] else pre) p' s' \<and> nonul (jp_chars p')"
  proof (cases "jp_step builder_ev c p b")
    case (Inl e)
    then show ?thesis using step by (simp only: sum.case)
  next
    case (Inr r)
    obtain n p' b' where r: "jp_step builder_ev c p b = Inr (n, p', b')" using Inr by (cases r) simp
    show ?thesis using step n unfolding r chars_ok_simps sum.case prod.case by (rule conjI)
  qed
qed

lemma end_step_keeps: "chars = pre @ rest \<Longrightarrow> step_keeps builder_ev pre NUL parse_inv (parse_err chars)"
  unfolding step_keeps_def using parse_step [where c = NUL] by simp

lemma parse_inv_pos:
  "parse_inv pre p b \<Longrightarrow> parse_inv pre (jp_newline c p) b \<and> parse_inv pre (p\<lparr>jp_col := x\<rparr>) b"
  by (simp add: parse_inv_def in_step_def number_read_def)

lemma parse_text:
  assumes "nonul chars"
  obtains (error) e where "parseChunk builder_ev jp_begin builder_reset chars = Some (Inl e)" "parse_err chars e"
    | (text_read) p b rest pre rest' where
      "parseChunk builder_ev jp_begin builder_reset chars = Some (Inr (p, b, rest))" "stack_ok p"
      "chars = pre @ rest'" "parse_inv pre p b"
proof -
  have k: "step_keeps builder_ev ([] @ pre) c text_inv (parse_err chars)" if "\<exists>rest. chars = pre @ c # rest" for pre c
    using that text_step_keeps [OF assms] by auto
  have pos: "text_inv pre p b \<Longrightarrow> text_inv pre (jp_newline c p) b \<and> text_inv pre (p\<lparr>jp_col := x\<rparr>) b" for pre p b c x
    using parse_inv_pos by (simp add: text_inv_def)
  have init: "text_inv [] jp_begin builder_reset"
    by (simp add: text_inv_def parse_inv_def number_read_def in_step_def jp_begin_def builder_reset_def bwf_def
        btypes_def)
  obtain r where r: "parseChunk builder_ev jp_begin builder_reset chars = Some r"
    "case r of Inl e \<Rightarrow> parse_err chars e | Inr (p', s', _) \<Rightarrow> stack_ok p' \<and>
      (\<exists>pre' rest. [] @ chars = pre' @ rest \<and> text_inv pre' p' s')"
    using parseChunk_keeps [where I = text_inv and E = "parse_err chars", OF k pos jp_begin_ok init] by blast
  show thesis
  proof (cases r)
    case (Inr q)
    obtain p b rest where q: "q = (p, b, rest)" by (cases q)
    then obtain pre' rest' where "chars = pre' @ rest'" "stack_ok p" "parse_inv pre' p b"
      using r(2) Inr by (auto simp: text_inv_def)
    then show thesis using text_read r(1) Inr q by blast
  qed (use r error in simp)
qed

text \<open>
  C26. On any text without a NUL \<^verbatim>\<open>fromJson\<close> returns, and what it returns is a well-formed value or
  an error. No assertion of the builder or of the number parser is broken on the way, and the process
  dies of a division by zero only when some number literal of the text, given to the decimal parser
  alone, divides by zero (as \<^verbatim>\<open>1e-100\<close> does).
\<close>

theorem fromJson_safe:
  assumes "nonul chars"
  shows "\<exists>r. fromJson chars = Some r \<and>
    (case r of
       Inl e \<Rightarrow> e \<noteq> MojAssertFailed \<and>
         (e = MojDivByZero \<longrightarrow> (\<exists>u w v. chars = u @ w @ v \<and> dec_parse w = Inl MojDivByZero))
     | Inr v \<Rightarrow> wf_obj v)"
proof -
  from assms have "\<exists>r. fromJson chars = Some r \<and> (case r of Inl e \<Rightarrow> parse_err chars e | Inr v \<Rightarrow> wf_obj v)"
  proof (cases rule: parse_text)
    case (text_read p b rest pre rest')
    have k: "step_keeps builder_ev (pre @ u) c parse_inv (parse_err chars)" if "\<exists>r. [NUL] = u @ c # r" for u c
      using that end_step_keeps [OF text_read(3)] by (auto simp: Cons_eq_append_conv)
    obtain r where r: "parseChunk builder_ev p b [NUL] = Some r"
      "case r of Inl e \<Rightarrow> parse_err chars e | Inr (p', s', _) \<Rightarrow> stack_ok p' \<and>
        (\<exists>pre' rest. pre @ [NUL] = pre' @ rest \<and> parse_inv pre' p' s')"
      using parseChunk_keeps [where I = parse_inv and E = "parse_err chars" and cs = "[NUL]",
          OF k parse_inv_pos text_read(2,4)] by blast
    show ?thesis
      using text_read(1) r
      by (cases r) (auto simp: fromJson_def json_parse_def parse_finish_def parse_end_def parse_inv_def in_step_def
          bwf_def parse_err_def split: prod.splits)
  qed (simp add: fromJson_def json_parse_def)
  then show ?thesis unfolding parse_err_def bad_literal_def by (auto split: sum.splits)
qed

theorem fromJson_safe_witness:
  "nonul ''[1, x'' \<and> (\<exists>r. fromJson ''[1, x'' = Some r \<and>
    (case r of
       Inl e \<Rightarrow> e \<noteq> MojAssertFailed \<and>
         (e = MojDivByZero \<longrightarrow> (\<exists>u w v. ''[1, x'' = u @ w @ v \<and> dec_parse w = Inl MojDivByZero))
     | Inr v \<Rightarrow> wf_obj v))"
  using fromJson_safe [of "''[1, x''"] by simp

section \<open>What the parser lets through\<close>

text \<open>A C string without an end of its value is read past its NUL.\<close>

lemma parse_cstr_past_end:
  "fromJson_cstr [] = Some (Inl MojReadPastEnd)" "fromJson_cstr (CHR 0x22 # ''abc'') = Some (Inl MojReadPastEnd)"
  by code_simp+

text \<open>A comma before the closing bracket, text behind the value, and octal integers are accepted.\<close>

lemma parse_lenient:
  "fromJson ''[1,]'' = Some (Inr (OArray [OInt 1]))"
  "fromJson ''{} x'' = Some (Inr (OObject []))"
  "fromJson ''010'' = Some (Inr (OInt 8))"
  by code_simp+

text \<open>A number with a large negative exponent, or as many digits behind its point, reaches the division of
  the decimal parser.\<close>

lemma parse_div_by_zero:
  "fromJson ''1e-100'' = Some (Inl MojDivByZero)"
  "fromJson (''0.'' @ replicate 80 (CHR ''0'') @ ''1'') = Some (Inl MojDivByZero)"
  by code_simp+

end
