(* ===== verification/DbKey.thy ===== *)
theory DbKey
  imports ObjOrder
begin

text \<open>
  \<^verbatim>\<open>src/db/MojDbKey.cpp\<close>: index keys, key ranges, and the builder that combines the values of the
  properties into keys. The lemmas: the increment of a key is the least bound above everything the
  key is a prefix of, and the builder makes exactly the cartesian product.
\<close>

section \<open>MojDbKey\<close>

type_synonym dbkey = "byte list"

text \<open>
  A collator is the ICU library behind \<^verbatim>\<open>MojDbTextCollator\<close>: a function from text to a sort key.
\<close>

type_synonym collator = "string \<Rightarrow> dbkey res"

definition key_assign :: "obj \<Rightarrow> collator option \<Rightarrow> dbkey res" where
  "key_assign obj coll =
     (case (coll, obj) of
        (Some sortKey, OString text) \<Rightarrow> sortKey text
      | _ \<Rightarrow> toBytes obj)"

text \<open>\<^verbatim>\<open>increment\<close> works from the last byte: a byte 255 is dropped, any other one incremented.\<close>

fun increment_rev :: "dbkey \<Rightarrow> dbkey" where
  "increment_rev [] = []"
| "increment_rev (b # bs) = (if b < 255 then (b + 1) # bs else increment_rev bs)"

definition key_increment :: "dbkey \<Rightarrow> dbkey" where
  "key_increment key = rev (increment_rev (rev key))"

definition key_prepend :: "dbkey \<Rightarrow> dbkey \<Rightarrow> dbkey" where
  "key_prepend key vec = key @ vec"

definition prefixOf :: "dbkey \<Rightarrow> dbkey \<Rightarrow> bool" where
  "prefixOf k key \<longleftrightarrow> length key \<ge> length k \<and> take (length k) key = k"

definition stringPrefixOf :: "dbkey \<Rightarrow> dbkey \<Rightarrow> bool" where
  "stringPrefixOf k key \<longleftrightarrow>
     length key \<ge> length k \<and> take (length k - 1) key = take (length k - 1) k"

section \<open>MojDbKeyRange\<close>

record key_range =
  lowerKey :: dbkey
  upperKey :: dbkey
  rgroup :: u32

definition range_contains :: "key_range \<Rightarrow> dbkey \<Rightarrow> bool" where
  "range_contains rng key \<longleftrightarrow>
     (let lk = lowerKey rng; uk = upperKey rng in
      (lk = [] \<or> bcmp key lk \<ge> 0) \<and> (uk = [] \<or> bcmp key uk < 0))"

definition range_contains_range :: "key_range \<Rightarrow> key_range \<Rightarrow> bool" where
  "range_contains_range rng other \<longleftrightarrow>
     range_contains rng (lowerKey other) \<and>
     (upperKey rng = [] \<or> bcmp (upperKey other) (upperKey rng) \<le> 0)"

definition range_prepend :: "dbkey \<Rightarrow> key_range \<Rightarrow> key_range" where
  "range_prepend key rng =
     rng\<lparr>lowerKey := key_prepend key (lowerKey rng), upperKey := key_prepend key (upperKey rng)\<rparr>"

section \<open>MojDbKeyBuilder\<close>

text \<open>
  The records on the stack are the value sets of the properties. The loop of \<^verbatim>\<open>keys\<close> walks an
  odometer: \<open>below\<close> are the records below \<^verbatim>\<open>pos\<close>, the nearest first, each with the rest its
  iterator has still to visit; the records above are reset.
\<close>

type_synonym prop_rec = "dbkey list \<times> dbkey list"

partial_function (option) builder_loop ::
  "prop_rec list \<Rightarrow> prop_rec \<Rightarrow> dbkey list list \<Rightarrow> dbkey list \<Rightarrow> dbkey list option" where
  "builder_loop below pos after keysOut =
     (if snd pos = []
      then (case below of
              [] \<Rightarrow> Some keysOut
            | prev # below' \<Rightarrow>
                builder_loop below' (fst prev, tl (snd prev)) (fst pos # after) keysOut)
      else (case after of
              [] \<Rightarrow>
                builder_loop below (fst pos, tl (snd pos)) after
                  (set_put bcmp (concat (map (\<lambda>r. hd (snd r)) (rev (pos # below)))) keysOut)
            | vals # after' \<Rightarrow> builder_loop (pos # below) (vals, vals) after' keysOut))"

declare builder_loop.simps [code]

definition builder_keys :: "dbkey list list \<Rightarrow> dbkey list option" where
  "builder_keys stack =
     (case stack of [] \<Rightarrow> Some [] | vals # rest \<Rightarrow> builder_loop [] (vals, vals) rest [])"

section \<open>The increment of a key\<close>

lemma increment_snoc:
  "key_increment (k @ [b]) = (if b < 255 then k @ [b + 1] else key_increment k)"
  by (simp add: key_increment_def)

lemma increment_Nil [simp]: "key_increment [] = []"
  by (simp add: key_increment_def)

lemma byte_max: "(b :: byte) \<le> 255"
  using unsigned_less [of b, where 'a=nat] by (simp add: word_le_nat_alt)

lemma byte_succ:
  assumes "(b :: byte) < 255"
  shows "c < b + 1 \<longleftrightarrow> c \<le> b" "c \<noteq> b + 1 \<or> \<not> c \<le> b"
proof -
  have "unat (b + 1) = unat b + 1"
    using assms by (simp add: word_less_nat_alt unat_word_ariths)
  then show "c < b + 1 \<longleftrightarrow> c \<le> b" "c \<noteq> b + 1 \<or> \<not> c \<le> b"
    by (auto simp: word_less_nat_alt word_le_nat_alt)
qed

lemma bcmp_Cons: "bcmp (x # xs) (y # ys) = (if x < y then - 1 else if y < x then 1 else bcmp xs ys)"
  by (simp add: MojComp_def)

lemma bcmp_Nil2: "bcmp xs [] = (if xs = [] then 0 else 1)"
  by (cases xs) simp_all

lemma bcmp_snoc_less:
  assumes "(b :: byte) < 255"
  shows "bcmp (p @ [b]) k \<le> 0 \<and> bcmp k (p @ [b + 1]) < 0 \<longleftrightarrow> (\<exists>r. k = p @ b # r)"
proof (induction p arbitrary: k)
  case Nil
  show ?case
    using byte_succ [OF assms]
    by (cases k) (auto simp: bcmp_Cons bcmp_Nil2 simp del: vec_compare.simps(3) split: if_splits)
next
  case (Cons a p)
  show ?case
    using Cons.IH
    by (cases k) (auto simp: bcmp_Cons simp del: vec_compare.simps(3) split: if_splits)
qed

text \<open>
  A key lies between \<open>k\<close> and its increment, the empty one being no bound, exactly if \<open>k\<close> is a prefix.
\<close>

lemma increment_prefix:
  "bcmp k key \<le> 0 \<and> (key_increment k = [] \<or> bcmp key (key_increment k) < 0) \<longleftrightarrow> prefixOf k key"
proof (induction k arbitrary: key rule: rev_induct)
  case Nil
  show ?case by (cases key) (simp_all add: prefixOf_def)
next
  case (snoc b k)
  have pre: "prefixOf (k @ [b]) key \<longleftrightarrow> (\<exists>r. key = k @ b # r)" for key
    by (auto simp: prefixOf_def) (metis append.assoc append_Cons append_Nil append_take_drop_id length_append_singleton)
  show ?case
  proof (cases "b < 255")
    case True
    then show ?thesis using bcmp_snoc_less [OF True, of k key] by (simp add: increment_snoc pre)
  next
    case False
    then have b: "b = 255" using byte_max [of b] by simp
    have "bcmp (k @ []) (k @ [255]) \<le> 0" unfolding bcmp_prefix by simp
    then have le: "bcmp (k @ [255]) key \<le> 0 \<Longrightarrow> bcmp k key \<le> 0"
      using bcmp.cmp_trans [of k "k @ [255]" key] by (simp add: list_all_iff)
    have r: "bcmp [255] r \<le> 0 \<longleftrightarrow> (\<exists>r'. r = 255 # r')" for r
      using byte_max by (cases r) (auto simp: bcmp_Cons not_less intro: antisym [OF byte_max]
          simp del: vec_compare.simps(3) split: if_splits)
    have ik: "prefixOf k key \<longleftrightarrow> (\<exists>r. key = k @ r)"
      by (auto simp: prefixOf_def) (metis append_take_drop_id)
    have "bcmp (k @ [255]) key \<le> 0 \<and> (key_increment k = [] \<or> bcmp key (key_increment k) < 0) \<longleftrightarrow>
        (\<exists>r. key = k @ r \<and> bcmp [255] r \<le> 0)"
      using snoc.IH [of key] le ik by fastforce
    then show ?thesis using pre [of key] by (auto simp: b increment_snoc r)
  qed
qed

section \<open>Key sets\<close>

lemma bcmp_eq [simp]: "bcmp x y = 0 \<longleftrightarrow> x = y"
  using bcmp.cmp_eq_iff [of x y] by (simp add: list_all_iff)

lemma bcmp_trans_lt: "bcmp x y < 0 \<Longrightarrow> bcmp y z < 0 \<Longrightarrow> bcmp x z < 0"
  using bcmp.cmp_trans_lt [of x y z] by (simp add: list_all_iff)

lemma bcmp_lt_iff: "bcmp y x < 0 \<longleftrightarrow> 0 < bcmp x y"
  using bcmp.cmp_lt_iff [of x y] by (simp add: list_all_iff)

definition sorted_set :: "dbkey list \<Rightarrow> bool" where
  "sorted_set ks \<longleftrightarrow> sorted_wrt (\<lambda>x y. bcmp x y < 0) ks"

lemma sorted_set_simps [simp]:
  "sorted_set []"
  "sorted_set (k # ks) \<longleftrightarrow> (\<forall>x \<in> set ks. bcmp k x < 0) \<and> sorted_set ks"
  by (simp_all add: sorted_set_def)

lemma set_put_set [simp]: "set (set_put bcmp k ks) = insert k (set ks)"
  by (induction ks) auto

lemma set_put_sorted: "sorted_set ks \<Longrightarrow> sorted_set (set_put bcmp k ks)"
proof (induction ks)
  case (Cons x ks)
  consider "x = k" | "bcmp x k < 0" | "bcmp k x < 0"
    using bcmp_lt_iff [of k x] bcmp_eq [of x k] by linarith
  then show ?case
  proof cases
    case 3
    then have "bcmp x k > 0" using bcmp_lt_iff [of k x] by simp
    then show ?thesis using 3 Cons.prems by (auto intro: bcmp_trans_lt)
  qed (use Cons in auto)
qed simp

lemma set_put_all_set [simp]: "set (set_put_all bcmp ks acc) = set ks \<union> set acc"
  by (induction ks arbitrary: acc) (auto simp: set_put_all_def)

lemma set_put_all_sorted: "sorted_set acc \<Longrightarrow> sorted_set (set_put_all bcmp ks acc)"
  by (induction ks arbitrary: acc) (auto simp: set_put_all_def set_put_sorted)

lemma set_put_all_append: "set_put_all bcmp (xs @ ys) acc = set_put_all bcmp ys (set_put_all bcmp xs acc)"
  by (simp add: set_put_all_def)

text \<open>A sorted set is determined by its elements.\<close>

lemma sorted_set_unique: "sorted_set xs \<Longrightarrow> sorted_set ys \<Longrightarrow> set xs = set ys \<Longrightarrow> xs = ys"
proof (induction xs arbitrary: ys)
  case (Cons x xs)
  show ?case
  proof (cases ys)
    case (Cons y ys')
    have "x = y"
    proof (rule ccontr)
      assume "x \<noteq> y"
      then have "x \<in> set ys'" "y \<in> set xs" using Cons.prems Cons by auto
      then have "bcmp y x < 0" "bcmp x y < 0" using Cons.prems Cons by auto
      then show False using bcmp_lt_iff [of x y] by simp
    qed
    have "\<not> bcmp z z < 0" for z :: dbkey by (metis bcmp_eq less_irrefl)
    then have "x \<notin> set xs" "y \<notin> set ys'" using Cons.prems Cons by auto
    then have "set xs = set ys'" using Cons.prems Cons \<open>x = y\<close> by auto
    then show ?thesis using Cons.IH [of ys'] Cons.prems Cons \<open>x = y\<close> by simp
  qed (use Cons.prems in simp)
qed simp

section \<open>The builder makes the product\<close>

fun combos :: "dbkey list list \<Rightarrow> dbkey list" where
  "combos [] = [[]]"
| "combos (vals # rest) = concat (map (\<lambda>v. map ((@) v) (combos rest)) vals)"

lemma combos_set: "set (combos stack) = {concat ks | ks. list_all2 (\<lambda>k vals. k \<in> set vals) ks stack}"
proof (induction stack)
  case (Cons vals rest)
  show ?case
  proof (intro set_eqI iffI)
    fix x assume "x \<in> set (combos (vals # rest))"
    then obtain v ks where "v \<in> set vals" "list_all2 (\<lambda>k vals. k \<in> set vals) ks rest" "x = v @ concat ks"
      using Cons by auto
    then have "list_all2 (\<lambda>k vals. k \<in> set vals) (v # ks) (vals # rest)" "x = concat (v # ks)" by simp_all
    then show "x \<in> {concat ks | ks. list_all2 (\<lambda>k vals. k \<in> set vals) ks (vals # rest)}" by blast
  next
    fix x assume "x \<in> {concat ks | ks. list_all2 (\<lambda>k vals. k \<in> set vals) ks (vals # rest)}"
    then obtain v vs where "v \<in> set vals" "list_all2 (\<lambda>k vals. k \<in> set vals) vs rest" "x = v @ concat vs"
      by (auto simp: list_all2_Cons2)
    then have "concat vs \<in> set (combos rest)" using Cons by blast
    then show "x \<in> set (combos (vals # rest))" using \<open>v \<in> set vals\<close> \<open>x = v @ concat vs\<close> by auto
  qed
qed simp

lemma builder_loop_after:
  "builder_loop below (v, rem) after out =
   builder_loop below (v, []) after
     (set_put_all bcmp
       (concat (map (\<lambda>u. map (\<lambda>x. concat (map (\<lambda>r. hd (snd r)) (rev below)) @ u @ x) (combos after)) rem)) out)"
proof (induction after arbitrary: below v rem out)
  case Nil
  show ?case
  proof (induction rem arbitrary: out)
    case (Cons u us)
    show ?case
      by (subst builder_loop.simps) (simp add: Cons set_put_all_def)
  qed (simp add: set_put_all_def)
next
  case (Cons w ws)
  note inner = Cons.IH
  show ?case
  proof (induction rem arbitrary: out)
    case (Cons u us)
    let ?pre = "concat (map (\<lambda>r. hd (snd r)) (rev below))"
    let ?out = "set_put_all bcmp (map (\<lambda>x. ?pre @ u @ x) (combos (w # ws))) out"
    have "builder_loop below (v, u # us) (w # ws) out = builder_loop ((v, u # us) # below) (w, w) ws out"
      by (subst builder_loop.simps) simp
    also have "\<dots> = builder_loop ((v, u # us) # below) (w, []) ws ?out"
      by (subst inner) (simp add: map_concat o_def)
    also have "\<dots> = builder_loop below (v, us) (w # ws) ?out"
      by (subst builder_loop.simps) simp
    also have "\<dots> = builder_loop below (v, []) (w # ws)
        (set_put_all bcmp (concat (map (\<lambda>u. map (\<lambda>x. ?pre @ u @ x) (combos (w # ws))) us)) ?out)"
      by (rule Cons)
    finally show ?case by (simp add: set_put_all_append del: combos.simps)
  qed (simp add: set_put_all_def)
qed

text \<open>The loop ends, and its result is the set of all combinations, in key order.\<close>

lemma builder_keys_eq: "stack \<noteq> [] \<Longrightarrow> builder_keys stack = Some (set_put_all bcmp (combos stack) [])"
proof (cases stack)
  case (Cons vals rest)
  have "builder_loop [] (vals, vals) rest [] =
      builder_loop [] (vals, []) rest (set_put_all bcmp (combos stack) [])"
    by (subst builder_loop_after) (simp add: Cons)
  also have "\<dots> = Some (set_put_all bcmp (combos stack) [])"
    by (subst builder_loop.simps) simp
  finally show ?thesis by (simp add: builder_keys_def Cons)
qed simp

text \<open>
  C32. The key builder terminates on every stack of value sets and returns, in strictly ascending
  key order, exactly the concatenations of one value from each property.
\<close>

theorem builder_keys_product:
  "\<exists>ks. builder_keys stack = Some ks \<and> sorted_set ks \<and>
     set ks = (if stack = [] then {} else {concat vs | vs. list_all2 (\<lambda>v vals. v \<in> set vals) vs stack})"
proof (cases "stack = []")
  case True
  then show ?thesis by (simp add: builder_keys_def)
next
  case False
  then show ?thesis
    by (simp add: builder_keys_eq set_put_all_sorted combos_set)
qed

text \<open>
  C33. A key and its increment enclose exactly the keys it is a prefix of: a key lies in the range
  from \<open>k\<close> to the increment of \<open>k\<close> if and only if \<open>k\<close> is its prefix, also when all bytes of \<open>k\<close>
  are 255 and the range has no upper bound.
\<close>

theorem increment_range:
  "range_contains \<lparr>lowerKey = k, upperKey = key_increment k, rgroup = g\<rparr> key \<longleftrightarrow> prefixOf k key"
proof -
  have "bcmp key k \<ge> 0 \<longleftrightarrow> bcmp k key \<le> 0"
    using bcmp.cmp_le_iff [of key k] by (simp add: list_all_iff)
  moreover have "k = [] \<Longrightarrow> bcmp k key \<le> 0" by (cases key) simp_all
  ultimately show ?thesis
    using increment_prefix [of k key] by (auto simp: range_contains_def Let_def)
qed

end
