(* ===== verification/DbQuery.thy ===== *)
theory DbQuery
  imports DbKey JsonWrite Base64
begin

text \<open>
  \<^verbatim>\<open>MojDbQuery\<close> (\<^verbatim>\<open>src/db/MojDbQuery.cpp\<close>, \<^verbatim>\<open>src/db/MojDbUtils.cpp\<close>): the clauses of a query, how they
  are combined and validated, and their form as an object.
\<close>

section \<open>Operators and collations\<close>

datatype CompOp =
    OpNone | OpEq | OpNotEq | OpLessThan | OpLessThanEq | OpGreaterThan | OpGreaterThanEq
  | OpPrefix | OpSearch | OpSubString

datatype Collation =
    CollationInvalid | CollationPrimary | CollationSecondary | CollationTertiary
  | CollationQuaternary | CollationIdentical

definition s_ops :: "(string \<times> CompOp) list" where
  "s_ops = [(''='', OpEq), (''!='', OpNotEq), (''<'', OpLessThan), (''<='', OpLessThanEq),
            (''>'', OpGreaterThan), (''>='', OpGreaterThanEq), (''%'', OpPrefix), (''?'', OpSearch),
            (''%%'', OpSubString)]"

definition stringToOp :: "string \<Rightarrow> CompOp res" where
  "stringToOp str =
     (case find (\<lambda>op. MojStrCmp (fst op) str = 0) s_ops of
        Some op \<Rightarrow> Inr (snd op)
      | None \<Rightarrow> Inl MojErrDbInvalidQueryOp)"

text \<open>\<^verbatim>\<open>opToString\<close> indexes the table with the operator's number.\<close>

fun op_num :: "CompOp \<Rightarrow> nat" where
  "op_num OpNone = 0"
| "op_num OpEq = 1"
| "op_num OpNotEq = 2"
| "op_num OpLessThan = 3"
| "op_num OpLessThanEq = 4"
| "op_num OpGreaterThan = 5"
| "op_num OpGreaterThanEq = 6"
| "op_num OpPrefix = 7"
| "op_num OpSearch = 8"
| "op_num OpSubString = 9"

definition opToString :: "CompOp \<Rightarrow> string option" where
  "opToString op =
     (if op = OpNone \<or> op_num op > op_num OpSubString then None
      else Some (fst (s_ops ! (op_num op - 1))))"

definition s_collStrings :: "(string \<times> Collation) list" where
  "s_collStrings = [(''primary'', CollationPrimary), (''secondary'', CollationSecondary),
     (''tertiary'', CollationTertiary), (''quaternary'', CollationQuaternary),
     (''identical'', CollationIdentical), (''invalid'', CollationInvalid)]"

text \<open>Both loops stop at the entry that matches or at the last one, for \<^verbatim>\<open>invalid\<close>.\<close>

definition collationToString :: "Collation \<Rightarrow> string" where
  "collationToString coll =
     (case find (\<lambda>info. snd info = coll) s_collStrings of
        Some info \<Rightarrow> fst info
      | None \<Rightarrow> ''invalid'')"

definition collationFromString :: "string \<Rightarrow> Collation res" where
  "collationFromString str =
     (case find (\<lambda>info. MojStrCmp str (fst info) = 0) s_collStrings of
        Some info \<Rightarrow> if snd info = CollationInvalid then Inl MojErrDbInvalidCollation else Inr (snd info)
      | None \<Rightarrow> Inl MojErrDbInvalidCollation)"

section \<open>WhereClause\<close>

record where_clause =
  lowerOp :: CompOp
  upperOp :: CompOp
  lowerVal :: obj
  upperVal :: obj
  wcollation :: Collation

definition clause_init :: where_clause where
  "clause_init = \<lparr>lowerOp = OpNone, upperOp = OpNone, lowerVal = OUndefined, upperVal = OUndefined,
                  wcollation = CollationInvalid\<rparr>"

definition set_collation :: "Collation \<Rightarrow> where_clause \<Rightarrow> where_clause res" where
  "set_collation coll c =
     (if wcollation c \<noteq> CollationInvalid \<and> coll \<noteq> wcollation c
      then Inl MojErrDbInvalidQueryCollationMismatch
      else Inr (c\<lparr>wcollation := coll\<rparr>))"

definition setLower :: "CompOp \<Rightarrow> obj \<Rightarrow> Collation \<Rightarrow> where_clause \<Rightarrow> where_clause res" where
  "setLower op val coll c =
     (if lowerOp c \<noteq> OpNone then Inl MojErrDbInvalidQueryOpCombo
      else rbind (set_collation coll c) (\<lambda>c'. Inr (c'\<lparr>lowerOp := op, lowerVal := val\<rparr>)))"

definition setUpper :: "CompOp \<Rightarrow> obj \<Rightarrow> Collation \<Rightarrow> where_clause \<Rightarrow> where_clause res" where
  "setUpper op val coll c =
     (if upperOp c \<noteq> OpNone then Inl MojErrDbInvalidQueryOpCombo
      else rbind (set_collation coll c) (\<lambda>c'. Inr (c'\<lparr>upperOp := op, upperVal := val\<rparr>)))"

definition definesOrder :: "where_clause \<Rightarrow> bool" where
  "definesOrder c \<longleftrightarrow> lowerOp c \<noteq> OpEq \<or> obj_type (lowerVal c) = TypeArray"

definition clause_eq :: "where_clause \<Rightarrow> where_clause \<Rightarrow> bool" where
  "clause_eq c d \<longleftrightarrow> lowerOp c = lowerOp d \<and> upperOp c = upperOp d \<and>
     obj_eq (lowerVal c) (lowerVal d) \<and> obj_eq (upperVal c) (upperVal d)"

section \<open>Clause maps\<close>

text \<open>
  \<^verbatim>\<open>WhereMap\<close> is a hash map; here it is the list of its nodes in the order of its iterators, where
  a new node comes first.
\<close>

type_synonym where_map = "(string \<times> where_clause) list"

text \<open>An update through the iterator that \<^verbatim>\<open>find\<close> returned, and \<^verbatim>\<open>put\<close>.\<close>

fun where_update :: "string \<Rightarrow> where_clause \<Rightarrow> where_map \<Rightarrow> where_map" where
  "where_update key c [] = []"
| "where_update key c ((k, d) # m) =
     (if MojStrCmp k key = 0 then (k, c) # m else (k, d) # where_update key c m)"

definition where_put :: "string \<Rightarrow> where_clause \<Rightarrow> where_map \<Rightarrow> where_map" where
  "where_put key c m = (if map_get MojStrCmp key m = None then (key, c) # m else where_update key c m)"

definition where_find :: "string \<Rightarrow> where_map \<Rightarrow> where_clause option" where
  "where_find key m = map_get MojStrCmp key m"

definition createClause ::
  "where_map \<Rightarrow> string \<Rightarrow> CompOp \<Rightarrow> obj \<Rightarrow> Collation \<Rightarrow> where_map res" where
  "createClause m propName op val coll =
     rbind (if op = OpLessThan \<or> op = OpLessThanEq then setUpper op val coll clause_init
            else setLower op val coll clause_init)
       (\<lambda>clause. Inr (where_put propName clause m))"

definition updateClause ::
  "where_clause \<Rightarrow> CompOp \<Rightarrow> obj \<Rightarrow> Collation \<Rightarrow> where_clause res" where
  "updateClause clause op val coll =
     (if op = OpLessThan \<or> op = OpLessThanEq then
        (if lowerOp clause \<noteq> OpNone \<and> lowerOp clause \<noteq> OpGreaterThan \<and> lowerOp clause \<noteq> OpGreaterThanEq
         then Inl MojErrDbInvalidQueryOpCombo
         else setUpper op val coll clause)
      else if op = OpGreaterThan \<or> op = OpGreaterThanEq then
        (if upperOp clause \<noteq> OpNone \<and> upperOp clause \<noteq> OpLessThan \<and> upperOp clause \<noteq> OpLessThanEq
         then Inl MojErrDbInvalidQueryOpCombo
         else setLower op val coll clause)
      else Inl MojErrDbInvalidQueryOpCombo)"

definition addClause ::
  "where_map \<Rightarrow> string \<Rightarrow> CompOp \<Rightarrow> obj \<Rightarrow> Collation \<Rightarrow> where_map res" where
  "addClause m propName op val coll =
     (if \<not> (op_num op \<ge> op_num OpEq \<and> op_num op \<le> op_num OpSubString) then Inl MojErrDbInvalidQuery
      else if obj_type val = TypeArray \<and> op \<noteq> OpEq \<and> op \<noteq> OpPrefix \<and> op \<noteq> OpSubString
      then Inl MojErrDbInvalidQuery
      else
        case where_find propName m of
          None \<Rightarrow> createClause m propName op val coll
        | Some clause \<Rightarrow>
            rbind (updateClause clause op val coll) (\<lambda>clause'. Inr (where_update propName clause' m)))"

section \<open>MojDbQuery\<close>

definition LimitDefault :: u32 where "LimitDefault = 4294967295"

text \<open>The pointer \<^verbatim>\<open>m_forceIndex\<close>, set for statistics only, is left out.\<close>

record db_query =
  q_fromType :: string
  q_selectProps :: "string list"
  q_whereClauses :: where_map
  q_filterClauses :: where_map
  q_page :: dbkey
  q_orderProp :: string
  q_distinct :: string
  q_limit :: u32
  q_desc :: bool
  q_ignoreInactiveShards :: bool

definition query_init :: "db_query \<Rightarrow> db_query" where
  "query_init q = q\<lparr>q_limit := LimitDefault, q_desc := False, q_ignoreInactiveShards := True\<rparr>"

definition query_new :: db_query where
  "query_new = query_init \<lparr>q_fromType = [], q_selectProps = [], q_whereClauses = [], q_filterClauses = [],
     q_page = [], q_orderProp = [], q_distinct = [], q_limit = 0, q_desc = False, q_ignoreInactiveShards = False\<rparr>"

definition query_clear :: "db_query \<Rightarrow> db_query" where
  "query_clear q = (query_init q)\<lparr>q_fromType := [], q_selectProps := [], q_whereClauses := [],
     q_filterClauses := [], q_page := []\<rparr>"

definition query_select :: "string \<Rightarrow> db_query \<Rightarrow> db_query" where
  "query_select propName q = q\<lparr>q_selectProps := set_put MojStrCmp propName (q_selectProps q)\<rparr>"

definition query_from :: "string \<Rightarrow> db_query \<Rightarrow> db_query" where
  "query_from type q = q\<lparr>q_fromType := type\<rparr>"

definition query_where :: "string \<Rightarrow> CompOp \<Rightarrow> obj \<Rightarrow> Collation \<Rightarrow> db_query \<Rightarrow> db_query res" where
  "query_where propName op val coll q =
     rbind (addClause (q_whereClauses q) propName op val coll) (\<lambda>m. Inr (q\<lparr>q_whereClauses := m\<rparr>))"

definition query_filter :: "string \<Rightarrow> CompOp \<Rightarrow> obj \<Rightarrow> db_query \<Rightarrow> db_query res" where
  "query_filter propName op val q =
     rbind (addClause (q_filterClauses q) propName op val CollationInvalid) (\<lambda>m. Inr (q\<lparr>q_filterClauses := m\<rparr>))"

definition query_order :: "string \<Rightarrow> db_query \<Rightarrow> db_query" where
  "query_order propName q = q\<lparr>q_orderProp := propName\<rparr>"

definition query_distinct :: "string \<Rightarrow> db_query \<Rightarrow> db_query" where
  "query_distinct d q = q\<lparr>q_distinct := d\<rparr>"

definition DelKey :: string where "DelKey = ''_del''"

definition query_includeDeleted :: "bool \<Rightarrow> db_query \<Rightarrow> db_query res" where
  "query_includeDeleted val q =
     (if val then query_where DelKey OpEq (OArray [OBool False, OBool True]) CollationInvalid q else Inr q)"

section \<open>Validation\<close>

fun validate_where :: "bool \<Rightarrow> bool \<Rightarrow> where_map \<Rightarrow> unit res" where
  "validate_where hasInequalityOp hasArrayVal [] = Inr ()"
| "validate_where hasInequalityOp hasArrayVal ((key, c) # m) =
     (if lowerOp c \<noteq> OpEq \<and> hasInequalityOp then Inl MojErrDbInvalidQuery
      else
        let arr = (obj_type (lowerVal c) = TypeArray \<and> MojStrCmp key DelKey \<noteq> 0) in
        if arr \<and> hasArrayVal then Inl MojErrDbInvalidQuery
        else validate_where (hasInequalityOp \<or> lowerOp c \<noteq> OpEq) (hasArrayVal \<or> arr) m)"

fun validate_filter :: "where_map \<Rightarrow> unit res" where
  "validate_filter [] = Inr ()"
| "validate_filter ((key, c) # m) =
     (if lowerOp c = OpPrefix then Inl MojErrDbInvalidQuery
      else if lowerOp c = OpSearch then Inl MojErrDbInvalidQuery
      else validate_filter m)"

definition query_validate :: "db_query \<Rightarrow> unit res" where
  "query_validate q =
     rbind (validate_where False False (q_whereClauses q)) (\<lambda>_. validate_filter (q_filterClauses q))"

fun validate_find_where :: "string \<Rightarrow> where_map \<Rightarrow> unit res" where
  "validate_find_where orderProp [] = Inr ()"
| "validate_find_where orderProp ((key, c) # m) =
     (if definesOrder c \<and> \<not> (orderProp = [] \<or> MojStrCmp orderProp key = 0) then Inl MojErrDbInvalidQuery
      else if lowerOp c = OpSearch then Inl MojErrDbInvalidQuery
      else validate_find_where orderProp m)"

definition query_validateFind :: "db_query \<Rightarrow> unit res" where
  "query_validateFind q =
     rbind (validate_find_where (q_orderProp q) (q_whereClauses q)) (\<lambda>_.
       if q_filterClauses q \<noteq> [] then Inl MojErrDbInvalidQuery else Inr ())"

text \<open>\<^verbatim>\<open>operator==\<close>; hash maps are equal if they are as large and every node has its equal.\<close>

definition where_eq :: "where_map \<Rightarrow> where_map \<Rightarrow> bool" where
  "where_eq m n \<longleftrightarrow> length m = length n \<and>
     (\<forall>(k, c) \<in> set m. case where_find k n of None \<Rightarrow> False | Some d \<Rightarrow> clause_eq c d)"

definition query_eq :: "db_query \<Rightarrow> db_query \<Rightarrow> bool" where
  "query_eq q r \<longleftrightarrow>
     q_fromType q = q_fromType r \<and> q_selectProps q = q_selectProps r \<and>
     where_eq (q_whereClauses q) (q_whereClauses r) \<and> q_page q = q_page r \<and>
     q_orderProp q = q_orderProp r \<and> q_distinct q = q_distinct r \<and> q_limit q = q_limit r \<and> q_desc q = q_desc r"

section \<open>Queries as objects\<close>

definition PropKey :: string where "PropKey = ''prop''"
definition OpKey :: string where "OpKey = ''op''"
definition ValKey :: string where "ValKey = ''val''"
definition CollateKey :: string where "CollateKey = ''collate''"

definition appendClause :: "string \<Rightarrow> CompOp \<Rightarrow> obj \<Rightarrow> Collation \<Rightarrow> ev list res" where
  "appendClause propName op val coll =
     (case opToString op of
        None \<Rightarrow> Inl MojErrDbInvalidQueryOp
      | Some opStr \<Rightarrow>
          Inr (BeginObject # stringProp PropKey propName @ stringProp OpKey opStr @ objectProp ValKey val @
               (if coll \<noteq> CollationInvalid then stringProp CollateKey (collationToString coll) else []) @
               [EndObject]))"

fun appendClauses_loop :: "where_map \<Rightarrow> ev list res" where
  "appendClauses_loop [] = Inr []"
| "appendClauses_loop ((key, c) # m) =
     rbind (if lowerOp c \<noteq> OpNone then appendClause key (lowerOp c) (lowerVal c) (wcollation c) else Inr []) (\<lambda>lo.
     rbind (if upperOp c \<noteq> OpNone then appendClause key (upperOp c) (upperVal c) (wcollation c) else Inr []) (\<lambda>up.
     rbind (appendClauses_loop m) (\<lambda>rest. Inr (lo @ up @ rest))))"

definition appendClauses :: "string \<Rightarrow> where_map \<Rightarrow> ev list res" where
  "appendClauses propName m =
     rbind (appendClauses_loop m) (\<lambda>es. Inr (PropName propName # BeginArray # es @ [EndArray]))"

text \<open>The clauses of an object; each is looked at in turn, and the first error ends the loop.\<close>

definition addClause_obj :: "where_map \<Rightarrow> obj \<Rightarrow> where_map res" where
  "addClause_obj m clause =
     rbind (getRequired_string PropKey clause) (\<lambda>prop.
     rbind (getRequired_string OpKey clause) (\<lambda>opStr.
     rbind (stringToOp opStr) (\<lambda>op.
     rbind (getRequired ValKey clause) (\<lambda>val.
     rbind (get_string CollateKey clause) (\<lambda>found.
     rbind (case found of None \<Rightarrow> Inr CollationInvalid | Some s \<Rightarrow> collationFromString s) (\<lambda>coll.
     addClause m prop op val coll))))))"

definition addClauses :: "where_map \<Rightarrow> obj \<Rightarrow> where_map res" where
  "addClauses m array = run addClause_obj m (case array of OArray xs \<Rightarrow> xs | _ \<Rightarrow> [])"

definition page_fromObject :: "obj \<Rightarrow> dbkey res" where
  "page_fromObject obj = rbind (obj_stringValue obj) base64Decode"

definition page_toObject :: "dbkey \<Rightarrow> obj res" where
  "page_toObject key = rbind (base64Encode key False) (\<lambda>str. Inr (OString str))"

text \<open>\<^verbatim>\<open>toObject\<close> writes the where clauses once more in place of the filter clauses.\<close>

definition query_events :: "db_query \<Rightarrow> ev list res" where
  "query_events q =
     rbind (if q_whereClauses q \<noteq> [] then appendClauses ''where'' (q_whereClauses q) else Inr []) (\<lambda>wh.
     rbind (if q_filterClauses q \<noteq> [] then appendClauses ''where'' (q_whereClauses q) else Inr []) (\<lambda>fi.
     rbind (if q_page q \<noteq> [] then rbind (page_toObject (q_page q)) (\<lambda>obj. Inr (objectProp ''page'' obj)) else Inr []) (\<lambda>pg.
     Inr (BeginObject #
       (if q_selectProps q \<noteq> [] then PropName ''select'' # BeginArray # map StringValue (q_selectProps q) @ [EndArray] else []) @
       stringProp ''from'' (q_fromType q) @ wh @ fi @
       (if q_orderProp q \<noteq> [] then stringProp ''orderBy'' (q_orderProp q) else []) @
       (if q_distinct q \<noteq> [] then stringProp ''distinct'' (q_distinct q) else []) @
       (if q_desc q then boolProp ''desc'' True else []) @
       (if q_limit q \<noteq> LimitDefault then intProp ''limit'' (ucast (q_limit q)) else []) @
       pg @ [EndObject]))))"

definition query_toObject :: "db_query \<Rightarrow> obj res" where
  "query_toObject q = rbind (query_events q) (\<lambda>es. rbind (run builder_ev builder_reset es) (\<lambda>b. Inr (m_obj b)))"

definition select_obj :: "db_query \<Rightarrow> obj \<Rightarrow> db_query res" where
  "select_obj q prop = rbind (obj_stringValue prop) (\<lambda>str. Inr (query_select str q))"

definition query_from_select :: "obj \<Rightarrow> db_query \<Rightarrow> db_query res" where
  "query_from_select obj q =
     rbind (case obj_get ''select'' obj of
              None \<Rightarrow> Inr q
            | Some array \<Rightarrow>
                if containerSize array = 0 then Inl MojErrDbInvalidQuery
                else run select_obj q (case array of OArray xs \<Rightarrow> xs | _ \<Rightarrow> [])) (\<lambda>q1.
     rbind (get_string ''orderBy'' obj) (\<lambda>found.
     Inr (case found of None \<Rightarrow> q1 | Some str \<Rightarrow> query_order str q1)))"

definition query_from_limit :: "obj \<Rightarrow> db_query \<Rightarrow> db_query res" where
  "query_from_limit obj q =
     (case get_int MojStrToInt64 ''limit'' obj of
        None \<Rightarrow> Inr (q\<lparr>q_limit := LimitDefault\<rparr>)
      | Some lim \<Rightarrow> if sint lim < 0 then Inl MojErrDbInvalidQuery else Inr (q\<lparr>q_limit := ucast lim\<rparr>))"

definition query_fromObject :: "obj \<Rightarrow> db_query \<Rightarrow> db_query res" where
  "query_fromObject obj q =
     rbind (get_string ''distinct'' obj) (\<lambda>found.
     rbind (case found of
              Some str \<Rightarrow> Inr (query_order str (query_select str (query_distinct str q)))
            | None \<Rightarrow> query_from_select obj q) (\<lambda>q1.
     rbind (getRequired_string ''from'' obj) (\<lambda>str.
     rbind (case obj_get ''where'' obj of
              None \<Rightarrow> Inr (q_whereClauses q1)
            | Some array \<Rightarrow> addClauses (q_whereClauses q1) array) (\<lambda>wh.
     rbind (case obj_get ''filter'' obj of
              None \<Rightarrow> Inr (q_filterClauses q1)
            | Some array \<Rightarrow> addClauses (q_filterClauses q1) array) (\<lambda>fi.
     let q2 = (query_from str q1)\<lparr>q_whereClauses := wh, q_filterClauses := fi\<rparr>;
         q3 = (case get_bool ''desc'' obj of None \<Rightarrow> q2 | Some d \<Rightarrow> q2\<lparr>q_desc := d\<rparr>)
     in
     rbind (query_from_limit obj q3) (\<lambda>q4.
     rbind (case obj_get ''page'' obj of
              None \<Rightarrow> Inr q4
            | Some pageObj \<Rightarrow> rbind (page_fromObject pageObj) (\<lambda>key. Inr (q4\<lparr>q_page := key\<rparr>))) (\<lambda>q5.
     if get_bool ''incDel'' obj = Some True then query_includeDeleted True q5 else Inr q5)))))))"

section \<open>Names\<close>

lemma op_names:
  "op \<noteq> OpNone \<Longrightarrow> rbind (case opToString op of None \<Rightarrow> Inl MojErrDbInvalidQueryOp | Some s \<Rightarrow> Inr s) stringToOp = Inr op"
  by (cases op) (simp_all add: opToString_def stringToOp_def s_ops_def numeral_eq_Suc)

lemma collation_names:
  "coll \<noteq> CollationInvalid \<Longrightarrow> collationFromString (collationToString coll) = Inr coll"
  by (cases coll) (simp_all add: collationToString_def collationFromString_def s_collStrings_def)

section \<open>The meaning of a clause map\<close>

text \<open>
  Whatever an operator means, a clause asks for both its bounds and a map for all its clauses. Adding
  a condition to a map, by a new clause or as the second bound of an old one, then is conjunction.
\<close>

type_synonym op_meaning = "CompOp \<Rightarrow> obj \<Rightarrow> Collation \<Rightarrow> obj \<Rightarrow> bool"

definition clause_matches :: "op_meaning \<Rightarrow> where_clause \<Rightarrow> obj \<Rightarrow> bool" where
  "clause_matches opm c v \<longleftrightarrow>
     (lowerOp c \<noteq> OpNone \<longrightarrow> opm (lowerOp c) (lowerVal c) (wcollation c) v) \<and>
     (upperOp c \<noteq> OpNone \<longrightarrow> opm (upperOp c) (upperVal c) (wcollation c) v)"

definition where_matches :: "op_meaning \<Rightarrow> where_map \<Rightarrow> (string \<Rightarrow> obj) \<Rightarrow> bool" where
  "where_matches opm m val \<longleftrightarrow> (\<forall>(k, c) \<in> set m. clause_matches opm c (val k))"

definition is_upper :: "CompOp \<Rightarrow> bool" where
  "is_upper op \<longleftrightarrow> op = OpLessThan \<or> op = OpLessThanEq"

definition is_lower :: "CompOp \<Rightarrow> bool" where
  "is_lower op \<longleftrightarrow> op = OpGreaterThan \<or> op = OpGreaterThanEq"

text \<open>
  The clauses the operations build: one bound or a lower and an upper one, arrays only where they
  are allowed; the keys of a map are distinct.
\<close>

definition clause_ok :: "where_clause \<Rightarrow> bool" where
  "clause_ok c \<longleftrightarrow>
     (lowerOp c \<noteq> OpNone \<or> upperOp c \<noteq> OpNone) \<and>
     (upperOp c = OpNone \<or> is_upper (upperOp c)) \<and> \<not> is_upper (lowerOp c) \<and>
     (upperOp c \<noteq> OpNone \<longrightarrow> lowerOp c = OpNone \<or> is_lower (lowerOp c)) \<and>
     (obj_type (lowerVal c) = TypeArray \<longrightarrow> lowerOp c \<in> {OpEq, OpPrefix, OpSubString}) \<and>
     obj_type (upperVal c) \<noteq> TypeArray \<and>
     (lowerOp c = OpNone \<longrightarrow> lowerVal c = OUndefined) \<and> (upperOp c = OpNone \<longrightarrow> upperVal c = OUndefined)"

definition where_ok :: "where_map \<Rightarrow> bool" where
  "where_ok m \<longleftrightarrow> distinct (map fst m) \<and> (\<forall>(k, c) \<in> set m. nonul k \<and> clause_ok c)"

definition op_valid :: "CompOp \<Rightarrow> obj \<Rightarrow> bool" where
  "op_valid op val \<longleftrightarrow> op \<noteq> OpNone \<and> (obj_type val = TypeArray \<longrightarrow> op \<in> {OpEq, OpPrefix, OpSubString})"

lemmas clause_defs = setLower_def setUpper_def set_collation_def clause_ok_def is_upper_def is_lower_def
  op_valid_def clause_matches_def clause_init_def

lemma setLower_result:
  "setLower op val coll c = Inr c' \<longleftrightarrow> lowerOp c = OpNone \<and>
     (wcollation c = CollationInvalid \<or> coll = wcollation c) \<and>
     c' = c\<lparr>wcollation := coll, lowerOp := op, lowerVal := val\<rparr>"
  by (auto simp: setLower_def set_collation_def)

lemma setUpper_result:
  "setUpper op val coll c = Inr c' \<longleftrightarrow> upperOp c = OpNone \<and>
     (wcollation c = CollationInvalid \<or> coll = wcollation c) \<and>
     c' = c\<lparr>wcollation := coll, upperOp := op, upperVal := val\<rparr>"
  by (auto simp: setUpper_def set_collation_def)

lemma createClause_result:
  "createClause m k op val coll = Inr m' \<Longrightarrow>
   \<exists>c. m' = where_put k c m \<and> wcollation c = coll \<and>
     (if is_upper op then lowerOp c = OpNone \<and> lowerVal c = OUndefined \<and> upperOp c = op \<and> upperVal c = val
      else upperOp c = OpNone \<and> upperVal c = OUndefined \<and> lowerOp c = op \<and> lowerVal c = val)"
  by (auto simp: createClause_def rbind_Inr_iff setLower_result setUpper_result clause_init_def is_upper_def
      split: if_splits)

lemma updateClause_result:
  "updateClause c op val coll = Inr c' \<Longrightarrow>
   (wcollation c = CollationInvalid \<or> coll = wcollation c) \<and>
   (is_upper op \<and> upperOp c = OpNone \<and> (lowerOp c = OpNone \<or> is_lower (lowerOp c)) \<and>
      c' = c\<lparr>wcollation := coll, upperOp := op, upperVal := val\<rparr> \<or>
    is_lower op \<and> lowerOp c = OpNone \<and> (upperOp c = OpNone \<or> is_upper (upperOp c)) \<and>
      c' = c\<lparr>wcollation := coll, lowerOp := op, lowerVal := val\<rparr>)"
  by (auto simp: updateClause_def setLower_result setUpper_result is_upper_def is_lower_def split: if_splits)

lemma updateClause_ok:
  "updateClause c op val coll = Inr c' \<Longrightarrow> clause_ok c \<Longrightarrow> op_valid op val \<Longrightarrow> clause_ok c'"
  by (drule updateClause_result, elim conjE disjE)
    (auto simp: clause_ok_def is_upper_def is_lower_def op_valid_def)

section \<open>Maps of distinct keys\<close>

lemma nonul_key_eq: "nonul k \<Longrightarrow> nonul k' \<Longrightarrow> MojStrCmp k k' = 0 \<longleftrightarrow> k = k'"
  by (rule str_comp_nonul.cmp_eq_iff)

lemma where_find_mem:
  "\<forall>(k, c) \<in> set m. nonul k \<Longrightarrow> nonul key \<Longrightarrow> distinct (map fst m) \<Longrightarrow>
   where_find key m = Some c \<longleftrightarrow> (key, c) \<in> set m"
  by (induction m) (force simp: where_find_def nonul_key_eq)+

lemma where_find_none:
  "\<forall>(k, c) \<in> set m. nonul k \<Longrightarrow> nonul key \<Longrightarrow> where_find key m = None \<longleftrightarrow> key \<notin> fst ` set m"
  by (induction m) (force simp: where_find_def nonul_key_eq split: if_splits)+

lemma where_update_set:
  "\<forall>(k, c) \<in> set m. nonul k \<Longrightarrow> nonul key \<Longrightarrow> distinct (map fst m) \<Longrightarrow> key \<in> fst ` set m \<Longrightarrow>
   set (where_update key c m) = insert (key, c) {p \<in> set m. fst p \<noteq> key} \<and> map fst (where_update key c m) = map fst m"
proof (induction m)
  case (Cons p m)
  obtain k d where p: "p = (k, d)" by (cases p)
  show ?case
  proof (cases "k = key")
    case True
    then have "\<forall>q \<in> set m. fst q \<noteq> key" using Cons.prems(3) p by force
    then show ?thesis using True Cons.prems p by (auto simp: nonul_key_eq)
  next
    case False
    then have "MojStrCmp k key \<noteq> 0" using Cons.prems p by (simp add: nonul_key_eq)
    then show ?thesis using Cons False p by auto
  qed
qed simp

section \<open>addClause\<close>

lemma addClause_cases:
  assumes "where_ok m" "nonul k" "addClause m k op val coll = Inr m'"
  obtains (create) c where "k \<notin> fst ` set m" "m' = (k, c) # m" "op_valid op val"
      "createClause m k op val coll = Inr m'"
    | (update) c c' where "(k, c) \<in> set m" "updateClause c op val coll = Inr c'" "m' = where_update k c' m" "op_valid op val"
proof -
  have n: "\<forall>(k, c) \<in> set m. nonul k" "distinct (map fst m)" using assms(1) by (auto simp: where_ok_def)
  have v: "op_valid op val"
    using assms(3) by (cases op) (auto simp: addClause_def op_valid_def split: if_splits)
  show thesis
  proof (cases "where_find k m")
    case None
    have c: "createClause m k op val coll = Inr m'"
      using assms(3) None by (simp add: addClause_def split: if_splits)
    then obtain c where "m' = where_put k c m" using createClause_result by blast
    then show thesis
      using create [of c] None c v where_find_none [OF n(1) assms(2)] by (simp add: where_put_def where_find_def)
  next
    case (Some c)
    then obtain c' where "updateClause c op val coll = Inr c'" "m' = where_update k c' m"
      using assms(3) by (auto simp: addClause_def rbind_Inr_iff split: if_splits)
    then show thesis using update [of c c'] Some v where_find_mem [OF n(1) assms(2) n(2)] by simp
  qed
qed

lemma addClause_ok:
  assumes "where_ok m" "nonul k" "addClause m k op val coll = Inr m'"
  shows "where_ok m'"
  using assms
proof (cases rule: addClause_cases)
  case (create c)
  obtain d where d: "m' = where_put k d m"
    "if is_upper op then lowerOp d = OpNone \<and> lowerVal d = OUndefined \<and> upperOp d = op \<and> upperVal d = val
      else upperOp d = OpNone \<and> upperVal d = OUndefined \<and> lowerOp d = op \<and> lowerVal d = val"
    using createClause_result [OF create(4)] by blast
  have "where_find k m = None"
    using create(1) assms(1,2) where_find_none [of m k] by (auto simp: where_ok_def)
  then have "d = c" using d(1) create(2) by (simp add: where_put_def where_find_def)
  then have "clause_ok c"
    using d(2) create(3) by (auto simp: clause_ok_def op_valid_def is_upper_def split: if_splits)
  then show ?thesis using create assms by (auto simp: where_ok_def)
next
  case (update c c')
  have n: "\<forall>(k, c) \<in> set m. nonul k" "distinct (map fst m)" "k \<in> fst ` set m"
    using assms(1) update(1) by (auto simp: where_ok_def rev_image_eqI)
  have "clause_ok c'" using updateClause_ok [OF update(2) _ update(4)] assms(1) update(1) by (auto simp: where_ok_def)
  then show ?thesis
    using where_update_set [OF n(1) assms(2) n(2,3), of c'] update(3) assms(1,2) by (auto simp: where_ok_def)
qed

text \<open>
  The second bound of a property brings its collation with it: the bound that was there is read under
  it from then on.
\<close>

definition where_recollate :: "string \<Rightarrow> Collation \<Rightarrow> where_map \<Rightarrow> where_map" where
  "where_recollate k coll m = map (\<lambda>(j, c). (j, if j = k then c\<lparr>wcollation := coll\<rparr> else c)) m"

lemma where_recollate_set:
  assumes "distinct (map fst m)" "(k, c) \<in> set m"
  shows "set (where_recollate k coll m) =
    insert (k, c\<lparr>wcollation := coll\<rparr>) {p \<in> set m. fst p \<noteq> k}"
proof -
  let ?f = "\<lambda>(j, d). (j, if j = k then d\<lparr>wcollation := coll\<rparr> else d)" and ?r = "{p \<in> set m. fst p \<noteq> k}"
  have "set m = insert (k, c) ?r" using assms by (auto simp: eq_key_imp_eq_value)
  then have "?f ` set m = insert (k, c\<lparr>wcollation := coll\<rparr>) (?f ` ?r)"
    using image_insert [of ?f "(k, c)" ?r] by simp
  moreover have "?f ` ?r = id ` ?r" by (rule image_cong) auto
  ultimately show ?thesis by (simp add: where_recollate_def)
qed

lemma where_recollate_new: "k \<notin> fst ` set m \<Longrightarrow> where_recollate k coll m = m"
  unfolding where_recollate_def by (rule map_idI) force

lemma where_recollate_same:
  assumes "\<forall>c. (k, c) \<in> set m \<longrightarrow> wcollation c = coll"
  shows "where_recollate k coll m = m"
  unfolding where_recollate_def using assms by (intro map_idI) auto

text \<open>
  C30. Adding a condition to the clauses of a query is conjunction: whatever the operators mean, the
  map that \<^verbatim>\<open>addClause\<close> returns is matched by exactly the values that match the map before and the
  new condition, under the collation of the new condition for both bounds of its property. It is
  accepted only when the bound already there has that collation or none, so the old bound is read
  differently only when it had none. The map is one of well-formed clauses again.
\<close>

theorem addClause_conjunction:
  assumes "where_ok m" "nonul k" "addClause m k op val coll = Inr m'"
  shows "where_ok m' \<and>
    (\<forall>c. where_find k m = Some c \<longrightarrow> wcollation c = CollationInvalid \<or> wcollation c = coll) \<and>
    (where_matches opm m' vals \<longleftrightarrow>
       where_matches opm (where_recollate k coll m) vals \<and> opm op val coll (vals k))"
proof (intro conjI)
  show "where_ok m'" using assms by (rule addClause_ok)
  have n: "\<forall>(k, c) \<in> set m. nonul k" "distinct (map fst m)" using assms(1) by (auto simp: where_ok_def)
  from assms show "\<forall>c. where_find k m = Some c \<longrightarrow> wcollation c = CollationInvalid \<or> wcollation c = coll"
  proof (cases rule: addClause_cases)
    case (create c)
    then show ?thesis using where_find_none [OF n(1) assms(2)] by simp
  next
    case (update c c')
    have "where_find k m = Some c" using where_find_mem [OF n(1) assms(2) n(2)] update(1) by simp
    then show ?thesis using updateClause_result [OF update(2)] by auto
  qed
  from assms show "where_matches opm m' vals \<longleftrightarrow>
      where_matches opm (where_recollate k coll m) vals \<and> opm op val coll (vals k)"
  proof (cases rule: addClause_cases)
    case (create c)
    obtain d where d: "m' = where_put k d m" "wcollation d = coll"
      "if is_upper op then lowerOp d = OpNone \<and> lowerVal d = OUndefined \<and> upperOp d = op \<and> upperVal d = val
        else upperOp d = OpNone \<and> upperVal d = OUndefined \<and> lowerOp d = op \<and> lowerVal d = val"
      using createClause_result [OF create(4)] by blast
    have "where_find k m = None" using create(1) n(1) assms(2) where_find_none [of m k] by auto
    then have "d = c" using d(1) create(2) by (simp add: where_put_def where_find_def)
    then have "clause_matches opm c v \<longleftrightarrow> opm op val coll v" for v
      using d(2,3) create(3) by (auto simp: clause_matches_def op_valid_def split: if_splits)
    then show ?thesis using create(2) where_recollate_new [OF create(1)] by (auto simp: where_matches_def)
  next
    case (update c c')
    have k: "k \<in> fst ` set m" using update(1) by (auto simp: rev_image_eqI)
    have "clause_matches opm c' v \<longleftrightarrow> clause_matches opm (c\<lparr>wcollation := coll\<rparr>) v \<and> opm op val coll v" for v
      using updateClause_result [OF update(2)] update(4) by (auto simp: clause_matches_def op_valid_def)
    then show ?thesis
      unfolding where_matches_def update(3) where_recollate_set [OF n(2) update(1)]
        conjunct1 [OF where_update_set [OF n(1) assms(2) n(2) k]] by auto
  qed
qed

theorem addClause_conjunction_witness:
  "addClause [(''a'', \<lparr>lowerOp = OpGreaterThan, upperOp = OpNone, lowerVal = OString ''B'', upperVal = OUndefined, wcollation = CollationInvalid\<rparr>)]
     ''a'' OpLessThan (OString ''d'') CollationPrimary =
   Inr [(''a'', \<lparr>lowerOp = OpGreaterThan, upperOp = OpLessThan, lowerVal = OString ''B'', upperVal = OString ''d'', wcollation = CollationPrimary\<rparr>)] \<and>
   (where_matches (\<lambda>op v coll w. coll = CollationPrimary)
      [(''a'', \<lparr>lowerOp = OpGreaterThan, upperOp = OpLessThan, lowerVal = OString ''B'', upperVal = OString ''d'', wcollation = CollationPrimary\<rparr>)] (\<lambda>_. ONull) \<longleftrightarrow>
    where_matches (\<lambda>op v coll w. coll = CollationPrimary)
      [(''a'', \<lparr>lowerOp = OpGreaterThan, upperOp = OpNone, lowerVal = OString ''B'', upperVal = OUndefined, wcollation = CollationPrimary\<rparr>)] (\<lambda>_. ONull) \<and> True)"
  using addClause_conjunction [of "[(''a'', \<lparr>lowerOp = OpGreaterThan, upperOp = OpNone, lowerVal = OString ''B'', upperVal = OUndefined, wcollation = CollationInvalid\<rparr>)]"
      "''a''" OpLessThan "OString ''d''" CollationPrimary
      "[(''a'', \<lparr>lowerOp = OpGreaterThan, upperOp = OpLessThan, lowerVal = OString ''B'', upperVal = OString ''d'', wcollation = CollationPrimary\<rparr>)]"
      "\<lambda>op v coll w. coll = CollationPrimary" "\<lambda>_. ONull"]
  by (simp add: where_ok_def clause_ok_def is_upper_def is_lower_def addClause_def where_find_def updateClause_def
      setUpper_def set_collation_def where_recollate_def)

section \<open>Where the query's code departs from its intent\<close>

text \<open>
  Only the second of two conditions on a property may name the collation of both: in the other order
  the pair is refused, and a condition without a collation becomes one with the collation of the next.
\<close>

lemma collation_depends_on_order:
  "rbind (query_where ''a'' OpGreaterThan (OString ''B'') CollationInvalid query_new)
     (query_where ''a'' OpLessThan (OString ''d'') CollationPrimary) =
   Inr (query_new\<lparr>q_whereClauses := [(''a'', \<lparr>lowerOp = OpGreaterThan, upperOp = OpLessThan,
     lowerVal = OString ''B'', upperVal = OString ''d'', wcollation = CollationPrimary\<rparr>)]\<rparr>) \<and>
   rbind (query_where ''a'' OpLessThan (OString ''d'') CollationPrimary query_new)
     (query_where ''a'' OpGreaterThan (OString ''B'') CollationInvalid) =
   Inl MojErrDbInvalidQueryCollationMismatch"
  by (simp add: query_where_def query_new_def query_init_def addClause_def where_find_def createClause_def
      where_put_def updateClause_def setUpper_def setLower_def set_collation_def clause_init_def)

text \<open>\<^verbatim>\<open>clear\<close> leaves the order and the distinct property behind.\<close>

lemma clear_keeps_order: "q_orderProp (query_clear q) = q_orderProp q \<and> q_distinct (query_clear q) = q_distinct q"
  by (simp add: query_clear_def query_init_def)

text \<open>\<^verbatim>\<open>operator==\<close> of queries does not see the filter, that of clauses not the collation.\<close>

lemma query_eq_ignores_filter: "query_eq q r \<Longrightarrow> query_eq (q\<lparr>q_filterClauses := m\<rparr>) r"
  by (simp add: query_eq_def)

lemma clause_eq_ignores_collation: "clause_eq (c\<lparr>wcollation := coll\<rparr>) d = clause_eq c d"
  by (simp add: clause_eq_def)

text \<open>The limit is cast to 32 bits: a limit of \<open>2 ^ 32\<close> is one of none.\<close>

lemma limit_wraps: "query_from_limit (OObject [(''limit'', OInt 4294967296)]) q = Inr (q\<lparr>q_limit := 0\<rparr>)"
  by (simp add: query_from_limit_def get_int_def)

end
