(* ===== verification/DbFilter.thy ===== *)
theory DbFilter
  imports DbQuery
begin

text \<open>
  \<^verbatim>\<open>MojDbQueryFilter\<close> (\<^verbatim>\<open>src/db/MojDbQueryFilter.cpp\<close>): the filter clauses of a query tested on an
  object, along a dotted path and through arrays. The upper-case conversion and the search for a
  substring are the ICU library's and parameters.
\<close>

section \<open>Paths\<close>

text \<open>
  \<^verbatim>\<open>findValue\<close>: the walk along the path, with the array it collects the values in. An array met on
  the way is entered with the rest of the path; at the end an array gives its elements, without
  their \<^verbatim>\<open>_id\<close>.
\<close>

definition push_found :: "obj \<Rightarrow> obj \<Rightarrow> obj" where
  "push_found child valOut =
     (case child of
        OArray xs \<Rightarrow> foldl (\<lambda>out x. obj_push (snd (obj_del ''_id'' x)) out) valOut xs
      | _ \<Rightarrow> obj_push child valOut)"

function findValue :: "obj \<Rightarrow> string list \<Rightarrow> obj \<Rightarrow> bool \<times> obj" where
  "findValue child [] valOut = (True, push_found child valOut)"
| "findValue child (key # keys) valOut =
     (case child of
        OArray xs \<Rightarrow>
          let out = fold (\<lambda>x out. snd (findValue x (key # keys) out)) xs valOut
          in (containerSize out \<noteq> 0, out)
      | _ \<Rightarrow>
          (case obj_get key child of
             None \<Rightarrow> (False, valOut)
           | Some child' \<Rightarrow> findValue child' keys valOut))"
  by pat_completeness auto

termination
  by (relation "measures [\<lambda>(child, keys, out). length keys, \<lambda>(child, keys, out). size child]")
    (auto dest: obj_size_elem simp del: obj.size)

declare findValue.simps(2) [simp del]

section \<open>Tests\<close>

record text_lib =
  lib_toUpper :: "string \<Rightarrow> u16 list res"
  lib_strstr :: "u16 list \<Rightarrow> u16 list \<Rightarrow> bool"

text \<open>
  The function returns a \<^verbatim>\<open>bool\<close>, so that an error of the library that \<^verbatim>\<open>MojErrCheck\<close> returns counts
  as true.
\<close>

fun findSubString :: "text_lib \<Rightarrow> obj \<Rightarrow> obj \<Rightarrow> bool" where
  "findSubString lib src (OArray xs) = (\<exists>x \<in> set xs. findSubString lib src x)"
| "findSubString lib src (OString sub) =
     (case src of
        OString s \<Rightarrow>
          if s = [] \<and> sub = [] then True
          else if s = [] \<or> sub = [] then False
          else (case lib_toUpper lib s of
                  Inl e \<Rightarrow> True
                | Inr srcOut \<Rightarrow>
                    (case lib_toUpper lib sub of
                       Inl e \<Rightarrow> True
                     | Inr subOut \<Rightarrow> lib_strstr lib srcOut subOut))
      | _ \<Rightarrow> False)"
| "findSubString lib src _ = False"

definition testLower :: "text_lib \<Rightarrow> where_clause \<Rightarrow> obj \<Rightarrow> bool res" where
  "testLower lib clause v =
     (case lowerOp clause of
        OpNone \<Rightarrow> Inr True
      | OpEq \<Rightarrow>
          (case lowerVal clause of
             OArray xs \<Rightarrow> Inr (\<exists>x \<in> set xs. obj_eq v x)
           | _ \<Rightarrow> Inr (obj_eq v (lowerVal clause)))
      | OpNotEq \<Rightarrow> Inr (\<not> obj_eq v (lowerVal clause))
      | OpGreaterThan \<Rightarrow> Inr (obj_compare v (lowerVal clause) > 0)
      | OpGreaterThanEq \<Rightarrow> Inr (obj_compare v (lowerVal clause) \<ge> 0)
      | OpSubString \<Rightarrow> Inr (findSubString lib v (lowerVal clause))
      | _ \<Rightarrow> Inl MojAssertFailed)"

definition testUpper :: "where_clause \<Rightarrow> obj \<Rightarrow> bool res" where
  "testUpper clause v =
     (case upperOp clause of
        OpNone \<Rightarrow> Inr True
      | OpLessThan \<Rightarrow> Inr (obj_compare v (upperVal clause) < 0)
      | OpLessThanEq \<Rightarrow> Inr (obj_compare v (upperVal clause) \<le> 0)
      | _ \<Rightarrow> Inl MojAssertFailed)"

definition test_val :: "text_lib \<Rightarrow> where_clause \<Rightarrow> obj \<Rightarrow> bool res" where
  "test_val lib clause v =
     rbind (testLower lib clause v) (\<lambda>lo. if lo then testUpper clause v else Inr False)"

fun test_vals :: "text_lib \<Rightarrow> where_clause \<Rightarrow> obj list \<Rightarrow> bool res" where
  "test_vals lib clause [] = Inr False"
| "test_vals lib clause (v # vs) =
     rbind (test_val lib clause v) (\<lambda>b. if b then Inr True else test_vals lib clause vs)"

fun filter_test :: "text_lib \<Rightarrow> where_map \<Rightarrow> obj \<Rightarrow> bool res" where
  "filter_test lib [] obj = Inr True"
| "filter_test lib ((key, clause) # m) obj =
     (let (found, objVals) = findValue obj (str_split (CHR ''.'') key) OUndefined in
      if \<not> found then Inr False
      else rbind (test_vals lib clause (case objVals of OArray vs \<Rightarrow> vs | _ \<Rightarrow> [])) (\<lambda>b.
        if \<not> b then Inr False else filter_test lib m obj))"

section \<open>The operators a clause can have\<close>

text \<open>
  What \<^verbatim>\<open>addClause\<close> keeps of every clause: an upper bound stands alone or over a lower one, an
  array is compared for equality or as a prefix or substring, and one of the operators is set.
\<close>

definition clause_pre :: "where_clause \<Rightarrow> bool" where
  "clause_pre c \<longleftrightarrow> lowerOp c \<noteq> OpLessThan \<and> lowerOp c \<noteq> OpLessThanEq \<and>
     (upperOp c = OpNone \<or> upperOp c = OpLessThan \<or> upperOp c = OpLessThanEq) \<and>
     (upperOp c \<noteq> OpNone \<longrightarrow> lowerOp c = OpNone \<or> lowerOp c = OpGreaterThan \<or> lowerOp c = OpGreaterThanEq) \<and>
     (lowerOp c = OpNone \<longrightarrow> lowerVal c = OUndefined) \<and>
     (obj_type (lowerVal c) = TypeArray \<longrightarrow> lowerOp c = OpEq \<or> lowerOp c = OpPrefix \<or> lowerOp c = OpSubString) \<and>
     obj_type (upperVal c) \<noteq> TypeArray"

definition clause_shape :: "where_clause \<Rightarrow> bool" where
  "clause_shape c \<longleftrightarrow> clause_pre c \<and> (lowerOp c \<noteq> OpNone \<or> upperOp c \<noteq> OpNone)"

definition where_shape :: "where_map \<Rightarrow> bool" where
  "where_shape m \<longleftrightarrow> (\<forall>(k, c) \<in> set m. clause_shape c)"

lemma clause_init_pre [simp]: "clause_pre clause_init"
  by (simp add: clause_pre_def clause_init_def)

lemma setUpper_ok:
  assumes "setUpper op v coll c = Inr c'" "clause_pre c" "op = OpLessThan \<or> op = OpLessThanEq"
    and "lowerOp c = OpNone \<or> lowerOp c = OpGreaterThan \<or> lowerOp c = OpGreaterThanEq" "obj_type v \<noteq> TypeArray"
  shows "clause_shape c'"
proof -
  have "c' = c\<lparr>wcollation := coll, upperOp := op, upperVal := v\<rparr>"
    using assms(1) by (auto simp: setUpper_def set_collation_def split: if_splits)
  then show ?thesis using assms(2-5) unfolding clause_pre_def clause_shape_def by (elim disjE) simp_all
qed

lemma setLower_ok:
  assumes "setLower op v coll c = Inr c'" "clause_pre c" "op \<noteq> OpLessThan" "op \<noteq> OpLessThanEq" "op \<noteq> OpNone"
    and "upperOp c = OpNone \<or> op = OpGreaterThan \<or> op = OpGreaterThanEq"
    and "obj_type v = TypeArray \<Longrightarrow> op = OpEq \<or> op = OpPrefix \<or> op = OpSubString"
  shows "clause_shape c'"
proof -
  have "c' = c\<lparr>wcollation := coll, lowerOp := op, lowerVal := v\<rparr>"
    using assms(1) by (auto simp: setLower_def set_collation_def split: if_splits)
  then show ?thesis using assms(2-) unfolding clause_pre_def clause_shape_def by auto
qed

lemma where_update_ok: "where_shape m \<Longrightarrow> clause_shape c \<Longrightarrow> where_shape (where_update k c m)"
  by (induction k c m rule: where_update.induct) (auto simp: where_shape_def)

lemma where_put_ok: "where_shape m \<Longrightarrow> clause_shape c \<Longrightarrow> where_shape (where_put k c m)"
  by (simp add: where_put_def where_update_ok) (simp add: where_shape_def)

lemma where_find_ok: "where_shape m \<Longrightarrow> where_find k m = Some c \<Longrightarrow> clause_shape c"
  by (induction m) (auto simp: where_shape_def where_find_def split: if_splits)

lemma updateClause_shape:
  "updateClause c op v coll = Inr c' \<Longrightarrow> clause_pre c \<Longrightarrow> obj_type v \<noteq> TypeArray \<Longrightarrow> clause_shape c'"
  using setUpper_ok [of op v coll c c'] setLower_ok [of op v coll c c']
  by (auto simp: updateClause_def clause_pre_def split: if_splits)

lemma createClause_ok:
  assumes "createClause m k op v coll = Inr m'" "where_shape m" "op \<noteq> OpNone"
    and "obj_type v = TypeArray \<Longrightarrow> op = OpEq \<or> op = OpPrefix \<or> op = OpSubString"
  shows "where_shape m'"
proof -
  have "lowerOp clause_init = OpNone" "upperOp clause_init = OpNone" by (simp_all add: clause_init_def)
  then show ?thesis
    using assms setUpper_ok [of op v coll clause_init] setLower_ok [of op v coll clause_init]
    by (cases "obj_type v = TypeArray") (auto simp: createClause_def rbind_Inr_iff where_put_ok split: if_splits)
qed

lemma addClause_shape:
  assumes "addClause m k op v coll = Inr m'" "where_shape m"
  shows "where_shape m'"
proof (cases "where_find k m")
  case None
  have "op \<noteq> OpNone" using assms(1) by (auto simp: addClause_def split: if_splits)
  then show ?thesis
    using None assms createClause_ok [of m k op v coll m'] by (auto simp: addClause_def split: if_splits)
next
  case (Some c)
  then have "clause_pre c" using where_find_ok assms(2) clause_shape_def by blast
  moreover have "obj_type v \<noteq> TypeArray \<or> op = OpEq \<or> op = OpPrefix \<or> op = OpSubString"
    using assms(1) by (auto simp: addClause_def split: if_splits)
  ultimately show ?thesis
    using Some assms updateClause_shape [of c op v coll]
    by (auto simp: addClause_def rbind_Inr_iff where_update_ok updateClause_def split: if_splits)
qed

lemma addClause_obj_ok: "addClause_obj m obj = Inr m' \<Longrightarrow> where_shape m \<Longrightarrow> where_shape m'"
  by (auto simp: addClause_obj_def rbind_Inr_iff addClause_shape)

lemma addClauses_ok:
  assumes "addClauses m array = Inr m'" "where_shape m"
  shows "where_shape m'"
proof -
  have "where_shape m'" if "run addClause_obj m xs = Inr m'" "where_shape m" for xs m
    using that by (induction xs arbitrary: m) (auto simp: rbind_Inr_iff addClause_obj_ok)
  then show ?thesis using assms by (simp add: addClauses_def)
qed

section \<open>Filters return\<close>

lemma test_vals_total:
  assumes "clause_shape c" "lowerOp c \<noteq> OpPrefix" "lowerOp c \<noteq> OpSearch"
  shows "\<exists>b. test_vals lib c vs = Inr b"
proof (induction vs)
  case (Cons v vs)
  have "\<exists>b. testLower lib c v = Inr b"
    using assms by (auto simp: testLower_def clause_shape_def clause_pre_def split: CompOp.splits obj.splits)
  moreover have "\<exists>b. testUpper c v = Inr b"
    using assms by (auto simp: testUpper_def clause_shape_def clause_pre_def)
  ultimately have "\<exists>b. test_val lib c v = Inr b" by (auto simp: test_val_def)
  then show ?case using Cons by auto
qed (auto intro: exI [of _ False])

lemma filter_test_total: "where_shape m \<Longrightarrow> validate_filter m = Inr () \<Longrightarrow> \<exists>b. filter_test lib m obj = Inr b"
proof (induction m)
  case (Cons kc m)
  obtain k c where kc: "kc = (k, c)" by (cases kc)
  have "clause_shape c" "lowerOp c \<noteq> OpPrefix" "lowerOp c \<noteq> OpSearch" "validate_filter m = Inr ()" "where_shape m"
    using Cons.prems by (auto simp: kc where_shape_def split: if_splits)
  then obtain b where "filter_test lib m obj = Inr b" using Cons.IH by blast
  moreover have "\<exists>b. test_vals lib c vs = Inr b" for vs
    by (rule test_vals_total) fact+
  ultimately show ?case by (auto simp: kc Let_def rbind_def split: prod.split sum.split) (metis sum.distinct(1))+
qed (auto intro: exI [of _ True])

text \<open>
  C29. Filters that are read from an object and pass validation can be tested on every object:
  no test reaches the assertion for an operator that a filter does not know.
\<close>

theorem filter_test_safe:
  assumes "addClauses [] array = Inr m" "validate_filter m = Inr ()"
  shows "\<exists>b. filter_test lib m obj = Inr b"
proof -
  have "where_shape m" using addClauses_ok [OF assms(1)] by (simp add: where_shape_def)
  then show ?thesis using assms(2) by (rule filter_test_total)
qed

definition filter_ex :: obj where
  "filter_ex = OArray [OObject [(''op'', OString ''>=''), (''prop'', OString ''a.b''), (''val'', OInt 5)]]"

theorem filter_test_safe_witness:
  "\<exists>b. filter_test \<lparr>lib_toUpper = (\<lambda>_. Inr []), lib_strstr = (\<lambda>_ _. True)\<rparr>
     [(''a.b'', clause_init\<lparr>lowerOp := OpGreaterThanEq, lowerVal := OInt 5\<rparr>)]
     (OObject [(''a'', OArray [OObject [(''b'', OInt 7)]])]) = Inr b"
  by (rule filter_test_safe [of filter_ex]) (simp_all add: filter_ex_def addClauses_def, code_simp)

section \<open>Errors count as matches\<close>

text \<open>An error of the upper-case conversion makes every nonempty text match.\<close>

lemma substring_error_matches:
  "lib_toUpper lib s = Inl e \<Longrightarrow> s \<noteq> [] \<Longrightarrow> sub \<noteq> [] \<Longrightarrow> findSubString lib (OString s) (OString sub)"
  by simp

end
