(* ===== verification/DbExtract.thy ===== *)
theory DbExtract
  imports DbQuery
begin

text \<open>
  The extractors (\<^verbatim>\<open>src/db/MojDbExtractor.cpp\<close>, \<^verbatim>\<open>MojDbPropExtractor.cpp\<close>,
  \<^verbatim>\<open>MojDbMultiExtractor.cpp\<close>): the values of an indexed property, as the set of their keys. The
  collators and the tokenizers wrap the ICU library: their constructors are parameters.
\<close>

section \<open>The ICU library\<close>

text \<open>
  \<^verbatim>\<open>MojDbTextCollator::init\<close> makes a collator of a locale and a strength; \<^verbatim>\<open>MojDbTextTokenizer::init\<close>
  makes a tokenizer of a locale, which gives the keys of the words of a text.
\<close>

type_synonym tokenizer = "string \<Rightarrow> collator option \<Rightarrow> dbkey list res"

record icu =
  icu_collator :: "string \<Rightarrow> Collation \<Rightarrow> collator res"
  icu_tokenizer :: "string \<Rightarrow> tokenizer res"

section \<open>State\<close>

record prop_extractor =
  e_name :: string
  e_collation :: Collation
  e_default :: "dbkey list"
  e_prop :: "string list"
  e_tokenizer :: "tokenizer option"
  e_collator :: "collator option"

datatype extractor =
    PropExtractor prop_extractor
  | MultiExtractor string Collation "prop_extractor list"

fun ext_name :: "extractor \<Rightarrow> string" where
  "ext_name (PropExtractor e) = e_name e"
| "ext_name (MultiExtractor name coll es) = name"

fun ext_collation :: "extractor \<Rightarrow> Collation" where
  "ext_collation (PropExtractor e) = e_collation e"
| "ext_collation (MultiExtractor name coll es) = coll"

definition extractor_new :: prop_extractor where
  "extractor_new = \<lparr>e_name = [], e_collation = CollationInvalid, e_default = [], e_prop = [],
     e_tokenizer = None, e_collator = None\<rparr>"

section \<open>Configuration\<close>

text \<open>\<^verbatim>\<open>MojDbExtractor::fromObject\<close>: the name and the collation.\<close>

definition ext_base :: "obj \<Rightarrow> (string \<times> Collation) res" where
  "ext_base obj =
     rbind (getRequired_string ''name'' obj) (\<lambda>name.
     rbind (get_string ''collate'' obj) (\<lambda>found.
       case found of
         None \<Rightarrow> Inr (name, CollationInvalid)
       | Some collate \<Rightarrow> rbind (collationFromString collate) (\<lambda>strength. Inr (name, strength))))"

definition ext_updateLocale :: "icu \<Rightarrow> string \<Rightarrow> prop_extractor \<Rightarrow> prop_extractor res" where
  "ext_updateLocale lib locale e =
     (if e_collation e \<noteq> CollationInvalid then
        rbind (case e_tokenizer e of
                 None \<Rightarrow> Inr None
               | Some _ \<Rightarrow> rbind (icu_tokenizer lib locale) (\<lambda>tok. Inr (Some tok))) (\<lambda>tok.
        rbind (icu_collator lib locale (e_collation e)) (\<lambda>coll.
          Inr (e\<lparr>e_tokenizer := tok, e_collator := Some coll\<rparr>)))
      else Inr e)"

text \<open>The default values; those of the default configuration come first.\<close>

definition ext_defaults :: "obj \<Rightarrow> dbkey list \<Rightarrow> dbkey list res" where
  "ext_defaults obj keys =
     (case obj_get ''default'' obj of
        None \<Rightarrow> Inr keys
      | Some defaultVal \<Rightarrow>
          run (\<lambda>acc v. rbind (key_assign v None) (\<lambda>key. Inr (set_put bcmp key acc))) keys
            (case defaultVal of OArray xs \<Rightarrow> xs | _ \<Rightarrow> [defaultVal]))"

definition ext_tokenize :: "icu \<Rightarrow> obj \<Rightarrow> string \<Rightarrow> tokenizer option \<Rightarrow> tokenizer option res" where
  "ext_tokenize lib obj locale dflt =
     rbind (get_string ''tokenize'' obj) (\<lambda>found.
       case found of
         None \<Rightarrow> Inr dflt
       | Some tokenize \<Rightarrow>
           if MojStrCmp tokenize ''all'' = 0 \<or> MojStrCmp tokenize ''default'' = 0
           then rbind (icu_tokenizer lib locale) (\<lambda>tok. Inr (Some tok))
           else Inl MojErrDbInvalidTokenization)"

definition ext_fromObjectImpl ::
  "icu \<Rightarrow> obj \<Rightarrow> prop_extractor \<Rightarrow> string \<Rightarrow> prop_extractor res" where
  "ext_fromObjectImpl lib obj defaultConfig locale =
     rbind (ext_base obj) (\<lambda>(name, coll).
     rbind (ext_defaults obj (e_default defaultConfig)) (\<lambda>def.
     rbind (ext_tokenize lib obj locale (e_tokenizer defaultConfig)) (\<lambda>tok.
     rbind (ext_updateLocale lib locale
             \<lparr>e_name = name,
              e_collation = (if coll = CollationInvalid then e_collation defaultConfig else coll),
              e_default = def, e_prop = [], e_tokenizer = tok, e_collator = None\<rparr>) (\<lambda>e.
       Inr (e\<lparr>e_prop := str_split (CHR ''.'') name\<rparr>)))))"

definition ext_fromObject :: "icu \<Rightarrow> obj \<Rightarrow> string \<Rightarrow> prop_extractor res" where
  "ext_fromObject lib obj locale = ext_fromObjectImpl lib obj extractor_new locale"

text \<open>\<^verbatim>\<open>MojDbMultiExtractor::fromObject\<close>; the elements of \<^verbatim>\<open>include\<close> default to its own settings.\<close>

definition multi_fromObject :: "icu \<Rightarrow> obj \<Rightarrow> string \<Rightarrow> extractor res" where
  "multi_fromObject lib obj locale =
     rbind (ext_base obj) (\<lambda>(name, coll).
     rbind (ext_fromObject lib obj locale) (\<lambda>dflt.
     rbind (getRequired ''include'' obj) (\<lambda>incl.
     rbind (run (\<lambda>es i. rbind (obj_stringValue i) (\<lambda>_. rbind (ext_fromObjectImpl lib i dflt locale) (\<lambda>e. Inr (es @ [e]))))
              [] (case incl of OArray xs \<Rightarrow> xs | _ \<Rightarrow> [])) (\<lambda>es.
       Inr (MultiExtractor name coll es)))))"

definition createExtractor :: "icu \<Rightarrow> obj \<Rightarrow> string \<Rightarrow> extractor res" where
  "createExtractor lib propObj locale =
     rbind (get_string ''type'' propObj) (\<lambda>found.
       case found of
         Some type \<Rightarrow>
           if MojStrCmp type ''multi'' = 0 then multi_fromObject lib propObj locale
           else rbind (ext_fromObject lib propObj locale) (\<lambda>e. Inr (PropExtractor e))
       | None \<Rightarrow> rbind (ext_fromObject lib propObj locale) (\<lambda>e. Inr (PropExtractor e)))"

fun extractor_updateLocale :: "icu \<Rightarrow> string \<Rightarrow> extractor \<Rightarrow> extractor res" where
  "extractor_updateLocale lib locale (PropExtractor e) =
     rbind (ext_updateLocale lib locale e) (\<lambda>e'. Inr (PropExtractor e'))"
| "extractor_updateLocale lib locale (MultiExtractor name coll es) =
     rbind (run (\<lambda>acc e. rbind (ext_updateLocale lib locale e) (\<lambda>e'. Inr (acc @ [e']))) [] es)
       (\<lambda>es'. Inr (MultiExtractor name coll es'))"

section \<open>Values\<close>

definition WildcardKey :: string where "WildcardKey = ''*''"

text \<open>The end of the path in \<^verbatim>\<open>handleVal\<close>: a text is tokenized, any other value is its key.\<close>

definition leafVal :: "prop_extractor \<Rightarrow> obj \<Rightarrow> dbkey list \<Rightarrow> dbkey list res" where
  "leafVal e v valsOut =
     (case (e_tokenizer e, v) of
        (Some tok, OString text) \<Rightarrow>
          rbind (tok text (e_collator e)) (\<lambda>keys. Inr (set_put_all bcmp keys valsOut))
      | _ \<Rightarrow> rbind (key_assign v (e_collator e)) (\<lambda>key. Inr (set_put bcmp key valsOut)))"

fun valsImpl :: "prop_extractor \<Rightarrow> string list \<Rightarrow> obj \<Rightarrow> dbkey list \<Rightarrow> dbkey list res" where
  "valsImpl e [] obj valsOut = Inl MojAssertFailed"
| "valsImpl e (propKey # path) obj valsOut =
     (let handleVal = (\<lambda>out v. if path = [] then leafVal e v out else valsImpl e path v out) in
      if MojStrCmp propKey WildcardKey = 0
      then run handleVal valsOut (case obj of OObject ps \<Rightarrow> map snd ps | _ \<Rightarrow> [])
      else
        (case obj_get propKey obj of
           None \<Rightarrow> Inr (set_put_all bcmp (e_default e) valsOut)
         | Some v \<Rightarrow>
             (case v of
                OArray xs \<Rightarrow> run handleVal valsOut xs
              | _ \<Rightarrow> handleVal valsOut v)))"

fun ext_vals :: "extractor \<Rightarrow> obj \<Rightarrow> dbkey list \<Rightarrow> dbkey list res" where
  "ext_vals (PropExtractor e) obj valsOut = valsImpl e (e_prop e) obj valsOut"
| "ext_vals (MultiExtractor name coll es) obj valsOut =
     run (\<lambda>out e. valsImpl e (e_prop e) obj out) valsOut es"

end
