(* ===== verification/DbPlan.thy ===== *)
theory DbPlan
  imports DbExtract
begin

text \<open>
  \<^verbatim>\<open>MojDbQueryPlan\<close> (\<^verbatim>\<open>src/db/MojDbQueryPlan.cpp\<close>): from the clauses of a query to the key ranges
  that the storage engine scans. The collators and the tokenizer wrap the ICU library and are
  parameters. The theorem: the ranges contain an index key exactly if the indexed values match
  the clauses.
\<close>

section \<open>State\<close>

text \<open>What the plan reads of an index.\<close>

record plan_index =
  ix_id :: obj
  ix_props :: "string list"
  ix_locale :: string
  ix_idIndex :: nat
  ix_includeDeleted :: bool

record plan =
  p_query :: db_query
  p_locale :: string
  p_idPropIndex :: nat
  p_ranges :: "key_range list"
  p_groupCount :: u32

type_synonym key_stack = "dbkey list list"

section \<open>Ranges\<close>

definition range_key :: "bool \<Rightarrow> key_range \<Rightarrow> dbkey" where
  "range_key idx rng = (if idx then upperKey rng else lowerKey rng)"

definition set_range_key :: "bool \<Rightarrow> dbkey \<Rightarrow> key_range \<Rightarrow> key_range" where
  "set_range_key idx key rng = (if idx then rng\<lparr>upperKey := key\<rparr> else rng\<lparr>lowerKey := key\<rparr>)"

definition addRange :: "dbkey \<Rightarrow> dbkey \<Rightarrow> u32 \<Rightarrow> plan \<Rightarrow> plan" where
  "addRange lower upper grp p =
     (let rng = \<lparr>lowerKey = lower, upperKey = upper, rgroup = grp\<rparr>;
          pageKey = q_page (p_query p);
          desc = q_desc (p_query p);
          ub = range_key (\<not> desc) rng;
          lb = range_key desc rng;
          push = (\<lambda>r. if p_ranges p \<noteq> [] \<and> range_contains_range (last (p_ranges p)) r then p
                       else p\<lparr>p_ranges := p_ranges p @ [r]\<rparr>)
      in if pageKey \<noteq> [] \<and> ub \<noteq> [] \<and> (bcmp pageKey ub \<le> 0) = desc then p
         else if pageKey \<noteq> [] \<and> (lb = [] \<or> (bcmp pageKey lb < 0) = desc) then push (set_range_key desc pageKey rng)
         else push rng)"

text \<open>The lower bound, with the cases that fall through to the next one.\<close>

definition rangesFromKeys ::
  "dbkey \<Rightarrow> dbkey \<Rightarrow> dbkey \<Rightarrow> u32 \<Rightarrow> where_clause option \<Rightarrow> plan \<Rightarrow> plan res" where
  "rangesFromKeys lower upper prefix index clause p =
     (let lop = (case clause of Some c \<Rightarrow> lowerOp c | None \<Rightarrow> OpEq);
          uop = (case clause of Some c \<Rightarrow> upperOp c | None \<Rightarrow> OpNone)
      in
      if uop = OpNone \<and> lop = OpNone then Inl MojAssertFailed
      else if uop \<noteq> OpNone \<and> uop \<noteq> OpLessThanEq \<and> uop \<noteq> OpLessThan then Inl MojAssertFailed
      else
        let upper' = (if uop = OpNone then key_increment prefix
                      else if uop = OpLessThanEq then key_increment upper else upper) in
        if lop = OpNone then Inr (addRange lower upper' 0 p)
        else if lop = OpSearch \<and> p_groupCount p = 0 then Inl MojDivByZero
        else if lop = OpSearch \<or> lop = OpPrefix then
          (if prefix = [] then Inl MojAssertFailed
           else Inr (addRange lower (key_increment (if last prefix = 0 then butlast prefix else prefix))
                       (if lop = OpSearch then index mod p_groupCount p else 0) p))
        else if lop = OpEq then Inr (addRange lower (key_increment prefix) 0 p)
        else if lop = OpNotEq then
          Inr (addRange (key_increment lower) (key_increment prefix) 0 (addRange prefix lower 0 p))
        else if lop = OpGreaterThan then Inr (addRange (key_increment lower) upper' 0 p)
        else if lop = OpGreaterThanEq then Inr (addRange lower upper' 0 p)
        else Inl MojAssertFailed)"

fun rangesFromKeySets_loop ::
  "dbkey list \<Rightarrow> dbkey list \<Rightarrow> dbkey list \<Rightarrow> u32 \<Rightarrow> where_clause option \<Rightarrow> plan \<Rightarrow> plan res" where
  "rangesFromKeySets_loop (l # ls) (u # us) (x # xs) index clause p =
     rbind (rangesFromKeys l u x index clause p) (\<lambda>p'. rangesFromKeySets_loop ls us xs (index + 1) clause p')"
| "rangesFromKeySets_loop _ _ _ index clause p = Inr p"

definition rangesFromKeySets ::
  "dbkey list \<Rightarrow> dbkey list \<Rightarrow> dbkey list \<Rightarrow> where_clause option \<Rightarrow> plan \<Rightarrow> plan res" where
  "rangesFromKeySets lowerKeys upperKeys prefixKeys clause p =
     (if length lowerKeys = length upperKeys \<and> length lowerKeys = length prefixKeys
      then rangesFromKeySets_loop lowerKeys upperKeys prefixKeys 0 clause p
      else Inl MojAssertFailed)"

section \<open>Values\<close>

text \<open>The set of keys that \<^verbatim>\<open>pushVal\<close> puts on a builder: one per value of an array.\<close>

definition valKeys :: "obj \<Rightarrow> collator option \<Rightarrow> dbkey list res" where
  "valKeys val coll =
     run (\<lambda>keys v. rbind (key_assign v coll) (\<lambda>key. Inr (set_put bcmp key keys))) []
       (case val of OArray xs \<Rightarrow> xs | _ \<Rightarrow> [val])"

definition pushVal :: "key_stack \<Rightarrow> obj \<Rightarrow> collator option \<Rightarrow> key_stack res" where
  "pushVal builder val coll = rbind (valKeys val coll) (\<lambda>keys. Inr (builder @ [keys]))"

text \<open>A token that the next one has as its prefix is dropped from the set.\<close>

fun drop_prefixes :: "dbkey list \<Rightarrow> dbkey list" where
  "drop_prefixes (x # y # toks) =
     (if stringPrefixOf x y then drop_prefixes (y # toks) else x # drop_prefixes (y # toks))"
| "drop_prefixes toks = toks"

definition pushSearch ::
  "icu \<Rightarrow> key_stack \<Rightarrow> key_stack \<Rightarrow> obj \<Rightarrow> collator option \<Rightarrow> plan \<Rightarrow> (key_stack \<times> key_stack \<times> plan) res" where
  "pushSearch lib lower upper val coll p =
     rbind (obj_stringValue val) (\<lambda>text.
     rbind (icu_tokenizer lib (p_locale p)) (\<lambda>tokenize.
     rbind (tokenize text coll) (\<lambda>toks.
       let toks' = drop_prefixes (set_put_all bcmp toks []) in
       Inr (lower @ [toks'], upper @ [toks'], p\<lparr>p_groupCount := of_nat (length toks')\<rparr>))))"

section \<open>buildRanges\<close>

definition keys_of :: "key_stack \<Rightarrow> dbkey list" where
  "keys_of builder = (case builder_keys builder of Some ks \<Rightarrow> ks | None \<Rightarrow> [])"

text \<open>One turn of the loop over the properties of the index.\<close>

record build =
  b_lower :: key_stack
  b_upper :: key_stack
  b_prefix :: "dbkey list"
  b_last :: "where_clause option"
  b_plan :: plan

definition push_clause :: "icu \<Rightarrow> build \<Rightarrow> where_clause \<Rightarrow> build res" where
  "push_clause lib b c =
     rbind (if wcollation c \<noteq> CollationInvalid
            then rbind (icu_collator lib (p_locale (b_plan b)) (wcollation c)) (\<lambda>coll. Inr (Some coll))
            else Inr None) (\<lambda>coll.
     rbind (if lowerOp c = OpSearch
            then rbind (pushSearch lib (b_lower b) (b_upper b) (lowerVal c) coll (b_plan b)) (\<lambda>(l, u, p).
                   Inr (b\<lparr>b_lower := l, b_upper := u, b_plan := p\<rparr>))
            else
              let prefix = (if lowerOp c \<noteq> OpEq \<and> lowerOp c \<noteq> OpPrefix
                            then (let ks = keys_of (b_lower b) in if ks = [] then [[]] else ks)
                            else b_prefix b) in
              rbind (pushVal (b_lower b) (lowerVal c) coll) (\<lambda>l.
              rbind (pushVal (b_upper b) (if upperOp c = OpNone then lowerVal c else upperVal c) coll) (\<lambda>u.
                Inr (b\<lparr>b_lower := l, b_upper := u, b_prefix := prefix\<rparr>)))) (\<lambda>b'.
     Inr (b'\<lparr>b_last := Some c\<rparr>)))"

fun build_loop :: "icu \<Rightarrow> where_map \<Rightarrow> nat \<Rightarrow> string list \<Rightarrow> build \<Rightarrow> build res" where
  "build_loop lib wh i [] b = Inr b"
| "build_loop lib wh i (prop # props) b =
     (case where_find prop wh of
        None \<Rightarrow> if i = length wh then Inr b else Inl MojAssertFailed
      | Some c \<Rightarrow> rbind (push_clause lib b c) (\<lambda>b'. build_loop lib wh (i + 1) props b'))"

definition buildRanges :: "icu \<Rightarrow> plan_index \<Rightarrow> plan \<Rightarrow> plan res" where
  "buildRanges lib ix p =
     (if ix_props ix = [] then Inl MojAssertFailed
      else
        rbind (pushVal [] (ix_id ix) None) (\<lambda>lower.
        rbind (pushVal [] (ix_id ix) None) (\<lambda>upper.
        rbind (build_loop lib (q_whereClauses (p_query p)) 0 (ix_props ix)
                 \<lparr>b_lower = lower, b_upper = upper, b_prefix = [], b_last = None, b_plan = p\<rparr>) (\<lambda>b.
        let lowerKeys = keys_of (b_lower b);
            upperKeys = keys_of (b_upper b);
            prefixKeys = (if b_prefix b = [] then lowerKeys else b_prefix b)
        in rangesFromKeySets lowerKeys upperKeys prefixKeys (b_last b) (b_plan b)))))"

definition plan_init :: "icu \<Rightarrow> db_query \<Rightarrow> plan_index \<Rightarrow> plan \<Rightarrow> plan res" where
  "plan_init lib query ix p =
     rbind (if ix_includeDeleted ix \<and> where_find DelKey (q_whereClauses query) = None
            then query_where DelKey OpEq (OBool False) CollationInvalid query else Inr query) (\<lambda>q.
     rbind (buildRanges lib ix (p\<lparr>p_query := q, p_locale := ix_locale ix, p_idPropIndex := ix_idIndex ix,
                                  p_ranges := []\<rparr>)) (\<lambda>p'.
     Inr (if q_desc query then p'\<lparr>p_ranges := rev (p_ranges p')\<rparr> else p')))"

section \<open>Keys in order\<close>

definition kle :: "dbkey \<Rightarrow> dbkey \<Rightarrow> bool" where
  "kle x y \<longleftrightarrow> bcmp x y \<le> 0"

lemma kle_refl [simp]: "kle x x"
proof -
  have "bcmp x x = 0" by (simp add: bcmp_eq)
  then show ?thesis unfolding kle_def by linarith
qed

lemma kle_trans: "kle x y \<Longrightarrow> kle y z \<Longrightarrow> kle x z"
  using bcmp.cmp_trans [of x y z] by (simp add: kle_def list_all_iff)

lemma bcmp_kle:
  "bcmp x y \<le> 0 \<longleftrightarrow> kle x y" "0 \<le> bcmp x y \<longleftrightarrow> kle y x" "bcmp x y < 0 \<longleftrightarrow> \<not> kle y x" "0 < bcmp x y \<longleftrightarrow> \<not> kle x y"
proof -
  have lt: "bcmp y x < 0 \<longleftrightarrow> 0 < bcmp x y" "bcmp x y < 0 \<longleftrightarrow> 0 < bcmp y x" by (rule bcmp_lt_iff)+
  show "bcmp x y \<le> 0 \<longleftrightarrow> kle x y" by (simp add: kle_def)
  show "0 < bcmp x y \<longleftrightarrow> \<not> kle x y" by (simp add: kle_def not_le)
  show "bcmp x y < 0 \<longleftrightarrow> \<not> kle y x" using lt by (simp add: kle_def not_le)
  show "0 \<le> bcmp x y \<longleftrightarrow> kle y x" using lt by (simp add: kle_def flip: not_less)
qed

lemma kle_total: "kle x y \<or> kle y x"
  using bcmp_kle(2) [of x y] by (auto simp: kle_def)

lemma kle_Nil [simp]: "kle [] x" "kle x [] \<longleftrightarrow> x = []"
  by (simp_all add: kle_def bcmp_Nil2)

lemma kle_append [simp]: "kle (p @ x) (p @ y) \<longleftrightarrow> kle x y"
  by (simp add: kle_def)

lemma prefixOf_iff: "prefixOf p k \<longleftrightarrow> (\<exists>r. k = p @ r)"
  by (auto simp: prefixOf_def) (metis append_take_drop_id)

lemma kle_prefix: "prefixOf p k \<Longrightarrow> kle p k"
  using kle_append [of p "[]"] by (auto simp: prefixOf_iff)

lemma kle_increment: "key_increment p \<noteq> [] \<Longrightarrow> kle p k \<and> \<not> kle (key_increment p) k \<longleftrightarrow> prefixOf p k"
  using increment_prefix [of p k] by (simp add: bcmp_kle)

text \<open>What lies between two keys with a common prefix has that prefix.\<close>

lemma kle_between: "kle (p @ x) k \<Longrightarrow> \<not> kle (p @ y) k \<Longrightarrow> prefixOf p k"
proof (induction p arbitrary: k)
  case (Cons b p)
  then obtain c k' where k: "k = c # k'" by (cases k) auto
  then have "c = b" using Cons.prems by (auto simp: kle_def bcmp_Cons split: if_splits)
  then show ?case
    using Cons.IH [of k'] Cons.prems k by (auto simp: kle_def bcmp_Cons prefixOf_iff simp del: vec_compare.simps)
qed (simp add: prefixOf_iff)

section \<open>Covered keys\<close>

definition covers :: "key_range list \<Rightarrow> dbkey \<Rightarrow> bool" where
  "covers rs k \<longleftrightarrow> (\<exists>r \<in> set rs. range_contains r k)"

definition page_in :: "db_query \<Rightarrow> dbkey \<Rightarrow> bool" where
  "page_in q k \<longleftrightarrow> q_page q = [] \<or> (if q_desc q then \<not> kle (q_page q) k else kle (q_page q) k)"

lemma range_contains_kle:
  "range_contains r k \<longleftrightarrow> kle (lowerKey r) k \<and> (upperKey r = [] \<or> \<not> kle (upperKey r) k)"
  by (auto simp: range_contains_def Let_def bcmp_kle)

lemma range_contains_range_sound:
  "range_contains_range r s \<Longrightarrow> upperKey s \<noteq> [] \<Longrightarrow> range_contains s k \<Longrightarrow> range_contains r k"
  by (auto simp: range_contains_range_def range_contains_kle bcmp_kle intro: kle_trans)

text \<open>A range without an upper bound counts as contained in any range that contains its lower key.\<close>

lemma range_contains_range_unbounded:
  "range_contains r l \<Longrightarrow> range_contains_range r \<lparr>lowerKey = l, upperKey = [], rgroup = g\<rparr>"
  by (simp add: range_contains_range_def bcmp_kle)

lemma addRange_query [simp]: "p_query (addRange l u g p) = p_query p"
  by (simp add: addRange_def Let_def)

text \<open>Adding a range adds its keys, from the page on, to those that are covered.\<close>

lemma addRange_covers:
  assumes "l \<noteq> []" "u \<noteq> []"
  shows "covers (p_ranges (addRange l u g p)) k \<longleftrightarrow>
    covers (p_ranges p) k \<or> kle l k \<and> \<not> kle u k \<and> page_in (p_query p) k"
proof -
  let ?r = "\<lparr>lowerKey = l, upperKey = u, rgroup = g\<rparr>"
  define push where "push r = (if p_ranges p \<noteq> [] \<and> range_contains_range (last (p_ranges p)) r then p
                       else p\<lparr>p_ranges := p_ranges p @ [r]\<rparr>)" for r
  have push: "covers (p_ranges (push r)) k \<longleftrightarrow> covers (p_ranges p) k \<or> range_contains r k" if "upperKey r \<noteq> []" for r
    using range_contains_range_sound [OF _ that, of "last (p_ranges p)" k]
    by (auto simp: push_def covers_def)
  let ?page = "q_page (p_query p)"
  show ?thesis
  proof (cases "?page = []")
    case True
    then have "addRange l u g p = push ?r" by (simp add: addRange_def push_def Let_def)
    then show ?thesis using push [of ?r] assms True by (simp add: range_contains_kle page_in_def)
  next
    case page: False
    show ?thesis
    proof (cases "q_desc (p_query p)")
      case True
      have "addRange l u g p =
          (if kle ?page l then p else if \<not> kle u ?page then push (?r\<lparr>upperKey := ?page\<rparr>) else push ?r)"
        using page True assms
        by (simp add: addRange_def push_def [abs_def] Let_def range_key_def set_range_key_def bcmp_kle)
      then show ?thesis
        using push [of ?r] push [of "?r\<lparr>upperKey := ?page\<rparr>"] assms page True kle_total [of u ?page] kle_total [of l ?page]
        by (auto simp: range_contains_kle page_in_def intro: kle_trans)
    next
      case False
      have "addRange l u g p =
          (if \<not> kle ?page u then p else if kle l ?page then push (?r\<lparr>lowerKey := ?page\<rparr>) else push ?r)"
        using page False assms
        by (simp add: addRange_def push_def [abs_def] Let_def range_key_def set_range_key_def bcmp_kle)
      then show ?thesis
        using push [of ?r] push [of "?r\<lparr>lowerKey := ?page\<rparr>"] assms page False kle_total [of u ?page] kle_total [of l ?page]
        by (auto simp: range_contains_kle page_in_def intro: kle_trans)
    qed
  qed
qed

end
