(* ===== verification/DbPlanOk.thy ===== *)
theory DbPlanOk
  imports DbPlan DbFilter
begin

text \<open>
  The ranges of a plan against the filter: a key lies in the ranges exactly if the values it is made
  of pass the tests of \<^verbatim>\<open>MojDbQueryFilter\<close> for the clauses of the query. What a clause without a
  collation and a comparison operator selects is so the same through an index and by a test.
\<close>

section \<open>Keys of values\<close>

definition vals_key :: "obj list \<Rightarrow> dbkey" where
  "vals_key vs = concat (map enc vs)"

lemma vals_key_simps [simp]:
  "vals_key [] = []"
  "vals_key (v # vs) = enc v @ vals_key vs"
  "vals_key (vs @ ws) = vals_key vs @ vals_key ws"
  by (simp_all add: vals_key_def)

lemma sgn_le_0 [simp]: "sgn (i :: int) \<le> 0 \<longleftrightarrow> i \<le> 0"
  by (simp add: sgn_if)

lemma bcmp_self [simp]: "bcmp x x = 0"
  using bcmp.cmp_refl [of x] by (simp add: list_all_iff)

lemma kle_sgn: "kle x y \<longleftrightarrow> sgn (bcmp x y) \<le> 0"
  by (simp add: kle_def)

lemma kle_Nil_append [simp]: "kle p (p @ x)"
  using kle_append [of p "[]" x] by simp

lemma prefixOf_append [simp]: "prefixOf (p @ x) (p @ y) \<longleftrightarrow> prefixOf x y"
  by (simp add: prefixOf_iff)

lemma prefixOf_Nil [simp]: "prefixOf [] x"
  by (simp add: prefixOf_iff)

lemma prefixOf_self [simp]: "prefixOf p (p @ x)"
  by (simp add: prefixOf_iff)

lemma ser_eq: "ser_ok v \<Longrightarrow> ser_ok x \<Longrightarrow> obj_compare v x = 0 \<longleftrightarrow> v = x"
  using obj_compare_eq [of v x] obj_comp.cmp_refl [of x] by (auto simp: ser_ok_def)

lemma prefixOf_enc:
  assumes "ser_ok v" "ser_ok x"
  shows "prefixOf (enc v @ p) (enc x @ r) \<longleftrightarrow> v = x \<and> prefixOf p r"
proof
  assume "prefixOf (enc v @ p) (enc x @ r)"
  then obtain r' where e: "enc x @ r = enc v @ p @ r'" by (auto simp: prefixOf_iff)
  have "bcmp (enc v @ p @ r') (enc x @ r) = 0" unfolding e by (rule bcmp_self)
  then have "obj_compare v x = 0"
    using enc_obj.enc_cmp [OF assms, of "p @ r'" r] by (simp add: sgn_eq_0_iff split: if_splits)
  then have "v = x" using assms ser_eq by simp
  then show "v = x \<and> prefixOf p r" using e by (simp add: prefixOf_iff)
qed simp

lemma kle_enc:
  assumes "ser_ok v" "ser_ok x"
  shows "kle (enc v) (enc x @ r) \<longleftrightarrow> obj_compare v x \<le> 0"
proof -
  have "sgn (bcmp [] r) \<le> 0" by (cases r) simp_all
  then show ?thesis
    using enc_obj.enc_cmp [OF assms, of "[]" r] sgn_le_0 [of "obj_compare v x"]
    by (auto simp: kle_sgn simp del: sgn_le_0)
qed

lemma prefixOf_vals:
  "list_all ser_ok us \<Longrightarrow> list_all ser_ok vs \<Longrightarrow> length us \<le> length vs \<Longrightarrow>
   prefixOf (vals_key us) (vals_key vs @ r) \<longleftrightarrow> us = take (length us) vs"
proof (induction us arbitrary: vs)
  case (Cons u us)
  then show ?case by (cases vs) (auto simp: prefixOf_enc)
qed simp

section \<open>Increments\<close>

lemma increment_nonempty: "b < 255 \<Longrightarrow> key_increment (b # k) \<noteq> []"
proof (induction k rule: rev_induct)
  case Nil
  then show ?case using increment_snoc [of "[]" b] by simp
next
  case (snoc c k)
  then show ?case using increment_snoc [of "b # k" c] by simp
qed

lemma enc_head_255: "\<exists>b bs. enc v = b # bs \<and> b < 255"
  by (cases v) (simp_all add: marker_defs enc_str_def writer_intValue_bytes int_marker_def
      writer_decimalValue_def writeUInt8_def)

lemma increment_enc [simp]: "key_increment (enc v @ k) \<noteq> []"
  using enc_head_255 [of v] increment_nonempty by auto

lemma enc_nonempty [simp]: "enc v \<noteq> []"
  using enc_head_255 [of v] by auto

lemma kle_increment_iff:
  assumes "key_increment p \<noteq> []"
  shows "kle (key_increment p) k \<longleftrightarrow> kle p k \<and> \<not> prefixOf p k"
proof -
  have "kle p (key_increment p)" using kle_increment [OF assms, of p] kle_total by (auto simp: prefixOf_iff)
  then show ?thesis using kle_increment [OF assms, of k] kle_trans by blast
qed

section \<open>One clause on one value\<close>

text \<open>The keys between the bounds that \<^verbatim>\<open>rangesFromKeys\<close> makes for the operators of a clause.\<close>

definition upper_cond :: "where_clause option \<Rightarrow> dbkey \<Rightarrow> dbkey \<Rightarrow> dbkey \<Rightarrow> bool" where
  "upper_cond clause u x k \<longleftrightarrow>
     (case clause of
        None \<Rightarrow> \<not> kle (key_increment x) k
      | Some c \<Rightarrow>
          if upperOp c = OpNone then \<not> kle (key_increment x) k
          else if upperOp c = OpLessThanEq then \<not> kle (key_increment u) k
          else \<not> kle u k)"

definition range_cond :: "where_clause option \<Rightarrow> dbkey \<Rightarrow> dbkey \<Rightarrow> dbkey \<Rightarrow> dbkey \<Rightarrow> bool" where
  "range_cond clause l u x k \<longleftrightarrow>
     (case clause of
        None \<Rightarrow> kle l k \<and> \<not> kle (key_increment x) k
      | Some c \<Rightarrow>
          (case lowerOp c of
             OpEq \<Rightarrow> kle l k \<and> \<not> kle (key_increment x) k
           | OpNotEq \<Rightarrow> kle x k \<and> \<not> kle l k \<or> kle (key_increment l) k \<and> \<not> kle (key_increment x) k
           | OpGreaterThan \<Rightarrow> kle (key_increment l) k \<and> upper_cond clause u x k
           | _ \<Rightarrow> kle l k \<and> upper_cond clause u x k))"

text \<open>The clauses the theorem is about: the comparisons of the filter, without a collation.\<close>

definition comparison :: "where_clause \<Rightarrow> bool" where
  "comparison c \<longleftrightarrow> clause_shape c \<and> wcollation c = CollationInvalid \<and>
     lowerOp c \<noteq> OpPrefix \<and> lowerOp c \<noteq> OpSearch \<and> lowerOp c \<noteq> OpSubString \<and>
     (lowerOp c \<noteq> OpNone \<longrightarrow> ser_ok (lowerVal c)) \<and> (upperOp c \<noteq> OpNone \<longrightarrow> ser_ok (upperVal c))"

lemma rangesFromKeys_covers:
  assumes "\<And>c. clause = Some c \<Longrightarrow> comparison c"
    and ne: "l \<noteq> []" "u \<noteq> []" "x \<noteq> []" "key_increment l \<noteq> []" "key_increment u \<noteq> []" "key_increment x \<noteq> []"
  shows "\<exists>p'. rangesFromKeys l u x i clause p = Inr p' \<and> p_query p' = p_query p \<and>
    (\<forall>k. covers (p_ranges p') k \<longleftrightarrow>
       covers (p_ranges p) k \<or> range_cond clause l u x k \<and> page_in (p_query p) k)"
proof (cases clause)
  case None
  then show ?thesis
    using ne by (auto simp: rangesFromKeys_def addRange_covers range_cond_def)
next
  case (Some c)
  then have c: "clause_shape c" "lowerOp c \<noteq> OpPrefix" "lowerOp c \<noteq> OpSearch" "lowerOp c \<noteq> OpSubString"
    using assms(1) by (auto simp: comparison_def)
  then have l: "lowerOp c = OpNone \<and> upperOp c \<noteq> OpNone \<or> lowerOp c = OpEq \<and> upperOp c = OpNone \<or>
      lowerOp c = OpNotEq \<and> upperOp c = OpNone \<or> lowerOp c = OpGreaterThan \<or> lowerOp c = OpGreaterThanEq"
    by (cases "lowerOp c") (auto simp: clause_shape_def clause_pre_def)
  have u: "upperOp c = OpNone \<or> upperOp c = OpLessThan \<or> upperOp c = OpLessThanEq"
    using c by (auto simp: clause_shape_def clause_pre_def)
  from l u show ?thesis
    using ne by (elim disjE conjE; simp add: Some rangesFromKeys_def addRange_covers range_cond_def upper_cond_def) blast+
qed

text \<open>The ranges of several triples of keys, one after the other.\<close>

definition good_key :: "dbkey \<Rightarrow> bool" where
  "good_key k \<longleftrightarrow> k \<noteq> [] \<and> key_increment k \<noteq> []"

lemma good_key_enc [simp]: "good_key (enc v @ k)"
  by (simp add: good_key_def)

lemma ranges_loop_covers:
  assumes c: "\<And>c. clause = Some c \<Longrightarrow> comparison c"
    and ts: "\<And>l u x. (l, u, x) \<in> set ts \<Longrightarrow> good_key l \<and> good_key u \<and> good_key x"
  shows "\<exists>p'. rangesFromKeySets_loop (map fst ts) (map (\<lambda>t. fst (snd t)) ts) (map (\<lambda>t. snd (snd t)) ts) i clause p = Inr p' \<and>
    p_query p' = p_query p \<and>
    (\<forall>k. covers (p_ranges p') k \<longleftrightarrow>
       covers (p_ranges p) k \<or> (\<exists>(l, u, x) \<in> set ts. range_cond clause l u x k) \<and> page_in (p_query p) k)"
  using ts
proof (induction ts arbitrary: p i)
  case (Cons t ts)
  obtain l u x where t: "t = (l, u, x)" by (cases t)
  have "good_key l" "good_key u" "good_key x" using Cons.prems [of l u x] by (simp_all add: t)
  then obtain p1 where p1: "rangesFromKeys l u x i clause p = Inr p1" "p_query p1 = p_query p"
    "\<And>k. covers (p_ranges p1) k \<longleftrightarrow> covers (p_ranges p) k \<or> range_cond clause l u x k \<and> page_in (p_query p) k"
    using rangesFromKeys_covers [OF c, of clause l u x i p] unfolding good_key_def by blast
  have pr: "good_key l \<and> good_key u \<and> good_key x" if "(l, u, x) \<in> set ts" for l u x
    using Cons.prems [of l u x] that by simp
  obtain p2 where
    "rangesFromKeySets_loop (map fst ts) (map (\<lambda>t. fst (snd t)) ts) (map (\<lambda>t. snd (snd t)) ts) (i + 1) clause p1 = Inr p2"
    "p_query p2 = p_query p1"
    "\<forall>k. covers (p_ranges p2) k \<longleftrightarrow>
       covers (p_ranges p1) k \<or> (\<exists>(l, u, x) \<in> set ts. range_cond clause l u x k) \<and> page_in (p_query p1) k"
    using Cons.IH [OF pr, of "i + 1" p1] by blast
  then show ?case using p1 by (auto simp: t)
qed simp

section \<open>The value sets\<close>

definition clause_vals :: "where_clause \<Rightarrow> obj list" where
  "clause_vals c = (case lowerVal c of OArray xs \<Rightarrow> xs | _ \<Rightarrow> [lowerVal c])"

definition eq_keys :: "where_clause \<Rightarrow> dbkey list" where
  "eq_keys c = set_put_all bcmp (map enc (clause_vals c)) []"

definition eq_stack :: "obj \<Rightarrow> where_clause list \<Rightarrow> key_stack" where
  "eq_stack ident es = [enc ident] # map eq_keys es"

lemma valKeys_plain:
  "valKeys v None = Inr (set_put_all bcmp (map enc (case v of OArray xs \<Rightarrow> xs | _ \<Rightarrow> [v])) [])"
proof -
  have "run (\<lambda>keys v. rbind (key_assign v None) (\<lambda>key. Inr (set_put bcmp key keys))) acc vs =
      Inr (set_put_all bcmp (map enc vs) acc)" for vs acc
    by (induction vs arbitrary: acc) (simp_all add: key_assign_def toBytes_enc set_put_all_def)
  then show ?thesis by (cases v) (simp_all add: valKeys_def)
qed

lemma valKeys_single: "obj_type v \<noteq> TypeArray \<Longrightarrow> valKeys v None = Inr [enc v]"
  by (cases v) (simp_all add: valKeys_plain set_put_all_def)

lemma set_eq_keys [simp]: "set (eq_keys c) = enc ` set (clause_vals c)"
  by (simp add: eq_keys_def)

lemma keys_of_combos: "stack \<noteq> [] \<Longrightarrow> set (keys_of stack) = set (combos stack)"
  by (simp add: keys_of_def builder_keys_eq)

lemma keys_of_sorted: "sorted_set (keys_of stack)"
proof (cases "stack = []")
  case False
  then show ?thesis by (simp add: keys_of_def builder_keys_eq set_put_all_sorted)
qed (simp add: keys_of_def builder_keys_def)

text \<open>If each set on a stack is the keys of some values, the combinations are the keys of their lists.\<close>

lemma combos_values:
  assumes "list_all2 (\<lambda>keys e. set keys = enc ` vals e) sets es"
  shows "set (combos sets) = {vals_key vs | vs. list_all2 (\<lambda>v e. v \<in> vals e) vs es}"
  using assms
proof (induction sets es rule: list_all2_induct)
  case (Cons keys sets e es)
  show ?case
  proof (intro set_eqI iffI)
    fix y assume "y \<in> set (combos (keys # sets))"
    then obtain v vs where "v \<in> vals e" "list_all2 (\<lambda>v e. v \<in> vals e) vs es" "y = enc v @ vals_key vs"
      using Cons by auto
    then have "y = vals_key (v # vs)" "list_all2 (\<lambda>v e. v \<in> vals e) (v # vs) (e # es)" by simp_all
    then show "y \<in> {vals_key vs | vs. list_all2 (\<lambda>v e. v \<in> vals e) vs (e # es)}" by blast
  next
    fix y assume "y \<in> {vals_key vs | vs. list_all2 (\<lambda>v e. v \<in> vals e) vs (e # es)}"
    then obtain v vs where v: "v \<in> vals e" "list_all2 (\<lambda>v e. v \<in> vals e) vs es" "y = enc v @ vals_key vs"
      by (auto simp: list_all2_Cons2)
    then have "vals_key vs \<in> set (combos sets)" using Cons by blast
    then show "y \<in> set (combos (keys # sets))" using v Cons.hyps by auto
  qed
qed simp

lemma eq_combos:
  "set (combos (map eq_keys es)) = {vals_key xs | xs. list_all2 (\<lambda>x c. x \<in> set (clause_vals c)) xs es}"
  by (rule combos_values) (simp add: list_all2_conv_all_nth)

lemma eq_stack_keys:
  "set (keys_of (eq_stack ident es)) =
   {vals_key (ident # xs) | xs. list_all2 (\<lambda>x c. x \<in> set (clause_vals c)) xs es}"
  by (auto simp: keys_of_combos eq_stack_def eq_combos)

text \<open>One more value at the end of every key keeps their order, if no key is a prefix of another.\<close>

lemma bcmp_less_append: "bcmp k k' < 0 \<Longrightarrow> \<not> prefixOf k k' \<Longrightarrow> bcmp (k @ a) (k' @ b) < 0"
proof (induction k arbitrary: k')
  case (Cons x k)
  then show ?case
    by (cases k') (auto simp: bcmp_Cons bcmp_Nil2 prefixOf_iff simp del: vec_compare.simps split: if_splits)
qed simp

definition prefix_free :: "dbkey list \<Rightarrow> bool" where
  "prefix_free ks \<longleftrightarrow> (\<forall>x \<in> set ks. \<forall>y \<in> set ks. prefixOf x y \<longrightarrow> x = y)"

lemma sorted_map_append: "sorted_set ks \<Longrightarrow> prefix_free ks \<Longrightarrow> sorted_set (map (\<lambda>k. k @ a) ks)"
proof (induction ks)
  case (Cons k ks)
  have "bcmp (k @ a) (x @ a) < 0" if "x \<in> set ks" for x
  proof (rule bcmp_less_append)
    show lt: "bcmp k x < 0" using Cons.prems that by simp
    then have "k \<noteq> x" by (metis bcmp_self less_irrefl)
    then show "\<not> prefixOf k x" using Cons.prems that by (auto simp: prefix_free_def)
  qed
  then show ?case using Cons by (auto simp: prefix_free_def)
qed simp

lemma combos_snoc: "set (combos (stack @ [[a]])) = (\<lambda>k. k @ a) ` set (combos stack)"
  by (induction stack) (simp_all add: image_UN image_image)

lemma keys_of_snoc:
  assumes "stack \<noteq> []" "prefix_free (keys_of stack)"
  shows "keys_of (stack @ [[a]]) = map (\<lambda>k. k @ a) (keys_of stack)"
proof (rule sorted_set_unique)
  show "sorted_set (map (\<lambda>k. k @ a) (keys_of stack))"
    by (rule sorted_map_append [OF keys_of_sorted assms(2)])
  show "set (keys_of (stack @ [[a]])) = set (map (\<lambda>k. k @ a) (keys_of stack))"
    using assms(1) by (simp add: keys_of_combos combos_snoc)
qed (rule keys_of_sorted)

lemma eq_stack_prefix_free:
  assumes "ser_ok ident" "\<And>c. c \<in> set es \<Longrightarrow> list_all ser_ok (clause_vals c)"
  shows "prefix_free (keys_of (eq_stack ident es))"
proof -
  have ok: "list_all ser_ok xs" if "list_all2 (\<lambda>x c. x \<in> set (clause_vals c)) xs es" for xs
    using that assms(2)
  proof (induction xs es rule: list_all2_induct)
    case (Cons x xs c es)
    have "list_all ser_ok xs" by (rule Cons.IH) (use Cons.prems in simp)
    moreover have "list_all ser_ok (clause_vals c)" using Cons.prems by simp
    ultimately show ?case using Cons.hyps by (simp add: list_all_iff)
  qed simp
  show ?thesis
    unfolding prefix_free_def eq_stack_keys
  proof (intro ballI impI, elim CollectE exE conjE)
    fix x y xs ys
    assume "x = vals_key (ident # xs)" "list_all2 (\<lambda>x c. x \<in> set (clause_vals c)) xs es"
      "y = vals_key (ident # ys)" "list_all2 (\<lambda>x c. x \<in> set (clause_vals c)) ys es" "prefixOf x y"
    then show "x = y"
      using ok [of xs] ok [of ys] prefixOf_vals [of "ident # xs" "ident # ys" "[]"] assms(1)
      by (auto dest!: list_all2_lengthD)
  qed
qed

section \<open>What the bounds select\<close>

lemma increment_append_nonempty: "key_increment p \<noteq> [] \<Longrightarrow> key_increment (p @ x) \<noteq> []"
proof (induction x rule: rev_induct)
  case (snoc b x)
  then show ?case using increment_snoc [of "p @ x" b] by (simp split: if_splits)
qed simp

lemma kle_undefined: "kle (enc OUndefined) (enc v @ r)"
proof -
  obtain b bs where e: "enc v = b # bs" "0 < b" using enc_first_byte by blast
  have "1 \<le> b" using e(2) by (simp add: word_le_nat_alt word_less_nat_alt)
  show ?thesis
  proof (cases "b = 1")
    case True
    have "kle [1] ([1] @ bs @ r)" by (rule kle_Nil_append)
    then show ?thesis by (simp add: True e(1) MarkerNullValue_def)
  next
    case False
    then have "1 < b" using \<open>1 \<le> b\<close> by simp
    then show ?thesis by (simp add: e(1) kle_def bcmp_Cons MarkerNullValue_def del: vec_compare.simps)
  qed
qed

lemma compare_swap: "0 < obj_compare v x \<longleftrightarrow> obj_compare x v < 0" "0 \<le> obj_compare v x \<longleftrightarrow> obj_compare x v \<le> 0"
  using obj_comp.cmp_lt_iff [of v x] obj_comp.cmp_lt_iff [of x v] obj_comp.cmp_le_iff [of v x] obj_comp.cmp_le_iff [of x v]
  by simp_all

text \<open>A key between bounds that begin with \<open>p\<close> begins with \<open>p\<close>.\<close>

lemma range_prefix:
  assumes "range_cond (Some c) (p @ a) (p @ b) p k" "good_key p" "good_key (p @ a)" "good_key (p @ b)"
    and "comparison c" "lowerOp c \<noteq> OpEq"
  shows "prefixOf p k"
proof -
  have inc: "kle (key_increment q) k \<longleftrightarrow> kle q k \<and> \<not> prefixOf q k" if "good_key q" for q
    using that kle_increment_iff by (simp add: good_key_def)
  have pre: "kle (p @ a) k \<Longrightarrow> kle p k" using kle_Nil_append kle_trans by blast
  have ext: "prefixOf (p @ x) k \<Longrightarrow> prefixOf p k" for x by (auto simp: prefixOf_iff)
  have btw: "kle p k \<Longrightarrow> \<not> kle (p @ x) k \<Longrightarrow> prefixOf p k" for x using kle_between [of p "[]"] by simp
  have up: "kle p k \<Longrightarrow> upper_cond (Some c) (p @ b) p k \<Longrightarrow> prefixOf p k"
    using assms(2-4) btw ext by (auto simp: upper_cond_def inc split: if_splits)
  have "lowerOp c = OpNone \<or> lowerOp c = OpNotEq \<or> lowerOp c = OpGreaterThan \<or> lowerOp c = OpGreaterThanEq"
    using assms(5,6) by (cases "lowerOp c") (auto simp: comparison_def clause_shape_def clause_pre_def)
  then show ?thesis
    using assms(1-4) pre btw up by (auto simp: range_cond_def inc)
qed

definition upper_val :: "where_clause \<Rightarrow> obj" where
  "upper_val c = (if upperOp c = OpNone then lowerVal c else upperVal c)"

text \<open>What passes the filter's test.\<close>

definition passes :: "where_clause \<Rightarrow> obj \<Rightarrow> bool" where
  "passes c v \<longleftrightarrow> (\<forall>lib. test_val lib c v = Inr True)"

lemma clause_vals_ok: "ser_ok (lowerVal c) \<Longrightarrow> list_all ser_ok (clause_vals c)"
proof (cases "obj_type (lowerVal c) = TypeArray")
  case True
  moreover assume "ser_ok (lowerVal c)"
  ultimately show ?thesis by (cases "lowerVal c") (simp_all add: clause_vals_def ser_ok_def list_all_iff)
next
  case False
  then have "clause_vals c = [lowerVal c]" by (cases "lowerVal c") (simp_all add: clause_vals_def)
  moreover assume "ser_ok (lowerVal c)"
  ultimately show ?thesis by simp
qed

lemma passes_eq:
  "comparison c \<Longrightarrow> lowerOp c = OpEq \<Longrightarrow> ser_ok v \<Longrightarrow> passes c v \<longleftrightarrow> v \<in> set (clause_vals c)"
proof -
  assume c: "comparison c" "lowerOp c = OpEq" "ser_ok v"
  then have "upperOp c = OpNone" "list_all ser_ok (clause_vals c)"
    using clause_vals_ok [of c] by (auto simp: comparison_def clause_shape_def clause_pre_def)
  moreover have "obj_eq v x \<longleftrightarrow> v = x" if "ser_ok x" for x
    using ser_eq [OF c(3) that] by (simp add: obj_eq_compare)
  ultimately show ?thesis
    using c(2) by (auto simp: passes_def test_val_def testLower_def testUpper_def clause_vals_def list_all_iff split: obj.splits)
qed

lemma range_cond_passes:
  assumes c: "comparison c" "lowerOp c \<noteq> OpEq" and v: "ser_ok v" and p: "good_key p"
  shows "range_cond (Some c) (p @ enc (lowerVal c)) (p @ enc (upper_val c)) p (p @ enc v @ r) \<longleftrightarrow> passes c v"
proof -
  have inc: "kle (key_increment (p @ x)) k \<longleftrightarrow> kle (p @ x) k \<and> \<not> prefixOf (p @ x) k" for x k
    using p increment_append_nonempty kle_increment_iff by (simp add: good_key_def)
  have inc0: "kle (key_increment p) k \<longleftrightarrow> kle p k \<and> \<not> prefixOf p k" for k
    using inc [of "[]" k] by simp
  have le: "kle (enc w) (enc v @ r) \<longleftrightarrow> obj_compare w v \<le> 0" "prefixOf (enc w) (enc v @ r) \<longleftrightarrow> obj_compare w v = 0"
    if "ser_ok w" for w
    using that v kle_enc prefixOf_enc [OF that v, of "[]" r] ser_eq by simp_all
  have upper: "upper_cond (Some c) (p @ enc (upper_val c)) p (p @ enc v @ r) \<longleftrightarrow> testUpper c v = Inr True"
  proof -
    have "upperOp c = OpNone \<or> (upperOp c = OpLessThan \<or> upperOp c = OpLessThanEq) \<and> ser_ok (upperVal c)"
      using c(1) by (auto simp: comparison_def clause_shape_def clause_pre_def)
    then show ?thesis
      by (elim disjE conjE; simp add: upper_cond_def testUpper_def upper_val_def inc inc0 le)
        (use compare_swap [of "upperVal c" v] in linarith)+
  qed
  consider "lowerOp c = OpNone" "lowerVal c = OUndefined" | "lowerOp c = OpNotEq" "ser_ok (lowerVal c)" "upperOp c = OpNone"
    | "lowerOp c = OpGreaterThan" "ser_ok (lowerVal c)" | "lowerOp c = OpGreaterThanEq" "ser_ok (lowerVal c)"
    using c by (cases "lowerOp c") (auto simp: comparison_def clause_shape_def clause_pre_def)
  then show ?thesis
  proof cases
    case 1
    then show ?thesis
      using kle_undefined upper by (simp add: range_cond_def passes_def test_val_def testLower_def)
  next
    case 2
    then show ?thesis
      using obj_comp.cmp_eq_sym [of "lowerVal c" v]
      by (auto simp: range_cond_def passes_def test_val_def testLower_def testUpper_def inc inc0 le obj_eq_compare)
  next
    case 3
    then show ?thesis
      using upper compare_swap [of v "lowerVal c"]
      by (auto simp: range_cond_def passes_def test_val_def testLower_def inc le)
  next
    case 4
    then show ?thesis
      using upper compare_swap [of v "lowerVal c"]
      by (auto simp: range_cond_def passes_def test_val_def testLower_def inc le)
  qed
qed

section \<open>The builders\<close>

lemma push_clause_eq:
  assumes "comparison c" "lowerOp c = OpEq"
  shows "push_clause lib b c =
    Inr (b\<lparr>b_lower := b_lower b @ [eq_keys c], b_upper := b_upper b @ [eq_keys c], b_last := Some c\<rparr>)"
proof -
  have "upperOp c = OpNone" "wcollation c = CollationInvalid"
    using assms by (auto simp: comparison_def clause_shape_def clause_pre_def)
  then show ?thesis
    using assms(2) by (simp add: push_clause_def pushVal_def valKeys_plain eq_keys_def clause_vals_def)
qed

lemma push_clause_other:
  assumes "comparison c" "lowerOp c \<noteq> OpEq" "keys_of (b_lower b) \<noteq> []"
  shows "push_clause lib b c =
    Inr (b\<lparr>b_lower := b_lower b @ [[enc (lowerVal c)]], b_upper := b_upper b @ [[enc (upper_val c)]],
           b_prefix := keys_of (b_lower b), b_last := Some c\<rparr>)"
proof -
  have c: "wcollation c = CollationInvalid" "lowerOp c \<noteq> OpPrefix" "lowerOp c \<noteq> OpSearch"
    "obj_type (lowerVal c) \<noteq> TypeArray" "obj_type (upperVal c) \<noteq> TypeArray"
    using assms(1,2) by (auto simp: comparison_def clause_shape_def clause_pre_def)
  then show ?thesis
    using assms(2,3)
    by (simp add: push_clause_def pushVal_def valKeys_single upper_val_def Let_def)
qed

text \<open>The loop over the properties of the index pushes their clauses in turn.\<close>

lemma build_loop_run:
  assumes "list_all2 (\<lambda>p c. where_find p wh = Some c) ps cs"
    and "qs = [] \<or> where_find (hd qs) wh = None \<and> i + length ps = length wh"
  shows "build_loop lib wh i (ps @ qs) b = run (push_clause lib) b cs"
  using assms
proof (induction ps cs arbitrary: i b rule: list_all2_induct)
  case Nil
  then show ?case by (cases qs) auto
next
  case (Cons p ps c cs)
  then show ?case by (auto intro!: rbind_cong)
qed

lemma run_push_eq:
  assumes "\<And>c. c \<in> set es \<Longrightarrow> comparison c \<and> lowerOp c = OpEq"
  shows "run (push_clause lib) b es =
    Inr (b\<lparr>b_lower := b_lower b @ map eq_keys es, b_upper := b_upper b @ map eq_keys es,
           b_last := (if es = [] then b_last b else Some (last es))\<rparr>)"
  using assms
proof (induction es arbitrary: b)
  case (Cons c es)
  then show ?case by (simp add: push_clause_eq)
qed simp

section \<open>The ranges select what the filter passes\<close>

lemma passes_all_eq:
  assumes "\<And>c. c \<in> set es \<Longrightarrow> comparison c \<and> lowerOp c = OpEq" "list_all ser_ok vs"
  shows "list_all2 (\<lambda>x c. x \<in> set (clause_vals c)) vs es \<longleftrightarrow> list_all2 passes es vs"
  using assms
proof (induction es arbitrary: vs)
  case (Cons c es)
  then show ?case by (cases vs) (simp_all add: passes_eq)
qed simp

lemma vals_key_inj:
  assumes "list_all ser_ok us" "list_all ser_ok vs" "length us = length vs"
  shows "vals_key us = vals_key vs \<longleftrightarrow> us = vs"
proof
  assume "vals_key us = vals_key vs"
  then have "prefixOf (vals_key us) (vals_key vs @ [])" by (simp add: prefixOf_iff)
  then show "us = vs" unfolding prefixOf_vals [OF assms(1,2) eq_refl [OF assms(3)]] using assms(3) by simp
qed simp

lemma eq_vals_ok:
  assumes "list_all2 (\<lambda>x c. x \<in> set (clause_vals c)) xs es" "\<And>c. c \<in> set es \<Longrightarrow> comparison c \<and> lowerOp c = OpEq"
  shows "list_all ser_ok xs"
  using assms
proof (induction xs es rule: list_all2_induct)
  case (Cons x xs c es)
  have "comparison c" "lowerOp c = OpEq" using Cons.prems [of c] by simp_all
  then have "ser_ok x" using Cons.hyps clause_vals_ok [of c] by (simp add: comparison_def list_all_iff)
  moreover have "list_all ser_ok xs" by (rule Cons.IH) (use Cons.prems in simp)
  ultimately show ?case by simp
qed simp

lemma ser_ok_take: "list_all ser_ok vs \<Longrightarrow> list_all ser_ok (take n vs)"
  by (auto simp: list_all_iff dest: in_set_takeD)

lemma eq_keys_prefix:
  assumes "ser_ok ident" "\<And>c. c \<in> set es \<Longrightarrow> comparison c \<and> lowerOp c = OpEq" "list_all ser_ok vs" "length es \<le> length vs"
    and "k \<in> set (keys_of (eq_stack ident es))"
  shows "prefixOf k (vals_key (ident # vs)) \<longleftrightarrow> k = vals_key (ident # take (length es) vs)"
proof -
  obtain xs where k: "k = vals_key (ident # xs)" and xs: "list_all2 (\<lambda>x c. x \<in> set (clause_vals c)) xs es"
    using assms(5) by (auto simp: eq_stack_keys)
  have len: "length xs = length es" using xs by (rule list_all2_lengthD)
  have ok: "list_all ser_ok (ident # xs)" using eq_vals_ok [OF xs assms(2)] assms(1) by simp
  have okv: "list_all ser_ok (ident # vs)" using assms(1,3) by simp
  have "prefixOf k (vals_key (ident # vs) @ []) \<longleftrightarrow> ident # xs = take (length (ident # xs)) (ident # vs)"
    unfolding k by (rule prefixOf_vals [OF ok okv]) (simp add: len assms(4))
  also have "\<dots> \<longleftrightarrow> ident # xs = ident # take (length es) vs" by (simp add: len)
  also have "\<dots> \<longleftrightarrow> k = vals_key (ident # take (length es) vs)"
    unfolding k by (rule vals_key_inj [symmetric])
      (use ok ser_ok_take [OF assms(3)] assms(1,4) len in simp_all)
  finally show ?thesis by simp
qed

lemma eq_keys_good: "k \<in> set (keys_of (eq_stack ident es)) \<Longrightarrow> good_key k"
  by (auto simp: eq_stack_keys)

lemma in_eq_keys:
  assumes "ser_ok ident" "\<And>c. c \<in> set es \<Longrightarrow> comparison c \<and> lowerOp c = OpEq" "list_all ser_ok vs" "length es \<le> length vs"
  shows "vals_key (ident # take (length es) vs) \<in> set (keys_of (eq_stack ident es)) \<longleftrightarrow>
    list_all2 passes es (take (length es) vs)"
proof -
  let ?vs = "take (length es) vs"
  have ok: "list_all ser_ok (ident # ?vs)" using ser_ok_take [OF assms(3)] assms(1) by simp
  have "vals_key (ident # ?vs) \<in> set (keys_of (eq_stack ident es)) \<longleftrightarrow>
      list_all2 (\<lambda>x c. x \<in> set (clause_vals c)) ?vs es"
  proof
    assume "vals_key (ident # ?vs) \<in> set (keys_of (eq_stack ident es))"
    then obtain xs where xs: "vals_key (ident # ?vs) = vals_key (ident # xs)"
      "list_all2 (\<lambda>x c. x \<in> set (clause_vals c)) xs es"
      unfolding eq_stack_keys by blast
    have "length (ident # ?vs) = length (ident # xs)" using assms(4) list_all2_lengthD [OF xs(2)] by simp
    moreover have "list_all ser_ok (ident # xs)" using eq_vals_ok [OF xs(2) assms(2)] assms(1) by simp
    ultimately have "ident # ?vs = ident # xs" using vals_key_inj [OF ok] xs(1) by blast
    then show "list_all2 (\<lambda>x c. x \<in> set (clause_vals c)) ?vs es" using xs(2) by simp
  next
    assume "list_all2 (\<lambda>x c. x \<in> set (clause_vals c)) ?vs es"
    then show "vals_key (ident # ?vs) \<in> set (keys_of (eq_stack ident es))" unfolding eq_stack_keys by blast
  qed
  also have "\<dots> \<longleftrightarrow> list_all2 passes es ?vs"
    by (rule passes_all_eq [OF assms(2) ser_ok_take [OF assms(3)]])
  finally show ?thesis .
qed

text \<open>Only equalities: lower, upper and prefix keys are the same.\<close>

lemma eq_ranges:
  assumes ident: "ser_ok ident" and es: "\<And>c. c \<in> set es \<Longrightarrow> comparison c \<and> lowerOp c = OpEq"
  shows "\<exists>p'. rangesFromKeySets (keys_of (eq_stack ident es)) (keys_of (eq_stack ident es)) (keys_of (eq_stack ident es))
        (if es = [] then None else Some (last es)) p = Inr p' \<and> p_query p' = p_query p \<and>
    (\<forall>vs. list_all ser_ok vs \<longrightarrow> length es \<le> length vs \<longrightarrow>
       (covers (p_ranges p') (vals_key (ident # vs)) \<longleftrightarrow> covers (p_ranges p) (vals_key (ident # vs)) \<or>
          list_all2 passes es (take (length es) vs) \<and> page_in (p_query p) (vals_key (ident # vs))))"
proof -
  let ?K = "keys_of (eq_stack ident es)"
  let ?cl = "if es = [] then None else Some (last es)"
  let ?ts = "map (\<lambda>k. (k, k, k)) ?K"
  have cl: "comparison c" "lowerOp c = OpEq" if "?cl = Some c" for c
    using that es [of c] by (auto split: if_splits)
  have good: "good_key l \<and> good_key u \<and> good_key x" if "(l, u, x) \<in> set ?ts" for l u x
    using that eq_keys_good by auto
  have cond: "range_cond ?cl k k k key \<longleftrightarrow> prefixOf k key" if "k \<in> set ?K" for k key
  proof -
    have "range_cond ?cl k k k key \<longleftrightarrow> kle k key \<and> \<not> kle (key_increment k) key"
      using cl(2) by (cases ?cl) (simp_all add: range_cond_def split: if_splits)
    then show ?thesis using eq_keys_good [OF that] kle_increment [of k key] by (simp add: good_key_def)
  qed
  obtain p' where p': "rangesFromKeySets_loop ?K ?K ?K 0 ?cl p = Inr p'" "p_query p' = p_query p"
    "\<And>k. covers (p_ranges p') k \<longleftrightarrow>
       covers (p_ranges p) k \<or> (\<exists>(l, u, x) \<in> set ?ts. range_cond ?cl l u x k) \<and> page_in (p_query p) k"
    using ranges_loop_covers [of ?cl ?ts 0 p, OF cl(1) good] by (auto simp: comp_def)
  have "(\<exists>(l, u, x) \<in> set ?ts. range_cond ?cl l u x (vals_key (ident # vs))) \<longleftrightarrow>
      list_all2 passes es (take (length es) vs)" if "list_all ser_ok vs" "length es \<le> length vs" for vs
  proof -
    have "(\<exists>(l, u, x) \<in> set ?ts. range_cond ?cl l u x (vals_key (ident # vs))) \<longleftrightarrow>
        (\<exists>k \<in> set ?K. range_cond ?cl k k k (vals_key (ident # vs)))" by auto
    also have "\<dots> \<longleftrightarrow> (\<exists>k \<in> set ?K. k = vals_key (ident # take (length es) vs))"
      using cond eq_keys_prefix [OF ident es that] by blast
    also have "\<dots> \<longleftrightarrow> list_all2 passes es (take (length es) vs)"
      using in_eq_keys [OF ident es that] by blast
    finally show ?thesis .
  qed
  then show ?thesis using p' by (auto simp: rangesFromKeySets_def)
qed

text \<open>Equalities and one clause with another operator behind them.\<close>

lemma last_ranges:
  assumes ident: "ser_ok ident" and es: "\<And>c. c \<in> set es \<Longrightarrow> comparison c \<and> lowerOp c = OpEq"
    and c: "comparison c" "lowerOp c \<noteq> OpEq"
  shows "\<exists>p'. rangesFromKeySets (map (\<lambda>k. k @ enc (lowerVal c)) (keys_of (eq_stack ident es)))
        (map (\<lambda>k. k @ enc (upper_val c)) (keys_of (eq_stack ident es))) (keys_of (eq_stack ident es)) (Some c) p = Inr p' \<and>
    p_query p' = p_query p \<and>
    (\<forall>vs. list_all ser_ok vs \<longrightarrow> length es < length vs \<longrightarrow>
       (covers (p_ranges p') (vals_key (ident # vs)) \<longleftrightarrow> covers (p_ranges p) (vals_key (ident # vs)) \<or>
          list_all2 passes (es @ [c]) (take (Suc (length es)) vs) \<and> page_in (p_query p) (vals_key (ident # vs))))"
proof -
  let ?K = "keys_of (eq_stack ident es)"
  let ?ts = "map (\<lambda>k. (k @ enc (lowerVal c), k @ enc (upper_val c), k)) ?K"
  have app: "good_key (k @ x)" if "good_key k" for k x
    using that increment_append_nonempty [of k x] by (simp add: good_key_def)
  have good: "good_key l \<and> good_key u \<and> good_key x" if "(l, u, x) \<in> set ?ts" for l u x
    using that eq_keys_good app by auto
  have cl: "comparison d" if "Some c = Some d" for d using that c(1) by simp
  obtain p' where p': "rangesFromKeySets_loop (map (\<lambda>k. k @ enc (lowerVal c)) ?K) (map (\<lambda>k. k @ enc (upper_val c)) ?K) ?K 0 (Some c) p = Inr p'"
    "p_query p' = p_query p"
    "\<And>k. covers (p_ranges p') k \<longleftrightarrow>
       covers (p_ranges p) k \<or> (\<exists>(l, u, x) \<in> set ?ts. range_cond (Some c) l u x k) \<and> page_in (p_query p) k"
    using ranges_loop_covers [of "Some c" ?ts 0 p, OF cl good] by (auto simp: comp_def)
  have "(\<exists>(l, u, x) \<in> set ?ts. range_cond (Some c) l u x (vals_key (ident # vs))) \<longleftrightarrow>
      list_all2 passes (es @ [c]) (take (Suc (length es)) vs)" if vs: "list_all ser_ok vs" "length es < length vs" for vs
  proof -
    define v where "v = vs ! length es"
    define r where "r = vals_key (drop (Suc (length es)) vs)"
    have split: "vs = take (length es) vs @ v # drop (Suc (length es)) vs"
      unfolding v_def by (rule id_take_nth_drop [OF vs(2)])
    have key: "vals_key (ident # vs) = vals_key (ident # take (length es) vs) @ enc v @ r"
      by (subst split) (simp add: r_def)
    have v: "ser_ok v" using vs by (simp add: v_def list_all_length)
    have len: "length es \<le> length vs" using vs(2) by simp
    have sel: "range_cond (Some c) (k @ enc (lowerVal c)) (k @ enc (upper_val c)) k (vals_key (ident # vs)) \<longleftrightarrow>
        k = vals_key (ident # take (length es) vs) \<and> passes c v" if k: "k \<in> set ?K" for k
    proof (cases "k = vals_key (ident # take (length es) vs)")
      case True
      show ?thesis
        unfolding key True [symmetric] using range_cond_passes [OF c v eq_keys_good [OF k]] by simp
    next
      case False
      then have "\<not> prefixOf k (vals_key (ident # vs))" using eq_keys_prefix [OF ident es vs(1) len k] by blast
      then show ?thesis
        using False range_prefix [OF _ eq_keys_good [OF k] app [OF eq_keys_good [OF k]] app [OF eq_keys_good [OF k]] c] by blast
    qed
    have "(\<exists>(l, u, x) \<in> set ?ts. range_cond (Some c) l u x (vals_key (ident # vs))) \<longleftrightarrow>
        (\<exists>k \<in> set ?K. range_cond (Some c) (k @ enc (lowerVal c)) (k @ enc (upper_val c)) k (vals_key (ident # vs)))" by auto
    also have "\<dots> \<longleftrightarrow> list_all2 passes es (take (length es) vs) \<and> passes c v"
      using sel in_eq_keys [OF ident es vs(1) len] by blast
    also have "\<dots> \<longleftrightarrow> list_all2 passes (es @ [c]) (take (Suc (length es)) vs)"
      using vs(2) by (simp add: take_Suc_conv_app_nth v_def list_all2_append)
    finally show ?thesis .
  qed
  then show ?thesis using p' by (auto simp: rangesFromKeySets_def)
qed

lemma eq_keys_nonempty:
  assumes "\<And>c. c \<in> set es \<Longrightarrow> clause_vals c \<noteq> []"
  shows "keys_of (eq_stack ident es) \<noteq> []"
proof -
  have "list_all2 (\<lambda>x c. x \<in> set (clause_vals c)) (map (\<lambda>c. hd (clause_vals c)) es) es"
    using assms by (induction es) simp_all
  then have "vals_key (ident # map (\<lambda>c. hd (clause_vals c)) es) \<in> set (keys_of (eq_stack ident es))"
    unfolding eq_stack_keys by blast
  then show ?thesis by (metis empty_iff empty_set)
qed

definition plan_clauses :: "where_map \<Rightarrow> string list \<Rightarrow> where_clause list \<Rightarrow> string list \<Rightarrow> bool" where
  "plan_clauses wh ps cs qs \<longleftrightarrow>
     list_all2 (\<lambda>p c. where_find p wh = Some c) ps cs \<and>
     (qs = [] \<or> where_find (hd qs) wh = None \<and> length ps = length wh) \<and>
     (\<forall>c \<in> set cs. comparison c \<and> clause_vals c \<noteq> []) \<and> (\<forall>c \<in> set (butlast cs). lowerOp c = OpEq)"

text \<open>The keys that \<^verbatim>\<open>buildRanges\<close> hands to \<^verbatim>\<open>rangesFromKeySets\<close>, with equalities only and with another operator at the end.\<close>

lemma buildRanges_shape:
  assumes ident: "ser_ok (ix_id ix)" "obj_type (ix_id ix) \<noteq> TypeArray" and props: "ix_props ix = ps @ qs" "ix_props ix \<noteq> []"
    and cs: "plan_clauses (q_whereClauses (p_query p)) ps cs qs"
  obtains (eqs) "\<And>c. c \<in> set cs \<Longrightarrow> comparison c \<and> lowerOp c = OpEq"
    "buildRanges lib ix p = rangesFromKeySets (keys_of (eq_stack (ix_id ix) cs)) (keys_of (eq_stack (ix_id ix) cs))
       (keys_of (eq_stack (ix_id ix) cs)) (if cs = [] then None else Some (last cs)) p"
  | (other) es c where "cs = es @ [c]" "lowerOp c \<noteq> OpEq" "comparison c" "\<And>d. d \<in> set es \<Longrightarrow> comparison d \<and> lowerOp d = OpEq"
    "buildRanges lib ix p = rangesFromKeySets (map (\<lambda>k. k @ enc (lowerVal c)) (keys_of (eq_stack (ix_id ix) es)))
       (map (\<lambda>k. k @ enc (upper_val c)) (keys_of (eq_stack (ix_id ix) es))) (keys_of (eq_stack (ix_id ix) es)) (Some c) p"
proof -
  let ?wh = "q_whereClauses (p_query p)"
  let ?b = "\<lparr>b_lower = [[enc (ix_id ix)]], b_upper = [[enc (ix_id ix)]], b_prefix = [], b_last = None, b_plan = p\<rparr>"
  have loop: "build_loop lib ?wh 0 (ix_props ix) ?b = run (push_clause lib) ?b cs"
    unfolding props(1) by (rule build_loop_run) (use cs in \<open>auto simp: plan_clauses_def\<close>)
  have start: "buildRanges lib ix p = rbind (run (push_clause lib) ?b cs) (\<lambda>b.
      rangesFromKeySets (keys_of (b_lower b)) (keys_of (b_upper b))
        (if b_prefix b = [] then keys_of (b_lower b) else b_prefix b) (b_last b) (b_plan b))"
    using props(2) by (simp add: buildRanges_def pushVal_def valKeys_single [OF ident(2)] loop [symmetric] Let_def)
  have all: "\<And>c. c \<in> set cs \<Longrightarrow> comparison c \<and> clause_vals c \<noteq> []"
    and but: "\<And>c. c \<in> set (butlast cs) \<Longrightarrow> lowerOp c = OpEq"
    using cs by (auto simp: plan_clauses_def)
  show ?thesis
  proof (cases "cs = [] \<or> lowerOp (last cs) = OpEq")
    case True
    have es: "comparison c \<and> lowerOp c = OpEq" if "c \<in> set cs" for c
    proof -
      have "set cs = insert (last cs) (set (butlast cs))" using that by (metis append_butlast_last_id
            empty_iff empty_set list.simps(15) rotate1.simps(2) set_rotate1)
      then show ?thesis using True all [OF that] but that by auto
    qed
    have "run (push_clause lib) ?b cs = Inr (?b\<lparr>b_lower := eq_stack (ix_id ix) cs, b_upper := eq_stack (ix_id ix) cs,
        b_last := (if cs = [] then None else Some (last cs))\<rparr>)"
      by (subst run_push_eq) (auto simp: es eq_stack_def)
    then show ?thesis using eqs [OF es] by (simp add: start)
  next
    case False
    then obtain es c where cse: "cs = es @ [c]" "lowerOp c \<noteq> OpEq" by (metis append_butlast_last_id)
    have es: "comparison d \<and> lowerOp d = OpEq" if "d \<in> set es" for d
      using all [of d] but [of d] that by (simp add: cse)
    have c: "comparison c" using all [of c] by (simp add: cse)
    have ne: "keys_of (eq_stack (ix_id ix) es) \<noteq> []"
      by (rule eq_keys_nonempty) (use all cse in simp)
    have snoc: "keys_of (eq_stack (ix_id ix) es @ [[a]]) = map (\<lambda>k. k @ a) (keys_of (eq_stack (ix_id ix) es))" for a
    proof (rule keys_of_snoc)
      show "prefix_free (keys_of (eq_stack (ix_id ix) es))"
        using eq_stack_prefix_free [OF ident(1)] es clause_vals_ok by (auto simp: comparison_def)
    qed (simp add: eq_stack_def)
    have "run (push_clause lib) ?b es = Inr (?b\<lparr>b_lower := eq_stack (ix_id ix) es, b_upper := eq_stack (ix_id ix) es,
        b_last := (if es = [] then None else Some (last es))\<rparr>)"
      by (subst run_push_eq) (auto simp: es eq_stack_def)
    then have "buildRanges lib ix p = rangesFromKeySets (map (\<lambda>k. k @ enc (lowerVal c)) (keys_of (eq_stack (ix_id ix) es)))
        (map (\<lambda>k. k @ enc (upper_val c)) (keys_of (eq_stack (ix_id ix) es))) (keys_of (eq_stack (ix_id ix) es)) (Some c) p"
      unfolding start cse(1) run_append using ne by (simp add: snoc push_clause_other [OF c cse(2)])
    then show ?thesis using other [OF cse c es] by blast
  qed
qed

lemma buildRanges_covers:
  assumes ident: "ser_ok (ix_id ix)" and props: "ix_props ix = ps @ qs" "ix_props ix \<noteq> []"
    and cs: "plan_clauses (q_whereClauses (p_query p)) ps cs qs" and p: "p_ranges p = []"
    and scalar: "obj_type (ix_id ix) \<noteq> TypeArray"
  shows "\<exists>p'. buildRanges lib ix p = Inr p' \<and> p_query p' = p_query p \<and>
    (\<forall>vs. list_all ser_ok vs \<longrightarrow> length vs = length (ix_props ix) \<longrightarrow>
       (covers (p_ranges p') (vals_key (ix_id ix # vs)) \<longleftrightarrow>
          list_all2 passes cs (take (length cs) vs) \<and> page_in (p_query p) (vals_key (ix_id ix # vs))))"
proof -
  have len: "length cs \<le> length (ix_props ix)"
    using cs props(1) by (auto simp: plan_clauses_def dest: list_all2_lengthD)
  have none: "\<not> covers (p_ranges p) k" for k by (simp add: p covers_def)
  from ident scalar props cs show ?thesis
  proof (cases rule: buildRanges_shape [where lib = lib])
    case eqs
    then show ?thesis using eq_ranges [of "ix_id ix" cs p, OF ident eqs(1)] none len by auto
  next
    case (other es c)
    then show ?thesis using last_ranges [of "ix_id ix" es c p, OF ident other(4,3,2)] none len by (auto simp: other(1))
  qed
qed

text \<open>
  The tables of an engine's indexes are one: whatever other keys it holds, the ranges of a plan contain none without the
  index's id in front.
\<close>

lemma eq_keys_ident:
  assumes "k \<in> set (keys_of (eq_stack ident es))" "prefixOf k key"
  shows "prefixOf (enc ident) key"
proof -
  obtain xs where "k = vals_key (ident # xs)" using assms(1) unfolding eq_stack_keys by blast
  then show ?thesis using assms(2) by (auto simp: prefixOf_iff)
qed

lemma buildRanges_prefix:
  assumes ident: "ser_ok (ix_id ix)" and props: "ix_props ix = ps @ qs" "ix_props ix \<noteq> []"
    and cs: "plan_clauses (q_whereClauses (p_query p)) ps cs qs" and p: "p_ranges p = []"
    and scalar: "obj_type (ix_id ix) \<noteq> TypeArray"
    and p': "buildRanges lib ix p = Inr p'" "covers (p_ranges p') key"
  shows "prefixOf (enc (ix_id ix)) key"
proof -
  have none: "\<not> covers (p_ranges p) k" for k by (simp add: p covers_def)
  from ident scalar props cs show ?thesis
  proof (cases rule: buildRanges_shape [where lib = lib])
    case eqs
    let ?K = "keys_of (eq_stack (ix_id ix) cs)" and ?cl = "if cs = [] then None else Some (last cs)"
    let ?ts = "map (\<lambda>k. (k, k, k)) ?K"
    have cl: "comparison c \<and> lowerOp c = OpEq" if "?cl = Some c" for c
      using that eqs(1) [of c] by (auto split: if_splits)
    have good: "good_key l \<and> good_key u \<and> good_key x" if "(l, u, x) \<in> set ?ts" for l u x
      using that eq_keys_good by auto
    have "rangesFromKeySets_loop ?K ?K ?K 0 ?cl p = Inr p'" using p'(1) eqs(2) by (simp add: rangesFromKeySets_def)
    then obtain k where k: "k \<in> set ?K" "range_cond ?cl k k k key"
      using ranges_loop_covers [of ?cl ?ts 0 p, OF _ good] cl p'(2) none by (auto simp: comp_def)
    have "kle k key \<and> \<not> kle (key_increment k) key"
      using k(2) cl by (cases ?cl) (simp_all add: range_cond_def split: if_splits)
    then have "prefixOf k key" using eq_keys_good [OF k(1)] kle_increment [of k key] by (simp add: good_key_def)
    then show ?thesis by (rule eq_keys_ident [OF k(1)])
  next
    case (other es c)
    let ?K = "keys_of (eq_stack (ix_id ix) es)"
    let ?ts = "map (\<lambda>k. (k @ enc (lowerVal c), k @ enc (upper_val c), k)) ?K"
    have app: "good_key (k @ x)" if "good_key k" for k x
      using that increment_append_nonempty [of k x] by (simp add: good_key_def)
    have good: "good_key l \<and> good_key u \<and> good_key x" if "(l, u, x) \<in> set ?ts" for l u x
      using that eq_keys_good app by auto
    have cl: "comparison d" if "Some c = Some d" for d using that other(3) by simp
    have "rangesFromKeySets_loop (map (\<lambda>k. k @ enc (lowerVal c)) ?K) (map (\<lambda>k. k @ enc (upper_val c)) ?K) ?K 0 (Some c) p = Inr p'"
      using p'(1) other(5) by (simp add: rangesFromKeySets_def)
    then obtain k where k: "k \<in> set ?K" "range_cond (Some c) (k @ enc (lowerVal c)) (k @ enc (upper_val c)) k key"
      using ranges_loop_covers [of "Some c" ?ts 0 p, OF cl good] p'(2) none by (auto simp: comp_def)
    have "prefixOf k key"
      using range_prefix [OF k(2)] eq_keys_good [OF k(1)] app [OF eq_keys_good [OF k(1)]] other(2,3) by blast
    then show ?thesis by (rule eq_keys_ident [OF k(1)])
  qed
qed

end
