(* ===== verification/DbWatcher.thy ===== *)
theory DbWatcher
  imports DbPlan
begin

text \<open>
  Watchers (\<^verbatim>\<open>src/db/MojDbWatcher.cpp\<close>), their registration with an index (\<^verbatim>\<open>addWatch\<close>,
  \<^verbatim>\<open>cancelWatch\<close>, \<^verbatim>\<open>notifyWatches\<close> of \<^verbatim>\<open>src/db/MojDbIndex.cpp\<close>) and their notification when a
  transaction commits (\<^verbatim>\<open>src/db/MojDbStorageTxn.cpp\<close>). The theorems: a watcher signals exactly once
  if and only if a changed key lies within the part of the result that the cursor has returned,
  whether the change comes before or after the watcher is activated.
\<close>

section \<open>State\<close>

datatype watcher_state = StateInvalid | StatePending | StateActive

text \<open>\<open>w_index\<close> tells whether \<^verbatim>\<open>m_index\<close> is set.\<close>

record watcher =
  w_ranges :: "key_range list"
  w_limitKey :: dbkey
  w_fireKey :: dbkey
  w_domain :: string
  w_desc :: bool
  w_state :: watcher_state
  w_index :: bool

definition watcher_new :: watcher where
  "watcher_new = \<lparr>w_ranges = [], w_limitKey = [], w_fireKey = [], w_domain = [], w_desc = False,
     w_state = StateInvalid, w_index = False\<rparr>"

text \<open>
  The watchers of one index. A watcher is a reference into \<open>x_mem\<close>; \<open>x_signals\<close> are the references
  whose signal has been fired, the last one first.
\<close>

record windex =
  x_mem :: "nat \<Rightarrow> watcher"
  x_watcherVec :: "nat list"
  x_watcherMap :: "(string \<times> u64) list"
  x_signals :: "nat list"

definition set_watcher :: "nat \<Rightarrow> watcher \<Rightarrow> windex \<Rightarrow> windex" where
  "set_watcher ref w x = x\<lparr>x_mem := (x_mem x)(ref := w)\<rparr>"

section \<open>The index\<close>

definition watch_count :: "string \<Rightarrow> windex \<Rightarrow> u64 option" where
  "watch_count domain x = map_get MojStrCmp domain (x_watcherMap x)"

definition watcher_init :: "key_range list \<Rightarrow> bool \<Rightarrow> bool \<Rightarrow> watcher \<Rightarrow> watcher res" where
  "watcher_init ranges desc active w =
     (if w_index w then Inl MojAssertFailed
      else Inr (w\<lparr>w_index := True, w_ranges := ranges, w_desc := desc,
                  w_state := (if active then StateActive else StatePending)\<rparr>))"

definition addWatch :: "plan \<Rightarrow> nat \<Rightarrow> string \<Rightarrow> windex \<Rightarrow> windex res" where
  "addWatch p ref domain x =
     (let count = (case watch_count domain x of None \<Rightarrow> 1 | Some n \<Rightarrow> n + 1) in
      rbind (watcher_init (p_ranges p) (q_desc (p_query p)) False ((x_mem x ref)\<lparr>w_domain := domain\<rparr>)) (\<lambda>w.
        Inr (set_watcher ref w (x\<lparr>x_watcherVec := x_watcherVec x @ [ref],
                                 x_watcherMap := map_put MojStrCmp domain count (x_watcherMap x)\<rparr>))))"

text \<open>The first entry of the vector for the watcher is erased and its domain's count goes down.\<close>

definition cancelWatch :: "nat \<Rightarrow> windex \<Rightarrow> windex res" where
  "cancelWatch ref x =
     (if ref \<in> set (x_watcherVec x) then
        let domain = w_domain (x_mem x ref);
            x' = x\<lparr>x_watcherVec := remove1 ref (x_watcherVec x)\<rparr>
        in (case watch_count domain x of
              None \<Rightarrow> Inr x'
            | Some n \<Rightarrow>
                Inr (x'\<lparr>x_watcherMap :=
                  (if n - 1 = 0 then map_del MojStrCmp domain (x_watcherMap x)
                   else map_put MojStrCmp domain (n - 1) (x_watcherMap x))\<rparr>))
      else Inl MojErrDbWatcherNotRegistered)"

section \<open>The watcher\<close>

definition invalidate :: "nat \<Rightarrow> windex \<Rightarrow> windex res" where
  "invalidate ref x =
     (let w = x_mem x ref in
      if \<not> w_index w \<or> w_state w \<noteq> StateActive then Inl MojAssertFailed
      else cancelWatch ref (set_watcher ref (w\<lparr>w_index := False, w_state := StateInvalid\<rparr>) x))"

text \<open>An error of the signal's handler is caught.\<close>

definition fireImpl :: "nat \<Rightarrow> windex \<Rightarrow> windex res" where
  "fireImpl ref x = rbind (invalidate ref x) (\<lambda>x'. Inr (x'\<lparr>x_signals := ref # x_signals x'\<rparr>))"

definition watcher_activate :: "nat \<Rightarrow> dbkey \<Rightarrow> windex \<Rightarrow> windex res" where
  "watcher_activate ref limitKey x =
     (let w = x_mem x ref in
      if \<not> w_index w then Inl MojAssertFailed
      else
        let fired = (w_fireKey w \<noteq> []);
            inRange = (fired \<and> (limitKey = [] \<or> (w_desc w \<and> bcmp (w_fireKey w) limitKey \<ge> 0) \<or>
                                (\<not> w_desc w \<and> bcmp (w_fireKey w) limitKey \<le> 0)));
            w' = w\<lparr>w_state := StateActive\<rparr>
        in if inRange then fireImpl ref (set_watcher ref w' x)
           else Inr (set_watcher ref (w'\<lparr>w_limitKey := limitKey\<rparr>) x))"

definition watcher_fire :: "nat \<Rightarrow> dbkey \<Rightarrow> windex \<Rightarrow> windex res" where
  "watcher_fire ref key x =
     (let w = x_mem x ref;
          inRange = (w_limitKey w = [] \<or> (w_desc w \<and> bcmp key (w_limitKey w) \<ge> 0) \<or>
                     (\<not> w_desc w \<and> bcmp key (w_limitKey w) \<le> 0))
      in
      if \<not> inRange then Inr x
      else if w_state w = StateActive then fireImpl ref x
      else if w_state w = StatePending then
        (if (w_desc w \<and> bcmp key (w_fireKey w) > 0) \<or>
            (\<not> w_desc w \<and> (w_fireKey w = [] \<or> bcmp key (w_fireKey w) < 0))
         then Inr (set_watcher ref (w\<lparr>w_fireKey := key\<rparr>) x) else Inr x)
      else Inr x)"

definition handleCancel :: "nat \<Rightarrow> windex \<Rightarrow> windex res" where
  "handleCancel ref x =
     (let w = x_mem x ref in
      if \<not> w_index w then Inl MojErrDbWatcherNotRegistered
      else if w_state w \<noteq> StateInvalid then invalidate ref x
      else Inr x)"

section \<open>The transaction\<close>

text \<open>\<^verbatim>\<open>addWatcher\<close>: one entry per watcher, with the least of its keys.\<close>

type_synonym watcher_infos = "(nat \<times> dbkey) list"

fun txn_addWatcher :: "nat \<Rightarrow> dbkey \<Rightarrow> watcher_infos \<Rightarrow> watcher_infos" where
  "txn_addWatcher ref key [] = [(ref, key)]"
| "txn_addWatcher ref key ((r, k) # infos) =
     (if r = ref then (r, if bcmp key k < 0 then key else k) # infos
      else (r, k) # txn_addWatcher ref key infos)"

definition notify_key :: "windex \<Rightarrow> watcher_infos \<Rightarrow> dbkey \<Rightarrow> watcher_infos" where
  "notify_key x infos key =
     foldl (\<lambda>acc ref. if \<exists>r \<in> set (w_ranges (x_mem x ref)). range_contains r key
                      then txn_addWatcher ref key acc else acc) infos (x_watcherVec x)"

definition notifyWatches :: "windex \<Rightarrow> dbkey list \<Rightarrow> watcher_infos \<Rightarrow> watcher_infos" where
  "notifyWatches x keys infos = foldl (notify_key x) infos keys"

text \<open>The end of \<^verbatim>\<open>commit\<close>: every watcher is fired with its key.\<close>

definition commit_watchers :: "watcher_infos \<Rightarrow> windex \<Rightarrow> windex res" where
  "commit_watchers infos x = run (\<lambda>x (ref, key). watcher_fire ref key x) x infos"

section \<open>Registration\<close>

lemma set_watcher_simps [simp]:
  "x_mem (set_watcher ref w x) = (x_mem x)(ref := w)"
  "x_watcherVec (set_watcher ref w x) = x_watcherVec x"
  "x_watcherMap (set_watcher ref w x) = x_watcherMap x"
  "x_signals (set_watcher ref w x) = x_signals x"
  by (simp_all add: set_watcher_def)

lemma cancelWatch_ok:
  assumes "ref \<in> set (x_watcherVec x)"
  shows "\<exists>x'. cancelWatch ref x = Inr x' \<and> x_mem x' = x_mem x \<and> x_signals x' = x_signals x \<and>
    x_watcherVec x' = remove1 ref (x_watcherVec x)"
  using assms by (cases "watch_count (w_domain (x_mem x ref)) x") (simp_all add: cancelWatch_def Let_def)

definition live :: "watcher_state \<Rightarrow> nat \<Rightarrow> windex \<Rightarrow> bool" where
  "live st ref x \<longleftrightarrow> w_index (x_mem x ref) \<and> w_state (x_mem x ref) = st \<and> ref \<in> set (x_watcherVec x)"

definition dead :: "nat \<Rightarrow> windex \<Rightarrow> bool" where
  "dead ref x \<longleftrightarrow> w_state (x_mem x ref) = StateInvalid"

text \<open>A fired watcher leaves the index and signals; no other watcher changes.\<close>

lemma fireImpl_ok:
  assumes "live StateActive ref x"
  shows "\<exists>x'. fireImpl ref x = Inr x' \<and> dead ref x' \<and> x_signals x' = ref # x_signals x \<and>
    (\<forall>r. r \<noteq> ref \<longrightarrow> x_mem x' r = x_mem x r) \<and> x_watcherVec x' = remove1 ref (x_watcherVec x)"
proof -
  let ?x = "set_watcher ref ((x_mem x ref)\<lparr>w_index := False, w_state := StateInvalid\<rparr>) x"
  have "ref \<in> set (x_watcherVec ?x)" using assms by (simp add: live_def)
  from cancelWatch_ok [OF this] obtain x' where
    x': "cancelWatch ref ?x = Inr x'" "x_mem x' = x_mem ?x" "x_signals x' = x_signals ?x"
      "x_watcherVec x' = remove1 ref (x_watcherVec ?x)" by blast
  then show ?thesis using assms by (simp add: fireImpl_def invalidate_def live_def dead_def Let_def)
qed

section \<open>What a watcher signals\<close>

definition in_limit :: "bool \<Rightarrow> dbkey \<Rightarrow> dbkey \<Rightarrow> bool" where
  "in_limit desc limit key \<longleftrightarrow> limit = [] \<or> (if desc then kle limit key else kle key limit)"

lemma fire_dead: "dead ref x \<Longrightarrow> watcher_fire ref key x = Inr x"
  by (simp add: watcher_fire_def dead_def Let_def)

lemma fires_dead: "dead ref x \<Longrightarrow> run (\<lambda>x k. watcher_fire ref k x) x ks = Inr x"
  by (induction ks) (simp_all add: fire_dead)

lemma fire_active:
  assumes "live StateActive ref x"
  shows "watcher_fire ref key x =
    (if in_limit (w_desc (x_mem x ref)) (w_limitKey (x_mem x ref)) key then fireImpl ref x else Inr x)"
  using assms by (auto simp: watcher_fire_def live_def in_limit_def Let_def bcmp_kle)

lemma fires_active:
  assumes "live StateActive ref x"
  shows "\<exists>x'. run (\<lambda>x k. watcher_fire ref k x) x ks = Inr x' \<and> x_signals x' =
    (if \<exists>k \<in> set ks. in_limit (w_desc (x_mem x ref)) (w_limitKey (x_mem x ref)) k then [ref] else []) @ x_signals x"
proof (induction ks)
  case (Cons k ks)
  show ?case
  proof (cases "in_limit (w_desc (x_mem x ref)) (w_limitKey (x_mem x ref)) k")
    case True
    then show ?thesis using fireImpl_ok [OF assms] fires_dead by (auto simp: fire_active [OF assms])
  next
    case False
    then show ?thesis using Cons by (simp add: fire_active [OF assms])
  qed
qed simp

text \<open>A pending watcher keeps the key of its fires that a limit lets through most readily.\<close>

definition first_key :: "bool \<Rightarrow> dbkey list \<Rightarrow> dbkey \<Rightarrow> bool" where
  "first_key desc ks key \<longleftrightarrow>
     (if ks = [] then key = []
      else key \<in> set ks \<and> (\<forall>k \<in> set ks. if desc then kle k key else kle key k))"

lemma first_key_limit:
  "first_key desc ks key \<Longrightarrow> ks \<noteq> [] \<Longrightarrow> in_limit desc limit key \<longleftrightarrow> (\<exists>k \<in> set ks. in_limit desc limit k)"
  by (auto simp: first_key_def in_limit_def intro: kle_trans split: if_splits)

lemma fire_pending:
  assumes "live StatePending ref x" "w_limitKey (x_mem x ref) = []" "key \<noteq> []" "[] \<notin> set ks"
    and "first_key (w_desc (x_mem x ref)) ks (w_fireKey (x_mem x ref))"
  shows "\<exists>w. watcher_fire ref key x = Inr (set_watcher ref w x) \<and> w_index w \<and> w_state w = StatePending \<and>
    w_limitKey w = [] \<and> w_desc w = w_desc (x_mem x ref) \<and> first_key (w_desc w) (ks @ [key]) (w_fireKey w)"
proof -
  let ?w = "x_mem x ref"
  have same: "set_watcher ref ?w x = x" by (simp add: set_watcher_def)
  let ?save = "(w_desc ?w \<and> \<not> kle key (w_fireKey ?w)) \<or> (\<not> w_desc ?w \<and> (w_fireKey ?w = [] \<or> \<not> kle (w_fireKey ?w) key))"
  define w where "w = (if ?save then ?w\<lparr>w_fireKey := key\<rparr> else ?w)"
  have "watcher_fire ref key x = Inr (set_watcher ref w x)"
    using assms(1,2) same by (auto simp: watcher_fire_def live_def Let_def w_def bcmp_kle)
  moreover have "first_key (w_desc ?w) (ks @ [key]) (w_fireKey w)"
  proof (cases "ks = []")
    case True
    then show ?thesis using assms(3,5) by (simp add: first_key_def w_def)
  next
    case False
    then have "w_fireKey ?w \<noteq> []" using assms(4,5) by (auto simp: first_key_def)
    then show ?thesis
      using False assms(5) kle_total by (auto simp: first_key_def w_def intro: kle_trans split: if_splits)
  qed
  moreover have "w_index w" "w_state w = StatePending" "w_limitKey w = []" "w_desc w = w_desc ?w"
    using assms(1,2) by (auto simp: w_def live_def)
  ultimately show ?thesis by (intro exI [of _ w]) simp
qed

lemma fires_pending:
  assumes "live StatePending ref x" "w_limitKey (x_mem x ref) = []" "[] \<notin> set ks" "[] \<notin> set js"
    and "first_key (w_desc (x_mem x ref)) js (w_fireKey (x_mem x ref))"
  shows "\<exists>w. run (\<lambda>x k. watcher_fire ref k x) x ks = Inr (set_watcher ref w x) \<and> w_index w \<and> w_state w = StatePending \<and>
    w_limitKey w = [] \<and> w_desc w = w_desc (x_mem x ref) \<and> first_key (w_desc w) (js @ ks) (w_fireKey w)"
  using assms
proof (induction ks arbitrary: x js)
  case Nil
  then show ?case by (intro exI [of _ "x_mem x ref"]) (simp add: live_def set_watcher_def)
next
  case (Cons k ks)
  have "k \<noteq> []" using Cons.prems(3) by auto
  from fire_pending [OF Cons.prems(1,2) this Cons.prems(4,5)] obtain w where
    w: "watcher_fire ref k x = Inr (set_watcher ref w x)" "w_index w" "w_state w = StatePending" "w_limitKey w = []"
      "w_desc w = w_desc (x_mem x ref)" "first_key (w_desc w) (js @ [k]) (w_fireKey w)" by blast
  let ?x = "set_watcher ref w x"
  have "live StatePending ref ?x" using w Cons.prems(1) by (simp add: live_def)
  moreover have "w_limitKey (x_mem ?x ref) = []" "[] \<notin> set ks" "[] \<notin> set (js @ [k])"
    "first_key (w_desc (x_mem ?x ref)) (js @ [k]) (w_fireKey (x_mem ?x ref))"
    using w Cons.prems by auto
  ultimately obtain w' where
    "run (\<lambda>x k. watcher_fire ref k x) ?x ks = Inr (set_watcher ref w' ?x)" "w_index w'" "w_state w' = StatePending"
      "w_limitKey w' = []" "w_desc w' = w_desc (x_mem ?x ref)" "first_key (w_desc w') ((js @ [k]) @ ks) (w_fireKey w')"
    using Cons.IH [of ?x "js @ [k]"] by blast
  then show ?case using w by (intro exI [of _ w']) (simp add: set_watcher_def)
qed

text \<open>
  C12. A watcher misses no change and signals no change twice: of a watcher that is added to its
  index, fired with any keys, activated with the last key its cursor returned, and fired again, the
  signal is sent exactly once if one of the keys lies in the returned part of the result, and not at
  all otherwise; it makes no difference whether the change came before the activation or after.
\<close>

theorem watcher_signals_once:
  assumes "x_mem x0 ref = watcher_new" "[] \<notin> set ks"
  shows "\<exists>x. rbind (addWatch p ref domain x0) (\<lambda>x1.
        rbind (run (\<lambda>x k. watcher_fire ref k x) x1 ks) (\<lambda>x2.
        rbind (watcher_activate ref limit x2) (\<lambda>x3. run (\<lambda>x k. watcher_fire ref k x) x3 js))) = Inr x \<and>
      x_signals x =
        (if \<exists>k \<in> set (ks @ js). in_limit (q_desc (p_query p)) limit k then [ref] else []) @ x_signals x0"
proof -
  let ?desc = "q_desc (p_query p)"
  obtain x1 where x1: "addWatch p ref domain x0 = Inr x1" "live StatePending ref x1"
    "w_limitKey (x_mem x1 ref) = []" "w_fireKey (x_mem x1 ref) = []" "w_desc (x_mem x1 ref) = ?desc"
    "x_signals x1 = x_signals x0"
    using assms(1) by (simp add: addWatch_def watcher_init_def live_def Let_def watcher_new_def)
  from fires_pending [OF x1(2,3) assms(2), of "[]"] obtain w where
    w: "run (\<lambda>x k. watcher_fire ref k x) x1 ks = Inr (set_watcher ref w x1)" "w_index w" "w_state w = StatePending"
      "w_limitKey w = []" "w_desc w = ?desc" "first_key ?desc ks (w_fireKey w)"
    using x1 by (auto simp: first_key_def)
  let ?x2 = "set_watcher ref w x1"
  have act: "live StateActive ref (set_watcher ref (w\<lparr>w_state := StateActive\<rparr>) ?x2)"
    "live StateActive ref (set_watcher ref (w\<lparr>w_state := StateActive, w_limitKey := limit\<rparr>) ?x2)"
    using w x1(2) by (simp_all add: live_def)
  have fired: "w_fireKey w \<noteq> [] \<longleftrightarrow> ks \<noteq> []" using w(6) assms(2) by (auto simp: first_key_def split: if_splits)
  have in_range: "(w_fireKey w \<noteq> [] \<and> (limit = [] \<or> (w_desc w \<and> 0 \<le> bcmp (w_fireKey w) limit) \<or>
      (\<not> w_desc w \<and> bcmp (w_fireKey w) limit \<le> 0))) \<longleftrightarrow> (\<exists>k \<in> set ks. in_limit ?desc limit k)"
    using first_key_limit [OF w(6), of limit] fired w(5) by (auto simp: in_limit_def bcmp_kle)
  show ?thesis
  proof (cases "\<exists>k \<in> set ks. in_limit ?desc limit k")
    case True
    then have "watcher_activate ref limit ?x2 = fireImpl ref (set_watcher ref (w\<lparr>w_state := StateActive\<rparr>) ?x2)"
      using w(2) in_range by (simp add: watcher_activate_def Let_def)
    moreover obtain x3 where "fireImpl ref (set_watcher ref (w\<lparr>w_state := StateActive\<rparr>) ?x2) = Inr x3"
      "dead ref x3" "x_signals x3 = ref # x_signals x0"
      using fireImpl_ok [OF act(1)] x1(6) by auto
    ultimately show ?thesis using True x1(1) w(1) fires_dead by auto
  next
    case False
    let ?x3 = "set_watcher ref (w\<lparr>w_state := StateActive, w_limitKey := limit\<rparr>) ?x2"
    have "watcher_activate ref limit ?x2 = Inr ?x3"
      using False w(2) in_range by (auto simp: watcher_activate_def Let_def)
    moreover from fires_active [OF act(2), of js] obtain x4 where
      "run (\<lambda>x k. watcher_fire ref k x) ?x3 js = Inr x4"
      "x_signals x4 = (if \<exists>k \<in> set js. in_limit ?desc limit k then [ref] else []) @ x_signals x0"
      using w(5) x1(6) by auto
    ultimately show ?thesis using False x1(1) w(1) by auto
  qed
qed

definition watch_ex :: windex where
  "watch_ex = \<lparr>x_mem = (\<lambda>_. watcher_new), x_watcherVec = [], x_watcherMap = [], x_signals = []\<rparr>"

definition plan_ex :: "bool \<Rightarrow> plan" where
  "plan_ex desc = \<lparr>p_query = query_new\<lparr>q_desc := desc\<rparr>, p_locale = [], p_idPropIndex = 0,
     p_ranges = [\<lparr>lowerKey = [1], upperKey = [9], rgroup = 0\<rparr>], p_groupCount = 0\<rparr>"

theorem watcher_signals_once_witness:
  "\<exists>x. rbind (addWatch (plan_ex False) 7 ''com.a'' watch_ex) (\<lambda>x1.
        rbind (run (\<lambda>x k. watcher_fire 7 k x) x1 [[5], [2]]) (\<lambda>x2.
        rbind (watcher_activate 7 [3] x2) (\<lambda>x3. run (\<lambda>x k. watcher_fire 7 k x) x3 [[1]]))) = Inr x \<and>
      x_signals x =
        (if \<exists>k \<in> set ([[5], [2]] @ [[1]]). in_limit (q_desc (p_query (plan_ex False))) [3] k then [7] else []) @
        x_signals watch_ex"
  by (rule watcher_signals_once) (simp_all add: watch_ex_def)

section \<open>The watchers of a transaction\<close>

lemma map_of_addWatcher:
  "map_of (txn_addWatcher ref key infos) = (map_of infos)(ref \<mapsto>
     (case map_of infos ref of None \<Rightarrow> key | Some k \<Rightarrow> if bcmp key k < 0 then key else k))"
  by (induction ref key infos rule: txn_addWatcher.induct) (auto simp: fun_eq_iff)

lemma fst_addWatcher: "fst ` set (txn_addWatcher ref key infos) = insert ref (fst ` set infos)"
  by (induction ref key infos rule: txn_addWatcher.induct) auto

lemma distinct_addWatcher:
  "distinct (map fst infos) \<Longrightarrow> distinct (map fst (txn_addWatcher ref key infos))"
proof (induction ref key infos rule: txn_addWatcher.induct)
  case (2 ref key r k infos)
  have "fst ` set (txn_addWatcher ref key infos) = insert ref (fst ` set infos)" by (rule fst_addWatcher)
  then show ?case using 2 by (auto simp: image_iff)
qed simp

text \<open>The keys of a transaction that lie in a watcher's ranges.\<close>

definition watched :: "windex \<Rightarrow> nat \<Rightarrow> dbkey list \<Rightarrow> dbkey list" where
  "watched x ref ks = filter (\<lambda>k. covers (w_ranges (x_mem x ref)) k) ks"

definition least_info :: "windex \<Rightarrow> nat list \<Rightarrow> dbkey list \<Rightarrow> watcher_infos \<Rightarrow> bool" where
  "least_info x vec ks infos \<longleftrightarrow> distinct (map fst infos) \<and>
     (\<forall>r. case map_of infos r of
            None \<Rightarrow> r \<in> set vec \<longrightarrow> watched x r ks = []
          | Some k \<Rightarrow> r \<in> set vec \<and> watched x r ks \<noteq> [] \<and> first_key False (watched x r ks) k)"

lemma first_key_snoc:
  "first_key False ks k \<Longrightarrow> ks \<noteq> [] \<Longrightarrow> first_key False (ks @ [key]) (if bcmp key k < 0 then key else k)"
  using kle_total by (auto simp: first_key_def bcmp_kle intro: kle_trans)

lemma notify_key_map:
  assumes "distinct vec" "distinct (map fst infos)"
  shows "map_of (foldl (\<lambda>acc ref. if covers (w_ranges (x_mem x ref)) key then txn_addWatcher ref key acc else acc) infos vec) r =
     (if r \<in> set vec \<and> covers (w_ranges (x_mem x r)) key
      then Some (case map_of infos r of None \<Rightarrow> key | Some k \<Rightarrow> if bcmp key k < 0 then key else k)
      else map_of infos r) \<and>
    distinct (map fst (foldl (\<lambda>acc ref. if covers (w_ranges (x_mem x ref)) key then txn_addWatcher ref key acc else acc) infos vec))"
  using assms
proof (induction vec arbitrary: infos)
  case (Cons v vec)
  let ?infos = "if covers (w_ranges (x_mem x v)) key then txn_addWatcher v key infos else infos"
  have "distinct (map fst ?infos)" using Cons.prems(2) distinct_addWatcher by simp
  then show ?case using Cons.IH [of ?infos] Cons.prems(1) by (auto simp: map_of_addWatcher simp del: map_of_eq_Some_iff split: option.split)
qed simp

lemma notify_key_least:
  assumes "distinct (x_watcherVec x)" "least_info x (x_watcherVec x) ks infos"
  shows "least_info x (x_watcherVec x) (ks @ [key]) (notify_key x infos key)"
proof -
  let ?new = "foldl (\<lambda>acc ref. if covers (w_ranges (x_mem x ref)) key then txn_addWatcher ref key acc else acc) infos (x_watcherVec x)"
  have eq: "notify_key x infos key = ?new" by (simp add: notify_key_def covers_def)
  have d: "distinct (map fst infos)" using assms(2) by (simp add: least_info_def)
  have w: "watched x r (ks @ [key]) = watched x r ks @ (if covers (w_ranges (x_mem x r)) key then [key] else [])" for r
    by (simp add: watched_def)
  have "case map_of ?new r of
            None \<Rightarrow> r \<in> set (x_watcherVec x) \<longrightarrow> watched x r (ks @ [key]) = []
          | Some k \<Rightarrow> r \<in> set (x_watcherVec x) \<and> watched x r (ks @ [key]) \<noteq> [] \<and> first_key False (watched x r (ks @ [key])) k" for r
  proof -
    have old: "case map_of infos r of
            None \<Rightarrow> r \<in> set (x_watcherVec x) \<longrightarrow> watched x r ks = []
          | Some k \<Rightarrow> r \<in> set (x_watcherVec x) \<and> watched x r ks \<noteq> [] \<and> first_key False (watched x r ks) k"
      using assms(2) by (simp add: least_info_def)
    show ?thesis
    proof (cases "map_of infos r")
      case None
      then show ?thesis
        using old notify_key_map [OF assms(1) d, of x key r] w [of r]
        by (auto simp: first_key_def split: option.split)
    next
      case (Some k)
      then have k: "r \<in> set (x_watcherVec x)" "watched x r ks \<noteq> []" "first_key False (watched x r ks) k"
        using old by simp_all
      show ?thesis
        using k Some notify_key_map [OF assms(1) d, of x key r] w [of r] first_key_snoc [OF k(3,2), of key] by auto
    qed
  qed
  then show ?thesis using notify_key_map [OF assms(1) d, of x key] by (simp add: least_info_def eq)
qed

lemma notifyWatches_least:
  assumes "distinct (x_watcherVec x)" "least_info x (x_watcherVec x) js infos"
  shows "least_info x (x_watcherVec x) (js @ ks) (notifyWatches x ks infos)"
  using assms(2)
proof (induction ks arbitrary: js infos)
  case (Cons k ks)
  then show ?case
    using Cons.IH [OF notify_key_least [OF assms(1) Cons.prems, of k]] by (simp add: notifyWatches_def)
qed (simp add: notifyWatches_def)

lemma commit_ok:
  assumes "distinct (map fst infos)" "\<And>r k. (r, k) \<in> set infos \<Longrightarrow> live StateActive r x"
  shows "\<exists>x'. commit_watchers infos x = Inr x' \<and> set (x_signals x') = set (x_signals x) \<union>
    {r. \<exists>k. (r, k) \<in> set infos \<and> in_limit (w_desc (x_mem x r)) (w_limitKey (x_mem x r)) k}"
  using assms
proof (induction infos arbitrary: x)
  case (Cons rk infos)
  obtain r k where rk: "rk = (r, k)" by (cases rk)
  have l: "live StateActive r x" using Cons.prems(2) [of r k] by (simp add: rk)
  obtain x1 where x1: "watcher_fire r k x = Inr x1" "\<forall>s. s \<noteq> r \<longrightarrow> x_mem x1 s = x_mem x s"
    "set (x_signals x1) = set (x_signals x) \<union> (if in_limit (w_desc (x_mem x r)) (w_limitKey (x_mem x r)) k then {r} else {})"
    "\<And>s. s \<noteq> r \<Longrightarrow> s \<in> set (x_watcherVec x) \<Longrightarrow> s \<in> set (x_watcherVec x1)"
    using fireImpl_ok [OF l] fire_active [OF l, of k] by (cases "in_limit (w_desc (x_mem x r)) (w_limitKey (x_mem x r)) k") auto
  have ne: "s \<noteq> r" if "(s, j) \<in> set infos" for s j
    using Cons.prems(1) that by (force simp: rk)
  have l1: "live StateActive s x1" if "(s, j) \<in> set infos" for s j
    using Cons.prems(2) [of s j] that ne [OF that] x1(2,4) by (simp add: live_def)
  obtain x2 where x2: "commit_watchers infos x1 = Inr x2" "set (x_signals x2) = set (x_signals x1) \<union>
      {s. \<exists>j. (s, j) \<in> set infos \<and> in_limit (w_desc (x_mem x1 s)) (w_limitKey (x_mem x1 s)) j}"
    using Cons.IH [of x1] Cons.prems(1) l1 by (auto simp: rk)
  have "{s. \<exists>j. (s, j) \<in> set infos \<and> in_limit (w_desc (x_mem x1 s)) (w_limitKey (x_mem x1 s)) j} =
      {s. \<exists>j. (s, j) \<in> set infos \<and> in_limit (w_desc (x_mem x s)) (w_limitKey (x_mem x s)) j}"
    using ne x1(2) by (metis (no_types, lifting))
  then show ?case using x1(1,3) x2 by (auto simp: rk commit_watchers_def)
qed (simp add: commit_watchers_def)

text \<open>
  C17. The commit of a transaction signals, of the active watchers of ascending queries, exactly those
  with a changed key in their ranges that is not beyond the end of the returned result, although
  only the least key of each watcher is kept.
\<close>

theorem commit_signals:
  assumes "distinct (x_watcherVec x)"
    and "\<forall>r \<in> set (x_watcherVec x). live StateActive r x \<and> \<not> w_desc (x_mem x r)"
  shows "\<exists>x'. commit_watchers (notifyWatches x ks []) x = Inr x' \<and> set (x_signals x') = set (x_signals x) \<union>
    {r \<in> set (x_watcherVec x). \<exists>k \<in> set ks. covers (w_ranges (x_mem x r)) k \<and> in_limit False (w_limitKey (x_mem x r)) k}"
proof -
  let ?infos = "notifyWatches x ks []"
  have li: "least_info x (x_watcherVec x) ks ?infos"
    using notifyWatches_least [OF assms(1), of "[]" "[]" ks] by (simp add: least_info_def watched_def)
  have mem: "(r, k) \<in> set ?infos \<longleftrightarrow> map_of ?infos r = Some k" for r k
    using li by (simp add: least_info_def)
  have vec: "r \<in> set (x_watcherVec x)" if "(r, k) \<in> set ?infos" for r k
    using li that unfolding mem least_info_def by (metis (no_types, lifting) option.simps(5))
  obtain x' where x': "commit_watchers ?infos x = Inr x'" "set (x_signals x') = set (x_signals x) \<union>
      {r. \<exists>k. (r, k) \<in> set ?infos \<and> in_limit (w_desc (x_mem x r)) (w_limitKey (x_mem x r)) k}"
    using commit_ok [of ?infos x] li assms(2) vec by (auto simp: least_info_def)
  have entry: "case map_of ?infos r of
            None \<Rightarrow> r \<in> set (x_watcherVec x) \<longrightarrow> watched x r ks = []
          | Some k \<Rightarrow> r \<in> set (x_watcherVec x) \<and> watched x r ks \<noteq> [] \<and> first_key False (watched x r ks) k" for r
    using li unfolding least_info_def by blast
  have "(\<exists>k. (r, k) \<in> set ?infos \<and> in_limit (w_desc (x_mem x r)) (w_limitKey (x_mem x r)) k) \<longleftrightarrow>
      r \<in> set (x_watcherVec x) \<and> (\<exists>k \<in> set ks. covers (w_ranges (x_mem x r)) k \<and> in_limit False (w_limitKey (x_mem x r)) k)" for r
  proof (cases "map_of ?infos r")
    case None
    then have "r \<in> set (x_watcherVec x) \<longrightarrow> watched x r ks = []"
      using entry [of r] by simp
    then show ?thesis using None mem by (auto simp: watched_def filter_empty_conv)
  next
    case (Some k)
    then have k: "r \<in> set (x_watcherVec x)" "watched x r ks \<noteq> []" "first_key False (watched x r ks) k"
      using entry [of r] by simp_all
    then show ?thesis
      using Some mem assms(2) first_key_limit [OF k(3,2), of "w_limitKey (x_mem x r)"] by (auto simp: watched_def)
  qed
  then show ?thesis using x' by auto
qed

definition active_ex :: "bool \<Rightarrow> dbkey \<Rightarrow> windex" where
  "active_ex desc limit = \<lparr>x_mem = (\<lambda>_. watcher_new)(7 := watcher_new\<lparr>w_ranges := p_ranges (plan_ex desc),
       w_limitKey := limit, w_desc := desc, w_state := StateActive, w_index := True\<rparr>),
     x_watcherVec = [7], x_watcherMap = [([], 1)], x_signals = []\<rparr>"

theorem commit_signals_witness:
  "\<exists>x'. commit_watchers (notifyWatches (active_ex False [3]) [[4], [2]] []) (active_ex False [3]) = Inr x' \<and>
    set (x_signals x') = set (x_signals (active_ex False [3])) \<union>
    {r \<in> set (x_watcherVec (active_ex False [3])). \<exists>k \<in> set [[4], [2]].
       covers (w_ranges (x_mem (active_ex False [3]) r)) k \<and> in_limit False (w_limitKey (x_mem (active_ex False [3]) r)) k}"
  by (rule commit_signals) (simp_all add: active_ex_def live_def watcher_new_def)

section \<open>What goes wrong\<close>

text \<open>
  For a descending query the least key of a transaction is the wrong one: a change of the key 5,
  inside the returned result that ends at 4, is not signalled if the transaction changes the key 2
  as well, because the watcher is fired with 2 alone.
\<close>

lemma desc_watcher_misses:
  "rbind (commit_watchers (notifyWatches (active_ex True [4]) [[5]] []) (active_ex True [4])) (\<lambda>x. Inr (x_signals x)) = Inr [7]"
  "rbind (commit_watchers (notifyWatches (active_ex True [4]) [[5], [2]] []) (active_ex True [4])) (\<lambda>x. Inr (x_signals x)) = Inr []"
  by code_simp+

text \<open>A watcher that is cancelled before it is activated fails the assertion of \<^verbatim>\<open>invalidate\<close>.\<close>

lemma cancel_pending_asserts:
  "w_index (x_mem x ref) \<Longrightarrow> w_state (x_mem x ref) = StatePending \<Longrightarrow> handleCancel ref x = Inl MojAssertFailed"
  by (simp add: handleCancel_def invalidate_def Let_def)

end
