(* ===== verification/DbIndex.thy ===== *)
theory DbIndex
  imports DbPlanOk DbWatcher
begin

text \<open>
  \<^verbatim>\<open>MojDbIndex\<close> (\<^verbatim>\<open>src/db/MojDbIndex.cpp\<close>) over an index of the storage engine
  (\<^verbatim>\<open>src/db-engine/leveldb/MojDbLevelIndex.cpp\<close>): its properties, the keys of an object, the update of
  the stored keys when an object changes, and which queries it can answer.
\<close>

section \<open>The stored keys\<close>

text \<open>
  What an update changes within the transaction: the ordered set of keys that the engine keeps for the index, the
  watchers of the transaction, and the misses. The engine may refuse a write, because the quota of the kind's owner is used
  up (\<open>DbTxn.offsetQuota\<close>, which \<^verbatim>\<open>put\<close> and \<^verbatim>\<open>del\<close> of the database call first) or because the disk fails:
  \<open>t_answers\<close> are its answers to the next writes, an error or none, and when they are used up it accepts every write.
  \<open>t_reports\<close> says whether it reports that a deleted key was not there: Berkeley DB does, LevelDB does not within a
  transaction.
\<close>

record index_txn =
  t_store :: "dbkey list"
  t_answers :: "MojErr option list"
  t_reports :: bool
  t_watchers :: watcher_infos
  t_misses :: u32

definition store_write :: "index_txn \<Rightarrow> index_txn res" where
  "store_write t =
     (case t_answers t of
        [] \<Rightarrow> Inr t
      | answer # answers \<Rightarrow>
          (case answer of Some e \<Rightarrow> Inl e | None \<Rightarrow> Inr (t\<lparr>t_answers := answers\<rparr>)))"

text \<open>\<^verbatim>\<open>insert\<close> and \<^verbatim>\<open>del\<close> of the storage index; \<^verbatim>\<open>del\<close> says whether the key was found.\<close>

definition store_insert :: "dbkey \<Rightarrow> index_txn \<Rightarrow> index_txn res" where
  "store_insert key t =
     rbind (store_write t) (\<lambda>t'. Inr (t'\<lparr>t_store := set_put bcmp key (t_store t')\<rparr>))"

definition store_del :: "dbkey \<Rightarrow> index_txn \<Rightarrow> (bool \<times> index_txn) res" where
  "store_del key t =
     rbind (store_write t) (\<lambda>t'.
       Inr (set_contains bcmp key (t_store t') \<or> \<not> t_reports t', t'\<lparr>t_store := set_del bcmp key (t_store t')\<rparr>))"

section \<open>State\<close>

record db_index =
  i_name :: string
  i_locale :: string
  i_propNames :: "string list"
  i_sortKey :: "string list"
  i_props :: "extractor list"
  i_obj :: obj
  i_id :: obj
  i_idSet :: "dbkey list"
  i_idIndex :: nat
  i_includeDeleted :: bool
  i_ready :: bool
  i_open :: bool
  i_delMisses :: u32

definition index_new :: db_index where
  "index_new = \<lparr>i_name = [], i_locale = [], i_propNames = [], i_sortKey = [], i_props = [], i_obj = OUndefined,
     i_id = OUndefined, i_idSet = [], i_idIndex = 0, i_includeDeleted = False, i_ready = False, i_open = False,
     i_delMisses = 0\<rparr>"

definition IdKey :: string where "IdKey = ''_id''"

section \<open>Configuration\<close>

definition MaxIndexNameLen :: nat where "MaxIndexNameLen = 128"

definition MojIsAlNum :: "char \<Rightarrow> bool" where
  "MojIsAlNum c \<longleftrightarrow> isdigit c \<or> (65 \<le> (of_char c :: nat) \<and> (of_char c :: nat) \<le> 90) \<or>
     (97 \<le> (of_char c :: nat) \<and> (of_char c :: nat) \<le> 122)"

definition validateName :: "string \<Rightarrow> unit res" where
  "validateName name =
     (if length name > MaxIndexNameLen then Inl MojErrDbInvalidIndexName
      else if \<exists>c \<in> set name. \<not> MojIsAlNum c \<and> c \<noteq> CHR ''_'' then Inl MojErrDbInvalidIndexName
      else Inr ())"

definition name_in :: "string \<Rightarrow> string list \<Rightarrow> bool" where
  "name_in name names \<longleftrightarrow> (\<exists>n \<in> set names. MojStrCmp n name = 0)"

definition addProp :: "icu \<Rightarrow> obj \<Rightarrow> bool \<Rightarrow> db_index \<Rightarrow> db_index res" where
  "addProp lib propObj pushFront ix =
     (if i_open ix then Inl MojAssertFailed
      else
        rbind (createExtractor lib propObj (i_locale ix)) (\<lambda>extractor.
          if name_in (ext_name extractor) (i_propNames ix) then Inl MojErrDbInvalidIndex
          else Inr
            (if pushFront
             then ix\<lparr>i_propNames := ext_name extractor # i_propNames ix, i_props := extractor # i_props ix\<rparr>
             else ix\<lparr>i_propNames := i_propNames ix @ [ext_name extractor], i_props := i_props ix @ [extractor]\<rparr>)))"

definition index_fromObject :: "icu \<Rightarrow> obj \<Rightarrow> string \<Rightarrow> db_index \<Rightarrow> db_index res" where
  "index_fromObject lib obj locale ix =
     rbind (getRequired_string ''name'' obj) (\<lambda>name.
     rbind (validateName name) (\<lambda>_.
     rbind (case get_bool ''incDel'' obj of
              None \<Rightarrow> Inr (i_includeDeleted ix)
            | Some b \<Rightarrow> if i_open ix then Inl MojAssertFailed else Inr b) (\<lambda>incDel.
     rbind (getRequired ''props'' obj) (\<lambda>props.
     rbind (run (\<lambda>ix propObj. addProp lib propObj False ix)
              (ix\<lparr>i_name := name, i_locale := locale, i_includeDeleted := incDel\<rparr>)
              (case props of OArray xs \<Rightarrow> xs | _ \<Rightarrow> [])) (\<lambda>ix'.
       if i_props ix' = [] then Inl MojErrDbInvalidIndex else Inr (ix'\<lparr>i_obj := obj\<rparr>))))))"

text \<open>The position of the \<^verbatim>\<open>_id\<close> among the properties, plus one for the prefix.\<close>

fun name_pos :: "string \<Rightarrow> string list \<Rightarrow> nat option" where
  "name_pos name [] = None"
| "name_pos name (n # names) = (if MojStrCmp n name = 0 then Some 0 else map_option Suc (name_pos name names))"

definition addBuiltinProps :: "icu \<Rightarrow> db_index \<Rightarrow> db_index res" where
  "addBuiltinProps lib ix =
     rbind (if name_in IdKey (i_propNames ix) then Inr ix
            else addProp lib (OObject [(''name'', OString IdKey)]) False ix) (\<lambda>ix1.
     rbind (if i_includeDeleted ix1 \<and> (i_propNames ix1 = [] \<or> MojStrCmp (hd (i_propNames ix1)) DelKey \<noteq> 0)
            then addProp lib (OObject [(''default'', OBool False), (''name'', OString DelKey)]) True ix1
            else Inr ix1) (\<lambda>ix2.
       case name_pos IdKey (i_propNames ix2) of
         None \<Rightarrow> Inl MojAssertFailed
       | Some n \<Rightarrow> Inr (ix2\<lparr>i_idIndex := n + 1\<rparr>)))"

definition isIdIndex :: "db_index \<Rightarrow> bool" where
  "isIdIndex ix \<longleftrightarrow>
     (case i_propNames ix of
        [n] \<Rightarrow> MojStrCmp n IdKey = 0
      | [n, m] \<Rightarrow> MojStrCmp n DelKey = 0 \<and> MojStrCmp m IdKey = 0
      | _ \<Rightarrow> False)"

text \<open>
  \<^verbatim>\<open>open\<close>; a new index that is not the primary one gets ready when the transaction that fills it has
  committed (\<^verbatim>\<open>handlePostCommit\<close>).
\<close>

definition index_open :: "icu \<Rightarrow> obj \<Rightarrow> bool \<Rightarrow> db_index \<Rightarrow> db_index res" where
  "index_open lib ident created ix =
     (if i_open ix \<or> i_props ix = [] then Inl MojAssertFailed
      else
        rbind (key_assign ident None) (\<lambda>idKey.
        rbind (addBuiltinProps lib
                 (ix\<lparr>i_sortKey := i_propNames ix, i_id := ident, i_idSet := set_put bcmp idKey (i_idSet ix)\<rparr>)) (\<lambda>ix'.
          Inr (ix'\<lparr>i_ready := (if created \<and> \<not> isIdIndex ix' then i_ready ix' else True), i_open := True\<rparr>))))"

definition handlePostCommit :: "db_index \<Rightarrow> db_index" where
  "handlePostCommit ix = ix\<lparr>i_ready := True\<rparr>"

definition index_close :: "db_index \<Rightarrow> db_index" where
  "index_close ix = (if i_open ix then ix\<lparr>i_open := False\<rparr> else ix)"

section \<open>Which queries an index can answer\<close>

fun canAnswer_loop :: "where_map \<Rightarrow> string \<Rightarrow> string list \<Rightarrow> extractor list \<Rightarrow> nat \<Rightarrow> bool" where
  "canAnswer_loop m orderProp (propName # propNames) (prop # props) numQueryProps =
     (let n = numQueryProps - 1 in
      case where_find propName m of
        None \<Rightarrow> False
      | Some clause \<Rightarrow>
          if n > 0 \<and> lowerOp clause \<noteq> OpEq then False
          else if wcollation clause \<noteq> ext_collation prop then False
          else if n = 0 then
            (if orderProp \<noteq> [] \<and> where_find orderProp m = None
             then propNames \<noteq> [] \<and> MojStrCmp (hd propNames) orderProp = 0
             else True)
          else canAnswer_loop m orderProp propNames props n)"
| "canAnswer_loop m orderProp _ _ numQueryProps = False"

definition canAnswer :: "db_index \<Rightarrow> db_query \<Rightarrow> bool" where
  "canAnswer ix q \<longleftrightarrow>
     (if \<not> i_ready ix then False
      else
        let m = q_whereClauses q in
        if length m > length (i_propNames ix) then False
        else
          let skip = i_includeDeleted ix \<and> where_find DelKey m = None;
              propNames = (if skip then tl (i_propNames ix) else i_propNames ix);
              props = (if skip then tl (i_props ix) else i_props ix)
          in
          if m = [] then
            (if q_orderProp q = [] then isIdIndex ix
             else propNames \<noteq> [] \<and> MojStrCmp (hd propNames) (q_orderProp q) = 0)
          else canAnswer_loop m (q_orderProp q) propNames props (length m))"

text \<open>What the query plan reads.\<close>

definition index_plan :: "db_index \<Rightarrow> plan_index" where
  "index_plan ix = \<lparr>ix_id = i_id ix, ix_props = i_propNames ix, ix_locale = i_locale ix, ix_idIndex = i_idIndex ix,
     ix_includeDeleted = i_includeDeleted ix\<rparr>"

section \<open>Keys and updates\<close>

definition includeObj :: "db_index \<Rightarrow> obj option \<Rightarrow> bool" where
  "includeObj ix obj =
     (case obj of
        None \<Rightarrow> False
      | Some v \<Rightarrow>
          i_includeDeleted ix \<or> (case get_bool DelKey v of None \<Rightarrow> True | Some deleted \<Rightarrow> \<not> deleted))"

definition getKeys :: "db_index \<Rightarrow> obj \<Rightarrow> dbkey list res" where
  "getKeys ix obj =
     rbind (run (\<lambda>stack e. rbind (ext_vals e obj []) (\<lambda>vals. Inr (stack @ [vals]))) [i_idSet ix] (i_props ix))
       (\<lambda>stack. Inr (keys_of stack))"

definition insertKeys :: "dbkey list \<Rightarrow> index_txn \<Rightarrow> index_txn res" where
  "insertKeys keys t = run (\<lambda>t k. store_insert k t) t keys"

text \<open>
  A key that is not found is the error \<open>MojErrInternalIndexOnDel\<close>, which no database raises itself; it counts as a miss
  and ends the deletion unless it is forced.
\<close>

fun delKeys :: "dbkey list \<Rightarrow> bool \<Rightarrow> index_txn \<Rightarrow> index_txn res" where
  "delKeys [] forcedel t = Inr t"
| "delKeys (k # ks) forcedel t =
     rbind (store_del k t) (\<lambda>(found, t').
       if found then delKeys ks forcedel t'
       else if forcedel then delKeys ks forcedel (t'\<lparr>t_misses := t_misses t' + 1\<rparr>)
       else Inl MojErrInternalIndexOnDel)"

definition index_update ::
  "db_index \<Rightarrow> windex \<Rightarrow> obj option \<Rightarrow> obj option \<Rightarrow> bool \<Rightarrow> index_txn \<Rightarrow> index_txn res" where
  "index_update ix x newObj oldObj forcedel t =
     (if \<not> i_open ix \<or> newObj = None \<and> oldObj = None then Inl MojAssertFailed
      else
        let includeOld = includeObj ix oldObj; includeNew = includeObj ix newObj;
            notify = (\<lambda>keys t. t\<lparr>t_watchers := notifyWatches x keys (t_watchers t)\<rparr>)
        in
        if includeNew \<and> \<not> includeOld then
          rbind (getKeys ix (the newObj)) (\<lambda>newKeys.
          rbind (insertKeys newKeys t) (\<lambda>t'. Inr (notify newKeys t')))
        else if includeOld \<and> \<not> includeNew then
          rbind (getKeys ix (the oldObj)) (\<lambda>oldKeys.
          rbind (delKeys oldKeys forcedel t) (\<lambda>t'. Inr (notify oldKeys t')))
        else if includeNew \<and> includeOld then
          rbind (getKeys ix (the newObj)) (\<lambda>newKeys.
          rbind (getKeys ix (the oldObj)) (\<lambda>oldKeys.
          rbind (insertKeys (set_diff bcmp newKeys oldKeys []) t) (\<lambda>t1.
          rbind (delKeys (set_diff bcmp oldKeys newKeys []) forcedel t1) (\<lambda>t2.
            Inr (notify (set_put_all bcmp oldKeys newKeys) t2)))))
        else Inr t)"

section \<open>The properties of an index\<close>

text \<open>One extractor per name, and no name twice, as C strings are compared.\<close>

definition props_ok :: "db_index \<Rightarrow> bool" where
  "props_ok ix \<longleftrightarrow> i_propNames ix = map ext_name (i_props ix) \<and> distinct (map cstr (i_propNames ix))"

lemma props_ok_cong: "i_propNames ix = i_propNames ix' \<Longrightarrow> i_props ix = i_props ix' \<Longrightarrow> props_ok ix \<Longrightarrow> props_ok ix'"
  unfolding props_ok_def by metis

lemma MojStrCmp_0: "MojStrCmp s t = 0 \<longleftrightarrow> cstr s = cstr t"
proof -
  have "MojStrCmp s t = 0 \<longleftrightarrow> vec_compare char_comp (cstr s) (cstr t) = 0"
    using MojStrCmp_vec [of s t] by (metis sgn_eq_0_iff)
  also have "\<dots> \<longleftrightarrow> cstr s = cstr t"
    using char_comp.vec_eq [of "cstr s" "cstr t"] comparator.cmp_refl [OF char_comp.vec_comparator, of "cstr s"]
    by (auto simp: list_all_iff)
  finally show ?thesis .
qed

lemma name_in_cstr: "name_in name names \<longleftrightarrow> cstr name \<in> cstr ` set names"
  by (auto simp: name_in_def MojStrCmp_0 image_iff) metis

lemma addProp_ok:
  assumes "addProp lib propObj front ix = Inr ix'" "props_ok ix"
  shows "props_ok ix' \<and> i_props ix' \<noteq> [] \<and> i_includeDeleted ix' = i_includeDeleted ix \<and> i_open ix' = i_open ix"
proof -
  obtain e where "createExtractor lib propObj (i_locale ix) = Inr e" "\<not> name_in (ext_name e) (i_propNames ix)"
    and ix': "ix' = (if front then ix\<lparr>i_propNames := ext_name e # i_propNames ix, i_props := e # i_props ix\<rparr>
             else ix\<lparr>i_propNames := i_propNames ix @ [ext_name e], i_props := i_props ix @ [e]\<rparr>)"
    using assms(1) by (auto simp: addProp_def rbind_Inr_iff split: if_splits)
  then show ?thesis using assms(2) by (cases front) (auto simp: props_ok_def name_in_cstr)
qed

lemma addProp_name:
  assumes "addProp lib (OObject (ps @ [(''name'', OString name)])) front ix = Inr ix'" "nonul name"
    and "ps = [] \<or> ps = [(''default'', OBool False)]"
  shows "i_propNames ix' = (if front then name # i_propNames ix else i_propNames ix @ [name])"
proof -
  obtain e where e: "createExtractor lib (OObject (ps @ [(''name'', OString name)])) (i_locale ix) = Inr e"
    and ix': "i_propNames ix' = (if front then ext_name e # i_propNames ix else i_propNames ix @ [ext_name e])"
    using assms(1) by (auto simp: addProp_def rbind_Inr_iff split: if_splits)
  have base: "ext_base (OObject (ps @ [(''name'', OString name)])) = Inr (name, CollationInvalid)"
    using assms(3) by (auto simp: ext_base_def getRequired_string_def get_string_def getRequiredErrT_def getRequiredT_def)
  have "ext_name e = name"
    using e assms(3) base
    by (auto simp: createExtractor_def get_string_def ext_fromObject_def ext_fromObjectImpl_def ext_updateLocale_def
        ext_tokenize_def extractor_new_def rbind_Inr_iff)
  then show ?thesis using ix' by simp
qed

text \<open>\<^verbatim>\<open>find\<close> on the names.\<close>

lemma name_pos_Some: "name_pos name names = Some n \<Longrightarrow> n < length names \<and> cstr (names ! n) = cstr name"
  by (induction names arbitrary: n) (auto simp: MojStrCmp_0 split: if_splits)

lemma fromObject_ok:
  assumes "index_fromObject lib obj locale index_new = Inr ix"
  shows "props_ok ix \<and> i_props ix \<noteq> [] \<and> \<not> i_open ix"
proof -
  have "props_ok ix'" "i_open ix' = i_open ix0"
    if "run (\<lambda>ix propObj. addProp lib propObj False ix) ix0 ps = Inr ix'" "props_ok ix0" for ps ix0 ix'
    using that
  proof (induction ps arbitrary: ix0)
    case (Cons p ps)
    case 1
    then show ?case using Cons addProp_ok by (fastforce simp: rbind_Inr_iff)
  next
    case (Cons p ps)
    case 2
    then show ?case using Cons addProp_ok by (fastforce simp: rbind_Inr_iff)
  qed auto
  note run_ok = this
  obtain name incDel props ix' where
    r: "run (\<lambda>ix propObj. addProp lib propObj False ix)
          (index_new\<lparr>i_name := name, i_locale := locale, i_includeDeleted := incDel\<rparr>) props = Inr ix'"
    and ix: "i_props ix' \<noteq> []" "ix = ix'\<lparr>i_obj := obj\<rparr>"
    using assms by (auto simp: index_fromObject_def rbind_Inr_iff split: if_splits)
  have "props_ok (index_new\<lparr>i_name := name, i_locale := locale, i_includeDeleted := incDel\<rparr>)"
    by (simp add: props_ok_def index_new_def)
  from run_ok [OF r this] have "props_ok ix'" "\<not> i_open ix'" by (simp_all add: index_new_def)
  then show ?thesis using ix props_ok_cong [of ix' ix] by simp
qed

text \<open>
  C31. Every index that is configured from an object and opened has one extractor for each of its
  names, no name twice, the \<^verbatim>\<open>_id\<close> among them at \<^verbatim>\<open>m_idIndex\<close>, and \<^verbatim>\<open>_del\<close> in front if it
  includes deleted objects.
\<close>

theorem index_open_props:
  assumes "index_fromObject lib obj locale index_new = Inr ix0" "index_open lib ident created ix0 = Inr ix"
  shows "i_open ix \<and> i_propNames ix = map ext_name (i_props ix) \<and> distinct (map cstr (i_propNames ix)) \<and>
    0 < i_idIndex ix \<and> i_idIndex ix \<le> length (i_props ix) \<and> cstr (i_propNames ix ! (i_idIndex ix - 1)) = IdKey \<and>
    (i_includeDeleted ix \<longrightarrow> cstr (hd (i_propNames ix)) = DelKey)"
proof -
  have ids: "cstr IdKey = IdKey" "cstr DelKey = DelKey" by (simp_all add: IdKey_def DelKey_def)
  note ok0 = fromObject_ok [OF assms(1)]
  obtain idKey ix1 where
    b: "addBuiltinProps lib (ix0\<lparr>i_sortKey := i_propNames ix0, i_id := ident, i_idSet := set_put bcmp idKey (i_idSet ix0)\<rparr>) = Inr ix1"
    and ix: "ix = ix1\<lparr>i_ready := (if created \<and> \<not> isIdIndex ix1 then i_ready ix1 else True), i_open := True\<rparr>"
    using assms(2) by (auto simp: index_open_def rbind_Inr_iff split: if_splits)
  let ?ix = "ix0\<lparr>i_sortKey := i_propNames ix0, i_id := ident, i_idSet := set_put bcmp idKey (i_idSet ix0)\<rparr>"
  have p0: "props_ok ?ix" using ok0 props_ok_cong [of ix0 ?ix] by simp
  obtain ix2 ix3 n where
    a1: "(if name_in IdKey (i_propNames ?ix) then Inr ?ix
          else addProp lib (OObject [(''name'', OString IdKey)]) False ?ix) = Inr ix2"
    and a2: "(if i_includeDeleted ix2 \<and> (i_propNames ix2 = [] \<or> MojStrCmp (hd (i_propNames ix2)) DelKey \<noteq> 0)
            then addProp lib (OObject [(''default'', OBool False), (''name'', OString DelKey)]) True ix2
            else Inr ix2) = Inr ix3"
    and n: "name_pos IdKey (i_propNames ix3) = Some n" and ix1: "ix1 = ix3\<lparr>i_idIndex := n + 1\<rparr>"
    using b by (auto simp: addBuiltinProps_def rbind_Inr_iff split: option.splits)
  have p2: "props_ok ix2" using a1 p0 addProp_ok by (auto split: if_splits)
  have p3: "props_ok ix3 \<and> i_includeDeleted ix3 = i_includeDeleted ix2"
    using a2 p2 addProp_ok by (auto split: if_splits)
  have front: "i_includeDeleted ix3 \<longrightarrow> cstr (hd (i_propNames ix3)) = DelKey"
  proof (cases "i_includeDeleted ix2 \<and> (i_propNames ix2 = [] \<or> MojStrCmp (hd (i_propNames ix2)) DelKey \<noteq> 0)")
    case True
    then have "i_propNames ix3 = DelKey # i_propNames ix2"
      using a2 addProp_name [of lib "[(''default'', OBool False)]" DelKey True ix2 ix3] by (simp add: DelKey_def)
    then show ?thesis by (simp add: ids)
  next
    case False
    then show ?thesis using a2 p3 ids by (auto simp: MojStrCmp_0)
  qed
  show ?thesis
    using p3 front name_pos_Some [OF n] ids by (auto simp: ix ix1 props_ok_def dest: arg_cong [where f = length])
qed

definition index_obj_ex :: obj where
  "index_obj_ex = OObject [(''incDel'', OBool True), (''name'', OString ''byname''),
     (''props'', OArray [OObject [(''name'', OString ''n'')]])]"

definition icu_ex :: icu where
  "icu_ex = \<lparr>icu_collator = (\<lambda>_ _. Inl MojErrNotFound), icu_tokenizer = (\<lambda>_. Inl MojErrNotFound)\<rparr>"

theorem index_open_props_witness:
  "\<exists>ix :: db_index. i_propNames ix = [DelKey, ''n'', IdKey] \<and> i_open ix \<and> i_propNames ix = map ext_name (i_props ix) \<and>
    distinct (map cstr (i_propNames ix)) \<and> 0 < i_idIndex ix \<and> i_idIndex ix \<le> length (i_props ix) \<and>
    cstr (i_propNames ix ! (i_idIndex ix - 1)) = IdKey \<and> (i_includeDeleted ix \<longrightarrow> cstr (hd (i_propNames ix)) = DelKey)"
proof -
  have "rbind (index_fromObject icu_ex index_obj_ex ''en'' index_new) (\<lambda>ix0.
      rbind (index_open icu_ex (OInt 3) False ix0) (\<lambda>ix. Inr (i_propNames ix))) = Inr [DelKey, ''n'', IdKey]"
    by code_simp
  then obtain ix0 ix where r: "index_fromObject icu_ex index_obj_ex ''en'' index_new = Inr ix0"
    "index_open icu_ex (OInt 3) False ix0 = Inr ix" and names: "i_propNames ix = [DelKey, ''n'', IdKey]"
    by (auto simp: rbind_Inr_iff)
  show ?thesis by (rule exI [of _ ix], rule conjI [OF names index_open_props [OF r]])
qed

end
