(* ===== verification/DbIndexOk.thy ===== *)
theory DbIndexOk
  imports DbIndex
begin

text \<open>
  The stored keys of an index are at all times the keys of the objects it includes, and the ranges of
  a query plan find among them exactly those whose values pass the clauses of the query.
\<close>

section \<open>Sets of keys\<close>

lemma bcmp_irrefl [simp]: "\<not> bcmp k k < 0"
  by (simp add: bcmp_self)

lemma set_diff_set:
  "sorted_set ks \<Longrightarrow> sorted_set cs \<Longrightarrow> set (set_diff bcmp ks cs out) = (set ks - set cs) \<union> set out"
proof (induction "bcmp" ks cs out rule: set_diff.induct)
  case (3 k ks c other out)
  consider "bcmp k c < 0" | "k = c" | "bcmp c k < 0" using bcmp_lt_iff [of c k] bcmp_eq [of k c] by linarith
  then show ?case
  proof cases
    case 1
    then have "k \<notin> set (c # other)" using 3(5) by (auto dest: bcmp_trans_lt)
    then show ?thesis using 1 3(1,4,5) by auto
  next
    case 2
    then have "c \<notin> set ks" "k \<notin> set other" using 3(4,5) by auto
    then show ?thesis using 2 3(2,4,5) by auto
  next
    case 3
    then have "c \<notin> set (k # ks)" using \<open>sorted_set (k # ks)\<close> by (auto dest: bcmp_trans_lt)
    moreover have "\<not> bcmp k c < 0" "bcmp k c \<noteq> 0" using 3 bcmp_lt_iff [of c k] by auto
    ultimately show ?thesis using 3 \<open>sorted_set (k # ks)\<close> \<open>sorted_set (c # other)\<close>
        "3.hyps"(3) by auto
  qed
qed (auto)

lemma set_diff_sorted: "sorted_set out \<Longrightarrow> sorted_set (set_diff bcmp ks cs out)"
  by (induction "bcmp" ks cs out rule: set_diff.induct) (simp_all add: set_put_sorted)

lemma set_del_set: "sorted_set ks \<Longrightarrow> set (set_del bcmp k ks) = set ks - {k}"
  by (induction ks) auto

lemma set_del_sorted: "sorted_set ks \<Longrightarrow> sorted_set (set_del bcmp k ks)"
proof (induction ks)
  case (Cons x ks)
  then show ?case by (auto simp: set_del_set)
qed simp

lemma store_write_ok:
  "store_write t = Inr t' \<Longrightarrow> t_store t' = t_store t \<and> t_reports t' = t_reports t \<and> t_misses t' = t_misses t \<and>
     set (t_answers t') \<subseteq> set (t_answers t)"
  "store_write t = Inl e \<Longrightarrow> Some e \<in> set (t_answers t)"
  by (auto simp: store_write_def split: list.splits option.splits)

lemma insertKeys_ok:
  "insertKeys ks t = Inr t' \<Longrightarrow>
     set (t_store t') = set ks \<union> set (t_store t) \<and> (sorted_set (t_store t) \<longrightarrow> sorted_set (t_store t')) \<and>
     t_misses t' = t_misses t \<and> set (t_answers t') \<subseteq> set (t_answers t)"
  unfolding insertKeys_def
proof (induction ks arbitrary: t)
  case (Cons k ks)
  then obtain t1 where t1: "store_write t = Inr t1"
    "run (\<lambda>t k. store_insert k t) (t1\<lparr>t_store := set_put bcmp k (t_store t1)\<rparr>) ks = Inr t'"
    by (auto simp: store_insert_def rbind_Inr_iff)
  show ?case
    using Cons.IH [OF t1(2)] store_write_ok(1) [OF t1(1)]
    by (auto simp: set_put_sorted)
qed simp

lemma insertKeys_error: "insertKeys ks t = Inl e \<Longrightarrow> Some e \<in> set (t_answers t)"
  unfolding insertKeys_def
proof (induction ks arbitrary: t)
  case (Cons k ks)
  show ?case
  proof (cases "store_write t")
    case (Inl e')
    then show ?thesis using Cons.prems store_write_ok(2) by (simp add: store_insert_def)
  next
    case (Inr t1)
    then show ?thesis
      using Cons.IH [of "t1\<lparr>t_store := set_put bcmp k (t_store t1)\<rparr>"] Cons.prems store_write_ok(1) [OF Inr]
      by (auto simp: store_insert_def)
  qed
qed simp

lemma delKeys_ok:
  "sorted_set ks \<Longrightarrow> sorted_set (t_store t) \<Longrightarrow> set ks \<subseteq> set (t_store t) \<Longrightarrow>
   case delKeys ks forcedel t of
     Inl e \<Rightarrow> Some e \<in> set (t_answers t)
   | Inr t' \<Rightarrow> sorted_set (t_store t') \<and> set (t_store t') = set (t_store t) - set ks \<and> t_misses t' = t_misses t"
proof (induction ks arbitrary: t)
  case (Cons k ks)
  show ?case
  proof (cases "store_write t")
    case (Inl e)
    then show ?thesis using store_write_ok(2) by (simp add: store_del_def)
  next
    case (Inr t1)
    let ?t = "t1\<lparr>t_store := set_del bcmp k (t_store t1)\<rparr>"
    note t1 = store_write_ok(1) [OF Inr]
    have "set_contains bcmp k (t_store t1)" using t1 Cons.prems(3) by (simp add: set_contains_def)
    then have "delKeys (k # ks) forcedel t = delKeys ks forcedel ?t" using Inr by (simp add: store_del_def)
    moreover have "k \<notin> set ks" using Cons.prems(1) by auto
    moreover have store: "sorted_set (t_store ?t)" "set (t_store ?t) = set (t_store t) - {k}"
      using t1 Cons.prems(2) by (simp_all add: set_del_set set_del_sorted)
    ultimately have "set ks \<subseteq> set (t_store ?t)" "sorted_set ks" using Cons.prems(1,3) by auto
    note IH = Cons.IH [OF this(2) store(1) this(1)]
    have "set (t_answers ?t) \<subseteq> set (t_answers t)" "t_misses ?t = t_misses t" using t1 by simp_all
    then show ?thesis
      using IH store(2) unfolding \<open>delKeys (k # ks) forcedel t = delKeys ks forcedel ?t\<close>
      by (cases "delKeys ks forcedel ?t") auto
  qed
qed simp

section \<open>The update of an index\<close>

definition index_keys :: "db_index \<Rightarrow> obj option \<Rightarrow> dbkey set" where
  "index_keys ix obj =
     (if includeObj ix obj then (case getKeys ix (the obj) of Inr ks \<Rightarrow> set ks | Inl _ \<Rightarrow> {}) else {})"

lemma getKeys_sorted: "getKeys ix obj = Inr ks \<Longrightarrow> sorted_set ks"
  by (auto simp: getKeys_def rbind_Inr_iff keys_of_sorted)

text \<open>
  An update of an object whose keys are stored exchanges the keys and misses none; it fails only with an error that the
  engine answered.
\<close>

definition update_result ::
  "db_index \<Rightarrow> obj option \<Rightarrow> obj option \<Rightarrow> index_txn \<Rightarrow> index_txn res \<Rightarrow> bool" where
  "update_result ix new old t r \<longleftrightarrow>
     (case r of
        Inl e \<Rightarrow> Some e \<in> set (t_answers t)
      | Inr t' \<Rightarrow> sorted_set (t_store t') \<and> t_misses t' = t_misses t \<and>
          set (t_store t') = (set (t_store t) - index_keys ix old) \<union> index_keys ix new)"

lemma update_result:
  assumes "i_open ix" "new \<noteq> None \<or> old \<noteq> None" "sorted_set (t_store t)" "index_keys ix old \<subseteq> set (t_store t)"
    and keys: "includeObj ix new \<Longrightarrow> getKeys ix (the new) = Inr nks" "includeObj ix old \<Longrightarrow> getKeys ix (the old) = Inr oks"
  shows "update_result ix new old t (index_update ix x new old forcedel t)"
proof (cases "includeObj ix new"; cases "includeObj ix old")
  assume i: "includeObj ix new" "\<not> includeObj ix old"
  show ?thesis
  proof (cases "insertKeys nks t")
    case (Inl e)
    then show ?thesis
      using i keys(1) assms(1,2) insertKeys_error by (auto simp: index_update_def Let_def update_result_def)
  next
    case (Inr t')
    then show ?thesis
      using i keys(1) assms(1-3) insertKeys_ok [OF Inr]
      by (auto simp: index_update_def Let_def update_result_def index_keys_def)
  qed
next
  assume i: "\<not> includeObj ix new" "includeObj ix old"
  have "set oks \<subseteq> set (t_store t)" using i keys(2) assms(4) by (simp add: index_keys_def)
  note del = delKeys_ok [OF getKeys_sorted [OF keys(2) [OF i(2)]] assms(3) this, of forcedel]
  show ?thesis
    using del i keys(2) assms(1,2)
    by (cases "delKeys oks forcedel t") (auto simp: index_update_def Let_def update_result_def index_keys_def)
next
  assume i: "includeObj ix new" "includeObj ix old"
  let ?put = "set_diff bcmp nks oks []" and ?del = "set_diff bcmp oks nks []"
  note sorted = getKeys_sorted [OF keys(1) [OF i(1)]] getKeys_sorted [OF keys(2) [OF i(2)]]
  have put: "set ?put = set nks - set oks" "set ?del = set oks - set nks" "sorted_set ?del"
    using sorted by (simp_all add: set_diff_set set_diff_sorted)
  have code: "index_update ix x new old forcedel t =
      rbind (insertKeys ?put t) (\<lambda>t1. rbind (delKeys ?del forcedel t1) (\<lambda>t2.
        Inr (t2\<lparr>t_watchers := notifyWatches x (set_put_all bcmp oks nks) (t_watchers t2)\<rparr>)))"
    using i keys assms(1,2) by (auto simp: index_update_def Let_def)
  show ?thesis
  proof (cases "insertKeys ?put t")
    case (Inl e)
    then show ?thesis using insertKeys_error by (auto simp: code update_result_def)
  next
    case (Inr t1)
    note t1 = insertKeys_ok [OF Inr]
    have "sorted_set (t_store t1)" "set ?del \<subseteq> set (t_store t1)"
      using t1 put assms(3,4) i keys(2) by (auto simp: index_keys_def)
    from delKeys_ok [OF put(3) this, of forcedel] show ?thesis
      using Inr t1 put i keys assms(4)
      by (cases "delKeys ?del forcedel t1") (auto simp: code update_result_def index_keys_def)
  qed
next
  assume "\<not> includeObj ix new" "\<not> includeObj ix old"
  then show ?thesis using assms by (auto simp: index_update_def Let_def update_result_def index_keys_def)
qed

lemma update_ok:
  assumes "index_update ix x new old forcedel t = Inr t'" "sorted_set (t_store t)"
    and "index_keys ix old \<subseteq> set (t_store t)"
  shows "sorted_set (t_store t') \<and> t_misses t' = t_misses t \<and>
    set (t_store t') = (set (t_store t) - index_keys ix old) \<union> index_keys ix new"
proof -
  have "i_open ix" "new \<noteq> None \<or> old \<noteq> None" using assms(1) by (auto simp: index_update_def split: if_splits)
  moreover have "includeObj ix new \<Longrightarrow> \<exists>ks. getKeys ix (the new) = Inr ks" "includeObj ix old \<Longrightarrow> \<exists>ks. getKeys ix (the old) = Inr ks"
    using assms(1) by (auto simp: index_update_def rbind_Inr_iff Let_def split: if_splits)
  ultimately have "update_result ix new old t (index_update ix x new old forcedel t)"
    using update_result [OF _ _ assms(2,3)] by blast
  then show ?thesis by (simp add: assms(1) update_result_def)
qed

section \<open>The values of an object\<close>

text \<open>
  The values that a path leads to, \<open>None\<close> where a property is missing. An array is entered, also
  at the end of the path; the wildcard stands for every property.
\<close>

fun path_vals :: "string list \<Rightarrow> obj \<Rightarrow> obj option list" where
  "path_vals [] v = [Some v]"
| "path_vals (p # path) obj =
     (if MojStrCmp p WildcardKey = 0
      then concat (map (path_vals path) (case obj of OObject ps \<Rightarrow> map snd ps | _ \<Rightarrow> []))
      else
        (case obj_get p obj of
           None \<Rightarrow> [None]
         | Some v \<Rightarrow> (case v of OArray xs \<Rightarrow> concat (map (path_vals path) xs) | _ \<Rightarrow> path_vals path v)))"

definition plain :: "prop_extractor \<Rightarrow> bool" where
  "plain e \<longleftrightarrow> e_tokenizer e = None \<and> e_collator e = None \<and> e_prop e \<noteq> []"

definition put_leaf :: "prop_extractor \<Rightarrow> dbkey list \<Rightarrow> obj option \<Rightarrow> dbkey list" where
  "put_leaf e out leaf = (case leaf of None \<Rightarrow> set_put_all bcmp (e_default e) out | Some v \<Rightarrow> set_put bcmp (enc v) out)"

text \<open>The recursion of \<^verbatim>\<open>valsImpl\<close> and \<^verbatim>\<open>handleVal\<close> puts the keys of these values, in order.\<close>

lemma valsImpl_path:
  assumes "plain e"
  shows "path \<noteq> [] \<Longrightarrow> valsImpl e path obj out = Inr (foldl (put_leaf e) out (path_vals path obj))"
proof (induction path arbitrary: obj out)
  case (Cons p path)
  define hv where "hv = (\<lambda>out v. if path = [] then leafVal e v out else valsImpl e path v out)"
  have h: "hv out v = Inr (foldl (put_leaf e) out (path_vals path v))" for out v
  proof (cases "path = []")
    case True
    then show ?thesis using assms by (simp add: hv_def leafVal_def key_assign_def toBytes_enc plain_def put_leaf_def)
  next
    case False
    then show ?thesis using Cons.IH by (simp add: hv_def)
  qed
  have h': "hv = (\<lambda>out v. Inr (foldl (put_leaf e) out (path_vals path v)))" by (intro ext) (rule h)
  have hs: "run (\<lambda>out v. Inr (foldl (put_leaf e) out (path_vals path v))) out vs =
      Inr (foldl (put_leaf e) out (concat (map (path_vals path) vs)))" for out vs
    by (induction vs arbitrary: out) simp_all
  have eq: "valsImpl e (p # path) obj out =
     (if MojStrCmp p WildcardKey = 0 then run hv out (case obj of OObject ps \<Rightarrow> map snd ps | _ \<Rightarrow> [])
      else (case obj_get p obj of
              None \<Rightarrow> Inr (set_put_all bcmp (e_default e) out)
            | Some v \<Rightarrow> (case v of OArray xs \<Rightarrow> run hv out xs | _ \<Rightarrow> hv out v)))"
    by (simp only: valsImpl.simps Let_def hv_def)
  show ?case
  proof (cases "MojStrCmp p WildcardKey = 0")
    case True
    then show ?thesis unfolding eq h' by (simp add: hs)
  next
    case False
    show ?thesis
    proof (cases "obj_get p obj")
      case None
      then show ?thesis using False unfolding eq h' by (simp add: put_leaf_def)
    next
      case (Some v)
      then show ?thesis using False unfolding eq h' by (cases v) (simp_all add: hs)
    qed
  qed
qed simp

lemma put_leaf_set:
  "set (put_leaf e out leaf) = set out \<union> (case leaf of None \<Rightarrow> set (e_default e) | Some v \<Rightarrow> {enc v})"
  by (cases leaf) (auto simp: put_leaf_def)

lemma put_leaves_set:
  "set (foldl (put_leaf e) out leaves) =
   set out \<union> (\<Union>leaf \<in> set leaves. case leaf of None \<Rightarrow> set (e_default e) | Some v \<Rightarrow> {enc v})"
  by (induction leaves arbitrary: out) (auto simp: put_leaf_set)

text \<open>The leaves of a well-formed value are well-formed.\<close>

lemma ser_ok_parts:
  "ser_ok (OArray xs) \<Longrightarrow> x \<in> set xs \<Longrightarrow> ser_ok x"
  "ser_ok (OObject ps) \<Longrightarrow> p \<in> set ps \<Longrightarrow> ser_ok (snd p)"
  by (auto simp: ser_ok_def)

lemma map_get_mem: "map_get MojStrCmp k ps = Some v \<Longrightarrow> \<exists>p \<in> set ps. snd p = v"
  by (induction ps) (auto split: if_splits)

lemma obj_get_ok: "ser_ok obj \<Longrightarrow> obj_get k obj = Some v \<Longrightarrow> ser_ok v"
  by (cases obj) (auto dest!: map_get_mem intro: ser_ok_parts(2))

lemma path_vals_ok: "ser_ok obj \<Longrightarrow> Some v \<in> set (path_vals path obj) \<Longrightarrow> ser_ok v"
proof (induction path arbitrary: obj)
  case (Cons p path)
  show ?case
  proof (cases "MojStrCmp p WildcardKey = 0")
    case True
    then obtain ps u where "obj = OObject ps" "u \<in> snd ` set ps" "Some v \<in> set (path_vals path u)"
      using Cons.prems(2) by (cases obj) auto
    then show ?thesis using Cons.IH [of u] Cons.prems(1) ser_ok_parts(2) by auto
  next
    case False
    then obtain u where u: "obj_get p obj = Some u" using Cons.prems(2) by (cases "obj_get p obj") auto
    have ok: "ser_ok u" using obj_get_ok [OF Cons.prems(1) u] .
    show ?thesis
    proof (cases "\<exists>xs. u = OArray xs")
      case True
      then obtain xs w where "u = OArray xs" "w \<in> set xs" "Some v \<in> set (path_vals path w)"
        using Cons.prems(2) False u by auto
      then show ?thesis using Cons.IH [of w] ok ser_ok_parts(1) by auto
    next
      case ne: False
      then have "Some v \<in> set (path_vals path u)" using Cons.prems(2) False u by (cases u) auto
      then show ?thesis using Cons.IH ok by blast
    qed
  qed
qed simp

section \<open>The keys of an object\<close>

text \<open>Extractors without a tokenizer and a collator, with serialized values as their defaults.\<close>

fun plain_ext :: "extractor \<Rightarrow> bool" where
  "plain_ext (PropExtractor e) \<longleftrightarrow> plain e \<and> set (e_default e) \<subseteq> enc ` Collect ser_ok"
| "plain_ext (MultiExtractor name coll es) \<longleftrightarrow> (\<forall>e \<in> set es. plain e \<and> set (e_default e) \<subseteq> enc ` Collect ser_ok)"

text \<open>The values that an object has for an indexed property.\<close>

definition ext_values :: "extractor \<Rightarrow> obj \<Rightarrow> obj set" where
  "ext_values e obj = {v. ser_ok v \<and> (\<exists>keys. ext_vals e obj [] = Inr keys \<and> enc v \<in> set keys)}"

lemma valsImpl_plain:
  assumes "plain e" "set (e_default e) \<subseteq> enc ` Collect ser_ok" "ser_ok obj" "set out \<subseteq> enc ` Collect ser_ok"
  shows "\<exists>keys. valsImpl e (e_prop e) obj out = Inr keys \<and> set keys \<subseteq> enc ` Collect ser_ok"
proof -
  have "valsImpl e (e_prop e) obj out = Inr (foldl (put_leaf e) out (path_vals (e_prop e) obj))"
    using valsImpl_path assms(1) by (simp add: plain_def)
  moreover have "(case leaf of None \<Rightarrow> set (e_default e) | Some v \<Rightarrow> {enc v}) \<subseteq> enc ` Collect ser_ok"
    if "leaf \<in> set (path_vals (e_prop e) obj)" for leaf
  proof (cases leaf)
    case None
    then show ?thesis using assms(2) by simp
  next
    case (Some v)
    then have "ser_ok v" using path_vals_ok [OF assms(3)] that by blast
    then show ?thesis using Some by simp
  qed
  ultimately show ?thesis using assms(4) by (auto simp: put_leaves_set)
qed

lemma ext_vals_plain:
  assumes "plain_ext e" "ser_ok obj"
  shows "\<exists>keys. ext_vals e obj [] = Inr keys \<and> set keys = enc ` ext_values e obj"
proof -
  have "\<exists>keys. ext_vals e obj [] = Inr keys \<and> set keys \<subseteq> enc ` Collect ser_ok"
  proof (cases e)
    case (PropExtractor p)
    then show ?thesis using valsImpl_plain [of p obj "[]"] assms by simp
  next
    case (MultiExtractor name coll es)
    have "\<exists>keys. run (\<lambda>out e. valsImpl e (e_prop e) obj out) out fs = Inr keys \<and> set keys \<subseteq> enc ` Collect ser_ok"
      if "set fs \<subseteq> set es" "set out \<subseteq> enc ` Collect ser_ok" for fs out
      using that
    proof (induction fs arbitrary: out)
      case (Cons f fs)
      then obtain keys where "valsImpl f (e_prop f) obj out = Inr keys" "set keys \<subseteq> enc ` Collect ser_ok"
        using valsImpl_plain [of f obj out] assms MultiExtractor by auto
      then show ?case using Cons by simp
    qed simp
    then show ?thesis using MultiExtractor by simp
  qed
  then obtain keys where keys: "ext_vals e obj [] = Inr keys" "set keys \<subseteq> enc ` Collect ser_ok" by blast
  have "set keys = enc ` {v. ser_ok v \<and> enc v \<in> set keys}" using keys(2) by blast
  then show ?thesis using keys(1) by (simp add: ext_values_def)
qed

lemma getKeys_values:
  assumes "\<forall>e \<in> set (i_props ix). plain_ext e" "ser_ok obj" "i_idSet ix = [enc (i_id ix)]"
  shows "\<exists>keys. getKeys ix obj = Inr keys \<and>
    set keys = {vals_key (i_id ix # vs) | vs. list_all2 (\<lambda>v e. v \<in> ext_values e obj) vs (i_props ix)}"
proof -
  have "\<exists>sets. run (\<lambda>stack e. rbind (ext_vals e obj []) (\<lambda>vals. Inr (stack @ [vals]))) stack es = Inr (stack @ sets) \<and>
      list_all2 (\<lambda>keys e. set keys = enc ` ext_values e obj) sets es"
    if "\<forall>e \<in> set es. plain_ext e" for stack es
    using that
  proof (induction es arbitrary: stack)
    case (Cons e es)
    obtain keys where keys: "ext_vals e obj [] = Inr keys" "set keys = enc ` ext_values e obj"
      using ext_vals_plain [of e obj] Cons.prems assms(2) by auto
    obtain sets where "run (\<lambda>stack e. rbind (ext_vals e obj []) (\<lambda>vals. Inr (stack @ [vals]))) (stack @ [keys]) es =
        Inr ((stack @ [keys]) @ sets)" "list_all2 (\<lambda>keys e. set keys = enc ` ext_values e obj) sets es"
      using Cons.IH [of "stack @ [keys]"] Cons.prems by auto
    then show ?case using keys by (intro exI [of _ "keys # sets"]) simp
  qed simp
  from this [OF assms(1), of "[i_idSet ix]"] obtain sets where
    sets: "run (\<lambda>stack e. rbind (ext_vals e obj []) (\<lambda>vals. Inr (stack @ [vals]))) [i_idSet ix] (i_props ix) = Inr ([i_idSet ix] @ sets)"
      "list_all2 (\<lambda>keys e. set keys = enc ` ext_values e obj) sets (i_props ix)" by blast
  have "set (combos sets) = {vals_key vs | vs. list_all2 (\<lambda>v e. v \<in> ext_values e obj) vs (i_props ix)}"
    by (rule combos_values [OF sets(2)])
  then show ?thesis using sets(1) assms(3) by (auto simp: getKeys_def keys_of_combos)
qed

section \<open>An index over time\<close>

text \<open>An open index with plain extractors, one of them that of the \<^verbatim>\<open>_id\<close>.\<close>

definition index_ok :: "db_index \<Rightarrow> bool" where
  "index_ok ix \<longleftrightarrow> i_open ix \<and> ser_ok (i_id ix) \<and> obj_type (i_id ix) \<noteq> TypeArray \<and> i_idSet ix = [enc (i_id ix)] \<and>
     (\<forall>e \<in> set (i_props ix). plain_ext e) \<and> (\<exists>e. PropExtractor e \<in> set (i_props ix) \<and> e_prop e = [IdKey])"

definition has_id :: "obj \<Rightarrow> obj \<Rightarrow> bool" where
  "has_id obj ident \<longleftrightarrow> ser_ok obj \<and> obj_get IdKey obj = Some ident \<and> obj_type ident \<noteq> TypeArray"

text \<open>
  The objects of a kind by their ids, and the keys of one index, as objects are put (\<^verbatim>\<open>old\<close> is the
  stored version), purged, and the transaction's watchers are notified.
\<close>

inductive index_reach :: "db_index \<Rightarrow> (obj \<Rightarrow> obj option) \<Rightarrow> index_txn \<Rightarrow> bool" for ix where
  start: "t_store t = [] \<Longrightarrow> index_reach ix (\<lambda>_. None) t"
| put: "index_reach ix objs t \<Longrightarrow> has_id obj ident \<Longrightarrow>
    index_update ix x (Some obj) (objs ident) forcedel t = Inr t' \<Longrightarrow> index_reach ix (objs(ident \<mapsto> obj)) t'"
| purge: "index_reach ix objs t \<Longrightarrow> objs ident = Some old \<Longrightarrow>
    index_update ix x None (Some old) forcedel t = Inr t' \<Longrightarrow> index_reach ix (objs(ident := None)) t'"
| notify: "index_reach ix objs t \<Longrightarrow> index_reach ix objs (t\<lparr>t_watchers := w\<rparr>)"

lemma id_values:
  assumes "plain_ext (PropExtractor e)" "e_prop e = [IdKey]" "has_id obj ident"
  shows "ext_values (PropExtractor e) obj = {ident}"
proof -
  have "IdKey \<noteq> []" "MojStrCmp IdKey WildcardKey \<noteq> 0" by (simp_all add: IdKey_def WildcardKey_def)
  then have "path_vals [IdKey] obj = [Some ident]"
    using assms(3) by (cases ident) (simp_all add: has_id_def)
  then have "ext_vals (PropExtractor e) obj [] = Inr [enc ident]"
    using assms(1,2) valsImpl_path [of e "[IdKey]" obj "[]"] by (simp add: put_leaf_def)
  moreover have "ser_ok ident" using assms(3) obj_get_ok by (auto simp: has_id_def)
  moreover have "enc v = enc ident \<longleftrightarrow> v = ident" if "ser_ok v" for v
    using vals_key_inj [of "[v]" "[ident]"] that \<open>ser_ok ident\<close> by simp
  ultimately show ?thesis by (auto simp: ext_values_def)
qed

lemma index_keys_values:
  assumes "index_ok ix" "ser_ok obj" "includeObj ix (Some obj)"
  shows "index_keys ix (Some obj) =
    {vals_key (i_id ix # vs) | vs. list_all2 (\<lambda>v e. v \<in> ext_values e obj) vs (i_props ix)}"
  using getKeys_values [of ix obj] assms by (auto simp: index_ok_def index_keys_def)

lemma values_ok: "list_all2 (\<lambda>v e. v \<in> ext_values e obj) vs es \<Longrightarrow> list_all ser_ok vs"
  by (induction vs es rule: list_all2_induct) (simp_all add: ext_values_def)

text \<open>Objects with different ids have no key in common.\<close>

lemma index_keys_disjoint:
  assumes ix: "index_ok ix" and ids: "has_id o1 i1" "has_id o2 i2" "i1 \<noteq> i2"
  shows "index_keys ix (Some o1) \<inter> index_keys ix (Some o2) = {}"
proof (rule ccontr)
  assume "index_keys ix (Some o1) \<inter> index_keys ix (Some o2) \<noteq> {}"
  then obtain k where k: "k \<in> index_keys ix (Some o1)" "k \<in> index_keys ix (Some o2)" by blast
  then have inc: "includeObj ix (Some o1)" "includeObj ix (Some o2)"
    by (auto simp: index_keys_def split: if_splits)
  have ok: "ser_ok o1" "ser_ok o2" using ids by (simp_all add: has_id_def)
  from k obtain us vs where us: "k = vals_key (i_id ix # us)" "list_all2 (\<lambda>v e. v \<in> ext_values e o1) us (i_props ix)"
    and vs: "k = vals_key (i_id ix # vs)" "list_all2 (\<lambda>v e. v \<in> ext_values e o2) vs (i_props ix)"
    unfolding index_keys_values [OF ix ok(1) inc(1)] index_keys_values [OF ix ok(2) inc(2)] by blast
  have "i_id ix # us = i_id ix # vs"
    using vals_key_inj [of "i_id ix # us" "i_id ix # vs"] us vs values_ok ix
    by (simp add: index_ok_def list_all2_lengthD)
  then have "us = vs" by simp
  obtain e where e: "PropExtractor e \<in> set (i_props ix)" "e_prop e = [IdKey]" "plain_ext (PropExtractor e)"
    using ix by (auto simp: index_ok_def)
  then obtain n where n: "n < length (i_props ix)" "i_props ix ! n = PropExtractor e" by (auto simp: in_set_conv_nth)
  have "us ! n \<in> ext_values (PropExtractor e) o1" "us ! n \<in> ext_values (PropExtractor e) o2"
    using us(2) vs(2) n \<open>us = vs\<close> by (auto simp: list_all2_conv_all_nth)
  then show False using id_values [OF e(3,2)] ids by auto
qed

definition consistent :: "db_index \<Rightarrow> (obj \<Rightarrow> obj option) \<Rightarrow> index_txn \<Rightarrow> bool" where
  "consistent ix objs t \<longleftrightarrow> sorted_set (t_store t) \<and> (\<forall>i obj. objs i = Some obj \<longrightarrow> has_id obj i) \<and>
     set (t_store t) = (\<Union>i. index_keys ix (objs i))"

lemma index_keys_None [simp]: "index_keys ix None = {}"
  by (simp add: index_keys_def includeObj_def)

lemma update_consistent:
  assumes ix: "index_ok ix" and c: "consistent ix objs t"
    and new: "\<And>obj. new = Some obj \<Longrightarrow> has_id obj ident"
    and u: "index_update ix x new (objs ident) forcedel t = Inr t'"
  shows "consistent ix (objs(ident := new)) t'"
proof -
  have sub: "index_keys ix (objs ident) \<subseteq> set (t_store t)" using c by (auto simp: consistent_def)
  have sorted: "sorted_set (t_store t)" using c by (simp add: consistent_def)
  note t' = update_ok [OF u sorted sub]
  have dis: "index_keys ix (objs i) \<inter> index_keys ix (objs ident) = {}" if "i \<noteq> ident" for i
  proof (cases "objs i"; cases "objs ident")
    fix o1 o2 assume o: "objs i = Some o1" "objs ident = Some o2"
    then have "has_id o1 i" "has_id o2 ident" using c by (simp_all add: consistent_def)
    then show ?thesis using index_keys_disjoint [OF ix _ _ that] o by simp
  qed simp_all
  have "(\<Union>i. index_keys ix ((objs(ident := new)) i)) = (\<Union>i \<in> - {ident}. index_keys ix (objs i)) \<union> index_keys ix new"
    by (auto split: if_splits)
  also have "(\<Union>i \<in> - {ident}. index_keys ix (objs i)) = (\<Union>i. index_keys ix (objs i)) - index_keys ix (objs ident)"
    using dis by blast
  finally show ?thesis using t' c new by (auto simp: consistent_def)
qed

lemma reach_consistent: "index_reach ix objs t \<Longrightarrow> index_ok ix \<Longrightarrow> consistent ix objs t"
proof (induction rule: index_reach.induct)
  case (start t)
  then show ?case by (simp add: consistent_def)
next
  case (put objs t obj ident x forcedel t')
  show ?case
    by (rule update_consistent [of ix objs t "Some obj" ident x forcedel]) (use put in auto)
next
  case (purge objs t ident old x forcedel t')
  show ?case
    by (rule update_consistent [of ix objs t None ident x forcedel]) (use purge in auto)
next
  case (notify objs t w)
  then show ?case by (simp add: consistent_def)
qed

text \<open>
  C11. An index is consistent at all times: however objects are put, changed, deleted and purged, the
  stored keys are exactly the keys of the objects that the index includes, in strictly ascending
  order and without leftovers.
\<close>

theorem index_consistent:
  assumes "index_ok ix" "index_reach ix objs t"
  shows "sorted_set (t_store t) \<and>
    set (t_store t) = (\<Union>i. case objs i of None \<Rightarrow> {} | Some obj \<Rightarrow>
      if includeObj ix (Some obj)
      then {vals_key (i_id ix # vs) | vs. list_all2 (\<lambda>v e. v \<in> ext_values e obj) vs (i_props ix)} else {})"
proof -
  have c: "consistent ix objs t" by (rule reach_consistent) fact+
  have "index_keys ix (objs i) = (case objs i of None \<Rightarrow> {} | Some obj \<Rightarrow>
      if includeObj ix (Some obj)
      then {vals_key (i_id ix # vs) | vs. list_all2 (\<lambda>v e. v \<in> ext_values e obj) vs (i_props ix)} else {})" for i
  proof (cases "objs i")
    case (Some obj)
    then have "ser_ok obj" using c by (auto simp: consistent_def has_id_def)
    then show ?thesis using Some index_keys_values [OF assms(1), of obj] by (simp add: index_keys_def)
  qed simp
  then show ?thesis using c by (simp add: consistent_def)
qed

definition id_extractor :: prop_extractor where
  "id_extractor = extractor_new\<lparr>e_name := IdKey, e_prop := [IdKey]\<rparr>"

definition name_extractor :: prop_extractor where
  "name_extractor = extractor_new\<lparr>e_name := ''n'', e_prop := [''n'']\<rparr>"

definition index_ex :: db_index where
  "index_ex = index_new\<lparr>i_name := ''byname'', i_propNames := [''n'', IdKey],
     i_props := [PropExtractor name_extractor, PropExtractor id_extractor],
     i_id := OInt 3, i_idSet := [[11, 3]], i_idIndex := 2, i_ready := True, i_open := True\<rparr>"

definition obj_ex :: "i64 \<Rightarrow> string \<Rightarrow> obj" where
  "obj_ex i s = OObject [(IdKey, OInt i), (''n'', OString s)]"

definition txn_ex :: index_txn where
  "txn_ex = \<lparr>t_store = [], t_answers = [], t_reports = True, t_watchers = [], t_misses = 0\<rparr>"

lemma index_ex_ok: "index_ok index_ex"
proof -
  have "[11, 3] = enc (OInt 3)" "ser_ok (OInt 3)" by (code_simp, simp add: ser_ok_def)
  moreover have "plain_ext (PropExtractor name_extractor)" "plain_ext (PropExtractor id_extractor)" "e_prop id_extractor = [IdKey]"
    by (simp_all add: plain_def name_extractor_def id_extractor_def extractor_new_def)
  ultimately show ?thesis
    unfolding index_ok_def index_ex_def by (intro conjI exI [of _ id_extractor]) simp_all
qed

lemma obj_ex_id: "nonul s \<Longrightarrow> has_id (obj_ex i s) (OInt i)"
  by (simp add: has_id_def ser_ok_def obj_ex_def IdKey_def)

lemma reach_ex:
  "index_reach index_ex ((\<lambda>_. None)(OInt 1 \<mapsto> obj_ex 1 ''a'')) (txn_ex\<lparr>t_store := [[11, 3, 4, 97, 0, 11, 1]]\<rparr>)"
proof -
  have upd: "index_update index_ex watch_ex (Some (obj_ex 1 ''a'')) None False txn_ex =
      Inr (txn_ex\<lparr>t_store := [[11, 3, 4, 97, 0, 11, 1]]\<rparr>)"
  proof -
    have "getKeys index_ex (obj_ex 1 ''a'') = Inr [[11, 3, 4, 97, 0, 11, 1]]" "includeObj index_ex (Some (obj_ex 1 ''a''))"
      by code_simp+
    then show ?thesis
      by (simp add: index_update_def includeObj_def [of _ None] insertKeys_def store_insert_def store_write_def notifyWatches_def
          notify_key_def watch_ex_def txn_ex_def index_ex_def)
  qed
  have start: "index_reach index_ex (\<lambda>_. None) txn_ex" by (rule index_reach.start) (simp add: txn_ex_def)
  show ?thesis by (rule index_reach.put [OF start obj_ex_id upd]) simp
qed

theorem index_consistent_witness:
  "sorted_set [[11, 3, 4, 97, 0, 11, 1]] \<and>
    set [[11, 3, 4, 97, 0, 11, 1]] = (\<Union>i. case ((\<lambda>_. None)(OInt 1 \<mapsto> obj_ex 1 ''a'')) i of None \<Rightarrow> {} | Some obj \<Rightarrow>
      if includeObj index_ex (Some obj)
      then {vals_key (i_id index_ex # vs) | vs. list_all2 (\<lambda>v e. v \<in> ext_values e obj) vs (i_props index_ex)} else {})"
  using index_consistent [OF index_ex_ok reach_ex] by simp

text \<open>
  C16. An update on a consistent index fails only when the storage does: putting an object over the stored version, or
  deleting the stored version, finds every key of the old version, so no key is missed and \<open>MojErrInternalIndexOnDel\<close> is
  never raised, forced or not; and if it fails, then with an error that the storage answered to one of the writes. In
  particular it goes through if the storage refuses nothing.
\<close>

theorem index_update_succeeds:
  assumes "index_ok ix" "index_reach ix objs t"
    and "case new of None \<Rightarrow> objs ident \<noteq> None | Some obj \<Rightarrow> has_id obj ident"
  shows "case index_update ix x new (objs ident) forcedel t of
      Inl e \<Rightarrow> Some e \<in> set (t_answers t)
    | Inr t' \<Rightarrow> t_misses t' = t_misses t"
proof -
  have c: "consistent ix objs t" by (rule reach_consistent) fact+
  then have sub: "index_keys ix (objs ident) \<subseteq> set (t_store t)" and sorted: "sorted_set (t_store t)"
    by (auto simp: consistent_def)
  have keys: "\<exists>ks. getKeys ix (the o1) = Inr ks" if "includeObj ix o1" "\<And>v. o1 = Some v \<Longrightarrow> ser_ok v" for o1
    using getKeys_values [of ix "the o1"] assms(1) that by (auto simp: index_ok_def includeObj_def split: option.splits)
  have "\<exists>ks. getKeys ix (the new) = Inr ks" if "includeObj ix new"
    using keys [OF that] that assms(3) by (cases new) (auto simp: has_id_def includeObj_def)
  moreover have "\<exists>ks. getKeys ix (the (objs ident)) = Inr ks" if "includeObj ix (objs ident)"
    using keys [OF that] c by (auto simp: consistent_def has_id_def)
  moreover have "i_open ix" "new \<noteq> None \<or> objs ident \<noteq> None"
    using assms(1,3) by (auto simp: index_ok_def split: option.splits)
  ultimately have "update_result ix new (objs ident) t (index_update ix x new (objs ident) forcedel t)"
    using update_result [OF _ _ sorted sub] by blast
  then show ?thesis by (auto simp: update_result_def split: sum.splits)
qed

theorem index_update_succeeds_witness:
  "\<exists>t'. index_update index_ex watch_ex None (Some (obj_ex 1 ''a'')) False (txn_ex\<lparr>t_store := [[11, 3, 4, 97, 0, 11, 1]]\<rparr>) = Inr t' \<and>
    t_misses t' = 0"
  using index_update_succeeds [OF index_ex_ok reach_ex, where new = None and ident = "OInt 1" and x = watch_ex and forcedel = False]
  by (auto simp: txn_ex_def split: sum.splits)

section \<open>What goes wrong\<close>

text \<open>
  A deletion is charged, too: with the quota used up, the storage refuses the deletion of a key, and the object cannot be
  removed.
\<close>

lemma refused_delete:
  "index_update index_ex watch_ex None (Some (obj_ex 1 ''a'')) True
     (txn_ex\<lparr>t_store := [[11, 3, 4, 97, 0, 11, 1]], t_answers := [Some MojErrDbQuotaExceeded]\<rparr>) = Inl MojErrDbQuotaExceeded"
  by code_simp

end
