(* ===== verification/DbAnswer.thy ===== *)
theory DbAnswer
  imports DbIndexOk
begin

text \<open>
  What a query finds: for an index that \<^verbatim>\<open>canAnswer\<close> accepts, the plan's ranges contain exactly the
  keys of the objects whose values pass the clauses of the query. This puts the query, the choice of
  the index, the plan, the extractors and the update of the index together.
\<close>

section \<open>The index and the query fit\<close>

definition index_wf :: "db_index \<Rightarrow> bool" where
  "index_wf ix \<longleftrightarrow> i_propNames ix = map ext_name (i_props ix) \<and> i_propNames ix \<noteq> [] \<and>
     distinct (i_propNames ix) \<and> (\<forall>n \<in> set (i_propNames ix). nonul n) \<and>
     (i_includeDeleted ix \<longrightarrow> hd (i_propNames ix) = DelKey)"

definition query_ok :: "db_query \<Rightarrow> bool" where
  "query_ok q \<longleftrightarrow> distinct (map fst (q_whereClauses q)) \<and>
     (\<forall>(k, c) \<in> set (q_whereClauses q). nonul k \<and> comparison c \<and> clause_vals c \<noteq> [])"

lemma where_find_map_of:
  "nonul p \<Longrightarrow> \<forall>k \<in> fst ` set m. nonul k \<Longrightarrow> where_find p m = map_of m p"
proof (induction m)
  case (Cons kc m)
  obtain k c where kc: "kc = (k, c)" by (cases kc)
  then have "MojStrCmp k p = 0 \<longleftrightarrow> k = p"
    using str_comp_nonul.cmp_eq_iff [of k p] Cons.prems by simp
  then show ?case using Cons by (auto simp: kc where_find_def)
qed (simp add: where_find_def)

lemma canAnswer_loop_clauses:
  assumes "canAnswer_loop m orderProp names props n" "n > 0"
  shows "\<exists>ps qs cs. names = ps @ qs \<and> length ps = n \<and> list_all2 (\<lambda>p c. where_find p m = Some c) ps cs \<and>
    (\<forall>c \<in> set (butlast cs). lowerOp c = OpEq)"
  using assms
proof (induction m orderProp names props n rule: canAnswer_loop.induct)
  case (1 m orderProp name rest pr prs n)
  obtain c where c: "where_find name m = Some c"
    using "1.prems"(1) by (cases "where_find name m") (simp_all add: Let_def)
  show ?case
  proof (cases "n = 1")
    case True
    then show ?thesis using c by (intro exI [of _ "[name]"] exI [of _ rest] exI [of _ "[c]"]) simp
  next
    case False
    then have n: "n - 1 > 0" using "1.prems"(2) by simp
    then have r: "canAnswer_loop m orderProp rest prs (n - 1)" "lowerOp c = OpEq"
      using "1.prems"(1) c by (simp_all add: Let_def split: if_splits)
    obtain ps qs cs where "rest = ps @ qs" "length ps = n - 1" "list_all2 (\<lambda>p c. where_find p m = Some c) ps cs"
      "\<forall>c \<in> set (butlast cs). lowerOp c = OpEq"
      using "1.IH" [OF refl c] r n "1.prems"(1) c by (simp add: Let_def split: if_splits) blast
    then show ?thesis
      using c r(2) n by (intro exI [of _ "name # ps"] exI [of _ qs] exI [of _ "c # cs"]) simp
  qed
qed simp_all

text \<open>As many distinct properties as clauses, each with its clause, leave no clause over.\<close>

lemma all_clauses:
  assumes "distinct (map fst m)" "list_all2 (\<lambda>p c. map_of m p = Some c) ps cs" "distinct ps" "length ps = length m"
  shows "set ps = fst ` set m"
proof (rule card_subset_eq)
  show "set ps \<subseteq> fst ` set m"
  proof
    fix p assume "p \<in> set ps"
    then obtain c where "map_of m p = Some c" using assms(2) by (auto simp: list_all2_conv_all_nth in_set_conv_nth)
    then show "p \<in> fst ` set m" by (force dest: map_of_SomeD)
  qed
  have "card (fst ` set m) = length m" using distinct_card [OF assms(1)] by simp
  then show "card (set ps) = card (fst ` set m)" using assms(3,4) by (simp add: distinct_card)
qed simp

lemma select_zip:
  assumes "list_all2 (\<lambda>p c. map_of m p = Some c) ps cs" "set ps = fst ` set m" "distinct (ps @ qs)"
    and "length vs = length (ps @ qs)"
  shows "list_all2 passes cs (take (length cs) vs) \<longleftrightarrow>
    (\<forall>(n, v) \<in> set (zip (ps @ qs) vs). case map_of m n of None \<Rightarrow> True | Some c \<Rightarrow> passes c v)"
proof -
  have len: "length cs = length ps" using assms(1) by (simp add: list_all2_lengthD)
  have none: "map_of m n = None" if "n \<in> set qs" for n
    using that assms(2,3) by (auto simp: map_of_eq_None_iff)
  have split: "zip (ps @ qs) vs = zip ps (take (length ps) vs) @ zip qs (drop (length ps) vs)"
    by (simp add: zip_append1)
  have "list_all2 passes cs us \<longleftrightarrow> (\<forall>(n, v) \<in> set (zip ps us). case map_of m n of None \<Rightarrow> True | Some c \<Rightarrow> passes c v)"
    if "length us = length ps" for us
    using assms(1) that
  proof (induction ps cs arbitrary: us rule: list_all2_induct)
    case (Cons p ps c cs)
    then show ?case by (cases us) simp_all
  qed simp
  from this [of "take (length ps) vs"] show ?thesis
    using assms(4) len none by (auto simp: split dest: set_zip_leftD)
qed

section \<open>The plan\<close>

definition not_deleted :: where_clause where
  "not_deleted = clause_init\<lparr>lowerOp := OpEq, lowerVal := OBool False\<rparr>"

text \<open>The clauses with the one that \<^verbatim>\<open>init\<close> adds for an index that includes deleted objects.\<close>

definition plan_where :: "db_index \<Rightarrow> db_query \<Rightarrow> where_map" where
  "plan_where ix q =
     (if i_includeDeleted ix \<and> where_find DelKey (q_whereClauses q) = None
      then (DelKey, not_deleted) # q_whereClauses q else q_whereClauses q)"

lemma not_deleted_ok: "comparison not_deleted" "clause_vals not_deleted \<noteq> []" "lowerOp not_deleted = OpEq"
  by (simp_all add: comparison_def clause_shape_def clause_pre_def not_deleted_def clause_init_def ser_ok_def clause_vals_def)

lemma DelKey_nonul [simp]: "nonul DelKey"
  by (simp add: DelKey_def)

lemma plan_init_where:
  "plan_init lib q (index_plan ix) p =
     rbind (buildRanges lib (index_plan ix) (p\<lparr>p_query := q\<lparr>q_whereClauses := plan_where ix q\<rparr>, p_locale := i_locale ix,
         p_idPropIndex := i_idIndex ix, p_ranges := []\<rparr>))
       (\<lambda>p'. Inr (if q_desc q then p'\<lparr>p_ranges := rev (p_ranges p')\<rparr> else p'))"
proof -
  have "query_where DelKey OpEq (OBool False) CollationInvalid q = Inr (q\<lparr>q_whereClauses := (DelKey, not_deleted) # q_whereClauses q\<rparr>)"
    if "where_find DelKey (q_whereClauses q) = None"
    using that
    by (simp add: query_where_def addClause_def createClause_def setLower_def set_collation_def where_put_def
        where_find_def not_deleted_def clause_init_def)
  moreover have "q\<lparr>q_whereClauses := q_whereClauses q\<rparr> = q" by simp
  ultimately show ?thesis
    by (simp add: plan_init_def plan_where_def index_plan_def)
qed

lemma answer_clauses:
  assumes ix: "index_wf ix" and can: "canAnswer ix q" and q: "query_ok q"
  shows "\<exists>ps qs cs. i_propNames ix = ps @ qs \<and> plan_clauses (plan_where ix q) ps cs qs \<and>
    list_all2 (\<lambda>p c. map_of (plan_where ix q) p = Some c) ps cs \<and> set ps = fst ` set (plan_where ix q)"
proof -
  let ?m = "q_whereClauses q" and ?m' = "plan_where ix q"
  let ?skip = "i_includeDeleted ix \<and> where_find DelKey ?m = None"
  define names where "names = (if ?skip then tl (i_propNames ix) else i_propNames ix)"
  define pre where "pre = (if ?skip then [DelKey] else [])"
  have all: "i_propNames ix = pre @ names"
    using ix by (cases "i_propNames ix") (auto simp: index_wf_def names_def pre_def)
  have dist: "distinct (pre @ names)" "\<forall>n \<in> set (pre @ names). nonul n"
    using ix unfolding all [symmetric] index_wf_def by blast+
  have keys: "\<forall>k \<in> fst ` set ?m. nonul k" "\<forall>k \<in> fst ` set ?m'. nonul k"
    using q by (auto simp: query_ok_def plan_where_def)
  have "\<exists>ps qs cs. names = ps @ qs \<and> length ps = length ?m \<and> list_all2 (\<lambda>p c. where_find p ?m = Some c) ps cs \<and>
      (\<forall>c \<in> set (butlast cs). lowerOp c = OpEq)"
  proof (cases "?m = []")
    case True
    then show ?thesis by simp
  next
    case False
    define props where "props = (if ?skip then tl (i_props ix) else i_props ix)"
    have "canAnswer_loop ?m (q_orderProp q) names props (length ?m)"
      using can False by (auto simp: canAnswer_def Let_def names_def props_def split: if_splits)
    then show ?thesis using canAnswer_loop_clauses [of ?m "q_orderProp q" names props "length ?m"] False by blast
  qed
  then obtain ps qs cs where ps: "names = ps @ qs" "length ps = length ?m"
    "list_all2 (\<lambda>p c. where_find p ?m = Some c) ps cs" "\<forall>c \<in> set (butlast cs). lowerOp c = OpEq" by blast
  define pcs where "pcs = (if ?skip then [not_deleted] else [])"
  have find: "where_find p ?m = map_of ?m p" "where_find p ?m' = map_of ?m' p" if "p \<in> set (pre @ names)" for p
    using where_find_map_of keys dist(2) that by blast+
  have l2: "list_all2 (\<lambda>p c. map_of ?m p = Some c) ps cs"
    using ps(1,3) find by (auto simp: list_all2_conv_all_nth)
  have del: "map_of ?m DelKey = None" if ?skip
    using that where_find_map_of [of DelKey ?m] keys by simp
  have l2': "list_all2 (\<lambda>p c. map_of ?m' p = Some c) (pre @ ps) (pcs @ cs)"
  proof (cases ?skip)
    case True
    then have "DelKey \<notin> set ps" using dist(1) ps(1) by (auto simp: pre_def)
    then have "list_all2 (\<lambda>p c. map_of ?m' p = Some c) ps cs"
      using True l2 by (auto simp: plan_where_def list_all2_conv_all_nth) (metis nth_mem)
    then show ?thesis
      using True by (simp add: plan_where_def pre_def pcs_def)
  next
    case False
    have "?m' = ?m" "pre = []" "pcs = []" using False by (simp_all only: plan_where_def pre_def pcs_def if_False)
    then show ?thesis using l2 by simp
  qed
  have distm: "distinct (map fst ?m')"
    using q del by (auto simp: query_ok_def plan_where_def map_of_eq_None_iff image_iff)
  have len: "length (pre @ ps) = length ?m'"
    using ps(2) by (simp add: plan_where_def pre_def)
  have set_ps: "set (pre @ ps) = fst ` set ?m'"
    by (rule all_clauses [OF distm l2' _ len]) (use dist(1) ps(1) in auto)
  have next_none: "qs = [] \<or> where_find (hd qs) ?m' = None"
  proof (cases qs)
    case (Cons x xs)
    then have "x \<notin> fst ` set ?m'" using set_ps dist(1) ps(1) by auto
    then show ?thesis using Cons find(2) [of x] ps(1) by (simp add: map_of_eq_None_iff)
  qed simp
  have ok: "comparison c \<and> clause_vals c \<noteq> []" if "c \<in> set (pcs @ cs)" for c
  proof -
    obtain n where "n < length (pcs @ cs)" "c = (pcs @ cs) ! n" using \<open>c \<in> set (pcs @ cs)\<close> unfolding in_set_conv_nth by blast
    then have "map_of ?m' ((pre @ ps) ! n) = Some c"
      using l2' list_all2_lengthD [OF l2'] by (auto simp: list_all2_conv_all_nth)
    then have "(((pre @ ps) ! n), c) \<in> set ?m'" by (rule map_of_SomeD)
    then show ?thesis using q not_deleted_ok by (auto simp: query_ok_def plan_where_def split: if_splits)
  qed
  have eq: "\<forall>c \<in> set (butlast (pcs @ cs)). lowerOp c = OpEq"
    using ps(4) not_deleted_ok(3) by (auto simp: pcs_def butlast_append)
  have "list_all2 (\<lambda>p c. where_find p ?m' = Some c) (pre @ ps) (pcs @ cs)"
    by (rule list.rel_mono_strong [OF l2']) (use find(2) ps(1) in auto)
  then have "plan_clauses ?m' (pre @ ps) (pcs @ cs) qs"
    using next_none len ok eq by (auto simp: plan_clauses_def)
  then show ?thesis using l2' set_ps all ps(1) by (intro exI [of _ "pre @ ps"] exI [of _ qs] exI [of _ "pcs @ cs"]) simp
qed

section \<open>What a query selects\<close>

text \<open>
  The values of an object, in the order of the properties of the index, are selected if each passes
  the clause of its property; without a clause for \<^verbatim>\<open>_del\<close> only objects that are not deleted are.
\<close>

definition selects :: "db_index \<Rightarrow> db_query \<Rightarrow> obj list \<Rightarrow> bool" where
  "selects ix q vs \<longleftrightarrow>
     (\<forall>(n, v) \<in> set (zip (i_propNames ix) vs).
        case where_find n (q_whereClauses q) of
          None \<Rightarrow> i_includeDeleted ix \<and> n = DelKey \<longrightarrow> v = OBool False
        | Some c \<Rightarrow> passes c v)"

lemma passes_not_deleted: "ser_ok v \<Longrightarrow> passes not_deleted v \<longleftrightarrow> v = OBool False"
  by (simp add: passes_eq [OF not_deleted_ok(1,3)] clause_vals_def) (simp add: not_deleted_def)

lemma plan_where_case:
  assumes q: "query_ok q" and n: "nonul n" and v: "ser_ok v"
  shows "(case map_of (plan_where ix q) n of None \<Rightarrow> True | Some c \<Rightarrow> passes c v) \<longleftrightarrow>
    (case where_find n (q_whereClauses q) of
          None \<Rightarrow> i_includeDeleted ix \<and> n = DelKey \<longrightarrow> v = OBool False
        | Some c \<Rightarrow> passes c v)"
proof -
  let ?m = "q_whereClauses q"
  have keys: "\<forall>k \<in> fst ` set ?m. nonul k" using q by (auto simp: query_ok_def)
  have f: "where_find n ?m = map_of ?m n" "where_find DelKey ?m = map_of ?m DelKey"
    using where_find_map_of keys n by simp_all
  show ?thesis
    using passes_not_deleted [OF v] by (auto simp: plan_where_def f split: option.splits)
qed

lemma plan_covers:
  assumes ix: "index_wf ix" and ident: "ser_ok (i_id ix)" "obj_type (i_id ix) \<noteq> TypeArray"
    and can: "canAnswer ix q" and q: "query_ok q"
  shows "\<exists>p'. plan_init lib q (index_plan ix) p = Inr p' \<and>
    (\<forall>vs. list_all ser_ok vs \<longrightarrow> length vs = length (i_propNames ix) \<longrightarrow>
       (covers (p_ranges p') (vals_key (i_id ix # vs)) \<longleftrightarrow> selects ix q vs \<and> page_in q (vals_key (i_id ix # vs))))"
proof -
  obtain ps qs cs where pq: "i_propNames ix = ps @ qs" "plan_clauses (plan_where ix q) ps cs qs"
    "list_all2 (\<lambda>p c. map_of (plan_where ix q) p = Some c) ps cs" "set ps = fst ` set (plan_where ix q)"
    using answer_clauses [OF ix can q] by blast
  let ?q = "q\<lparr>q_whereClauses := plan_where ix q\<rparr>"
  let ?p = "p\<lparr>p_query := ?q, p_locale := i_locale ix, p_idPropIndex := i_idIndex ix, p_ranges := []\<rparr>"
  have names: "i_propNames ix \<noteq> []" "distinct (i_propNames ix)" "\<And>n. n \<in> set (i_propNames ix) \<Longrightarrow> nonul n"
    using ix unfolding index_wf_def by blast+
  have "\<exists>p'. buildRanges lib (index_plan ix) ?p = Inr p' \<and> p_query p' = p_query ?p \<and>
    (\<forall>vs. list_all ser_ok vs \<longrightarrow> length vs = length (ix_props (index_plan ix)) \<longrightarrow>
       (covers (p_ranges p') (vals_key (ix_id (index_plan ix) # vs)) \<longleftrightarrow>
          list_all2 passes cs (take (length cs) vs) \<and> page_in (p_query ?p) (vals_key (ix_id (index_plan ix) # vs))))"
    by (rule buildRanges_covers) (use pq(1,2) names(1) ident in \<open>simp_all add: index_plan_def\<close>)
  then obtain p' where p': "buildRanges lib (index_plan ix) ?p = Inr p'"
    "\<forall>vs. list_all ser_ok vs \<longrightarrow> length vs = length (i_propNames ix) \<longrightarrow>
       (covers (p_ranges p') (vals_key (i_id ix # vs)) \<longleftrightarrow>
          list_all2 passes cs (take (length cs) vs) \<and> page_in ?q (vals_key (i_id ix # vs)))"
    by (auto simp: index_plan_def)
  let ?r = "if q_desc q then p'\<lparr>p_ranges := rev (p_ranges p')\<rparr> else p'"
  have init: "plan_init lib q (index_plan ix) p = Inr ?r" by (simp add: plan_init_where p'(1))
  have cov: "covers (p_ranges ?r) k \<longleftrightarrow> covers (p_ranges p') k" for k by (simp add: covers_def)
  have page: "page_in ?q k \<longleftrightarrow> page_in q k" for k by (simp add: page_in_def)
  have sel: "list_all2 passes cs (take (length cs) vs) \<longleftrightarrow> selects ix q vs"
    if vs: "list_all ser_ok vs" "length vs = length (i_propNames ix)" for vs
  proof -
    have "list_all2 passes cs (take (length cs) vs) \<longleftrightarrow>
        (\<forall>(n, v) \<in> set (zip (i_propNames ix) vs). case map_of (plan_where ix q) n of None \<Rightarrow> True | Some c \<Rightarrow> passes c v)"
      unfolding pq(1) by (rule select_zip) (use pq names(2) vs(2) in simp_all)
    also have "\<dots> \<longleftrightarrow> selects ix q vs"
      unfolding selects_def
    proof (rule ball_cong [OF refl], unfold split_paired_all prod.case)
      fix n v assume "(n, v) \<in> set (zip (i_propNames ix) vs)"
      then have "nonul n" "ser_ok v" using names(3) vs(1) by (auto simp: list_all_iff dest: set_zip_leftD set_zip_rightD)
      then show "(case map_of (plan_where ix q) n of None \<Rightarrow> True | Some c \<Rightarrow> passes c v) =
          (case where_find n (q_whereClauses q) of
             None \<Rightarrow> i_includeDeleted ix \<and> n = DelKey \<longrightarrow> v = OBool False
           | Some c \<Rightarrow> passes c v)"
        by (rule plan_where_case [OF q])
    qed
    finally show ?thesis .
  qed
  show ?thesis
    by (rule exI [of _ ?r]) (use init cov page sel p'(2) in auto)
qed

lemma plan_prefix:
  assumes ix: "index_wf ix" and ident: "ser_ok (i_id ix)" "obj_type (i_id ix) \<noteq> TypeArray"
    and can: "canAnswer ix q" and q: "query_ok q"
    and plan: "plan_init lib q (index_plan ix) p = Inr p'" "covers (p_ranges p') k"
  shows "prefixOf (enc (i_id ix)) k"
proof -
  obtain ps qs cs where pq: "i_propNames ix = ps @ qs" "plan_clauses (plan_where ix q) ps cs qs"
    using answer_clauses [OF ix can q] by blast
  let ?p = "p\<lparr>p_query := q\<lparr>q_whereClauses := plan_where ix q\<rparr>, p_locale := i_locale ix, p_idPropIndex := i_idIndex ix, p_ranges := []\<rparr>"
  have names: "i_propNames ix \<noteq> []" using ix unfolding index_wf_def by blast
  obtain p1 where p1: "buildRanges lib (index_plan ix) ?p = Inr p1"
    "(if q_desc q then p1\<lparr>p_ranges := rev (p_ranges p1)\<rparr> else p1) = p'"
    using plan(1) by (auto simp: plan_init_where rbind_Inr_iff)
  have "covers (p_ranges p1) k" using plan(2) by (auto simp: p1(2) [symmetric] covers_def split: if_splits)
  with p1(1) have "prefixOf (enc (ix_id (index_plan ix))) k"
    by (rule buildRanges_prefix [where p = ?p and ps = ps and qs = qs and cs = cs, rotated -2])
      (use pq names ident in \<open>simp_all add: index_plan_def\<close>)
  then show ?thesis by (simp add: index_plan_def)
qed

text \<open>
  C4. A query finds what it describes: on an index that can answer it, the ranges of its plan contain
  the key of an object's values if and only if each value passes the test of the clause for its
  property (as the filter tests it), the object is not deleted unless the query says so, and the key
  is not before the requested page.
\<close>

theorem plan_selects:
  assumes "index_wf ix" "ser_ok (i_id ix)" "obj_type (i_id ix) \<noteq> TypeArray" "canAnswer ix q" "query_ok q"
  shows "\<exists>p'. plan_init lib q (index_plan ix) p = Inr p' \<and>
    (\<forall>vs. list_all ser_ok vs \<longrightarrow> length vs = length (i_propNames ix) \<longrightarrow>
       (covers (p_ranges p') (vals_key (i_id ix # vs)) \<longleftrightarrow> selects ix q vs \<and> page_in q (vals_key (i_id ix # vs))))"
  by (rule plan_covers) fact+

definition query_ex :: db_query where
  "query_ex = query_new\<lparr>q_whereClauses := [(''n'', clause_init\<lparr>lowerOp := OpGreaterThan, lowerVal := OString ''a''\<rparr>)]\<rparr>"

lemma query_ex_ok: "query_ok query_ex" "canAnswer index_ex query_ex"
proof -
  show "query_ok query_ex"
    by (simp add: query_ok_def query_ex_def query_new_def query_init_def comparison_def clause_shape_def clause_pre_def
        clause_init_def ser_ok_def clause_vals_def)
  show "canAnswer index_ex query_ex" by code_simp
qed

lemma index_ex_wf: "index_wf index_ex"
  by (simp add: index_wf_def index_ex_def index_new_def name_extractor_def id_extractor_def IdKey_def)

theorem plan_selects_witness:
  "\<exists>p'. plan_init icu_ex query_ex (index_plan index_ex) (plan_ex False) = Inr p' \<and>
    (\<forall>vs. list_all ser_ok vs \<longrightarrow> length vs = length (i_propNames index_ex) \<longrightarrow>
       (covers (p_ranges p') (vals_key (i_id index_ex # vs)) \<longleftrightarrow>
          selects index_ex query_ex vs \<and> page_in query_ex (vals_key (i_id index_ex # vs))))"
  by (rule plan_selects [OF index_ex_wf _ _ query_ex_ok(2,1)]) (simp_all add: index_ex_def ser_ok_def)

lemma index_answer:
  assumes ix: "index_ok ix" "index_wf ix" and r: "index_reach ix objs t" and can: "canAnswer ix q" and q: "query_ok q"
  shows "\<exists>p'. plan_init lib q (index_plan ix) p = Inr p' \<and>
    {k \<in> set (t_store t). covers (p_ranges p') k} =
    {vals_key (i_id ix # vs) | vs i obj. objs i = Some obj \<and> includeObj ix (Some obj) \<and>
       list_all2 (\<lambda>v e. v \<in> ext_values e obj) vs (i_props ix) \<and> selects ix q vs \<and> page_in q (vals_key (i_id ix # vs))}"
proof -
  have ident: "ser_ok (i_id ix)" "obj_type (i_id ix) \<noteq> TypeArray" using ix(1) by (simp_all add: index_ok_def)
  obtain p' where p': "plan_init lib q (index_plan ix) p = Inr p'"
    "\<And>vs. list_all ser_ok vs \<Longrightarrow> length vs = length (i_propNames ix) \<Longrightarrow>
       covers (p_ranges p') (vals_key (i_id ix # vs)) \<longleftrightarrow> selects ix q vs \<and> page_in q (vals_key (i_id ix # vs))"
    using plan_covers [OF ix(2) ident can q] by blast
  have c: "consistent ix objs t" by (rule reach_consistent) fact+
  have len: "length (i_propNames ix) = length (i_props ix)" using ix(2) by (simp add: index_wf_def)
  have key: "covers (p_ranges p') (vals_key (i_id ix # vs)) \<longleftrightarrow> selects ix q vs \<and> page_in q (vals_key (i_id ix # vs))"
    if "list_all2 (\<lambda>v e. v \<in> ext_values e obj) vs (i_props ix)" for vs obj
    using p'(2) values_ok [OF that] list_all2_lengthD [OF that] len by simp
  have "k \<in> set (t_store t) \<longleftrightarrow> (\<exists>i obj vs. objs i = Some obj \<and> includeObj ix (Some obj) \<and>
      list_all2 (\<lambda>v e. v \<in> ext_values e obj) vs (i_props ix) \<and> k = vals_key (i_id ix # vs))" for k
  proof -
    have "k \<in> set (t_store t) \<longleftrightarrow> (\<exists>i. k \<in> index_keys ix (objs i))" using c by (auto simp: consistent_def)
    also have "\<dots> \<longleftrightarrow> (\<exists>i obj. objs i = Some obj \<and> k \<in> index_keys ix (Some obj))"
      by (metis empty_iff index_keys_None not_None_eq)
    also have "\<dots> \<longleftrightarrow> (\<exists>i obj. objs i = Some obj \<and> includeObj ix (Some obj) \<and> k \<in> index_keys ix (Some obj))"
      by (auto simp: index_keys_def split: if_splits)
    also have "\<dots> \<longleftrightarrow> (\<exists>i obj vs. objs i = Some obj \<and> includeObj ix (Some obj) \<and>
        list_all2 (\<lambda>v e. v \<in> ext_values e obj) vs (i_props ix) \<and> k = vals_key (i_id ix # vs))"
      using index_keys_values [OF ix(1)] c by (fastforce simp: consistent_def has_id_def)
    finally show ?thesis .
  qed
  then show ?thesis using p'(1) key by (intro exI [of _ p']) fastforce
qed

text \<open>
  C3. End to end: of the keys that an index stores after any history of puts, deletions and purges,
  the ranges of the plan contain exactly those that the selected combinations of values of the stored
  objects make, and none of an object that does not match.
\<close>

theorem index_query_complete:
  assumes ix: "index_ok ix" "index_wf ix" and r: "index_reach ix objs t" and can: "canAnswer ix q" and q: "query_ok q"
  shows "\<exists>p'. plan_init lib q (index_plan ix) p = Inr p' \<and>
    {k \<in> set (t_store t). covers (p_ranges p') k} =
    {vals_key (i_id ix # vs) | vs i obj. objs i = Some obj \<and> includeObj ix (Some obj) \<and>
       list_all2 (\<lambda>v e. v \<in> ext_values e obj) vs (i_props ix) \<and> selects ix q vs \<and> page_in q (vals_key (i_id ix # vs))}"
  by (rule index_answer) fact+

theorem index_query_complete_witness:
  "\<exists>p'. plan_init icu_ex query_ex (index_plan index_ex) (plan_ex False) = Inr p' \<and>
    {k \<in> set (t_store (txn_ex\<lparr>t_store := [[11, 3, 4, 97, 0, 11, 1]]\<rparr>)). covers (p_ranges p') k} =
    {vals_key (i_id index_ex # vs) | vs i obj. ((\<lambda>_. None)(OInt 1 \<mapsto> obj_ex 1 ''a'')) i = Some obj \<and>
       includeObj index_ex (Some obj) \<and> list_all2 (\<lambda>v e. v \<in> ext_values e obj) vs (i_props index_ex) \<and>
       selects index_ex query_ex vs \<and> page_in query_ex (vals_key (i_id index_ex # vs))}"
  by (rule index_query_complete [OF index_ex_ok index_ex_wf reach_ex query_ex_ok(2,1)])

end
