(* ===== verification/LevelTxn.thy ===== *)
theory LevelTxn
  imports DbPlan
begin

text \<open>
  A transaction on one LevelDB table: the pending values and deletes
  (\<^verbatim>\<open>src/db-engine/leveldb/MojDbLevelTxn.cpp\<close>), the iterator that merges them with the iterator of
  the database (\<^verbatim>\<open>MojDbLevelTxnIterator.cpp\<close>, \<^verbatim>\<open>MojDbLevelIterator.cpp\<close>,
  \<^verbatim>\<open>MojDbLevelContainerIterator.cpp\<close>), and the cursor on top (\<^verbatim>\<open>MojDbLevelCursor.cpp\<close>). LevelDB itself is a
  parameter: the record \<open>ldb\<close> holds the operations of its iterators, \<open>'it\<close> is their type.
\<close>

section \<open>The iterator of the database\<close>

record 'it ldb =
  ldb_first :: 'it
  ldb_last :: 'it
  ldb_seek :: "dbkey \<Rightarrow> 'it"
  ldb_next :: "'it \<Rightarrow> 'it"
  ldb_prev :: "'it \<Rightarrow> 'it"
  ldb_valid :: "'it \<Rightarrow> bool"
  ldb_key :: "'it \<Rightarrow> dbkey"
  ldb_value :: "'it \<Rightarrow> byte list"

text \<open>\<^verbatim>\<open>MojDbLevelIterator\<close>: an iterator with the two tails of the sequence as positions of their own.\<close>

record 'it level_it =
  li_it :: 'it
  li_start :: bool
  li_end :: bool

definition li_isValid :: "'it level_it \<Rightarrow> bool" where
  "li_isValid i \<longleftrightarrow> \<not> (li_start i \<or> li_end i)"

definition li_toFirst :: "'it ldb \<Rightarrow> 'it level_it" where
  "li_toFirst ldb = \<lparr>li_it = ldb_first ldb, li_start = False, li_end = \<not> ldb_valid ldb (ldb_first ldb)\<rparr>"

definition li_toLast :: "'it ldb \<Rightarrow> 'it level_it" where
  "li_toLast ldb = \<lparr>li_it = ldb_last ldb, li_start = \<not> ldb_valid ldb (ldb_last ldb), li_end = False\<rparr>"

definition li_seek :: "'it ldb \<Rightarrow> dbkey \<Rightarrow> 'it level_it" where
  "li_seek ldb key = \<lparr>li_it = ldb_seek ldb key, li_start = False, li_end = \<not> ldb_valid ldb (ldb_seek ldb key)\<rparr>"

definition li_next :: "'it ldb \<Rightarrow> 'it level_it \<Rightarrow> 'it level_it res" where
  "li_next ldb i =
     (if li_end i then Inl MojAssertFailed
      else if li_start i then Inr (li_toFirst ldb)
      else if ldb_valid ldb (li_it i) then
        (let it' = ldb_next ldb (li_it i) in Inr (i\<lparr>li_it := it', li_end := \<not> ldb_valid ldb it'\<rparr>))
      else Inr (i\<lparr>li_end := True\<rparr>))"

definition li_prev :: "'it ldb \<Rightarrow> 'it level_it \<Rightarrow> 'it level_it res" where
  "li_prev ldb i =
     (if li_start i then Inl MojAssertFailed
      else if li_end i then Inr (li_toLast ldb)
      else if ldb_valid ldb (li_it i) then
        (let it' = ldb_prev ldb (li_it i) in Inr (i\<lparr>li_it := it', li_start := \<not> ldb_valid ldb it'\<rparr>))
      else Inr (i\<lparr>li_start := True\<rparr>))"

section \<open>The iterator of the pending values\<close>

type_synonym pending = "(dbkey \<times> byte list) list"

text \<open>
  \<^verbatim>\<open>std::map\<close> as its entries in order. An iterator into it stays valid while other entries come and
  go, so it is the key it points at; \<open>None\<close> is the end.
\<close>

definition map_begin :: "pending \<Rightarrow> dbkey option" where
  "map_begin m = (case m of [] \<Rightarrow> None | e # _ \<Rightarrow> Some (fst e))"

definition map_after :: "dbkey \<Rightarrow> pending \<Rightarrow> dbkey option" where
  "map_after key m = map_begin (filter (\<lambda>e. bcmp (fst e) key > 0) m)"

definition map_lower_bound :: "dbkey \<Rightarrow> pending \<Rightarrow> dbkey option" where
  "map_lower_bound key m = map_begin (filter (\<lambda>e. bcmp (fst e) key \<ge> 0) m)"

definition map_before :: "dbkey option \<Rightarrow> pending \<Rightarrow> dbkey option" where
  "map_before pos m =
     map_begin (rev (case pos of None \<Rightarrow> m | Some key \<Rightarrow> filter (\<lambda>e. bcmp (fst e) key < 0) m))"

text \<open>\<^verbatim>\<open>MojDbLevelContainerIterator\<close>\<close>

record cont_it =
  ci_it :: "dbkey option"
  ci_start :: bool

definition ci_isEnd :: "cont_it \<Rightarrow> bool" where
  "ci_isEnd i \<longleftrightarrow> \<not> ci_start i \<and> ci_it i = None"

definition ci_isValid :: "cont_it \<Rightarrow> bool" where
  "ci_isValid i \<longleftrightarrow> \<not> (ci_start i \<or> ci_isEnd i)"

definition ci_toFirst :: "pending \<Rightarrow> cont_it" where
  "ci_toFirst m = \<lparr>ci_it = map_begin m, ci_start = False\<rparr>"

definition ci_toLast :: "pending \<Rightarrow> cont_it \<Rightarrow> cont_it" where
  "ci_toLast m i =
     (if m = [] then i\<lparr>ci_start := True\<rparr> else \<lparr>ci_it = map_before None m, ci_start = False\<rparr>)"

definition ci_next :: "pending \<Rightarrow> cont_it \<Rightarrow> cont_it res" where
  "ci_next m i =
     (if ci_isEnd i then Inl MojAssertFailed
      else if ci_start i then Inr (ci_toFirst m)
      else Inr (i\<lparr>ci_it := map_after (the (ci_it i)) m\<rparr>))"

definition ci_prev :: "pending \<Rightarrow> cont_it \<Rightarrow> cont_it res" where
  "ci_prev m i =
     (if ci_start i then Inl MojAssertFailed
      else if ci_it i = map_begin m then Inr (i\<lparr>ci_start := True\<rparr>)
      else Inr (i\<lparr>ci_it := map_before (ci_it i) m\<rparr>))"

section \<open>The merging iterator\<close>

record 'it txn_iter =
  ti_fwd :: bool
  ti_invalid :: bool
  ti_it :: "'it level_it"
  ti_ins :: cont_it

text \<open>\<^verbatim>\<open>MojDbLevelTableTxn\<close>: what is pending, and the iterators that are to be told.\<close>

record 'it table_txn =
  tt_values :: pending
  tt_deletes :: "dbkey list"
  tt_iters :: "'it txn_iter list"

datatype order = LT | EQ | GT

definition it_compare :: "'it ldb \<Rightarrow> 'it level_it \<Rightarrow> cont_it \<Rightarrow> order" where
  "it_compare ldb x y =
     (if (li_start x \<and> ci_start y) \<or> (li_end x \<and> ci_isEnd y) then EQ
      else if li_start x \<or> ci_isEnd y then LT
      else if li_end x \<or> ci_start y then GT
      else let r = bcmp (ldb_key ldb (li_it x)) (the (ci_it y)) in
        if r < 0 then LT else if r > 0 then GT else EQ)"

definition isDeleted :: "dbkey \<Rightarrow> 'it table_txn \<Rightarrow> bool" where
  "isDeleted key t = set_contains bcmp key (tt_deletes t)"

text \<open>
  \<^verbatim>\<open>skipDeleted\<close>: each turn of the loop meets another deleted key, so that one turn per deleted key is
  enough fuel.
\<close>

fun skip_loop :: "'it ldb \<Rightarrow> 'it table_txn \<Rightarrow> bool \<Rightarrow> nat \<Rightarrow> 'it level_it \<Rightarrow> 'it level_it res" where
  "skip_loop ldb t fwd 0 i = Inr i"
| "skip_loop ldb t fwd (Suc n) i =
     (if fwd then
        (if \<not> li_end i \<and> isDeleted (ldb_key ldb (li_it i)) t
         then rbind (li_next ldb i) (skip_loop ldb t fwd n) else Inr i)
      else
        (if \<not> li_start i \<and> isDeleted (ldb_key ldb (li_it i)) t
         then rbind (li_prev ldb i) (skip_loop ldb t fwd n) else Inr i))"

definition skipDeleted :: "'it ldb \<Rightarrow> 'it table_txn \<Rightarrow> 'it txn_iter \<Rightarrow> 'it txn_iter res" where
  "skipDeleted ldb t it =
     rbind (skip_loop ldb t (ti_fwd it) (length (tt_deletes t)) (ti_it it)) (\<lambda>i. Inr (it\<lparr>ti_it := i\<rparr>))"

definition ti_isBegin :: "'it txn_iter \<Rightarrow> bool" where
  "ti_isBegin it \<longleftrightarrow> li_start (ti_it it) \<and> ci_start (ti_ins it)"

definition ti_isEnd :: "'it txn_iter \<Rightarrow> bool" where
  "ti_isEnd it \<longleftrightarrow> li_end (ti_it it) \<and> ci_isEnd (ti_ins it)"

definition ti_isValid :: "'it txn_iter \<Rightarrow> bool" where
  "ti_isValid it \<longleftrightarrow> \<not> ti_invalid it \<and> (li_isValid (ti_it it) \<or> ci_isValid (ti_ins it))"

definition inTransaction :: "'it ldb \<Rightarrow> 'it txn_iter \<Rightarrow> bool" where
  "inTransaction ldb it =
     (case it_compare ldb (ti_it it) (ti_ins it) of LT \<Rightarrow> \<not> ti_fwd it | GT \<Rightarrow> ti_fwd it | EQ \<Rightarrow> True)"

definition getKey :: "'it ldb \<Rightarrow> 'it txn_iter \<Rightarrow> dbkey" where
  "getKey ldb it =
     (if inTransaction ldb it then the (ci_it (ti_ins it)) else ldb_key ldb (li_it (ti_it it)))"

definition getValue :: "'it ldb \<Rightarrow> 'it table_txn \<Rightarrow> 'it txn_iter \<Rightarrow> byte list" where
  "getValue ldb t it =
     (if inTransaction ldb it then the (map_get bcmp (the (ci_it (ti_ins it))) (tt_values t))
      else ldb_value ldb (li_it (ti_it it)))"

definition keyStartsWith :: "'it ldb \<Rightarrow> dbkey \<Rightarrow> 'it txn_iter \<Rightarrow> bool" where
  "keyStartsWith ldb key it = prefixOf key (getKey ldb it)"

text \<open>The moves of both iterators: \<open>it_next\<close> of the database's is always followed by the skip.\<close>

abbreviation it_next :: "'it ldb \<Rightarrow> 'it table_txn \<Rightarrow> 'it txn_iter \<Rightarrow> 'it txn_iter res" where
  "it_next ldb t it \<equiv> rbind (li_next ldb (ti_it it)) (\<lambda>i. skipDeleted ldb t (it\<lparr>ti_it := i\<rparr>))"

abbreviation it_prev :: "'it ldb \<Rightarrow> 'it table_txn \<Rightarrow> 'it txn_iter \<Rightarrow> 'it txn_iter res" where
  "it_prev ldb t it \<equiv> rbind (li_prev ldb (ti_it it)) (\<lambda>i. skipDeleted ldb t (it\<lparr>ti_it := i\<rparr>))"

abbreviation ins_next :: "'it table_txn \<Rightarrow> 'it txn_iter \<Rightarrow> 'it txn_iter res" where
  "ins_next t it \<equiv> rbind (ci_next (tt_values t) (ti_ins it)) (\<lambda>i. Inr (it\<lparr>ti_ins := i\<rparr>))"

abbreviation ins_prev :: "'it table_txn \<Rightarrow> 'it txn_iter \<Rightarrow> 'it txn_iter res" where
  "ins_prev t it \<equiv> rbind (ci_prev (tt_values t) (ti_ins it)) (\<lambda>i. Inr (it\<lparr>ti_ins := i\<rparr>))"

definition ti_first :: "'it ldb \<Rightarrow> 'it table_txn \<Rightarrow> 'it txn_iter res" where
  "ti_first ldb t =
     skipDeleted ldb t \<lparr>ti_fwd = True, ti_invalid = False, ti_it = li_toFirst ldb, ti_ins = ci_toFirst (tt_values t)\<rparr>"

definition ti_last :: "'it ldb \<Rightarrow> 'it table_txn \<Rightarrow> 'it txn_iter \<Rightarrow> 'it txn_iter res" where
  "ti_last ldb t it =
     skipDeleted ldb t \<lparr>ti_fwd = False, ti_invalid = False, ti_it = li_toLast ldb,
       ti_ins = ci_toLast (tt_values t) (ti_ins it)\<rparr>"

definition ti_seek :: "'it ldb \<Rightarrow> 'it table_txn \<Rightarrow> dbkey \<Rightarrow> 'it txn_iter res" where
  "ti_seek ldb t key =
     skipDeleted ldb t \<lparr>ti_fwd = True, ti_invalid = False, ti_it = li_seek ldb key,
       ti_ins = \<lparr>ci_it = map_lower_bound key (tt_values t), ci_start = False\<rparr>\<rparr>"

text \<open>The last part of \<^verbatim>\<open>next\<close> and \<^verbatim>\<open>prev\<close>: the smaller (greater) of the two moves, or both.\<close>

definition next_step :: "'it ldb \<Rightarrow> 'it table_txn \<Rightarrow> 'it txn_iter \<Rightarrow> 'it txn_iter res" where
  "next_step ldb t it =
     (if ci_isEnd (ti_ins it) then it_next ldb t it
      else if li_end (ti_it it) then ins_next t it
      else if li_start (ti_it it) \<or> ci_start (ti_ins it) then Inl MojAssertFailed
      else
        let r = bcmp (ldb_key ldb (li_it (ti_it it))) (the (ci_it (ti_ins it))) in
        if r < 0 then it_next ldb t it
        else if r = 0 then rbind (ins_next t it) (it_next ldb t)
        else ins_next t it)"

definition prev_step :: "'it ldb \<Rightarrow> 'it table_txn \<Rightarrow> 'it txn_iter \<Rightarrow> 'it txn_iter res" where
  "prev_step ldb t it =
     (if ci_start (ti_ins it) then it_prev ldb t it
      else if li_start (ti_it it) then ins_prev t it
      else if li_end (ti_it it) \<or> ci_isEnd (ti_ins it) then Inl MojAssertFailed
      else
        let r = bcmp (ldb_key ldb (li_it (ti_it it))) (the (ci_it (ti_ins it))) in
        if r > 0 then it_prev ldb t it
        else if r = 0 then rbind (ins_prev t it) (it_prev ldb t)
        else ins_prev t it)"

text \<open>A change of direction: the iterator that stands behind comes back to the front of the current key.\<close>

definition turn_back :: "'it ldb \<Rightarrow> 'it table_txn \<Rightarrow> 'it txn_iter \<Rightarrow> 'it txn_iter res" where
  "turn_back ldb t it0 =
     (let currentKey = getKey ldb it0; it = it0\<lparr>ti_fwd := False, ti_invalid := False\<rparr> in
      rbind (if li_end (ti_it it) then it_prev ldb t it
             else if ci_isEnd (ti_ins it) then ins_prev t it
             else if bcmp currentKey (getKey ldb it) < 0 then
               (if ti_isBegin it then Inl MojAssertFailed
                else if ti_isEnd it then ti_last ldb t it else prev_step ldb t it)
             else Inr it) (\<lambda>it'.
        if getKey ldb it' = currentKey then Inr it' else Inl MojAssertFailed))"

definition turn_forward :: "'it ldb \<Rightarrow> 'it table_txn \<Rightarrow> 'it txn_iter \<Rightarrow> 'it txn_iter res" where
  "turn_forward ldb t it0 =
     (let currentKey = getKey ldb it0; it = it0\<lparr>ti_fwd := True, ti_invalid := False\<rparr> in
      rbind (if li_start (ti_it it) then it_next ldb t it
             else if ci_start (ti_ins it) then ins_next t it
             else if bcmp (getKey ldb it) currentKey < 0 then
               (if ti_isEnd it then Inl MojAssertFailed
                else if ti_isBegin it then ti_first ldb t else next_step ldb t it)
             else Inr it) (\<lambda>it'.
        if getKey ldb it' = currentKey then Inr it' else Inl MojAssertFailed))"

definition ti_prev :: "'it ldb \<Rightarrow> 'it table_txn \<Rightarrow> 'it txn_iter \<Rightarrow> 'it txn_iter res" where
  "ti_prev ldb t it =
     (if ti_isBegin it then Inl MojAssertFailed
      else if ti_isEnd it then ti_last ldb t it
      else if ti_fwd it then rbind (turn_back ldb t it) (prev_step ldb t)
      else if ti_invalid it then Inr (it\<lparr>ti_invalid := False\<rparr>)
      else prev_step ldb t it)"

definition ti_next :: "'it ldb \<Rightarrow> 'it table_txn \<Rightarrow> 'it txn_iter \<Rightarrow> 'it txn_iter res" where
  "ti_next ldb t it =
     (if ti_isEnd it then Inl MojAssertFailed
      else if ti_isBegin it then ti_first ldb t
      else if \<not> ti_fwd it then
        rbind (turn_forward ldb t it) (\<lambda>it'. next_step ldb t (it'\<lparr>ti_invalid := False\<rparr>))
      else if ti_invalid it then Inr (it\<lparr>ti_invalid := False\<rparr>)
      else next_step ldb t it)"

text \<open>What the iterator does when a value is put or deleted.\<close>

definition notifyPut :: "'it ldb \<Rightarrow> 'it table_txn \<Rightarrow> dbkey \<Rightarrow> 'it txn_iter \<Rightarrow> 'it txn_iter res" where
  "notifyPut ldb t key it =
     (let dbKey = ldb_key ldb (li_it (ti_it it)); txnKey = the (ci_it (ti_ins it));
          keyLtDb = (\<not> li_start (ti_it it) \<and> (li_end (ti_it it) \<or> bcmp key dbKey < 0));
          keyEqDb = (\<not> li_start (ti_it it) \<and> \<not> li_end (ti_it it) \<and> bcmp key dbKey = 0);
          keyLtTxn = (\<not> ci_start (ti_ins it) \<and> (ci_isEnd (ti_ins it) \<or> bcmp key txnKey < 0));
          keyEqTxn = (\<not> ci_start (ti_ins it) \<and> \<not> ci_isEnd (ti_ins it) \<and> bcmp key txnKey = 0)
      in
      if ti_fwd it then (if keyLtDb \<or> \<not> keyLtTxn then Inr it else ins_prev t it)
      else (if keyLtTxn \<or> keyEqTxn \<or> (\<not> keyLtDb \<and> \<not> keyEqDb) then Inr it else ins_next t it))"

definition notifyDelete :: "'it ldb \<Rightarrow> 'it table_txn \<Rightarrow> dbkey \<Rightarrow> 'it txn_iter \<Rightarrow> 'it txn_iter res" where
  "notifyDelete ldb t key it =
     (if \<not> ci_isValid (ti_ins it) then Inr it
      else if the (ci_it (ti_ins it)) \<noteq> key then Inr it
      else
        rbind
          (if ti_fwd it then
             (if ti_isBegin it then Inl MojAssertFailed
              else if it_compare ldb (ti_it it) (ti_ins it) = EQ then rbind (it_next ldb t it) (ins_next t)
              else ins_next t it)
           else
             (if ti_isEnd it then Inl MojAssertFailed
              else if it_compare ldb (ti_it it) (ti_ins it) = EQ then rbind (it_prev ldb t it) (ins_prev t)
              else ins_prev t it))
          (\<lambda>it'. Inr (it'\<lparr>ti_invalid := True\<rparr>)))"

section \<open>The transaction\<close>

fun map_res :: "('a \<Rightarrow> 'b res) \<Rightarrow> 'a list \<Rightarrow> 'b list res" where
  "map_res f [] = Inr []"
| "map_res f (x # xs) = rbind (f x) (\<lambda>y. rbind (map_res f xs) (\<lambda>ys. Inr (y # ys)))"

definition tt_Put :: "'it ldb \<Rightarrow> dbkey \<Rightarrow> byte list \<Rightarrow> 'it table_txn \<Rightarrow> 'it table_txn res" where
  "tt_Put ldb key val t =
     (let t' = t\<lparr>tt_values := map_put bcmp key val (tt_values t), tt_deletes := set_del bcmp key (tt_deletes t)\<rparr> in
      rbind (map_res (notifyPut ldb t' key) (tt_iters t')) (\<lambda>its. Inr (t'\<lparr>tt_iters := its\<rparr>)))"

definition tt_Delete :: "'it ldb \<Rightarrow> dbkey \<Rightarrow> 'it table_txn \<Rightarrow> 'it table_txn res" where
  "tt_Delete ldb key t =
     rbind (map_res (notifyDelete ldb t key) (tt_iters t)) (\<lambda>its.
       Inr (t\<lparr>tt_iters := its, tt_deletes := set_put bcmp key (tt_deletes t),
              tt_values := map_del bcmp key (tt_values t)\<rparr>))"

text \<open>\<open>dbGet\<close> is the \<^verbatim>\<open>Get\<close> of the database.\<close>

definition tt_Get :: "(dbkey \<Rightarrow> byte list option) \<Rightarrow> dbkey \<Rightarrow> 'it table_txn \<Rightarrow> byte list option" where
  "tt_Get dbGet key t =
     (if isDeleted key t then None
      else case map_get bcmp key (tt_values t) of Some val \<Rightarrow> Some val | None \<Rightarrow> dbGet key)"

text \<open>The batch that \<^verbatim>\<open>commitImpl\<close> writes, and what writing it does to the database.\<close>

datatype batch_op = BatchDelete dbkey | BatchPut dbkey "byte list"

definition commit_batch :: "'it table_txn \<Rightarrow> batch_op list" where
  "commit_batch t = map BatchDelete (tt_deletes t) @ map (\<lambda>(k, v). BatchPut k v) (tt_values t)"

fun batch_write :: "(dbkey \<Rightarrow> byte list option) \<Rightarrow> batch_op \<Rightarrow> (dbkey \<Rightarrow> byte list option)" where
  "batch_write db (BatchDelete k) = db(k := None)"
| "batch_write db (BatchPut k v) = db(k := Some v)"

text \<open>\<^verbatim>\<open>cleanup\<close> forgets what is pending and detaches the iterators.\<close>

definition tt_cleanup :: "'it table_txn \<Rightarrow> 'it table_txn" where
  "tt_cleanup t = \<lparr>tt_values = [], tt_deletes = [], tt_iters = []\<rparr>"

text \<open>\<open>status\<close> is what the database answers to the write.\<close>

definition commitImpl ::
  "MojErr option \<Rightarrow> (dbkey \<Rightarrow> byte list option) \<Rightarrow> 'it table_txn \<Rightarrow> ((dbkey \<Rightarrow> byte list option) \<times> 'it table_txn) res" where
  "commitImpl status db t =
     (case status of Some e \<Rightarrow> Inl e | None \<Rightarrow> Inr (foldl batch_write db (commit_batch t), tt_cleanup t))"

end
