(* ===== verification/LevelIter.thy ===== *)
theory LevelIter
  imports LevelTxn DbIndexOk
begin

text \<open>
  The merging iterator is a cursor on the transaction's view of the table: what LevelDB is relied on
  for, the position an iterator stands for, and how the moves, a put and a delete change it. Both
  directions are mirror images, so that the lemmas are stated once, with the direction as a variable.
\<close>

section \<open>Positions\<close>

datatype pos = PBegin | PKey dbkey | PEnd

definition dle :: "bool \<Rightarrow> dbkey \<Rightarrow> dbkey \<Rightarrow> bool" where
  "dle fwd x y = (if fwd then kle x y else kle y x)"

abbreviation dlt :: "bool \<Rightarrow> dbkey \<Rightarrow> dbkey \<Rightarrow> bool" where
  "dlt fwd x y \<equiv> \<not> dle fwd y x"

definition tail :: "bool \<Rightarrow> pos" where
  "tail fwd = (if fwd then PEnd else PBegin)"

text \<open>The first key of a set in a direction, or the tail.\<close>

definition nearest :: "bool \<Rightarrow> dbkey set \<Rightarrow> pos \<Rightarrow> bool" where
  "nearest fwd S p \<longleftrightarrow> S = {} \<and> p = tail fwd \<or> (\<exists>m \<in> S. p = PKey m \<and> (\<forall>x \<in> S. dle fwd m x))"

lemma kle_antisym: "kle x y \<Longrightarrow> kle y x \<Longrightarrow> x = y"
  using bcmp_kle(2) [of x y] bcmp_eq [of x y] by (simp add: kle_def)

lemma dle_refl [simp]: "dle fwd x x"
  by (simp add: dle_def)

lemma dle_trans: "dle fwd x y \<Longrightarrow> dle fwd y z \<Longrightarrow> dle fwd x z"
  by (auto simp: dle_def intro: kle_trans split: if_splits)

lemma dle_total: "dle fwd x y \<or> dle fwd y x"
  using kle_total by (auto simp: dle_def)

lemma dle_antisym: "dle fwd x y \<Longrightarrow> dle fwd y x \<Longrightarrow> x = y"
  by (auto simp: dle_def intro: kle_antisym split: if_splits)

lemma dle_not [simp]: "dle (\<not> fwd) x y = dle fwd y x"
  by (simp add: dle_def)

lemma tail_simps [simp]: "tail True = PEnd" "tail False = PBegin" "tail fwd \<noteq> PKey k" "PKey k \<noteq> tail fwd" "tail (\<not> fwd) \<noteq> tail fwd"
  by (auto simp: tail_def)

lemma dlt_trans: "dlt fwd x y \<Longrightarrow> dle fwd y z \<Longrightarrow> dlt fwd x z" "dle fwd x y \<Longrightarrow> dlt fwd y z \<Longrightarrow> dlt fwd x z"
  using dle_trans by blast+

lemma dlt_dle: "dlt fwd x y \<Longrightarrow> dle fwd x y"
  using dle_total by blast

lemma dle_cases: "dle fwd x y \<longleftrightarrow> x = y \<or> dlt fwd x y"
  using dle_total dle_antisym by (metis dle_refl)

lemma nearest_cong: "nearest fwd S p \<Longrightarrow> S = T \<Longrightarrow> nearest fwd T p"
  by simp

lemma nearest_unique: "nearest fwd S p \<Longrightarrow> nearest fwd S q \<Longrightarrow> p = q"
  by (auto simp: nearest_def intro: dle_antisym)

section \<open>What LevelDB is relied on for\<close>

text \<open>
  The iterator walks the keys of a snapshot \<open>db\<close> in order, \<^verbatim>\<open>Seek\<close> stops at the first key that is not
  smaller, \<^verbatim>\<open>Next\<close> and \<^verbatim>\<open>Prev\<close> are only used on a valid iterator.
\<close>

definition ldb_pos :: "'it ldb \<Rightarrow> bool \<Rightarrow> 'it \<Rightarrow> pos" where
  "ldb_pos ldb fwd it = (if ldb_valid ldb it then PKey (ldb_key ldb it) else tail fwd)"

definition ldb_ok :: "'it ldb \<Rightarrow> (dbkey \<Rightarrow> byte list option) \<Rightarrow> bool" where
  "ldb_ok ldb db \<longleftrightarrow>
     nearest True (dom db) (ldb_pos ldb True (ldb_first ldb)) \<and>
     nearest False (dom db) (ldb_pos ldb False (ldb_last ldb)) \<and>
     (\<forall>key. nearest True {x \<in> dom db. kle key x} (ldb_pos ldb True (ldb_seek ldb key))) \<and>
     (\<forall>it. ldb_valid ldb it \<longrightarrow> db (ldb_key ldb it) = Some (ldb_value ldb it) \<and>
        nearest True {x \<in> dom db. \<not> kle x (ldb_key ldb it)} (ldb_pos ldb True (ldb_next ldb it)) \<and>
        nearest False {x \<in> dom db. \<not> kle (ldb_key ldb it) x} (ldb_pos ldb False (ldb_prev ldb it)))"

section \<open>The position of each iterator\<close>

fun li_at :: "'it ldb \<Rightarrow> 'it level_it \<Rightarrow> pos \<Rightarrow> bool" where
  "li_at ldb i PBegin \<longleftrightarrow> li_start i \<and> \<not> li_end i"
| "li_at ldb i PEnd \<longleftrightarrow> \<not> li_start i \<and> li_end i"
| "li_at ldb i (PKey k) \<longleftrightarrow> \<not> li_start i \<and> \<not> li_end i \<and> ldb_valid ldb (li_it i) \<and> ldb_key ldb (li_it i) = k"

fun ci_at :: "cont_it \<Rightarrow> pos \<Rightarrow> bool" where
  "ci_at i PBegin \<longleftrightarrow> ci_start i"
| "ci_at i PEnd \<longleftrightarrow> \<not> ci_start i \<and> ci_it i = None"
| "ci_at i (PKey k) \<longleftrightarrow> \<not> ci_start i \<and> ci_it i = Some k"

definition li_step :: "'it ldb \<Rightarrow> bool \<Rightarrow> 'it level_it \<Rightarrow> 'it level_it res" where
  "li_step ldb fwd = (if fwd then li_next ldb else li_prev ldb)"

definition ci_step :: "pending \<Rightarrow> bool \<Rightarrow> cont_it \<Rightarrow> cont_it res" where
  "ci_step m fwd = (if fwd then ci_next m else ci_prev m)"

text \<open>What lies behind a position in a direction.\<close>

fun behind :: "bool \<Rightarrow> pos \<Rightarrow> dbkey \<Rightarrow> bool" where
  "behind fwd (PKey k) x = dlt fwd k x"
| "behind fwd _ x = True"

lemma li_step_ok:
  assumes "ldb_ok ldb db" "li_at ldb i p" "p \<noteq> tail fwd"
  shows "\<exists>i' q. li_step ldb fwd i = Inr i' \<and> li_at ldb i' q \<and> nearest fwd {x \<in> dom db. behind fwd p x} q"
proof -
  have v: "li_at ldb \<lparr>li_it = it, li_start = False, li_end = \<not> ldb_valid ldb it\<rparr> (ldb_pos ldb True it)"
    "li_at ldb \<lparr>li_it = it, li_start = \<not> ldb_valid ldb it, li_end = False\<rparr> (ldb_pos ldb False it)" for it
    by (simp_all add: ldb_pos_def)
  obtain it s e where i: "i = \<lparr>li_it = it, li_start = s, li_end = e\<rparr>" by (cases i) auto
  show ?thesis
  proof (cases p)
    case (PKey k)
    then have k: "i = \<lparr>li_it = it, li_start = False, li_end = False\<rparr>" "ldb_valid ldb it" "ldb_key ldb it = k"
      using assms(2) i by simp_all
    then have "nearest True {x \<in> dom db. \<not> kle x k} (ldb_pos ldb True (ldb_next ldb it))"
      "nearest False {x \<in> dom db. \<not> kle k x} (ldb_pos ldb False (ldb_prev ldb it))"
      using assms(1) by (auto simp: ldb_ok_def)
    then show ?thesis
      using PKey k v [of "ldb_next ldb it"] v [of "ldb_prev ldb it"]
      by (cases fwd) (auto simp: li_step_def li_next_def li_prev_def dle_def Let_def)
  next
    case PBegin
    then have fwd: "fwd" using assms(3) by (cases fwd) simp_all
    have "nearest True (dom db) (ldb_pos ldb True (ldb_first ldb))" using assms(1) by (simp add: ldb_ok_def)
    then show ?thesis
      using PBegin fwd assms(2) v(1) [of "ldb_first ldb"] by (auto simp: li_step_def li_next_def li_toFirst_def)
  next
    case PEnd
    then have fwd: "\<not> fwd" using assms(3) by (cases fwd) simp_all
    have "nearest False (dom db) (ldb_pos ldb False (ldb_last ldb))" using assms(1) by (simp add: ldb_ok_def)
    then show ?thesis
      using PEnd fwd assms(2) v(2) [of "ldb_last ldb"] by (auto simp: li_step_def li_prev_def li_toLast_def)
  qed
qed

section \<open>The pending values\<close>

definition pend :: "pending \<Rightarrow> dbkey set" where
  "pend m = fst ` set m"

lemma bcmp_zero [simp]: "bcmp x y = 0 \<longleftrightarrow> x = y"
  using bcmp_kle [of x y] kle_antisym by (metis kle_refl order_antisym not_less order_refl)

lemma sorted_pending_Cons:
  "sorted_keys bcmp ((k, v) # m) \<longleftrightarrow> (\<forall>x \<in> pend m. dlt True k x) \<and> sorted_keys bcmp m"
  by (auto simp: pend_def dle_def bcmp_kle)

lemma map_begin_nearest:
  assumes "sorted_keys bcmp m"
  shows "nearest True (pend m) (case map_begin m of None \<Rightarrow> PEnd | Some k \<Rightarrow> PKey k)"
proof (cases m)
  case (Cons e m')
  then show ?thesis
    using assms dlt_dle [of True]
    by (cases e) (auto simp: nearest_def map_begin_def pend_def sorted_pending_Cons simp del: sorted_keys_simps)
qed (simp add: nearest_def map_begin_def pend_def)

lemma map_rev_nearest:
  assumes "sorted_keys bcmp m"
  shows "nearest False (pend m) (case map_begin (rev m) of None \<Rightarrow> PBegin | Some k \<Rightarrow> PKey k)"
proof (cases m rule: rev_cases)
  case (snoc m' e)
  have "bcmp (fst x) (fst e) < 0" if "x \<in> set m'" for x
    using assms that by (auto simp: snoc sorted_keys_def sorted_wrt_append)
  then have "dle False (fst e) x" if "x \<in> pend m" for x
    using that dlt_dle [of False] by (force simp: pend_def snoc dle_def bcmp_kle)
  then show ?thesis by (auto simp: nearest_def map_begin_def pend_def snoc)
qed (simp add: nearest_def map_begin_def pend_def)

lemma sorted_filter: "sorted_keys bcmp m \<Longrightarrow> sorted_keys bcmp (filter P m)"
  by (simp add: sorted_keys_def sorted_wrt_filter)

lemma pend_filter: "pend (filter (\<lambda>e. P (fst e)) m) = {x \<in> pend m. P x}"
  by (auto simp: pend_def)

lemma map_lookups:
  assumes "sorted_keys bcmp m"
  shows "nearest True {x \<in> pend m. \<not> kle x k} (case map_after k m of None \<Rightarrow> PEnd | Some k \<Rightarrow> PKey k)"
    and "nearest True {x \<in> pend m. kle k x} (case map_lower_bound k m of None \<Rightarrow> PEnd | Some k \<Rightarrow> PKey k)"
    and "nearest False {x \<in> pend m. \<not> kle k x} (case map_before (Some k) m of None \<Rightarrow> PBegin | Some k \<Rightarrow> PKey k)"
    and "nearest False (pend m) (case map_before None m of None \<Rightarrow> PBegin | Some k \<Rightarrow> PKey k)"
proof -
  note b = map_begin_nearest [OF sorted_filter [OF assms]] and r = map_rev_nearest [OF sorted_filter [OF assms]]
  show "nearest True {x \<in> pend m. \<not> kle x k} (case map_after k m of None \<Rightarrow> PEnd | Some k \<Rightarrow> PKey k)"
    using b [of "\<lambda>e. bcmp (fst e) k > 0"] pend_filter [of "\<lambda>x. bcmp x k > 0" m] by (simp add: map_after_def bcmp_kle)
  show "nearest True {x \<in> pend m. kle k x} (case map_lower_bound k m of None \<Rightarrow> PEnd | Some k \<Rightarrow> PKey k)"
    using b [of "\<lambda>e. bcmp (fst e) k \<ge> 0"] pend_filter [of "\<lambda>x. bcmp x k \<ge> 0" m] by (simp add: map_lower_bound_def bcmp_kle)
  show "nearest False {x \<in> pend m. \<not> kle k x} (case map_before (Some k) m of None \<Rightarrow> PBegin | Some k \<Rightarrow> PKey k)"
    using r [of "\<lambda>e. bcmp (fst e) k < 0"] pend_filter [of "\<lambda>x. bcmp x k < 0" m] by (simp add: map_before_def bcmp_kle)
  show "nearest False (pend m) (case map_before None m of None \<Rightarrow> PBegin | Some k \<Rightarrow> PKey k)"
    using map_rev_nearest [OF assms] by (simp add: map_before_def)
qed

lemma ci_step_ok:
  assumes "sorted_keys bcmp m" "ci_at i p" "p \<noteq> tail fwd" "\<And>k. p = PKey k \<Longrightarrow> k \<in> pend m"
  shows "\<exists>i' q. ci_step m fwd i = Inr i' \<and> ci_at i' q \<and> nearest fwd {x \<in> pend m. behind fwd p x} q"
proof -
  note at = map_begin_nearest [OF assms(1)] map_lookups [OF assms(1)]
  have a: "ci_at \<lparr>ci_it = o', ci_start = False\<rparr> (case o' of None \<Rightarrow> PEnd | Some k \<Rightarrow> PKey k)" for o'
    by (simp split: option.split)
  have b: "ci_at \<lparr>ci_it = Some k, ci_start = False\<rparr> (PKey k)" "ci_at \<lparr>ci_it = o', ci_start = True\<rparr> PBegin" for k o'
    by simp_all
  obtain it s where i: "i = \<lparr>ci_it = it, ci_start = s\<rparr>" by (cases i) auto
  consider (fwd) "fwd" | (bwd) "\<not> fwd" by blast
  then show ?thesis
  proof cases
    case fwd
    show ?thesis
    proof (cases p)
      case (PKey k)
      then show ?thesis
        using fwd assms(2) i at(2) [of k] a [of "map_after k m"]
        by (auto simp: ci_step_def ci_next_def ci_isEnd_def dle_def)
    qed (use fwd assms(2,3) i at(1) a [of "map_begin m"] in
        \<open>auto simp: ci_step_def ci_next_def ci_isEnd_def ci_toFirst_def\<close>)
  next
    case bwd
    have empty: "pend m = {} \<longleftrightarrow> map_begin m = None" by (cases m) (simp_all add: pend_def map_begin_def)
    show ?thesis
    proof (cases p)
      case (PKey k)
      have k: "k \<in> pend m" using assms(4) PKey by simp
      show ?thesis
      proof (cases "map_begin m = Some k")
        case True
        then have "{x \<in> pend m. \<not> kle k x} = {}" using at(1) by (auto simp: nearest_def dle_def)
        then show ?thesis
          using True PKey bwd assms(2) i
          by (intro exI [of _ "\<lparr>ci_it = it, ci_start = True\<rparr>"] exI [of _ PBegin])
            (simp add: ci_step_def ci_prev_def nearest_def dle_def)
      next
        case False
        obtain f where f: "map_begin m = Some f" using k empty by (cases "map_begin m") auto
        then have "f \<in> pend m" "kle f k" "f \<noteq> k" using False k at(1) by (auto simp: nearest_def dle_def)
        then have "f \<in> {x \<in> pend m. \<not> kle k x}" using kle_antisym by blast
        then obtain b where "map_before (Some k) m = Some b"
          using at(4) [of k] by (cases "map_before (Some k) m") (auto simp: nearest_def)
        then show ?thesis
          using False PKey bwd assms(2) i at(4) [of k]
          by (intro exI [of _ "\<lparr>ci_it = Some b, ci_start = False\<rparr>"] exI [of _ "PKey b"])
            (simp add: ci_step_def ci_prev_def dle_def)
      qed
    next
      case PEnd
      show ?thesis
      proof (cases "m = []")
        case True
        then show ?thesis
          using PEnd bwd assms(2) i
          by (intro exI [of _ "\<lparr>ci_it = it, ci_start = True\<rparr>"] exI [of _ PBegin])
            (simp add: ci_step_def ci_prev_def nearest_def map_begin_def pend_def)
      next
        case False
        then have ne: "map_begin m \<noteq> None" "pend m \<noteq> {}" by (cases m; simp add: map_begin_def pend_def)+
        then obtain b where "map_before None m = Some b"
          using at(5) by (cases "map_before None m") (auto simp: nearest_def)
        then show ?thesis
          using ne PEnd bwd assms(2) i at(5)
          by (intro exI [of _ "\<lparr>ci_it = Some b, ci_start = False\<rparr>"] exI [of _ "PKey b"])
            (auto simp: ci_step_def ci_prev_def)
      qed
    qed (use bwd assms(2,3) in simp)
  qed
qed

section \<open>Skipping deleted keys\<close>

definition live_keys :: "(dbkey \<Rightarrow> byte list option) \<Rightarrow> 'it table_txn \<Rightarrow> dbkey set" where
  "live_keys db t = {x \<in> dom db. x \<notin> set (tt_deletes t)}"

definition table_ok :: "'it table_txn \<Rightarrow> bool" where
  "table_ok t \<longleftrightarrow> sorted_keys bcmp (tt_values t) \<and> sorted_set (tt_deletes t) \<and>
     pend (tt_values t) \<inter> set (tt_deletes t) = {}"

lemma isDeleted_iff: "isDeleted key t \<longleftrightarrow> key \<in> set (tt_deletes t)"
  by (simp add: isDeleted_def set_contains_def)

lemma skip_loop_ok:
  assumes "ldb_ok ldb db" "li_at ldb i p" "nearest fwd {x \<in> dom db. P x} p"
    and up: "\<And>x y. P x \<Longrightarrow> dle fwd x y \<Longrightarrow> P y"
    and fuel: "card {x \<in> set (tt_deletes t). P x} \<le> n"
  shows "\<exists>i' q. skip_loop ldb t fwd n i = Inr i' \<and> li_at ldb i' q \<and> nearest fwd {x \<in> live_keys db t. P x} q"
  using assms(2-)
proof (induction n arbitrary: i p P)
  case 0
  then have "{x \<in> live_keys db t. P x} = {x \<in> dom db. P x}" by (auto simp: live_keys_def)
  then show ?case using 0 by auto
next
  case (Suc n)
  have stop: ?case if "skip_loop ldb t fwd (Suc n) i = Inr i" "\<And>k. p = PKey k \<Longrightarrow> k \<notin> set (tt_deletes t)"
    using that Suc.prems(1,2) by (intro exI [of _ i] exI [of _ p]) (auto simp: nearest_def live_keys_def)
  show ?case
  proof (cases "\<exists>k. p = PKey k \<and> k \<in> set (tt_deletes t)")
    case False
    then show ?thesis
      using stop Suc.prems(1,2) by (cases p; cases fwd) (auto simp: isDeleted_iff nearest_def)
  next
    case True
    then obtain k where k: "p = PKey k" "k \<in> set (tt_deletes t)" by blast
    then have "P k" "\<And>x. P x \<Longrightarrow> x \<in> dom db \<Longrightarrow> dle fwd k x" using Suc.prems(2) by (auto simp: nearest_def)
    let ?P = "\<lambda>x. dlt fwd k x"
    obtain i' q where i': "li_step ldb fwd i = Inr i'" "li_at ldb i' q" "nearest fwd {x \<in> dom db. ?P x} q"
      using li_step_ok [OF assms(1) Suc.prems(1), of fwd] k by auto
    have sub: "{x \<in> set (tt_deletes t). ?P x} \<subset> {x \<in> set (tt_deletes t). P x}"
    proof (rule psubsetI)
      show "{x \<in> set (tt_deletes t). ?P x} \<subseteq> {x \<in> set (tt_deletes t). P x}"
        using Suc.prems(3) [OF \<open>P k\<close>] dlt_dle by blast
      have "k \<in> {x \<in> set (tt_deletes t). P x}" "k \<notin> {x \<in> set (tt_deletes t). ?P x}" using k \<open>P k\<close> by simp_all
      then show "{x \<in> set (tt_deletes t). ?P x} \<noteq> {x \<in> set (tt_deletes t). P x}" by blast
    qed
    have "card {x \<in> set (tt_deletes t). ?P x} < card {x \<in> set (tt_deletes t). P x}"
      by (rule psubset_card_mono [OF _ sub]) simp
    then have "card {x \<in> set (tt_deletes t). ?P x} \<le> n" using Suc.prems(4) by linarith
    then have "\<exists>i'' q. skip_loop ldb t fwd n i' = Inr i'' \<and> li_at ldb i'' q \<and> nearest fwd {x \<in> live_keys db t. ?P x} q"
      using Suc.IH [OF i'(2,3)] dlt_trans(1) by blast
    moreover have "{x \<in> live_keys db t. ?P x} = {x \<in> live_keys db t. P x}"
    proof -
      have "P x \<Longrightarrow> x \<in> live_keys db t \<Longrightarrow> dlt fwd k x" for x
        using k(2) \<open>\<And>x. P x \<Longrightarrow> x \<in> dom db \<Longrightarrow> dle fwd k x\<close> [of x] dle_antisym [of fwd k x] by (auto simp: live_keys_def)
      then show ?thesis using Suc.prems(3) [OF \<open>P k\<close> dlt_dle] by blast
    qed
    moreover have "skip_loop ldb t fwd (Suc n) i = rbind (li_step ldb fwd i) (skip_loop ldb t fwd n)"
      using Suc.prems(1) k by (simp add: isDeleted_iff li_step_def)
    ultimately show ?thesis using i'(1) by simp
  qed
qed

lemma skipDeleted_ok:
  assumes "ldb_ok ldb db" "li_at ldb (ti_it it) p" "nearest (ti_fwd it) {x \<in> dom db. P x} p"
    and "\<And>x y. P x \<Longrightarrow> dle (ti_fwd it) x y \<Longrightarrow> P y"
  shows "\<exists>i' q. skipDeleted ldb t it = Inr (it\<lparr>ti_it := i'\<rparr>) \<and> li_at ldb i' q \<and> nearest (ti_fwd it) {x \<in> live_keys db t. P x} q"
proof -
  have "card {x \<in> set (tt_deletes t). P x} \<le> card (set (tt_deletes t))" by (intro card_mono) auto
  also have "\<dots> \<le> length (tt_deletes t)" by (rule card_length)
  finally have "card {x \<in> set (tt_deletes t). P x} \<le> length (tt_deletes t)" .
  from skip_loop_ok [OF assms(1-3) _ this] assms(4) show ?thesis by (fastforce simp: skipDeleted_def)
qed

section \<open>Where the merging iterator stands\<close>

text \<open>
  On the key \<open>k\<close> each of the two iterators stands on its first key that is not behind \<open>k\<close>; past the
  last key both stand on the tail.
\<close>

definition on_key :: "'it ldb \<Rightarrow> (dbkey \<Rightarrow> byte list option) \<Rightarrow> bool \<Rightarrow> 'it table_txn \<Rightarrow> dbkey \<Rightarrow> 'it txn_iter \<Rightarrow> bool" where
  "on_key ldb db fwd t k it \<longleftrightarrow> ti_fwd it = fwd \<and> \<not> ti_invalid it \<and> k \<in> live_keys db t \<union> pend (tt_values t) \<and>
     (\<exists>p q. li_at ldb (ti_it it) p \<and> nearest fwd {x \<in> live_keys db t. dle fwd k x} p \<and>
        ci_at (ti_ins it) q \<and> nearest fwd {x \<in> pend (tt_values t). dle fwd k x} q)"

fun stands :: "'it ldb \<Rightarrow> (dbkey \<Rightarrow> byte list option) \<Rightarrow> bool \<Rightarrow> 'it table_txn \<Rightarrow> pos \<Rightarrow> 'it txn_iter \<Rightarrow> bool" where
  "stands ldb db fwd t (PKey k) it = on_key ldb db fwd t k it"
| "stands ldb db fwd t r it \<longleftrightarrow> r = tail fwd \<and> ti_fwd it = fwd \<and> \<not> ti_invalid it \<and>
     li_at ldb (ti_it it) r \<and> ci_at (ti_ins it) r"

definition visible :: "(dbkey \<Rightarrow> byte list option) \<Rightarrow> 'it table_txn \<Rightarrow> dbkey set" where
  "visible db t = live_keys db t \<union> pend (tt_values t)"

text \<open>The two first keys of an upward closed part of the table make the iterator stand on its first key.\<close>

lemma settle:
  assumes "ti_fwd it = fwd" "\<not> ti_invalid it"
    and p: "li_at ldb (ti_it it) p" "nearest fwd {x \<in> live_keys db t. P x} p"
    and q: "ci_at (ti_ins it) q" "nearest fwd {x \<in> pend (tt_values t). P x} q"
    and up: "\<And>x y. P x \<Longrightarrow> dle fwd x y \<Longrightarrow> P y"
  shows "\<exists>r. stands ldb db fwd t r it \<and> nearest fwd {x \<in> visible db t. P x} r"
proof -
  have on: ?thesis if k: "k \<in> visible db t" "P k" "\<And>x. x \<in> visible db t \<Longrightarrow> P x \<Longrightarrow> dle fwd k x" for k
  proof -
    have "{x \<in> S. dle fwd k x} = {x \<in> S. P x}" if "S \<subseteq> visible db t" for S
      using that k up by blast
    then have "on_key ldb db fwd t k it"
      using assms(1,2) p q k(1) by (auto simp: on_key_def visible_def)
    then show ?thesis using k by (intro exI [of _ "PKey k"]) (auto simp: nearest_def)
  qed
  consider (both) a b where "p = PKey a" "q = PKey b" | (left) a where "p = PKey a" "\<And>b. q \<noteq> PKey b"
    | (right) b where "q = PKey b" "\<And>a. p \<noteq> PKey a" | (none) "\<And>a. p \<noteq> PKey a" "\<And>b. q \<noteq> PKey b"
    by metis
  then show ?thesis
  proof cases
    case both
    then have ab: "a \<in> live_keys db t" "P a" "\<And>x. x \<in> live_keys db t \<Longrightarrow> P x \<Longrightarrow> dle fwd a x"
      "b \<in> pend (tt_values t)" "P b" "\<And>x. x \<in> pend (tt_values t) \<Longrightarrow> P x \<Longrightarrow> dle fwd b x"
      using p(2) q(2) by (auto simp: nearest_def)
    from dle_total [of fwd a b] show ?thesis
    proof
      assume "dle fwd a b"
      then show ?thesis using on [of a] ab dle_trans [of fwd a b] by (auto simp: visible_def)
    next
      assume "dle fwd b a"
      then show ?thesis using on [of b] ab dle_trans [of fwd b a] by (auto simp: visible_def)
    qed
  next
    case left
    then show ?thesis using on [of a] p(2) q(2) by (auto simp: visible_def nearest_def)
  next
    case right
    then show ?thesis using on [of b] p(2) q(2) by (auto simp: visible_def nearest_def)
  next
    case none
    then have "p = tail fwd" "q = tail fwd" "{x \<in> visible db t. P x} = {}"
      using p(2) q(2) by (auto simp: nearest_def visible_def)
    then show ?thesis
      using p(1) q(1) assms(1,2) by (intro exI [of _ "tail fwd"]) (cases fwd; auto simp: nearest_def)
  qed
qed

section \<open>Steps\<close>

definition it_step :: "'it ldb \<Rightarrow> 'it table_txn \<Rightarrow> bool \<Rightarrow> 'it txn_iter \<Rightarrow> 'it txn_iter res" where
  "it_step ldb t fwd it = rbind (li_step ldb fwd (ti_it it)) (\<lambda>i. skipDeleted ldb t (it\<lparr>ti_it := i\<rparr>))"

definition ins_step :: "'it table_txn \<Rightarrow> bool \<Rightarrow> 'it txn_iter \<Rightarrow> 'it txn_iter res" where
  "ins_step t fwd it = rbind (ci_step (tt_values t) fwd (ti_ins it)) (\<lambda>i. Inr (it\<lparr>ti_ins := i\<rparr>))"

lemma step_folds:
  "it_next ldb t it = it_step ldb t True it" "it_prev ldb t it = it_step ldb t False it"
  "ins_next t it = ins_step t True it" "ins_prev t it = ins_step t False it"
  by (simp_all add: it_step_def ins_step_def li_step_def ci_step_def)

lemma behind_up: "behind fwd p x \<Longrightarrow> dle fwd x y \<Longrightarrow> behind fwd p y"
  by (cases p) (simp_all, blast intro: dle_trans)

lemma it_step_ok:
  assumes "ldb_ok ldb db" "ti_fwd it = fwd" "li_at ldb (ti_it it) p" "p \<noteq> tail fwd"
  shows "\<exists>i q. it_step ldb t fwd it = Inr (it\<lparr>ti_it := i\<rparr>) \<and> li_at ldb i q \<and>
    nearest fwd {x \<in> live_keys db t. behind fwd p x} q"
proof -
  obtain i q where i: "li_step ldb fwd (ti_it it) = Inr i" "li_at ldb i q" "nearest fwd {x \<in> dom db. behind fwd p x} q"
    using li_step_ok [OF assms(1,3,4)] by blast
  have "li_at ldb (ti_it (it\<lparr>ti_it := i\<rparr>)) q"
    "nearest (ti_fwd (it\<lparr>ti_it := i\<rparr>)) {x \<in> dom db. behind fwd p x} q"
    "\<And>x y. behind fwd p x \<Longrightarrow> dle (ti_fwd (it\<lparr>ti_it := i\<rparr>)) x y \<Longrightarrow> behind fwd p y"
    using i assms(2) behind_up [of fwd p] by simp_all
  from skipDeleted_ok [OF assms(1) this, where t = t] show ?thesis using i(1) assms(2) by (simp add: it_step_def)
qed

lemma ins_step_ok:
  assumes "table_ok t" "ci_at (ti_ins it) q" "q \<noteq> tail fwd" "\<And>k. q = PKey k \<Longrightarrow> k \<in> pend (tt_values t)"
  shows "\<exists>i r. ins_step t fwd it = Inr (it\<lparr>ti_ins := i\<rparr>) \<and> ci_at i r \<and>
    nearest fwd {x \<in> pend (tt_values t). behind fwd q x} r"
proof -
  have "sorted_keys bcmp (tt_values t)" using assms(1) by (simp add: table_ok_def)
  then obtain i r where "ci_step (tt_values t) fwd (ti_ins it) = Inr i" "ci_at i r"
    "nearest fwd {x \<in> pend (tt_values t). behind fwd q x} r"
    using ci_step_ok [OF _ assms(2,3)] assms(4) by blast
  then show ?thesis by (intro exI [of _ i] exI [of _ r]) (simp add: ins_step_def)
qed

definition ti_step :: "bool \<Rightarrow> 'it ldb \<Rightarrow> 'it table_txn \<Rightarrow> 'it txn_iter \<Rightarrow> 'it txn_iter res" where
  "ti_step fwd = (if fwd then next_step else prev_step)"

lemma ti_step_moves:
  assumes "li_at ldb (ti_it it) p" "ci_at (ti_ins it) q" "p \<noteq> tail (\<not> fwd)" "q \<noteq> tail (\<not> fwd)"
  shows "q = tail fwd \<Longrightarrow> ti_step fwd ldb t it = it_step ldb t fwd it"
    and "p = tail fwd \<Longrightarrow> q = PKey b \<Longrightarrow> ti_step fwd ldb t it = ins_step t fwd it"
    and "p = PKey a \<Longrightarrow> q = PKey b \<Longrightarrow> ti_step fwd ldb t it =
      (if a = b then rbind (ins_step t fwd it) (it_step ldb t fwd)
       else if dle fwd a b then it_step ldb t fwd it else ins_step t fwd it)"
proof -
  note defs = ti_step_def next_step_def prev_step_def step_folds ci_isEnd_def
  show "q = tail fwd \<Longrightarrow> ti_step fwd ldb t it = it_step ldb t fwd it"
    using assms(2) by (cases fwd) (simp_all add: defs)
  show "p = tail fwd \<Longrightarrow> q = PKey b \<Longrightarrow> ti_step fwd ldb t it = ins_step t fwd it"
    using assms(1,2) by (cases fwd) (simp_all add: defs)
  have "fwd \<Longrightarrow> dle fwd a b = kle a b" "\<not> fwd \<Longrightarrow> dle fwd a b = kle b a" by (simp_all add: dle_def)
  moreover have "a = b \<longleftrightarrow> kle a b \<and> kle b a" using kle_antisym by auto
  moreover have "kle a b \<or> kle b a" by (rule kle_total)
  ultimately show "p = PKey a \<Longrightarrow> q = PKey b \<Longrightarrow> ti_step fwd ldb t it =
      (if a = b then rbind (ins_step t fwd it) (it_step ldb t fwd)
       else if dle fwd a b then it_step ldb t fwd it else ins_step t fwd it)"
    using assms(1,2) by (cases fwd) (auto simp: defs Let_def bcmp_kle)
qed

text \<open>The first of the keys from \<open>k\<close> on is \<open>k\<close> itself, or the first of those behind it.\<close>

lemma nearest_from:
  "k \<in> S \<Longrightarrow> nearest fwd {x \<in> S. dle fwd k x} p \<longleftrightarrow> p = PKey k"
  "k \<notin> S \<Longrightarrow> {x \<in> S. dle fwd k x} = {x \<in> S. dlt fwd k x}"
proof -
  assume "k \<in> S"
  then have "nearest fwd {x \<in> S. dle fwd k x} (PKey k)" by (simp add: nearest_def)
  then show "nearest fwd {x \<in> S. dle fwd k x} p \<longleftrightarrow> p = PKey k" using nearest_unique by blast
next
  assume "k \<notin> S"
  then show "{x \<in> S. dle fwd k x} = {x \<in> S. dlt fwd k x}" using dle_cases [of fwd k] by (metis (no_types, lifting))
qed

lemma nearest_not_head: "nearest fwd S p \<Longrightarrow> p \<noteq> tail (\<not> fwd)"
  using tail_simps(5) [of fwd] by (auto simp: nearest_def)

lemma ti_step_ok:
  assumes "ldb_ok ldb db" "table_ok t" "on_key ldb db fwd t k it"
  shows "\<exists>it' r. ti_step fwd ldb t it = Inr it' \<and> stands ldb db fwd t r it' \<and>
    nearest fwd {x \<in> visible db t. dlt fwd k x} r"
proof -
  let ?L = "live_keys db t" and ?I = "pend (tt_values t)"
  obtain p q where pq: "li_at ldb (ti_it it) p" "nearest fwd {x \<in> ?L. dle fwd k x} p"
    "ci_at (ti_ins it) q" "nearest fwd {x \<in> ?I. dle fwd k x} q"
    and it: "ti_fwd it = fwd" "\<not> ti_invalid it" "k \<in> ?L \<union> ?I"
    using assms(3) by (auto simp: on_key_def)
  note moves = ti_step_moves [OF pq(1,3) nearest_not_head [OF pq(2)] nearest_not_head [OF pq(4)]]
  have done_: ?thesis
    if "ti_step fwd ldb t it = Inr (it\<lparr>ti_it := i, ti_ins := j\<rparr>)" "li_at ldb i p'" "ci_at j q'"
      "nearest fwd {x \<in> ?L. dlt fwd k x} p'" "nearest fwd {x \<in> ?I. dlt fwd k x} q'" for i j p' q'
  proof -
    have "\<exists>r. stands ldb db fwd t r (it\<lparr>ti_it := i, ti_ins := j\<rparr>) \<and> nearest fwd {x \<in> visible db t. dlt fwd k x} r"
      by (rule settle [where p = p' and q = q']) (use that it in \<open>simp_all, blast intro: dle_trans\<close>)
    then show ?thesis using that(1) by blast
  qed
  have L: "\<exists>i p'. it_step ldb t fwd it' = Inr (it'\<lparr>ti_it := i\<rparr>) \<and> li_at ldb i p' \<and> nearest fwd {x \<in> ?L. dlt fwd k x} p'"
    if "k \<in> ?L" "ti_it it' = ti_it it" "ti_fwd it' = fwd" for it'
    using it_step_ok [OF assms(1), of it' fwd p t] that pq(1,2) by (simp add: nearest_from(1))
  have I: "\<exists>j q'. ins_step t fwd it = Inr (it\<lparr>ti_ins := j\<rparr>) \<and> ci_at j q' \<and> nearest fwd {x \<in> ?I. dlt fwd k x} q'"
    if "k \<in> ?I"
    using ins_step_ok [OF assms(2), of it q fwd] that pq(3,4) by (simp add: nearest_from(1))
  consider (both) "k \<in> ?L" "k \<in> ?I" | (left) "k \<in> ?L" "k \<notin> ?I" | (right) "k \<notin> ?L" "k \<in> ?I" using it(3) by blast
  then show ?thesis
  proof cases
    case both
    obtain j q' where j: "ins_step t fwd it = Inr (it\<lparr>ti_ins := j\<rparr>)" "ci_at j q'" "nearest fwd {x \<in> ?I. dlt fwd k x} q'"
      using I both by blast
    obtain i p' where i: "it_step ldb t fwd (it\<lparr>ti_ins := j\<rparr>) = Inr (it\<lparr>ti_ins := j, ti_it := i\<rparr>)" "li_at ldb i p'"
      "nearest fwd {x \<in> ?L. dlt fwd k x} p'" using L [of "it\<lparr>ti_ins := j\<rparr>"] both it by auto
    have "p = PKey k" "q = PKey k" using both pq by (simp_all add: nearest_from(1))
    then show ?thesis using done_ [where i = i and j = j and p' = p' and q' = q'] moves(3) [of k k] i j by simp
  next
    case left
    then have p: "p = PKey k" and q: "nearest fwd {x \<in> ?I. dlt fwd k x} q"
      using pq by (simp_all add: nearest_from)
    have "ti_step fwd ldb t it = it_step ldb t fwd it"
    proof (cases "q = tail fwd")
      case False
      then obtain b where "q = PKey b" "dlt fwd k b" using q by (auto simp: nearest_def)
      then show ?thesis using moves(3) [OF p] dlt_dle [of fwd k b] by auto
    qed (rule moves(1))
    then show ?thesis using L [of it] left it(1) done_ [where j = "ti_ins it" and q' = q] pq(3) q by auto
  next
    case right
    then have q: "q = PKey k" and p: "nearest fwd {x \<in> ?L. dlt fwd k x} p"
      using pq by (simp_all add: nearest_from)
    have "ti_step fwd ldb t it = ins_step t fwd it"
    proof (cases "p = tail fwd")
      case False
      then obtain a where "p = PKey a" "dlt fwd k a" using p by (auto simp: nearest_def)
      then show ?thesis using moves(3) [OF _ q] by auto
    qed (use moves(2) q in blast)
    then show ?thesis using I right done_ [where i = "ti_it it" and p' = p] pq(1) p by auto
  qed
qed

section \<open>What the iterator shows\<close>

lemma inTransaction_at:
  assumes "li_at ldb (ti_it it) p" "ci_at (ti_ins it) q"
  shows "p = PKey a \<Longrightarrow> q = PKey b \<Longrightarrow> inTransaction ldb it \<longleftrightarrow> dle (ti_fwd it) b a"
    and "p = PKey a \<Longrightarrow> q = tail (ti_fwd it) \<Longrightarrow> \<not> inTransaction ldb it"
    and "p = tail (ti_fwd it) \<Longrightarrow> q = PKey b \<Longrightarrow> inTransaction ldb it"
proof -
  show "p = PKey a \<Longrightarrow> q = PKey b \<Longrightarrow> inTransaction ldb it \<longleftrightarrow> dle (ti_fwd it) b a"
    using assms kle_total [of a b] kle_antisym [of a b]
    by (auto simp: inTransaction_def it_compare_def ci_isEnd_def dle_def Let_def bcmp_kle)
  show "p = PKey a \<Longrightarrow> q = tail (ti_fwd it) \<Longrightarrow> \<not> inTransaction ldb it"
    "p = tail (ti_fwd it) \<Longrightarrow> q = PKey b \<Longrightarrow> inTransaction ldb it"
    using assms by (cases "ti_fwd it"; simp add: inTransaction_def it_compare_def ci_isEnd_def)+
qed

lemma getKey_at:
  assumes "li_at ldb (ti_it it) p" "ci_at (ti_ins it) q"
  shows "p = PKey a \<Longrightarrow> q = PKey b \<Longrightarrow> getKey ldb it = (if dle (ti_fwd it) b a then b else a)"
    and "p = PKey a \<Longrightarrow> q = tail (ti_fwd it) \<Longrightarrow> getKey ldb it = a"
    and "p = tail (ti_fwd it) \<Longrightarrow> q = PKey b \<Longrightarrow> getKey ldb it = b"
proof -
  note i = inTransaction_at [OF assms] and defs = getKey_def
  show "p = PKey a \<Longrightarrow> q = PKey b \<Longrightarrow> getKey ldb it = (if dle (ti_fwd it) b a then b else a)"
    using i(1) [of a b] assms by (simp add: getKey_def)
  show "p = PKey a \<Longrightarrow> q = tail (ti_fwd it) \<Longrightarrow> getKey ldb it = a"
    using i(2) [of a] assms by (simp add: getKey_def)
  show "p = tail (ti_fwd it) \<Longrightarrow> q = PKey b \<Longrightarrow> getKey ldb it = b"
    using i(3) [of b] assms by (simp add: getKey_def)
qed

lemma nearest_Key: "nearest fwd S (PKey a) \<Longrightarrow> a \<in> S" "nearest fwd S (PKey a) \<Longrightarrow> x \<in> S \<Longrightarrow> dle fwd a x"
  by (auto simp: nearest_def)

lemma nearest_cases:
  assumes "nearest fwd S p"
  obtains (key) a where "p = PKey a" "a \<in> S" "\<And>x. x \<in> S \<Longrightarrow> dle fwd a x" | (none) "p = tail fwd" "S = {}"
  using assms by (auto simp: nearest_def)

lemma on_key_shows:
  assumes "on_key ldb db fwd t k it"
  shows "getKey ldb it = k" "inTransaction ldb it \<longleftrightarrow> k \<in> pend (tt_values t)" "ti_isValid it" "\<not> ti_isEnd it" "\<not> ti_isBegin it"
proof -
  let ?L = "live_keys db t" and ?I = "pend (tt_values t)"
  obtain p q where pq: "li_at ldb (ti_it it) p" "nearest fwd {x \<in> ?L. dle fwd k x} p"
    "ci_at (ti_ins it) q" "nearest fwd {x \<in> ?I. dle fwd k x} q"
    and it: "ti_fwd it = fwd" "\<not> ti_invalid it" "k \<in> ?L \<union> ?I"
    using assms by (auto simp: on_key_def)
  note at = getKey_at [OF pq(1,3)] inTransaction_at [OF pq(1,3)]
  have "getKey ldb it = k \<and> (inTransaction ldb it \<longleftrightarrow> k \<in> ?I) \<and> (p = PKey k \<or> q = PKey k)"
  proof (cases "k \<in> ?I")
    case True
    then have q: "q = PKey k" using pq(4) by (simp add: nearest_from(1))
    from pq(2) show ?thesis
    proof (cases rule: nearest_cases)
      case (key a)
      then show ?thesis using True q at(1,4) [of a k] it(1) by auto
    next
      case none
      then show ?thesis using True q at(3,6) [of k] it(1) by auto
    qed
  next
    case False
    then have p: "p = PKey k" using it(3) pq(2) by (simp add: nearest_from(1))
    from pq(4) show ?thesis
    proof (cases rule: nearest_cases)
      case (key b)
      then have "\<not> dle fwd b k" using False dle_antisym [of fwd b k] by auto
      then show ?thesis using False p at(1,4) [of k b] key it(1) by auto
    next
      case none
      then show ?thesis using False p at(2,5) [of k] it(1) by auto
    qed
  qed
  then show "getKey ldb it = k" "inTransaction ldb it \<longleftrightarrow> k \<in> ?I" "ti_isValid it" "\<not> ti_isEnd it" "\<not> ti_isBegin it"
    using pq(1,3) it(2)
    by (auto simp: ti_isValid_def li_isValid_def ci_isValid_def ci_isEnd_def ti_isEnd_def ti_isBegin_def)
qed

lemma stands_tail: "stands ldb db fwd t (tail fwd) it \<longleftrightarrow>
    ti_fwd it = fwd \<and> \<not> ti_invalid it \<and> li_at ldb (ti_it it) (tail fwd) \<and> ci_at (ti_ins it) (tail fwd)"
  by (cases fwd) simp_all

section \<open>Turning round\<close>

definition ti_turn :: "bool \<Rightarrow> 'it ldb \<Rightarrow> 'it table_txn \<Rightarrow> 'it txn_iter \<Rightarrow> 'it txn_iter res" where
  "ti_turn fwd = (if fwd then turn_forward else turn_back)"

text \<open>The definitions of both directions in one, for an iterator on a key.\<close>

lemma ti_turn_unfold:
  assumes "li_at ldb (ti_it it) p" "ci_at (ti_ins it) q" "p \<noteq> tail fwd" "q \<noteq> tail fwd"
    and "p \<noteq> tail (\<not> fwd) \<or> q \<noteq> tail (\<not> fwd)"
  shows "ti_turn fwd ldb t it =
    (let it1 = it\<lparr>ti_fwd := fwd, ti_invalid := False\<rparr> in
     rbind (if p = tail (\<not> fwd) then it_step ldb t fwd it1
            else if q = tail (\<not> fwd) then ins_step t fwd it1
            else if dlt fwd (getKey ldb it1) (getKey ldb it) then ti_step fwd ldb t it1
            else Inr it1) (\<lambda>it'.
       if getKey ldb it' = getKey ldb it then Inr it' else Inl MojAssertFailed))"
proof (cases fwd)
  case True
  then show ?thesis
    using assms by (cases p; cases q) (auto simp: ti_turn_def turn_forward_def it_step_def ins_step_def li_step_def ci_step_def ti_step_def
      ti_isEnd_def ti_isBegin_def ci_isEnd_def Let_def bcmp_kle dle_def)
next
  case False
  then show ?thesis
    using assms by (cases p; cases q) (auto simp: ti_turn_def turn_back_def it_step_def ins_step_def li_step_def ci_step_def ti_step_def
      ti_isEnd_def ti_isBegin_def ci_isEnd_def Let_def bcmp_kle dle_def)
qed

lemma ti_turn_ok:
  assumes "ldb_ok ldb db" "table_ok t" "on_key ldb db (\<not> fwd) t k it"
  shows "\<exists>it'. ti_turn fwd ldb t it = Inr it' \<and> on_key ldb db fwd t k it'"
proof -
  let ?L = "live_keys db t" and ?I = "pend (tt_values t)" and ?it = "it\<lparr>ti_fwd := fwd, ti_invalid := False\<rparr>"
  obtain p q where pq: "li_at ldb (ti_it it) p" "nearest (\<not> fwd) {x \<in> ?L. dle (\<not> fwd) k x} p"
    "ci_at (ti_ins it) q" "nearest (\<not> fwd) {x \<in> ?I. dle (\<not> fwd) k x} q"
    and it: "ti_fwd it = (\<not> fwd)" "k \<in> ?L \<union> ?I"
    using assms(3) unfolding on_key_def by blast
  have key: "getKey ldb it = k" using on_key_shows [OF assms(3)] by blast
  have nt: "p \<noteq> tail fwd" "q \<noteq> tail fwd"
    using nearest_not_head [OF pq(2)] nearest_not_head [OF pq(4)] by simp_all
  have pk: "k \<in> ?L \<Longrightarrow> p = PKey k" and qk: "k \<in> ?I \<Longrightarrow> q = PKey k"
    using pq(2,4) nearest_from(1) by blast+
  have ne: "p \<noteq> tail (\<not> fwd) \<or> q \<noteq> tail (\<not> fwd)" using it(2) pk qk by auto
  have stay: "nearest fwd {x \<in> S. dle fwd k x} (PKey k)" if "k \<in> S" for S
    using that by (simp add: nearest_from(1))
  have fin: "\<exists>it'. rbind (Inr (?it\<lparr>ti_it := i, ti_ins := j\<rparr>)) (\<lambda>it'. if getKey ldb it' = k then Inr it' else Inl MojAssertFailed) = Inr it' \<and>
      on_key ldb db fwd t k it'"
    if "li_at ldb i p'" "ci_at j q'" "nearest fwd {x \<in> ?L. dle fwd k x} p'" "nearest fwd {x \<in> ?I. dle fwd k x} q'"
    for i j p' q'
  proof -
    have "on_key ldb db fwd t k (?it\<lparr>ti_it := i, ti_ins := j\<rparr>)" using that it(2) by (auto simp: on_key_def)
    then show ?thesis using on_key_shows(1) by fastforce
  qed
  note unfold = ti_turn_unfold [OF pq(1,3) nt ne, of t, unfolded key Let_def]
  consider (head) "p = tail (\<not> fwd)" | (ihead) "p \<noteq> tail (\<not> fwd)" "q = tail (\<not> fwd)"
    | (keys) a b where "p = PKey a" "q = PKey b"
    using pq(2,4) by (auto simp: nearest_def)
  then show ?thesis
  proof cases
    case head
    then have e: "{x \<in> ?L. dle fwd x k} = {}" "k \<in> ?I" using pq(2) it(2) pk by (auto simp: nearest_def)
    obtain i p' where i: "it_step ldb t fwd ?it = Inr (?it\<lparr>ti_it := i\<rparr>)" "li_at ldb i p'"
      "nearest fwd {x \<in> ?L. behind fwd p x} p'"
      using it_step_ok [OF assms(1), of ?it fwd p t] pq(1) nt by auto
    have "{x \<in> ?L. behind fwd p x} = {x \<in> ?L. dle fwd k x}" using e dle_total head by (cases fwd) auto
    then show ?thesis
      using fin [of i p' "ti_ins it" q] i head pq(3) qk e stay unfold by simp
  next
    case ihead
    then have e: "{x \<in> ?I. dle fwd x k} = {}" "k \<in> ?L" using pq(4) it(2) qk by (auto simp: nearest_def)
    obtain j q' where j: "ins_step t fwd ?it = Inr (?it\<lparr>ti_ins := j\<rparr>)" "ci_at j q'"
      "nearest fwd {x \<in> ?I. behind fwd q x} q'"
      using ins_step_ok [OF assms(2), of ?it q fwd] pq(3) nt ihead by auto
    have "{x \<in> ?I. behind fwd q x} = {x \<in> ?I. dle fwd k x}" using e dle_total ihead by (cases fwd) auto
    then show ?thesis
      using fin [of "ti_it it" p j q'] j ihead pq(1) pk e stay unfold by simp
  next
    case keys
    have ab: "a \<in> ?L" "dle fwd a k" "\<And>x. x \<in> ?L \<Longrightarrow> dle fwd x k \<Longrightarrow> dle fwd x a"
      "b \<in> ?I" "dle fwd b k" "\<And>x. x \<in> ?I \<Longrightarrow> dle fwd x k \<Longrightarrow> dle fwd x b"
      using pq(2,4) keys by (auto simp: nearest_def)
    have at: "li_at ldb (ti_it ?it) p" "ci_at (ti_ins ?it) q" using pq by simp_all
    note moves = ti_step_moves [OF at] and new = getKey_at(1) [OF at keys]
    consider (same) "k \<in> ?L" "k \<in> ?I" | (left) "k \<in> ?L" "k \<notin> ?I" | (right) "k \<notin> ?L" "k \<in> ?I" using it(2) by blast
    then show ?thesis
    proof cases
      case same
      then show ?thesis
        using fin [of "ti_it it" p "ti_ins it" q] pq(1,3) pk qk stay keys new unfold by simp
    next
      case left
      then have a: "a = k" "b \<noteq> k" using pk keys ab by auto
      then have "dlt fwd b k" using ab(5) dle_antisym by blast
      obtain j q' where j: "ins_step t fwd ?it = Inr (?it\<lparr>ti_ins := j\<rparr>)" "ci_at j q'"
        "nearest fwd {x \<in> ?I. behind fwd q x} q'"
        using ins_step_ok [OF assms(2), of ?it q fwd] pq(3) nt keys ab by auto
      have "behind fwd q x \<longleftrightarrow> dle fwd k x" if "x \<in> ?I" for x
        using keys ab(6) [OF that] \<open>dlt fwd b k\<close> dle_total [of fwd k x] dle_trans [of fwd k x b] by auto
      then have "{x \<in> ?I. behind fwd q x} = {x \<in> ?I. dle fwd k x}" by blast
      moreover have "ti_step fwd ldb t ?it = ins_step t fwd ?it"
        using moves(3) [of fwd a b t] nt keys a \<open>dlt fwd b k\<close> by simp
      ultimately show ?thesis
        using fin [of "ti_it it" p j q'] j pq(1) pk left stay unfold new a ab(5) \<open>dlt fwd b k\<close> keys by simp
    next
      case right
      then have b: "b = k" "a \<noteq> k" using qk keys ab by auto
      then have "dlt fwd a k" using ab(2) dle_antisym by blast
      obtain i p' where i: "it_step ldb t fwd ?it = Inr (?it\<lparr>ti_it := i\<rparr>)" "li_at ldb i p'"
        "nearest fwd {x \<in> ?L. behind fwd p x} p'"
        using it_step_ok [OF assms(1), of ?it fwd p t] pq(1) nt by auto
      have "behind fwd p x \<longleftrightarrow> dle fwd k x" if "x \<in> ?L" for x
        using keys ab(3) [OF that] \<open>dlt fwd a k\<close> dle_total [of fwd k x] dle_trans [of fwd k x a] by auto
      then have "{x \<in> ?L. behind fwd p x} = {x \<in> ?L. dle fwd k x}" by blast
      moreover have "ti_step fwd ldb t ?it = it_step ldb t fwd ?it"
        using moves(3) [of fwd a b t] nt keys b ab(2) by simp
      ultimately show ?thesis
        using fin [of i p' "ti_ins it" q] i pq(3) qk right stay unfold new b \<open>dlt fwd a k\<close> keys by simp
    qed
  qed
qed

section \<open>The iterator is a cursor on the view of the transaction\<close>

lemma pend_simps [simp]: "pend [] = {}" "pend ((a, b) # m) = insert a (pend m)"
  by (auto simp: pend_def)

lemma map_get_pend: "map_get bcmp k m = None \<longleftrightarrow> k \<notin> pend m"
  by (induction m) (auto split: if_splits)

lemma visible_iff: "table_ok t \<Longrightarrow> k \<in> visible db t \<longleftrightarrow> tt_Get db k t \<noteq> None"
proof -
  assume "table_ok t"
  then have "k \<in> pend (tt_values t) \<Longrightarrow> k \<notin> set (tt_deletes t)" by (auto simp: table_ok_def)
  then show ?thesis
    using map_get_pend [of k "tt_values t"]
    by (auto simp: visible_def live_keys_def tt_Get_def isDeleted_iff split: option.splits)
qed

definition cursor_at :: "'it ldb \<Rightarrow> (dbkey \<Rightarrow> byte list option) \<Rightarrow> 'it table_txn \<Rightarrow> pos \<Rightarrow> 'it txn_iter \<Rightarrow> bool" where
  "cursor_at ldb db t r it \<longleftrightarrow> (\<exists>fwd. stands ldb db fwd t r it)"

lemma start_ok:
  assumes "ldb_ok ldb db" "\<not> ti_invalid it"
    and "li_at ldb (ti_it it) p" "nearest (ti_fwd it) {x \<in> dom db. P x} p"
    and "ci_at (ti_ins it) q" "nearest (ti_fwd it) {x \<in> pend (tt_values t). P x} q"
    and up: "\<And>x y. P x \<Longrightarrow> dle (ti_fwd it) x y \<Longrightarrow> P y"
  shows "\<exists>it' r. skipDeleted ldb t it = Inr it' \<and> stands ldb db (ti_fwd it) t r it' \<and>
    nearest (ti_fwd it) {x \<in> visible db t. P x} r"
proof -
  obtain i p' where i: "skipDeleted ldb t it = Inr (it\<lparr>ti_it := i\<rparr>)" "li_at ldb i p'"
    "nearest (ti_fwd it) {x \<in> live_keys db t. P x} p'"
    using skipDeleted_ok [OF assms(1,3,4), where t = t] up by blast
  have "\<exists>r. stands ldb db (ti_fwd it) t r (it\<lparr>ti_it := i\<rparr>) \<and> nearest (ti_fwd it) {x \<in> visible db t. P x} r"
    by (rule settle [where p = p' and q = q]) (use i assms(2,5,6) in \<open>simp_all, blast intro: up\<close>)
  then show ?thesis using i(1) by blast
qed

lemma ti_first_ok:
  assumes "ldb_ok ldb db" "table_ok t"
  shows "\<exists>it r. ti_first ldb t = Inr it \<and> stands ldb db True t r it \<and> nearest True (visible db t) r"
proof -
  have "nearest True (dom db) (ldb_pos ldb True (ldb_first ldb))" using assms(1) by (simp add: ldb_ok_def)
  moreover have "li_at ldb (li_toFirst ldb) (ldb_pos ldb True (ldb_first ldb))"
    by (simp add: li_toFirst_def ldb_pos_def)
  moreover have "ci_at (ci_toFirst (tt_values t)) (case map_begin (tt_values t) of None \<Rightarrow> PEnd | Some k \<Rightarrow> PKey k)"
    by (simp add: ci_toFirst_def split: option.split)
  moreover have "nearest True (pend (tt_values t)) (case map_begin (tt_values t) of None \<Rightarrow> PEnd | Some k \<Rightarrow> PKey k)"
    using assms(2) by (intro map_begin_nearest) (simp add: table_ok_def)
  ultimately show ?thesis
    using start_ok [OF assms(1), of "\<lparr>ti_fwd = True, ti_invalid = False, ti_it = li_toFirst ldb, ti_ins = ci_toFirst (tt_values t)\<rparr>"
        _ "\<lambda>_. True" _ t] by (simp add: ti_first_def)
qed

lemma ti_last_ok:
  assumes "ldb_ok ldb db" "table_ok t"
  shows "\<exists>it' r. ti_last ldb t it = Inr it' \<and> stands ldb db False t r it' \<and> nearest False (visible db t) r"
proof -
  have "nearest False (dom db) (ldb_pos ldb False (ldb_last ldb))" using assms(1) by (simp add: ldb_ok_def)
  moreover have "li_at ldb (li_toLast ldb) (ldb_pos ldb False (ldb_last ldb))"
    by (simp add: li_toLast_def ldb_pos_def)
  moreover have last: "nearest False (pend (tt_values t)) (case map_before None (tt_values t) of None \<Rightarrow> PBegin | Some k \<Rightarrow> PKey k)"
    using assms(2) by (intro map_lookups) (simp add: table_ok_def)
  moreover have "ci_at (ci_toLast (tt_values t) (ti_ins it)) (case map_before None (tt_values t) of None \<Rightarrow> PBegin | Some k \<Rightarrow> PKey k)"
  proof (cases "tt_values t = []")
    case True
    then show ?thesis by (simp add: ci_toLast_def map_before_def map_begin_def)
  next
    case False
    then obtain k where "map_before None (tt_values t) = Some k"
      using last by (cases "map_before None (tt_values t)") (auto simp: nearest_def pend_def)
    then show ?thesis using False by (simp add: ci_toLast_def)
  qed
  ultimately show ?thesis
    using start_ok [OF assms(1), of "\<lparr>ti_fwd = False, ti_invalid = False, ti_it = li_toLast ldb,
        ti_ins = ci_toLast (tt_values t) (ti_ins it)\<rparr>" _ "\<lambda>_. True" _ t] by (simp add: ti_last_def)
qed

lemma ti_seek_ok:
  assumes "ldb_ok ldb db" "table_ok t"
  shows "\<exists>it r. ti_seek ldb t key = Inr it \<and> stands ldb db True t r it \<and> nearest True {x \<in> visible db t. kle key x} r"
proof -
  have "nearest True {x \<in> dom db. kle key x} (ldb_pos ldb True (ldb_seek ldb key))"
    using assms(1) by (simp add: ldb_ok_def)
  moreover have "li_at ldb (li_seek ldb key) (ldb_pos ldb True (ldb_seek ldb key))"
    by (simp add: li_seek_def ldb_pos_def)
  moreover have "nearest True {x \<in> pend (tt_values t). kle key x}
      (case map_lower_bound key (tt_values t) of None \<Rightarrow> PEnd | Some k \<Rightarrow> PKey k)"
    using assms(2) by (intro map_lookups) (simp add: table_ok_def)
  moreover have "ci_at \<lparr>ci_it = map_lower_bound key (tt_values t), ci_start = False\<rparr>
      (case map_lower_bound key (tt_values t) of None \<Rightarrow> PEnd | Some k \<Rightarrow> PKey k)"
    by (simp split: option.split)
  ultimately show ?thesis
    using start_ok [OF assms(1), of "\<lparr>ti_fwd = True, ti_invalid = False, ti_it = li_seek ldb key,
        ti_ins = \<lparr>ci_it = map_lower_bound key (tt_values t), ci_start = False\<rparr>\<rparr>" _ "kle key" _ t]
    by (simp add: ti_seek_def dle_def) (meson kle_trans)
qed

definition ti_move :: "bool \<Rightarrow> 'it ldb \<Rightarrow> 'it table_txn \<Rightarrow> 'it txn_iter \<Rightarrow> 'it txn_iter res" where
  "ti_move fwd = (if fwd then ti_next else ti_prev)"

lemma ti_move_ok:
  assumes "ldb_ok ldb db" "table_ok t" "cursor_at ldb db t r it" "r \<noteq> tail fwd"
  shows "\<exists>it' r'. ti_move fwd ldb t it = Inr it' \<and> stands ldb db fwd t r' it' \<and>
    nearest fwd {x \<in> visible db t. behind fwd r x} r'"
proof (cases r)
  case (PKey k)
  obtain d where d: "on_key ldb db d t k it" using assms(3) PKey by (auto simp: cursor_at_def)
  note s = on_key_shows [OF d]
  have f: "ti_fwd it = d" "\<not> ti_invalid it" using d by (simp_all add: on_key_def)
  show ?thesis
  proof (cases "d = fwd")
    case True
    then have "ti_move fwd ldb t it = ti_step fwd ldb t it"
      using s(4,5) f by (cases fwd) (simp_all add: ti_move_def ti_next_def ti_prev_def ti_step_def)
    then show ?thesis using ti_step_ok [OF assms(1,2)] d True PKey by auto
  next
    case False
    then have d': "on_key ldb db (\<not> fwd) t k it" using d by (cases fwd) simp_all
    then obtain it' where it': "ti_turn fwd ldb t it = Inr it'" "on_key ldb db fwd t k it'"
      using ti_turn_ok [OF assms(1,2)] by blast
    then have "it'\<lparr>ti_invalid := False\<rparr> = it'" by (simp add: on_key_def)
    then have "ti_move fwd ldb t it = ti_step fwd ldb t it'"
      using s(4,5) f False it'(1) by (cases fwd) (simp_all add: ti_move_def ti_next_def ti_prev_def ti_step_def ti_turn_def)
    then show ?thesis using ti_step_ok [OF assms(1,2) it'(2)] PKey by auto
  qed
next
  case PBegin
  then have fwd: "fwd" using assms(4) by (cases fwd) simp_all
  moreover have "ti_isBegin it" "\<not> ti_isEnd it"
    using assms(3) PBegin by (auto simp: cursor_at_def ti_isBegin_def ti_isEnd_def ci_isEnd_def)
  ultimately show ?thesis using ti_first_ok [OF assms(1,2)] PBegin by (simp add: ti_move_def ti_next_def)
next
  case PEnd
  then have fwd: "\<not> fwd" using assms(4) by (cases fwd) simp_all
  moreover have "ti_isEnd it" "\<not> ti_isBegin it"
    using assms(3) PEnd by (auto simp: cursor_at_def ti_isBegin_def ti_isEnd_def ci_isEnd_def)
  ultimately show ?thesis using ti_last_ok [OF assms(1,2)] PEnd by (simp add: ti_move_def ti_prev_def)
qed

lemma cursor_shows:
  assumes "ldb_ok ldb db" "table_ok t" "cursor_at ldb db t r it"
  shows "case r of PKey k \<Rightarrow> ti_isValid it \<and> getKey ldb it = k \<and> tt_Get db k t = Some (getValue ldb t it)
    | _ \<Rightarrow> \<not> ti_isValid it"
proof (cases r)
  case (PKey k)
  obtain d where d: "on_key ldb db d t k it" using assms(3) PKey by (auto simp: cursor_at_def)
  note s = on_key_shows [OF d]
  obtain p q where pq: "li_at ldb (ti_it it) p" "nearest d {x \<in> live_keys db t. dle d k x} p"
    "ci_at (ti_ins it) q" "nearest d {x \<in> pend (tt_values t). dle d k x} q" and k: "k \<in> visible db t"
    using d by (auto simp: on_key_def visible_def)
  have "tt_Get db k t = Some (getValue ldb t it)"
  proof (cases "k \<in> pend (tt_values t)")
    case True
    then have "ci_it (ti_ins it) = Some k" using pq(3,4) nearest_from(1) by fastforce
    moreover have "map_get bcmp k (tt_values t) \<noteq> None" using True by (simp add: map_get_pend)
    moreover have "k \<notin> set (tt_deletes t)" using True assms(2) by (auto simp: table_ok_def)
    ultimately show ?thesis
      using True s(2) by (auto simp: tt_Get_def getValue_def isDeleted_iff split: option.split)
  next
    case False
    then have l: "k \<in> live_keys db t" using k by (simp add: visible_def)
    then have "p = PKey k" using pq(2) nearest_from(1) by blast
    then have "ldb_valid ldb (li_it (ti_it it))" "ldb_key ldb (li_it (ti_it it)) = k" using pq(1) by simp_all
    then have "db k = Some (ldb_value ldb (li_it (ti_it it)))" using assms(1) by (auto simp: ldb_ok_def)
    moreover have "map_get bcmp k (tt_values t) = None" using False by (simp add: map_get_pend)
    ultimately show ?thesis
      using False s(2) l by (simp add: tt_Get_def getValue_def isDeleted_iff live_keys_def)
  qed
  then show ?thesis using s PKey by simp
qed (use assms(3) in \<open>auto simp: cursor_at_def ti_isValid_def li_isValid_def ci_isValid_def ci_isEnd_def\<close>)

section \<open>Putting a value\<close>

definition with_value :: "dbkey \<Rightarrow> byte list \<Rightarrow> 'it table_txn \<Rightarrow> 'it table_txn" where
  "with_value key val t =
     t\<lparr>tt_values := map_put bcmp key val (tt_values t), tt_deletes := set_del bcmp key (tt_deletes t)\<rparr>"

definition without_key :: "dbkey \<Rightarrow> 'it table_txn \<Rightarrow> 'it table_txn" where
  "without_key key t =
     t\<lparr>tt_deletes := set_put bcmp key (tt_deletes t), tt_values := map_del bcmp key (tt_values t)\<rparr>"

lemma pend_put: "sorted_keys bcmp m \<Longrightarrow> pend (map_put bcmp key val m) = insert key (pend m)"
  by (induction m) (auto split: if_splits)

lemma pend_del: "sorted_keys bcmp m \<Longrightarrow> pend (map_del bcmp key m) = pend m - {key}"
proof (induction m)
  case (Cons e m)
  obtain k v where e: "e = (k, v)" by (cases e)
  then have "k \<notin> pend m" using Cons.prems by (auto simp: sorted_pending_Cons simp del: sorted_keys_simps)
  then show ?case using Cons by (auto simp: e)
qed simp

lemma with_value_simps:
  assumes "table_ok t"
  shows "table_ok (with_value key val t)"
    and "pend (tt_values (with_value key val t)) = insert key (pend (tt_values t))"
    and "set (tt_deletes (with_value key val t)) = set (tt_deletes t) - {key}"
proof -
  have t: "sorted_keys bcmp (tt_values t)" "sorted_set (tt_deletes t)" "pend (tt_values t) \<inter> set (tt_deletes t) = {}"
    using assms by (simp_all add: table_ok_def)
  show p: "pend (tt_values (with_value key val t)) = insert key (pend (tt_values t))"
    and d: "set (tt_deletes (with_value key val t)) = set (tt_deletes t) - {key}"
    using t by (simp_all add: with_value_def pend_put set_del_set)
  have "sorted_keys bcmp (tt_values (with_value key val t))" "sorted_set (tt_deletes (with_value key val t))"
    using t key_map.put_sorted [OF TrueI _ t(1)] set_del_sorted by (simp_all add: with_value_def)
  then show "table_ok (with_value key val t)" using t(3) p d by (auto simp: table_ok_def)
qed

lemma without_key_simps:
  assumes "table_ok t"
  shows "table_ok (without_key key t)"
    and "pend (tt_values (without_key key t)) = pend (tt_values t) - {key}"
    and "set (tt_deletes (without_key key t)) = insert key (set (tt_deletes t))"
proof -
  have t: "sorted_keys bcmp (tt_values t)" "sorted_set (tt_deletes t)" "pend (tt_values t) \<inter> set (tt_deletes t) = {}"
    using assms by (simp_all add: table_ok_def)
  show p: "pend (tt_values (without_key key t)) = pend (tt_values t) - {key}"
    and d: "set (tt_deletes (without_key key t)) = insert key (set (tt_deletes t))"
    using t by (simp_all add: without_key_def pend_del)
  have "sorted_keys bcmp (tt_values (without_key key t))" "sorted_set (tt_deletes (without_key key t))"
    using t key_map.del_sorted [OF t(1)] set_put_sorted by (simp_all add: without_key_def)
  then show "table_ok (without_key key t)" using t(3) p d by (auto simp: table_ok_def)
qed

lemma notifyPut_unfold:
  assumes "li_at ldb (ti_it it) p" "ci_at (ti_ins it) q" "p \<noteq> tail (\<not> ti_fwd it)" "q \<noteq> tail (\<not> ti_fwd it)"
  shows "notifyPut ldb t key it =
    (if (\<exists>a. p = PKey a \<and> dle (ti_fwd it) a key) \<and> (\<forall>b. q = PKey b \<longrightarrow> \<not> dle (ti_fwd it) b key)
     then ins_step t (\<not> ti_fwd it) it else Inr it)"
proof (cases "ti_fwd it")
  case True
  then show ?thesis
    using assms by (cases p; cases q) (auto simp: notifyPut_def ins_step_def ci_step_def ci_isEnd_def dle_def bcmp_kle Let_def)
next
  case False
  have eq: "key = x \<longleftrightarrow> kle key x \<and> kle x key" for x using kle_antisym by auto
  have tot: "kle key (ldb_key ldb (li_it (ti_it it))) \<or> kle (ldb_key ldb (li_it (ti_it it))) key"
    "kle key (the (ci_it (ti_ins it))) \<or> kle (the (ci_it (ti_ins it))) key" by (rule kle_total)+
  show ?thesis
    using False assms tot
    by (cases p; cases q) (auto simp: notifyPut_def ins_step_def ci_step_def ci_isEnd_def dle_def bcmp_kle Let_def eq)
qed

lemma notifyPut_ok:
  assumes "table_ok t" "key \<notin> set (tt_deletes t)" "stands ldb db fwd t r it"
  shows "\<exists>it'. notifyPut ldb (with_value key val t) key it = Inr it' \<and> stands ldb db fwd (with_value key val t) r it'"
proof -
  let ?t = "with_value key val t"
  note t' = with_value_simps [OF assms(1), of key val]
  have live: "live_keys db ?t = live_keys db t" using t'(3) assms(2) by (auto simp: live_keys_def)
  show ?thesis
  proof (cases "\<exists>k. r = PKey k")
    case False
    then have r: "r = tail fwd" "li_at ldb (ti_it it) r" "ci_at (ti_ins it) r" "ti_fwd it = fwd"
      using assms(3) by (cases r; simp)+
    then have "notifyPut ldb ?t key it = Inr it"
      using notifyPut_unfold [OF r(2,3), of ?t key] tail_simps(5) [of fwd] by auto
    then show ?thesis using assms(3) r by (cases fwd) auto
  next
    case True
    then obtain k where k: "r = PKey k" "on_key ldb db fwd t k it" using assms(3) by auto
    let ?L = "live_keys db t" and ?I = "pend (tt_values t)"
    obtain p q where pq: "li_at ldb (ti_it it) p" "nearest fwd {x \<in> ?L. dle fwd k x} p"
      "ci_at (ti_ins it) q" "nearest fwd {x \<in> ?I. dle fwd k x} q"
      and it: "ti_fwd it = fwd" "\<not> ti_invalid it" "k \<in> ?L \<union> ?I"
      using k(2) by (auto simp: on_key_def)
    note put = notifyPut_unfold [OF pq(1,3), unfolded it(1), OF nearest_not_head [OF pq(2)] nearest_not_head [OF pq(4)], of ?t key]
    have on: "on_key ldb db fwd ?t k (it\<lparr>ti_ins := j\<rparr>)"
      if "ci_at j q'" "nearest fwd {x \<in> insert key ?I. dle fwd k x} q'" for j q'
      using that pq(1,2) it t'(2) live by (auto simp: on_key_def)
    consider (before) "\<not> dle fwd k key" | (here) b where "dle fwd k key" "q = PKey b" "dle fwd b key"
      | (move) "dle fwd k key" "\<And>b. q = PKey b \<Longrightarrow> \<not> dle fwd b key" by blast
    then show ?thesis
    proof cases
      case before
      then have "notifyPut ldb ?t key it = Inr it"
        using put pq(2) by (auto simp: nearest_def dest: dle_trans)
      moreover have "{x \<in> insert key ?I. dle fwd k x} = {x \<in> ?I. dle fwd k x}" using before by auto
      ultimately show ?thesis using on [of "ti_ins it" q] pq(3,4) k(1) by simp
    next
      case here
      then have "notifyPut ldb ?t key it = Inr it" using put by auto
      moreover have "nearest fwd {x \<in> insert key ?I. dle fwd k x} q" using here pq(4) by (auto simp: nearest_def)
      ultimately show ?thesis using on [of "ti_ins it" q] pq(3) k(1) by simp
    next
      case move
      have "k \<notin> ?I"
      proof
        assume "k \<in> ?I"
        then have "q = PKey k" using pq(4) nearest_from(1) by blast
        then show False using move by blast
      qed
      then have p: "p = PKey k" using pq(2) it(3) nearest_from(1) by blast
      then have "notifyPut ldb ?t key it = ins_step ?t (\<not> fwd) it" using put move by auto
      moreover obtain j r' where j: "ins_step ?t (\<not> fwd) it = Inr (it\<lparr>ti_ins := j\<rparr>)" "ci_at j r'"
        "nearest (\<not> fwd) {x \<in> insert key ?I. behind (\<not> fwd) q x} r'"
      proof -
        have "q = PKey b \<Longrightarrow> b \<in> pend (tt_values ?t)" for b using pq(4) t'(2) by (auto simp: nearest_def)
        then show ?thesis
          using ins_step_ok [OF t'(1) pq(3) nearest_not_head [OF pq(4)]] that unfolding t'(2) by blast
      qed
      moreover have "r' = PKey key"
      proof -
        have "behind (\<not> fwd) q key" using move by (cases q) auto
        moreover have "dle fwd x key" if x: "x \<in> insert key ?I" "behind (\<not> fwd) q x" for x
        proof (rule ccontr)
          assume n: "\<not> dle fwd x key"
          then have "x \<in> {x \<in> ?I. dle fwd k x}" using x move(1) dle_total [of fwd x key] dle_trans [of fwd k key x] by auto
          then obtain b where "q = PKey b" "dle fwd b x" using pq(4) by (auto simp: nearest_def)
          then show False using x(2) by simp
        qed
        ultimately have "nearest (\<not> fwd) {x \<in> insert key ?I. behind (\<not> fwd) q x} (PKey key)"
          by (simp add: nearest_def)
        then show ?thesis using j(3) nearest_unique by blast
      qed
      moreover have "nearest fwd {x \<in> insert key ?I. dle fwd k x} (PKey key)"
      proof -
        have "dle fwd key x" if "x \<in> ?I" "dle fwd k x" for x
        proof (cases q)
          case (PKey b)
          then have "dle fwd b x" "\<not> dle fwd b key" using pq(4) that move(2) by (auto simp: nearest_def)
          then show ?thesis using dle_total [of fwd key x] dle_trans [of fwd b x key] by blast
        qed (use pq(4) that in \<open>auto simp: nearest_def\<close>)
        then show ?thesis using move(1) by (auto simp: nearest_def)
      qed
      ultimately show ?thesis using on [of j "PKey key"] k(1) by simp
    qed
  qed
qed

section \<open>Deleting the current key\<close>

text \<open>After the deletion of the key the iterator stands on: the moves are made, or one is still due.\<close>

definition after_del ::
  "'it ldb \<Rightarrow> (dbkey \<Rightarrow> byte list option) \<Rightarrow> bool \<Rightarrow> 'it table_txn \<Rightarrow> dbkey \<Rightarrow> 'it txn_iter \<Rightarrow> bool" where
  "after_del ldb db fwd t k it \<longleftrightarrow> ti_fwd it = fwd \<and>
     (\<exists>p q. li_at ldb (ti_it it) p \<and> ci_at (ti_ins it) q \<and>
        nearest fwd {x \<in> pend (tt_values t). dlt fwd k x} q \<and>
        (if ti_invalid it then nearest fwd {x \<in> live_keys db t. dlt fwd k x} p else p = PKey k))"

lemma notifyDelete_ok:
  assumes "ldb_ok ldb db" "table_ok t" "on_key ldb db fwd t k it"
  shows "\<exists>it'. notifyDelete ldb t k it = Inr it' \<and> after_del ldb db fwd (without_key k t) k it'"
proof -
  let ?L = "live_keys db t" and ?I = "pend (tt_values t)" and ?t = "without_key k t"
  obtain p q where pq: "li_at ldb (ti_it it) p" "nearest fwd {x \<in> ?L. dle fwd k x} p"
    "ci_at (ti_ins it) q" "nearest fwd {x \<in> ?I. dle fwd k x} q"
    and it: "ti_fwd it = fwd" "\<not> ti_invalid it" "k \<in> ?L \<union> ?I"
    using assms(3) by (auto simp: on_key_def)
  have sets: "{x \<in> live_keys db ?t. dlt fwd k x} = {x \<in> ?L. dlt fwd k x}"
    "{x \<in> pend (tt_values ?t). dlt fwd k x} = {x \<in> ?I. dlt fwd k x}"
    using without_key_simps [OF assms(2), of k] by (auto simp: live_keys_def)
  have no_tail: "\<not> ti_isBegin it" "\<not> ti_isEnd it" using on_key_shows [OF assms(3)] by simp_all
  have not_in: "{x \<in> S. dle fwd k x} = {x \<in> S. dlt fwd k x}" if "k \<notin> S" for S
    using that nearest_from(2) by blast
  show ?thesis
  proof (cases "k \<in> ?I")
    case False
    then have p: "p = PKey k" using it(3) pq(2) nearest_from(1) by blast
    moreover have "q \<noteq> PKey k" using False pq(4) by (auto simp: nearest_def)
    then have "notifyDelete ldb t k it = Inr it"
      using pq(3) by (cases q) (auto simp: notifyDelete_def ci_isValid_def ci_isEnd_def)
    ultimately show ?thesis
      using pq it sets not_in [OF False] unfolding after_del_def by (intro exI [of _ it] conjI exI [of _ p] exI [of _ q]) simp_all
  next
    case True
    then have q: "q = PKey k" using pq(4) nearest_from(1) by blast
    then have ins: "ci_isValid (ti_ins it)" "the (ci_it (ti_ins it)) = k" "ci_it (ti_ins it) = Some k" "\<not> ci_start (ti_ins it)"
      using pq(3) by (auto simp: ci_isValid_def ci_isEnd_def)
    have cmp: "it_compare ldb (ti_it it) (ti_ins it) = EQ \<longleftrightarrow> p = PKey k"
      using pq(1) ins kle_antisym by (cases p) (auto simp: it_compare_def ci_isEnd_def Let_def bcmp_kle)
    have code: "notifyDelete ldb t k it =
      rbind (if p = PKey k then rbind (it_step ldb t fwd it) (ins_step t fwd) else ins_step t fwd it)
        (\<lambda>it'. Inr (it'\<lparr>ti_invalid := True\<rparr>))"
      using ins no_tail it(1) cmp by (cases fwd) (auto simp: notifyDelete_def step_folds)
    have I: "\<exists>j q'. ins_step t fwd it' = Inr (it'\<lparr>ti_ins := j\<rparr>) \<and> ci_at j q' \<and> nearest fwd {x \<in> ?I. dlt fwd k x} q'"
      if "ti_ins it' = ti_ins it" for it'
      using ins_step_ok [OF assms(2), of it' q fwd] that True q pq(3) by simp
    have fin: "after_del ldb db fwd ?t k (it\<lparr>ti_it := i, ti_ins := j, ti_invalid := True\<rparr>)"
      if "li_at ldb i p'" "nearest fwd {x \<in> ?L. dlt fwd k x} p'" "ci_at j q'" "nearest fwd {x \<in> ?I. dlt fwd k x} q'"
      for i j p' q'
      using that it(1) sets by (auto simp: after_del_def)
    show ?thesis
    proof (cases "p = PKey k")
      case same: True
      obtain i p' where i: "it_step ldb t fwd it = Inr (it\<lparr>ti_it := i\<rparr>)" "li_at ldb i p'"
        "nearest fwd {x \<in> ?L. dlt fwd k x} p'"
        using it_step_ok [OF assms(1) it(1) pq(1), of t] same by auto
      obtain j q' where "ins_step t fwd (it\<lparr>ti_it := i\<rparr>) = Inr (it\<lparr>ti_it := i, ti_ins := j\<rparr>)" "ci_at j q'"
        "nearest fwd {x \<in> ?I. dlt fwd k x} q'"
        using I [of "it\<lparr>ti_it := i\<rparr>"] by auto
      then show ?thesis using code same i fin [of i p' j q'] by simp
    next
      case False
      then have "k \<notin> ?L" using pq(2) nearest_from(1) by blast
      then have "nearest fwd {x \<in> ?L. dlt fwd k x} p" using pq(2) not_in by simp
      moreover obtain j q' where "ins_step t fwd it = Inr (it\<lparr>ti_ins := j\<rparr>)" "ci_at j q'"
        "nearest fwd {x \<in> ?I. dlt fwd k x} q'"
        using I [of it] by auto
      ultimately show ?thesis using code False pq(1) fin [of "ti_it it" p j q'] by simp
    qed
  qed
qed

text \<open>The next move leads to the key behind the deleted one; at the very end the assertion of the move fails.\<close>

lemma after_del_move:
  assumes "ldb_ok ldb db" "table_ok t" "after_del ldb db fwd t k it" "k \<notin> visible db t"
    and "{x \<in> visible db t. dlt fwd k x} \<noteq> {} \<or> \<not> ti_invalid it"
  shows "\<exists>it' r. ti_move fwd ldb t it = Inr it' \<and> stands ldb db fwd t r it' \<and>
    nearest fwd {x \<in> visible db t. dlt fwd k x} r"
proof -
  let ?L = "live_keys db t" and ?I = "pend (tt_values t)"
  obtain p q where pq: "li_at ldb (ti_it it) p" "ci_at (ti_ins it) q" "nearest fwd {x \<in> ?I. dlt fwd k x} q"
    "if ti_invalid it then nearest fwd {x \<in> ?L. dlt fwd k x} p else p = PKey k" and it: "ti_fwd it = fwd"
    using assms(3) by (auto simp: after_del_def)
  have up: "\<And>x y. dlt fwd k x \<Longrightarrow> dle fwd x y \<Longrightarrow> dlt fwd k y" using dle_trans by blast
  have heads: "p \<noteq> tail (\<not> fwd)" "q \<noteq> tail (\<not> fwd)"
    using pq(3,4) nearest_not_head by (auto split: if_splits)
  have fin: ?thesis if "ti_move fwd ldb t it = Inr (it\<lparr>ti_it := i, ti_invalid := False\<rparr>)" "li_at ldb i p'"
    "nearest fwd {x \<in> ?L. dlt fwd k x} p'" for i p'
  proof -
    have "\<exists>r. stands ldb db fwd t r (it\<lparr>ti_it := i, ti_invalid := False\<rparr>) \<and> nearest fwd {x \<in> visible db t. dlt fwd k x} r"
      by (rule settle [where p = p' and q = q]) (use that it pq in \<open>simp_all, blast intro: dle_trans\<close>)
    then show ?thesis using that(1) by blast
  qed
  show ?thesis
  proof (cases "ti_invalid it")
    case True
    then have p: "nearest fwd {x \<in> ?L. dlt fwd k x} p" using pq(4) by simp
    have "p \<noteq> tail fwd \<or> q \<noteq> tail fwd"
    proof (rule ccontr)
      assume "\<not> (p \<noteq> tail fwd \<or> q \<noteq> tail fwd)"
      then have "{x \<in> visible db t. dlt fwd k x} = {}" using p pq(3) by (auto simp: visible_def nearest_def)
      then show False using assms(5) True by simp
    qed
    then have "ti_move fwd ldb t it = Inr (it\<lparr>ti_it := ti_it it, ti_invalid := False\<rparr>)"
      using True it heads pq(1,2)
      by (cases fwd; cases p; cases q) (auto simp: ti_move_def ti_next_def ti_prev_def ti_isEnd_def ti_isBegin_def ci_isEnd_def)
    then show ?thesis using fin pq(1) p by blast
  next
    case False
    then have p: "p = PKey k" using pq(4) by simp
    have "ti_move fwd ldb t it = ti_step fwd ldb t it"
      using False it pq(1) p
      by (cases fwd) (auto simp: ti_move_def ti_next_def ti_prev_def ti_isEnd_def ti_isBegin_def ti_step_def)
    also have "\<dots> = it_step ldb t fwd it"
    proof (cases "q = tail fwd")
      case False
      then obtain b where b: "q = PKey b" "dlt fwd k b" using pq(3) by (auto simp: nearest_def)
      then show ?thesis using ti_step_moves(3) [OF pq(1,2) heads p] dlt_dle [of fwd k b] by auto
    qed (rule ti_step_moves(1) [OF pq(1,2) heads])
    finally have "ti_move fwd ldb t it = it_step ldb t fwd it" .
    moreover obtain i p' where "it_step ldb t fwd it = Inr (it\<lparr>ti_it := i\<rparr>)" "li_at ldb i p'"
      "nearest fwd {x \<in> ?L. behind fwd p x} p'"
      using it_step_ok [OF assms(1) it pq(1), of t] p by auto
    moreover have "it\<lparr>ti_it := i, ti_invalid := False\<rparr> = it\<lparr>ti_it := i\<rparr>" using False by simp
    ultimately show ?thesis using fin [of i p'] p by simp
  qed
qed

section \<open>The transaction as a map\<close>

lemma tt_Get_with_value:
  "table_ok t \<Longrightarrow> tt_Get db k (with_value key val t) = (if k = key then Some val else tt_Get db k t)"
proof -
  assume t: "table_ok t"
  then have "sorted_keys bcmp (tt_values t)" by (simp add: table_ok_def)
  then have g: "map_get bcmp k (tt_values (with_value key val t)) = (if key = k then Some val else map_get bcmp k (tt_values t))"
    by (simp add: key_map.get_put with_value_def)
  show ?thesis
    using g by (cases "k = key") (auto simp: tt_Get_def isDeleted_iff with_value_simps(3) [OF t])
qed

lemma tt_Get_without_key:
  "table_ok t \<Longrightarrow> tt_Get db k (without_key key t) = (if k = key then None else tt_Get db k t)"
proof -
  assume t: "table_ok t"
  then have "sorted_keys bcmp (tt_values t)" by (simp add: table_ok_def)
  then have g: "map_get bcmp k (tt_values (without_key key t)) = (if key = k then None else map_get bcmp k (tt_values t))"
    by (simp add: key_map.get_del without_key_def)
  show ?thesis
    using g by (cases "k = key") (auto simp: tt_Get_def isDeleted_iff without_key_simps(3) [OF t])
qed

lemma commit_deletes: "foldl batch_write db (map BatchDelete ks) = (\<lambda>k. if k \<in> set ks then None else db k)"
  by (induction ks arbitrary: db) auto

lemma commit_puts:
  "sorted_keys bcmp m \<Longrightarrow> foldl batch_write db (map (\<lambda>(k, v). BatchPut k v) m) =
     (\<lambda>k. case map_get bcmp k m of Some v \<Rightarrow> Some v | None \<Rightarrow> db k)"
proof (induction m arbitrary: db)
  case (Cons e m)
  obtain a b where e: "e = (a, b)" by (cases e)
  then have "map_get bcmp a m = None"
    using Cons.prems by (auto simp: map_get_pend sorted_pending_Cons simp del: sorted_keys_simps)
  then show ?case using Cons by (auto simp: e fun_eq_iff split: option.split)
qed simp

lemma commit_view: "table_ok t \<Longrightarrow> commitImpl None db t = Inr (\<lambda>k. tt_Get db k t, tt_cleanup t)"
proof -
  assume t: "table_ok t"
  then have "sorted_keys bcmp (tt_values t)" by (simp add: table_ok_def)
  moreover have "map_get bcmp k (tt_values t) = None" if "k \<in> set (tt_deletes t)" for k
    using that t by (auto simp: table_ok_def map_get_pend)
  ultimately show ?thesis
    by (auto simp: commitImpl_def commit_batch_def commit_deletes commit_puts tt_Get_def isDeleted_iff fun_eq_iff
        split: option.split)
qed

section \<open>A database to run it on\<close>

definition list_ldb :: "pending \<Rightarrow> dbkey option ldb" where
  "list_ldb m = \<lparr>ldb_first = map_begin m, ldb_last = map_before None m, ldb_seek = (\<lambda>key. map_lower_bound key m),
     ldb_next = (\<lambda>it. map_after (the it) m), ldb_prev = (\<lambda>it. map_before it m),
     ldb_valid = (\<lambda>it. case it of None \<Rightarrow> False | Some k \<Rightarrow> map_get bcmp k m \<noteq> None),
     ldb_key = the, ldb_value = (\<lambda>it. the (map_get bcmp (the it) m))\<rparr>"

lemma list_ldb_simps:
  "ldb_first (list_ldb m) = map_begin m" "ldb_last (list_ldb m) = map_before None m"
  "ldb_seek (list_ldb m) key = map_lower_bound key m" "ldb_next (list_ldb m) it = map_after (the it) m"
  "ldb_prev (list_ldb m) it = map_before it m" "ldb_value (list_ldb m) it = the (map_get bcmp (the it) m)"
  by (simp_all add: list_ldb_def)

lemma list_ldb_ok:
  assumes "sorted_keys bcmp m"
  shows "ldb_ok (list_ldb m) (\<lambda>k. map_get bcmp k m)"
proof -
  have d: "dom (\<lambda>k. map_get bcmp k m) = pend m" by (auto simp: dom_def map_get_pend)
  have v: "ldb_valid (list_ldb m) (Some k) \<longleftrightarrow> k \<in> pend m" "\<not> ldb_valid (list_ldb m) None"
    "ldb_key (list_ldb m) (Some k) = k" for k
    using map_get_pend [of k m] by (auto simp: list_ldb_def)
  have p: "nearest True S (case it of None \<Rightarrow> PEnd | Some k \<Rightarrow> PKey k) \<Longrightarrow> S \<subseteq> pend m \<Longrightarrow>
      nearest True S (ldb_pos (list_ldb m) True it)"
    "nearest False S (case it of None \<Rightarrow> PBegin | Some k \<Rightarrow> PKey k) \<Longrightarrow> S \<subseteq> pend m \<Longrightarrow>
      nearest False S (ldb_pos (list_ldb m) False it)" for S it
    using v by (cases it; auto simp: ldb_pos_def nearest_def)+
  note b = map_begin_nearest [OF assms] map_lookups [OF assms]
  have "nearest True (pend m) (ldb_pos (list_ldb m) True (map_begin m))"
    "nearest False (pend m) (ldb_pos (list_ldb m) False (map_before None m))"
    "nearest True {x \<in> pend m. kle key x} (ldb_pos (list_ldb m) True (map_lower_bound key m))"
    "nearest True {x \<in> pend m. \<not> kle x key} (ldb_pos (list_ldb m) True (map_after key m))"
    "nearest False {x \<in> pend m. \<not> kle key x} (ldb_pos (list_ldb m) False (map_before (Some key) m))" for key
    by (rule p, rule b, blast)+
  then show ?thesis
    unfolding ldb_ok_def d using v map_get_pend [of _ m]
    by (simp add: list_ldb_simps split_option_all)
qed

lemma live_keys_list: "live_keys (\<lambda>k. map_get bcmp k m) t = pend m - set (tt_deletes t)"
  by (auto simp: live_keys_def dom_def map_get_pend)

section \<open>The contract\<close>

definition table_ex :: "dbkey option table_txn" where
  "table_ex = \<lparr>tt_values = [([2], [20])], tt_deletes = [[3]], tt_iters = []\<rparr>"

definition db_ex :: pending where
  "db_ex = [([1], [1]), ([3], [3]), ([4], [4])]"

definition iter_ex :: "dbkey option txn_iter" where
  "iter_ex = \<lparr>ti_fwd = True, ti_invalid = False, ti_it = \<lparr>li_it = Some [4], li_start = False, li_end = False\<rparr>,
     ti_ins = \<lparr>ci_it = Some [2], ci_start = False\<rparr>\<rparr>"

text \<open>
  C18. The iterator of a transaction is a cursor on what the transaction's \<^verbatim>\<open>Get\<close> shows: wherever it stands and
  whichever way it came, \<^verbatim>\<open>next\<close> and \<^verbatim>\<open>prev\<close> succeed, lead to the next visible key in their direction,
  and show that key with its value; past the last visible key the iterator is no longer valid.
\<close>

theorem iterator_moves:
  assumes "ldb_ok ldb db" "table_ok t" "cursor_at ldb db t r it" "r \<noteq> tail fwd"
  shows "\<exists>it' r'. (if fwd then ti_next ldb t it else ti_prev ldb t it) = Inr it' \<and> cursor_at ldb db t r' it' \<and>
    nearest fwd {k. tt_Get db k t \<noteq> None \<and> behind fwd r k} r' \<and>
    (case r' of PKey k \<Rightarrow> ti_isValid it' \<and> getKey ldb it' = k \<and> tt_Get db k t = Some (getValue ldb t it')
     | _ \<Rightarrow> \<not> ti_isValid it')"
proof -
  obtain it' r' where m: "ti_move fwd ldb t it = Inr it'" "stands ldb db fwd t r' it'"
    "nearest fwd {x \<in> visible db t. behind fwd r x} r'"
    using ti_move_ok [OF assms] by blast
  moreover have "{x \<in> visible db t. behind fwd r x} = {k. tt_Get db k t \<noteq> None \<and> behind fwd r k}"
    using visible_iff [OF assms(2)] by blast
  moreover have "cursor_at ldb db t r' it'" using m(2) by (auto simp: cursor_at_def)
  ultimately show ?thesis
    using cursor_shows [OF assms(1,2)] by (intro exI [of _ it'] exI [of _ r']) (auto simp: ti_move_def)
qed

lemma iter_ex_stands: "ldb_ok (list_ldb db_ex) (\<lambda>k. map_get bcmp k db_ex)" "table_ok table_ex"
  "cursor_at (list_ldb db_ex) (\<lambda>k. map_get bcmp k db_ex) table_ex (PKey [2]) iter_ex"
proof -
  show "ldb_ok (list_ldb db_ex) (\<lambda>k. map_get bcmp k db_ex)"
    by (rule list_ldb_ok) (simp add: db_ex_def bcmp_Cons MojComp_def)
  show "table_ok table_ex" by (simp add: table_ok_def table_ex_def)
  have L: "live_keys (\<lambda>k. map_get bcmp k db_ex) table_ex = {[1], [4]}"
    unfolding live_keys_list by (auto simp: table_ex_def db_ex_def)
  have cmp: "\<not> dle True [2] [1]" "dle True [2] [4]" by (simp_all add: dle_def kle_def bcmp_Cons MojComp_def)
  have "nearest True {x \<in> live_keys (\<lambda>k. map_get bcmp k db_ex) table_ex. dle True [2] x} (PKey [4])"
    unfolding L nearest_def using cmp by auto
  moreover have "[2] \<in> live_keys (\<lambda>k. map_get bcmp k db_ex) table_ex \<union> pend (tt_values table_ex)"
    by (simp add: table_ex_def)
  moreover have "nearest True {x \<in> pend (tt_values table_ex). dle True [2] x} (PKey [2])"
    by (auto simp: nearest_def table_ex_def)
  moreover have "li_at (list_ldb db_ex) (ti_it iter_ex) (PKey [4])" "ci_at (ti_ins iter_ex) (PKey [2])"
    "ti_fwd iter_ex" "\<not> ti_invalid iter_ex"
    by (simp_all add: iter_ex_def list_ldb_def db_ex_def)
  ultimately have "on_key (list_ldb db_ex) (\<lambda>k. map_get bcmp k db_ex) True table_ex [2] iter_ex"
    unfolding on_key_def by blast
  then show "cursor_at (list_ldb db_ex) (\<lambda>k. map_get bcmp k db_ex) table_ex (PKey [2]) iter_ex"
    by (auto simp: cursor_at_def intro: exI [of _ True])
qed

theorem iterator_moves_witness:
  "\<exists>it' r'. (if False then ti_next (list_ldb db_ex) table_ex iter_ex else ti_prev (list_ldb db_ex) table_ex iter_ex) = Inr it' \<and>
    cursor_at (list_ldb db_ex) (\<lambda>k. map_get bcmp k db_ex) table_ex r' it' \<and>
    nearest False {k. tt_Get (\<lambda>k. map_get bcmp k db_ex) k table_ex \<noteq> None \<and> behind False (PKey [2]) k} r' \<and>
    (case r' of PKey k \<Rightarrow> ti_isValid it' \<and> getKey (list_ldb db_ex) it' = k \<and>
        tt_Get (\<lambda>k. map_get bcmp k db_ex) k table_ex = Some (getValue (list_ldb db_ex) table_ex it')
     | _ \<Rightarrow> \<not> ti_isValid it')"
  by (rule iterator_moves [OF iter_ex_stands]) simp

text \<open>
  C19. A put of a key that was not deleted in the same transaction before keeps every iterator of the
  transaction where it stands, and the transaction shows the new value, for every other key what it
  showed. (A put over a key deleted in the transaction misplaces iterators: \<open>put_over_deleted\<close>.)
\<close>

theorem put_keeps_cursors:
  assumes "table_ok t" "\<not> isDeleted key t" "\<forall>it \<in> set (tt_iters t). \<exists>r. cursor_at ldb db t r it"
  shows "\<exists>t'. tt_Put ldb key val t = Inr t' \<and> table_ok t' \<and>
    (\<forall>k. tt_Get db k t' = (if k = key then Some val else tt_Get db k t)) \<and>
    list_all2 (\<lambda>it it'. \<exists>r. cursor_at ldb db t r it \<and> cursor_at ldb db t' r it') (tt_iters t) (tt_iters t')"
proof -
  let ?t = "with_value key val t"
  have "\<exists>its. map_res (notifyPut ldb ?t key) xs = Inr its \<and>
      list_all2 (\<lambda>it it'. \<exists>r. cursor_at ldb db t r it \<and> cursor_at ldb db ?t r it') xs its"
    if "\<forall>it \<in> set xs. \<exists>r. cursor_at ldb db t r it" for xs
    using that
  proof (induction xs)
    case (Cons it xs)
    then obtain r fwd where "stands ldb db fwd t r it" by (auto simp: cursor_at_def)
    then obtain it' where "notifyPut ldb ?t key it = Inr it'" "stands ldb db fwd ?t r it'"
      using notifyPut_ok [OF assms(1) _ \<open>stands ldb db fwd t r it\<close>] assms(2) by (auto simp: isDeleted_iff)
    then have "\<exists>r. cursor_at ldb db t r it \<and> cursor_at ldb db ?t r it'"
      using \<open>stands ldb db fwd t r it\<close> unfolding cursor_at_def by blast
    moreover obtain its where "map_res (notifyPut ldb ?t key) xs = Inr its"
      "list_all2 (\<lambda>it it'. \<exists>r. cursor_at ldb db t r it \<and> cursor_at ldb db ?t r it') xs its"
      using Cons by auto
    ultimately show ?case using \<open>notifyPut ldb ?t key it = Inr it'\<close> by (intro exI [of _ "it' # its"]) simp
  qed simp
  then obtain its where its: "map_res (notifyPut ldb ?t key) (tt_iters t) = Inr its"
    "list_all2 (\<lambda>it it'. \<exists>r. cursor_at ldb db t r it \<and> cursor_at ldb db ?t r it') (tt_iters t) its"
    using assms(3) by blast
  let ?t' = "?t\<lparr>tt_iters := its\<rparr>"
  have same: "tt_Get db k ?t' = tt_Get db k ?t" "table_ok ?t' = table_ok ?t" "cursor_at ldb db ?t' r it = cursor_at ldb db ?t r it"
    for k r it
  proof -
    have "stands ldb db fwd ?t' r it = stands ldb db fwd ?t r it" for fwd
      by (cases r) (simp_all add: on_key_def live_keys_def)
    then show "cursor_at ldb db ?t' r it = cursor_at ldb db ?t r it" by (simp add: cursor_at_def)
  qed (simp_all add: tt_Get_def isDeleted_def table_ok_def)
  show ?thesis
    using its same with_value_simps(1) [OF assms(1)] tt_Get_with_value [OF assms(1)]
    by (intro exI [of _ ?t']) (simp add: tt_Put_def with_value_def)
qed

theorem put_keeps_cursors_witness:
  "\<exists>t'. tt_Put (list_ldb db_ex) [3, 1] [31] (table_ex\<lparr>tt_iters := [iter_ex]\<rparr>) = Inr t' \<and> table_ok t' \<and>
    (\<forall>k. tt_Get (\<lambda>k. map_get bcmp k db_ex) k t' =
       (if k = [3, 1] then Some [31] else tt_Get (\<lambda>k. map_get bcmp k db_ex) k (table_ex\<lparr>tt_iters := [iter_ex]\<rparr>))) \<and>
    list_all2 (\<lambda>it it'. \<exists>r. cursor_at (list_ldb db_ex) (\<lambda>k. map_get bcmp k db_ex) (table_ex\<lparr>tt_iters := [iter_ex]\<rparr>) r it \<and>
        cursor_at (list_ldb db_ex) (\<lambda>k. map_get bcmp k db_ex) t' r it') (tt_iters (table_ex\<lparr>tt_iters := [iter_ex]\<rparr>)) (tt_iters t')"
proof (rule put_keeps_cursors)
  show "table_ok (table_ex\<lparr>tt_iters := [iter_ex]\<rparr>)" "\<not> isDeleted [3, 1] (table_ex\<lparr>tt_iters := [iter_ex]\<rparr>)"
    by (simp_all add: table_ok_def table_ex_def isDeleted_iff)
  have "cursor_at (list_ldb db_ex) (\<lambda>k. map_get bcmp k db_ex) (table_ex\<lparr>tt_iters := [iter_ex]\<rparr>) (PKey [2]) iter_ex"
    using iter_ex_stands(3) by (simp add: cursor_at_def on_key_def live_keys_def)
  then show "\<forall>it \<in> set (tt_iters (table_ex\<lparr>tt_iters := [iter_ex]\<rparr>)).
      \<exists>r. cursor_at (list_ldb db_ex) (\<lambda>k. map_get bcmp k db_ex) (table_ex\<lparr>tt_iters := [iter_ex]\<rparr>) r it"
    by auto
qed

text \<open>
  C20. A commit makes the database what the transaction showed: what is written to it is a database in
  which every key has the value that \<^verbatim>\<open>Get\<close> returned.
\<close>

theorem commit_shows:
  assumes "table_ok t"
  shows "\<exists>db' t'. commitImpl None db t = Inr (db', t') \<and> (\<forall>k. db' k = tt_Get db k t) \<and>
    (\<forall>k. tt_Get db' k t' = tt_Get db k t)"
proof -
  have "tt_Get db' k (tt_cleanup t) = db' k" for db' k
    by (simp add: tt_Get_def tt_cleanup_def isDeleted_iff)
  then show ?thesis using commit_view [OF assms, of db] by auto
qed

theorem commit_shows_witness:
  "\<exists>db' t'. commitImpl None (\<lambda>k. map_get bcmp k db_ex) table_ex = Inr (db', t') \<and>
    (\<forall>k. db' k = tt_Get (\<lambda>k. map_get bcmp k db_ex) k table_ex) \<and>
    (\<forall>k. tt_Get db' k t' = tt_Get (\<lambda>k. map_get bcmp k db_ex) k table_ex)"
  by (rule commit_shows) (rule iter_ex_stands)

section \<open>What goes wrong\<close>

text \<open>
  A put over a key that was deleted in the transaction: the database's iterator has skipped the key and is not told
  that it counts again. The iterator stood on a key in front of it; the next \<^verbatim>\<open>prev\<close> fails an assertion.
\<close>

lemma put_over_deleted:
  "cursor_at (list_ldb db_ex) (\<lambda>k. map_get bcmp k db_ex) table_ex (PKey [2]) iter_ex"
  "(case tt_Put (list_ldb db_ex) [3] [31] (table_ex\<lparr>tt_iters := [iter_ex]\<rparr>) of
      Inl e \<Rightarrow> False
    | Inr t' \<Rightarrow> ti_prev (list_ldb db_ex) t' (hd (tt_iters t')) = Inl MojAssertFailed)"
  by (rule iter_ex_stands(3)) code_simp

text \<open>
  The deletion of a pending key that the iterator has not reached marks the iterator invalid, although it
  stands on another key: a scan ends, and the next move does not leave the key.
\<close>

lemma delete_ahead_stops:
  "\<exists>it. notifyDelete (list_ldb [([1], [1])]) \<lparr>tt_values = [([2], [2])], tt_deletes = [], tt_iters = []\<rparr> [2]
      \<lparr>ti_fwd = True, ti_invalid = False, ti_it = \<lparr>li_it = Some [1], li_start = False, li_end = False\<rparr>,
        ti_ins = \<lparr>ci_it = Some [2], ci_start = False\<rparr>\<rparr> = Inr it \<and> \<not> ti_isValid it"
  by (simp add: notifyDelete_def ci_isValid_def ci_isEnd_def ti_isBegin_def it_compare_def list_ldb_def bcmp_Cons
      ci_next_def ti_isValid_def Let_def)

end
