(* ===== verification/DbPermit.thy ===== *)
theory DbPermit
  imports JsonWrite
begin

text \<open>
  \<^verbatim>\<open>MojDbPutHandler\<close> (\<^verbatim>\<open>src/db/MojDbPutHandler.cpp\<close>) and \<^verbatim>\<open>MojDbPermissionEngine\<close>
  (\<^verbatim>\<open>src/db/MojDbPermissionEngine.cpp\<close>): the permissions of a caller on an object, where a caller
  may be a wildcard expression. The maps of callers are ordered with the longest expression first, so
  that the first expression that matches a caller is the most specific one.
\<close>

section \<open>Wildcards\<close>

definition LengthComp :: "string \<Rightarrow> string \<Rightarrow> int" where
  "LengthComp val1 val2 =
     (let len1 = length (cstr val1); len2 = length (cstr val2) in
      if len1 = len2 then MojStrCmp val1 val2 else MojComp len2 len1)"

text \<open>\<^verbatim>\<open>MojString::find\<close> of a character.\<close>

fun str_find :: "char \<Rightarrow> string \<Rightarrow> nat option" where
  "str_find c [] = None"
| "str_find c (d # s) = (if d = c then Some 0 else map_option Suc (str_find c s))"

definition validateWildcard :: "string \<Rightarrow> MojErr \<Rightarrow> unit res" where
  "validateWildcard val errToThrow =
     (if val = [] then Inl errToThrow
      else case str_find (CHR ''*'') val of
        None \<Rightarrow> Inr ()
      | Some pos \<Rightarrow>
          if pos \<noteq> length val - 1 \<or> (pos \<noteq> 0 \<and> val ! (pos - 1) \<noteq> CHR ''.'') then Inl errToThrow
          else Inr ())"

text \<open>\<^verbatim>\<open>MojString::last\<close> asserts that the string is not empty.\<close>

definition matchWildcard :: "string \<Rightarrow> string \<Rightarrow> nat \<Rightarrow> bool res" where
  "matchWildcard expr val len =
     (if expr = [] then Inl MojAssertFailed
      else Inr (last expr = CHR ''*'' \<and> len \<ge> length expr - 1 \<and> MojStrNCmp expr val (length expr - 1) = 0))"

section \<open>Put handlers\<close>

text \<open>
  \<^verbatim>\<open>configure\<close> puts the objects of a property of the configuration, \<^verbatim>\<open>open\<close> those of the configuration
  and then those that the database holds, which \<open>stored\<close> lists as the query finds them.
\<close>

definition handler_configure :: "string \<Rightarrow> (obj \<Rightarrow> 's \<Rightarrow> 's res) \<Rightarrow> obj \<Rightarrow> 's \<Rightarrow> 's res" where
  "handler_configure confProp put conf s =
     (case obj_get confProp conf of
        None \<Rightarrow> Inr s
      | Some (OArray objects) \<Rightarrow> run (\<lambda>s perm. put perm s) s objects
      | Some _ \<Rightarrow> Inr s)"

definition handler_open :: "(obj \<Rightarrow> 's \<Rightarrow> 's res) \<Rightarrow> (obj \<Rightarrow> 's \<Rightarrow> 's res) \<Rightarrow> obj \<Rightarrow> obj list \<Rightarrow> 's \<Rightarrow> 's res" where
  "handler_open configure put conf stored s =
     rbind (configure conf s) (\<lambda>s. run (\<lambda>s perm. put perm s) s stored)"

section \<open>Permissions\<close>

datatype perm_value = ValueUndefined | ValueAllow | ValueDeny

type_synonym op_map = "(string \<times> perm_value) list"
type_synonym caller_map = "(string \<times> op_map) list"

text \<open>The two hash maps find their keys as C strings; their order is never used.\<close>

record perm_engine =
  pe_types :: "string \<Rightarrow> (string \<Rightarrow> caller_map option) option"
  pe_enabled :: bool

definition perm_new :: perm_engine where
  "perm_new = \<lparr>pe_types = (\<lambda>_. None), pe_enabled = True\<rparr>"

definition perm_close :: "perm_engine \<Rightarrow> perm_engine" where
  "perm_close eng = eng\<lparr>pe_types := (\<lambda>_. None)\<rparr>"

definition PermissionType :: string where "PermissionType = ''db.kind''"
definition PermissionId :: string where "PermissionId = ''Permission:1''"
definition KindKey :: string where "KindKey = ''_kind''"
definition ObjIdKey :: string where "ObjIdKey = ''_id''"

definition valueFromString :: "string \<Rightarrow> perm_value res" where
  "valueFromString str =
     (if MojStrCmp str ''allow'' = 0 then Inr ValueAllow
      else if MojStrCmp str ''deny'' = 0 then Inr ValueDeny
      else Inl MojErrDbInvalidPermissions)"

definition perm_operations :: "obj \<Rightarrow> op_map res" where
  "perm_operations operations =
     run (\<lambda>opMap p.
        rbind (obj_stringValue (snd p)) (\<lambda>valStr.
        rbind (valueFromString valStr) (\<lambda>val. Inr (map_put MojStrCmp (fst p) val opMap))))
       [] (ensureObject operations)"

text \<open>The stored form of a permission, with its id and its kind.\<close>

definition perm_stored :: "string \<Rightarrow> string \<Rightarrow> string \<Rightarrow> obj \<Rightarrow> obj" where
  "perm_stored type object caller perm =
     obj_put KindKey (OString PermissionId)
       (obj_put ObjIdKey (OString (''_permissions/'' @ cstr type @ ''-'' @ cstr object @ ''-'' @ cstr caller)) perm)"

definition perm_update :: "string \<Rightarrow> string \<Rightarrow> string \<Rightarrow> op_map \<Rightarrow> perm_engine \<Rightarrow> perm_engine" where
  "perm_update type object caller opMap eng =
     (let objects = (case pe_types eng (cstr type) of Some m \<Rightarrow> m | None \<Rightarrow> (\<lambda>_. None));
          callers = (case objects (cstr object) of Some m \<Rightarrow> m | None \<Rightarrow> []) in
      eng\<lparr>pe_types := (pe_types eng)(cstr type \<mapsto> objects(cstr object \<mapsto> map_put LengthComp caller opMap callers))\<rparr>)"

text \<open>
  \<^verbatim>\<open>put\<close>. The check of the caller's rights on a kind and the put into the database are the callees
  \<open>checkKind\<close> and \<open>dbPut\<close>; the latter threads the state of the database.
\<close>

definition perm_put ::
  "(string \<Rightarrow> unit res) \<Rightarrow> (obj \<Rightarrow> 'db \<Rightarrow> 'db res) \<Rightarrow> bool \<Rightarrow> obj \<Rightarrow> perm_engine \<times> 'db \<Rightarrow> (perm_engine \<times> 'db) res" where
  "perm_put checkKind dbPut putObj perm s =
     rbind (getRequired_string ''type'' perm) (\<lambda>type.
     rbind (getRequired_string ''object'' perm) (\<lambda>object.
     rbind (getRequired_string ''caller'' perm) (\<lambda>caller.
     rbind (getRequired ''operations'' perm) (\<lambda>operations.
     rbind (validateWildcard caller MojErrDbInvalidCaller) (\<lambda>_.
     rbind (if MojStrCmp type PermissionType = 0 then checkKind object else Inr ()) (\<lambda>_.
     rbind (perm_operations operations) (\<lambda>opMap.
     rbind (if putObj then dbPut (perm_stored type object caller perm) (snd s) else Inr (snd s)) (\<lambda>db.
       Inr (perm_update type object caller opMap (fst s), db)))))))))"

fun first_match :: "caller_map \<Rightarrow> string \<Rightarrow> nat \<Rightarrow> op_map option res" where
  "first_match [] caller len = Inr None"
| "first_match ((expr, ops) # callers) caller len =
     rbind (matchWildcard expr caller len) (\<lambda>m. if m then Inr (Some ops) else first_match callers caller len)"

definition perm_find :: "caller_map \<Rightarrow> string \<Rightarrow> op_map option res" where
  "perm_find callers caller =
     (case map_get LengthComp caller callers of
        Some ops \<Rightarrow> Inr (Some ops)
      | None \<Rightarrow> first_match callers caller (length (cstr caller)))"

definition perm_check :: "perm_engine \<Rightarrow> string \<Rightarrow> string \<Rightarrow> string \<Rightarrow> string \<Rightarrow> perm_value res" where
  "perm_check eng type object caller opn =
     (case pe_types eng (cstr type) of
        None \<Rightarrow> Inr ValueUndefined
      | Some objects \<Rightarrow>
          (case objects (cstr object) of
             None \<Rightarrow> Inr ValueUndefined
           | Some callers \<Rightarrow>
               rbind (perm_find callers caller) (\<lambda>found.
                 case found of
                   None \<Rightarrow> Inr ValueUndefined
                 | Some ops \<Rightarrow> Inr (case map_get MojStrCmp opn ops of None \<Rightarrow> ValueUndefined | Some v \<Rightarrow> v))))"

definition perm_configure ::
  "(obj \<Rightarrow> perm_engine \<times> 'db \<Rightarrow> (perm_engine \<times> 'db) res) \<Rightarrow> obj \<Rightarrow> perm_engine \<times> 'db \<Rightarrow> (perm_engine \<times> 'db) res" where
  "perm_configure put conf s =
     (let eng = (case get_bool ''permissionsEnabled'' conf of None \<Rightarrow> fst s | Some b \<Rightarrow> (fst s)\<lparr>pe_enabled := b\<rparr>)
      in handler_configure ''permissions'' put conf (eng, snd s))"

section \<open>The order of the expressions\<close>

text \<open>The comparison is lexicographic: the length, longest first, then the characters.\<close>

lemma LengthComp_pair:
  "LengthComp s t = pair_compare (\<lambda>m n. MojComp n m) MojStrCmp (length (cstr s), s) (length (cstr t), t)"
  by (auto simp: LengthComp_def pair_compare_def Let_def)

lemma comparator_swap: "comparator cmp ok \<Longrightarrow> comparator (\<lambda>x y. cmp y x) ok"
  unfolding comparator_def by blast

interpretation len_comp: comparator LengthComp "\<lambda>_. True"
proof (rule comparator_via [where f = "\<lambda>s. (length (cstr s), s)"])
  show "comparator (pair_compare (\<lambda>m n. MojComp n m) MojStrCmp) (\<lambda>p :: nat \<times> string. True \<and> True)"
    by (rule pair_comparator [OF comparator_swap [OF default_comp.comparator_axioms] str_comp.comparator_axioms])
qed (simp_all add: LengthComp_pair)

interpretation len_map: sorted_map LengthComp "\<lambda>_. True"
  by (rule sorted_map.intro) (rule len_comp.comparator_axioms)

lemma LengthComp_eq: "nonul s \<Longrightarrow> nonul t \<Longrightarrow> LengthComp s t = 0 \<longleftrightarrow> s = t"
  using str_comp_nonul.cmp_eq_iff [of s t] by (auto simp: LengthComp_def Let_def)

lemma LengthComp_lt_length: "nonul s \<Longrightarrow> nonul t \<Longrightarrow> LengthComp s t < 0 \<Longrightarrow> length t \<le> length s"
  by (auto simp: LengthComp_def Let_def MojComp_def split: if_splits)

section \<open>The best match\<close>

text \<open>A wildcard expression stands for the callers that begin with what precedes its star.\<close>

definition expr_matches :: "string \<Rightarrow> string \<Rightarrow> bool" where
  "expr_matches expr caller \<longleftrightarrow> (\<exists>p rest. expr = p @ ''*'' \<and> caller = p @ rest)"

lemma MojStrNCmp_take:
  "nonul s \<Longrightarrow> nonul t \<Longrightarrow> n \<le> length s \<Longrightarrow> n \<le> length t \<Longrightarrow> MojStrNCmp s t n = 0 \<longleftrightarrow> take n s = take n t"
proof (induction s t n rule: MojStrNCmp.induct)
  case (5 c cs d ds n)
  then show ?case by (cases "c = d") auto
qed simp_all

lemma matchWildcard_ok:
  assumes "expr \<noteq> []" "nonul expr" "nonul caller"
  shows "matchWildcard expr caller (length caller) = Inr (expr_matches expr caller)"
proof -
  obtain p c where e: "expr = p @ [c]" using assms(1) by (cases expr rule: rev_cases) simp_all
  have "MojStrNCmp expr caller (length p) = 0 \<longleftrightarrow> take (length p) caller = p" if "length p \<le> length caller"
    using MojStrNCmp_take [of expr caller "length p"] that assms e by auto
  moreover have "take (length p) caller = p \<longleftrightarrow> (\<exists>rest. caller = p @ rest)"
    by (metis append_eq_conv_conj)
  ultimately show ?thesis
    by (auto simp: matchWildcard_def expr_matches_def e)
qed

lemma same_length_same_expr:
  "expr_matches e caller \<Longrightarrow> expr_matches e' caller \<Longrightarrow> length e = length e' \<Longrightarrow> e = e'"
  by (auto simp: expr_matches_def append_eq_append_conv2)

lemma first_match_ok:
  assumes "nonul caller" "\<And>p. p \<in> set callers \<Longrightarrow> nonul (fst p) \<and> fst p \<noteq> []"
  shows "first_match callers caller (length caller) =
    Inr (map_option snd (List.find (\<lambda>p. expr_matches (fst p) caller) callers))"
  using assms(2)
proof (induction callers)
  case (Cons p callers)
  then have "matchWildcard (fst p) caller (length caller) = Inr (expr_matches (fst p) caller)"
    using assms(1) by (intro matchWildcard_ok) auto
  then show ?case using Cons by (cases p) auto
qed simp

text \<open>The operations that apply to a caller, given those registered for each expression.\<close>

definition best_ops :: "(string \<Rightarrow> op_map option) \<Rightarrow> string \<Rightarrow> op_map option \<Rightarrow> bool" where
  "best_ops reg caller res \<longleftrightarrow>
     (if reg caller \<noteq> None then res = reg caller
      else if \<exists>w. reg w \<noteq> None \<and> expr_matches w caller
      then \<exists>w. res = reg w \<and> res \<noteq> None \<and> expr_matches w caller \<and>
        (\<forall>w'. reg w' \<noteq> None \<and> expr_matches w' caller \<longrightarrow> length w' \<le> length w)
      else res = None)"

lemma best_opsI:
  "reg caller = None \<Longrightarrow> reg w = Some ops \<Longrightarrow> expr_matches w caller \<Longrightarrow>
   (\<And>w'. reg w' \<noteq> None \<Longrightarrow> expr_matches w' caller \<Longrightarrow> length w' \<le> length w) \<Longrightarrow> best_ops reg caller (Some ops)"
  unfolding best_ops_def by (auto intro!: exI [of _ w])

definition callers_ok :: "caller_map \<Rightarrow> bool" where
  "callers_ok callers \<longleftrightarrow> sorted_keys LengthComp callers \<and> (\<forall>p \<in> set callers. nonul (fst p) \<and> fst p \<noteq> [])"

definition registered :: "caller_map \<Rightarrow> string \<Rightarrow> op_map option" where
  "registered callers w = (if nonul w then map_get LengthComp w callers else None)"

lemma map_get_SomeD: "map_get kcmp key nodes = Some v \<Longrightarrow> \<exists>k. (k, v) \<in> set nodes \<and> kcmp k key = 0"
  by (induction nodes) (auto split: if_splits)

lemma registered_iff:
  assumes "callers_ok callers"
  shows "registered callers w = Some v \<longleftrightarrow> (w, v) \<in> set callers"
proof
  assume "registered callers w = Some v"
  then obtain k where k: "(k, v) \<in> set callers" "LengthComp k w = 0" "nonul w"
    by (auto simp: registered_def dest: map_get_SomeD split: if_splits)
  then have "nonul k" using assms by (auto simp: callers_ok_def)
  then show "(w, v) \<in> set callers" using k LengthComp_eq [of k w] by simp
next
  assume w: "(w, v) \<in> set callers"
  then have nw: "nonul w" using assms by (auto simp: callers_ok_def)
  from w assms have "map_get LengthComp w callers = Some v" unfolding callers_ok_def
  proof (induction callers)
    case (Cons p callers)
    show ?case
    proof (cases "p = (w, v)")
      case True
      then show ?thesis using len_comp.cmp_refl [of w] by simp
    next
      case False
      then have "(w, v) \<in> set callers" using Cons.prems by simp
      moreover from this have "LengthComp (fst p) w < 0" using Cons.prems(2) by (cases p) force
      ultimately show ?thesis using Cons by (cases p) auto
    qed
  qed simp
  then show "registered callers w = Some v" using nw by (simp add: registered_def)
qed

lemma find_longest:
  assumes "callers_ok callers" "List.find (\<lambda>p. expr_matches (fst p) caller) callers = Some p"
    "q \<in> set callers" "expr_matches (fst q) caller"
  shows "length (fst q) \<le> length (fst p)"
  using assms
proof (induction callers)
  case (Cons r callers)
  show ?case
  proof (cases "expr_matches (fst r) caller")
    case True
    then have p: "p = r" using Cons.prems(2) by simp
    show ?thesis
    proof (cases "q = r")
      case False
      then have "LengthComp (fst r) (fst q) < 0" using Cons.prems(1,3) by (cases r) (force simp: callers_ok_def)
      then show ?thesis using p LengthComp_lt_length [of "fst r" "fst q"] Cons.prems(1,3) by (auto simp: callers_ok_def)
    qed (simp add: p)
  next
    case False
    then have "q \<noteq> r" "callers_ok callers" using Cons.prems by (cases r; auto simp: callers_ok_def)+
    then show ?thesis using Cons False by auto
  qed
qed simp

lemma perm_find_best:
  assumes ok: "callers_ok callers" and c: "nonul caller"
  shows "\<exists>res. perm_find callers caller = Inr res \<and> best_ops (registered callers) caller res"
proof (cases "registered callers caller")
  case (Some ops)
  then show ?thesis using c by (auto simp: perm_find_def registered_def best_ops_def)
next
  case None
  then have none: "map_get LengthComp caller callers = None" using c by (simp add: registered_def)
  let ?f = "List.find (\<lambda>p. expr_matches (fst p) caller) callers"
  have fm: "perm_find callers caller = Inr (map_option snd ?f)"
    using first_match_ok [OF c, of callers] ok c none by (simp add: perm_find_def callers_ok_def)
  show ?thesis
  proof (cases ?f)
    case fn: None
    then have "\<not> expr_matches (fst p) caller" if "p \<in> set callers" for p
      using that fn by (cases p) (auto simp: find_None_iff)
    then have "\<not> (\<exists>w. registered callers w \<noteq> None \<and> expr_matches w caller)"
      using registered_iff [OF ok] by fastforce
    then show ?thesis using fm fn None by (simp add: best_ops_def)
  next
    case fs: (Some p)
    then have p: "p \<in> set callers" "expr_matches (fst p) caller" by (auto simp: find_Some_iff)
    then have rp: "registered callers (fst p) = Some (snd p)" using registered_iff [OF ok] by simp
    have lon: "length w \<le> length (fst p)" if w: "registered callers w \<noteq> None" "expr_matches w caller" for w
    proof -
      obtain v where "(w, v) \<in> set callers" using w(1) registered_iff [OF ok, of w] by auto
      then show ?thesis using find_longest [OF ok fs, of "(w, v)"] w(2) by simp
    qed
    have "best_ops (registered callers) caller (Some (snd p))"
      by (rule best_opsI [OF None rp p(2)]) (rule lon)
    then show ?thesis using fm fs by simp
  qed
qed

section \<open>Histories\<close>

text \<open>What is registered for the objects, as a map from type, object and expression.\<close>

type_synonym perm_reg = "string \<Rightarrow> string \<Rightarrow> string \<Rightarrow> op_map option"

definition reg_put :: "string \<Rightarrow> string \<Rightarrow> string \<Rightarrow> op_map \<Rightarrow> perm_reg \<Rightarrow> perm_reg" where
  "reg_put type object caller ops reg =
     (\<lambda>t ob w. if t = type \<and> ob = object \<and> w = caller then Some ops else reg t ob w)"

text \<open>
  The engines that puts make from a new one, with what they registered: the operations of the last
  put for a type, an object and a caller. In between others use the database.
\<close>

inductive perm_reach :: "perm_engine \<times> 'db \<Rightarrow> perm_reg \<Rightarrow> bool" where
  new: "perm_reach (perm_new\<lparr>pe_enabled := b\<rparr>, db) (\<lambda>_ _ _. None)"
| other: "perm_reach (eng, db) reg \<Longrightarrow> perm_reach (eng, db') reg"
| put: "perm_reach (eng, db) reg \<Longrightarrow> perm_put checkKind dbPut putObj perm (eng, db) = Inr (eng', db') \<Longrightarrow>
    getRequired_string ''type'' perm = Inr type \<Longrightarrow> getRequired_string ''object'' perm = Inr object \<Longrightarrow>
    getRequired_string ''caller'' perm = Inr caller \<Longrightarrow> nonul type \<Longrightarrow> nonul object \<Longrightarrow> nonul caller \<Longrightarrow>
    getRequired ''operations'' perm = Inr operations \<Longrightarrow> perm_operations operations = Inr ops \<Longrightarrow>
    perm_reach (eng', db') (reg_put type object caller ops reg)"

definition perm_callers :: "perm_engine \<Rightarrow> string \<Rightarrow> string \<Rightarrow> caller_map" where
  "perm_callers eng type object =
     (case pe_types eng type of None \<Rightarrow> [] | Some objects \<Rightarrow> (case objects object of None \<Rightarrow> [] | Some m \<Rightarrow> m))"

lemma perm_callers_update:
  "nonul type \<Longrightarrow> nonul object \<Longrightarrow> perm_callers (perm_update type object caller ops eng) t ob =
     (if t = type \<and> ob = object then map_put LengthComp caller ops (perm_callers eng t ob) else perm_callers eng t ob)"
  by (auto simp: perm_callers_def perm_update_def Let_def split: option.splits)

lemma perm_put_update:
  assumes "perm_put checkKind dbPut putObj perm (eng, db) = Inr (eng', db')"
    "getRequired_string ''type'' perm = Inr type" "getRequired_string ''object'' perm = Inr object"
    "getRequired_string ''caller'' perm = Inr caller" "getRequired ''operations'' perm = Inr operations"
    "perm_operations operations = Inr ops"
  shows "eng' = perm_update type object caller ops eng \<and> caller \<noteq> []"
  using assms by (auto simp: perm_put_def rbind_Inr_iff validateWildcard_def split: if_splits)

lemma callers_ok_put:
  assumes "callers_ok callers" "nonul caller" "caller \<noteq> []"
  shows "callers_ok (map_put LengthComp caller ops callers)"
    and "registered (map_put LengthComp caller ops callers) w = (if w = caller then Some ops else registered callers w)"
proof -
  show "callers_ok (map_put LengthComp caller ops callers)"
    using assms len_map.put_sorted [where key=caller and nodes=callers and val=ops] by (auto simp: callers_ok_def dest: map_put_mem)
  show "registered (map_put LengthComp caller ops callers) w = (if w = caller then Some ops else registered callers w)"
    using assms LengthComp_eq [of caller w]
      len_map.get_put [where key=caller and key'=w and nodes=callers and val=ops]
    by (auto simp: registered_def callers_ok_def)
qed

lemma perm_reach_callers:
  "perm_reach s reg \<Longrightarrow> nonul t \<Longrightarrow> nonul ob \<Longrightarrow>
   callers_ok (perm_callers (fst s) t ob) \<and> registered (perm_callers (fst s) t ob) = reg t ob"
proof (induction arbitrary: t ob rule: perm_reach.induct)
  case (new b)
  then show ?case by (auto simp: perm_callers_def perm_new_def callers_ok_def registered_def)
next
  case (other eng db reg db')
  then show ?case by simp
next
  case (put eng db reg checkKind dbPut putObj perm eng' db' type object caller operations ops)
  from perm_put_update [OF put.hyps(2-5) put.hyps(9,10)]
  have e: "eng' = perm_update type object caller ops eng" "caller \<noteq> []" by simp_all
  note IH = put.IH [OF put.prems, unfolded fst_conv]
  show ?case
    using IH callers_ok_put [OF conjunct1 [OF IH] put.hyps(8) e(2)]
    by (auto simp: e perm_callers_update put.hyps(6,7) reg_put_def fun_eq_iff)
qed

lemma perm_check_callers:
  "nonul t \<Longrightarrow> nonul ob \<Longrightarrow> perm_check eng t ob caller opn =
     rbind (perm_find (perm_callers eng t ob) caller) (\<lambda>found.
       Inr (case found of None \<Rightarrow> ValueUndefined | Some ops \<Rightarrow>
         (case map_get MojStrCmp opn ops of None \<Rightarrow> ValueUndefined | Some v \<Rightarrow> v)))"
  by (auto simp: perm_check_def perm_callers_def perm_find_def rbind_def split: option.splits sum.splits)

text \<open>
  C25. The permission engine applies the most specific entry: after any history of puts, the check of
  an operation uses the operations last put for the caller itself, or else those of the longest
  wildcard expression that the caller matches, and is undefined where there is none. No check breaks
  an assertion.
\<close>

theorem perm_check_best:
  assumes "perm_reach (eng, db) reg" "nonul type" "nonul object" "nonul caller"
  shows "\<exists>res. best_ops (reg type object) caller res \<and>
    perm_check eng type object caller opn =
      Inr (case res of None \<Rightarrow> ValueUndefined | Some ops \<Rightarrow>
        (case map_get MojStrCmp opn ops of None \<Rightarrow> ValueUndefined | Some v \<Rightarrow> v))"
proof -
  have "callers_ok (perm_callers eng type object)" "registered (perm_callers eng type object) = reg type object"
    using perm_reach_callers [OF assms(1), unfolded fst_conv] assms(2,3) by simp_all
  then obtain res where "perm_find (perm_callers eng type object) caller = Inr res" "best_ops (reg type object) caller res"
    using perm_find_best [OF _ assms(4), of "perm_callers eng type object"] by auto
  then show ?thesis using perm_check_callers [OF assms(2,3)] by auto
qed

definition perm_obj_ex :: "string \<Rightarrow> string \<Rightarrow> obj" where
  "perm_obj_ex caller v = OObject [(''caller'', OString caller), (''object'', OString ''K:1''),
     (''operations'', OObject [(''read'', OString v)]), (''type'', OString PermissionType)]"

lemma perm_reach_ex:
  assumes "perm_reach (eng, ()) reg" "nonul caller" "validateWildcard caller MojErrDbInvalidCaller = Inr ()"
    "valueFromString v = Inr pv"
  shows "perm_reach (perm_update PermissionType ''K:1'' caller [(''read'', pv)] eng, ())
    (reg_put PermissionType ''K:1'' caller [(''read'', pv)] reg)"
proof (rule perm_reach.put [OF assms(1), where perm = "perm_obj_ex caller v" and checkKind = "\<lambda>_. Inr ()"
      and dbPut = "\<lambda>_. Inr" and putObj = False])
  let ?p = "perm_obj_ex caller v"
  show g: "getRequired_string ''type'' ?p = Inr PermissionType" "getRequired_string ''object'' ?p = Inr ''K:1''"
    "getRequired_string ''caller'' ?p = Inr caller"
    "getRequired ''operations'' ?p = Inr (OObject [(''read'', OString v)])"
    by (simp_all add: getRequired_string_def getRequiredErrT_def getRequiredT_def getRequired_def get_string_def perm_obj_ex_def)
  show ops: "perm_operations (OObject [(''read'', OString v)]) = Inr [(''read'', pv)]"
    using assms(4) by (simp add: perm_operations_def)
  show "perm_put (\<lambda>_. Inr ()) (\<lambda>_. Inr) False ?p (eng, ()) =
      Inr (perm_update PermissionType ''K:1'' caller [(''read'', pv)] eng, ())"
    using assms(3) by (simp add: perm_put_def g ops)
qed (use assms in \<open>simp_all add: PermissionType_def\<close>)

theorem perm_check_best_witness:
  "\<exists>eng. perm_check eng PermissionType ''K:1'' ''com.a.b'' ''read'' = Inr ValueDeny"
proof -
  have v: "valueFromString ''allow'' = Inr ValueAllow" "valueFromString ''deny'' = Inr ValueDeny" by code_simp+
  have w: "validateWildcard ''com.*'' MojErrDbInvalidCaller = Inr ()" "validateWildcard ''com.a.*'' MojErrDbInvalidCaller = Inr ()"
    by code_simp+
  note r1 = perm_reach_ex [OF perm_reach.new [of True] _ w(1) v(1)]
  note r2 = perm_reach_ex [OF r1 _ w(2) v(2)]
  let ?reg = "reg_put PermissionType ''K:1'' ''com.a.*'' [(''read'', ValueDeny)]
      (reg_put PermissionType ''K:1'' ''com.*'' [(''read'', ValueAllow)] (\<lambda>_ _ _. None))"
  obtain eng where reach: "perm_reach (eng, ()) ?reg" using r2 by auto
  have m: "expr_matches ''com.a.*'' ''com.a.b''" "expr_matches ''com.*'' ''com.a.b''"
    by (auto simp: expr_matches_def intro: exI [of _ "''com.a.''"] exI [of _ "''com.''"])
  have best: "best_ops (?reg PermissionType ''K:1'') ''com.a.b'' res \<Longrightarrow> res = Some [(''read'', ValueDeny)]" for res
    using m unfolding best_ops_def by (fastforce simp: reg_put_def split: if_splits)
  have "nonul PermissionType" by (simp add: PermissionType_def)
  from perm_check_best [OF reach this, of "''K:1''" "''com.a.b''" "''read''"] best
  show ?thesis by fastforce
qed

end
