(* ===== verification/Schema.thy ===== *)
theory Schema
  imports JsonWrite ObjOrder
begin

text \<open>
  \<^verbatim>\<open>MojSchema\<close> (\<^verbatim>\<open>src/core/MojSchema.cpp\<close>): the rules of a JSON schema, read from an object, and the
  validation of a value. One constructor per rule class. The regular expressions are those of the
  Boost library, and a string's decimal value goes through \<^verbatim>\<open>strtod\<close>: both are parameters.
\<close>

section \<open>Rules\<close>

datatype rule =
    SchemaRule "rule list" bool
  | PatternRule string "string \<Rightarrow> bool"
  | SimpleTypeRule "MojType list"
  | UnionTypeRule "rule list"
  | SimpleDisallowRule "MojType list"
  | UnionDisallowRule "rule list"
  | AdditionalPropertiesRule "rule option" bool
  | PropertiesRule "(string \<times> rule) list" "rule option"
  | SimpleItemsRule rule
  | TupleItemsRule "rule list" "rule option"
  | RequiresRule string
  | MinRule i64 bool
  | MaxRule i64 bool
  | MinItemsRule i64
  | MaxItemsRule i64
  | UniqueItemsRule
  | MinLenRule i64
  | MaxLenRule i64
  | EnumRule "obj list"
  | DivisibleRule i64

fun rule_optional :: "rule \<Rightarrow> bool" where
  "rule_optional (SchemaRule rules optional) = optional"
| "rule_optional _ = True"

record schema_env =
  regex_of :: "string \<Rightarrow> (string \<Rightarrow> bool) option"
  strtod_decimal :: "string \<Rightarrow> i64"

text \<open>\<^verbatim>\<open>MojObject::decimalValue\<close>.\<close>

fun obj_decimalValue :: "(string \<Rightarrow> i64) \<Rightarrow> obj \<Rightarrow> i64 res" where
  "obj_decimalValue strtod (OString s) = Inr (strtod s)"
| "obj_decimalValue strtod (OBool b) = dec_assign (of_bool b) 0"
| "obj_decimalValue strtod (ODecimal d) = Inr d"
| "obj_decimalValue strtod (OInt i) = dec_assign i 0"
| "obj_decimalValue strtod _ = Inr 0"

section \<open>Reading a schema\<close>

definition simple_types :: "string \<Rightarrow> MojType list res" where
  "simple_types typeStr =
     (if MojStrCmp typeStr ''null'' = 0 then Inr [TypeNull]
      else if MojStrCmp typeStr ''object'' = 0 then Inr [TypeObject]
      else if MojStrCmp typeStr ''array'' = 0 then Inr [TypeArray]
      else if MojStrCmp typeStr ''string'' = 0 then Inr [TypeString]
      else if MojStrCmp typeStr ''boolean'' = 0 then Inr [TypeBool]
      else if MojStrCmp typeStr ''integer'' = 0 then Inr [TypeInt]
      else if MojStrCmp typeStr ''number'' = 0 then Inr [TypeDecimal, TypeInt]
      else Inl MojErrInvalidSchema)"

definition SimpleTypeRule_fromObject :: "obj \<Rightarrow> MojType list res" where
  "SimpleTypeRule_fromObject obj = rbind (obj_stringValue obj) simple_types"

text \<open>The parsers below thread the set \<^verbatim>\<open>m_strings\<close> of the schema.\<close>

type_synonym 'a sparse = "string list \<Rightarrow> ('a \<times> string list) res"

definition opt_parse :: "obj option \<Rightarrow> (obj \<Rightarrow> 'a sparse) \<Rightarrow> 'a option sparse" where
  "opt_parse found parse strings =
     (case found of
        None \<Rightarrow> Inr (None, strings)
      | Some val \<Rightarrow> rbind (parse val strings) (\<lambda>(a, strings). Inr (Some a, strings)))"

definition UnionTypeRule_fromObject :: "(obj \<Rightarrow> rule sparse) \<Rightarrow> obj \<Rightarrow> rule list sparse" where
  "UnionTypeRule_fromObject schemaRule obj strings =
     run (\<lambda>(rules, strings) v.
        (case v of
           OString _ \<Rightarrow> rbind (SimpleTypeRule_fromObject v) (\<lambda>ts. Inr (rules @ [SimpleTypeRule ts], strings))
         | _ \<Rightarrow> rbind (schemaRule v strings) (\<lambda>(r, strings). Inr (rules @ [r], strings))))
       ([], strings) (ensureArray obj)"

definition AdditionalPropertiesRule_fromObject :: "(obj \<Rightarrow> rule sparse) \<Rightarrow> obj \<Rightarrow> rule sparse" where
  "AdditionalPropertiesRule_fromObject schemaRule obj strings =
     (case obj of
        OBool b \<Rightarrow> Inr (AdditionalPropertiesRule None b, strings)
      | _ \<Rightarrow> rbind (schemaRule obj strings) (\<lambda>(r, strings). Inr (AdditionalPropertiesRule (Some r) True, strings)))"

definition PropertiesRule_fromObject :: "(obj \<Rightarrow> rule sparse) \<Rightarrow> obj \<Rightarrow> (string \<times> rule) list sparse" where
  "PropertiesRule_fromObject schemaRule obj strings =
     run (\<lambda>(props, strings) p.
        rbind (schemaRule (snd p) strings) (\<lambda>(r, strings).
          Inr (map_put MojStrCmp (fst p) r props, set_put MojStrCmp (fst p) strings)))
       ([], strings) (ensureObject obj)"

definition EnumRule_fromObject :: "obj \<Rightarrow> obj list sparse" where
  "EnumRule_fromObject obj strings =
     run (\<lambda>(vals, strings) v.
        rbind (case v of OString s \<Rightarrow> Inr (set_put MojStrCmp s strings) | _ \<Rightarrow> Inr strings) (\<lambda>strings.
          Inr (set_put obj_compare v vals, strings)))
       ([], strings) (ensureArray obj)"

definition PatternRule_fromObject :: "schema_env \<Rightarrow> obj \<Rightarrow> rule res" where
  "PatternRule_fromObject env obj =
     rbind (obj_stringValue obj) (\<lambda>pattern.
       case regex_of env (cstr pattern) of None \<Rightarrow> Inl MojErrJson | Some m \<Rightarrow> Inr (PatternRule pattern m))"

text \<open>The property \<^verbatim>\<open>optional\<close> and its opposite \<^verbatim>\<open>required\<close> must agree.\<close>

definition read_optional :: "obj \<Rightarrow> bool res" where
  "read_optional obj =
     (case get_bool ''optional'' obj of
        Some optional \<Rightarrow>
          (case get_bool ''required'' obj of
             Some required \<Rightarrow> if optional = required then Inl MojErrJson else Inr optional
           | None \<Rightarrow> Inr optional)
      | None \<Rightarrow> (case get_bool ''required'' obj of Some required \<Rightarrow> Inr (\<not> required) | None \<Rightarrow> Inr True))"

text \<open>The rules of one property that do not depend on a nested schema, in the order of the code.\<close>

definition opt_rule :: "string \<Rightarrow> (obj \<Rightarrow> rule res) \<Rightarrow> obj \<Rightarrow> rule list res" where
  "opt_rule key mk obj = (case obj_get key obj of None \<Rightarrow> Inr [] | Some v \<Rightarrow> rbind (mk v) (\<lambda>r. Inr [r]))"

definition comp_rule :: "schema_env \<Rightarrow> (i64 \<Rightarrow> bool \<Rightarrow> rule) \<Rightarrow> string \<Rightarrow> obj \<Rightarrow> obj \<Rightarrow> rule res" where
  "comp_rule env mk canEqualKey obj v =
     rbind (obj_decimalValue (strtod_decimal env) v) (\<lambda>d.
       Inr (mk d (case get_bool canEqualKey obj of None \<Rightarrow> True | Some b \<Rightarrow> b)))"

definition int_rule :: "(i64 \<Rightarrow> rule) \<Rightarrow> obj \<Rightarrow> rule res" where
  "int_rule mk v = Inr (mk (intValueWith MojStrToInt64 v))"

definition SchemaRule_tail :: "schema_env \<Rightarrow> obj \<Rightarrow> rule list sparse" where
  "SchemaRule_tail env obj strings =
     rbind (opt_rule ''pattern'' (PatternRule_fromObject env) obj) (\<lambda>r1.
     rbind (opt_rule ''requires'' (\<lambda>v. rbind (obj_stringValue v) (\<lambda>s. Inr (RequiresRule s))) obj) (\<lambda>r2.
     rbind (opt_rule ''minimum'' (comp_rule env MinRule ''minimumCanEqual'' obj) obj) (\<lambda>r3.
     rbind (opt_rule ''maximum'' (comp_rule env MaxRule ''maximumCanEqual'' obj) obj) (\<lambda>r4.
     rbind (opt_rule ''minItems'' (int_rule MinItemsRule) obj) (\<lambda>r5.
     rbind (opt_rule ''maxItems'' (int_rule MaxItemsRule) obj) (\<lambda>r6.
     let r7 = (if get_bool ''uniqueItems'' obj = Some True then [UniqueItemsRule] else []) in
     rbind (opt_rule ''minLength'' (int_rule MinLenRule) obj) (\<lambda>r8.
     rbind (opt_rule ''maxLength'' (int_rule MaxLenRule) obj) (\<lambda>r9.
     rbind (opt_parse (obj_get ''enum'' obj) EnumRule_fromObject strings) (\<lambda>(vals, strings).
     let r10 = (case vals of None \<Rightarrow> [] | Some vs \<Rightarrow> [EnumRule vs]) in
     rbind (opt_rule ''divisibleBy'' (int_rule DivisibleRule) obj) (\<lambda>r11.
       Inr (r1 @ r2 @ r3 @ r4 @ r5 @ r6 @ r7 @ r8 @ r9 @ r10 @ r11, strings)))))))))))"

definition is_array :: "obj \<Rightarrow> bool" where
  "is_array obj \<longleftrightarrow> obj_type obj = TypeArray"

text \<open>\<^verbatim>\<open>type\<close> and \<^verbatim>\<open>disallow\<close>: a union for an array, one type name otherwise.\<close>

definition type_rule ::
  "(MojType list \<Rightarrow> rule) \<Rightarrow> (rule list \<Rightarrow> rule) \<Rightarrow> (obj \<Rightarrow> rule sparse) \<Rightarrow> obj \<Rightarrow> rule sparse" where
  "type_rule simple uni schemaRule val strings =
     (if is_array val then rbind (UnionTypeRule_fromObject schemaRule val strings) (\<lambda>(rs, strings). Inr (uni rs, strings))
      else rbind (SimpleTypeRule_fromObject val) (\<lambda>ts. Inr (simple ts, strings)))"

definition items_rule :: "rule option \<Rightarrow> (obj \<Rightarrow> rule sparse) \<Rightarrow> obj \<Rightarrow> rule sparse" where
  "items_rule additional schemaRule val strings =
     (if is_array val
      then rbind (UnionTypeRule_fromObject schemaRule val strings) (\<lambda>(rs, strings). Inr (TupleItemsRule rs additional, strings))
      else rbind (schemaRule val strings) (\<lambda>(r, strings). Inr (SimpleItemsRule r, strings)))"

definition opt_list :: "'a option \<Rightarrow> 'a list" where
  "opt_list x = (case x of None \<Rightarrow> [] | Some a \<Rightarrow> [a])"

definition SchemaRule_step :: "(obj \<Rightarrow> rule sparse) \<Rightarrow> schema_env \<Rightarrow> obj \<Rightarrow> rule sparse" where
  "SchemaRule_step schemaRule env obj strings =
     rbind (opt_parse (obj_get ''additionalProperties'' obj) (AdditionalPropertiesRule_fromObject schemaRule) strings)
       (\<lambda>(additional, strings).
     rbind (opt_parse
         (case obj_get ''properties'' obj of
            None \<Rightarrow> if additional \<noteq> None then Some OUndefined else None
          | Some val \<Rightarrow> Some val)
         (PropertiesRule_fromObject schemaRule) strings) (\<lambda>(props, strings).
     let properties = map_option (\<lambda>ps. PropertiesRule ps additional) props in
     rbind (read_optional obj) (\<lambda>optional.
     rbind (opt_parse (obj_get ''type'' obj) (type_rule SimpleTypeRule UnionTypeRule schemaRule) strings)
       (\<lambda>(typ, strings).
     rbind (opt_parse (obj_get ''disallow'' obj) (type_rule SimpleDisallowRule UnionDisallowRule schemaRule) strings)
       (\<lambda>(disallow, strings).
     rbind (opt_parse (obj_get ''items'' obj) (items_rule additional schemaRule) strings)
       (\<lambda>(items, strings).
     rbind (SchemaRule_tail env obj strings) (\<lambda>(rest, strings).
       Inr (SchemaRule
         (opt_list properties @ opt_list typ @ opt_list disallow @ opt_list items @ rest) optional, strings))))))))"

text \<open>The recursion goes to smaller values.\<close>

lemma obj_get_size: "obj_get key obj = Some v \<Longrightarrow> size v < size obj"
proof (cases obj)
  case (OObject ps)
  have "map_get MojStrCmp key ps = Some v \<Longrightarrow> \<exists>k. (k, v) \<in> set ps"
    by (induction ps) (auto split: if_splits)
  then show "obj_get key obj = Some v \<Longrightarrow> size v < size obj" using OObject obj_size_prop [of "(_, v)" ps] by fastforce
qed simp_all

lemma ensureArray_size: "x \<in> set (ensureArray obj) \<Longrightarrow> size x < size obj"
  using obj_size_elem by (cases obj) auto

lemma ensureObject_size: "p \<in> set (ensureObject obj) \<Longrightarrow> size (snd p) < size obj"
  using obj_size_prop by (cases obj) auto

lemma UnionTypeRule_cong:
  assumes "\<And>v s. size v < size obj \<Longrightarrow> f v s = g v s"
  shows "UnionTypeRule_fromObject f obj s = UnionTypeRule_fromObject g obj s"
proof -
  have e: "f v s = g v s" if "v \<in> set (ensureArray obj)" for v s
    using assms ensureArray_size that by blast
  show ?thesis unfolding UnionTypeRule_fromObject_def by (intro run_cong) (auto simp: e split: obj.splits)
qed

lemma PropertiesRule_cong:
  assumes "\<And>v s. size v < size obj \<Longrightarrow> f v s = g v s"
  shows "PropertiesRule_fromObject f obj s = PropertiesRule_fromObject g obj s"
proof -
  have e: "f (snd p) s = g (snd p) s" if "p \<in> set (ensureObject obj)" for p s
    using assms ensureObject_size that by blast
  show ?thesis unfolding PropertiesRule_fromObject_def by (intro run_cong) (simp_all add: e case_prod_unfold)
qed

lemma opt_parse_cong: "(\<And>v s. x = Some v \<Longrightarrow> f v s = g v s) \<Longrightarrow> opt_parse x f = opt_parse x g"
  by (auto simp: opt_parse_def fun_eq_iff split: option.splits)

lemma SchemaRule_step_cong [fundef_cong]:
  assumes "env = env'" "obj = obj'" "s = s'" and rec: "\<And>v s. size v < size obj' \<Longrightarrow> f v s = g v s"
  shows "SchemaRule_step f env obj s = SchemaRule_step g env' obj' s'"
proof -
  have less: "f v s = g v s" if "obj_get k obj' = Some w" "size v \<le> size w" for k v w s
    using that obj_get_size [of k obj' w] rec by auto
  have 1: "opt_parse (obj_get k obj') (AdditionalPropertiesRule_fromObject f) =
      opt_parse (obj_get k obj') (AdditionalPropertiesRule_fromObject g)" for k
    by (rule opt_parse_cong) (auto simp: AdditionalPropertiesRule_fromObject_def less split: obj.splits)
  have 2: "opt_parse (case obj_get k obj' of None \<Rightarrow> if a then Some OUndefined else None | Some val \<Rightarrow> Some val)
        (PropertiesRule_fromObject f) =
      opt_parse (case obj_get k obj' of None \<Rightarrow> if a then Some OUndefined else None | Some val \<Rightarrow> Some val)
        (PropertiesRule_fromObject g)" for k a
    by (rule opt_parse_cong, rule PropertiesRule_cong)
      (auto simp: less split: option.splits if_splits)
  have u: "UnionTypeRule_fromObject f v s = UnionTypeRule_fromObject g v s" if "obj_get k obj' = Some v" for k v s
    by (rule UnionTypeRule_cong) (use less that in auto)
  have 3: "opt_parse (obj_get k obj') (type_rule si un f) = opt_parse (obj_get k obj') (type_rule si un g)" for k si un
    by (rule opt_parse_cong) (auto simp: type_rule_def u)
  have 4: "opt_parse (obj_get k obj') (items_rule a f) = opt_parse (obj_get k obj') (items_rule a g)" for k a
    by (rule opt_parse_cong) (auto simp: items_rule_def u less)
  show ?thesis by (simp only: SchemaRule_step_def assms(1-3) 1 2 3 4)
qed

function SchemaRule_fromObject :: "schema_env \<Rightarrow> obj \<Rightarrow> rule sparse" where
  "SchemaRule_fromObject env obj strings = SchemaRule_step (SchemaRule_fromObject env) env obj strings"
  by pat_completeness auto
termination
  by (relation "measure (\<lambda>(env, obj, s). size obj)") auto

declare SchemaRule_fromObject.simps [simp del]

record schema =
  s_rule :: "rule option"
  s_strings :: "string list"

definition schema_new :: schema where
  "schema_new = \<lparr>s_rule = None, s_strings = []\<rparr>"

definition schema_clear :: "schema \<Rightarrow> schema" where
  "schema_clear sch = sch\<lparr>s_rule := None\<rparr>"

definition schema_fromObject :: "schema_env \<Rightarrow> obj \<Rightarrow> schema \<Rightarrow> schema res" where
  "schema_fromObject env obj sch =
     rbind (SchemaRule_fromObject env obj (s_strings sch)) (\<lambda>(r, strings).
       Inr (sch\<lparr>s_rule := Some r, s_strings := strings\<rparr>))"

section \<open>Validation\<close>

text \<open>\<^verbatim>\<open>MojSchema::Result\<close>: the verdict and the message of the rule that failed.\<close>

record sresult =
  r_valid :: bool
  r_msg :: string

abbreviation fail :: "string \<Rightarrow> sresult \<Rightarrow> sresult" where
  "fail m r \<equiv> r\<lparr>r_valid := False, r_msg := m\<rparr>"

text \<open>\<^verbatim>\<open>'%s'\<close>.\<close>

definition quoted :: "string \<Rightarrow> string" where
  "quoted s = CHR 0x27 # cstr s @ [CHR 0x27]"

text \<open>A loop over rules or values that ends with the first one that is not valid.\<close>

fun while_valid :: "('a \<Rightarrow> sresult \<Rightarrow> sresult res) \<Rightarrow> 'a list \<Rightarrow> sresult \<Rightarrow> sresult res" where
  "while_valid f [] r = Inr r"
| "while_valid f (x # xs) r = rbind (f x r) (\<lambda>r. if r_valid r then while_valid f xs r else Inr r)"

text \<open>\<^verbatim>\<open>UnionTypeRule::validate\<close>: the first rule that holds decides.\<close>

fun any_valid :: "('a \<Rightarrow> sresult \<Rightarrow> sresult res) \<Rightarrow> 'a list \<Rightarrow> sresult \<Rightarrow> sresult res" where
  "any_valid f [] r = Inr (r\<lparr>r_valid := False\<rparr>)"
| "any_valid f (x # xs) r =
     rbind (f x (r\<lparr>r_valid := True\<rparr>)) (\<lambda>r. if r_valid r then Inr r else any_valid f xs r)"

text \<open>
  \<^verbatim>\<open>PropertiesRule::validate\<close> walks the properties of the schema and those of the value, both in
  the order of their keys. \<open>vf\<close> validates a property that both have, \<open>af\<close> one that only the value has.
\<close>

fun props_walk ::
  "(rule \<Rightarrow> obj \<Rightarrow> sresult \<Rightarrow> sresult res) \<Rightarrow> (obj \<Rightarrow> sresult \<Rightarrow> sresult res) \<Rightarrow> (string \<times> rule) list \<Rightarrow> props \<Rightarrow>
   sresult \<Rightarrow> sresult res" where
  "props_walk vf af [] [] r = Inr r"
| "props_walk vf af [] ((k, v) # vs) r =
     rbind (af v r) (\<lambda>r. if r_valid r then props_walk vf af [] vs r
       else Inr (r\<lparr>r_msg := r_msg r @ '' - '' @ quoted k\<rparr>))"
| "props_walk vf af ((n, rule) # ps) [] r =
     (if \<not> rule_optional rule then Inr (fail (''required property not found - '' @ quoted n) r)
      else props_walk vf af ps [] r)"
| "props_walk vf af ((n, rule) # ps) ((k, v) # vs) r =
     (if MojStrCmp n k > 0 then
        rbind (af v r) (\<lambda>r. if r_valid r then props_walk vf af ((n, rule) # ps) vs r
          else Inr (r\<lparr>r_msg := r_msg r @ '' - '' @ quoted k\<rparr>))
      else if MojStrCmp n k < 0 then
        (if \<not> rule_optional rule then Inr (fail (''required property not found - '' @ quoted n) r)
         else props_walk vf af ps ((k, v) # vs) r)
      else rbind (vf rule v r) (\<lambda>r. if r_valid r then props_walk vf af ps vs r
          else Inr (r\<lparr>r_msg := r_msg r @ '' for property '' @ quoted n\<rparr>)))"

lemma while_valid_cong [fundef_cong]:
  "xs = xs' \<Longrightarrow> r = r' \<Longrightarrow> (\<And>x r. x \<in> set xs' \<Longrightarrow> f x r = g x r) \<Longrightarrow> while_valid f xs r = while_valid g xs' r'"
proof (induction xs arbitrary: r r' xs')
  case (Cons x xs)
  then have "while_valid f xs a = while_valid g xs a" for a by (intro Cons.IH) auto
  then show ?case using Cons.prems by (auto cong: if_cong)
qed simp

lemma any_valid_cong [fundef_cong]:
  "xs = xs' \<Longrightarrow> r = r' \<Longrightarrow> (\<And>x r. x \<in> set xs' \<Longrightarrow> f x r = g x r) \<Longrightarrow> any_valid f xs r = any_valid g xs' r'"
proof (induction xs arbitrary: r r' xs')
  case (Cons x xs)
  then have "any_valid f xs a = any_valid g xs a" for a by (intro Cons.IH) auto
  then show ?case using Cons.prems by (auto cong: if_cong)
qed simp

lemma props_walk_cong [fundef_cong]:
  assumes "ps = ps'" "vs = vs'" "r = r'" "\<And>x v r. x \<in> snd ` set ps' \<Longrightarrow> vf x v r = vf' x v r"
    "\<And>v r. af v r = af' v r"
  shows "props_walk vf af ps vs r = props_walk vf' af' ps' vs' r'"
proof -
  have "props_walk vf af ps vs r = props_walk vf' af' ps vs r" if "\<And>x v r. x \<in> snd ` set ps \<Longrightarrow> vf x v r = vf' x v r" for r
    using that assms(5) by (induction vf af ps vs r rule: props_walk.induct) (auto intro!: rbind_cong)
  then show ?thesis using assms by simp
qed

definition comp_ok :: "(int \<Rightarrow> int \<Rightarrow> bool) \<Rightarrow> (int \<Rightarrow> int \<Rightarrow> bool) \<Rightarrow> i64 \<Rightarrow> bool \<Rightarrow> obj \<Rightarrow> sresult \<Rightarrow> sresult res" where
  "comp_ok comp1 comp2 m canEqual val r =
     (if obj_type val = TypeInt \<or> obj_type val = TypeDecimal
      then rbind (obj_decimalValue (\<lambda>_. 0) val) (\<lambda>d.
        if (if canEqual then comp1 (sint d) (sint m) else comp2 (sint d) (sint m)) then Inr r
        else Inr (fail ''value out of range'' r))
      else Inr r)"

fun has_dup :: "obj list \<Rightarrow> bool" where
  "has_dup [] = False"
| "has_dup (x # xs) = ((\<exists>y \<in> set xs. obj_eq x y) \<or> has_dup xs)"

text \<open>The remainder of two 64-bit integers; dividing the least one by -1 traps as a division by 0 does.\<close>

definition crem :: "i64 \<Rightarrow> i64 \<Rightarrow> int res" where
  "crem a b = (if b = 0 \<or> sint a = MojInt64Min \<and> sint b = - 1 then Inl MojDivByZero
     else Inr (sint a - tdiv (sint a) (sint b) * sint b))"

definition divisible_ok :: "i64 \<Rightarrow> obj \<Rightarrow> sresult \<Rightarrow> sresult res" where
  "divisible_ok m val r =
     (let bad = fail (''value not divisible by '' @ fmt_lld m) r in
      if obj_type val \<noteq> TypeInt \<and> obj_type val \<noteq> TypeDecimal then Inr r
      else if m = 0 then Inr bad
      else rbind (crem (intValue val) m) (\<lambda>q.
        if q \<noteq> 0 then Inr bad
        else case val of
          ODecimal d \<Rightarrow> if dec_fraction d \<noteq> 0 then Inr bad else Inr r
        | _ \<Rightarrow> Inr r))"

definition len_ok :: "(int \<Rightarrow> int \<Rightarrow> bool) \<Rightarrow> MojType \<Rightarrow> string \<Rightarrow> i64 \<Rightarrow> obj \<Rightarrow> nat \<Rightarrow> sresult \<Rightarrow> sresult res" where
  "len_ok cmp type msg m val len r =
     (if obj_type val = type \<and> \<not> cmp (int len) (sint m) then Inr (fail msg r) else Inr r)"

definition pattern_ok :: "string \<Rightarrow> (string \<Rightarrow> bool) \<Rightarrow> obj \<Rightarrow> sresult \<Rightarrow> sresult res" where
  "pattern_ok pattern m val r =
     (let s = (case obj_stringValue val of Inr s \<Rightarrow> s | Inl _ \<Rightarrow> []) in
      if m (cstr s) then Inr r
      else Inr (fail (''pattern : '' @ quoted pattern @ '' and value : '' @ quoted s @ '' do not match'') r))"

definition SimpleTypeRule_validate :: "MojType list \<Rightarrow> obj \<Rightarrow> sresult \<Rightarrow> sresult res" where
  "SimpleTypeRule_validate types val r =
     (if obj_type val \<in> set types then Inr r else Inr (fail ''invalid type'' r))"

definition SimpleDisallowRule_validate :: "MojType list \<Rightarrow> obj \<Rightarrow> sresult \<Rightarrow> sresult res" where
  "SimpleDisallowRule_validate types val r =
     rbind (SimpleTypeRule_validate types val \<lparr>r_valid = True, r_msg = []\<rparr>) (\<lambda>typeRes.
       if r_valid typeRes then Inr (fail ''type disallowed'' r) else Inr r)"

definition RequiresRule_validate :: "string \<Rightarrow> obj \<Rightarrow> sresult \<Rightarrow> sresult res" where
  "RequiresRule_validate prop parent r =
     (if obj_contains prop parent then Inr r else Inr (fail (''required prop not found - '' @ quoted prop) r))"

definition UniqueItemsRule_validate :: "obj \<Rightarrow> sresult \<Rightarrow> sresult res" where
  "UniqueItemsRule_validate val r =
     (if has_dup (ensureArray val) then Inr (fail ''duplicate items'' r) else Inr r)"

definition EnumRule_validate :: "obj list \<Rightarrow> obj \<Rightarrow> sresult \<Rightarrow> sresult res" where
  "EnumRule_validate vals val r =
     (if set_contains obj_compare val vals then Inr r else Inr (fail ''invalid enum value'' r))"

lemmas leaf_validate [simp] = SimpleTypeRule_validate_def SimpleDisallowRule_validate_def
  RequiresRule_validate_def UniqueItemsRule_validate_def EnumRule_validate_def

fun str_len :: "obj \<Rightarrow> nat" where
  "str_len (OString s) = length s"
| "str_len _ = 0"

lemma zip_size [termination_simp]: "(x, y) \<in> set (zip xs ys) \<Longrightarrow> size x \<le> size_list size xs"
  by (rule size_list_estimation') (auto dest: set_zip_leftD)

fun rule_validate :: "rule \<Rightarrow> obj \<Rightarrow> obj \<Rightarrow> sresult \<Rightarrow> sresult res" where
  "rule_validate (SchemaRule rules optional) val parent r =
     while_valid (\<lambda>rule r. rule_validate rule val parent r) rules r"
| "rule_validate (PatternRule pattern m) val parent r = pattern_ok pattern m val r"
| "rule_validate (SimpleTypeRule types) val parent r = SimpleTypeRule_validate types val r"
| "rule_validate (UnionTypeRule rules) val parent r =
     any_valid (\<lambda>rule r. rule_validate rule val parent r) rules r"
| "rule_validate (SimpleDisallowRule types) val parent r = SimpleDisallowRule_validate types val r"
| "rule_validate (UnionDisallowRule rules) val parent r =
     rbind (any_valid (\<lambda>rule r. rule_validate rule val parent r) rules \<lparr>r_valid = True, r_msg = []\<rparr>) (\<lambda>typeRes.
       if r_valid typeRes then Inr (fail ''type disallowed'' r) else Inr r)"
| "rule_validate (AdditionalPropertiesRule schemaRule allow) val parent r =
     (if \<not> allow then Inr (fail ''property not allowed'' r)
      else case schemaRule of None \<Rightarrow> Inr r | Some rule \<Rightarrow> rule_validate rule val parent r)"
| "rule_validate (PropertiesRule props additional) val parent r =
     props_walk (\<lambda>rule v r. rule_validate rule v val r)
       (\<lambda>v r. case additional of None \<Rightarrow> Inr r | Some rule \<Rightarrow> rule_validate rule v val r)
       props (ensureObject val) r"
| "rule_validate (SimpleItemsRule rule) val parent r =
     while_valid (\<lambda>v r. rule_validate rule v val r) (ensureArray val) r"
| "rule_validate (TupleItemsRule rules additional) val parent r =
     (if obj_type val \<noteq> TypeArray then Inr r
      else
        let vals = ensureArray val in
        rbind (while_valid (\<lambda>(rule, v) r. rule_validate rule v val r) (zip rules vals) r) (\<lambda>r.
          if \<not> r_valid r then Inr r
          else
            let r = (if length rules > length vals then fail ''too few items in array'' r else r) in
            case additional of
              None \<Rightarrow> Inr r
            | Some rule \<Rightarrow> while_valid (\<lambda>v r. rule_validate rule v val r) (drop (length rules) vals) r))"
| "rule_validate (RequiresRule prop) val parent r = RequiresRule_validate prop parent r"
| "rule_validate (MinRule m canEqual) val parent r = comp_ok (\<ge>) (>) m canEqual val r"
| "rule_validate (MaxRule m canEqual) val parent r = comp_ok (\<le>) (<) m canEqual val r"
| "rule_validate (MinItemsRule m) val parent r =
     len_ok (\<ge>) TypeArray ''array length out of range'' m val (containerSize val) r"
| "rule_validate (MaxItemsRule m) val parent r =
     len_ok (\<le>) TypeArray ''array length out of range'' m val (containerSize val) r"
| "rule_validate UniqueItemsRule val parent r = UniqueItemsRule_validate val r"
| "rule_validate (MinLenRule m) val parent r =
     len_ok (\<ge>) TypeString ''string length out of range'' m val (str_len val) r"
| "rule_validate (MaxLenRule m) val parent r =
     len_ok (\<le>) TypeString ''string length out of range'' m val (str_len val) r"
| "rule_validate (EnumRule vals) val parent r = EnumRule_validate vals val r"
| "rule_validate (DivisibleRule m) val parent r = divisible_ok m val r"

definition schema_validate :: "schema \<Rightarrow> obj \<Rightarrow> sresult \<Rightarrow> sresult res" where
  "schema_validate sch obj r =
     (case s_rule sch of
        None \<Rightarrow> Inr (r\<lparr>r_valid := True\<rparr>)
      | Some rule \<Rightarrow> rule_validate rule obj OUndefined (r\<lparr>r_valid := True\<rparr>))"

section \<open>What a schema means\<close>

text \<open>A number in units of a millionth.\<close>

fun number_rep :: "obj \<Rightarrow> int option" where
  "number_rep (OInt i) = Some (sint i * Numerator)"
| "number_rep (ODecimal d) = Some (sint d)"
| "number_rep _ = None"

definition number_sat :: "(int \<Rightarrow> bool) \<Rightarrow> obj \<Rightarrow> bool" where
  "number_sat P val = (case number_rep val of None \<Rightarrow> True | Some n \<Rightarrow> P n)"

fun conforms :: "rule \<Rightarrow> obj \<Rightarrow> obj \<Rightarrow> bool" where
  "conforms (SchemaRule rules optional) val parent = (\<forall>rule \<in> set rules. conforms rule val parent)"
| "conforms (PatternRule pattern m) val parent = (\<exists>s. obj_stringValue val = Inr s \<and> m (cstr s))"
| "conforms (SimpleTypeRule types) val parent = (obj_type val \<in> set types)"
| "conforms (UnionTypeRule rules) val parent = (\<exists>rule \<in> set rules. conforms rule val parent)"
| "conforms (SimpleDisallowRule types) val parent = (obj_type val \<notin> set types)"
| "conforms (UnionDisallowRule rules) val parent = (\<forall>rule \<in> set rules. \<not> conforms rule val parent)"
| "conforms (AdditionalPropertiesRule schemaRule allow) val parent =
     (allow \<and> (\<forall>rule \<in> set_option schemaRule. conforms rule val parent))"
| "conforms (PropertiesRule props additional) val parent =
     ((\<forall>p \<in> set props. case obj_get (fst p) val of
         None \<Rightarrow> rule_optional (snd p) | Some v \<Rightarrow> conforms (snd p) v val) \<and>
      (\<forall>q \<in> set (ensureObject val). fst q \<notin> fst ` set props \<longrightarrow>
         (\<forall>rule \<in> set_option additional. conforms rule (snd q) val)))"
| "conforms (SimpleItemsRule rule) val parent = (\<forall>v \<in> set (ensureArray val). conforms rule v val)"
| "conforms (TupleItemsRule rules additional) val parent =
     (obj_type val = TypeArray \<longrightarrow>
        length rules \<le> length (ensureArray val) \<and>
        (\<forall>(rule, v) \<in> set (zip rules (ensureArray val)). conforms rule v val) \<and>
        (\<forall>v \<in> set (drop (length rules) (ensureArray val)).
           \<forall>rule \<in> set_option additional. conforms rule v val))"
| "conforms (RequiresRule prop) val parent = obj_contains prop parent"
| "conforms (MinRule m canEqual) val parent =
     number_sat (\<lambda>n. if canEqual then sint m \<le> n else sint m < n) val"
| "conforms (MaxRule m canEqual) val parent =
     number_sat (\<lambda>n. if canEqual then n \<le> sint m else n < sint m) val"
| "conforms (MinItemsRule m) val parent = (\<forall>xs. val = OArray xs \<longrightarrow> sint m \<le> int (length xs))"
| "conforms (MaxItemsRule m) val parent = (\<forall>xs. val = OArray xs \<longrightarrow> int (length xs) \<le> sint m)"
| "conforms UniqueItemsRule val parent = (\<forall>xs. val = OArray xs \<longrightarrow> distinct xs)"
| "conforms (MinLenRule m) val parent = (\<forall>s. val = OString s \<longrightarrow> sint m \<le> int (length s))"
| "conforms (MaxLenRule m) val parent = (\<forall>s. val = OString s \<longrightarrow> int (length s) \<le> sint m)"
| "conforms (EnumRule vals) val parent = (val \<in> set vals)"
| "conforms (DivisibleRule m) val parent =
     number_sat (\<lambda>n. m \<noteq> 0 \<and> sint m * Numerator dvd n) val"

text \<open>Integers that a decimal can hold, as \<^verbatim>\<open>MojDecimal::assign\<close> asserts.\<close>

fun small_ints :: "obj \<Rightarrow> bool" where
  "small_ints (OObject ps) = (\<forall>p \<in> set ps. small_ints (snd p))"
| "small_ints (OArray xs) = (\<forall>x \<in> set xs. small_ints x)"
| "small_ints (OInt i) = (MagnitudeMin \<le> sint i \<and> sint i \<le> MagnitudeMax)"
| "small_ints _ = True"

text \<open>The rules that \<^verbatim>\<open>fromObject\<close> makes: properties in order, values well formed.\<close>

fun rule_ok :: "rule \<Rightarrow> bool" where
  "rule_ok (SchemaRule rules optional) = (\<forall>rule \<in> set rules. rule_ok rule)"
| "rule_ok (UnionTypeRule rules) = (\<forall>rule \<in> set rules. rule_ok rule)"
| "rule_ok (UnionDisallowRule rules) = (\<forall>rule \<in> set rules. rule_ok rule)"
| "rule_ok (AdditionalPropertiesRule schemaRule allow) = (\<forall>rule \<in> set_option schemaRule. rule_ok rule)"
| "rule_ok (PropertiesRule props additional) =
     (sorted_keys MojStrCmp props \<and> (\<forall>p \<in> set props. nonul (fst p) \<and> rule_ok (snd p)) \<and>
      (\<forall>rule \<in> set_option additional. rule_ok rule))"
| "rule_ok (SimpleItemsRule rule) = rule_ok rule"
| "rule_ok (TupleItemsRule rules additional) =
     ((\<forall>rule \<in> set rules. rule_ok rule) \<and> (\<forall>rule \<in> set_option additional. rule_ok rule))"
| "rule_ok (EnumRule vals) = (\<forall>v \<in> set vals. wf_obj v)"
| "rule_ok _ = True"

section \<open>The loops\<close>

text \<open>\<open>decides f P\<close>: on a valid result, \<open>f\<close> returns and leaves it valid exactly if \<open>P\<close> holds.\<close>

definition decides :: "(sresult \<Rightarrow> sresult res) \<Rightarrow> bool \<Rightarrow> bool" where
  "decides f P \<longleftrightarrow> (\<forall>r. r_valid r \<longrightarrow> (\<exists>r'. f r = Inr r' \<and> r_valid r' = P))"

lemma decidesI: "(\<And>r. r_valid r \<Longrightarrow> \<exists>r'. f r = Inr r' \<and> r_valid r' = P) \<Longrightarrow> decides f P"
  by (simp add: decides_def)

lemma decidesD: "decides f P \<Longrightarrow> r_valid r \<Longrightarrow> \<exists>r'. f r = Inr r' \<and> r_valid r' = P"
  by (simp add: decides_def)

lemma while_valid_decides:
  "(\<And>x. x \<in> set xs \<Longrightarrow> decides (f x) (P x)) \<Longrightarrow> decides (while_valid f xs) (\<forall>x \<in> set xs. P x)"
proof (induction xs)
  case (Cons x xs)
  show ?case
  proof (rule decidesI)
    fix r :: sresult assume "r_valid r"
    then obtain r' where r': "f x r = Inr r'" "r_valid r' = P x"
      using decidesD [of "f x" "P x" r] Cons.prems by auto
    have "decides (while_valid f xs) (\<forall>x \<in> set xs. P x)" using Cons by simp
    then show "\<exists>r'. while_valid f (x # xs) r = Inr r' \<and> r_valid r' = (\<forall>x \<in> set (x # xs). P x)"
      using r' by (cases "P x") (auto dest: decidesD)
  qed
qed (simp add: decides_def)

lemma any_valid_decides:
  "(\<And>x. x \<in> set xs \<Longrightarrow> decides (f x) (P x)) \<Longrightarrow> decides (any_valid f xs) (\<exists>x \<in> set xs. P x)"
proof -
  assume p: "\<And>x. x \<in> set xs \<Longrightarrow> decides (f x) (P x)"
  have "\<exists>r'. any_valid f xs r = Inr r' \<and> r_valid r' = (\<exists>x \<in> set xs. P x)" for r :: sresult
    using p
  proof (induction xs arbitrary: r)
    case (Cons x xs)
    obtain r' where r': "f x (r\<lparr>r_valid := True\<rparr>) = Inr r'" "r_valid r' = P x"
      using decidesD [of "f x" "P x" "r\<lparr>r_valid := True\<rparr>"] Cons.prems by auto
    then show ?case using Cons.IH [of r'] Cons.prems by (cases "P x") auto
  qed simp
  then show ?thesis by (simp add: decides_def)
qed

lemma map_get_map_of:
  "nonul k \<Longrightarrow> \<forall>p \<in> set ps. nonul (fst p) \<Longrightarrow> map_get MojStrCmp k ps = map_of ps k"
  using str_comp_nonul.cmp_eq_iff by (induction ps) auto

lemma sorted_front:
  assumes "sorted_keys MojStrCmp ((k, v) # vs)" "MojStrCmp n k < 0" "q \<in> set ((k, v) # vs)"
  shows "MojStrCmp n (fst q) < 0"
proof (cases "q = (k, v)")
  case False
  then have "MojStrCmp k (fst q) < 0" using assms by auto
  then show ?thesis using str_comp.cmp_trans_lt [of n k "fst q"] assms(2) by simp
qed (use assms in simp)

lemma not_mem_front:
  assumes "sorted_keys MojStrCmp ((k, v) # vs)" "MojStrCmp n k < 0"
  shows "n \<notin> fst ` set ((k, v) # vs)"
  using sorted_front [OF assms] str_comp.cmp_refl [of n] by (metis (no_types, lifting) image_iff less_irrefl)

lemma props_walk_decides:
  assumes "sorted_keys MojStrCmp ps" "\<forall>p \<in> set ps. nonul (fst p)"
    "sorted_keys MojStrCmp vs" "\<forall>q \<in> set vs. nonul (fst q)"
    "\<And>p q. p \<in> set ps \<Longrightarrow> q \<in> set vs \<Longrightarrow> decides (vf (snd p) (snd q)) (P (snd p) (snd q))"
    "\<And>q. q \<in> set vs \<Longrightarrow> decides (af (snd q)) (Q (snd q))"
  shows "decides (props_walk vf af ps vs)
    ((\<forall>p \<in> set ps. case map_of vs (fst p) of None \<Rightarrow> rule_optional (snd p) | Some v \<Rightarrow> P (snd p) v) \<and>
     (\<forall>q \<in> set vs. fst q \<notin> fst ` set ps \<longrightarrow> Q (snd q)))" (is "decides _ (?S ps vs)")
proof (rule decidesI)
  fix r :: sresult assume "r_valid r"
  with assms show "\<exists>r'. props_walk vf af ps vs r = Inr r' \<and> r_valid r' = ?S ps vs"
  proof (induction vf af ps vs r rule: props_walk.induct)
    case (2 vf af k v vs r)
    obtain r' where "af v r = Inr r'" "r_valid r' = Q v"
      using 2(7) [of "(k, v)"] 2(8) by (auto dest: decidesD)
    then show ?case using 2 by (cases "Q v") auto
  next
    case (3 vf af n rule ps r)
    then show ?case by (cases "rule_optional rule") auto
  next
    case (4 vf af n rule ps k v vs r)
    consider "0 < MojStrCmp n k" | "MojStrCmp n k < 0" | "MojStrCmp n k = 0" by linarith
    then show ?case
    proof cases
      case 1
      then have kn: "MojStrCmp k n < 0" using str_comp.cmp_lt_iff [of k n] by blast
      have ne: "k \<notin> fst ` set ((n, rule) # ps)" using not_mem_front [OF 4(4) kn] .
      have drop: "map_of ((k, v) # vs) (fst p) = map_of vs (fst p)" if "p \<in> set ((n, rule) # ps)" for p
        using that ne by (cases p) (auto simp: image_iff)
      have eq: "?S ((n, rule) # ps) ((k, v) # vs) \<longleftrightarrow> Q v \<and> ?S ((n, rule) # ps) vs"
        using ne drop by (auto simp del: map_of.simps)
      obtain r' where "af v r = Inr r'" "r_valid r' = Q v"
        using 4(9) [of "(k, v)"] 4(10) by (auto dest: decidesD)
      moreover have "\<exists>r''. props_walk vf af ((n, rule) # ps) vs r' = Inr r'' \<and> r_valid r'' = ?S ((n, rule) # ps) vs" if "Q v"
        using that 1 calculation 4 by (intro 4(1)) auto
      ultimately show ?thesis unfolding eq using 1 by (cases "Q v") auto
    next
      case 2
      then have none: "map_of ((k, v) # vs) n = None" using not_mem_front [OF 4(6) 2] by (simp add: map_of_eq_None_iff)
      have ne: "fst q \<noteq> n" if "q \<in> set ((k, v) # vs)" for q
        using not_mem_front [OF 4(6) 2] that by (force simp: image_iff)
      have eq: "?S ((n, rule) # ps) ((k, v) # vs) \<longleftrightarrow> rule_optional rule \<and> ?S ps ((k, v) # vs)"
        using none ne by (auto simp del: map_of.simps)
      have "\<exists>r''. props_walk vf af ps ((k, v) # vs) r = Inr r'' \<and> r_valid r'' = ?S ps ((k, v) # vs)" if "rule_optional rule"
        using that 2 4 by (intro 4(2)) auto
      then show ?thesis unfolding eq using 2 by (cases "rule_optional rule") auto
    next
      case 3
      then have kn: "k = n" using str_comp_nonul.cmp_eq [of n k] 4(5,7) by simp
      have nps: "n \<notin> fst ` set ps" "n \<notin> fst ` set vs"
        using 4(4,6) kn str_comp.cmp_refl [of n] by (auto simp: image_iff)
      have drop: "map_of ((k, v) # vs) (fst p) = map_of vs (fst p)" if "p \<in> set ps" for p
        using that nps kn by (cases p) (auto simp: image_iff)
      have hd: "map_of ((k, v) # vs) n = Some v" using kn by simp
      have q: "fst q \<noteq> n" if "q \<in> set vs" for q using that nps by auto
      have eq: "?S ((n, rule) # ps) ((k, v) # vs) \<longleftrightarrow> P rule v \<and> ?S ps vs"
        using drop q kn hd by (auto simp del: map_of.simps)
      obtain r' where "vf rule v r = Inr r'" "r_valid r' = P rule v"
        using 4(8) [of "(n, rule)" "(k, v)"] 4(10) by (auto dest: decidesD)
      moreover have "\<exists>r''. props_walk vf af ps vs r' = Inr r'' \<and> r_valid r'' = ?S ps vs" if "P rule v"
        using that 3 calculation 4 by (intro 4(3)) auto
      ultimately show ?thesis unfolding eq using 3 by (cases "P rule v") auto
    qed
  qed simp
qed

section \<open>The rules on numbers\<close>

lemma sint_word_of_int: "- (2 ^ 63) \<le> x \<Longrightarrow> x < 2 ^ 63 \<Longrightarrow> sint (word_of_int x :: i64) = x"
  by (simp add: signed_of_int signed_take_bit_int_eq_self)

lemma dec_assign_small:
  assumes "MagnitudeMin \<le> sint i" "sint i \<le> MagnitudeMax"
  shows "\<exists>d. dec_assign i 0 = Inr d \<and> sint d = sint i * Numerator"
proof -
  have m: "MagnitudeMin = - 9223371036854" "MagnitudeMax = 9223371036854" by code_simp+
  have "i * word_of_int Numerator = (word_of_int (sint i * Numerator) :: i64)" by simp
  moreover have "sint (word_of_int (sint i * Numerator) :: i64) = sint i * Numerator"
    using assms by (intro sint_word_of_int) (simp_all add: m Numerator_def)
  ultimately have "sint (i * word_of_int Numerator) = sint i * Numerator" by simp
  then show ?thesis using assms by (simp add: dec_assign_def FractionMax_def Numerator_def Let_def)
qed

lemma comp_decides:
  assumes "small_ints val"
  shows "decides (comp_ok comp1 comp2 m canEqual val)
    (number_sat (\<lambda>n. if canEqual then comp1 n (sint m) else comp2 n (sint m)) val)"
proof (cases val)
  case (OInt i)
  then obtain d where "dec_assign i 0 = Inr d" "sint d = sint i * Numerator"
    using dec_assign_small [of i] assms by auto
  then show ?thesis using OInt by (auto simp: decides_def comp_ok_def number_sat_def)
qed (auto simp: decides_def comp_ok_def number_sat_def)

lemma tdiv_dvd: "b \<noteq> 0 \<Longrightarrow> a - tdiv a b * b = 0 \<longleftrightarrow> b dvd a"
proof
  assume b: "b \<noteq> 0" and "b dvd a"
  then obtain k where "a = b * k" by blast
  then show "a - tdiv a b * b = 0"
    using b by (auto simp: tdiv_def sgn_if abs_mult zero_less_mult_iff mult_less_0_iff)
qed (metis dvd_triv_right eq_iff_diff_eq_0)

lemma dec_fraction_dvd: "dec_fraction d = 0 \<longleftrightarrow> Numerator dvd sint d"
proof -
  let ?a = "sint (MojAbs d)"
  have n: "Numerator = 1000000" by (simp add: Numerator_def)
  let ?r = "?a - tdiv ?a Numerator * Numerator"
  have range: "- 1000000 < ?r" "?r < 1000000"
    by (auto simp: n tdiv_def sgn_if abs_if)
  have "dec_fraction d = 0 \<longleftrightarrow> ?r = 0"
  proof
    assume "dec_fraction d = 0"
    then have "(2 ^ 32 :: int) dvd ?r"
      by (simp only: dec_fraction_def word_of_int_eq_0_iff) simp
    then show "?r = 0" using range zdvd_imp_le [of "2 ^ 32" "\<bar>?r\<bar>"] by fastforce
  qed (simp add: dec_fraction_def)
  also have "\<dots> \<longleftrightarrow> Numerator dvd ?a" by (rule tdiv_dvd) (simp add: n)
  also have "\<dots> \<longleftrightarrow> Numerator dvd sint d"
  proof (cases "d = word_of_int MojInt64Min \<or> sint d \<ge> 0")
    case True
    then have "MojAbs d = d" by (auto simp: MojAbs_def MojInt64Min_def)
    then show ?thesis by simp
  next
    case False
    have "- (2 ^ 63) \<le> sint d" "sint d < 2 ^ 63" using sint_range_size [of d] by (simp_all add: word_size)
    moreover have "sint d \<noteq> - (2 ^ 63)"
    proof
      assume "sint d = - (2 ^ 63)"
      moreover have "d = word_of_int (sint d)" by simp
      ultimately have "d = word_of_int (- (2 ^ 63))" by simp
      then show False using False by (simp add: MojInt64Min_def)
    qed
    ultimately have "sint (word_of_int (- sint d) :: i64) = - sint d" by (intro sint_word_of_int) auto
    then have "?a = - sint d" using False by (simp add: MojAbs_def)
    then show ?thesis by simp
  qed
  finally show ?thesis .
qed

lemma divisible_decides:
  assumes "small_ints val"
  shows "decides (divisible_ok m val) (number_sat (\<lambda>n. m \<noteq> 0 \<and> sint m * Numerator dvd n) val)"
proof (cases "number_rep val")
  case None
  then have "obj_type val \<noteq> TypeInt \<and> obj_type val \<noteq> TypeDecimal" by (cases val) simp_all
  then show ?thesis using None by (simp add: decides_def divisible_ok_def number_sat_def Let_def)
next
  case (Some n)
  show ?thesis
  proof (cases "m = 0")
    case True
    then show ?thesis using Some by (cases val) (simp_all add: decides_def divisible_ok_def number_sat_def Let_def)
  next
    case m: False
    then have sm: "sint m \<noteq> 0" by simp
    have N: "Numerator \<noteq> 0" by (simp add: Numerator_def)
    have crem: "crem a m = Inr (sint a - tdiv (sint a) (sint m) * sint m)" if "sint a \<noteq> MojInt64Min" for a
      using that m by (simp add: crem_def)
    from Some show ?thesis
    proof (cases val)
      case (OInt i)
      have "sint i \<noteq> MojInt64Min"
        using assms OInt by (auto simp: MagnitudeMin_def MojInt64Min_def tdiv_def Numerator_def)
      then show ?thesis
        using OInt m tdiv_dvd [OF sm, of "sint i"] N
        by (auto simp: decides_def divisible_ok_def number_sat_def Let_def crem)
    next
      case (ODecimal d)
      let ?g = "tdiv (sint d) Numerator"
      have "- (2 ^ 63) \<le> sint d" "sint d < 2 ^ 63" using sint_range_size [of d] by (simp_all add: word_size)
      then have "- 9223372036855 \<le> ?g" "?g \<le> 9223372036855"
        by (auto simp: tdiv_def Numerator_def sgn_if abs_if)
      then have g: "sint (dec_magnitude d) = ?g" "sint (dec_magnitude d) \<noteq> MojInt64Min"
        by (simp_all add: dec_magnitude_def sint_word_of_int MojInt64Min_def)
      have cr: "crem (dec_magnitude d) m = Inr (?g - tdiv ?g (sint m) * sint m)"
        using crem [OF g(2)] by (simp only: g(1))
      have "(sint m dvd ?g \<and> Numerator dvd sint d) \<longleftrightarrow> sint m * Numerator dvd sint d"
        using tdiv_dvd [OF N, of "sint d"] N
        by (metis dvd_mult_right dvd_times_right_cancel_iff eq_iff_diff_eq_0 mult_dvd_mono dvd_refl)
      then show ?thesis
        using ODecimal m tdiv_dvd [OF sm, of ?g] dec_fraction_dvd [of d] cr
        by (auto simp: decides_def divisible_ok_def number_sat_def Let_def)
    qed auto
  qed
qed

section \<open>Validation decides conformance\<close>

lemma wf_ensureObject': "wf_obj v \<Longrightarrow> p \<in> set (ensureObject v) \<Longrightarrow> wf_obj (snd p)"
  using wf_ensureObject by blast

lemma wf_ensureArray': "wf_obj v \<Longrightarrow> x \<in> set (ensureArray v) \<Longrightarrow> wf_obj x"
  using wf_ensureArray by (auto simp: list_all_iff)

lemma small_parts:
  "small_ints v \<Longrightarrow> p \<in> set (ensureObject v) \<Longrightarrow> small_ints (snd p)"
  "small_ints v \<Longrightarrow> x \<in> set (ensureArray v) \<Longrightarrow> small_ints x"
  by (cases v; auto)+

lemma has_dup_distinct: "\<forall>x \<in> set xs. wf_obj x \<Longrightarrow> has_dup xs \<longleftrightarrow> \<not> distinct xs"
  using obj_comp_wf.cmp_eq_iff by (induction xs) (auto simp: obj_eq_compare)

lemma enum_mem:
  "\<forall>v \<in> set vals. wf_obj v \<Longrightarrow> wf_obj val \<Longrightarrow> set_contains obj_compare val vals \<longleftrightarrow> val \<in> set vals"
  using obj_comp_wf.cmp_eq_iff by (auto simp: set_contains_def)

lemma decides_if: "decides (\<lambda>r. if P then Inr r else Inr (fail m r)) P"
  by (simp add: decides_def)

lemma decides_cong: "decides f P \<Longrightarrow> P = Q \<Longrightarrow> decides f Q"
  by simp

lemma decides_option:
  "(\<And>a. x = Some a \<Longrightarrow> decides (f a) (P a)) \<Longrightarrow>
   decides (\<lambda>r. case x of None \<Rightarrow> Inr r | Some a \<Rightarrow> f a r) (\<forall>a \<in> set_option x. P a)"
  by (cases x) (auto simp: decides_def)

lemma len_decides: "decides (len_ok cmpf type msg m val len) (obj_type val = type \<longrightarrow> cmpf (int len) (sint m))"
  by (simp add: decides_def len_ok_def)

lemma rule_validate_decides:
  "rule_ok rule \<Longrightarrow> wf_obj val \<Longrightarrow> small_ints val \<Longrightarrow>
   decides (rule_validate rule val parent) (conforms rule val parent)"
proof (induction rule arbitrary: val parent)
  case (SchemaRule rules optional)
  then show ?case
    using while_valid_decides [of rules "\<lambda>rule r. rule_validate rule val parent r" "\<lambda>rule. conforms rule val parent"]
    by (simp add: decides_def)
next
  case (PatternRule pattern m)
  then show ?case
    using obj_stringValue_total [of val] by (auto simp: decides_def pattern_ok_def Let_def split: sum.splits)
next
  case (UnionTypeRule rules)
  then show ?case
    using any_valid_decides [of rules "\<lambda>rule r. rule_validate rule val parent r" "\<lambda>rule. conforms rule val parent"]
    by (simp add: decides_def)
next
  case (UnionDisallowRule rules)
  then have "decides (any_valid (\<lambda>rule r. rule_validate rule val parent r) rules) (\<exists>rule \<in> set rules. conforms rule val parent)"
    by (intro any_valid_decides) simp
  from decidesD [OF this, of "\<lparr>r_valid = True, r_msg = []\<rparr>"] show ?case by (auto simp: decides_def)
next
  case (AdditionalPropertiesRule schemaRule allow)
  then show ?case by (cases schemaRule) (auto simp: decides_def)
next
  case (PropertiesRule props additional)
  note wo = wf_ensureObject [OF PropertiesRule.prems(2)]
  have "decides (props_walk (\<lambda>rule v r. rule_validate rule v val r)
      (\<lambda>v r. case additional of None \<Rightarrow> Inr r | Some rule \<Rightarrow> rule_validate rule v val r) props (ensureObject val))
    ((\<forall>p \<in> set props. case map_of (ensureObject val) (fst p) of
        None \<Rightarrow> rule_optional (snd p) | Some v \<Rightarrow> conforms (snd p) v val) \<and>
     (\<forall>q \<in> set (ensureObject val). fst q \<notin> fst ` set props \<longrightarrow>
        (\<forall>rule \<in> set_option additional. conforms rule (snd q) val)))"
  proof (rule props_walk_decides)
    fix p q
    assume "p \<in> set props" "q \<in> set (ensureObject val)"
    then show "decides (\<lambda>r. rule_validate (snd p) (snd q) val r) (conforms (snd p) (snd q) val)"
      using PropertiesRule.IH(1) [of p "snd p" "snd q"] PropertiesRule.prems wf_ensureObject' small_parts
      by (auto simp: snds.simps)
  next
    fix q
    assume "q \<in> set (ensureObject val)"
    then show "decides (\<lambda>r. case additional of None \<Rightarrow> Inr r | Some rule \<Rightarrow> rule_validate rule (snd q) val r)
        (\<forall>rule \<in> set_option additional. conforms rule (snd q) val)"
      using PropertiesRule.IH(2) PropertiesRule.prems wf_ensureObject' small_parts by (intro decides_option) auto
  qed (use PropertiesRule.prems wo in auto)
  moreover have "obj_get (fst p) val = map_of (ensureObject val) (fst p)" if "p \<in> set props" for p
    using that PropertiesRule.prems(1) wo by (cases val) (auto intro: map_get_map_of)
  ultimately show ?case by simp
next
  case (SimpleItemsRule rule)
  then show ?case
    using while_valid_decides [of "ensureArray val" "\<lambda>v r. rule_validate rule v val r" "\<lambda>v. conforms rule v val"]
      wf_ensureArray' small_parts(2)
    by (simp add: decides_def)
next
  case (TupleItemsRule rules additional)
  let ?vals = "ensureArray val"
  have z: "decides (while_valid (\<lambda>(rule, v) r. rule_validate rule v val r) (zip rules ?vals))
      (\<forall>x \<in> set (zip rules ?vals). case x of (rule, v) \<Rightarrow> conforms rule v val)"
  proof (rule while_valid_decides)
    fix x assume x: "x \<in> set (zip rules ?vals)"
    obtain rule v where e: "x = (rule, v)" by (cases x)
    have "rule \<in> set rules" "v \<in> set ?vals" using x e by (auto dest: set_zip_leftD, auto dest: set_zip_rightD)
    then show "decides (case x of (rule, v) \<Rightarrow> \<lambda>r. rule_validate rule v val r) (case x of (rule, v) \<Rightarrow> conforms rule v val)"
      using TupleItemsRule.IH(1) TupleItemsRule.prems wf_ensureArray' small_parts(2) e by auto
  qed
  have a: "decides (\<lambda>r. case additional of None \<Rightarrow> Inr r | Some rule \<Rightarrow>
        while_valid (\<lambda>v r. rule_validate rule v val r) (drop (length rules) ?vals) r)
      (\<forall>rule \<in> set_option additional. \<forall>v \<in> set (drop (length rules) ?vals). conforms rule v val)"
    using TupleItemsRule.IH(2) TupleItemsRule.prems wf_ensureArray' small_parts(2)
    by (intro decides_option while_valid_decides) (auto dest: in_set_dropD)
  show ?case
  proof (rule decidesI)
    fix r :: sresult assume r: "r_valid r"
    obtain r' where r': "while_valid (\<lambda>(rule, v) r. rule_validate rule v val r) (zip rules ?vals) r = Inr r'"
        "r_valid r' = (\<forall>x \<in> set (zip rules ?vals). case x of (rule, v) \<Rightarrow> conforms rule v val)"
      using decidesD [OF z r] by auto
    show "\<exists>r'. rule_validate (TupleItemsRule rules additional) val parent r = Inr r' \<and>
        r_valid r' = conforms (TupleItemsRule rules additional) val parent"
    proof (cases "obj_type val = TypeArray \<and> r_valid r' \<and> length rules \<le> length ?vals")
      case True
      then show ?thesis using decidesD [OF a, of r'] r' by (auto simp: Let_def)
    next
      case False
      then show ?thesis using r r' by (cases "length rules \<le> length ?vals") (auto simp: Let_def split: option.splits)
    qed
  qed
next
  case (MinRule m canEqual)
  then show ?case using comp_decides [of val "(\<ge>)" "(>)" m canEqual] by (simp add: decides_def)
next
  case (MaxRule m canEqual)
  then show ?case using comp_decides [of val "(\<le>)" "(<)" m canEqual] by (simp add: decides_def)
next
  case (MinItemsRule m)
  then show ?case using len_decides by (cases val) (auto simp: decides_def len_ok_def)
next
  case (MaxItemsRule m)
  then show ?case by (cases val) (auto simp: decides_def len_ok_def)
next
  case UniqueItemsRule
  then show ?case by (cases val) (auto simp: decides_def has_dup_distinct)
next
  case (MinLenRule m)
  then show ?case by (cases val) (auto simp: decides_def len_ok_def)
next
  case (MaxLenRule m)
  then show ?case by (cases val) (auto simp: decides_def len_ok_def)
next
  case (EnumRule vals)
  then show ?case by (simp add: decides_def enum_mem)
next
  case (DivisibleRule m)
  then show ?case using divisible_decides [of val m] by (simp add: decides_def)
qed (auto simp: decides_def)

section \<open>The rules that are read\<close>

text \<open>\<open>parses f P\<close>: what the parser returns satisfies \<open>P\<close>.\<close>

definition parses :: "'a sparse \<Rightarrow> ('a \<Rightarrow> bool) \<Rightarrow> bool" where
  "parses f P \<longleftrightarrow> (\<forall>s a s'. f s = Inr (a, s') \<longrightarrow> P a)"

lemma opt_parse_ok:
  "(\<And>v. x = Some v \<Longrightarrow> parses (f v) P) \<Longrightarrow> parses (opt_parse x f) (\<lambda>y. \<forall>a \<in> set_option y. P a)"
  by (cases x) (auto simp: parses_def opt_parse_def rbind_Inr_iff)

lemma run_invariant:
  "run f s xs = Inr s' \<Longrightarrow> I s \<Longrightarrow> (\<And>x s s'. x \<in> set xs \<Longrightarrow> I s \<Longrightarrow> f s x = Inr s' \<Longrightarrow> I s') \<Longrightarrow> I s'"
proof (induction xs arbitrary: s)
  case (Cons x xs)
  then obtain s1 where "f s x = Inr s1" "run f s1 xs = Inr s'" by (auto simp: rbind_Inr_iff)
  moreover from this have "I s1" using Cons.prems by auto
  ultimately show ?case using Cons by auto
qed simp

lemma union_ok:
  assumes "\<And>v. v \<in> set (ensureArray obj) \<Longrightarrow> parses (f v) rule_ok"
  shows "parses (UnionTypeRule_fromObject f obj) (\<lambda>rs. \<forall>r \<in> set rs. rule_ok r)"
  unfolding parses_def UnionTypeRule_fromObject_def
proof (intro allI impI)
  fix s rs s'
  assume r: "run (\<lambda>(rules, strings) v.
        (case v of
           OString _ \<Rightarrow> rbind (SimpleTypeRule_fromObject v) (\<lambda>ts. Inr (rules @ [SimpleTypeRule ts], strings))
         | _ \<Rightarrow> rbind (f v strings) (\<lambda>(r, strings). Inr (rules @ [r], strings))))
       ([], s) (ensureArray obj) = Inr (rs, s')"
  have "\<forall>r \<in> set (fst (rs, s')). rule_ok r"
    by (rule run_invariant [OF r, where I = "\<lambda>(rs, s). \<forall>r \<in> set rs. rule_ok r", simplified case_prod_unfold])
      (use assms in \<open>force simp: rbind_Inr_iff parses_def split: obj.splits\<close>)+
  then show "\<forall>r \<in> set rs. rule_ok r" by simp
qed

lemma properties_ok:
  assumes "\<And>p. p \<in> set (ensureObject obj) \<Longrightarrow> nonul (fst p) \<and> parses (f (snd p)) rule_ok"
  shows "parses (PropertiesRule_fromObject f obj)
    (\<lambda>ps. sorted_keys MojStrCmp ps \<and> (\<forall>p \<in> set ps. nonul (fst p) \<and> rule_ok (snd p)))"
  unfolding parses_def PropertiesRule_fromObject_def
proof (intro allI impI)
  fix s ps s'
  assume r: "run (\<lambda>(props, strings) p.
        rbind (f (snd p) strings) (\<lambda>(r, strings).
          Inr (map_put MojStrCmp (fst p) r props, set_put MojStrCmp (fst p) strings)))
       ([], s) (ensureObject obj) = Inr (ps, s')"
  let ?I = "\<lambda>st. sorted_keys MojStrCmp (fst st) \<and> (\<forall>p \<in> set (fst st). nonul (fst p) \<and> rule_ok (snd p))"
  have "?I (ps, s')"
  proof (rule run_invariant [OF r, where I = ?I])
    fix p st st'
    assume p: "p \<in> set (ensureObject obj)" and inv: "?I st"
      and step: "(case st of (props, strings) \<Rightarrow> \<lambda>p.
        rbind (f (snd p) strings) (\<lambda>(r, strings).
          Inr (map_put MojStrCmp (fst p) r props, set_put MojStrCmp (fst p) strings))) p = Inr st'"
    from step obtain r s1 where r: "f (snd p) (snd st) = Inr (r, s1)"
        and st': "fst st' = map_put MojStrCmp (fst p) r (fst st)"
      by (auto simp: rbind_Inr_iff case_prod_unfold)
    have "rule_ok r" using assms [OF p] r unfolding parses_def by blast
    then show "?I st'"
      using assms [OF p] inv str_map.put_sorted [where key="fst p" and nodes="fst st" and val=r]
      by (auto simp: st' dest!: map_put_mem)
  qed simp
  then show "sorted_keys MojStrCmp ps \<and> (\<forall>p \<in> set ps. nonul (fst p) \<and> rule_ok (snd p))" by simp
qed

lemma enum_ok: "wf_obj obj \<Longrightarrow> parses (EnumRule_fromObject obj) (\<lambda>vs. \<forall>v \<in> set vs. wf_obj v)"
  unfolding parses_def EnumRule_fromObject_def
proof (intro allI impI)
  fix s vs s'
  assume wf: "wf_obj obj" and r: "run (\<lambda>(vals, strings) v.
        rbind (case v of OString s \<Rightarrow> Inr (set_put MojStrCmp s strings) | _ \<Rightarrow> Inr strings) (\<lambda>strings.
          Inr (set_put obj_compare v vals, strings)))
       ([], s) (ensureArray obj) = Inr (vs, s')"
  have mem: "x \<in> set (set_put obj_compare v vals) \<Longrightarrow> x = v \<or> x \<in> set vals" for x v vals
    by (induction vals) (auto split: if_splits)
  have "\<forall>v \<in> set (fst (vs, s')). wf_obj v"
  proof (rule run_invariant [OF r, where I = "\<lambda>st. \<forall>v \<in> set (fst st). wf_obj v"])
    fix v st st'
    assume "v \<in> set (ensureArray obj)" "\<forall>v \<in> set (fst st). wf_obj v"
      "(case st of (vals, strings) \<Rightarrow> \<lambda>v. rbind (case v of OString s \<Rightarrow> Inr (set_put MojStrCmp s strings) | _ \<Rightarrow> Inr strings)
         (\<lambda>strings. Inr (set_put obj_compare v vals, strings))) v = Inr st'"
    then show "\<forall>v \<in> set (fst st'). wf_obj v"
      using wf_ensureArray' [OF wf] by (auto simp: rbind_Inr_iff case_prod_unfold dest!: mem)
  qed simp
  then show "\<forall>v \<in> set vs. wf_obj v" by simp
qed

lemma opt_rule_ok:
  "(\<And>v r. mk v = Inr r \<Longrightarrow> rule_ok r) \<Longrightarrow> opt_rule key mk obj = Inr rs \<Longrightarrow> \<forall>r \<in> set rs. rule_ok r"
  by (auto simp: opt_rule_def rbind_Inr_iff split: option.splits)

lemma rbind_InrE: "rbind x f = Inr b \<Longrightarrow> (\<And>a. x = Inr a \<Longrightarrow> f a = Inr b \<Longrightarrow> P) \<Longrightarrow> P"
  by (auto simp: rbind_Inr_iff)

lemma rbind2_InrE:
  "rbind x (\<lambda>(a, s). f a s) = Inr b \<Longrightarrow> (\<And>a s. x = Inr (a, s) \<Longrightarrow> f a s = Inr b \<Longrightarrow> P) \<Longrightarrow> P"
  by (auto simp: rbind_Inr_iff)

lemma leaf_rules_ok:
  "opt_rule key (PatternRule_fromObject env) obj = Inr rs \<Longrightarrow> \<forall>r \<in> set rs. rule_ok r"
  "opt_rule key (\<lambda>v. rbind (obj_stringValue v) (\<lambda>s. Inr (RequiresRule s))) obj = Inr rs \<Longrightarrow> \<forall>r \<in> set rs. rule_ok r"
  "(\<And>d b. rule_ok (mk d b)) \<Longrightarrow> opt_rule key (comp_rule env mk ck ob) obj = Inr rs \<Longrightarrow> \<forall>r \<in> set rs. rule_ok r"
  "(\<And>i. rule_ok (mki i)) \<Longrightarrow> opt_rule key (int_rule mki) obj = Inr rs \<Longrightarrow> \<forall>r \<in> set rs. rule_ok r"
  by (auto simp: opt_rule_def rbind_Inr_iff PatternRule_fromObject_def comp_rule_def int_rule_def
      split: option.splits)

lemma tail_ok:
  assumes "wf_obj obj" "SchemaRule_tail env obj s = Inr (rs, s')"
  shows "\<forall>r \<in> set rs. rule_ok r"
proof -
  obtain r1 r2 r3 r4 r5 r6 r8 r9 vs r11 s1 where
    1: "opt_rule ''pattern'' (PatternRule_fromObject env) obj = Inr r1"
    and 2: "opt_rule ''requires'' (\<lambda>v. rbind (obj_stringValue v) (\<lambda>s. Inr (RequiresRule s))) obj = Inr r2"
    and 3: "opt_rule ''minimum'' (comp_rule env MinRule ''minimumCanEqual'' obj) obj = Inr r3"
    and 4: "opt_rule ''maximum'' (comp_rule env MaxRule ''maximumCanEqual'' obj) obj = Inr r4"
    and 5: "opt_rule ''minItems'' (int_rule MinItemsRule) obj = Inr r5"
    and 6: "opt_rule ''maxItems'' (int_rule MaxItemsRule) obj = Inr r6"
    and 8: "opt_rule ''minLength'' (int_rule MinLenRule) obj = Inr r8"
    and 9: "opt_rule ''maxLength'' (int_rule MaxLenRule) obj = Inr r9"
    and 10: "opt_parse (obj_get ''enum'' obj) EnumRule_fromObject s = Inr (vs, s1)"
    and 11: "opt_rule ''divisibleBy'' (int_rule DivisibleRule) obj = Inr r11"
    and res: "Inr (r1 @ r2 @ r3 @ r4 @ r5 @ r6 @ (if get_bool ''uniqueItems'' obj = Some True then [UniqueItemsRule] else []) @
      r8 @ r9 @ (case vs of None \<Rightarrow> [] | Some vs \<Rightarrow> [EnumRule vs]) @ r11, s1) = (Inr (rs, s') :: (rule list \<times> string list) res)"
    using assms(2) unfolding SchemaRule_tail_def Let_def
    by (elim rbind2_InrE rbind_InrE) (rule that, assumption+)
  then have rs: "rs = r1 @ r2 @ r3 @ r4 @ r5 @ r6 @ (if get_bool ''uniqueItems'' obj = Some True then [UniqueItemsRule] else []) @
      r8 @ r9 @ (case vs of None \<Rightarrow> [] | Some vs \<Rightarrow> [EnumRule vs]) @ r11" by simp
  have "parses (opt_parse (obj_get ''enum'' obj) EnumRule_fromObject) (\<lambda>y. \<forall>vs' \<in> set_option y. \<forall>v \<in> set vs'. wf_obj v)"
    by (rule opt_parse_ok, rule enum_ok, rule obj_get_wf [OF assms(1)])
  then have "\<forall>vs' \<in> set_option vs. \<forall>v \<in> set vs'. wf_obj v" using 10 unfolding parses_def by blast
  then have "rule_ok r" if "r \<in> set (case vs of None \<Rightarrow> [] | Some vs \<Rightarrow> [EnumRule vs])" for r
    using that by (cases vs) auto
  moreover have "\<forall>r \<in> set r1 \<union> set r2. rule_ok r" using leaf_rules_ok(1) [OF 1] leaf_rules_ok(2) [OF 2] by blast
  moreover have "\<forall>r \<in> set r3 \<union> set r4. rule_ok r"
    using leaf_rules_ok(3) [OF _ 3] leaf_rules_ok(3) [OF _ 4] by auto
  moreover have "\<forall>r \<in> set r5 \<union> set r6 \<union> set r8 \<union> set r9 \<union> set r11. rule_ok r"
    using leaf_rules_ok(4) [OF _ 5] leaf_rules_ok(4) [OF _ 6] leaf_rules_ok(4) [OF _ 8] leaf_rules_ok(4) [OF _ 9]
      leaf_rules_ok(4) [OF _ 11] by auto
  ultimately show ?thesis unfolding rs by auto
qed

lemma SchemaRule_fromObject_ok: "wf_obj obj \<Longrightarrow> parses (SchemaRule_fromObject env obj) rule_ok"
proof (induction obj rule: measure_induct_rule [of size])
  case (less obj)
  let ?f = "SchemaRule_fromObject env"
  have sub: "parses (?f v) rule_ok" if "obj_get k obj = Some w" "size v \<le> size w" "wf_obj v" for k w v
    using less.IH [of v] that obj_get_size [of k obj w] by auto
  note wf = obj_get_wf [OF less.prems]
  have add: "parses (opt_parse (obj_get k obj) (AdditionalPropertiesRule_fromObject ?f)) (\<lambda>y. \<forall>a \<in> set_option y. rule_ok a)" for k
    by (rule opt_parse_ok, insert sub [of k] wf [of k])
      (fastforce simp: AdditionalPropertiesRule_fromObject_def parses_def rbind_Inr_iff split: obj.splits)
  have un: "parses (UnionTypeRule_fromObject ?f v) (\<lambda>rs. \<forall>r \<in> set rs. rule_ok r)" if "obj_get k obj = Some v" for k v
    using that wf [OF that] wf_ensureArray' ensureArray_size by (intro union_ok sub [OF that]) (auto intro: less_imp_le)
  have props: "parses (opt_parse (case obj_get k obj of None \<Rightarrow> if b then Some OUndefined else None | Some val \<Rightarrow> Some val)
      (PropertiesRule_fromObject ?f)) (\<lambda>y. \<forall>ps \<in> set_option y.
        sorted_keys MojStrCmp ps \<and> (\<forall>p \<in> set ps. nonul (fst p) \<and> rule_ok (snd p)))" for k b
  proof (rule opt_parse_ok, rule properties_ok)
    fix v p
    assume "(case obj_get k obj of None \<Rightarrow> if b then Some OUndefined else None | Some val \<Rightarrow> Some val) = Some v"
      and p: "p \<in> set (ensureObject v)"
    then have v: "obj_get k obj = Some v" by (auto split: option.splits if_splits)
    then show "nonul (fst p) \<and> parses (?f (snd p)) rule_ok"
      using wf_ensureObject [OF wf [OF v]] p ensureObject_size [OF p] sub [OF v, of "snd p"] by auto
  qed
  have tyr: "parses (opt_parse (obj_get k obj) (type_rule si uni ?f)) (\<lambda>y. \<forall>a \<in> set_option y. rule_ok a)"
    if "\<And>ts. rule_ok (si ts)" "\<And>rs. \<forall>r \<in> set rs. rule_ok r \<Longrightarrow> rule_ok (uni rs)" for k si uni
    using un [of k] that
    by (intro opt_parse_ok) (fastforce simp: type_rule_def parses_def rbind_Inr_iff split: if_splits)
  have itm: "parses (opt_parse (obj_get k obj) (items_rule a ?f)) (\<lambda>y. \<forall>a \<in> set_option y. rule_ok a)"
    if "\<forall>r \<in> set_option a. rule_ok r" for k a
    using un [of k] sub [of k] wf [of k] that
    by (intro opt_parse_ok) (fastforce simp: items_rule_def parses_def rbind_Inr_iff split: if_splits)
  show ?case
    unfolding parses_def
  proof (intro allI impI)
    fix s r s'
    assume "?f obj s = Inr (r, s')"
    then have r: "SchemaRule_step ?f env obj s = Inr (r, s')" by (simp only: SchemaRule_fromObject.simps)
    then obtain additional s1 ps s2 opt ty s3 dis s4 items s5 rest s6 where
      1: "opt_parse (obj_get ''additionalProperties'' obj) (AdditionalPropertiesRule_fromObject ?f) s = Inr (additional, s1)"
      and 2: "opt_parse (case obj_get ''properties'' obj of None \<Rightarrow> if additional \<noteq> None then Some OUndefined else None
           | Some val \<Rightarrow> Some val) (PropertiesRule_fromObject ?f) s1 = Inr (ps, s2)"
      and 3: "opt_parse (obj_get ''type'' obj) (type_rule SimpleTypeRule UnionTypeRule ?f) s2 = Inr (ty, s3)"
      and 4: "opt_parse (obj_get ''disallow'' obj) (type_rule SimpleDisallowRule UnionDisallowRule ?f) s3 = Inr (dis, s4)"
      and 5: "opt_parse (obj_get ''items'' obj) (items_rule additional ?f) s4 = Inr (items, s5)"
      and 6: "SchemaRule_tail env obj s5 = Inr (rest, s6)"
      and res: "Inr (SchemaRule (opt_list (map_option (\<lambda>ps. PropertiesRule ps additional) ps) @ opt_list ty @
        opt_list dis @ opt_list items @ rest) opt, s6) = (Inr (r, s') :: (rule \<times> string list) res)"
      unfolding SchemaRule_step_def Let_def
      by (elim rbind2_InrE rbind_InrE) (rule that, assumption+)
    from res have r: "r = SchemaRule (opt_list (map_option (\<lambda>ps. PropertiesRule ps additional) ps) @ opt_list ty @
        opt_list dis @ opt_list items @ rest) opt" by simp
    have a: "\<forall>r \<in> set_option additional. rule_ok r" using add 1 unfolding parses_def by blast
    have p: "\<forall>q \<in> set_option ps. sorted_keys MojStrCmp q \<and> (\<forall>p \<in> set q. nonul (fst p) \<and> rule_ok (snd p))"
      using props [where k = "''properties''" and b = "additional \<noteq> None"] 2 unfolding parses_def by blast
    have t: "\<forall>r \<in> set_option ty. rule_ok r"
      using tyr [where si = SimpleTypeRule and uni = UnionTypeRule and k = "''type''"] 3 unfolding parses_def by auto
    have d: "\<forall>r \<in> set_option dis. rule_ok r"
      using tyr [where si = SimpleDisallowRule and uni = UnionDisallowRule and k = "''disallow''"] 4 unfolding parses_def by auto
    have i: "\<forall>r \<in> set_option items. rule_ok r" using itm [OF a] 5 unfolding parses_def by blast
    show "rule_ok r"
      using a p t d i tail_ok [OF less.prems 6]
      by (cases ps; cases ty; cases dis; cases items) (auto simp: r opt_list_def)
  qed
qed

text \<open>
  C24. Validation decides conformance: for a schema that was read from any well-formed object, and a well-formed value
  all of whose integers fit a decimal (\<open>small_ints\<close>: within the magnitude of about 9.2e12, so never the least integer),
  the validation breaks no assertion and its verdict is that of the schema's meaning, for properties in any order and
  nesting. Beyond that range it does break one (\<open>big_int_asserts\<close>, \<open>divisible_traps\<close>).
\<close>

theorem schema_validate_conforms:
  assumes "wf_obj spec" "schema_fromObject env spec schema_new = Inr sch" "wf_obj val" "small_ints val"
  shows "\<exists>rule res. s_rule sch = Some rule \<and> schema_validate sch val r = Inr res \<and>
    r_valid res = conforms rule val OUndefined"
proof -
  obtain rule strings where f: "SchemaRule_fromObject env spec (s_strings schema_new) = Inr (rule, strings)"
      and s: "s_rule sch = Some rule"
    using assms(2) by (auto simp: schema_fromObject_def rbind_Inr_iff)
  have "rule_ok rule" using SchemaRule_fromObject_ok [OF assms(1)] f unfolding parses_def by blast
  from decidesD [OF rule_validate_decides [OF this assms(3,4)], of "r\<lparr>r_valid := True\<rparr>"]
  show ?thesis by (auto simp: s schema_validate_def)
qed

definition schema_env_ex :: schema_env where
  "schema_env_ex = \<lparr>regex_of = (\<lambda>_. None), strtod_decimal = (\<lambda>_. 0)\<rparr>"

definition schema_ex :: obj where
  "schema_ex = OObject [(''additionalProperties'', OBool False),
     (''properties'', OObject [(''age'', OObject [(''minimum'', OInt 18), (''required'', OBool True)])])]"

theorem schema_validate_conforms_witness:
  "\<exists>sch rule res. schema_fromObject schema_env_ex schema_ex schema_new = Inr sch \<and> s_rule sch = Some rule \<and>
    schema_validate sch (OObject [(''age'', OInt 17)]) \<lparr>r_valid = True, r_msg = ''''\<rparr> = Inr res \<and> \<not> r_valid res \<and>
    r_valid res = conforms rule (OObject [(''age'', OInt 17)]) OUndefined"
proof -
  define sch where "sch = \<lparr>s_rule = Some (SchemaRule [PropertiesRule [(''age'', SchemaRule [MinRule 18000000 True] False)]
      (Some (AdditionalPropertiesRule None False))] True), s_strings = [''age'']\<rparr>"
  have f: "schema_fromObject schema_env_ex schema_ex schema_new = Inr sch"
    by (simp add: sch_def schema_fromObject_def schema_ex_def schema_new_def SchemaRule_fromObject.simps
        SchemaRule_step_def SchemaRule_tail_def opt_parse_def opt_rule_def opt_list_def read_optional_def get_bool_def
        AdditionalPropertiesRule_fromObject_def PropertiesRule_fromObject_def comp_rule_def dec_assign_def
        MagnitudeMax_def MagnitudeMin_def MojInt64Max_def MojInt64Min_def tdiv_def Numerator_def FractionMax_def)
  have "wf_obj schema_ex" "wf_obj (OObject [(''age'', OInt 17)])" "small_ints (OObject [(''age'', OInt 17)])"
    by code_simp+
  from schema_validate_conforms [OF this(1) f this(2,3), of "\<lparr>r_valid = True, r_msg = ''''\<rparr>"]
  obtain res where res: "schema_validate sch (OObject [(''age'', OInt 17)]) \<lparr>r_valid = True, r_msg = ''''\<rparr> = Inr res"
      "r_valid res = conforms (the (s_rule sch)) (OObject [(''age'', OInt 17)]) OUndefined" by auto
  have "\<not> conforms (the (s_rule sch)) (OObject [(''age'', OInt 17)]) OUndefined"
    by (simp add: sch_def number_sat_def Numerator_def)
  then show ?thesis using f res by (auto simp: sch_def)
qed

section \<open>Where the code gives up\<close>

text \<open>
  A bound on a number is checked in decimals, which hold no integer beyond some 9.2 billion thousands:
  \<^verbatim>\<open>decimalValue\<close> asserts on a larger one.
\<close>

lemma big_int_asserts:
  "rule_validate (MinRule 0 True) (OInt 9223371036855) OUndefined r = Inl MojAssertFailed"
  by (simp add: comp_ok_def dec_assign_def MagnitudeMax_def MojInt64Max_def tdiv_def Numerator_def)

lemma divisible_traps:
  "rule_validate (DivisibleRule (- 1)) (OInt (word_of_int MojInt64Min)) OUndefined r = Inl MojDivByZero"
  by (simp add: divisible_ok_def crem_def MojInt64Min_def)

end
