(* ===== verification/DbTxn.thy ===== *)
theory DbTxn
  imports LevelTxn DbPermit
begin

text \<open>
  The part of a transaction that every storage engine shares (\<^verbatim>\<open>src/db/MojDbStorageTxn.cpp\<close>): the byte
  offsets that it charges to the quotas of the kinds it changes (\<^verbatim>\<open>Quota\<close> and \<^verbatim>\<open>Offset\<close> of
  \<^verbatim>\<open>src/db/MojDbQuotaEngine.cpp\<close>). The watchers of a transaction are modelled in \<open>DbWatcher\<close>.
\<close>

section \<open>Quota\<close>

record quota =
  q_size :: i64
  q_usage :: i64

definition quota_new :: "i64 \<Rightarrow> quota" where
  "quota_new s = \<lparr>q_size = s, q_usage = 0\<rparr>"

definition quota_available :: "quota \<Rightarrow> i64" where
  "quota_available q = q_size q - q_usage q"

definition quota_offset :: "i64 \<Rightarrow> quota \<Rightarrow> quota" where
  "quota_offset off q = q\<lparr>q_usage := q_usage q + off\<rparr>"

text \<open>\<^verbatim>\<open>m_quotas\<close>: the owners' quotas, longer owners first. A quota never leaves the map while it is open, so
  that a reference to it is the key it stands at.\<close>

type_synonym quotas = "(string \<times> quota) list"

section \<open>Offset\<close>

record kind_offset =
  o_offset :: i64
  o_quota :: "string option"

definition offset_new :: kind_offset where
  "offset_new = \<lparr>o_offset = 0, o_quota = None\<rparr>"

definition offset_apply :: "quotas \<Rightarrow> i64 \<Rightarrow> kind_offset \<Rightarrow> kind_offset res" where
  "offset_apply quotas offset ofs =
     (let newOffset = o_offset ofs + offset in
      if (case o_quota ofs of
            Some owner \<Rightarrow> sint newOffset > sint (quota_available (the (map_get LengthComp owner quotas)))
          | None \<Rightarrow> False)
      then Inl MojErrDbQuotaExceeded
      else Inr (ofs\<lparr>o_offset := newOffset\<rparr>))"

section \<open>MojDbStorageTxn\<close>

text \<open>\<^verbatim>\<open>m_curQuotaOffset\<close> points into \<^verbatim>\<open>m_offsetMap\<close>, so it is the kind whose offset it is.\<close>

record storage_txn =
  t_quotaEnabled :: bool
  t_refreshQuotas :: bool
  t_quotaEngine :: bool
  t_offsetMap :: "(string \<times> kind_offset) list"
  t_curQuotaOffset :: "string option"

definition txn_new :: storage_txn where
  "txn_new = \<lparr>t_quotaEnabled = True, t_refreshQuotas = False, t_quotaEngine = False, t_offsetMap = [],
     t_curQuotaOffset = None\<rparr>"

definition curOffset :: "'a storage_txn_scheme \<Rightarrow> kind_offset option" where
  "curOffset t = Option.bind (t_curQuotaOffset t) (\<lambda>kind. map_get MojStrCmp kind (t_offsetMap t))"

definition offsetQuota :: "quotas \<Rightarrow> i64 \<Rightarrow> 'a storage_txn_scheme \<Rightarrow> 'a storage_txn_scheme res" where
  "offsetQuota quotas offset t =
     (case (t_curQuotaOffset t, t_quotaEnabled t) of
        (Some kind, True) \<Rightarrow>
          rbind (offset_apply quotas offset (the (map_get MojStrCmp kind (t_offsetMap t)))) (\<lambda>ofs.
            Inr (t\<lparr>t_offsetMap := map_put MojStrCmp kind ofs (t_offsetMap t)\<rparr>))
      | _ \<Rightarrow> Inr t)"

section \<open>Bounds\<close>

lemma sint_add_small:
  fixes v w :: i64
  assumes "\<bar>sint v\<bar> + \<bar>sint w\<bar> < 2 ^ 63"
  shows "sint (v + w) = sint v + sint w"
proof -
  have "sint (v + w) = signed_take_bit 63 (sint v + sint w)" by (simp add: sint_word_ariths)
  then show ?thesis using assms by (simp add: signed_take_bit_int_eq_self)
qed

lemma sint_diff_small:
  fixes v w :: i64
  assumes "0 \<le> sint v" "0 \<le> sint w"
  shows "sint (v - w) = sint v - sint w"
proof -
  have "sint (v - w) = signed_take_bit 63 (sint v - sint w)" by (simp add: sint_word_ariths)
  then show ?thesis using assms sint_lt [of v] sint_lt [of w] by (simp add: signed_take_bit_int_eq_self)
qed

lemma offsetQuota_step:
  assumes "t_curQuotaOffset t = Some kind" "t_quotaEnabled t" "map_get MojStrCmp kind (t_offsetMap t) = Some ofs"
    "o_quota ofs = Some owner" "map_get LengthComp owner quotas = Some q"
    "0 \<le> sint (q_size q)" "0 \<le> sint (q_usage q)" "\<bar>sint (o_offset ofs)\<bar> + \<bar>sint off\<bar> < 2 ^ 63"
    "sorted_keys MojStrCmp (t_offsetMap t)"
  shows "if sint (o_offset ofs) + sint off > sint (q_size q) - sint (q_usage q)
    then offsetQuota quotas off t = Inl MojErrDbQuotaExceeded
    else \<exists>t' ofs'. offsetQuota quotas off t = Inr t' \<and> t_curQuotaOffset t' = Some kind \<and> t_quotaEnabled t' \<and>
      map_get MojStrCmp kind (t_offsetMap t') = Some ofs' \<and> o_quota ofs' = Some owner \<and>
      sint (o_offset ofs') = sint (o_offset ofs) + sint off \<and> sorted_keys MojStrCmp (t_offsetMap t')"
  using assms
  by (simp add: offsetQuota_def offset_apply_def quota_available_def sint_add_small sint_diff_small Let_def
      str_map.get_put str_map.put_sorted str_comp.cmp_refl)

text \<open>The sums after each charge.\<close>

fun totals :: "int \<Rightarrow> i64 list \<Rightarrow> int list" where
  "totals n [] = []"
| "totals n (off # offs) = (n + sint off) # totals (n + sint off) offs"

lemma totals_last: "last (n # totals n offs) = n + sum_list (map sint offs)"
  by (induction offs arbitrary: n) auto

lemma charges:
  assumes "t_curQuotaOffset t = Some kind" "t_quotaEnabled t" "map_get MojStrCmp kind (t_offsetMap t) = Some ofs"
    "o_quota ofs = Some owner" "map_get LengthComp owner quotas = Some q"
    "0 \<le> sint (q_size q)" "0 \<le> sint (q_usage q)"
    "\<bar>sint (o_offset ofs)\<bar> + sum_list (map (\<lambda>off. \<bar>sint off\<bar>) offs) < 2 ^ 63"
    "sorted_keys MojStrCmp (t_offsetMap t)"
  shows "if \<forall>n \<in> set (totals (sint (o_offset ofs)) offs). n \<le> sint (q_size q) - sint (q_usage q)
    then \<exists>t' ofs'. run (\<lambda>t off. offsetQuota quotas off t) t offs = Inr t' \<and>
      map_get MojStrCmp kind (t_offsetMap t') = Some ofs' \<and> o_quota ofs' = Some owner \<and>
      sint (o_offset ofs') = sint (o_offset ofs) + sum_list (map sint offs)
    else run (\<lambda>t off. offsetQuota quotas off t) t offs = Inl MojErrDbQuotaExceeded"
  using assms
proof (induction offs arbitrary: t ofs)
  case (Cons off offs)
  have nn: "0 \<le> sum_list (map (\<lambda>off. \<bar>sint off\<bar>) offs)" by (induction offs) auto
  then have small: "\<bar>sint (o_offset ofs)\<bar> + \<bar>sint off\<bar> < 2 ^ 63" using Cons.prems(8) by simp
  note step = offsetQuota_step [OF Cons.prems(1-7) small Cons.prems(9)]
  show ?case
  proof (cases "sint (o_offset ofs) + sint off > sint (q_size q) - sint (q_usage q)")
    case True
    then show ?thesis using step by simp
  next
    case False
    then obtain t' ofs' where t': "offsetQuota quotas off t = Inr t'" "t_curQuotaOffset t' = Some kind"
      "t_quotaEnabled t'" "map_get MojStrCmp kind (t_offsetMap t') = Some ofs'" "o_quota ofs' = Some owner"
      "sint (o_offset ofs') = sint (o_offset ofs) + sint off" "sorted_keys MojStrCmp (t_offsetMap t')"
      using step by auto
    have "\<bar>sint (o_offset ofs')\<bar> + sum_list (map (\<lambda>off. \<bar>sint off\<bar>) offs) < 2 ^ 63"
      using t'(6) Cons.prems(8) by simp
    from Cons.IH [OF t'(2-5) Cons.prems(5-7) this t'(7)] show ?thesis
      using False by (simp add: t'(1,6) add.assoc not_less split: if_splits)
  qed
qed auto

text \<open>
  C23. While a transaction with its quota enabled changes one kind, and the absolute values of its charges add up to less
  than \<open>2 ^ 63\<close>: the charges go through exactly if after each of them the sum of the charges so far fits into what the
  owner's quota has left; the offset is then that sum, and adding it to the usage, as the commit does, does not wrap around
  and stays within the size. Otherwise the first charge that does not fit is answered with \<open>MojErrDbQuotaExceeded\<close>. Charges
  of the same transaction to another kind of the owner are not seen (\<open>two_kinds_overdraw\<close>).
\<close>

theorem offsetQuota_bounds:
  assumes "t_curQuotaOffset t = Some kind" "t_quotaEnabled t" "map_get MojStrCmp kind (t_offsetMap t) = Some (offset_new\<lparr>o_quota := Some owner\<rparr>)"
    "map_get LengthComp owner quotas = Some q" "0 \<le> sint (q_size q)" "0 \<le> sint (q_usage q)"
    "sum_list (map (\<lambda>off. \<bar>sint off\<bar>) offs) < 2 ^ 63" "sorted_keys MojStrCmp (t_offsetMap t)"
  shows "case run (\<lambda>t off. offsetQuota quotas off t) t offs of
      Inl e \<Rightarrow> e = MojErrDbQuotaExceeded \<and>
        (\<exists>n \<in> set (totals 0 offs). n > sint (q_size q) - sint (q_usage q))
    | Inr t' \<Rightarrow> \<exists>ofs. map_get MojStrCmp kind (t_offsetMap t') = Some ofs \<and>
        sint (o_offset ofs) = sum_list (map sint offs) \<and>
        (\<forall>n \<in> set (totals 0 offs). n \<le> sint (q_size q) - sint (q_usage q)) \<and>
        (offs \<noteq> [] \<longrightarrow> sint (q_usage (quota_offset (o_offset ofs) q)) =
            sint (q_usage q) + sint (o_offset ofs) \<and> sint (q_usage q) + sint (o_offset ofs) \<le> sint (q_size q))"
proof -
  note c = charges [OF assms(1-3) _ assms(4-6) _ assms(8), of offs]
  have last: "sum_list (map sint offs) \<in> set (totals 0 offs)" if "offs \<noteq> []"
  proof -
    have "totals 0 offs \<noteq> []" using that by (cases offs) simp_all
    then show ?thesis using totals_last [of 0 offs] last_in_set [of "totals 0 offs"] by simp
  qed
  show ?thesis
  proof (cases "\<forall>n \<in> set (totals 0 offs). n \<le> sint (q_size q) - sint (q_usage q)")
    case True
    then obtain t' ofs where t': "run (\<lambda>t off. offsetQuota quotas off t) t offs = Inr t'"
      "map_get MojStrCmp kind (t_offsetMap t') = Some ofs" "sint (o_offset ofs) = sum_list (map sint offs)"
      using c assms(7) unfolding offset_new_def by auto
    have fits: "sint (q_usage q) + sint (o_offset ofs) \<le> sint (q_size q)" if "offs \<noteq> []"
      using bspec [OF True last [OF that]] t'(3) by simp
    have "\<bar>sum_list (map sint offs)\<bar> \<le> sum_list (map (\<lambda>off. \<bar>sint off\<bar>) offs)"
      by (induction offs) auto
    then have low: "- (2 ^ 63) < sint (o_offset ofs)" using assms(7) t'(3) by simp
    have "sint (q_usage (quota_offset (o_offset ofs) q)) = sint (q_usage q) + sint (o_offset ofs)"
      if "offs \<noteq> []"
    proof -
      have "sint (q_usage q + o_offset ofs) = signed_take_bit 63 (sint (q_usage q) + sint (o_offset ofs))"
        by (simp add: sint_word_ariths)
      also have "\<dots> = sint (q_usage q) + sint (o_offset ofs)"
        using fits [OF that] low assms(6) sint_lt [of "q_size q"]
        by (intro signed_take_bit_int_eq_self) simp_all
      finally show ?thesis by (simp add: quota_offset_def)
    qed
    then show ?thesis using True t' fits by auto
  next
    case False
    then show ?thesis using c assms(7) by (auto simp: offset_new_def not_le)
  qed
qed

definition txn_ex :: storage_txn where
  "txn_ex = txn_new\<lparr>t_offsetMap := [(''K'', offset_new\<lparr>o_quota := Some ''o''\<rparr>)], t_curQuotaOffset := Some ''K''\<rparr>"

theorem offsetQuota_bounds_witness:
  "\<exists>t' ofs. run (\<lambda>t off. offsetQuota [(''o'', \<lparr>q_size = 100, q_usage = 30\<rparr>)] off t) txn_ex [50, - 10] = Inr t' \<and>
    map_get MojStrCmp ''K'' (t_offsetMap t') = Some ofs \<and> sint (o_offset ofs) = 40"
  using offsetQuota_bounds [of txn_ex "''K''" "''o''" "[(''o'', \<lparr>q_size = 100, q_usage = 30\<rparr>)]"
      "\<lparr>q_size = 100, q_usage = 30\<rparr>" "[50, - 10]"]
  by (auto simp: txn_ex_def txn_new_def str_comp.cmp_refl len_comp.cmp_refl split: sum.splits)

section \<open>What goes wrong\<close>

text \<open>
  Once the usage is above the size (the quota was lowered, or two kinds were charged at once), even a change that frees
  space is refused.
\<close>

lemma over_quota_refuses_deletes:
  "offsetQuota [(''o'', \<lparr>q_size = 10, q_usage = 30\<rparr>)] (- 5) txn_ex = Inl MojErrDbQuotaExceeded"
  by (simp add: txn_ex_def txn_new_def offset_new_def offsetQuota_def offset_apply_def quota_available_def
      str_comp.cmp_refl len_comp.cmp_refl)

lemma kind_ex_ne: "MojStrCmp ''K'' ''L'' < 0"
  by code_simp

text \<open>Two kinds of one owner are charged apart: each fits, both together do not.\<close>

lemma two_kinds_overdraw:
  "\<exists>t t'. offsetQuota [(''o'', \<lparr>q_size = 100, q_usage = 30\<rparr>)] 60
      (txn_ex\<lparr>t_offsetMap := [(''K'', offset_new\<lparr>o_quota := Some ''o''\<rparr>), (''L'', offset_new\<lparr>o_quota := Some ''o''\<rparr>)]\<rparr>) = Inr t \<and>
    offsetQuota [(''o'', \<lparr>q_size = 100, q_usage = 30\<rparr>)] 60 (t\<lparr>t_curQuotaOffset := Some ''L''\<rparr>) = Inr t'"
  by (simp add: txn_ex_def txn_new_def offset_new_def offsetQuota_def offset_apply_def quota_available_def
      str_comp.cmp_refl len_comp.cmp_refl kind_ex_ne)

end
