(* ===== verification/LevelStore.thy ===== *)
theory LevelStore
  imports LevelIter DbTxn ObjReader "HOL-Library.AList"
begin

text \<open>
  The databases of the LevelDB engine: items and the operations of a database within a transaction
  (\<^verbatim>\<open>src/db-engine/leveldb/MojDbLevelDatabase.cpp\<close>, \<^verbatim>\<open>MojDbLevelItem.cpp\<close>), the transaction over several
  databases (\<^verbatim>\<open>MojDbLevelEnvTxn\<close> of \<^verbatim>\<open>MojDbLevelTxn.cpp\<close>), and the sequence (\<^verbatim>\<open>MojDbLevelSeq.cpp\<close>). The locale
  \<open>storage\<close> states what the rest of the database relies on of the interface \<^verbatim>\<open>MojDbStorageDatabase\<close>.
\<close>

section \<open>The interface MojDbStorageDatabase\<close>

text \<open>
  The operations read the committed world \<open>'w\<close> and the transaction \<open>'t\<close>; the changes go into the
  transaction. An update is told the bytes of the old item.
\<close>

record ('w, 't) storage_db =
  sd_insert :: "obj \<Rightarrow> byte list \<Rightarrow> 'w \<Rightarrow> 't \<Rightarrow> 't res"
  sd_update :: "obj \<Rightarrow> byte list \<Rightarrow> byte list \<Rightarrow> 'w \<Rightarrow> 't \<Rightarrow> 't res"
  sd_del :: "obj \<Rightarrow> 'w \<Rightarrow> 't \<Rightarrow> (bool \<times> 't) res"
  sd_get :: "obj \<Rightarrow> 'w \<Rightarrow> 't \<Rightarrow> byte list option res"

lemma enc_inj: "ser_ok x \<Longrightarrow> ser_ok y \<Longrightarrow> enc x = enc y \<longleftrightarrow> x = y"
  using enc_obj.enc_order [of x y] obj_compare_eq [of x y] bcmp.cmp_refl [of "enc x"]
  by (auto simp: ser_ok_def list_all_iff sgn_eq_0_iff)

locale storage =
  fixes sd :: "('w, 't) storage_db" and view :: "'w \<Rightarrow> 't \<Rightarrow> byte list \<Rightarrow> byte list option" and ok :: "'t \<Rightarrow> bool"
  assumes insert_law: "ok t \<Longrightarrow> sd_insert sd oid val w t = Inr t' \<Longrightarrow> ok t' \<and> view w t' = (view w t)(enc oid \<mapsto> val)"
    and update_law: "ok t \<Longrightarrow> sd_update sd oid val old w t = Inr t' \<Longrightarrow> ok t' \<and> view w t' = (view w t)(enc oid \<mapsto> val)"
    and del_law: "ok t \<Longrightarrow> sd_del sd oid w t = Inr (found, t') \<Longrightarrow> ok t' \<and> view w t' = (view w t)(enc oid := None)"
    and get_law: "ok t \<Longrightarrow> sd_get sd oid w t = Inr (view w t (enc oid))"
begin

lemma get_insert:
  assumes "ok t" "sd_insert sd oid val w t = Inr t'" "ser_ok oid" "ser_ok oid'"
  shows "sd_get sd oid' w t' = (if oid' = oid then Inr (Some val) else sd_get sd oid' w t)"
  using insert_law [OF assms(1,2)] get_law assms enc_inj by auto

lemma get_update:
  assumes "ok t" "sd_update sd oid val old w t = Inr t'" "ser_ok oid" "ser_ok oid'"
  shows "sd_get sd oid' w t' = (if oid' = oid then Inr (Some val) else sd_get sd oid' w t)"
  using update_law [OF assms(1,2)] get_law assms enc_inj by auto

lemma get_del:
  assumes "ok t" "sd_del sd oid w t = Inr (found, t')" "ser_ok oid" "ser_ok oid'"
  shows "sd_get sd oid' w t' = (if oid' = oid then Inr None else sd_get sd oid' w t)"
  using del_law [OF assms(1,2)] get_law assms enc_inj by auto

end

text \<open>Two databases of a transaction that do not see each other's changes.\<close>

locale storage_pair = fst: storage sd view ok + snd: storage sd' view' ok
  for sd :: "('w, 't) storage_db" and view and ok :: "'t \<Rightarrow> bool" and sd' :: "('w, 't) storage_db" and view' +
  assumes insert_apart: "ok t \<Longrightarrow> sd_insert sd oid val w t = Inr t' \<Longrightarrow> view' w t' = view' w t"
    and update_apart: "ok t \<Longrightarrow> sd_update sd oid val old w t = Inr t' \<Longrightarrow> view' w t' = view' w t"
    and del_apart: "ok t \<Longrightarrow> sd_del sd oid w t = Inr (found, t') \<Longrightarrow> view' w t' = view' w t"

section \<open>MojDbLevelItem\<close>

text \<open>An item is its bytes; \<open>item_hasPrefix\<close> and the conversions.\<close>

definition item_fromObject :: "obj \<Rightarrow> byte list res" where
  "item_fromObject obj = toBytes obj"

definition item_toObject :: "byte list \<Rightarrow> obj res" where
  "item_toObject data = fromBytes data"

definition item_hasPrefix :: "byte list \<Rightarrow> dbkey \<Rightarrow> bool" where
  "item_hasPrefix data prefix \<longleftrightarrow> length prefix \<le> length data \<and> take (length prefix) data = prefix"

definition item_toArray :: "byte list \<Rightarrow> obj res" where
  "item_toArray data =
     rbind (builder_ev builder_reset BeginArray) (\<lambda>b.
       rbind (reader_read builder_ev b (reader_init data)) (\<lambda>(b, _).
         rbind (builder_ev b EndArray) (\<lambda>b. Inr (m_obj b))))"

definition item_fromObjectVector :: "obj list \<Rightarrow> byte list res" where
  "item_fromObjectVector vec =
     (if vec = [] then Inl MojAssertFailed
      else rbind (map_res toBytes vec) (\<lambda>bs. Inr (concat bs)))"

section \<open>MojDbLevelEnvTxn\<close>

text \<open>
  The table transactions by database, in the order in which they were begun. One that a look-up begins is
  empty and has nothing to commit, so it is begun with the first change here.
\<close>

record 'it level_txn = storage_txn +
  lt_tableTxns :: "(string \<times> 'it table_txn) list"

definition level_txn_new :: "'it level_txn" where
  "level_txn_new = \<lparr>t_quotaEnabled = True, t_refreshQuotas = False, t_quotaEngine = False, t_offsetMap = [],
     t_curQuotaOffset = None, lt_tableTxns = []\<rparr>"

definition table_txn_new :: "'it table_txn" where
  "table_txn_new = \<lparr>tt_values = [], tt_deletes = [], tt_iters = []\<rparr>"

definition tableTxn :: "string \<Rightarrow> 'it level_txn \<Rightarrow> 'it table_txn" where
  "tableTxn db t = (case map_of (lt_tableTxns t) db of Some tt \<Rightarrow> tt | None \<Rightarrow> table_txn_new)"

definition set_tableTxn :: "string \<Rightarrow> 'it table_txn \<Rightarrow> 'it level_txn \<Rightarrow> 'it level_txn" where
  "set_tableTxn db tt t = t\<lparr>lt_tableTxns := AList.update db tt (lt_tableTxns t)\<rparr>"

record level_world =
  lw_dbs :: "string \<Rightarrow> dbkey \<Rightarrow> byte list option"
  lw_quotas :: quotas

text \<open>
  The commit goes through the databases one by one; \<open>status\<close> is what each answers. A database that fails
  does not stop the others, and the first error is returned.
\<close>

definition env_commitImpl ::
  "(string \<Rightarrow> MojErr option) \<Rightarrow> 'it level_txn \<Rightarrow> level_world \<Rightarrow> level_world \<times> MojErr option" where
  "env_commitImpl status t w =
     foldl (\<lambda>(w, accErr) (db, tt).
         case commitImpl (status db) (lw_dbs w db) tt of
           Inl e \<Rightarrow> (w, if accErr = None then Some e else accErr)
         | Inr (contents, _) \<Rightarrow> (w\<lparr>lw_dbs := (lw_dbs w)(db := contents)\<rparr>, accErr))
       (w, None) (lt_tableTxns t)"

section \<open>MojDbLevelDatabase\<close>

text \<open>\<open>iters\<close> gives the iterators of the engine for the contents of a database.\<close>

type_synonym 'it engine_iters = "(dbkey \<Rightarrow> byte list option) \<Rightarrow> 'it ldb"

definition ldb_putItem ::
  "'it engine_iters \<Rightarrow> string \<Rightarrow> dbkey \<Rightarrow> byte list \<Rightarrow> bool \<Rightarrow> level_world \<Rightarrow> 'it level_txn \<Rightarrow> 'it level_txn res" where
  "ldb_putItem iters db key val updateIdQuota w t =
     (let quotaOffset = word_of_nat (length val) + (if updateIdQuota then word_of_nat (length key) else 0) in
      rbind (offsetQuota (lw_quotas w) quotaOffset t) (\<lambda>t.
        rbind (tt_Put (iters (lw_dbs w db)) key val (tableTxn db t)) (\<lambda>tt.
          Inr (set_tableTxn db tt t))))"

definition ldb_delItem ::
  "'it engine_iters \<Rightarrow> string \<Rightarrow> dbkey \<Rightarrow> level_world \<Rightarrow> 'it level_txn \<Rightarrow> (bool \<times> 'it level_txn) res" where
  "ldb_delItem iters db key w t =
     rbind (offsetQuota (lw_quotas w) (- word_of_nat (length key)) t) (\<lambda>t.
       rbind (tt_Delete (iters (lw_dbs w db)) key (tableTxn db t)) (\<lambda>tt.
         Inr (True, set_tableTxn db tt t)))"

definition ldb_getItem :: "string \<Rightarrow> dbkey \<Rightarrow> level_world \<Rightarrow> 'it level_txn \<Rightarrow> byte list option" where
  "ldb_getItem db key w t = tt_Get (lw_dbs w db) key (tableTxn db t)"

definition ldb_put ::
  "'it engine_iters \<Rightarrow> string \<Rightarrow> obj \<Rightarrow> byte list \<Rightarrow> bool \<Rightarrow> level_world \<Rightarrow> 'it level_txn \<Rightarrow> 'it level_txn res" where
  "ldb_put iters db oid val updateIdQuota w t =
     rbind (item_fromObject oid) (\<lambda>key. ldb_putItem iters db key val updateIdQuota w t)"

definition ldb_insert ::
  "'it engine_iters \<Rightarrow> string \<Rightarrow> obj \<Rightarrow> byte list \<Rightarrow> level_world \<Rightarrow> 'it level_txn \<Rightarrow> 'it level_txn res" where
  "ldb_insert iters db oid val w t = ldb_put iters db oid val True w t"

definition ldb_update ::
  "'it engine_iters \<Rightarrow> string \<Rightarrow> obj \<Rightarrow> byte list \<Rightarrow> byte list \<Rightarrow> level_world \<Rightarrow> 'it level_txn \<Rightarrow> 'it level_txn res" where
  "ldb_update iters db oid val oldVal w t =
     rbind (offsetQuota (lw_quotas w) (- word_of_nat (length oldVal)) t) (\<lambda>t. ldb_put iters db oid val False w t)"

definition ldb_del ::
  "'it engine_iters \<Rightarrow> string \<Rightarrow> obj \<Rightarrow> level_world \<Rightarrow> 'it level_txn \<Rightarrow> (bool \<times> 'it level_txn) res" where
  "ldb_del iters db oid w t = rbind (item_fromObject oid) (\<lambda>key. ldb_delItem iters db key w t)"

definition ldb_get :: "string \<Rightarrow> obj \<Rightarrow> level_world \<Rightarrow> 'it level_txn \<Rightarrow> byte list option res" where
  "ldb_get db oid w t = rbind (item_fromObject oid) (\<lambda>key. Inr (ldb_getItem db key w t))"

definition level_db :: "'it engine_iters \<Rightarrow> string \<Rightarrow> (level_world, 'it level_txn) storage_db" where
  "level_db iters db = \<lparr>sd_insert = ldb_insert iters db, sd_update = ldb_update iters db, sd_del = ldb_del iters db,
     sd_get = ldb_get db\<rparr>"

section \<open>The provider\<close>

definition level_view :: "string \<Rightarrow> level_world \<Rightarrow> 'it level_txn \<Rightarrow> byte list \<Rightarrow> byte list option" where
  "level_view db w t k = ldb_getItem db k w t"

definition level_ok :: "'it level_txn \<Rightarrow> bool" where
  "level_ok t \<longleftrightarrow> (\<forall>db. table_ok (tableTxn db t))"

lemma table_ok_new [simp]: "table_ok table_txn_new"
  by (simp add: table_ok_def table_txn_new_def pend_def)

lemma level_ok_new [simp]: "level_ok level_txn_new"
  by (simp add: level_ok_def tableTxn_def level_txn_new_def)

lemma tableTxn_set: "tableTxn db (set_tableTxn db' tt t) = (if db = db' then tt else tableTxn db t)"
  by (simp add: tableTxn_def set_tableTxn_def update_conv')

lemma tableTxn_offsetQuota: "offsetQuota quotas off t = Inr t' \<Longrightarrow> tableTxn db t' = tableTxn db t"
  by (auto simp: offsetQuota_def tableTxn_def rbind_Inr_iff split: option.splits bool.splits)

lemma level_set:
  assumes "level_ok t" "table_ok tt"
  shows "level_ok (set_tableTxn db tt t)"
  using assms by (simp add: level_ok_def tableTxn_set)

lemma tt_Put_values: "tt_Put ldb key val t = Inr t' \<Longrightarrow> \<exists>its. t' = with_value key val t\<lparr>tt_iters := its\<rparr>"
  by (cases t) (auto simp: tt_Put_def with_value_def rbind_Inr_iff Let_def)

lemma tt_Delete_values: "tt_Delete ldb key t = Inr t' \<Longrightarrow> \<exists>its. t' = without_key key t\<lparr>tt_iters := its\<rparr>"
  by (cases t) (auto simp: tt_Delete_def without_key_def rbind_Inr_iff Let_def)

lemma tt_iters_free [simp]: "table_ok (t\<lparr>tt_iters := its\<rparr>) = table_ok t" "tt_Get db k (t\<lparr>tt_iters := its\<rparr>) = tt_Get db k t"
  by (simp_all add: table_ok_def tt_Get_def isDeleted_def)

lemma ldb_putItem_view:
  assumes "level_ok t" "ldb_putItem iters db key val q w t = Inr t'"
  shows "level_ok t'" "level_view db w t' = (level_view db w t)(key \<mapsto> val)"
    "db' \<noteq> db \<Longrightarrow> level_view db' w t' = level_view db' w t"
proof -
  obtain t1 tt where t1: "tt_Put (iters (lw_dbs w db)) key val (tableTxn db t1) = Inr tt" "t' = set_tableTxn db tt t1"
    "\<And>db. tableTxn db t1 = tableTxn db t"
  proof -
    obtain t1 tt where "offsetQuota (lw_quotas w) (word_of_nat (length val) + (if q then word_of_nat (length key) else 0)) t = Inr t1"
      "tt_Put (iters (lw_dbs w db)) key val (tableTxn db t1) = Inr tt" "t' = set_tableTxn db tt t1"
      using assms(2) by (auto simp: ldb_putItem_def rbind_Inr_iff Let_def)
    then show ?thesis by (intro that [of t1 tt] tableTxn_offsetQuota) simp_all
  qed
  obtain its where tt: "tt = with_value key val (tableTxn db t)\<lparr>tt_iters := its\<rparr>"
    using tt_Put_values [OF t1(1)] t1(3) by metis
  have ok: "table_ok (tableTxn db t)" using assms(1) by (simp add: level_ok_def)
  show "level_ok t'"
    using assms(1) t1(2,3) tt with_value_simps(1) [OF ok] by (auto simp: level_ok_def tableTxn_set)
  show "level_view db w t' = (level_view db w t)(key \<mapsto> val)"
    by (auto simp: level_view_def ldb_getItem_def t1(2) tableTxn_set tt tt_Get_with_value [OF ok])
  show "level_view db' w t' = level_view db' w t" if "db' \<noteq> db"
    using that by (simp add: level_view_def ldb_getItem_def t1(2,3) tableTxn_set fun_eq_iff)
qed

lemma ldb_delItem_view:
  assumes "level_ok t" "ldb_delItem iters db key w t = Inr (found, t')"
  shows "level_ok t'" "level_view db w t' = (level_view db w t)(key := None)" "found"
    "db' \<noteq> db \<Longrightarrow> level_view db' w t' = level_view db' w t"
proof -
  obtain t1 tt where t1: "tt_Delete (iters (lw_dbs w db)) key (tableTxn db t1) = Inr tt" "t' = set_tableTxn db tt t1"
    "\<And>db. tableTxn db t1 = tableTxn db t" and found: "found"
  proof -
    obtain t1 tt where "offsetQuota (lw_quotas w) (- word_of_nat (length key)) t = Inr t1"
      "tt_Delete (iters (lw_dbs w db)) key (tableTxn db t1) = Inr tt" "t' = set_tableTxn db tt t1" "found"
      using assms(2) by (auto simp: ldb_delItem_def rbind_Inr_iff)
    then show ?thesis by (intro that [of t1 tt] tableTxn_offsetQuota) simp_all
  qed
  show "found" by (rule found)
  obtain its where tt: "tt = without_key key (tableTxn db t)\<lparr>tt_iters := its\<rparr>"
    using tt_Delete_values [OF t1(1)] t1(3) by metis
  have ok: "table_ok (tableTxn db t)" using assms(1) by (simp add: level_ok_def)
  show "level_ok t'"
    using assms(1) t1(2,3) tt without_key_simps(1) [OF ok] by (auto simp: level_ok_def tableTxn_set)
  show "level_view db w t' = (level_view db w t)(key := None)"
    by (auto simp: level_view_def ldb_getItem_def t1(2) tableTxn_set tt tt_Get_without_key [OF ok])
  show "level_view db' w t' = level_view db' w t" if "db' \<noteq> db"
    using that by (simp add: level_view_def ldb_getItem_def t1(2,3) tableTxn_set fun_eq_iff)
qed

lemmas ldb_defs = ldb_insert_def ldb_update_def ldb_put_def ldb_del_def ldb_get_def item_fromObject_def toBytes_enc

lemma offsetQuota_view:
  assumes "level_ok t" "offsetQuota quotas off t = Inr t'"
  shows "level_ok t'" "level_view db w t' = level_view db w t"
  using assms tableTxn_offsetQuota [OF assms(2)]
  by (simp_all add: level_ok_def level_view_def ldb_getItem_def fun_eq_iff)

lemma ldb_update_view:
  assumes "level_ok t" "ldb_update iters db oid val old w t = Inr t'"
  shows "level_ok t'" "level_view db w t' = (level_view db w t)(enc oid \<mapsto> val)"
    "db' \<noteq> db \<Longrightarrow> level_view db' w t' = level_view db' w t"
proof -
  obtain t1 where t1: "offsetQuota (lw_quotas w) (- word_of_nat (length old)) t = Inr t1"
    "ldb_putItem iters db (enc oid) val False w t1 = Inr t'"
    using assms(2) by (auto simp: ldb_defs rbind_Inr_iff)
  note q = offsetQuota_view [OF assms(1) t1(1)]
  note p = ldb_putItem_view [OF q(1) t1(2)]
  show "level_ok t'" by (rule p(1))
  show "level_view db w t' = (level_view db w t)(enc oid \<mapsto> val)" using p(2) q(2) by metis
  show "level_view db' w t' = level_view db' w t" if "db' \<noteq> db" using p(3) [OF that] q(2) by metis
qed

lemma level_storage: "storage (level_db iters db) (level_view db) level_ok"
proof
  fix t t' :: "'a level_txn" and oid val w old found
  assume t: "level_ok t"
  show "sd_insert (level_db iters db) oid val w t = Inr t' \<Longrightarrow>
      level_ok t' \<and> level_view db w t' = (level_view db w t)(enc oid \<mapsto> val)"
    using ldb_putItem_view [OF t] by (simp add: level_db_def ldb_defs)
  show "sd_update (level_db iters db) oid val old w t = Inr t' \<Longrightarrow>
      level_ok t' \<and> level_view db w t' = (level_view db w t)(enc oid \<mapsto> val)"
    using ldb_update_view [OF t] by (simp add: level_db_def)
  show "sd_del (level_db iters db) oid w t = Inr (found, t') \<Longrightarrow>
      level_ok t' \<and> level_view db w t' = (level_view db w t)(enc oid := None)"
    using ldb_delItem_view [OF t] by (simp add: level_db_def ldb_defs)
  show "sd_get (level_db iters db) oid w t = Inr (level_view db w t (enc oid))"
    by (simp add: level_db_def ldb_defs level_view_def)
qed

interpretation level: storage "level_db iters db" "level_view db" level_ok
  by (rule level_storage)

lemma level_storage_pair:
  assumes "db' \<noteq> db"
  shows "storage_pair (level_db iters db) (level_view db) level_ok (level_db iters db') (level_view db')"
proof (intro storage_pair.intro storage_pair_axioms.intro level_storage)
  fix t t' :: "'a level_txn" and oid val w old found
  assume t: "level_ok t"
  show "sd_insert (level_db iters db) oid val w t = Inr t' \<Longrightarrow> level_view db' w t' = level_view db' w t"
    using ldb_putItem_view(3) [OF t _ assms] by (simp add: level_db_def ldb_defs)
  show "sd_update (level_db iters db) oid val old w t = Inr t' \<Longrightarrow> level_view db' w t' = level_view db' w t"
    using ldb_update_view(3) [OF t _ assms] by (simp add: level_db_def)
  show "sd_del (level_db iters db) oid w t = Inr (found, t') \<Longrightarrow> level_view db' w t' = level_view db' w t"
    using ldb_delItem_view(4) [OF t _ assms] by (simp add: level_db_def ldb_defs)
qed

text \<open>The databases of the kind engine: \<^verbatim>\<open>m_kindDb\<close> and \<^verbatim>\<open>m_indexIdDb\<close>.\<close>

definition KindsDbName :: string where "KindsDbName = ''kinds.db''"
definition IndexIdsDbName :: string where "IndexIdsDbName = ''indexIds.db''"

interpretation kind_dbs: storage_pair "level_db iters KindsDbName" "level_view KindsDbName" level_ok
    "level_db iters IndexIdsDbName" "level_view IndexIdsDbName"
  by (rule level_storage_pair) (simp add: KindsDbName_def IndexIdsDbName_def)

end
