(* ===== verification/LevelCursor.thy ===== *)
theory LevelCursor
  imports LevelStore
begin

text \<open>
  The cursor of the LevelDB engine (\<^verbatim>\<open>src/db-engine/leveldb/MojDbLevelCursor.cpp\<close>): an iterator of a table
  transaction with the operations the queries, the indexes and the statistics use. The iterators of the other
  cursors are those of the table transaction, the cursor's own is held apart.
\<close>

section \<open>Reading\<close>

datatype seek_flag = e_First | e_Last | e_Next | e_Prev | e_Range | e_Set

definition cursor_open :: "'it ldb \<Rightarrow> 'it table_txn \<Rightarrow> 'it txn_iter res" where
  "cursor_open ldb t = ti_first ldb t"

definition cursor_seek :: "'it ldb \<Rightarrow> 'it table_txn \<Rightarrow> dbkey \<Rightarrow> seek_flag \<Rightarrow> 'it txn_iter \<Rightarrow> 'it txn_iter res" where
  "cursor_seek ldb t key flags it =
     (case flags of
        e_Set \<Rightarrow> ti_seek ldb t key
      | e_Next \<Rightarrow> ti_next ldb t it
      | e_Prev \<Rightarrow> ti_prev ldb t it
      | e_First \<Rightarrow> ti_first ldb t
      | e_Last \<Rightarrow> ti_last ldb t it
      | e_Range \<Rightarrow> Inr it)"

text \<open>The key and the value are only changed if something was found.\<close>

definition cursor_get ::
  "'it ldb \<Rightarrow> 'it table_txn \<Rightarrow> dbkey \<Rightarrow> byte list \<Rightarrow> seek_flag \<Rightarrow> 'it txn_iter \<Rightarrow>
     (bool \<times> dbkey \<times> byte list \<times> 'it txn_iter) res" where
  "cursor_get ldb t key val flags it =
     rbind (cursor_seek ldb t key flags it) (\<lambda>it'.
       if ti_isValid it' then Inr (True, getKey ldb it', getValue ldb t it', it')
       else Inr (False, key, val, it'))"

definition recSize :: "'it ldb \<Rightarrow> 'it table_txn \<Rightarrow> 'it txn_iter \<Rightarrow> nat" where
  "recSize ldb t it = (if \<not> ti_isValid it then 0 else length (getKey ldb it) + length (getValue ldb t it))"

text \<open>The loop runs as long as the iterator finds keys with the prefix; that it ends is proved below.\<close>

partial_function (option) stats_loop ::
  "'it ldb \<Rightarrow> 'it table_txn \<Rightarrow> dbkey \<Rightarrow> nat \<Rightarrow> nat \<Rightarrow> 'it txn_iter \<Rightarrow> (nat \<times> nat) res option" where
  "stats_loop ldb t prefix cnt sz it =
     (if ti_isValid it \<and> keyStartsWith ldb prefix it
      then (case ti_next ldb t it of
              Inl e \<Rightarrow> Some (Inl e)
            | Inr it' \<Rightarrow> stats_loop ldb t prefix (cnt + 1) (sz + recSize ldb t it) it')
      else Some (Inr (cnt, sz)))"

definition statsPrefix :: "'it ldb \<Rightarrow> 'it table_txn \<Rightarrow> dbkey \<Rightarrow> (nat \<times> nat) res option" where
  "statsPrefix ldb t prefix =
     (case ti_seek ldb t prefix of Inl e \<Rightarrow> Some (Inl e) | Inr it \<Rightarrow> stats_loop ldb t prefix 0 0 it)"

definition cursor_stats :: "'it ldb \<Rightarrow> 'it table_txn \<Rightarrow> (nat \<times> nat) res option" where
  "cursor_stats ldb t = statsPrefix ldb t []"

section \<open>Deleting\<close>

text \<open>\<open>cursor_del\<close> tells the other iterators and the cursor's own, and charges the quota afterwards.\<close>

definition cursor_del ::
  "'it ldb \<Rightarrow> quotas \<Rightarrow> string \<Rightarrow> 'it txn_iter \<Rightarrow> 'it level_txn \<Rightarrow> ('it txn_iter \<times> 'it level_txn) res" where
  "cursor_del ldb quotas db it t =
     (let tt = tableTxn db t; key = getKey ldb it; delSize = recSize ldb tt it in
      rbind (notifyDelete ldb tt key it) (\<lambda>it'.
      rbind (tt_Delete ldb key tt) (\<lambda>tt'.
      rbind (offsetQuota quotas (- word_of_nat delSize) (set_tableTxn db tt' t)) (\<lambda>t'.
        Inr (it', t')))))"

partial_function (option) delPrefix_loop ::
  "'it ldb \<Rightarrow> quotas \<Rightarrow> string \<Rightarrow> dbkey \<Rightarrow> 'it txn_iter \<Rightarrow> 'it level_txn \<Rightarrow> ('it txn_iter \<times> 'it level_txn) res option" where
  "delPrefix_loop ldb quotas db prefix it t =
     (if ti_isValid it \<and> keyStartsWith ldb prefix it
      then (case rbind (cursor_del ldb quotas db it t) (\<lambda>(it', t').
                   rbind (ti_next ldb (tableTxn db t') it') (\<lambda>it''. Inr (it'', t'))) of
              Inl e \<Rightarrow> Some (Inl e)
            | Inr (it'', t') \<Rightarrow> delPrefix_loop ldb quotas db prefix it'' t')
      else Some (Inr (it, t)))"

definition delPrefix ::
  "'it ldb \<Rightarrow> quotas \<Rightarrow> string \<Rightarrow> dbkey \<Rightarrow> 'it level_txn \<Rightarrow> ('it txn_iter \<times> 'it level_txn) res option" where
  "delPrefix ldb quotas db prefix t =
     (case ti_seek ldb (tableTxn db t) prefix of
        Inl e \<Rightarrow> Some (Inl e)
      | Inr it \<Rightarrow> if \<not> ti_isValid it then Some (Inr (it, t)) else delPrefix_loop ldb quotas db prefix it t)"

section \<open>The keys with a prefix\<close>

definition prefixed :: "dbkey \<Rightarrow> dbkey set \<Rightarrow> dbkey set" where
  "prefixed p V = {x \<in> V. prefixOf p x}"

lemma kle_Cons: "kle (a # p) (b # x) \<longleftrightarrow> a < b \<or> a = b \<and> kle p x"
  by (auto simp: kle_def bcmp_Cons simp del: vec_compare.simps)

lemma prefixOf_simps [simp]: "prefixOf [] x" "\<not> prefixOf (a # p) []" "prefixOf (a # p) (b # x) \<longleftrightarrow> a = b \<and> prefixOf p x"
  by (auto simp: prefixOf_def)

lemma prefixOf_kle: "prefixOf p x \<Longrightarrow> kle p x"
proof (induction p arbitrary: x)
  case (Cons a p)
  then show ?case by (cases x) (simp_all add: kle_Cons)
qed simp

text \<open>Between the prefix and a key that has it, there are only keys that have it.\<close>

lemma prefixOf_between: "kle p x \<Longrightarrow> kle x y \<Longrightarrow> prefixOf p y \<Longrightarrow> prefixOf p x"
proof (induction p arbitrary: x y)
  case (Cons a p)
  then show ?case by (cases x; cases y) (auto simp: kle_Cons)
qed simp

lemma notifyDelete_live:
  assumes "on_key ldb db fwd t k it" "k \<notin> pend (tt_values t)"
  shows "notifyDelete ldb t k it = Inr it" "\<not> ti_invalid it"
proof -
  obtain q where "ci_at (ti_ins it) q" "nearest fwd {x \<in> pend (tt_values t). dle fwd k x} q"
    using assms(1) by (auto simp: on_key_def)
  then show "notifyDelete ldb t k it = Inr it"
    using assms(2) by (cases q) (auto simp: notifyDelete_def ci_isValid_def ci_isEnd_def nearest_def)
  show "\<not> ti_invalid it" using assms(1) by (simp add: on_key_def)
qed


lemma stats_loop_ok:
  assumes "ldb_ok ldb db" "table_ok t" "finite (visible db t)"
    and "stands ldb db True t r it" "nearest True {x \<in> visible db t. kle prefix x \<and> P x} r"
    and "\<And>x y. P x \<Longrightarrow> kle x y \<Longrightarrow> P y"
  shows "stats_loop ldb t prefix cnt sz it =
    Some (Inr (cnt + card {x \<in> prefixed prefix (visible db t). P x},
      sz + (\<Sum>x \<in> {x \<in> prefixed prefix (visible db t). P x}. length x + length (the (tt_Get db x t)))))"
  using assms(4-6)
proof (induction "card {x \<in> prefixed prefix (visible db t). P x}" arbitrary: P r it cnt sz)
  case 0
  then have none: "{x \<in> prefixed prefix (visible db t). P x} = {}"
    using assms(3) by (simp add: prefixed_def)
  have "\<not> (ti_isValid it \<and> keyStartsWith ldb prefix it)"
  proof (cases r)
    case (PKey k)
    then have "getKey ldb it = k" "k \<in> visible db t" "P k"
      using 0 on_key_shows(1) [of ldb db True t k it] by (auto simp: nearest_def)
    then show ?thesis using none by (auto simp: keyStartsWith_def prefixed_def)
  qed (use 0(2) in \<open>auto simp: ti_isValid_def li_isValid_def ci_isValid_def ci_isEnd_def\<close>)
  then show ?case by (subst stats_loop.simps) (simp only: none if_False card.empty sum.empty add_0_right)
next
  case (Suc n)
  let ?S = "\<lambda>P. {x \<in> prefixed prefix (visible db t). P x}"
  have "?S P \<noteq> {}" using Suc.hyps(2) by (metis card.empty nat.distinct(1))
  then obtain y where y: "y \<in> ?S P" by blast
  then have "kle prefix y" by (auto simp: prefixed_def intro: prefixOf_kle)
  then obtain k where k: "r = PKey k" "k \<in> visible db t" "P k" "kle prefix k"
    "\<And>x. x \<in> visible db t \<Longrightarrow> kle prefix x \<Longrightarrow> P x \<Longrightarrow> kle k x"
    using Suc.prems(2) y by (auto simp: nearest_def dle_def prefixed_def)
  then have pk: "prefixOf prefix k"
    using y \<open>kle prefix y\<close> prefixOf_between [of prefix k y] by (auto simp: prefixed_def)
  have "cursor_at ldb db t r it" using Suc.prems(1) by (auto simp: cursor_at_def)
  then have shows_: "ti_isValid it" "getKey ldb it = k" "tt_Get db k t = Some (getValue ldb t it)"
    using cursor_shows [OF assms(1,2)] k(1) by fastforce+
  obtain it' r' where it': "ti_move True ldb t it = Inr it'" "stands ldb db True t r' it'"
    "nearest True {x \<in> visible db t. behind True r x} r'"
    using ti_move_ok [OF assms(1,2) \<open>cursor_at ldb db t r it\<close>, of True] k(1) by auto
  define P' where "P' x \<longleftrightarrow> P x \<and> \<not> kle x k" for x
  have "{x \<in> visible db t. behind True r x} = {x \<in> visible db t. kle prefix x \<and> P' x}"
    using k(1,4) kle_trans [of prefix k] kle_total Suc.prems(3) [OF k(3)] by (auto simp: P'_def dle_def)
  then have near: "nearest True {x \<in> visible db t. kle prefix x \<and> P' x} r'" using it'(3) by simp
  have up: "P' y" if "P' x" "kle x y" for x y
    using that Suc.prems(3) kle_trans by (auto simp: P'_def)
  have S: "?S P = insert k (?S P')" "k \<notin> ?S P'"
    using k pk prefixOf_kle kle_antisym by (auto simp: P'_def prefixed_def)
  have fin: "finite (?S P')" using assms(3) by (simp add: prefixed_def)
  then have "n = card (?S P')" using Suc.hyps(2) S by simp
  note IH = Suc.hyps(1) [OF this it'(2) near up]
  have "stats_loop ldb t prefix cnt sz it = stats_loop ldb t prefix (cnt + 1) (sz + recSize ldb t it) it'"
    using shows_ pk it'(1) by (subst stats_loop.simps) (simp add: keyStartsWith_def ti_move_def)
  also have "recSize ldb t it = length k + length (the (tt_Get db k t))"
    using shows_ by (simp add: recSize_def)
  finally show ?case
    using S fin by (simp add: IH)
qed

text \<open>One turn of \<open>delPrefix\<close>: the key is deleted and the iterator stands on the next one.\<close>

lemma offsetQuota_Inl: "offsetQuota quotas off t = Inl e \<Longrightarrow> e = MojErrDbQuotaExceeded \<and> t_curQuotaOffset t \<noteq> None"
  by (auto simp: offsetQuota_def offset_apply_def Let_def rbind_def split: option.splits bool.splits if_splits sum.splits)

lemma offsetQuota_cur: "offsetQuota quotas off t = Inr t' \<Longrightarrow> t_curQuotaOffset t' = t_curQuotaOffset t"
  by (auto simp: offsetQuota_def rbind_Inr_iff split: option.splits bool.splits)

lemma visible_without_key:
  assumes "table_ok t"
  shows "visible db (without_key k t) = visible db t - {k}"
  using tt_Get_without_key [OF assms, of db _ k] visible_iff [OF without_key_simps(1) [OF assms], of _ db k]
    visible_iff [OF assms, of _ db] by (auto split: if_splits)

lemma notifyDelete_pending:
  "on_key ldb db fwd t k it \<Longrightarrow> k \<in> pend (tt_values t) \<Longrightarrow> notifyDelete ldb t k it = Inr it' \<Longrightarrow> ti_invalid it'"
proof -
  assume on: "on_key ldb db fwd t k it" and k: "k \<in> pend (tt_values t)" and n: "notifyDelete ldb t k it = Inr it'"
  obtain q where q: "ci_at (ti_ins it) q" "nearest fwd {x \<in> pend (tt_values t). dle fwd k x} q"
    using on by (auto simp: on_key_def)
  have "q = PKey k" using q(2) k nearest_from(1) by blast
  then have "ci_at (ti_ins it) (PKey k)" using q(1) by simp
  then have "ci_isValid (ti_ins it)" "the (ci_it (ti_ins it)) = k" by (auto simp: ci_isValid_def ci_isEnd_def)
  then show "ti_invalid it'" using n by (auto simp: notifyDelete_def rbind_Inr_iff)
qed

lemma after_del_end:
  assumes "after_del ldb db True t k it" "ti_invalid it" "{x \<in> visible db t. dlt True k x} = {}"
  shows "ti_next ldb t it = Inl MojAssertFailed"
proof -
  have "{x \<in> live_keys db t. dlt True k x} = {}" "{x \<in> pend (tt_values t). dlt True k x} = {}"
    using assms(3) by (auto simp: visible_def)
  then have "li_at ldb (ti_it it) PEnd" "ci_at (ti_ins it) PEnd"
    using assms(1,2) by (auto simp: after_del_def nearest_def tail_def)
  then show ?thesis by (simp add: ti_next_def ti_isEnd_def ci_isEnd_def)
qed

lemma del_turn:
  assumes ldb: "ldb_ok ldb db" and t: "level_ok t" "tt_iters (tableTxn name t) = []"
    and it: "on_key ldb db True (tableTxn name t) k it"
  shows "case rbind (cursor_del ldb quotas name it t) (\<lambda>(it', t').
           rbind (ti_next ldb (tableTxn name t') it') (\<lambda>it''. Inr (it'', t'))) of
      Inl e \<Rightarrow> e = MojErrDbQuotaExceeded \<and> t_curQuotaOffset t \<noteq> None \<or>
        e = MojAssertFailed \<and> k \<in> pend (tt_values (tableTxn name t)) \<and>
          {x \<in> visible db (tableTxn name t). dlt True k x} = {}
    | Inr (it'', t') \<Rightarrow> level_ok t' \<and> tableTxn name t' = without_key k (tableTxn name t) \<and>
        t_curQuotaOffset t' = t_curQuotaOffset t \<and> (\<forall>other. other \<noteq> name \<longrightarrow> tableTxn other t' = tableTxn other t) \<and>
        (k \<in> pend (tt_values (tableTxn name t)) \<longrightarrow> {x \<in> visible db (tableTxn name t). dlt True k x} \<noteq> {}) \<and>
        (\<exists>r. stands ldb db True (tableTxn name t') r it'' \<and>
          nearest True {x \<in> visible db (tableTxn name t'). dlt True k x} r)"
proof -
  let ?tt = "tableTxn name t" and ?off = "- word_of_nat (recSize ldb (tableTxn name t) it) :: i64"
  have tt: "table_ok ?tt" using t(1) by (simp add: level_ok_def)
  have key: "getKey ldb it = k" by (rule on_key_shows(1) [OF it])
  obtain it' where it': "notifyDelete ldb ?tt k it = Inr it'" "after_del ldb db True (without_key k ?tt) k it'"
    using notifyDelete_ok [OF ldb tt it] by blast
  have del: "tt_Delete ldb k ?tt = Inr (without_key k ?tt)"
    using t(2) by (simp add: tt_Delete_def without_key_def)
  have cd: "cursor_del ldb quotas name it t =
      rbind (offsetQuota quotas ?off (set_tableTxn name (without_key k ?tt) t)) (\<lambda>t'. Inr (it', t'))"
    by (simp add: cursor_del_def key it'(1) del Let_def)
  have v: "visible db (without_key k ?tt) = visible db ?tt - {k}" by (rule visible_without_key [OF tt])
  have beyond: "{x \<in> visible db (without_key k ?tt). dlt True k x} = {x \<in> visible db ?tt. dlt True k x}"
    unfolding v by auto
  show ?thesis
  proof (cases "offsetQuota quotas ?off (set_tableTxn name (without_key k ?tt) t)")
    case (Inl e)
    then show ?thesis using offsetQuota_Inl [OF Inl] cd by (simp add: set_tableTxn_def)
  next
    case (Inr t')
    have tt': "tableTxn name t' = without_key k ?tt" "tableTxn other t' = (if other = name then without_key k ?tt else tableTxn other t)" for other
      using tableTxn_offsetQuota [OF Inr] by (simp_all add: tableTxn_set)
    show ?thesis
    proof (cases "k \<in> pend (tt_values ?tt) \<and> {x \<in> visible db ?tt. dlt True k x} = {}")
      case True
      then have "ti_next ldb (without_key k ?tt) it' = Inl MojAssertFailed"
        using after_del_end [OF it'(2)] notifyDelete_pending [OF it _ it'(1)] beyond by simp
      then show ?thesis using True cd Inr tt'(1) by simp
    next
      case False
      then have "{x \<in> visible db (without_key k ?tt). dlt True k x} \<noteq> {} \<or> \<not> ti_invalid it'"
        using notifyDelete_live [OF it] it'(1) beyond by auto
      then obtain it'' r where next_: "ti_move True ldb (without_key k ?tt) it' = Inr it''"
        "stands ldb db True (without_key k ?tt) r it''" "nearest True {x \<in> visible db (without_key k ?tt). dlt True k x} r"
        using after_del_move [OF ldb without_key_simps(1) [OF tt] it'(2)] v by auto
      have "level_ok t'"
        using t(1) tt' without_key_simps(1) [OF tt] by (auto simp: level_ok_def)
      then show ?thesis
        using cd Inr tt' next_ offsetQuota_cur [OF Inr] False by (auto simp: ti_move_def set_tableTxn_def)
    qed
  qed
qed

text \<open>The last key that the transaction shows has the prefix and was put in the transaction.\<close>

definition last_pending :: "dbkey \<Rightarrow> (dbkey \<Rightarrow> byte list option) \<Rightarrow> 'it table_txn \<Rightarrow> bool" where
  "last_pending prefix db tt \<longleftrightarrow> (\<exists>k \<in> pend (tt_values tt). prefixOf prefix k \<and> (\<forall>x \<in> visible db tt. kle x k))"

lemma last_pending_without:
  assumes "table_ok tt" "k \<in> visible db tt" "prefixOf prefix k"
    and "\<And>x. x \<in> visible db tt \<Longrightarrow> kle prefix x \<Longrightarrow> kle k x"
    and "k \<in> pend (tt_values tt) \<longrightarrow> {x \<in> visible db tt. dlt True k x} \<noteq> {}"
  shows "last_pending prefix db (without_key k tt) = last_pending prefix db tt"
proof
  have sets: "visible db (without_key k tt) = visible db tt - {k}"
    "pend (tt_values (without_key k tt)) = pend (tt_values tt) - {k}"
    using visible_without_key [OF assms(1)] without_key_simps(2) [OF assms(1)] by simp_all
  {
    assume "last_pending prefix db (without_key k tt)"
    then obtain l where l: "l \<in> pend (tt_values tt)" "prefixOf prefix l" "\<forall>x \<in> visible db tt - {k}. kle x l"
      unfolding last_pending_def sets by blast
    then have "kle k l" using assms(4) [of l] prefixOf_kle by (auto simp: visible_def)
    then show "last_pending prefix db tt" using l unfolding last_pending_def by blast
  next
    assume "last_pending prefix db tt"
    then obtain l where l: "l \<in> pend (tt_values tt)" "prefixOf prefix l" "\<forall>x \<in> visible db tt. kle x l"
      unfolding last_pending_def by blast
    then have "l \<noteq> k" using assms(5) by (auto simp: dle_def)
    then show "last_pending prefix db (without_key k tt)" using l unfolding last_pending_def sets by blast
  }
qed

definition prefix_gone ::
  "string \<Rightarrow> dbkey \<Rightarrow> (dbkey \<Rightarrow> byte list option) \<Rightarrow> 'it level_txn \<Rightarrow> 'it level_txn \<Rightarrow> bool" where
  "prefix_gone name prefix db t t' \<longleftrightarrow> level_ok t' \<and>
     (\<forall>k. tt_Get db k (tableTxn name t') = (if prefixOf prefix k then None else tt_Get db k (tableTxn name t))) \<and>
     (\<forall>other. other \<noteq> name \<longrightarrow> tableTxn other t' = tableTxn other t)"

definition drop_result ::
  "string \<Rightarrow> dbkey \<Rightarrow> (dbkey \<Rightarrow> byte list option) \<Rightarrow> 'it level_txn \<Rightarrow> ('it txn_iter \<times> 'it level_txn) res \<Rightarrow> bool" where
  "drop_result name prefix db t res \<longleftrightarrow>
     (case res of
        Inl e \<Rightarrow> e = MojErrDbQuotaExceeded \<and> t_curQuotaOffset t \<noteq> None \<or>
          e = MojAssertFailed \<and> last_pending prefix db (tableTxn name t)
      | Inr (it', t') \<Rightarrow> prefix_gone name prefix db t t' \<and> \<not> last_pending prefix db (tableTxn name t))"

lemma delPrefix_loop_ok:
  assumes ldb: "ldb_ok ldb db"
    and "level_ok t" "tt_iters (tableTxn name t) = []" "finite (visible db (tableTxn name t))"
    and "stands ldb db True (tableTxn name t) r it" "nearest True {x \<in> visible db (tableTxn name t). kle prefix x} r"
  shows "\<exists>res. delPrefix_loop ldb quotas name prefix it t = Some res \<and> drop_result name prefix db t res"
  using assms(2-)
proof (induction "card (prefixed prefix (visible db (tableTxn name t)))" arbitrary: t r it rule: less_induct)
  case less
  let ?tt = "tableTxn name t"
  let ?V = "visible db ?tt"
  have tt: "table_ok ?tt" using less.prems(1) by (simp add: level_ok_def)
  have cur: "cursor_at ldb db ?tt r it" using less.prems(4) by (auto simp: cursor_at_def)
  show ?case
  proof (cases "\<exists>k. r = PKey k \<and> prefixOf prefix k")
    case False
    have "(ti_isValid it \<and> keyStartsWith ldb prefix it) = False"
      using cursor_shows [OF ldb tt cur] False by (cases r) (auto simp: keyStartsWith_def)
    then have stop: "delPrefix_loop ldb quotas name prefix it t = Some (Inr (it, t))"
      by (subst delPrefix_loop.simps) (simp only: if_False)
    have "prefixed prefix ?V = {}"
    proof (rule ccontr)
      assume "prefixed prefix ?V \<noteq> {}"
      then obtain y where y: "y \<in> ?V" "prefixOf prefix y" by (auto simp: prefixed_def)
      then obtain k where "r = PKey k" "kle prefix k" "kle k y"
        using less.prems(5) prefixOf_kle [OF y(2)] by (auto simp: nearest_def dle_def)
      then show False using False y(2) prefixOf_between by blast
    qed
    then have none: "\<not> prefixOf prefix x" if "x \<in> ?V" for x using that by (auto simp: prefixed_def)
    then have "tt_Get db x ?tt = None" if "prefixOf prefix x" for x using visible_iff [OF tt, of x db] that by blast
    then have "prefix_gone name prefix db t t" using less.prems(1) by (auto simp: prefix_gone_def)
    moreover have "\<not> last_pending prefix db ?tt" using none by (auto simp: last_pending_def visible_def)
    ultimately show ?thesis using stop by (simp add: drop_result_def)
  next
    case True
    then obtain k where k: "r = PKey k" "prefixOf prefix k" by blast
    have on: "on_key ldb db True ?tt k it" using less.prems(4) k(1) by simp
    have kV: "k \<in> ?V" "\<And>x. x \<in> ?V \<Longrightarrow> kle prefix x \<Longrightarrow> kle k x"
      using less.prems(5) k(1) by (auto simp: nearest_def dle_def)
    have valid: "ti_isValid it" "keyStartsWith ldb prefix it"
      using cursor_shows [OF ldb tt cur] k by (auto simp: keyStartsWith_def)
    note turn = del_turn [OF ldb less.prems(1,2) on, of quotas]
    let ?step = "rbind (cursor_del ldb quotas name it t) (\<lambda>(it', t').
        rbind (ti_next ldb (tableTxn name t') it') (\<lambda>it''. Inr (it'', t')))"
    show ?thesis
    proof (cases ?step)
      case (Inl e)
      have stop: "delPrefix_loop ldb quotas name prefix it t = Some (Inl e)"
        using valid Inl by (subst delPrefix_loop.simps) simp
      have "last_pending prefix db ?tt" if "k \<in> pend (tt_values ?tt)" "{x \<in> ?V. dlt True k x} = {}"
        using that k(2) kle_total by (auto simp: last_pending_def dle_def)
      then show ?thesis using stop turn Inl by (auto simp: drop_result_def)
    next
      case (Inr p)
      obtain it'' t' where p: "p = (it'', t')" by (cases p)
      have loop: "delPrefix_loop ldb quotas name prefix it t = delPrefix_loop ldb quotas name prefix it'' t'"
        using valid Inr p by (subst delPrefix_loop.simps) simp
      obtain r' where t': "level_ok t'" "tableTxn name t' = without_key k ?tt"
        "t_curQuotaOffset t' = t_curQuotaOffset t" "\<And>other. other \<noteq> name \<Longrightarrow> tableTxn other t' = tableTxn other t"
        "stands ldb db True (tableTxn name t') r' it''" "nearest True {x \<in> visible db (tableTxn name t'). dlt True k x} r'"
        "k \<in> pend (tt_values ?tt) \<longrightarrow> {x \<in> ?V. dlt True k x} \<noteq> {}"
        using turn Inr p by auto
      have v: "visible db (tableTxn name t') = ?V - {k}" using visible_without_key [OF tt] t'(2) by simp
      have "{x \<in> ?V - {k}. dlt True k x} = {x \<in> ?V - {k}. kle prefix x}"
      proof (rule Collect_cong, rule conj_cong [OF refl])
        fix x assume x: "x \<in> ?V - {k}"
        show "dlt True k x \<longleftrightarrow> kle prefix x"
        proof
          assume "dlt True k x"
          then have "kle k x" using kle_total by (auto simp: dle_def)
          then show "kle prefix x" using kle_trans prefixOf_kle [OF k(2)] by blast
        next
          assume "kle prefix x"
          then have "kle k x" using kV(2) x by blast
          then show "dlt True k x" using x kle_antisym by (auto simp: dle_def)
        qed
      qed
      then have near: "nearest True {x \<in> visible db (tableTxn name t'). kle prefix x} r'" using t'(6) v by simp
      have "prefixed prefix (?V - {k}) = prefixed prefix ?V - {k}" "k \<in> prefixed prefix ?V" "finite (prefixed prefix ?V)"
        using kV(1) k(2) less.prems(3) by (auto simp: prefixed_def)
      then have "card (prefixed prefix (visible db (tableTxn name t'))) < card (prefixed prefix ?V)"
        using v psubset_card_mono [of "prefixed prefix ?V" "prefixed prefix ?V - {k}"] by auto
      moreover have "tt_iters (tableTxn name t') = []" using t'(2) less.prems(2) by (simp add: without_key_def)
      ultimately obtain res where res: "delPrefix_loop ldb quotas name prefix it'' t' = Some res"
        "drop_result name prefix db t' res"
        using less.hyps [OF _ t'(1) _ _ t'(5) near] less.prems(3) v by auto
      have "last_pending prefix db (tableTxn name t') = last_pending prefix db ?tt"
        unfolding t'(2) by (rule last_pending_without [OF tt kV(1) k(2) kV(2) t'(7)])
      moreover have "prefix_gone name prefix db t t''" if "prefix_gone name prefix db t' t''" for t''
        using that t'(2,4) k(2) tt_Get_without_key [OF tt, of db _ k] by (auto simp: prefix_gone_def)
      ultimately have "drop_result name prefix db t res"
        using res(2) t'(3) by (auto simp: drop_result_def split: sum.splits)
      then show ?thesis using res(1) loop by simp
    qed
  qed
qed

text \<open>
  C21. Dropping an index deletes exactly its keys, or says why not: with no other iterator open on the table,
  \<^verbatim>\<open>delPrefix\<close> comes to an end. If it succeeds, the transaction shows the table without the keys that have the prefix,
  and in the other tables nothing has changed. It fails only if the quota refuses, or with a failed assertion if the
  last key the table shows has the prefix and was put in this transaction; and then it never succeeds.
\<close>

theorem delPrefix_deletes:
  assumes "ldb_ok ldb db" "level_ok t" "tt_iters (tableTxn name t) = []" "finite {k. tt_Get db k (tableTxn name t) \<noteq> None}"
  shows "\<exists>res. delPrefix ldb quotas name prefix t = Some res \<and>
    (let stranded = (\<exists>k \<in> set (map fst (tt_values (tableTxn name t))).
        prefixOf prefix k \<and> (\<forall>x. tt_Get db x (tableTxn name t) \<noteq> None \<longrightarrow> kle x k))
     in case res of
       Inl e \<Rightarrow> e = MojErrDbQuotaExceeded \<and> t_curQuotaOffset t \<noteq> None \<or> e = MojAssertFailed \<and> stranded
     | Inr (it, t') \<Rightarrow> \<not> stranded \<and>
         (\<forall>k. tt_Get db k (tableTxn name t') = (if prefixOf prefix k then None else tt_Get db k (tableTxn name t))) \<and>
         (\<forall>other. other \<noteq> name \<longrightarrow> tableTxn other t' = tableTxn other t))"
proof -
  let ?tt = "tableTxn name t"
  have tt: "table_ok ?tt" using assms(2) by (simp add: level_ok_def)
  have V: "{k. tt_Get db k ?tt \<noteq> None} = visible db ?tt" using visible_iff [OF tt] by blast
  obtain it r where it: "ti_seek ldb ?tt prefix = Inr it" "stands ldb db True ?tt r it"
    "nearest True {x \<in> visible db ?tt. kle prefix x} r"
    using ti_seek_ok [OF assms(1) tt] by blast
  have "\<exists>res. delPrefix ldb quotas name prefix t = Some res \<and> drop_result name prefix db t res"
  proof (cases "ti_isValid it")
    case True
    then have "delPrefix ldb quotas name prefix t = delPrefix_loop ldb quotas name prefix it t"
      by (simp add: delPrefix_def it(1))
    then show ?thesis using delPrefix_loop_ok [OF assms(1-3) _ it(2,3), of quotas] assms(4) V by auto
  next
    case False
    have "cursor_at ldb db ?tt r it" using it(2) by (auto simp: cursor_at_def)
    then have none: "\<not> prefixOf prefix k" if "k \<in> visible db ?tt" for k
      using False cursor_shows [OF assms(1) tt] it(3) that prefixOf_kle [of prefix k] by (fastforce simp: nearest_def)
    then have "prefixOf prefix k \<Longrightarrow> tt_Get db k ?tt = None" for k using visible_iff [OF tt] by blast
    then have "prefix_gone name prefix db t t" using assms(2) by (auto simp: prefix_gone_def)
    moreover have "\<not> last_pending prefix db ?tt" using none by (auto simp: last_pending_def visible_def)
    ultimately show ?thesis using False it(1) by (simp add: delPrefix_def drop_result_def)
  qed
  moreover have "last_pending prefix db ?tt \<longleftrightarrow> (\<exists>k \<in> set (map fst (tt_values ?tt)).
      prefixOf prefix k \<and> (\<forall>x. tt_Get db x ?tt \<noteq> None \<longrightarrow> kle x k))"
    using V by (auto simp: last_pending_def pend_def)
  ultimately obtain res where "delPrefix ldb quotas name prefix t = Some res" "drop_result name prefix db t res"
    and stranded: "(\<exists>k \<in> set (map fst (tt_values ?tt)). prefixOf prefix k \<and> (\<forall>x. tt_Get db x ?tt \<noteq> None \<longrightarrow> kle x k)) =
      last_pending prefix db ?tt" by blast
  then show ?thesis
    unfolding Let_def stranded
    by (intro exI [of _ res]) (auto simp: drop_result_def prefix_gone_def split: sum.splits)
qed

definition drop_ex :: "dbkey option level_txn" where
  "drop_ex = set_tableTxn ''index'' \<lparr>tt_values = [([2], [20])], tt_deletes = [[3]], tt_iters = []\<rparr> level_txn_new"

theorem delPrefix_deletes_witness:
  "\<exists>res. delPrefix (list_ldb db_ex) [] ''index'' [2] drop_ex = Some res \<and>
    (let stranded = (\<exists>k \<in> set (map fst (tt_values (tableTxn ''index'' drop_ex))).
        prefixOf [2] k \<and> (\<forall>x. tt_Get (\<lambda>k. map_get bcmp k db_ex) x (tableTxn ''index'' drop_ex) \<noteq> None \<longrightarrow> kle x k))
     in case res of
       Inl e \<Rightarrow> e = MojErrDbQuotaExceeded \<and> t_curQuotaOffset drop_ex \<noteq> None \<or> e = MojAssertFailed \<and> stranded
     | Inr (it, t') \<Rightarrow> \<not> stranded \<and>
         (\<forall>k. tt_Get (\<lambda>k. map_get bcmp k db_ex) k (tableTxn ''index'' t') =
           (if prefixOf [2] k then None else tt_Get (\<lambda>k. map_get bcmp k db_ex) k (tableTxn ''index'' drop_ex))) \<and>
         (\<forall>other. other \<noteq> ''index'' \<longrightarrow> tableTxn other t' = tableTxn other drop_ex))"
proof (rule delPrefix_deletes [OF iter_ex_stands(1)])
  let ?t = "tableTxn ''index'' drop_ex"
  have t: "?t = table_ex" by (simp add: drop_ex_def tableTxn_set table_ex_def)
  show "level_ok drop_ex"
    unfolding drop_ex_def by (rule level_set) (use iter_ex_stands(2) in \<open>simp_all add: table_ex_def\<close>)
  show "tt_iters ?t = []" by (simp add: t table_ex_def)
  have "{k. tt_Get (\<lambda>k. map_get bcmp k db_ex) k ?t \<noteq> None} \<subseteq> {[1], [2], [3], [4]}"
    by (auto simp: t tt_Get_def table_ex_def db_ex_def isDeleted_iff split: if_splits)
  then show "finite {k. tt_Get (\<lambda>k. map_get bcmp k db_ex) k ?t \<noteq> None}" by (rule finite_subset) simp
qed

section \<open>What goes wrong\<close>

text \<open>
  If the last key of the table has the prefix and is pending, the deletion moves the iterator past the end and
  the assertion of the move that follows fails.
\<close>

definition last_ex :: "dbkey option level_txn" where
  "last_ex = set_tableTxn ''index'' \<lparr>tt_values = [([2], [20])], tt_deletes = [], tt_iters = []\<rparr> level_txn_new"

lemma delPrefix_asserts_at_end: "delPrefix (list_ldb []) [] ''index'' [2] last_ex = Some (Inl MojAssertFailed)"
proof -
  let ?it = "\<lparr>ti_fwd = True, ti_invalid = False, ti_it = \<lparr>li_it = None, li_start = False, li_end = True\<rparr>,
      ti_ins = \<lparr>ci_it = Some [2], ci_start = False\<rparr>\<rparr>"
  let ?stop = "?it\<lparr>ti_invalid := True, ti_ins := \<lparr>ci_it = None, ci_start = False\<rparr>\<rparr>"
  let ?t = "set_tableTxn ''index'' \<lparr>tt_values = [], tt_deletes = [[2]], tt_iters = []\<rparr> last_ex"
  have tt: "tableTxn ''index'' last_ex = \<lparr>tt_values = [([2], [20])], tt_deletes = [], tt_iters = []\<rparr>"
    by (simp add: last_ex_def tableTxn_set)
  have cur: "t_curQuotaOffset (set_tableTxn ''index'' x last_ex) = None" for x
    by (simp add: last_ex_def set_tableTxn_def level_txn_new_def)
  note ends = ti_isBegin_def ti_isEnd_def ti_isValid_def li_isValid_def ci_isValid_def ci_isEnd_def
  have "ti_seek (list_ldb []) (tableTxn ''index'' last_ex) [2] = Inr ?it"
    by (simp add: last_ex_def tableTxn_set ti_seek_def skipDeleted_def li_seek_def list_ldb_def map_lower_bound_def
        map_begin_def)
  moreover have key: "getKey (list_ldb []) ?it = [2]"
    by (simp add: getKey_def inTransaction_def it_compare_def ends)
  moreover have "notifyDelete (list_ldb []) (tableTxn ''index'' last_ex) [2] ?it = Inr ?stop"
    by (simp add: notifyDelete_def ends it_compare_def ins_step_def step_folds ci_step_def ci_next_def map_after_def
        map_begin_def last_ex_def tableTxn_set bcmp_Cons)
  then have "cursor_del (list_ldb []) [] ''index'' ?it last_ex = Inr (?stop, ?t)"
    by (simp add: cursor_del_def key tt_Delete_def tt offsetQuota_def cur Let_def)
  moreover have "ti_next (list_ldb []) tt ?stop = Inl MojAssertFailed" for tt
    by (simp add: ti_next_def ends)
  moreover have "ti_isValid ?it" by (simp add: ends)
  ultimately show ?thesis
    by (simp add: delPrefix_def) (subst delPrefix_loop.simps, simp add: keyStartsWith_def)
qed

end
