(* ===== verification/LevelSeq.thy ===== *)
theory LevelSeq
  imports LevelStore
begin

text \<open>
  The sequence that numbers kinds and indexes (\<^verbatim>\<open>src/db-engine/leveldb/MojDbLevelSeq.cpp\<close>). It writes ahead: the
  database holds a number up to which values may be handed out, so that a crash loses at most a page of them. The
  database may refuse a write: \<open>sq_answers\<close> are its answers to the next ones, an error or none; when they are used up it
  accepts every write.
\<close>

record level_seq =
  sq_key :: dbkey
  sq_next :: u64
  sq_allocated :: u64
  sq_answers :: "MojErr option list"

type_synonym contents = "dbkey \<Rightarrow> byte list option"

definition SequenceAllocationPage :: u64 where "SequenceAllocationPage = 100"

definition seq_open :: "string \<Rightarrow> contents \<Rightarrow> level_seq res" where
  "seq_open name db =
     (let key = map byte_of name in
      rbind (case db key of
               Some val \<Rightarrow> rbind (item_toObject val) (\<lambda>obj. Inr (intValueWith MojStrToInt64 obj))
             | None \<Rightarrow> Inr 0) (\<lambda>start.
        Inr \<lparr>sq_key = key, sq_next = start, sq_allocated = start, sq_answers = []\<rparr>))"

definition seq_put :: "byte list \<Rightarrow> level_seq \<times> contents \<Rightarrow> unit res \<times> level_seq \<times> contents" where
  "seq_put val = (\<lambda>(s, db).
     case sq_answers s of
       [] \<Rightarrow> (Inr (), s, db(sq_key s \<mapsto> val))
     | answer # answers \<Rightarrow>
         let s' = s\<lparr>sq_answers := answers\<rparr> in
         (case answer of Some e \<Rightarrow> (Inl e, s', db) | None \<Rightarrow> (Inr (), s', db(sq_key s \<mapsto> val))))"

text \<open>The check that the database holds what was written last is made by a debug build.\<close>

definition seq_store :: "u64 \<Rightarrow> level_seq \<times> contents \<Rightarrow> unit res \<times> level_seq \<times> contents" where
  "seq_store n = (\<lambda>(s, db).
     if \<not> sq_next s \<le> n then (Inl MojAssertFailed, s, db)
     else
       case rbind (case db (sq_key s) of
                     Some val \<Rightarrow> rbind (item_toObject val) (\<lambda>obj.
                       if sq_allocated s \<noteq> intValueWith MojStrToInt64 obj then Inl MojErrDbInconsistentIndex else Inr ())
                   | None \<Rightarrow> if sq_allocated s \<noteq> 0 then Inl MojErrDbInconsistentIndex else Inr ()) (\<lambda>_.
            item_fromObject (OInt n)) of
         Inl e \<Rightarrow> (Inl e, s, db)
       | Inr val \<Rightarrow>
           (case seq_put val (s, db) of
              (Inl e, sdb) \<Rightarrow> (Inl e, sdb)
            | (Inr _, s', db') \<Rightarrow> (Inr (), s'\<lparr>sq_allocated := n\<rparr>, db')))"

text \<open>A number that could not be allocated is not handed out, but taken.\<close>

definition seq_get :: "level_seq \<times> contents \<Rightarrow> u64 res \<times> level_seq \<times> contents" where
  "seq_get = (\<lambda>(s, db).
     let val = sq_next s; s' = s\<lparr>sq_next := val + 1\<rparr> in
     if val \<ge> sq_allocated s'
     then (case seq_store (val + SequenceAllocationPage) (s', db) of
             (Inl e, sdb) \<Rightarrow> (Inl e, sdb)
           | (Inr _, sdb) \<Rightarrow> (Inr val, sdb))
     else (Inr val, s', db))"

definition seq_close :: "level_seq \<times> contents \<Rightarrow> unit res \<times> level_seq \<times> contents" where
  "seq_close = (\<lambda>(s, db). seq_store (sq_next s) (s, db))"

section \<open>A sequence never repeats a value\<close>

text \<open>
  What happens to a sequence: a value is taken, the process dies and starts again, or it closes the sequence and starts
  again, be the closing successful or not. The results are those of the requests and the errors of closing and opening.
\<close>

datatype seq_op = SeqGet | SeqCrash | SeqReopen

fun seq_run :: "string \<Rightarrow> seq_op list \<Rightarrow> level_seq \<times> contents \<Rightarrow> u64 res list" where
  "seq_run name [] sdb = []"
| "seq_run name (SeqGet # ops) sdb = (case seq_get sdb of (r, sdb') \<Rightarrow> r # seq_run name ops sdb')"
| "seq_run name (SeqCrash # ops) (s, db) =
     (case seq_open name db of
        Inl e \<Rightarrow> [Inl e]
      | Inr s' \<Rightarrow> seq_run name ops (s'\<lparr>sq_answers := sq_answers s\<rparr>, db))"
| "seq_run name (SeqReopen # ops) sdb =
     (case seq_close sdb of (r, s, db) \<Rightarrow>
        (case r of Inl e \<Rightarrow> [Inl e] | Inr _ \<Rightarrow> []) @
        (case seq_open name db of
           Inl e \<Rightarrow> [Inl e]
         | Inr s' \<Rightarrow> seq_run name ops (s'\<lparr>sq_answers := sq_answers s\<rparr>, db)))"

definition handed :: "u64 res list \<Rightarrow> u64 list" where
  "handed rs = concat (map (\<lambda>r. case r of Inl _ \<Rightarrow> [] | Inr v \<Rightarrow> [v]) rs)"

lemma handed_simps [simp]:
  "handed [] = []" "handed (Inl e # rs) = handed rs" "handed (Inr v # rs) = v # handed rs"
  by (simp_all add: handed_def)

text \<open>The database holds what is allocated; up to there or to the next number, all is free from \<open>floor\<close> on.\<close>

definition seq_ok :: "string \<Rightarrow> level_seq \<times> contents \<Rightarrow> bool" where
  "seq_ok name = (\<lambda>(s, db). sq_key s = map byte_of name \<and>
     (case db (sq_key s) of Some val \<Rightarrow> val = enc (OInt (sq_allocated s)) | None \<Rightarrow> sq_allocated s = 0))"

definition seq_floor :: "level_seq \<Rightarrow> nat" where
  "seq_floor s = min (unat (sq_next s)) (unat (sq_allocated s))"

definition seq_top :: "level_seq \<Rightarrow> nat" where
  "seq_top s = max (unat (sq_next s)) (unat (sq_allocated s))"

lemma item_OInt [simp]: "item_toObject (enc (OInt n)) = Inr (OInt n)" "item_fromObject (OInt n) = Inr (enc (OInt n))"
  by (simp_all add: item_toObject_def item_fromObject_def toBytes_enc fromBytes_enc del: enc.simps)

lemma seq_open_ok:
  assumes "seq_ok name (s, db)"
  shows "seq_open name db =
    Inr \<lparr>sq_key = map byte_of name, sq_next = sq_allocated s, sq_allocated = sq_allocated s, sq_answers = []\<rparr>"
  using assms by (auto simp: seq_ok_def seq_open_def Let_def simp del: enc.simps split: option.splits)

text \<open>A write goes through, or it fails with an error that the database answered and changes neither the database nor the numbers.\<close>

lemma seq_store_ok:
  assumes "seq_ok name (s, db)" "sq_next s' \<le> n" "sq_key s' = sq_key s" "sq_allocated s' = sq_allocated s"
    "sq_answers s' = sq_answers s"
  shows "\<exists>as. set as \<subseteq> set (sq_answers s) \<and>
    ((\<exists>e. Some e \<in> set (sq_answers s) \<and> seq_store n (s', db) = (Inl e, s'\<lparr>sq_answers := as\<rparr>, db) \<and>
        seq_ok name (s'\<lparr>sq_answers := as\<rparr>, db)) \<or>
     (\<exists>db'. seq_store n (s', db) = (Inr (), s'\<lparr>sq_answers := as, sq_allocated := n\<rparr>, db') \<and>
        seq_ok name (s'\<lparr>sq_answers := as, sq_allocated := n\<rparr>, db')))"
proof -
  have r: "seq_store n (s', db) = (case seq_put (enc (OInt n)) (s', db) of
              (Inl e, sdb) \<Rightarrow> (Inl e, sdb)
            | (Inr _, s', db') \<Rightarrow> (Inr (), s'\<lparr>sq_allocated := n\<rparr>, db'))"
    using assms by (auto simp: seq_ok_def seq_store_def simp del: enc.simps split: option.splits)
  have ok: "seq_ok name (s'\<lparr>sq_answers := as\<rparr>, db)"
    "seq_ok name (s'\<lparr>sq_answers := as, sq_allocated := n\<rparr>, db(sq_key s' \<mapsto> enc (OInt n)))" for as
    using assms by (auto simp: seq_ok_def simp del: enc.simps split: option.splits)
  show ?thesis
  proof (cases "sq_answers s")
    case Nil
    then show ?thesis
      using r assms(5) ok(2) [of "[]"]
      by (intro exI [of _ "[]"] conjI disjI2 exI [of _ "db(sq_key s' \<mapsto> enc (OInt n))"]) (simp_all add: seq_put_def del: enc.simps)
  next
    case (Cons a as)
    show ?thesis
    proof (cases a)
      case None
      then show ?thesis
        using r assms(5) ok(2) [of as] Cons
        by (intro exI [of _ as] conjI disjI2 exI [of _ "db(sq_key s' \<mapsto> enc (OInt n))"])
          (auto simp: seq_put_def Let_def simp del: enc.simps)
    next
      case (Some e)
      then show ?thesis
        using r assms(5) ok(1) [of as] Cons
        by (intro exI [of _ as] conjI disjI1 exI [of _ e]) (auto simp: seq_put_def Let_def simp del: enc.simps)
    qed
  qed
qed

lemma seq_get_ok:
  assumes "seq_ok name (s, db)" "seq_top s + 100 < 2 ^ 64"
  shows "\<exists>r s' db'. seq_get (s, db) = (r, s', db') \<and> seq_ok name (s', db') \<and> seq_top s' \<le> seq_top s + 100 \<and>
    set (sq_answers s') \<subseteq> set (sq_answers s) \<and>
    (case r of
       Inl e \<Rightarrow> Some e \<in> set (sq_answers s) \<and> seq_floor s \<le> seq_floor s'
     | Inr v \<Rightarrow> seq_floor s \<le> unat v \<and> unat v < seq_floor s')"
proof -
  let ?s = "s\<lparr>sq_next := sq_next s + 1\<rparr>"
  have top: "unat (sq_next s) \<le> seq_top s" by (simp add: seq_top_def)
  have n1: "unat (sq_next s + 1) = unat (sq_next s) + 1" using top assms(2) by (simp add: unat_word_ariths)
  have n100: "unat (sq_next s + 100) = unat (sq_next s) + 100" using top assms(2) by (simp add: unat_word_ariths)
  note nums = n1 n100 seq_top_def seq_floor_def
  show ?thesis
  proof (cases "sq_allocated s \<le> sq_next s")
    case True
    have le: "sq_next ?s \<le> sq_next s + 100" using n1 n100 by (simp add: word_le_nat_alt)
    have a: "unat (sq_allocated s) \<le> unat (sq_next s)" using True by (simp add: word_le_nat_alt)
    have code: "seq_get (s, db) = (case seq_store (sq_next s + 100) (?s, db) of
        (Inl e, sdb) \<Rightarrow> (Inl e, sdb) | (Inr _, sdb) \<Rightarrow> (Inr (sq_next s), sdb))"
      using True by (simp add: seq_get_def SequenceAllocationPage_def Let_def)
    obtain as where as: "set as \<subseteq> set (sq_answers s)"
      "(\<exists>e. Some e \<in> set (sq_answers s) \<and> seq_store (sq_next s + 100) (?s, db) = (Inl e, ?s\<lparr>sq_answers := as\<rparr>, db) \<and>
          seq_ok name (?s\<lparr>sq_answers := as\<rparr>, db)) \<or>
       (\<exists>db'. seq_store (sq_next s + 100) (?s, db) = (Inr (), ?s\<lparr>sq_answers := as, sq_allocated := sq_next s + 100\<rparr>, db') \<and>
          seq_ok name (?s\<lparr>sq_answers := as, sq_allocated := sq_next s + 100\<rparr>, db'))"
      using seq_store_ok [OF assms(1) le] by auto
    from as(2) show ?thesis
    proof (elim disjE exE conjE)
      fix e assume "Some e \<in> set (sq_answers s)" "seq_store (sq_next s + 100) (?s, db) = (Inl e, ?s\<lparr>sq_answers := as\<rparr>, db)"
        "seq_ok name (?s\<lparr>sq_answers := as\<rparr>, db)"
      then show ?thesis using as(1) a by (simp add: code nums)
    next
      fix db' assume "seq_store (sq_next s + 100) (?s, db) = (Inr (), ?s\<lparr>sq_answers := as, sq_allocated := sq_next s + 100\<rparr>, db')"
        "seq_ok name (?s\<lparr>sq_answers := as, sq_allocated := sq_next s + 100\<rparr>, db')"
      then show ?thesis using as(1) a by (simp add: code nums)
    qed
  next
    case False
    have "seq_ok name (?s, db)" using assms(1) by (auto simp: seq_ok_def split: option.splits)
    moreover have "unat (sq_next s) < unat (sq_allocated s)" using False by (simp add: word_le_nat_alt)
    ultimately show ?thesis using False by (simp add: seq_get_def Let_def nums)
  qed
qed

lemma reopen_ok:
  assumes "seq_ok name (s, db)"
  shows "\<exists>s'. seq_open name db = Inr s' \<and> seq_ok name (s'\<lparr>sq_answers := as\<rparr>, db) \<and>
    seq_floor (s'\<lparr>sq_answers := as\<rparr>) = unat (sq_allocated s) \<and> seq_top (s'\<lparr>sq_answers := as\<rparr>) = unat (sq_allocated s)"
  using assms by (auto simp: seq_open_ok [OF assms] seq_ok_def seq_floor_def seq_top_def split: option.splits)

lemma seq_run_ok:
  assumes "seq_ok name (s, db)" "seq_top s + 100 * length ops < 2 ^ 64"
  shows "sorted_wrt (<) (handed (seq_run name ops (s, db))) \<and>
    (\<forall>v \<in> set (handed (seq_run name ops (s, db))). seq_floor s \<le> unat v) \<and>
    (\<forall>e. Inl e \<in> set (seq_run name ops (s, db)) \<longrightarrow> Some e \<in> set (sq_answers s))"
  using assms
proof (induction ops arbitrary: s db)
  case (Cons op ops)
  show ?case
  proof (cases op)
    case SeqGet
    obtain r s' db' where g: "seq_get (s, db) = (r, s', db')" "seq_ok name (s', db')" "seq_top s' \<le> seq_top s + 100"
      "set (sq_answers s') \<subseteq> set (sq_answers s)"
      "case r of Inl e \<Rightarrow> Some e \<in> set (sq_answers s) \<and> seq_floor s \<le> seq_floor s'
       | Inr v \<Rightarrow> seq_floor s \<le> unat v \<and> unat v < seq_floor s'"
      using seq_get_ok [OF Cons.prems(1)] Cons.prems(2) by auto
    have "seq_top s' + 100 * length ops < 2 ^ 64" using g(3) Cons.prems(2) by simp
    note IH = Cons.IH [OF g(2) this]
    show ?thesis
    proof (cases r)
      case (Inl e)
      then show ?thesis using IH g by (auto simp: SeqGet intro: order_trans)
    next
      case (Inr v)
      have "v < w" if "w \<in> set (handed (seq_run name ops (s', db')))" for w
        using IH that g(5) Inr by (force simp: word_less_nat_alt)
      then show ?thesis using IH g Inr by (auto simp: SeqGet intro: order_trans less_imp_le)
    qed
  next
    case SeqCrash
    obtain s' where s': "seq_open name db = Inr s'" "seq_ok name (s'\<lparr>sq_answers := sq_answers s\<rparr>, db)"
      "seq_floor (s'\<lparr>sq_answers := sq_answers s\<rparr>) = unat (sq_allocated s)" "seq_top (s'\<lparr>sq_answers := sq_answers s\<rparr>) = unat (sq_allocated s)"
      using reopen_ok [OF Cons.prems(1)] by blast
    have "seq_top (s'\<lparr>sq_answers := sq_answers s\<rparr>) + 100 * length ops < 2 ^ 64"
      using Cons.prems(2) s'(4) by (simp add: seq_top_def)
    moreover have "seq_floor s \<le> seq_floor (s'\<lparr>sq_answers := sq_answers s\<rparr>)"
      using s'(3) by (simp add: seq_floor_def)
    ultimately show ?thesis using Cons.IH [OF s'(2)] by (auto simp: SeqCrash s'(1) intro: order_trans)
  next
    case SeqReopen
    obtain r s1 db1 where c: "seq_close (s, db) = (r, s1, db1)" "seq_ok name (s1, db1)" "set (sq_answers s1) \<subseteq> set (sq_answers s)"
      "seq_floor s \<le> unat (sq_allocated s1)" "unat (sq_allocated s1) \<le> seq_top s" "\<And>e. r = Inl e \<Longrightarrow> Some e \<in> set (sq_answers s)"
      using seq_store_ok [OF Cons.prems(1) order_refl refl refl refl]
      by (fastforce simp: seq_close_def seq_floor_def seq_top_def)
    obtain s' where s': "seq_open name db1 = Inr s'" "seq_ok name (s'\<lparr>sq_answers := sq_answers s1\<rparr>, db1)"
      "seq_floor (s'\<lparr>sq_answers := sq_answers s1\<rparr>) = unat (sq_allocated s1)" "seq_top (s'\<lparr>sq_answers := sq_answers s1\<rparr>) = unat (sq_allocated s1)"
      using reopen_ok [OF c(2)] by blast
    have "seq_top (s'\<lparr>sq_answers := sq_answers s1\<rparr>) + 100 * length ops < 2 ^ 64"
      using Cons.prems(2) s'(4) c(5) by simp
    from Cons.IH [OF s'(2) this] show ?thesis
      using c(3-6) s'(3) by (cases r) (auto simp: SeqReopen c(1) s'(1))
  qed
qed simp

text \<open>
  C22. A sequence never hands out a number twice: whatever order of requests, crashes and orderly restarts, and whichever
  writes the database refuses, the numbers handed out, over all the restarts, increase strictly, and every operation
  succeeds unless the database answers an error, which is then its error; each operation uses up at most one page of a
  hundred numbers.
\<close>

theorem seq_unique:
  assumes "db (map byte_of name) = None" "100 * length ops < (2 :: nat) ^ 64"
  shows "\<exists>s. seq_open name db = Inr s \<and>
    (let results = seq_run name ops (s\<lparr>sq_answers := answers\<rparr>, db) in
       sorted_wrt (<) (handed results) \<and> (\<forall>e. Inl e \<in> set results \<longrightarrow> Some e \<in> set answers))"
proof -
  let ?s = "\<lparr>sq_key = map byte_of name, sq_next = 0, sq_allocated = 0, sq_answers = []\<rparr> :: level_seq"
  let ?a = "?s\<lparr>sq_answers := answers\<rparr>"
  have "seq_open name db = Inr ?s" using assms(1) by (simp add: seq_open_def)
  moreover have ok: "seq_ok name (?a, db)" using assms(1) by (simp add: seq_ok_def)
  moreover have "seq_top ?a + 100 * length ops < 2 ^ 64" using assms(2) by (simp add: seq_top_def)
  ultimately show ?thesis using seq_run_ok [OF ok, of ops] by (intro exI [of _ ?s]) (simp add: Let_def)
qed

theorem seq_unique_witness:
  "\<exists>s. seq_open ''indexId'' (\<lambda>_. None) = Inr s \<and>
    (let results = seq_run ''indexId'' [SeqGet, SeqGet, SeqCrash, SeqGet] (s\<lparr>sq_answers := [Some MojErrDbIO]\<rparr>, \<lambda>_. None) in
       sorted_wrt (<) (handed results) \<and> (\<forall>e. Inl e \<in> set results \<longrightarrow> Some e \<in> set [Some MojErrDbIO]))"
  by (rule seq_unique) simp_all

end
