(* ===== verification/DbScan.thy ===== *)
theory DbScan
  imports LevelCursor DbAnswer
begin

text \<open>
  The scan of an index (\<^verbatim>\<open>src/db/MojDbIsamQuery.cpp\<close> with \<^verbatim>\<open>src/db-engine/leveldb/MojDbLevelQuery.cpp\<close> as its
  storage): it walks the ranges of the plan with a cursor, takes the id out of each key, looks the object up and
  counts what it returns. The theorem: the results are the keys of the ranges, in order, up to the limit.
\<close>

section \<open>State\<close>

datatype isam_state = StateInvalid | StateSeek | StateNext

text \<open>An item is an object in the form in which it is stored, or the object itself.\<close>

datatype scan_item = StoredItem obj "byte list" | ObjectItem obj

text \<open>\<open>iq_ranges\<close> are the ranges from \<^verbatim>\<open>m_iter\<close> to the end, \<open>iq_key\<close> and \<open>iq_val\<close> the items of the cursor.\<close>

record 'it isam =
  iq_plan :: plan
  iq_ranges :: "key_range list"
  iq_state :: isam_state
  iq_count :: u32
  iq_endKey :: dbkey
  iq_key :: dbkey
  iq_val :: "byte list"
  iq_it :: "'it txn_iter"
  iq_distinct :: string
  iq_lastItem :: "obj option"
  iq_exclude :: "string list"
  iq_verify :: bool

text \<open>
  What the query works on: the table it scans, the primary database (if the table is an index), and
  the operations of an item that need the kinds.
\<close>

record 'it scan_env =
  se_ldb :: "'it ldb"
  se_txn :: "'it table_txn"
  se_primary :: "(dbkey \<Rightarrow> byte list option) option"
  se_kindId :: "obj \<Rightarrow> byte list \<Rightarrow> string res"
  se_toObject :: "obj \<Rightarrow> byte list \<Rightarrow> obj res"

abbreviation iq_desc :: "'it isam \<Rightarrow> bool" where
  "iq_desc q \<equiv> q_desc (p_query (iq_plan q))"

definition isam_open :: "plan \<Rightarrow> 'it txn_iter \<Rightarrow> 'it isam" where
  "isam_open plan it = \<lparr>iq_plan = plan, iq_ranges = p_ranges plan, iq_state = StateSeek, iq_count = 0, iq_endKey = [],
     iq_key = [], iq_val = [], iq_it = it, iq_distinct = q_distinct (p_query plan), iq_lastItem = None,
     iq_exclude = [], iq_verify = False\<rparr>"

definition level_query_open :: "'it scan_env \<Rightarrow> plan \<Rightarrow> 'it isam res" where
  "level_query_open env plan =
     rbind (cursor_open (se_ldb env) (se_txn env)) (\<lambda>it. Inr (isam_open plan it))"

definition limitEnforced :: "'it isam \<Rightarrow> bool" where
  "limitEnforced q \<longleftrightarrow> iq_count q \<ge> q_limit (p_query (iq_plan q))"

section \<open>Keys\<close>

definition lq_getKey :: "'it scan_env \<Rightarrow> seek_flag \<Rightarrow> 'it isam \<Rightarrow> (bool \<times> 'it isam) res" where
  "lq_getKey env flags q =
     rbind (cursor_get (se_ldb env) (se_txn env) (iq_key q) (iq_val q) flags (iq_it q)) (\<lambda>(found, key, val, it).
       Inr (found, q\<lparr>iq_key := key, iq_val := val, iq_it := it\<rparr>))"

definition lq_next :: "'it scan_env \<Rightarrow> 'it isam \<Rightarrow> (bool \<times> 'it isam) res" where
  "lq_next env q =
     (if iq_state q \<noteq> StateNext then Inl MojAssertFailed
      else lq_getKey env (if iq_desc q then e_Prev else e_Next) q)"

definition lq_seekImpl :: "'it scan_env \<Rightarrow> dbkey \<Rightarrow> bool \<Rightarrow> 'it isam \<Rightarrow> (bool \<times> 'it isam) res" where
  "lq_seekImpl env key desc q =
     (if key = [] then lq_getKey env (if desc then e_Last else e_First) q
      else rbind (lq_getKey env e_Set (q\<lparr>iq_key := key\<rparr>)) (\<lambda>(found, q').
             if desc then lq_next env q' else Inr (found, q')))"

definition compareKey :: "dbkey \<Rightarrow> 'it isam \<Rightarrow> int" where
  "compareKey key q = MojLexicalCompare (iq_key q) key"

definition iq_match :: "key_range \<Rightarrow> 'it isam \<Rightarrow> bool" where
  "iq_match r q =
     (let desc = iq_desc q; key = range_key (\<not> desc) r in
      key = [] \<or> (compareKey key q \<ge> 0) = desc)"

definition iq_seek :: "'it scan_env \<Rightarrow> key_range \<Rightarrow> 'it isam \<Rightarrow> (bool \<times> 'it isam) res" where
  "iq_seek env r q =
     (if iq_state q \<noteq> StateSeek then Inl MojAssertFailed
      else
        let desc = iq_desc q; key = range_key desc r; q' = q\<lparr>iq_state := StateNext\<rparr> in
        if iq_key q \<noteq> [] \<and> (compareKey key q < 0) = desc then Inr (True, q')
        else lq_seekImpl env key desc q')"

fun getKey_loop :: "'it scan_env \<Rightarrow> key_range list \<Rightarrow> 'it isam \<Rightarrow> (u32 option \<times> 'it isam) res" where
  "getKey_loop env [] q = Inr (None, q\<lparr>iq_ranges := []\<rparr>)"
| "getKey_loop env (r # rs) q =
     (if limitEnforced q then Inr (None, q\<lparr>iq_ranges := r # rs\<rparr>)
      else
        rbind (if iq_state q = StateSeek then iq_seek env r q else lq_next env q) (\<lambda>(keyFound, q').
          if \<not> keyFound then Inr (None, q'\<lparr>iq_ranges := []\<rparr>)
          else if iq_match r q' then Inr (Some (rgroup r), q'\<lparr>iq_ranges := r # rs\<rparr>)
          else getKey_loop env rs (q'\<lparr>iq_state := StateSeek\<rparr>)))"

definition iq_getKey :: "'it scan_env \<Rightarrow> 'it isam \<Rightarrow> (u32 option \<times> 'it isam) res" where
  "iq_getKey env q = getKey_loop env (iq_ranges q) q"

section \<open>Items\<close>

text \<open>\<^verbatim>\<open>parseId\<close>: the objects in front of the id are eaten.\<close>

fun eat_objects :: "nat \<Rightarrow> unit obj_reader \<Rightarrow> unit obj_reader res" where
  "eat_objects 0 rd = Inr rd"
| "eat_objects (Suc n) rd = rbind (reader_nextObject (\<lambda>_ _. Inr ()) () rd) (\<lambda>(_, rd'). eat_objects n rd')"

definition parse_key :: "nat \<Rightarrow> dbkey \<Rightarrow> obj res" where
  "parse_key idIndex key =
     rbind (eat_objects idIndex (reader_init key)) (\<lambda>rd.
       rbind (reader_nextObject builder_ev builder_reset rd) (\<lambda>(b, _). Inr (m_obj b)))"

definition iq_parseId :: "'it isam \<Rightarrow> obj res" where
  "iq_parseId q = parse_key (p_idPropIndex (iq_plan q)) (iq_key q)"

definition checkExclude :: "'it scan_env \<Rightarrow> obj \<Rightarrow> byte list \<Rightarrow> 'it isam \<Rightarrow> bool res" where
  "checkExclude env oid data q =
     (if iq_exclude q = [] then Inr False
      else rbind (se_kindId env oid data) (\<lambda>kindId. Inr (set_contains MojStrCmp kindId (iq_exclude q))))"

text \<open>
  \<open>Missing\<close> is the error \<open>MojErrInternalIndexOnFind\<close>, after which a query can go on. \<open>Got\<close> has the two out
  parameters \<^verbatim>\<open>foundOut\<close> and \<^verbatim>\<open>itemOut\<close>.
\<close>

datatype got = Missing | Got bool "scan_item option"

definition lq_getById :: "'it scan_env \<Rightarrow> obj \<Rightarrow> 'it isam \<Rightarrow> got res" where
  "lq_getById env oid q =
     (let fin = (\<lambda>found data. rbind (checkExclude env oid data q) (\<lambda>exclude.
          Inr (Got found (if exclude then None else Some (StoredItem oid data))))) in
      case se_primary env of
        Some get \<Rightarrow> rbind (item_fromObject oid) (\<lambda>key.
          case get key of None \<Rightarrow> Inr Missing | Some data \<Rightarrow> fin True data)
      | None \<Rightarrow> fin False (iq_val q))"

definition lq_getVal :: "'it scan_env \<Rightarrow> 'it isam \<Rightarrow> got res" where
  "lq_getVal env q = rbind (iq_parseId q) (\<lambda>oid. lq_getById env oid q)"

definition saveEndKey :: "'it isam \<Rightarrow> 'it isam" where
  "saveEndKey q = q\<lparr>iq_endKey := (if \<not> iq_desc q then key_increment (iq_key q) else iq_key q)\<rparr>"

definition incrementCount :: "'it isam \<Rightarrow> 'it isam" where
  "incrementCount q =
     (let q' = q\<lparr>iq_count := iq_count q + 1\<rparr> in if limitEnforced q' then saveEndKey q' else q')"

fun item_object :: "'it scan_env \<Rightarrow> scan_item \<Rightarrow> obj res" where
  "item_object env (StoredItem oid data) = se_toObject env oid data"
| "item_object env (ObjectItem obj) = Inr obj"

text \<open>\<^verbatim>\<open>distinct\<close>: is the value the one of the last object? If not, the object is kept and returned.\<close>

definition iq_isDistinct :: "'it scan_env \<Rightarrow> scan_item \<Rightarrow> 'it isam \<Rightarrow> (bool \<times> scan_item \<times> 'it isam) res" where
  "iq_isDistinct env item q =
     rbind (item_object env item) (\<lambda>obj.
     rbind (getRequired (iq_distinct q) obj) (\<lambda>dest.
     rbind (case iq_lastItem q of
              None \<Rightarrow> Inr False
            | Some kept \<Rightarrow> rbind (getRequired (iq_distinct q) kept) (\<lambda>d. Inr (obj_compare d dest = 0))) (\<lambda>same.
       if same then Inr (True, item, q)
       else Inr (False, ObjectItem obj, q\<lparr>iq_lastItem := Some obj\<rparr>))))"

definition iq_getImpl :: "'it scan_env \<Rightarrow> bool \<Rightarrow> 'it isam \<Rightarrow> (got \<times> 'it isam) res" where
  "iq_getImpl env getItem q =
     rbind (iq_getKey env q) (\<lambda>(grp, q').
     rbind (if grp \<noteq> None \<and> getItem then lq_getVal env q' else Inr (Got (grp \<noteq> None) None)) (\<lambda>got.
       case got of
         Missing \<Rightarrow> Inr (Missing, q')
       | Got found item \<Rightarrow>
           if \<not> found then Inr (Got False item, q')
           else
             (case item of
                Some i \<Rightarrow>
                  if iq_distinct q' \<noteq> [] then
                    rbind (iq_isDistinct env i q') (\<lambda>(duplicate, i', q'').
                      if \<not> duplicate then Inr (Got True (Some i'), incrementCount q'') else Inr (Got True None, q''))
                  else Inr (Got True item, incrementCount q')
              | None \<Rightarrow> Inr (Got True item, incrementCount q'))))"

text \<open>\<^verbatim>\<open>get\<close> goes on until there is an item or no more keys; an id that is not in the primary database is skipped.\<close>

partial_function (option) iq_get :: "'it scan_env \<Rightarrow> 'it isam \<Rightarrow> (got \<times> 'it isam) res option" where
  "iq_get env q =
     (case iq_getImpl env True q of
        Inl e \<Rightarrow> Some (Inl e)
      | Inr (got, q') \<Rightarrow>
          (case got of
             Missing \<Rightarrow> if iq_verify q' then Some (Inr (Missing, q')) else iq_get env q'
           | Got found item \<Rightarrow>
               if item = None \<and> found then iq_get env q' else Some (Inr (Got found item, q'))))"

definition iq_getId :: "'it scan_env \<Rightarrow> 'it isam \<Rightarrow> ((obj \<times> u32) option \<times> 'it isam) res" where
  "iq_getId env q =
     rbind (iq_getKey env q) (\<lambda>(grp, q').
       case grp of
         None \<Rightarrow> Inr (None, q')
       | Some g \<Rightarrow> rbind (iq_parseId q') (\<lambda>oid. Inr (Some (oid, g), q')))"

partial_function (option) count_loop :: "'it scan_env \<Rightarrow> 'it isam \<Rightarrow> 'it isam res option" where
  "count_loop env q =
     (case iq_getImpl env True q of
        Inl e \<Rightarrow> Some (Inl e)
      | Inr (got, q') \<Rightarrow>
          (case got of
             Missing \<Rightarrow> count_loop env q'
           | Got found item \<Rightarrow> if found then count_loop env q' else Some (Inr q')))"

definition iq_countAll :: "'it scan_env \<Rightarrow> 'it isam \<Rightarrow> (u32 \<times> 'it isam) res option" where
  "iq_countAll env q =
     (let plan = iq_plan q in
      case count_loop env (q\<lparr>iq_plan := plan\<lparr>p_query := (p_query plan)\<lparr>q_limit := - 1\<rparr>\<rparr>\<rparr>) of
        None \<Rightarrow> None
      | Some (Inl e) \<Rightarrow> Some (Inl e)
      | Some (Inr q') \<Rightarrow> Some (Inr (iq_count q', q')))"

definition nextPage :: "'it isam \<Rightarrow> dbkey" where
  "nextPage q = (if limitEnforced q then iq_endKey q else [])"

section \<open>The cursor of a scan\<close>

definition near_ok :: "bool \<Rightarrow> key_range \<Rightarrow> dbkey \<Rightarrow> bool" where
  "near_ok fwd r x \<longleftrightarrow> (if fwd then kle (lowerKey r) x else upperKey r = [] \<or> \<not> kle (upperKey r) x)"

definition far_ok :: "bool \<Rightarrow> key_range \<Rightarrow> dbkey \<Rightarrow> bool" where
  "far_ok fwd r x \<longleftrightarrow> (if fwd then upperKey r = [] \<or> \<not> kle (upperKey r) x else kle (lowerKey r) x)"

lemma range_near_far: "range_contains r x \<longleftrightarrow> near_ok fwd r x \<and> far_ok fwd r x"
  by (auto simp: range_contains_kle near_ok_def far_ok_def)

lemma near_ok_up: "near_ok fwd r x \<Longrightarrow> dle fwd x y \<Longrightarrow> near_ok fwd r y"
  unfolding near_ok_def dle_def using kle_trans by (auto split: if_splits)

lemma far_ok_down: "far_ok fwd r y \<Longrightarrow> dle fwd x y \<Longrightarrow> far_ok fwd r x"
  unfolding far_ok_def dle_def using kle_trans by (auto split: if_splits)

text \<open>
  The ranges of a plan follow each other in the direction of the scan. A range may be empty: the bounds of a query
  can contradict each other.
\<close>

definition range_before :: "key_range \<Rightarrow> key_range \<Rightarrow> bool" where
  "range_before r r' \<longleftrightarrow> upperKey r \<noteq> [] \<and> kle (upperKey r) (lowerKey r') \<and> kle (lowerKey r) (lowerKey r') \<and>
     (upperKey r' = [] \<or> kle (upperKey r) (upperKey r'))"

definition range_wf :: "key_range \<Rightarrow> bool" where
  "range_wf r \<longleftrightarrow> length (lowerKey r) < 2 ^ 31 \<and> length (upperKey r) < 2 ^ 31"

definition in_order :: "bool \<Rightarrow> key_range list \<Rightarrow> bool" where
  "in_order fwd rs \<longleftrightarrow> (\<forall>r \<in> set rs. range_wf r) \<and>
     sorted_wrt (\<lambda>r r'. if fwd then range_before r r' else range_before r' r) rs"

lemma in_order_Cons: "in_order fwd (r # rs) \<longleftrightarrow> range_wf r \<and> in_order fwd rs \<and>
    (\<forall>r' \<in> set rs. if fwd then range_before r r' else range_before r' r)"
  by (auto simp: in_order_def)

text \<open>A key of a later range lies beyond the far end of the first range, and behind its near end.\<close>

lemma later_range:
  assumes "in_order fwd (r # rs)" "covers rs x"
  shows "\<not> far_ok fwd r x" "near_ok fwd r x"
proof -
  obtain r' where r': "r' \<in> set rs" "range_contains r' x" using assms(2) by (auto simp: covers_def)
  then have b: "if fwd then range_before r r' else range_before r' r" "range_wf r" "range_wf r'"
    using assms(1) by (auto simp: in_order_def)
  show "\<not> far_ok fwd r x"
    using b r'(2) kle_trans [of "upperKey r" "lowerKey r'" x] kle_trans [of "upperKey r'" "lowerKey r" x]
    by (auto simp: far_ok_def range_before_def range_contains_kle)
  show "near_ok fwd r x"
    using b r'(2) kle_trans [of "lowerKey r" "lowerKey r'" x] kle_trans [of "upperKey r'" "upperKey r" x]
    by (auto simp: near_ok_def range_before_def range_contains_kle)
qed

lemma covers_Cons: "covers (r # rs) x \<longleftrightarrow> range_contains r x \<or> covers rs x"
  by (auto simp: covers_def)

lemma compareKey_kle:
  assumes "length (iq_key q) < 2 ^ 31" "length key < 2 ^ 31"
  shows "compareKey key q < 0 \<longleftrightarrow> \<not> kle key (iq_key q)"
proof -
  have "sgn (compareKey key q) = sgn (bcmp (iq_key q) key)"
    using MojLexicalCompare_bcmp [OF assms] by (simp add: compareKey_def)
  then have "compareKey key q < 0 \<longleftrightarrow> bcmp (iq_key q) key < 0" by (metis sgn_less)
  then show ?thesis using bcmp_lt_iff [of "iq_key q" key] by (auto simp: kle_def)
qed

text \<open>What the scan relies on: LevelDB's iterators, and that no key is empty or longer than an \<^verbatim>\<open>int\<close> counts.\<close>

definition scannable :: "'it scan_env \<Rightarrow> (dbkey \<Rightarrow> byte list option) \<Rightarrow> bool" where
  "scannable env db \<longleftrightarrow> ldb_ok (se_ldb env) db \<and> table_ok (se_txn env) \<and>
     (\<forall>k. tt_Get db k (se_txn env) \<noteq> None \<longrightarrow> k \<noteq> [] \<and> length k < 2 ^ 31)"

lemma scannableD:
  assumes "scannable env db"
  shows "ldb_ok (se_ldb env) db" "table_ok (se_txn env)"
    "k \<in> visible db (se_txn env) \<Longrightarrow> k \<noteq> []" "k \<in> visible db (se_txn env) \<Longrightarrow> length k < 2 ^ 31"
  using assms visible_iff [of "se_txn env" k db] by (auto simp: scannable_def)

text \<open>The cursor stands at a position and the item shows it.\<close>

definition scan_at :: "'it scan_env \<Rightarrow> (dbkey \<Rightarrow> byte list option) \<Rightarrow> bool \<Rightarrow> 'it isam \<Rightarrow> pos \<Rightarrow> bool" where
  "scan_at env db fwd q r \<longleftrightarrow> stands (se_ldb env) db fwd (se_txn env) r (iq_it q) \<and>
     (case r of PKey k \<Rightarrow> iq_key q = k \<and> tt_Get db k (se_txn env) = Some (iq_val q) | _ \<Rightarrow> True)"

lemma at_V: "scannable env db \<Longrightarrow> scan_at env db fwd q (PKey k) \<Longrightarrow> k \<in> visible db (se_txn env)"
  using visible_iff [of "se_txn env" k db] by (simp add: scan_at_def scannable_def)

lemma getKey_eval:
  assumes "cursor_seek (se_ldb env) (se_txn env) (iq_key q) flags (iq_it q) = Inr it"
  obtains found key val where "lq_getKey env flags q = Inr (found, q\<lparr>iq_key := key, iq_val := val, iq_it := it\<rparr>)"
proof (cases "ti_isValid it")
  case True
  then show ?thesis using assms that by (simp add: lq_getKey_def cursor_get_def)
next
  case False
  have "q\<lparr>iq_key := iq_key q, iq_val := iq_val q, iq_it := it\<rparr> = q\<lparr>iq_it := it\<rparr>" by simp
  then show ?thesis using assms that [where key = "iq_key q" and val = "iq_val q" and found = False] False by (simp add: lq_getKey_def cursor_get_def)
qed

text \<open>What a move leaves alone.\<close>

definition same :: "'it isam \<Rightarrow> 'it isam \<Rightarrow> bool" where
  "same q q' \<longleftrightarrow> iq_plan q' = iq_plan q \<and> iq_count q' = iq_count q \<and> iq_endKey q' = iq_endKey q \<and>
     iq_distinct q' = iq_distinct q \<and> iq_lastItem q' = iq_lastItem q \<and> iq_exclude q' = iq_exclude q \<and>
     iq_verify q' = iq_verify q"

lemma same_trans: "same q q' \<Longrightarrow> same q' q'' \<Longrightarrow> same q q''"
  by (simp add: same_def)

lemma moved:
  assumes sc: "scannable env db" and "cursor_seek (se_ldb env) (se_txn env) (iq_key q) flags (iq_it q) = Inr it"
    "stands (se_ldb env) db fwd (se_txn env) r it"
  shows "\<exists>q'. lq_getKey env flags q = Inr (\<exists>k. r = PKey k, q') \<and> scan_at env db fwd q' r \<and> same q q' \<and> iq_state q' = iq_state q"
proof -
  have "cursor_at (se_ldb env) db (se_txn env) r it" using assms(3) by (auto simp: cursor_at_def)
  then have c: "case r of PKey k \<Rightarrow> ti_isValid it \<and> getKey (se_ldb env) it = k \<and>
      tt_Get db k (se_txn env) = Some (getValue (se_ldb env) (se_txn env) it) | _ \<Rightarrow> \<not> ti_isValid it"
    by (rule cursor_shows [OF scannableD(1,2) [OF sc]])
  show ?thesis
    using c assms by (cases r) (simp_all add: lq_getKey_def cursor_get_def scan_at_def same_def)
qed

lemma seek_ok:
  assumes sc: "scannable env db" and q: "iq_desc q = (\<not> fwd)" "iq_state q = StateSeek" "range_wf r"
    and at: "iq_key q = [] \<or> scan_at env db fwd q (PKey (iq_key q)) \<and> range_key (\<not> fwd) r \<noteq> []"
  shows "\<exists>q' p. iq_seek env r q = Inr (\<exists>k. p = PKey k, q') \<and> scan_at env db fwd q' p \<and> iq_state q' = StateNext \<and> same q q' \<and>
    nearest fwd {x \<in> visible db (se_txn env). (iq_key q = [] \<or> dle fwd (iq_key q) x) \<and> near_ok fwd r x} p"
proof -
  let ?key = "range_key (\<not> fwd) r" and ?q = "q\<lparr>iq_state := StateNext\<rparr>"
  have key_len: "length ?key < 2 ^ 31" using q(3) by (simp add: range_wf_def range_key_def)
  have len: "iq_key q \<noteq> [] \<Longrightarrow> length (iq_key q) < 2 ^ 31" using at at_V [OF sc] scannableD(4) [OF sc] by blast
  note cmp = compareKey_kle [OF len key_len]
  have reuse: "(compareKey ?key q < 0) = (\<not> fwd) \<longleftrightarrow> near_ok fwd r (iq_key q)" if "iq_key q \<noteq> []"
    using cmp [OF that] at that by (cases fwd) (auto simp: near_ok_def range_key_def)
  show ?thesis
  proof (cases "iq_key q \<noteq> [] \<and> near_ok fwd r (iq_key q)")
    case True
    then have "iq_seek env r q = Inr (True, ?q)" using q(1,2) reuse by (simp add: iq_seek_def Let_def)
    moreover have "scan_at env db fwd ?q (PKey (iq_key q))" using True at by (simp add: scan_at_def)
    moreover have "nearest fwd {x \<in> visible db (se_txn env). (iq_key q = [] \<or> dle fwd (iq_key q) x) \<and> near_ok fwd r x} (PKey (iq_key q))"
      using True at at_V [OF sc] by (auto simp: nearest_def)
    ultimately show ?thesis by (intro exI [of _ ?q] exI [of _ "PKey (iq_key q)"]) (simp add: same_def)
  next
    case False
    have set_eq: "{x \<in> visible db (se_txn env). (iq_key q = [] \<or> dle fwd (iq_key q) x) \<and> near_ok fwd r x} = {x \<in> visible db (se_txn env). near_ok fwd r x}"
      using False near_ok_up dle_total by blast
    have fin: ?thesis
      if "lq_seekImpl env ?key (\<not> fwd) ?q = Inr (\<exists>k. p = PKey k, q')" "scan_at env db fwd q' p" "iq_state q' = StateNext" "same ?q q'"
        "nearest fwd {x \<in> visible db (se_txn env). near_ok fwd r x} p" for q' p
    proof -
      have "\<not> (iq_key q \<noteq> [] \<and> (compareKey ?key q < 0) = (\<not> fwd))" using False reuse by blast
      then have "iq_seek env r q = lq_seekImpl env ?key (\<not> fwd) ?q" using q(1,2) by (auto simp: iq_seek_def Let_def)
      then show ?thesis using that unfolding set_eq by (auto simp: same_def)
    qed
    show ?thesis
    proof (cases "?key = []")
      case empty: True
      have all: "{x \<in> visible db (se_txn env). near_ok fwd r x} = visible db (se_txn env)" using empty by (auto simp: near_ok_def range_key_def split: if_splits)
      obtain it p where "cursor_seek (se_ldb env) (se_txn env) (iq_key ?q) (if \<not> fwd then e_Last else e_First) (iq_it ?q) = Inr it"
        "stands (se_ldb env) db fwd (se_txn env) p it" "nearest fwd (visible db (se_txn env)) p"
        using ti_first_ok [OF scannableD(1,2) [OF sc]] ti_last_ok [OF scannableD(1,2) [OF sc], of "iq_it q"] by (cases fwd) (auto simp: cursor_seek_def)
      with moved [OF sc this(1,2)] show ?thesis
        using empty all fin by (auto simp: lq_seekImpl_def)
    next
      case key: False
      obtain it p where it: "ti_seek (se_ldb env) (se_txn env) ?key = Inr it" "stands (se_ldb env) db True (se_txn env) p it"
        "nearest True {x \<in> visible db (se_txn env). kle ?key x} p"
        using ti_seek_ok [OF scannableD(1,2) [OF sc]] by blast
      let ?q1 = "?q\<lparr>iq_key := ?key\<rparr>"
      have seek: "cursor_seek (se_ldb env) (se_txn env) (iq_key ?q1) e_Set (iq_it ?q1) = Inr it"
        using it(1) by (simp add: cursor_seek_def)
      show ?thesis
      proof (cases fwd)
        case True
        then have "stands (se_ldb env) db fwd (se_txn env) p it" using it(2) by simp
        from moved [OF sc seek this] obtain q' where "lq_getKey env e_Set ?q1 = Inr (\<exists>k. p = PKey k, q')" "scan_at env db fwd q' p"
          "same ?q1 q'" "iq_state q' = StateNext" by auto
        moreover have "{x \<in> visible db (se_txn env). near_ok fwd r x} = {x \<in> visible db (se_txn env). kle ?key x}" using True by (simp add: near_ok_def range_key_def)
        ultimately show ?thesis
          using key True it(3) by (intro fin [of p q']) (simp_all add: lq_seekImpl_def same_def)
      next
        case False
        obtain found k v where g: "lq_getKey env e_Set ?q1 = Inr (found, ?q1\<lparr>iq_key := k, iq_val := v, iq_it := it\<rparr>)"
          by (rule getKey_eval [OF seek])
        let ?q2 = "?q1\<lparr>iq_key := k, iq_val := v, iq_it := it\<rparr>"
        have "cursor_at (se_ldb env) db (se_txn env) p it" using it(2) by (auto simp: cursor_at_def)
        moreover have "p \<noteq> tail False" using it(3) by (auto simp: nearest_def)
        ultimately obtain it' p' where it': "ti_move False (se_ldb env) (se_txn env) it = Inr it'"
          "stands (se_ldb env) db False (se_txn env) p' it'" "nearest False {x \<in> visible db (se_txn env). behind False p x} p'"
          using ti_move_ok [OF scannableD(1,2) [OF sc]] by blast
        have "behind False p x \<longleftrightarrow> \<not> kle ?key x" if x: "x \<in> visible db (se_txn env)" for x
        proof (cases p)
          case (PKey m)
          then have "kle ?key m" "kle ?key x \<Longrightarrow> kle m x" using it(3) x by (auto simp: nearest_def dle_def)
          then show ?thesis using PKey kle_trans [of ?key m x] by (auto simp: dle_def)
        qed (use it(3) x in \<open>auto simp: nearest_def\<close>)
        then have "{x \<in> visible db (se_txn env). behind False p x} = {x \<in> visible db (se_txn env). near_ok fwd r x}"
          using False key by (auto simp: near_ok_def range_key_def)
        then have near: "nearest fwd {x \<in> visible db (se_txn env). near_ok fwd r x} p'" using it'(3) False by simp
        have "cursor_seek (se_ldb env) (se_txn env) (iq_key ?q2) e_Prev (iq_it ?q2) = Inr it'"
          "stands (se_ldb env) db fwd (se_txn env) p' it'"
          using it'(1,2) False by (simp_all add: cursor_seek_def ti_move_def)
        from moved [OF sc this] obtain q' where q': "lq_getKey env e_Prev ?q2 = Inr (\<exists>k. p' = PKey k, q')" "scan_at env db fwd q' p'"
          "same ?q2 q'" "iq_state q' = StateNext" by auto
        have "lq_seekImpl env ?key (\<not> fwd) ?q = Inr (\<exists>k. p' = PKey k, q')"
          using key False g q'(1) q(1) by (simp add: lq_seekImpl_def lq_next_def)
        then show ?thesis using fin [OF _ q'(2,4) _ near] q'(3) by (simp add: same_def)
      qed
    qed
  qed
qed

lemma next_ok:
  assumes sc: "scannable env db" and "iq_desc q = (\<not> fwd)" "iq_state q = StateNext" "scan_at env db fwd q (PKey k)"
  shows "\<exists>q' p. lq_next env q = Inr (\<exists>k. p = PKey k, q') \<and> scan_at env db fwd q' p \<and> iq_state q' = StateNext \<and> same q q' \<and>
    nearest fwd {x \<in> visible db (se_txn env). dlt fwd k x} p"
proof -
  have "cursor_at (se_ldb env) db (se_txn env) (PKey k) (iq_it q)" using assms(4) by (auto simp: scan_at_def cursor_at_def)
  then obtain it p where it: "ti_move fwd (se_ldb env) (se_txn env) (iq_it q) = Inr it"
    "stands (se_ldb env) db fwd (se_txn env) p it" "nearest fwd {x \<in> visible db (se_txn env). dlt fwd k x} p"
    using ti_move_ok [OF scannableD(1,2) [OF sc], of "PKey k" "iq_it q" fwd] by auto
  have "cursor_seek (se_ldb env) (se_txn env) (iq_key q) (if \<not> fwd then e_Prev else e_Next) (iq_it q) = Inr it"
    using it(1) by (simp add: cursor_seek_def ti_move_def split: if_splits)
  from moved [OF sc this it(2)] obtain q' where "lq_getKey env (if \<not> fwd then e_Prev else e_Next) q = Inr (\<exists>k. p = PKey k, q')"
    "scan_at env db fwd q' p" "same q q'" "iq_state q' = iq_state q" by blast
  then show ?thesis
    using it(3) assms(2,3) by (intro exI [of _ q'] exI [of _ p]) (simp add: lq_next_def)
qed

section \<open>The keys a scan finds\<close>

lemma match_far:
  assumes "iq_desc q = (\<not> fwd)" "range_wf r" "length (iq_key q) < 2 ^ 31"
  shows "iq_match r q \<longleftrightarrow> far_ok fwd r (iq_key q)"
proof -
  have "length (range_key fwd r) < 2 ^ 31" using assms(2) by (simp add: range_wf_def range_key_def)
  from compareKey_kle [OF assms(3) this] show ?thesis
    using assms(1) by (cases fwd) (auto simp: iq_match_def far_ok_def range_key_def Let_def not_less [symmetric])
qed

text \<open>
  The keys that are still to come: all of the ranges before the first key, those behind the current key
  afterwards.
\<close>

definition to_come ::
  "'it scan_env \<Rightarrow> (dbkey \<Rightarrow> byte list option) \<Rightarrow> bool \<Rightarrow> key_range list \<Rightarrow> 'it isam \<Rightarrow> dbkey set \<Rightarrow> bool" where
  "to_come env db fwd rs q rem \<longleftrightarrow>
     iq_state q = StateSeek \<and> rem = {x \<in> visible db (se_txn env). covers rs x} \<and>
       (iq_key q = [] \<or> scan_at env db fwd q (PKey (iq_key q)) \<and> (\<forall>r \<in> set rs. range_key (\<not> fwd) r \<noteq> []) \<and>
          (\<forall>x \<in> rem. dle fwd (iq_key q) x)) \<or>
     iq_state q = StateNext \<and> (\<exists>k r rs'. rs = r # rs' \<and> scan_at env db fwd q (PKey k) \<and> near_ok fwd r k \<and> far_ok fwd r k \<and>
       rem = {x \<in> visible db (se_txn env). dlt fwd k x \<and> covers rs x}) \<or>
     rs = [] \<and> rem = {}"

lemma step_ok:
  assumes sc: "scannable env db" and q: "iq_desc q = (\<not> fwd)" "in_order fwd (r # rs)"
    and rem: "to_come env db fwd (r # rs) q rem"
  shows "\<exists>q' p S. (if iq_state q = StateSeek then iq_seek env r q else lq_next env q) = Inr (\<exists>k. p = PKey k, q') \<and>
    scan_at env db fwd q' p \<and> iq_state q' = StateNext \<and> same q q' \<and> nearest fwd S p \<and>
    S \<subseteq> {x \<in> visible db (se_txn env). near_ok fwd r x} \<and> rem = {x \<in> S. covers (r # rs) x} \<and>
    (\<forall>x \<in> visible db (se_txn env). \<forall>y \<in> S. dle fwd y x \<longrightarrow> x \<in> S) \<and>
    {x \<in> visible db (se_txn env). covers rs x} \<subseteq> S"
proof -
  let ?V = "visible db (se_txn env)"
  have wf: "range_wf r" using q(2) by (simp add: in_order_Cons)
  consider (seek) "iq_state q = StateSeek" "rem = {x \<in> ?V. covers (r # rs) x}"
      "iq_key q = [] \<or> scan_at env db fwd q (PKey (iq_key q)) \<and> range_key (\<not> fwd) r \<noteq> [] \<and> (\<forall>x \<in> rem. dle fwd (iq_key q) x)"
    | (step) k where "iq_state q = StateNext" "scan_at env db fwd q (PKey k)" "near_ok fwd r k" "far_ok fwd r k"
      "rem = {x \<in> ?V. dlt fwd k x \<and> covers (r # rs) x}"
    using rem by (auto simp: to_come_def)
  then show ?thesis
  proof cases
    case seek
    let ?S = "{x \<in> ?V. (iq_key q = [] \<or> dle fwd (iq_key q) x) \<and> near_ok fwd r x}"
    obtain q' p where q': "iq_seek env r q = Inr (\<exists>k. p = PKey k, q')" "scan_at env db fwd q' p" "iq_state q' = StateNext"
      "same q q'" "nearest fwd ?S p"
      using seek_ok [OF sc q(1) seek(1) wf] seek(3) by blast
    have "near_ok fwd r x" if "covers (r # rs) x" for x
      using that later_range(2) [OF q(2)] range_near_far [of r x fwd] by (auto simp: covers_Cons)
    then have "rem \<subseteq> ?S" using seek(2,3) by auto
    moreover have "\<forall>x \<in> ?V. \<forall>y \<in> ?S. dle fwd y x \<longrightarrow> x \<in> ?S"
      using near_ok_up [of fwd r] dle_trans [of fwd] by blast
    ultimately show ?thesis
      using q' seek(1,2) by (intro exI [of _ q'] exI [of _ p] exI [of _ ?S]) (auto simp: covers_Cons)
  next
    case step
    let ?S = "{x \<in> ?V. dlt fwd k x}"
    obtain q' p where q': "lq_next env q = Inr (\<exists>k. p = PKey k, q')" "scan_at env db fwd q' p" "iq_state q' = StateNext"
      "same q q'" "nearest fwd ?S p"
      using next_ok [OF sc q(1) step(1,2)] by blast
    have "near_ok fwd r x" if "x \<in> ?S" for x
      using that near_ok_up [OF step(3)] dlt_dle by blast
    moreover have "dlt fwd k x" if "covers rs x" for x
      using later_range(1) [OF q(2) that] far_ok_down [OF step(4)] by blast
    moreover have "\<forall>x \<in> ?V. \<forall>y \<in> ?S. dle fwd y x \<longrightarrow> x \<in> ?S"
      using dle_trans [of fwd] by blast
    ultimately show ?thesis
      using q' step(1,5) by (intro exI [of _ q'] exI [of _ p] exI [of _ ?S]) auto
  qed
qed

lemma getKey_loop_ok:
  assumes sc: "scannable env db"
    and "iq_desc q = (\<not> fwd)" "in_order fwd rs" "\<not> limitEnforced q" "to_come env db fwd rs q rem"
  shows "\<exists>q'. same q q' \<and>
    (if rem = {} then getKey_loop env rs q = Inr (None, q') \<and> iq_ranges q' = []
     else \<exists>k g. getKey_loop env rs q = Inr (Some g, q') \<and> iq_key q' = k \<and> nearest fwd rem (PKey k) \<and>
       in_order fwd (iq_ranges q') \<and> to_come env db fwd (iq_ranges q') q' (rem - {k}))"
  using assms(2-5)
proof (induction rs arbitrary: q)
  case Nil
  then have "rem = {}" by (auto simp: to_come_def covers_def)
  then show ?case by (intro exI [of _ "q\<lparr>iq_ranges := []\<rparr>"]) (simp add: same_def)
next
  case (Cons r rs)
  let ?V = "visible db (se_txn env)"
  obtain q' p S where q': "(if iq_state q = StateSeek then iq_seek env r q else lq_next env q) = Inr (\<exists>k. p = PKey k, q')"
    "scan_at env db fwd q' p" "iq_state q' = StateNext" "same q q'" and S: "nearest fwd S p"
    "S \<subseteq> {x \<in> ?V. near_ok fwd r x}" "rem = {x \<in> S. covers (r # rs) x}"
    "\<And>x y. x \<in> ?V \<Longrightarrow> y \<in> S \<Longrightarrow> dle fwd y x \<Longrightarrow> x \<in> S" "{x \<in> ?V. covers rs x} \<subseteq> S"
    using step_ok [OF sc Cons.prems(1,2,4)] by blast
  have desc: "iq_desc q' = (\<not> fwd)" using q'(4) Cons.prems(1) by (simp add: same_def)
  show ?case
  proof (cases "\<exists>m. p = PKey m")
    case False
    then have "S = {}" using S(1) by (auto simp: nearest_def)
    then have "rem = {}" using S(3) by simp
    moreover have "getKey_loop env (r # rs) q = Inr (None, q'\<lparr>iq_ranges := []\<rparr>)"
      using Cons.prems(3) q'(1) False by simp
    ultimately show ?thesis using q'(4) by (intro exI [of _ "q'\<lparr>iq_ranges := []\<rparr>"]) (simp add: same_def)
  next
    case True
    then obtain m where m: "p = PKey m" by blast
    then have mS: "m \<in> S" "\<And>x. x \<in> S \<Longrightarrow> dle fwd m x" using S(1) by (auto simp: nearest_def)
    have key: "iq_key q' = m" using q'(2) m by (simp add: scan_at_def)
    have "length m < 2 ^ 31" using mS(1) S(2) scannableD(4) [OF sc] by blast
    then have match: "iq_match r q' \<longleftrightarrow> far_ok fwd r m"
      using match_far [OF desc _, of r] Cons.prems(2) key by (simp add: in_order_Cons)
    have near: "near_ok fwd r m" using mS(1) S(2) by blast
    show ?thesis
    proof (cases "far_ok fwd r m")
      case True
      then have mrem: "m \<in> rem" using mS(1) S(3) near range_near_far [of r m fwd] by (simp add: covers_Cons)
      have "rem - {m} = {x \<in> ?V. dlt fwd m x \<and> covers (r # rs) x}"
      proof
        show "rem - {m} \<subseteq> {x \<in> ?V. dlt fwd m x \<and> covers (r # rs) x}"
          using S(2,3) mS(2) dle_antisym [of fwd m] by blast
        show "{x \<in> ?V. dlt fwd m x \<and> covers (r # rs) x} \<subseteq> rem - {m}"
          using S(3) S(4) [OF _ mS(1)] dlt_dle [of fwd m] by auto
      qed
      then have "to_come env db fwd (r # rs) (q'\<lparr>iq_ranges := r # rs\<rparr>) (rem - {m})"
        using q'(2,3) m near True by (auto simp: to_come_def scan_at_def)
      moreover have "getKey_loop env (r # rs) q = Inr (Some (rgroup r), q'\<lparr>iq_ranges := r # rs\<rparr>)"
        using Cons.prems(3) q'(1) m match True by simp
      moreover have "nearest fwd rem (PKey m)" using mrem mS(2) S(3) by (auto simp: nearest_def)
      ultimately show ?thesis
        using mrem q'(4) Cons.prems(2) key
        by (intro exI [of _ "q'\<lparr>iq_ranges := r # rs\<rparr>"]) (auto simp: same_def)
    next
      case False
      let ?q = "q'\<lparr>iq_state := StateSeek\<rparr>"
      have rem: "rem = {x \<in> ?V. covers rs x}"
      proof
        show "rem \<subseteq> {x \<in> ?V. covers rs x}"
          using S(2,3) mS(2) False far_ok_down range_near_far by (auto simp: covers_Cons) blast+
        show "{x \<in> ?V. covers rs x} \<subseteq> rem" using S(3,5) by (auto simp: covers_Cons)
      qed
      have "range_key (\<not> fwd) r' \<noteq> []" if "r' \<in> set rs" for r'
        using Cons.prems(2) that by (auto simp: in_order_Cons range_before_def range_key_def split: if_splits)
      then have "to_come env db fwd rs ?q rem"
        using q'(2) m key rem mS(2) S(5) by (auto simp: to_come_def scan_at_def)
      moreover have "iq_desc ?q = (\<not> fwd)" "in_order fwd rs" "\<not> limitEnforced ?q"
        using desc Cons.prems(2,3) q'(4) by (simp_all add: in_order_Cons limitEnforced_def same_def)
      ultimately obtain q'' where q'': "same ?q q''" "if rem = {} then getKey_loop env rs ?q = Inr (None, q'') \<and> iq_ranges q'' = []
        else \<exists>k g. getKey_loop env rs ?q = Inr (Some g, q'') \<and> iq_key q'' = k \<and> nearest fwd rem (PKey k) \<and>
          in_order fwd (iq_ranges q'') \<and> to_come env db fwd (iq_ranges q'') q'' (rem - {k})"
        using Cons.IH [of ?q] by blast
      have code: "getKey_loop env (r # rs) q = getKey_loop env rs ?q"
        using Cons.prems(3) q'(1) m match False by simp
      have "same q q''" using q'(4) q''(1) by (simp add: same_def)
      then show ?thesis unfolding code using q''(2) by blast
    qed
  qed
qed

section \<open>The items a scan returns\<close>

text \<open>The entry of an index key: the id that is parsed out of it, and the object under that id.\<close>

definition key_id :: "plan \<Rightarrow> dbkey \<Rightarrow> obj" where
  "key_id plan k = (case parse_key (p_idPropIndex plan) k of Inr oid \<Rightarrow> oid | Inl _ \<Rightarrow> OUndefined)"

definition key_item :: "(dbkey \<Rightarrow> byte list option) \<Rightarrow> plan \<Rightarrow> dbkey \<Rightarrow> scan_item" where
  "key_item get plan k = StoredItem (key_id plan k) (the (get (enc (key_id plan k))))"

definition present :: "(dbkey \<Rightarrow> byte list option) \<Rightarrow> plan \<Rightarrow> dbkey \<Rightarrow> bool" where
  "present get plan k \<longleftrightarrow> get (enc (key_id plan k)) \<noteq> None"

definition scan_inv ::
  "'it scan_env \<Rightarrow> (dbkey \<Rightarrow> byte list option) \<Rightarrow> bool \<Rightarrow> plan \<Rightarrow> 'it isam \<Rightarrow> dbkey set \<Rightarrow> bool" where
  "scan_inv env db fwd plan q rem \<longleftrightarrow> iq_plan q = plan \<and> iq_desc q = (\<not> fwd) \<and> in_order fwd (iq_ranges q) \<and>
     to_come env db fwd (iq_ranges q) q rem \<and> finite rem \<and> iq_distinct q = [] \<and> iq_exclude q = [] \<and> \<not> iq_verify q \<and>
     (\<forall>k \<in> rem. \<exists>oid. parse_key (p_idPropIndex plan) k = Inr oid)"

lemma to_come_count: "to_come env db fwd rs (incrementCount q) rem \<longleftrightarrow> to_come env db fwd rs q rem"
  by (simp add: to_come_def scan_at_def incrementCount_def saveEndKey_def Let_def split: pos.split)

lemma incrementCount_simps [simp]:
  "iq_plan (incrementCount q) = iq_plan q" "iq_ranges (incrementCount q) = iq_ranges q" "iq_count (incrementCount q) = iq_count q + 1"
  "iq_distinct (incrementCount q) = iq_distinct q" "iq_exclude (incrementCount q) = iq_exclude q"
  "iq_verify (incrementCount q) = iq_verify q" "iq_key (incrementCount q) = iq_key q"
  by (simp_all add: incrementCount_def saveEndKey_def Let_def)

text \<open>The key at which the next page starts if the limit is reached at a key.\<close>

definition page_after :: "bool \<Rightarrow> dbkey \<Rightarrow> dbkey" where
  "page_after desc k = (if desc then k else key_increment k)"

definition uncounted :: "'it isam \<Rightarrow> 'it isam \<Rightarrow> bool" where
  "uncounted q q' \<longleftrightarrow> iq_count q' = iq_count q \<and> iq_endKey q' = iq_endKey q"

definition counted :: "bool \<Rightarrow> 'it isam \<Rightarrow> dbkey \<Rightarrow> 'it isam \<Rightarrow> bool" where
  "counted fwd q k q' \<longleftrightarrow> iq_count q' = iq_count q + 1 \<and>
     iq_endKey q' = (if limitEnforced q' then page_after (\<not> fwd) k else iq_endKey q)"

lemma limitEnforced_endKey: "limitEnforced (q\<lparr>iq_endKey := x\<rparr>) = limitEnforced q"
  by (simp add: limitEnforced_def)

lemma incrementCount_counted:
  assumes "iq_desc q = (\<not> fwd)"
  shows "counted fwd q (iq_key q) (incrementCount q)"
  using assms by (auto simp: counted_def page_after_def incrementCount_def saveEndKey_def Let_def limitEnforced_endKey)

lemma counted_uncounted: "uncounted q q' \<Longrightarrow> counted fwd q' = counted fwd q"
  by (simp add: counted_def uncounted_def fun_eq_iff)

lemma getImpl_ok:
  assumes sc: "scannable env db" and pri: "se_primary env = Some get" and inv: "scan_inv env db fwd plan q rem"
    and lim: "\<not> limitEnforced q"
  shows "\<exists>q'. (if rem = {} then iq_getImpl env True q = Inr (Got False None, q') \<and> scan_inv env db fwd plan q' {} \<and> uncounted q q'
    else \<exists>k. nearest fwd rem (PKey k) \<and> scan_inv env db fwd plan q' (rem - {k}) \<and>
      (if present get plan k
       then iq_getImpl env True q = Inr (Got True (Some (key_item get plan k)), q') \<and> counted fwd q k q'
       else iq_getImpl env True q = Inr (Missing, q') \<and> uncounted q q'))"
proof -
  have i: "iq_plan q = plan" "iq_desc q = (\<not> fwd)" "in_order fwd (iq_ranges q)" "to_come env db fwd (iq_ranges q) q rem"
    "finite rem" "iq_distinct q = []" "iq_exclude q = []" "\<not> iq_verify q"
    "\<And>k. k \<in> rem \<Longrightarrow> \<exists>oid. parse_key (p_idPropIndex plan) k = Inr oid"
    using inv by (auto simp: scan_inv_def)
  obtain q' where q': "same q q'" and loop: "if rem = {} then getKey_loop env (iq_ranges q) q = Inr (None, q') \<and> iq_ranges q' = []
     else \<exists>k g. getKey_loop env (iq_ranges q) q = Inr (Some g, q') \<and> iq_key q' = k \<and> nearest fwd rem (PKey k) \<and>
       in_order fwd (iq_ranges q') \<and> to_come env db fwd (iq_ranges q') q' (rem - {k})"
    using getKey_loop_ok [OF sc i(2,3) lim i(4)] by blast
  have keep: "iq_plan q' = plan" "iq_desc q' = (\<not> fwd)" "iq_distinct q' = []" "iq_exclude q' = []" "\<not> iq_verify q'"
    "uncounted q q'"
    using q' i by (simp_all add: same_def uncounted_def)
  show ?thesis
  proof (cases "rem = {}")
    case True
    then have "getKey_loop env (iq_ranges q) q = Inr (None, q')" "iq_ranges q' = []" using loop by simp_all
    moreover have "scan_inv env db fwd plan q' {}"
      using keep calculation(2) by (simp add: scan_inv_def in_order_def to_come_def)
    ultimately show ?thesis using True keep(6) by (intro exI [of _ q']) (simp add: iq_getImpl_def iq_getKey_def)
  next
    case False
    then obtain k g where k: "getKey_loop env (iq_ranges q) q = Inr (Some g, q')" "iq_key q' = k" "nearest fwd rem (PKey k)"
      "in_order fwd (iq_ranges q')" "to_come env db fwd (iq_ranges q') q' (rem - {k})"
      using loop by auto
    then have "k \<in> rem" by (auto simp: nearest_def)
    then obtain oid where oid: "parse_key (p_idPropIndex plan) k = Inr oid" using i(9) by blast
    then have kid: "key_id plan k = oid" by (simp add: key_id_def)
    have inv': "scan_inv env db fwd plan q' (rem - {k})"
      using keep k(4,5) i(5,9) by (auto simp: scan_inv_def)
    have val: "lq_getVal env q' = Inr (if present get plan k then Got True (Some (key_item get plan k)) else Missing)"
      using oid kid k(2) keep pri
      by (auto simp: lq_getVal_def iq_parseId_def lq_getById_def item_fromObject_def toBytes_enc checkExclude_def
          present_def key_item_def Let_def split: option.splits)
    show ?thesis
    proof (cases "present get plan k")
      case True
      have "scan_inv env db fwd plan (incrementCount q') (rem - {k})"
        using inv' by (auto simp: scan_inv_def to_come_count)
      moreover have "iq_getImpl env True q = Inr (Got True (Some (key_item get plan k)), incrementCount q')"
        using True k(1) val keep(3) by (simp add: iq_getImpl_def iq_getKey_def)
      ultimately show ?thesis
        using False k(2,3) True incrementCount_counted [OF keep(2)] counted_uncounted [OF keep(6)]
        by (intro exI [of _ "incrementCount q'"]) auto
    next
      case missing: False
      have "iq_getImpl env True q = Inr (Missing, q')"
        using missing k(1) val by (simp add: iq_getImpl_def iq_getKey_def)
      then show ?thesis using False k(3) missing inv' keep(6) by (intro exI [of _ q']) auto
    qed
  qed
qed

lemma getImpl_limit:
  assumes "limitEnforced q"
  shows "\<exists>q'. iq_getImpl env True q = Inr (Got False None, q') \<and> nextPage q' = nextPage q \<and> limitEnforced q'"
  using assms by (cases "iq_ranges q") (auto simp: iq_getImpl_def iq_getKey_def nextPage_def limitEnforced_def)

text \<open>One \<open>get\<close> passes over the keys whose object is missing.\<close>

lemma iq_get_ok:
  assumes sc: "scannable env db" and pri: "se_primary env = Some get"
    and "scan_inv env db fwd plan q rem" "\<not> limitEnforced q"
  shows "\<exists>q'. if {k \<in> rem. present get plan k} = {} then iq_get env q = Some (Inr (Got False None, q')) \<and> \<not> limitEnforced q'
    else \<exists>k rem'. iq_get env q = Some (Inr (Got True (Some (key_item get plan k)), q')) \<and>
      nearest fwd {k \<in> rem. present get plan k} (PKey k) \<and> counted fwd q k q' \<and>
      scan_inv env db fwd plan q' rem' \<and> {k \<in> rem'. present get plan k} = {k \<in> rem. present get plan k} - {k}"
  using assms(3,4)
proof (induction "card rem" arbitrary: q rem rule: less_induct)
  case less
  have fin: "finite rem" using less.prems(1) by (simp add: scan_inv_def)
  obtain q' where q': "if rem = {} then iq_getImpl env True q = Inr (Got False None, q') \<and> scan_inv env db fwd plan q' {} \<and> uncounted q q'
    else \<exists>k. nearest fwd rem (PKey k) \<and> scan_inv env db fwd plan q' (rem - {k}) \<and>
      (if present get plan k
       then iq_getImpl env True q = Inr (Got True (Some (key_item get plan k)), q') \<and> counted fwd q k q'
       else iq_getImpl env True q = Inr (Missing, q') \<and> uncounted q q')"
    using getImpl_ok [OF sc pri less.prems] by blast
  show ?case
  proof (cases "rem = {}")
    case True
    then have "iq_get env q = Some (Inr (Got False None, q'))" using q' by (subst iq_get.simps) simp
    moreover have "\<not> limitEnforced q'"
      using True q' less.prems by (simp add: limitEnforced_def scan_inv_def uncounted_def)
    ultimately show ?thesis using True by (intro exI [of _ q']) simp
  next
    case False
    then obtain k where k: "nearest fwd rem (PKey k)" "scan_inv env db fwd plan q' (rem - {k})"
      "if present get plan k
       then iq_getImpl env True q = Inr (Got True (Some (key_item get plan k)), q') \<and> counted fwd q k q'
       else iq_getImpl env True q = Inr (Missing, q') \<and> uncounted q q'"
      using q' by auto
    then have kr: "k \<in> rem" "\<And>x. x \<in> rem \<Longrightarrow> dle fwd k x" by (auto simp: nearest_def)
    show ?thesis
    proof (cases "present get plan k")
      case True
      then have "iq_get env q = Some (Inr (Got True (Some (key_item get plan k)), q'))"
        using k(3) by (subst iq_get.simps) simp
      moreover have "counted fwd q k q'" using k(3) True by simp
      moreover have "nearest fwd {k \<in> rem. present get plan k} (PKey k)" using kr True by (auto simp: nearest_def)
      moreover have "{x \<in> rem - {k}. present get plan x} = {x \<in> rem. present get plan x} - {k}" by blast
      ultimately show ?thesis using k(2) kr(1) True by (intro exI [of _ q']) auto
    next
      case missing: False
      have step: "iq_get env q = iq_get env q'"
        using missing k(2,3) by (subst iq_get.simps) (simp add: scan_inv_def)
      have "card (rem - {k}) < card rem" using fin kr(1) by (rule card_Diff1_less)
      moreover have "\<not> limitEnforced q'"
        using missing k(2,3) less.prems by (simp add: limitEnforced_def scan_inv_def uncounted_def)
      moreover have eq: "{x \<in> rem - {k}. present get plan x} = {x \<in> rem. present get plan x}" using missing by blast
      moreover have cnt: "counted fwd q' = counted fwd q" using k(3) missing by (simp add: counted_uncounted)
      ultimately show ?thesis
        using less.hyps [OF _ k(2)] unfolding step eq cnt by (simp only: if_True simp_thms)
    qed
  qed
qed

text \<open>A client that asks for \<open>n\<close> items, and stops when none is left. The query is left for the next page.\<close>

fun scan_items :: "'it scan_env \<Rightarrow> nat \<Rightarrow> 'it isam \<Rightarrow> (scan_item list \<times> 'it isam) res option" where
  "scan_items env 0 q = Some (Inr ([], q))"
| "scan_items env (Suc n) q =
     (case iq_get env q of
        None \<Rightarrow> None
      | Some (Inl e) \<Rightarrow> Some (Inl e)
      | Some (Inr (Got True (Some i), q')) \<Rightarrow>
          (case scan_items env n q' of Some (Inr (items, q'')) \<Rightarrow> Some (Inr (i # items, q'')) | r \<Rightarrow> r)
      | Some (Inr (_, q')) \<Rightarrow> Some (Inr ([], q')))"

lemma nearest_list:
  assumes "sorted_wrt (dlt fwd) xs" "nearest fwd (set xs) (PKey k)"
  shows "\<exists>ys. xs = k # ys \<and> sorted_wrt (dlt fwd) ys \<and> set ys = set xs - {k}"
proof (cases xs)
  case (Cons x ys)
  then have "dle fwd k x" "k = x \<or> dlt fwd x k" using assms by (auto simp: nearest_def)
  then have "x = k" by blast
  then show ?thesis using Cons assms(1) by (auto simp: dle_def)
qed (use assms(2) in \<open>simp add: nearest_def\<close>)

lemma sorted_exists: "finite S \<Longrightarrow> \<exists>xs. sorted_wrt (dlt fwd) xs \<and> set xs = S"
proof (induction "card S" arbitrary: S)
  case (Suc n)
  have "S \<noteq> {}" using Suc.hyps(2) by auto
  with Suc.prems have "\<exists>m \<in> S. \<forall>x \<in> S. dle fwd m x"
  proof (induction S rule: finite_ne_induct)
    case (insert a F)
    then obtain m where "m \<in> F" "\<forall>x \<in> F. dle fwd m x" by auto
    then show ?case using dle_total [of fwd a m] dle_trans [of fwd a m] by auto
  qed auto
  then obtain m where m: "m \<in> S" "\<And>x. x \<in> S \<Longrightarrow> dle fwd m x" by blast
  then have "n = card (S - {m})" using Suc.hyps(2) Suc.prems by simp
  then obtain xs where "sorted_wrt (dlt fwd) xs" "set xs = S - {m}"
    using Suc.hyps(1) [of "S - {m}"] Suc.prems by auto
  then show ?case using m dle_antisym [of fwd] by (intro exI [of _ "m # xs"]) auto
qed simp

text \<open>What is left of a list of keys for the query, and the page behind what it returned.\<close>

definition page_of :: "bool \<Rightarrow> nat \<Rightarrow> dbkey list \<Rightarrow> dbkey \<Rightarrow> dbkey" where
  "page_of desc m ks start = (if length ks < m then [] else if m = 0 then start else page_after desc (ks ! (m - 1)))"

lemma page_of_Cons:
  "page_of desc (Suc m) (k # ks) start = page_of desc m ks (page_after desc k)"
  by (simp add: page_of_def nth_Cons split: nat.split)

lemma scan_items_ok:
  assumes sc: "scannable env db" and pri: "se_primary env = Some get"
    and "scan_inv env db fwd plan q rem" "sorted_wrt (dlt fwd) xs" "set xs = {k \<in> rem. present get plan k}"
    "iq_count q \<le> q_limit (p_query plan)" "m = unat (q_limit (p_query plan)) - unat (iq_count q)"
  shows "\<exists>q'. scan_items env n q = Some (Inr (map (key_item get plan) (take n (take m xs)), q')) \<and>
    (m \<le> n \<longrightarrow> nextPage q' = page_of (\<not> fwd) m xs (iq_endKey q))"
  using assms(3-7)
proof (induction n arbitrary: q rem xs m)
  case 0
  then have "limitEnforced q \<longleftrightarrow> m = 0"
    by (simp add: limitEnforced_def scan_inv_def word_le_nat_alt)
  then show ?case by (simp add: nextPage_def page_of_def)
next
  case (Suc n)
  have plan: "iq_plan q = plan" using Suc.prems(1) by (simp add: scan_inv_def)
  show ?case
  proof (cases "limitEnforced q")
    case True
    then have "m = 0"
      using plan Suc.prems(5) by (simp add: limitEnforced_def word_le_nat_alt)
    moreover obtain q' where q': "iq_getImpl env True q = Inr (Got False None, q')" "nextPage q' = nextPage q"
      using getImpl_limit [OF True] by blast
    then have "iq_get env q = Some (Inr (Got False None, q'))" by (subst iq_get.simps) simp
    ultimately show ?thesis using q'(2) True by (simp add: nextPage_def page_of_def)
  next
    case False
    then have m: "m \<noteq> 0" using plan Suc.prems(4,5) by (simp add: limitEnforced_def word_le_nat_alt)
    obtain q' where q': "if {k \<in> rem. present get plan k} = {} then iq_get env q = Some (Inr (Got False None, q')) \<and> \<not> limitEnforced q'
      else \<exists>k rem'. iq_get env q = Some (Inr (Got True (Some (key_item get plan k)), q')) \<and>
        nearest fwd {k \<in> rem. present get plan k} (PKey k) \<and> counted fwd q k q' \<and>
        scan_inv env db fwd plan q' rem' \<and> {k \<in> rem'. present get plan k} = {k \<in> rem. present get plan k} - {k}"
      using iq_get_ok [OF sc pri Suc.prems(1) False] by blast
    show ?thesis
    proof (cases "xs = []")
      case True
      then show ?thesis using q' Suc.prems(3) m by (simp add: nextPage_def page_of_def)
    next
      case xs: False
      then obtain k rem' where k: "iq_get env q = Some (Inr (Got True (Some (key_item get plan k)), q'))"
        "nearest fwd (set xs) (PKey k)" "counted fwd q k q'" "scan_inv env db fwd plan q' rem'"
        "{k \<in> rem'. present get plan k} = set xs - {k}"
        using q' unfolding Suc.prems(3) [symmetric] by auto
      obtain ys where ys: "xs = k # ys" "sorted_wrt (dlt fwd) ys" "set ys = set xs - {k}"
        using nearest_list [OF Suc.prems(2) k(2)] by blast
      have lt: "iq_count q < q_limit (p_query plan)" using False plan by (simp add: limitEnforced_def)
      then have c: "unat (iq_count q') = unat (iq_count q) + 1"
        using k(3) unsigned_less [of "q_limit (p_query plan)", where 'a = nat]
        by (simp add: unat_word_ariths word_less_nat_alt counted_def)
      then have le: "iq_count q' \<le> q_limit (p_query plan)" using lt by (simp add: word_le_nat_alt word_less_nat_alt)
      obtain m' where m': "m = Suc m'" using m not0_implies_Suc by blast
      then have "m' = unat (q_limit (p_query plan)) - unat (iq_count q')" using c Suc.prems(5) by simp
      from Suc.IH [OF k(4) ys(2) _ le this] obtain q'' where
        q'': "scan_items env n q' = Some (Inr (map (key_item get plan) (take n (take m' ys)), q''))"
          "m' \<le> n \<longrightarrow> nextPage q'' = page_of (\<not> fwd) m' ys (iq_endKey q')"
        using ys(3) k(5) by auto
      have "page_of (\<not> fwd) m' ys (iq_endKey q') = page_of (\<not> fwd) m xs (iq_endKey q)"
      proof (cases "m' = 0")
        case True
        then have "limitEnforced q'"
          using k(4) c lt m' Suc.prems(5) by (simp add: limitEnforced_def scan_inv_def word_le_nat_alt word_less_nat_alt)
        then have "iq_endKey q' = page_after (\<not> fwd) k" using k(3) by (simp add: counted_def)
        then show ?thesis by (simp add: m' ys(1) page_of_Cons)
      qed (simp add: m' ys(1) page_of_Cons page_of_def)
      then show ?thesis using k(1) q'' by (simp add: ys(1) m')
    qed
  qed
qed

lemma scan_ok:
  assumes "scannable env db" "se_primary env = Some get" "q_distinct (p_query plan) = []"
    "in_order (\<not> q_desc (p_query plan)) (p_ranges plan)" "finite {k. tt_Get db k (se_txn env) \<noteq> None}"
    "\<forall>k. tt_Get db k (se_txn env) \<noteq> None \<and> covers (p_ranges plan) k \<longrightarrow>
       (\<exists>oid. parse_key (p_idPropIndex plan) k = Inr oid)"
  shows "\<exists>q ks. level_query_open env plan = Inr q \<and> sorted_wrt (dlt (\<not> q_desc (p_query plan))) ks \<and>
    set ks = {k. tt_Get db k (se_txn env) \<noteq> None \<and> covers (p_ranges plan) k \<and> get (enc (key_id plan k)) \<noteq> None} \<and>
    (\<forall>n. \<exists>q'. scan_items env n q = Some (Inr (map (key_item get plan) (take n (take (unat (q_limit (p_query plan))) ks)), q')) \<and>
       (unat (q_limit (p_query plan)) \<le> n \<longrightarrow>
          nextPage q' = page_of (q_desc (p_query plan)) (unat (q_limit (p_query plan))) ks []))"
proof -
  let ?V = "visible db (se_txn env)" and ?fwd = "\<not> q_desc (p_query plan)"
  let ?rem = "{k \<in> ?V. covers (p_ranges plan) k}"
  have V: "{k. tt_Get db k (se_txn env) \<noteq> None} = ?V" using visible_iff [OF scannableD(2) [OF assms(1)]] by blast
  obtain it where "cursor_open (se_ldb env) (se_txn env) = Inr it"
    using ti_first_ok [OF scannableD(1,2) [OF assms(1)]] by (auto simp: cursor_open_def)
  then have q: "level_query_open env plan = Inr (isam_open plan it)" by (simp add: level_query_open_def)
  have "to_come env db ?fwd (p_ranges plan) (isam_open plan it) ?rem" by (simp add: to_come_def isam_open_def)
  moreover have "\<forall>k \<in> ?rem. \<exists>oid. parse_key (p_idPropIndex plan) k = Inr oid" "finite ?rem"
    using assms(5,6) V visible_iff [OF scannableD(2) [OF assms(1)], of _ db] by simp_all
  ultimately have inv: "scan_inv env db ?fwd plan (isam_open plan it) ?rem"
    using assms(3,4) by (simp add: scan_inv_def isam_open_def)
  have "finite {k \<in> ?rem. present get plan k}" using assms(5) V by simp
  then obtain ks where ks: "sorted_wrt (dlt ?fwd) ks" "set ks = {k \<in> ?rem. present get plan k}"
    using sorted_exists by blast
  have count: "iq_count (isam_open plan it) = 0" "iq_endKey (isam_open plan it) = []" by (simp_all add: isam_open_def)
  have "\<exists>q'. scan_items env n (isam_open plan it) =
      Some (Inr (map (key_item get plan) (take n (take (unat (q_limit (p_query plan))) ks)), q')) \<and>
      (unat (q_limit (p_query plan)) \<le> n \<longrightarrow> nextPage q' = page_of (\<not> ?fwd) (unat (q_limit (p_query plan))) ks [])" for n
    using scan_items_ok [OF assms(1,2) inv ks, of _ n] by (simp add: count)
  moreover have "set ks = {k. tt_Get db k (se_txn env) \<noteq> None \<and> covers (p_ranges plan) k \<and> get (enc (key_id plan k)) \<noteq> None}"
    using ks(2) V by (auto simp: present_def)
  ultimately show ?thesis using q ks(1) by (intro exI [of _ "isam_open plan it"] exI [of _ ks]) simp
qed

text \<open>
  C5. A query returns what its plan covers: opened on an index, the scan hands out the objects of the keys that the
  transaction shows in the ranges of the plan, in the order of the keys (backwards for a descending query), as
  many as asked for and at most the limit; a key whose object is missing from the primary database is passed over. The
  ranges have to follow each other in the direction of the query. If the limit was reached, the next page
  starts behind the last key.
\<close>

theorem scan_complete:
  assumes "scannable env db" "se_primary env = Some get" "q_distinct (p_query plan) = []"
    "in_order (\<not> q_desc (p_query plan)) (p_ranges plan)" "finite {k. tt_Get db k (se_txn env) \<noteq> None}"
    "\<forall>k. tt_Get db k (se_txn env) \<noteq> None \<and> covers (p_ranges plan) k \<longrightarrow>
       (\<exists>oid. parse_key (p_idPropIndex plan) k = Inr oid)"
  shows "\<exists>q ks. level_query_open env plan = Inr q \<and> sorted_wrt (dlt (\<not> q_desc (p_query plan))) ks \<and>
    set ks = {k. tt_Get db k (se_txn env) \<noteq> None \<and> covers (p_ranges plan) k \<and> get (enc (key_id plan k)) \<noteq> None} \<and>
    (\<forall>n. \<exists>q'. scan_items env n q = Some (Inr (map (key_item get plan) (take n (take (unat (q_limit (p_query plan))) ks)), q')) \<and>
       (unat (q_limit (p_query plan)) \<le> n \<longrightarrow>
          nextPage q' = page_of (q_desc (p_query plan)) (unat (q_limit (p_query plan))) ks []))"
  by (rule scan_ok) fact+

text \<open>The id is found in the keys that an index stores.\<close>

lemma run_eater: "run (\<lambda>_ _. Inr ()) () es = Inr ()"
  by (induction es) simp_all

lemma eat_objects_enc: "list_all wf_obj vs \<Longrightarrow>
    eat_objects (length vs) (rd_at None [] (concat (map enc vs) @ r)) = Inr (rd_at None [] r)"
proof (induction vs)
  case (Cons v vs)
  then show ?case by (simp add: nextObject_enc run_eater)
qed simp

lemma parse_key_vals:
  assumes "list_all ser_ok (vs @ [oid])"
  shows "parse_key (length vs) (vals_key (vs @ oid # ws)) = Inr oid"
proof -
  have "list_all wf_obj vs" "wf_obj oid" "no_undef oid" using assms by (auto simp: ser_ok_def list_all_iff)
  then show ?thesis
    using eat_objects_enc [of vs "enc oid @ concat (map enc ws)"] builder_run [of oid]
    by (auto simp: parse_key_def vals_key_def reader_init_def nextObject_enc undef_to_null_id rbind_Inr_iff)
qed

definition scan_env_ex :: "dbkey option scan_env" where
  "scan_env_ex = \<lparr>se_ldb = list_ldb db_ex, se_txn = table_ex, se_primary = Some (\<lambda>_. Some []),
     se_kindId = (\<lambda>_ _. Inr []), se_toObject = (\<lambda>_ _. Inr ONull)\<rparr>"

definition scan_plan_ex :: plan where
  "scan_plan_ex = (plan_ex False)\<lparr>p_query := query_new, p_idPropIndex := 0,
     p_ranges := [\<lparr>lowerKey = [1], upperKey = [2], rgroup = 0\<rparr>]\<rparr>"

theorem scan_complete_witness:
  "\<exists>q ks. level_query_open scan_env_ex scan_plan_ex = Inr q \<and>
    sorted_wrt (dlt (\<not> q_desc (p_query scan_plan_ex))) ks \<and>
    set ks = {k. tt_Get (\<lambda>k. map_get bcmp k db_ex) k (se_txn scan_env_ex) \<noteq> None \<and> covers (p_ranges scan_plan_ex) k \<and>
      (\<lambda>_. Some []) (enc (key_id scan_plan_ex k)) \<noteq> (None :: byte list option)} \<and>
    (\<forall>n. \<exists>q'. scan_items scan_env_ex n q =
      Some (Inr (map (key_item (\<lambda>_. Some []) scan_plan_ex) (take n (take (unat (q_limit (p_query scan_plan_ex))) ks)), q')) \<and>
      (unat (q_limit (p_query scan_plan_ex)) \<le> n \<longrightarrow>
         nextPage q' = page_of (q_desc (p_query scan_plan_ex)) (unat (q_limit (p_query scan_plan_ex))) ks []))"
proof (rule scan_complete)
  have view: "tt_Get (\<lambda>k. map_get bcmp k db_ex) k table_ex \<noteq> None \<longleftrightarrow> k \<in> {[1], [2], [4]}" for k
    by (auto simp: tt_Get_def table_ex_def db_ex_def isDeleted_iff)
  show "scannable scan_env_ex (\<lambda>k. map_get bcmp k db_ex)"
    using iter_ex_stands(1,2) view by (auto simp: scannable_def scan_env_ex_def)
  show "se_primary scan_env_ex = Some (\<lambda>_. Some [])" by (simp add: scan_env_ex_def)
  show "q_distinct (p_query scan_plan_ex) = []" by (simp add: scan_plan_ex_def query_new_def query_init_def)
  show "in_order (\<not> q_desc (p_query scan_plan_ex)) (p_ranges scan_plan_ex)"
    by (simp add: scan_plan_ex_def in_order_def range_wf_def kle_Cons)
  show "finite {k. tt_Get (\<lambda>k. map_get bcmp k db_ex) k (se_txn scan_env_ex) \<noteq> None}"
    using view by (simp add: scan_env_ex_def)
  show "\<forall>k. tt_Get (\<lambda>k. map_get bcmp k db_ex) k (se_txn scan_env_ex) \<noteq> None \<and> covers (p_ranges scan_plan_ex) k \<longrightarrow>
      (\<exists>oid. parse_key (p_idPropIndex scan_plan_ex) k = Inr oid)"
  proof (intro allI impI)
    fix k assume k: "tt_Get (\<lambda>k. map_get bcmp k db_ex) k (se_txn scan_env_ex) \<noteq> None \<and> covers (p_ranges scan_plan_ex) k"
    have "se_txn scan_env_ex = table_ex" by (simp add: scan_env_ex_def)
    then have "k \<in> {[1], [2], [4]}" using k view by simp
    moreover have "covers (p_ranges scan_plan_ex) k" using k by blast
    ultimately have "k = [1]" by (auto simp: scan_plan_ex_def covers_def range_contains_kle kle_Cons)
    moreover have "parse_key 0 (vals_key ([] @ ONull # [])) = Inr ONull"
      using parse_key_vals [of "[]" ONull "[]"] by (simp add: ser_ok_def)
    ultimately show "\<exists>oid. parse_key (p_idPropIndex scan_plan_ex) k = Inr oid"
      by (simp add: scan_plan_ex_def vals_key_def marker_defs)
  qed
qed

section \<open>What goes wrong\<close>

text \<open>
  An object of an excluded kind is not returned, but it counts: it uses up the limit, although the comment of
  \<^verbatim>\<open>getKey\<close> says that the count depends on whether the item can be returned.
\<close>

lemma excluded_counts:
  assumes "iq_getKey env q = Inr (Some g, q')" "lq_getVal env q' = Inr (Got True None)"
  shows "iq_getImpl env True q = Inr (Got True None, incrementCount q')"
  using assms by (simp add: iq_getImpl_def)

text \<open>A query on the primary database itself, without an index, reports that it has found nothing.\<close>

lemma primary_scan_finds_nothing:
  assumes "se_primary env = None" "iq_getImpl env True q = Inr (got, q')"
  shows "\<exists>item. got = Got False item"
  using assms
  by (auto simp: iq_getImpl_def lq_getVal_def lq_getById_def rbind_Inr_iff Let_def split: if_splits)

end
