(* ===== verification/DbFind.thy ===== *)
theory DbFind
  imports DbScan
begin

text \<open>
  Finding, end to end: the plan of a query, the scan of the index along the plan, and the pages a client
  walks through. The ranges of a plan come in the order in which they are scanned, so that a scan
  hands out the objects that the query selects, each combination of their values once, in the order of the
  keys; and asking page by page gives the same as asking once without a limit.
\<close>

section \<open>The ranges of a plan are in order\<close>

abbreviation short :: "dbkey \<Rightarrow> bool" where
  "short k \<equiv> length k < 2 ^ 31"

lemma length_increment: "length (key_increment k) \<le> length k"
  by (induction k rule: rev_induct) (auto simp: increment_snoc)

lemma short_increment: "short k \<Longrightarrow> short (key_increment k)"
  using length_increment [of k] by linarith

text \<open>Ranges that follow each other, none of them reaching beyond a key.\<close>

definition ordered :: "dbkey \<Rightarrow> key_range list \<Rightarrow> bool" where
  "ordered b rs \<longleftrightarrow> in_order True rs \<and> (\<forall>r \<in> set rs. upperKey r \<noteq> [] \<and> kle (lowerKey r) b \<and> kle (upperKey r) b)"

lemma ordered_mono: "ordered b rs \<Longrightarrow> kle b b' \<Longrightarrow> ordered b' rs"
  unfolding ordered_def using kle_trans by blast

lemma ordered_snoc:
  assumes "ordered b rs" "upperKey r \<noteq> []" "kle b (lowerKey r)" "kle b (upperKey r)" "kle (lowerKey r) b'" "kle (upperKey r) b'"
    "range_wf r"
  shows "ordered b' (rs @ [r])"
proof -
  have "range_before s r" if "s \<in> set rs" for s
    using assms that kle_trans by (auto simp: ordered_def range_before_def)
  moreover have "ordered b' rs" using ordered_mono [OF assms(1)] assms(3,5) kle_trans by blast
  ultimately show ?thesis using assms by (simp add: ordered_def in_order_def sorted_wrt_append)
qed

lemma addRange_ordered:
  assumes o: "ordered b (p_ranges p)" and u: "u \<noteq> []" "kle b l" "kle b u" "kle l b'" "kle u b'"
    and len: "short l" "short u" "short (q_page (p_query p))"
  shows "ordered b' (p_ranges (addRange l u g p))"
proof -
  let ?r = "\<lparr>lowerKey = l, upperKey = u, rgroup = g\<rparr>" and ?page = "q_page (p_query p)"
  have stay: "ordered b' (p_ranges p)" using ordered_mono [OF o] u kle_trans by blast
  define push where "push r = (if p_ranges p \<noteq> [] \<and> range_contains_range (last (p_ranges p)) r then p
                       else p\<lparr>p_ranges := p_ranges p @ [r]\<rparr>)" for r
  have push: "ordered b' (p_ranges (push r))"
    if "upperKey r \<noteq> []" "kle b (lowerKey r)" "kle b (upperKey r)" "kle (lowerKey r) b'" "kle (upperKey r) b'" "range_wf r" for r
    using stay ordered_snoc [OF o that] by (simp add: push_def)
  show ?thesis
  proof (cases "?page = []")
    case True
    then have "addRange l u g p = push ?r" by (simp add: addRange_def push_def Let_def)
    then show ?thesis using push [of ?r] u len by (simp add: range_wf_def)
  next
    case page: False
    have pg: "kle b ?page" "kle ?page b'" if "kle l ?page" "kle ?page u"
      using kle_trans [OF u(2) that(1)] kle_trans [OF that(2) u(5)] by simp_all
    show ?thesis
    proof (cases "q_desc (p_query p)")
      case True
      have "addRange l u g p = p \<or> addRange l u g p = push ?r \<or>
          addRange l u g p = push (?r\<lparr>upperKey := ?page\<rparr>) \<and> kle l ?page \<and> kle ?page u"
        using page True u kle_total [of l ?page] kle_total [of u ?page]
        by (auto simp: addRange_def push_def [abs_def] Let_def range_key_def set_range_key_def bcmp_kle)
      then show ?thesis
        using push [of ?r] push [of "?r\<lparr>upperKey := ?page\<rparr>"] u len page stay pg by (auto simp: range_wf_def)
    next
      case False
      have "addRange l u g p = p \<or> addRange l u g p = push ?r \<or>
          addRange l u g p = push (?r\<lparr>lowerKey := ?page\<rparr>) \<and> kle l ?page \<and> kle ?page u"
        using page False u kle_total [of l ?page] kle_total [of u ?page]
        by (auto simp: addRange_def push_def [abs_def] Let_def range_key_def set_range_key_def bcmp_kle)
      then show ?thesis
        using push [of ?r] push [of "?r\<lparr>lowerKey := ?page\<rparr>"] u len page stay pg by (auto simp: range_wf_def)
    qed
  qed
qed

lemma addRange_idProp [simp]: "p_idPropIndex (addRange l u g p) = p_idPropIndex p"
  by (simp add: addRange_def Let_def)

text \<open>Between a key and its increment.\<close>

definition within :: "dbkey \<Rightarrow> dbkey \<Rightarrow> bool" where
  "within x z \<longleftrightarrow> kle x z \<and> kle z (key_increment x)"

lemma increment_append: "key_increment a \<noteq> [] \<Longrightarrow> key_increment (x @ a) = x @ key_increment a"
proof (induction a rule: rev_induct)
  case (snoc b a)
  then show ?case
    using increment_snoc [of "x @ a" b] increment_snoc [of a b] by (auto split: if_splits)
qed simp

lemma within_prefix:
  assumes "good_key x"
  shows "within x (x @ a)" "within x (x @ enc v)" "within x (key_increment (x @ enc v))" "within x x" "within x (key_increment x)"
proof -
  have pre: "within x z" if "prefixOf x z" for z
    using that assms kle_increment_iff [of x z] kle_prefix [OF that] kle_total [of z "key_increment x"]
    by (auto simp: within_def good_key_def)
  show "within x (x @ a)" "within x (x @ enc v)" by (simp_all add: pre)
  have "key_increment (enc v) \<noteq> []" using increment_enc [of v "[]"] by simp
  then have "key_increment (x @ enc v) = x @ key_increment (enc v)" by (rule increment_append)
  then show "within x (key_increment (x @ enc v))" by (simp add: pre)
  show "within x x" using pre [of "x @ []"] prefixOf_self [of x "[]"] by simp
  then show "within x (key_increment x)" by (simp add: within_def)
qed

lemma rangesFromKeys_ordered:
  assumes "\<And>c. clause = Some c \<Longrightarrow> comparison c"
    and ne: "good_key l" "good_key u" "good_key x"
    and w: "within x l" "within x u" "within x (key_increment l)" "within x (key_increment u)"
    and o: "ordered b (p_ranges p)" "kle b x" and len: "short l" "short u" "short x" "short (q_page (p_query p))"
  shows "\<exists>p'. rangesFromKeys l u x i clause p = Inr p' \<and> p_idPropIndex p' = p_idPropIndex p \<and>
    p_query p' = p_query p \<and> ordered (key_increment x) (p_ranges p')"
proof -
  have ne': "l \<noteq> []" "u \<noteq> []" "x \<noteq> []" "key_increment l \<noteq> []" "key_increment u \<noteq> []" "key_increment x \<noteq> []"
    using ne by (simp_all add: good_key_def)
  have bx: "kle b z" if "within x z" for z using that o(2) kle_trans by (auto simp: within_def)
  have add: "ordered (key_increment x) (p_ranges (addRange l' u' g p))" if "within x l'" "within x u'" "u' \<noteq> []" "short l'" "short u'" for l' u' g
    by (rule addRange_ordered [OF o(1) that(3)]) (use that bx len(4) in \<open>simp_all add: within_def\<close>)
  have x: "within x x" "within x (key_increment x)" using within_prefix [OF ne(3)] by simp_all
  have two: "ordered (key_increment x) (p_ranges (addRange (key_increment l) (key_increment x) g (addRange x l g p)))" for g
  proof (rule addRange_ordered [where b = l])
    show "ordered l (p_ranges (addRange x l g p))"
      by (rule addRange_ordered [OF o(1)]) (use ne' bx x(1) w(1) len in \<open>simp_all add: within_def\<close>)
    show "kle l (key_increment l)" using kle_increment_iff [OF ne'(4), of "key_increment l"] by simp
  qed (use ne' w x len short_increment in \<open>simp_all add: within_def\<close>)
  show ?thesis
  proof (cases clause)
    case None
    then show ?thesis using add [OF w(1) x(2)] ne' len short_increment by (simp add: rangesFromKeys_def)
  next
    case (Some c)
    then have c: "clause_shape c" "lowerOp c \<noteq> OpPrefix" "lowerOp c \<noteq> OpSearch" "lowerOp c \<noteq> OpSubString"
      using assms(1) by (auto simp: comparison_def)
    then have l: "lowerOp c = OpNone \<and> upperOp c \<noteq> OpNone \<or> lowerOp c = OpEq \<and> upperOp c = OpNone \<or>
        lowerOp c = OpNotEq \<and> upperOp c = OpNone \<or> lowerOp c = OpGreaterThan \<or> lowerOp c = OpGreaterThanEq"
      by (cases "lowerOp c") (auto simp: clause_shape_def clause_pre_def)
    have u: "upperOp c = OpNone \<or> upperOp c = OpLessThan \<or> upperOp c = OpLessThanEq"
      using c by (auto simp: clause_shape_def clause_pre_def)
    from l u show ?thesis
      using ne' w x two len short_increment by (elim disjE conjE; simp add: Some rangesFromKeys_def add)
  qed
qed

lemma ranges_loop_ordered:
  assumes c: "\<And>c. clause = Some c \<Longrightarrow> comparison c"
    and "\<And>l u x. (l, u, x) \<in> set ts \<Longrightarrow> good_key l \<and> good_key u \<and> good_key x \<and> within x l \<and> within x u \<and>
      within x (key_increment l) \<and> within x (key_increment u) \<and> short l \<and> short u \<and> short x \<and> kle b x"
    and "sorted_wrt (\<lambda>t t'. kle (key_increment (snd (snd t))) (snd (snd t'))) ts" "ordered b (p_ranges p)"
    "short (q_page (p_query p))"
  shows "\<exists>p'. rangesFromKeySets_loop (map fst ts) (map (\<lambda>t. fst (snd t)) ts) (map (\<lambda>t. snd (snd t)) ts) i clause p = Inr p' \<and>
    p_idPropIndex p' = p_idPropIndex p \<and> p_query p' = p_query p \<and> in_order True (p_ranges p')"
  using assms(2-5)
proof (induction ts arbitrary: p i b)
  case (Cons t ts)
  obtain l u x where t: "t = (l, u, x)" by (cases t)
  obtain p1 where p1: "rangesFromKeys l u x i clause p = Inr p1" "p_idPropIndex p1 = p_idPropIndex p"
      "p_query p1 = p_query p" "ordered (key_increment x) (p_ranges p1)"
    using rangesFromKeys_ordered [OF c, of clause l u x b p i] Cons.prems(1) [of l u x] Cons.prems(3,4) by (auto simp: t)
  have pr: "good_key l' \<and> good_key u' \<and> good_key x' \<and> within x' l' \<and> within x' u' \<and> within x' (key_increment l') \<and>
      within x' (key_increment u') \<and> short l' \<and> short u' \<and> short x' \<and> kle (key_increment x) x'" if "(l', u', x') \<in> set ts" for l' u' x'
    using that Cons.prems(1) [of l' u' x'] Cons.prems(2) by (auto simp: t)
  have "sorted_wrt (\<lambda>t t'. kle (key_increment (snd (snd t))) (snd (snd t'))) ts" using Cons.prems(2) by simp
  from Cons.IH [OF pr this p1(4), of "i + 1"] show ?case using p1(1-3) Cons.prems(4) by (auto simp: t)
qed (simp add: ordered_def)

text \<open>Keys in order, none a prefix of another, have their increments in between.\<close>

lemma increments_between:
  assumes "sorted_set ks" "prefix_free ks" "\<And>k. k \<in> set ks \<Longrightarrow> good_key k"
  shows "sorted_wrt (\<lambda>k k'. kle (key_increment k) k') ks"
  using assms
proof (induction ks)
  case (Cons k ks)
  have "kle (key_increment k) k'" if k': "k' \<in> set ks" for k'
  proof -
    have lt: "bcmp k k' < 0" using Cons.prems(1) k' by simp
    then have "k \<noteq> k'" "kle k k'" by (auto simp: kle_def)
    then have "\<not> prefixOf k k'" using Cons.prems(2) k' by (auto simp: prefix_free_def)
    then show ?thesis
      using \<open>kle k k'\<close> Cons.prems(3) [of k] kle_increment_iff [of k k'] by (simp add: good_key_def)
  qed
  moreover have "prefix_free ks" using Cons.prems(2) by (auto simp: prefix_free_def)
  ultimately show ?case using Cons by simp
qed simp

lemma buildRanges_ordered:
  assumes ident: "ser_ok (ix_id ix)" "obj_type (ix_id ix) \<noteq> TypeArray" and props: "ix_props ix = ps @ qs" "ix_props ix \<noteq> []"
    and cs: "plan_clauses (q_whereClauses (p_query p)) ps cs qs" and p: "p_ranges p = []" "short (q_page (p_query p))"
    and len: "\<And>c v. c \<in> set cs \<Longrightarrow> v \<in> set (clause_vals c) \<union> {lowerVal c, upper_val c} \<Longrightarrow> length (enc v) \<le> m"
      "length (enc (ix_id ix)) + length cs * m < 2 ^ 31"
  shows "\<exists>p'. buildRanges lib ix p = Inr p' \<and> p_idPropIndex p' = p_idPropIndex p \<and> p_query p' = p_query p \<and>
    in_order True (p_ranges p')"
proof -
  have K: "sorted_wrt (\<lambda>k k'. kle (key_increment k) k') (keys_of (eq_stack (ix_id ix) es))"
    if "\<And>d. d \<in> set es \<Longrightarrow> comparison d \<and> lowerOp d = OpEq" for es
  proof (rule increments_between [OF keys_of_sorted _ eq_keys_good])
    show "prefix_free (keys_of (eq_stack (ix_id ix) es))"
      using eq_stack_prefix_free [OF ident(1)] that clause_vals_ok by (auto simp: comparison_def)
  qed
  have start: "ordered [] (p_ranges p)" by (simp add: p(1) ordered_def in_order_def)
  have bound: "length k \<le> length (enc (ix_id ix)) + length es * m"
    if k: "k \<in> set (keys_of (eq_stack (ix_id ix) es))" and es: "set es \<subseteq> set cs" for k es
  proof -
    obtain xs where "k = vals_key (ix_id ix # xs)" "list_all2 (\<lambda>x c. x \<in> set (clause_vals c)) xs es"
      using k unfolding eq_stack_keys by blast
    moreover have "length (vals_key xs) \<le> length es * m"
      using calculation(2) es
    proof (induction xs es rule: list_all2_induct)
      case (Cons x xs c es)
      then show ?case using len(1) [of c x] by simp
    qed simp
    ultimately show ?thesis by simp
  qed
  from ident props cs show ?thesis
  proof (cases rule: buildRanges_shape [where lib = lib])
    case eqs
    let ?K = "keys_of (eq_stack (ix_id ix) cs)"
    let ?ts = "map (\<lambda>k. (k, k, k)) ?K" and ?cl = "if cs = [] then None else Some (last cs)"
    have "comparison c" if "?cl = Some c" for c using that eqs(1) [of c] by (auto split: if_splits)
    moreover have "sorted_wrt (\<lambda>t t'. kle (key_increment (snd (snd t))) (snd (snd t'))) ?ts"
      using K [OF eqs(1)] by (simp add: sorted_wrt_map)
    ultimately have "\<exists>p'. rangesFromKeySets_loop (map fst ?ts) (map (\<lambda>t. fst (snd t)) ?ts) (map (\<lambda>t. snd (snd t)) ?ts) 0 ?cl p = Inr p' \<and>
        p_idPropIndex p' = p_idPropIndex p \<and> p_query p' = p_query p \<and> in_order True (p_ranges p')"
      by (intro ranges_loop_ordered [where b = "[]"] start p(2)) (use eq_keys_good within_prefix(4,5) bound [of _ cs] len(2) in fastforce)+
    then show ?thesis by (simp add: eqs(2) rangesFromKeySets_def comp_def)
  next
    case (other es c)
    let ?K = "keys_of (eq_stack (ix_id ix) es)"
    let ?ts = "map (\<lambda>k. (k @ enc (lowerVal c), k @ enc (upper_val c), k)) ?K"
    have app: "good_key (k @ x)" if "good_key k" for k x
      using that increment_append_nonempty [of k x] by (simp add: good_key_def)
    have sub: "set es \<subseteq> set cs" by (auto simp: other(1))
    have sh: "short (k @ enc (lowerVal c))" "short (k @ enc (upper_val c))" "short k" if "k \<in> set ?K" for k
      using bound [OF that sub] len(1) [of c "lowerVal c"] len(1) [of c "upper_val c"] len(2) by (simp_all add: other(1))
    have "comparison d" if "Some c = Some d" for d using that other(3) by simp
    moreover have "sorted_wrt (\<lambda>t t'. kle (key_increment (snd (snd t))) (snd (snd t'))) ?ts"
      using K [OF other(4)] by (simp add: sorted_wrt_map)
    ultimately have "\<exists>p'. rangesFromKeySets_loop (map fst ?ts) (map (\<lambda>t. fst (snd t)) ?ts) (map (\<lambda>t. snd (snd t)) ?ts) 0 (Some c) p = Inr p' \<and>
        p_idPropIndex p' = p_idPropIndex p \<and> p_query p' = p_query p \<and> in_order True (p_ranges p')"
      by (intro ranges_loop_ordered [where b = "[]"] start p(2)) (use eq_keys_good app within_prefix sh in auto)
    then show ?thesis by (simp add: other(5) rangesFromKeySets_def comp_def)
  qed
qed

section \<open>The plan of a query\<close>

text \<open>No key of a query's ranges is longer than an \<^verbatim>\<open>int\<close> counts.\<close>

definition short_query :: "db_index \<Rightarrow> db_query \<Rightarrow> nat \<Rightarrow> bool" where
  "short_query ix q m \<longleftrightarrow> 1 \<le> m \<and> length (enc (i_id ix)) + length (i_propNames ix) * m < 2 ^ 31 \<and>
     (\<forall>(n, c) \<in> set (q_whereClauses q). \<forall>v \<in> set (clause_vals c) \<union> {lowerVal c, upper_val c}. length (enc v) \<le> m)"

lemma not_deleted_short: "v \<in> set (clause_vals not_deleted) \<union> {lowerVal not_deleted, upper_val not_deleted} \<Longrightarrow> length (enc v) \<le> 1"
  by (auto simp: not_deleted_def clause_vals_def upper_val_def clause_init_def writeUInt8_def)

lemma plan_in_order:
  assumes ix: "index_wf ix" and ident: "ser_ok (i_id ix)" "obj_type (i_id ix) \<noteq> TypeArray"
    and can: "canAnswer ix q" and q: "query_ok q" and len: "short_query ix q m" "short (q_page q)"
    and plan: "plan_init lib q (index_plan ix) p = Inr plan"
  shows "in_order (\<not> q_desc q) (p_ranges plan)" "p_idPropIndex plan = i_idIndex ix"
    "p_query plan = q\<lparr>q_whereClauses := plan_where ix q\<rparr>"
proof -
  obtain ps qs cs where pq: "i_propNames ix = ps @ qs" "plan_clauses (plan_where ix q) ps cs qs"
    "list_all2 (\<lambda>p c. map_of (plan_where ix q) p = Some c) ps cs"
    using answer_clauses [OF ix can q] by blast
  let ?p = "p\<lparr>p_query := q\<lparr>q_whereClauses := plan_where ix q\<rparr>, p_locale := i_locale ix, p_idPropIndex := i_idIndex ix, p_ranges := []\<rparr>"
  have lens: "length cs \<le> length (i_propNames ix)"
    using pq by (auto simp: plan_clauses_def dest: list_all2_lengthD)
  have short: "length (enc v) \<le> m" if c: "c \<in> set cs" and v: "v \<in> set (clause_vals c) \<union> {lowerVal c, upper_val c}" for c v
  proof -
    obtain n where "n < length cs" "c = cs ! n" using c by (metis in_set_conv_nth)
    then have "map_of (plan_where ix q) (ps ! n) = Some c" using pq(3) by (simp add: list_all2_conv_all_nth)
    then obtain n' where "(n', c) \<in> set (plan_where ix q)" using map_of_SomeD by fast
    then have "c = not_deleted \<or> (n', c) \<in> set (q_whereClauses q)" by (auto simp: plan_where_def split: if_splits)
    then show ?thesis using v not_deleted_short [of v] len(1) by (auto simp: short_query_def)
  qed
  have "\<exists>p'. buildRanges lib (index_plan ix) ?p = Inr p' \<and> p_idPropIndex p' = p_idPropIndex ?p \<and> p_query p' = p_query ?p \<and>
    in_order True (p_ranges p')"
  proof (rule buildRanges_ordered [where m = m and ps = ps and qs = qs and cs = cs])
    have "length cs * m \<le> length (i_propNames ix) * m" using lens by (rule mult_le_mono1)
    moreover have "length (enc (i_id ix)) + length (i_propNames ix) * m < 2 ^ 31" using len(1) by (simp add: short_query_def)
    ultimately show "length (enc (ix_id (index_plan ix))) + length cs * m < 2 ^ 31"
      unfolding index_plan_def by (simp only: plan_index.simps)
    have "i_propNames ix \<noteq> []" using ix unfolding index_wf_def by blast
    then show "ix_props (index_plan ix) = ps @ qs" "ix_props (index_plan ix) \<noteq> []"
      by (simp_all add: index_plan_def pq(1))
  qed (use ident pq(2) short len(2) in \<open>simp_all add: index_plan_def\<close>)
  then obtain p' where p': "buildRanges lib (index_plan ix) ?p = Inr p'" "p_idPropIndex p' = i_idIndex ix"
    "p_query p' = q\<lparr>q_whereClauses := plan_where ix q\<rparr>" "in_order True (p_ranges p')" by auto
  have e: "plan = (if q_desc q then p'\<lparr>p_ranges := rev (p_ranges p')\<rparr> else p')"
    using plan p'(1) by (simp add: plan_init_where)
  show "in_order (\<not> q_desc q) (p_ranges plan)"
    using p'(4) unfolding e by (simp add: in_order_def sorted_wrt_rev)
  show "p_idPropIndex plan = i_idIndex ix" "p_query plan = q\<lparr>q_whereClauses := plan_where ix q\<rparr>"
    unfolding e using p' by simp_all
qed

section \<open>What a query finds\<close>

text \<open>The id stands in the keys of the index where \<^verbatim>\<open>m_idIndex\<close> says.\<close>

definition id_placed :: "db_index \<Rightarrow> bool" where
  "id_placed ix \<longleftrightarrow> 0 < i_idIndex ix \<and> i_idIndex ix \<le> length (i_props ix) \<and>
     (\<exists>e. i_props ix ! (i_idIndex ix - 1) = PropExtractor e \<and> e_prop e = [IdKey])"

lemma parse_index_key:
  assumes ix: "index_ok ix" "id_placed ix" and obj: "has_id obj ident"
    and vs: "list_all2 (\<lambda>v e. v \<in> ext_values e obj) vs (i_props ix)"
  shows "parse_key (i_idIndex ix) (vals_key (i_id ix # vs)) = Inr ident"
proof -
  define n where "n = i_idIndex ix - 1"
  have n: "i_idIndex ix = Suc n" "n < length (i_props ix)" using ix(2) by (auto simp: id_placed_def n_def)
  have len: "length vs = length (i_props ix)" using vs by (rule list_all2_lengthD)
  obtain e where e: "i_props ix ! n = PropExtractor e" "e_prop e = [IdKey]" using ix(2) by (auto simp: id_placed_def n_def)
  then have "plain_ext (PropExtractor e)" using ix(1) n(2) by (metis index_ok_def nth_mem)
  then have "ext_values (PropExtractor e) obj = {ident}" using id_values e(2) obj by blast
  then have v: "vs ! n = ident" using vs n(2) len e(1) by (auto simp: list_all2_conv_all_nth)
  have split: "i_id ix # vs = (i_id ix # take n vs) @ ident # drop (Suc n) vs"
    using id_take_nth_drop [of n vs] v n(2) len by simp
  have "list_all ser_ok vs" by (rule values_ok [OF vs])
  then have "list_all ser_ok ((i_id ix # take n vs) @ [ident])"
    using ix(1) v n(2) len by (auto simp: index_ok_def list_all_iff dest: in_set_takeD)
  then have "parse_key (length (i_id ix # take n vs)) (vals_key ((i_id ix # take n vs) @ ident # drop (Suc n) vs)) = Inr ident"
    by (rule parse_key_vals)
  moreover have "length (i_id ix # take n vs) = i_idIndex ix" using n len by simp
  ultimately show ?thesis by (simp only: split)
qed

text \<open>The index keys and the ids that a query asks for, given the objects.\<close>

definition answer :: "db_index \<Rightarrow> (obj \<Rightarrow> obj option) \<Rightarrow> db_query \<Rightarrow> (dbkey \<times> obj) set" where
  "answer ix objs q = {(vals_key (i_id ix # vs), ident) | vs ident. \<exists>obj. objs ident = Some obj \<and> includeObj ix (Some obj) \<and>
     list_all2 (\<lambda>v e. v \<in> ext_values e obj) vs (i_props ix) \<and> selects ix q vs \<and> page_in q (vals_key (i_id ix # vs))}"

text \<open>
  What the transaction shows. All indexes of a database keep their keys in one table (\<^verbatim>\<open>MojDbLevelIndex::open\<close> takes the
  engine's \<^verbatim>\<open>indexDb\<close>), each behind its id: of this table, the keys with the id of the index are those of a history of
  updates; which other keys there are does not matter. In the primary database there are the objects under their ids.
\<close>

definition shows_objects ::
  "'it scan_env \<Rightarrow> (dbkey \<Rightarrow> byte list option) \<Rightarrow> (dbkey \<Rightarrow> byte list option) \<Rightarrow> db_index \<Rightarrow> (obj \<Rightarrow> obj option) \<Rightarrow> bool" where
  "shows_objects env db get ix objs \<longleftrightarrow> scannable env db \<and> se_primary env = Some get \<and>
     finite {k. tt_Get db k (se_txn env) \<noteq> None} \<and>
     (\<exists>t. index_reach ix objs t \<and>
        (\<forall>k. tt_Get db k (se_txn env) \<noteq> None \<and> prefixOf (enc (i_id ix)) k \<longleftrightarrow> k \<in> set (t_store t))) \<and>
     (\<forall>ident obj. objs ident = Some obj \<longrightarrow> get (enc ident) \<noteq> None)"

text \<open>
  So it is when the table holds the keys of any number of indexes with distinct ids, each with its own history: no key of
  one has the id of another in front.
\<close>

lemma enc_prefix_ident:
  assumes "ser_ok a" "wf_obj a" "ser_ok b" "wf_obj b" "prefixOf (enc a) (enc b @ r)"
  shows "a = b"
proof -
  obtain s where "enc b @ r = enc a @ s" using assms(5) by (auto simp: prefixOf_iff)
  then have "sgn (bcmp (enc b @ r) (enc a @ s)) = 0" using bcmp.cmp_refl [of "enc a @ s"] by (simp add: list_all_iff)
  then have "obj_compare b a = 0" using enc_obj.enc_cmp [OF assms(3,1), of r s] by (simp add: sgn_eq_0_iff split: if_splits)
  then show ?thesis using obj_compare_eq assms(2,4) by blast
qed

lemma store_ident:
  assumes "index_ok ix" "index_reach ix objs t" "k \<in> set (t_store t)"
  obtains r where "k = enc (i_id ix) @ r"
proof -
  obtain i where i: "k \<in> index_keys ix (objs i)"
    using reach_consistent [OF assms(2,1)] assms(3) by (auto simp: consistent_def)
  then obtain obj where obj: "objs i = Some obj" by (cases "objs i") auto
  then have "ser_ok obj" using reach_consistent [OF assms(2,1)] by (auto simp: consistent_def has_id_def)
  then obtain vs where "k = vals_key (i_id ix # vs)"
    using i index_keys_values [OF assms(1), of obj] obj by (auto simp: index_keys_def split: if_splits)
  then show thesis using that by simp
qed

lemma shared_table_shows:
  assumes "scannable env db" "se_primary env = Some get" "\<And>ident obj. objs (i_id ix) ident = Some obj \<Longrightarrow> get (enc ident) \<noteq> None"
    and ixs: "\<And>j. j \<in> set ixs \<Longrightarrow> index_ok j \<and> index_reach j (objs (i_id j)) (ts (i_id j))" "ix \<in> set ixs"
    and table: "\<And>k. tt_Get db k (se_txn env) \<noteq> None \<longleftrightarrow> (\<exists>j \<in> set ixs. k \<in> set (t_store (ts (i_id j))))"
  shows "shows_objects env db get ix (objs (i_id ix))"
proof -
  have own: "k \<in> set (t_store (ts (i_id ix)))"
    if j: "j \<in> set ixs" "k \<in> set (t_store (ts (i_id j)))" and pre: "prefixOf (enc (i_id ix)) k" for j k
  proof -
    obtain r where "k = enc (i_id j) @ r" using store_ident ixs(1) j by blast
    moreover have "ser_ok (i_id j)" "ser_ok (i_id ix)" using ixs j(1) by (simp_all add: index_ok_def)
    ultimately have "i_id ix = i_id j" using enc_prefix_ident [of "i_id ix" "i_id j" r] pre by (simp add: ser_ok_def)
    then show ?thesis using j(2) by simp
  qed
  have pre: "prefixOf (enc (i_id ix)) k" if "k \<in> set (t_store (ts (i_id ix)))" for k
    using store_ident ixs that by (metis prefixOf_iff)
  have "{k. tt_Get db k (se_txn env) \<noteq> None} = (\<Union>j \<in> set ixs. set (t_store (ts (i_id j))))" using table by blast
  then have "finite {k. tt_Get db k (se_txn env) \<noteq> None}" by simp
  moreover have "tt_Get db k (se_txn env) \<noteq> None \<and> prefixOf (enc (i_id ix)) k \<longleftrightarrow> k \<in> set (t_store (ts (i_id ix)))" for k
    using table own pre ixs(2) by blast
  ultimately show ?thesis using assms(1-3) ixs unfolding shows_objects_def by blast
qed

definition queried :: "db_index \<Rightarrow> db_query \<Rightarrow> nat \<Rightarrow> bool" where
  "queried ix q m \<longleftrightarrow> index_ok ix \<and> index_wf ix \<and> id_placed ix \<and> canAnswer ix q \<and> query_ok q \<and> q_distinct q = [] \<and>
     short_query ix q m"

definition entry_item :: "(dbkey \<Rightarrow> byte list option) \<Rightarrow> dbkey \<times> obj \<Rightarrow> scan_item" where
  "entry_item get = (\<lambda>(k, ident). StoredItem ident (the (get (enc ident))))"

lemma find_ok:
  assumes env: "shows_objects env db get ix objs" and q: "queried ix q m" "short (q_page q)"
  shows "\<exists>plan iq ps. plan_init lib q (index_plan ix) p = Inr plan \<and> level_query_open env plan = Inr iq \<and>
    sorted_wrt (\<lambda>a b. dlt (\<not> q_desc q) (fst a) (fst b)) ps \<and> set ps = answer ix objs q \<and>
    (\<forall>n. \<exists>iq'. scan_items env n iq = Some (Inr (map (entry_item get) (take n (take (unat (q_limit q)) ps)), iq')) \<and>
       (unat (q_limit q) \<le> n \<longrightarrow> nextPage iq' = page_of (q_desc q) (unat (q_limit q)) (map fst ps) []))"
proof -
  have ix: "index_ok ix" "index_wf ix" "id_placed ix" "canAnswer ix q" "query_ok q" "q_distinct q = []" "short_query ix q m"
    using q(1) by (simp_all add: queried_def)
  have ident: "ser_ok (i_id ix)" "obj_type (i_id ix) \<noteq> TypeArray" using ix(1) by (simp_all add: index_ok_def)
  obtain t where t: "index_reach ix objs t"
      "\<And>k. tt_Get db k (se_txn env) \<noteq> None \<and> prefixOf (enc (i_id ix)) k \<longleftrightarrow> k \<in> set (t_store t)"
    and sc: "scannable env db" "se_primary env = Some get" and fin: "finite {k. tt_Get db k (se_txn env) \<noteq> None}" and get: "\<And>i obj. objs i = Some obj \<Longrightarrow> get (enc i) \<noteq> None"
    using env by (auto simp: shows_objects_def)
  obtain plan where plan: "plan_init lib q (index_plan ix) p = Inr plan"
    "{k \<in> set (t_store t). covers (p_ranges plan) k} = fst ` answer ix objs q"
    using index_answer [OF ix(1,2) t(1) ix(4,5), of lib p] by (fastforce simp: answer_def image_iff)
  note po = plan_in_order [OF ix(2) ident ix(4,5,7) q(2) plan(1)]
  have shown: "{k. tt_Get db k (se_txn env) \<noteq> None \<and> covers (p_ranges plan) k} = fst ` answer ix objs q"
    unfolding plan(2) [symmetric] using t(2) plan_prefix [OF ix(2) ident ix(4,5) plan(1)] by blast
  have id: "key_id plan k = i" "parse_key (p_idPropIndex plan) k = Inr i" "get (enc i) \<noteq> None" if ki: "(k, i) \<in> answer ix objs q" for k i
  proof -
    obtain vs obj where o: "k = vals_key (i_id ix # vs)" "objs i = Some obj" "list_all2 (\<lambda>v e. v \<in> ext_values e obj) vs (i_props ix)"
      using ki unfolding answer_def by blast
    have "has_id obj i" using reach_consistent [OF t(1) ix(1)] o(2) by (simp add: consistent_def)
    from parse_index_key [OF ix(1,3) this o(3)] show "parse_key (p_idPropIndex plan) k = Inr i" by (simp only: po(2) o(1))
    then show "key_id plan k = i" by (simp add: key_id_def)
    show "get (enc i) \<noteq> None" using get [OF o(2)] .
  qed
  have "\<exists>iq ks. level_query_open env plan = Inr iq \<and> sorted_wrt (dlt (\<not> q_desc (p_query plan))) ks \<and>
    set ks = {k. tt_Get db k (se_txn env) \<noteq> None \<and> covers (p_ranges plan) k \<and> get (enc (key_id plan k)) \<noteq> None} \<and>
    (\<forall>n. \<exists>iq'. scan_items env n iq = Some (Inr (map (key_item get plan) (take n (take (unat (q_limit (p_query plan))) ks)), iq')) \<and>
       (unat (q_limit (p_query plan)) \<le> n \<longrightarrow>
          nextPage iq' = page_of (q_desc (p_query plan)) (unat (q_limit (p_query plan))) ks []))"
  proof (rule scan_ok [OF sc])
    show "q_distinct (p_query plan) = []" "in_order (\<not> q_desc (p_query plan)) (p_ranges plan)" using po ix(6) by simp_all
    show "finite {k. tt_Get db k (se_txn env) \<noteq> None}" by (rule fin)
    show "\<forall>k. tt_Get db k (se_txn env) \<noteq> None \<and> covers (p_ranges plan) k \<longrightarrow> (\<exists>oid. parse_key (p_idPropIndex plan) k = Inr oid)"
    proof (intro allI impI)
      fix k assume "tt_Get db k (se_txn env) \<noteq> None \<and> covers (p_ranges plan) k"
      then have "k \<in> fst ` answer ix objs q" unfolding shown [symmetric] by simp
      then obtain i where "(k, i) \<in> answer ix objs q" by auto
      then show "\<exists>oid. parse_key (p_idPropIndex plan) k = Inr oid" using id(2) by blast
    qed
  qed
  then obtain iq ks where ks: "level_query_open env plan = Inr iq" "sorted_wrt (dlt (\<not> q_desc q)) ks"
    "set ks = {k. tt_Get db k (se_txn env) \<noteq> None \<and> covers (p_ranges plan) k \<and> get (enc (key_id plan k)) \<noteq> None}"
    "\<And>n. \<exists>iq'. scan_items env n iq = Some (Inr (map (key_item get plan) (take n (take (unat (q_limit q)) ks)), iq')) \<and>
       (unat (q_limit q) \<le> n \<longrightarrow> nextPage iq' = page_of (q_desc q) (unat (q_limit q)) ks [])"
    by (auto simp: po(3))
  define ps where "ps = map (\<lambda>k. (k, key_id plan k)) ks"
  have fst_ps: "map fst ps = ks" by (simp add: ps_def comp_def)
  have "k \<in> set ks \<longleftrightarrow> k \<in> fst ` answer ix objs q \<and> get (enc (key_id plan k)) \<noteq> None" for k
    unfolding ks(3) shown [symmetric] by blast
  moreover have "get (enc (key_id plan k)) \<noteq> None" if k: "k \<in> fst ` answer ix objs q" for k
  proof -
    obtain i where "(k, i) \<in> answer ix objs q" using k by auto
    then show ?thesis using id(1,3) by metis
  qed
  ultimately have set_ks: "set ks = fst ` answer ix objs q" by blast
  have "set ps = answer ix objs q"
    unfolding ps_def set_map set_ks using id(1) by (force simp: image_iff)
  moreover have "sorted_wrt (\<lambda>a b. dlt (\<not> q_desc q) (fst a) (fst b)) ps"
    using ks(2) by (simp add: ps_def sorted_wrt_map)
  moreover have "map (key_item get plan) (take n (take l ks)) = map (entry_item get) (take n (take l ps))" for n l
    by (simp add: ps_def take_map entry_item_def key_item_def)
  ultimately show ?thesis
    using plan(1) ks(1,4) by (intro exI [of _ plan] exI [of _ iq] exI [of _ ps]) (simp add: fst_ps)
qed

text \<open>
  C1. Finding, end to end: whatever the history of the objects of a kind, a query that the index can answer gets a plan
  whose scan of the table that all indexes share hands out exactly the objects that the query selects, for each
  combination of their indexed values, in the order of the index keys or, descending, against it, up to the limit, and
  nothing of another index; if the limit was reached, the next page starts behind the last key.
\<close>

theorem query_finds:
  assumes "shows_objects env db get ix objs" "queried ix q m" "short (q_page q)"
  shows "\<exists>plan iq ps. plan_init lib q (index_plan ix) p = Inr plan \<and> level_query_open env plan = Inr iq \<and>
    sorted_wrt (\<lambda>a b. dlt (\<not> q_desc q) (fst a) (fst b)) ps \<and> set ps = answer ix objs q \<and>
    (\<forall>n. \<exists>iq'. scan_items env n iq = Some (Inr (map (entry_item get) (take n (take (unat (q_limit q)) ps)), iq')) \<and>
       (unat (q_limit q) \<le> n \<longrightarrow> nextPage iq' = page_of (q_desc q) (unat (q_limit q)) (map fst ps) []))"
  by (rule find_ok) fact+

section \<open>Pages\<close>

text \<open>A client that asks for page after page, each with the limit of the query, as long as there is a next page.\<close>

partial_function (option) fetch_pages ::
  "icu \<Rightarrow> 'it scan_env \<Rightarrow> db_index \<Rightarrow> plan \<Rightarrow> db_query \<Rightarrow> scan_item list res option" where
  "fetch_pages lib env ix p q =
     (case rbind (plan_init lib q (index_plan ix) p) (level_query_open env) of
        Inl e \<Rightarrow> Some (Inl e)
      | Inr iq \<Rightarrow>
          (case scan_items env (unat (q_limit q)) iq of
             None \<Rightarrow> None
           | Some (Inl e) \<Rightarrow> Some (Inl e)
           | Some (Inr (items, iq')) \<Rightarrow>
               if nextPage iq' = [] then Some (Inr items)
               else Option.bind (fetch_pages lib env ix p (q\<lparr>q_page := nextPage iq'\<rparr>)) (\<lambda>rest.
                      Some (rbind rest (\<lambda>items'. Inr (items @ items'))))))"

abbreviation entry_sorted :: "bool \<Rightarrow> (dbkey \<times> obj) list \<Rightarrow> bool" where
  "entry_sorted fwd \<equiv> sorted_wrt (\<lambda>a b. dlt fwd (fst a) (fst b))"

lemma entries_unique:
  "entry_sorted fwd xs \<Longrightarrow> entry_sorted fwd ys \<Longrightarrow> set xs = set ys \<Longrightarrow> xs = ys"
proof (induction xs arbitrary: ys)
  case (Cons x xs)
  then obtain y ys' where ys: "ys = y # ys'" by (cases ys) auto
  have "x = y"
  proof (rule ccontr)
    assume "x \<noteq> y"
    then have "x \<in> set ys'" "y \<in> set xs" using Cons.prems(3) ys by auto
    then have "dlt fwd (fst y) (fst x)" "dlt fwd (fst x) (fst y)" using Cons.prems(1,2) ys by simp_all
    then show False using dle_total [of fwd "fst x" "fst y"] by simp
  qed
  moreover have "x \<notin> set xs" "y \<notin> set ys'" using Cons.prems(1,2) ys dle_refl by auto
  ultimately have "set xs = set ys'" using Cons.prems(3) ys by auto
  then show ?case using Cons \<open>x = y\<close> ys by simp
qed simp

text \<open>The keys of an index are no prefixes of each other, so that a page starts right behind a key.\<close>

lemma answer_key:
  assumes "index_ok ix" "(k, i) \<in> answer ix objs q"
  obtains vs where "k = vals_key (i_id ix # vs)" "list_all ser_ok (i_id ix # vs)" "length vs = length (i_props ix)"
proof -
  obtain vs obj where "k = vals_key (i_id ix # vs)" "list_all2 (\<lambda>v e. v \<in> ext_values e obj) vs (i_props ix)"
    using assms(2) unfolding answer_def by blast
  then show thesis
    using that values_ok [of obj vs] assms(1) by (simp add: index_ok_def list_all2_lengthD)
qed

lemma answer_page:
  assumes ix: "index_ok ix" and k: "(k, i) \<in> answer ix objs q"
  shows "answer ix objs (q\<lparr>q_page := page_after (q_desc q) k\<rparr>) = {(x, j) \<in> answer ix objs q. dlt (\<not> q_desc q) k x}"
    "page_after (q_desc q) k \<noteq> []"
proof -
  obtain us where us: "k = vals_key (i_id ix # us)" "list_all ser_ok (i_id ix # us)" "length us = length (i_props ix)"
    by (rule answer_key [OF ix k])
  have ne: "key_increment k \<noteq> []" "k \<noteq> []" by (simp_all add: us(1))
  then show "page_after (q_desc q) k \<noteq> []" by (simp add: page_after_def)
  have at: "page_in (q\<lparr>q_page := page_after (q_desc q) k\<rparr>) x \<longleftrightarrow> dlt (\<not> q_desc q) k x"
    if x: "x = vals_key (i_id ix # vs)" "list_all ser_ok (i_id ix # vs)" "length vs = length (i_props ix)" for x vs
  proof -
    have "prefixOf k x \<longleftrightarrow> i_id ix # us = take (length (i_id ix # us)) (i_id ix # vs)"
      using prefixOf_vals [OF us(2) x(2), of "[]"] us(3) x(3) by (simp add: us(1) x(1))
    also have "\<dots> \<longleftrightarrow> us = vs" using us(3) x(3) by simp
    finally have "prefixOf k x \<Longrightarrow> x = k" using us(1) x(1) by simp
    then have "kle (key_increment k) x \<longleftrightarrow> \<not> kle x k"
      using kle_increment_iff [OF ne(1), of x] kle_total [of k x] kle_antisym [of k x] kle_prefix [of k x] prefixOf_self [of k "[]"]
      by auto
    then show ?thesis using ne by (auto simp: page_in_def page_after_def dle_def)
  qed
  have sel: "selects ix (q\<lparr>q_page := pg\<rparr>) vs = selects ix q vs" for pg vs by (simp add: selects_def)
  have mono: "page_in q x" if "dlt (\<not> q_desc q) k x" for x
  proof -
    have "page_in q k" using k by (auto simp: answer_def)
    moreover have "kle k x" if "\<not> q_desc q" using that \<open>dlt (\<not> q_desc q) k x\<close> kle_total [of k x] by (auto simp: dle_def)
    moreover have "kle x k" if "q_desc q" using that \<open>dlt (\<not> q_desc q) k x\<close> kle_total [of k x] by (auto simp: dle_def)
    ultimately show ?thesis using kle_trans by (auto simp: page_in_def split: if_splits)
  qed
  show "answer ix objs (q\<lparr>q_page := page_after (q_desc q) k\<rparr>) = {(x, j) \<in> answer ix objs q. dlt (\<not> q_desc q) k x}"
  proof (intro set_eqI iffI)
    fix y assume "y \<in> answer ix objs (q\<lparr>q_page := page_after (q_desc q) k\<rparr>)"
    then obtain vs j obj where y: "y = (vals_key (i_id ix # vs), j)" "objs j = Some obj" "includeObj ix (Some obj)"
      "list_all2 (\<lambda>v e. v \<in> ext_values e obj) vs (i_props ix)" "selects ix q vs"
      "page_in (q\<lparr>q_page := page_after (q_desc q) k\<rparr>) (vals_key (i_id ix # vs))"
      unfolding answer_def sel by blast
    have "list_all ser_ok (i_id ix # vs)" "length vs = length (i_props ix)"
      using values_ok [OF y(4)] list_all2_lengthD [OF y(4)] ix by (simp_all add: index_ok_def)
    then have "dlt (\<not> q_desc q) k (vals_key (i_id ix # vs))" using at y(6) by blast
    then show "y \<in> {(x, j) \<in> answer ix objs q. dlt (\<not> q_desc q) k x}"
      using y mono unfolding answer_def by blast
  next
    fix y assume "y \<in> {(x, j) \<in> answer ix objs q. dlt (\<not> q_desc q) k x}"
    then obtain vs j obj where y: "y = (vals_key (i_id ix # vs), j)" "objs j = Some obj" "includeObj ix (Some obj)"
      "list_all2 (\<lambda>v e. v \<in> ext_values e obj) vs (i_props ix)" "selects ix q vs" "dlt (\<not> q_desc q) k (vals_key (i_id ix # vs))"
      unfolding answer_def by blast
    have "list_all ser_ok (i_id ix # vs)" "length vs = length (i_props ix)"
      using values_ok [OF y(4)] list_all2_lengthD [OF y(4)] ix by (simp_all add: index_ok_def)
    then have "page_in (q\<lparr>q_page := page_after (q_desc q) k\<rparr>) (vals_key (i_id ix # vs))" using at y(6) by blast
    then show "y \<in> answer ix objs (q\<lparr>q_page := page_after (q_desc q) k\<rparr>)"
      using y unfolding answer_def sel by blast
  qed
qed

lemma entries_behind:
  assumes "entry_sorted fwd ps" "n < length ps"
  shows "{(x, j) \<in> set ps. dlt fwd (fst (ps ! n)) x} = set (drop (Suc n) ps)"
proof -
  have split: "ps = take n ps @ ps ! n # drop (Suc n) ps" by (rule id_take_nth_drop [OF assms(2)])
  have s: "entry_sorted fwd (take n ps @ ps ! n # drop (Suc n) ps)" using assms(1) split by simp
  have "\<not> dlt fwd (fst (ps ! n)) (fst y)" if "y \<in> set (take n ps)" for y
    using s that dle_total [of fwd "fst y" "fst (ps ! n)"] by (auto simp: sorted_wrt_append)
  moreover have "dlt fwd (fst (ps ! n)) (fst y)" if "y \<in> set (drop (Suc n) ps)" for y
    using s that by (simp add: sorted_wrt_append)
  moreover have "set ps = set (take n ps) \<union> {ps ! n} \<union> set (drop (Suc n) ps)"
    by (subst split) simp
  ultimately show ?thesis using dle_refl [of fwd "fst (ps ! n)"] by (auto dest: arg_cong [of _ _ fst])
qed

lemma queried_page: "queried ix q m \<Longrightarrow> queried ix (q\<lparr>q_page := pg\<rparr>) m"
proof -
  have "canAnswer ix (q\<lparr>q_page := pg\<rparr>) = canAnswer ix q" unfolding canAnswer_def by simp
  then show "queried ix q m \<Longrightarrow> queried ix (q\<lparr>q_page := pg\<rparr>) m"
    by (simp add: queried_def query_ok_def short_query_def)
qed

lemma pages_ok:
  assumes env: "shows_objects env db get ix objs" and lim: "0 < q_limit q"
    and "queried ix q m" "short (q_page q)" "entry_sorted (\<not> q_desc q) ps" "set ps = answer ix objs q"
  shows "fetch_pages lib env ix p q = Some (Inr (map (entry_item get) ps))"
  using assms(2-)
proof (induction "length ps" arbitrary: q ps rule: less_induct)
  case less
  let ?n = "unat (q_limit q)"
  have n: "0 < ?n" using less.prems(1) by (simp add: word_less_nat_alt)
  have ix: "index_ok ix" using less.prems(2) by (simp add: queried_def)
  obtain plan iq ps' iq' where f: "plan_init lib q (index_plan ix) p = Inr plan" "level_query_open env plan = Inr iq"
    "entry_sorted (\<not> q_desc q) ps'" "set ps' = answer ix objs q"
    "scan_items env ?n iq = Some (Inr (map (entry_item get) (take ?n (take ?n ps')), iq'))"
    "nextPage iq' = page_of (q_desc q) ?n (map fst ps') []"
    using find_ok [OF env less.prems(2,3), of lib p] by fast
  have "ps' = ps" by (rule entries_unique [OF f(3) less.prems(4)]) (simp add: f(4) less.prems(5))
  note f = f [unfolded this]
  show ?case
  proof (cases "length ps < ?n")
    case True
    then show ?thesis using f by (subst fetch_pages.simps) (simp add: page_of_def)
  next
    case False
    obtain k i where ki: "ps ! (?n - 1) = (k, i)" by (cases "ps ! (?n - 1)")
    have lt: "?n - 1 < length ps" using False n by simp
    then have mem: "(k, i) \<in> answer ix objs q" using less.prems(5) ki by (metis nth_mem)
    have page: "nextPage iq' = page_after (q_desc q) k" using False n ki lt f(6) by (simp add: page_of_def)
    let ?q = "q\<lparr>q_page := page_after (q_desc q) k\<rparr>"
    have "short k"
    proof -
      obtain t where "index_reach ix objs t"
        and t: "\<And>k. tt_Get db k (se_txn env) \<noteq> None \<and> prefixOf (enc (i_id ix)) k \<longleftrightarrow> k \<in> set (t_store t)"
        "scannable env db" using env by (auto simp: shows_objects_def)
      moreover have "k \<in> set (t_store t)"
        using mem index_answer [OF ix _ \<open>index_reach ix objs t\<close>, of q lib p] less.prems(2)
        by (fastforce simp: answer_def queried_def)
      ultimately show ?thesis unfolding scannable_def by blast
    qed
    then have short: "short (q_page ?q)" using short_increment by (simp add: page_after_def)
    have rest: "set (drop ?n ps) = answer ix objs ?q"
      using entries_behind [OF less.prems(4) lt] answer_page(1) [OF ix mem] ki n by (simp add: less.prems(5))
    have "entry_sorted (\<not> q_desc ?q) (drop ?n ps)" using less.prems(4) by (simp add: sorted_wrt_drop)
    then have IH: "fetch_pages lib env ix p ?q = Some (Inr (map (entry_item get) (drop ?n ps)))"
      using less.hyps [of "drop ?n ps" ?q] n False less.prems(1) queried_page [OF less.prems(2)] short rest by simp
    have "fetch_pages lib env ix p q = Some (Inr (map (entry_item get) (take ?n ps) @ map (entry_item get) (drop ?n ps)))"
      using f(1,2,5) answer_page(2) [OF ix mem] by (subst fetch_pages.simps) (simp add: page IH)
    then show ?thesis by (simp flip: map_append)
  qed
qed

text \<open>
  C2. Paging loses nothing and repeats nothing: a client that asks for one page after the other, each of at most the
  limit, comes to an end and has got exactly what the query selects, in order, although the keys of other indexes may
  follow in the same table.
\<close>

theorem pages_complete:
  assumes "shows_objects env db get ix objs" "0 < q_limit q" "queried ix q m" "short (q_page q)"
  shows "\<exists>ps. sorted_wrt (\<lambda>a b. dlt (\<not> q_desc q) (fst a) (fst b)) ps \<and> set ps = answer ix objs q \<and>
    fetch_pages lib env ix p q = Some (Inr (map (entry_item get) ps))"
proof -
  obtain ps where "entry_sorted (\<not> q_desc q) ps" "set ps = answer ix objs q"
    using find_ok [OF assms(1,3,4)] by fast
  then show ?thesis using pages_ok [OF assms] by blast
qed

section \<open>An example\<close>

text \<open>Two indexes with the ids 3 and 4 on the same property; their keys stand in one table.\<close>

definition index2_ex :: db_index where
  "index2_ex = index_ex\<lparr>i_id := OInt 4, i_idSet := [[11, 4]]\<rparr>"

lemma index2_ex_ok: "index_ok index2_ex"
proof -
  have "[11, 4] = enc (OInt 4)" "ser_ok (OInt 4)" by (code_simp, simp add: ser_ok_def)
  then show ?thesis using index_ex_ok by (simp add: index_ok_def index2_ex_def)
qed

lemma reach2_ex:
  "index_reach index2_ex ((\<lambda>_. None)(OInt 1 \<mapsto> obj_ex 1 ''a'')) (DbIndexOk.txn_ex\<lparr>t_store := [[11, 4, 4, 97, 0, 11, 1]]\<rparr>)"
proof -
  have "getKeys index2_ex (obj_ex 1 ''a'') = Inr [[11, 4, 4, 97, 0, 11, 1]]" "includeObj index2_ex (Some (obj_ex 1 ''a''))"
    by code_simp+
  then have upd: "index_update index2_ex watch_ex (Some (obj_ex 1 ''a'')) None False DbIndexOk.txn_ex =
      Inr (DbIndexOk.txn_ex\<lparr>t_store := [[11, 4, 4, 97, 0, 11, 1]]\<rparr>)"
    by (simp add: index_update_def includeObj_def [of _ None] insertKeys_def store_insert_def store_write_def notifyWatches_def
        notify_key_def watch_ex_def DbIndexOk.txn_ex_def index2_ex_def index_ex_def)
  have start: "index_reach index2_ex (\<lambda>_. None) DbIndexOk.txn_ex"
    by (rule index_reach.start) (simp add: DbIndexOk.txn_ex_def)
  show ?thesis by (rule index_reach.put [OF start obj_ex_id upd]) simp
qed

definition find_query_ex :: db_query where
  "find_query_ex = query_new\<lparr>q_limit := 1, q_whereClauses := [(''n'', clause_init\<lparr>lowerOp := OpGreaterThanEq, lowerVal := OString ''a''\<rparr>)]\<rparr>"

definition table_find_ex :: pending where
  "table_find_ex = [([11, 3, 4, 97, 0, 11, 1], []), ([11, 4, 4, 97, 0, 11, 1], [])]"

definition find_env_ex :: "dbkey option scan_env" where
  "find_env_ex = \<lparr>se_ldb = list_ldb table_find_ex, se_txn = table_txn_new, se_primary = Some (\<lambda>_. Some [9]),
     se_kindId = (\<lambda>_ _. Inr []), se_toObject = (\<lambda>_ _. Inr ONull)\<rparr>"

lemma find_ex_ok:
  "shows_objects find_env_ex (\<lambda>k. map_get bcmp k table_find_ex) (\<lambda>_. Some [9]) index_ex
    ((\<lambda>_. None)(OInt 1 \<mapsto> obj_ex 1 ''a''))"
  "queried index_ex find_query_ex 8" "0 < q_limit find_query_ex" "short (q_page find_query_ex)"
proof -
  let ?db = "\<lambda>k. map_get bcmp k table_find_ex" and ?objs = "(\<lambda>_. None)(OInt 1 \<mapsto> obj_ex 1 ''a'')"
  let ?key = "\<lambda>i. [11, i, 4, 97, 0, 11, 1] :: dbkey"
  let ?ts = "\<lambda>ident. DbIndexOk.txn_ex\<lparr>t_store := [?key (if ident = OInt 3 then 3 else 4)]\<rparr>"
  have view: "tt_Get ?db k table_txn_new \<noteq> None \<longleftrightarrow> k = ?key 3 \<or> k = ?key 4" for k
    by (auto simp: tt_Get_def table_txn_new_def isDeleted_iff table_find_ex_def bcmp_eq split: if_splits)
  have "ldb_ok (list_ldb table_find_ex) ?db"
    by (rule list_ldb_ok) (simp add: table_find_ex_def bcmp_Cons MojComp_def)
  moreover have "\<forall>k. tt_Get ?db k table_txn_new \<noteq> None \<longrightarrow> k \<noteq> [] \<and> short k"
    unfolding view by auto
  ultimately have scan: "scannable find_env_ex ?db"
    unfolding scannable_def find_env_ex_def scan_env.simps by simp
  have ids: "i_id index_ex = OInt 3" "i_id index2_ex = OInt 4" by (simp_all add: index_ex_def index2_ex_def)
  have "shows_objects find_env_ex ?db (\<lambda>_. Some [9]) index_ex ((\<lambda>_. ?objs) (i_id index_ex))"
  proof (rule shared_table_shows [OF scan, where ts = ?ts and ixs = "[index_ex, index2_ex]"])
    fix j assume "j \<in> set [index_ex, index2_ex]"
    then show "index_ok j \<and> index_reach j ?objs (?ts (i_id j))"
      using index_ex_ok index2_ex_ok reach_ex reach2_ex ids by auto
  next
    fix k
    show "tt_Get ?db k (se_txn find_env_ex) \<noteq> None \<longleftrightarrow> (\<exists>j \<in> set [index_ex, index2_ex]. k \<in> set (t_store (?ts (i_id j))))"
      unfolding find_env_ex_def scan_env.simps view by (simp add: ids)
  qed (simp_all add: find_env_ex_def)
  then show "shows_objects find_env_ex ?db (\<lambda>_. Some [9]) index_ex ?objs" .
  have "id_placed index_ex" by (auto simp: id_placed_def index_ex_def id_extractor_def)
  moreover have "query_ok find_query_ex"
    by (simp add: query_ok_def find_query_ex_def query_new_def query_init_def comparison_def clause_shape_def clause_pre_def
        clause_init_def ser_ok_def clause_vals_def)
  moreover have "canAnswer index_ex find_query_ex" by code_simp
  moreover have "short_query index_ex find_query_ex 8"
    by (simp add: short_query_def index_ex_def find_query_ex_def query_new_def query_init_def clause_init_def clause_vals_def
        upper_val_def enc_str_def writer_intValue_def writeUInt8_def)
  moreover have "q_distinct find_query_ex = []" by (simp add: find_query_ex_def query_new_def query_init_def)
  ultimately show "queried index_ex find_query_ex 8" using index_ex_ok index_ex_wf by (simp add: queried_def)
qed (simp_all add: find_query_ex_def query_new_def query_init_def)

theorem query_finds_witness:
  "\<exists>plan iq ps. plan_init icu_ex find_query_ex (index_plan index_ex) (plan_ex False) = Inr plan \<and> level_query_open find_env_ex plan = Inr iq \<and>
    sorted_wrt (\<lambda>a b. dlt (\<not> q_desc find_query_ex) (fst a) (fst b)) ps \<and>
    set ps = answer index_ex ((\<lambda>_. None)(OInt 1 \<mapsto> obj_ex 1 ''a'')) find_query_ex \<and>
    (\<forall>n. \<exists>iq'. scan_items find_env_ex n iq =
        Some (Inr (map (entry_item (\<lambda>_. Some [9])) (take n (take (unat (q_limit find_query_ex)) ps)), iq')) \<and>
       (unat (q_limit find_query_ex) \<le> n \<longrightarrow>
          nextPage iq' = page_of (q_desc find_query_ex) (unat (q_limit find_query_ex)) (map fst ps) []))"
  by (rule query_finds [OF find_ex_ok(1,2,4)])

theorem pages_complete_witness:
  "\<exists>ps. sorted_wrt (\<lambda>a b. dlt (\<not> q_desc find_query_ex) (fst a) (fst b)) ps \<and>
    set ps = answer index_ex ((\<lambda>_. None)(OInt 1 \<mapsto> obj_ex 1 ''a'')) find_query_ex \<and>
    fetch_pages icu_ex find_env_ex index_ex (plan_ex False) find_query_ex = Some (Inr (map (entry_item (\<lambda>_. Some [9])) ps))"
  by (rule pages_complete [OF find_ex_ok(1,3,2,4)])

end
