(* ===== verification/ObjMaps.thy ===== *)
theory ObjMaps
  imports Visitor
begin

text \<open>Objects as maps from their property names: two well-formed objects with the same properties are the same.\<close>

lemma get_map_of: "\<forall>p \<in> set ps. nonul (fst p) \<Longrightarrow> nonul k \<Longrightarrow> map_get MojStrCmp k ps = map_of ps k"
proof (induction ps)
  case (Cons p ps)
  then show ?case by (cases p) (simp add: str_comp_nonul.cmp_eq_iff)
qed simp

lemma sorted_head:
  assumes "sorted_props ((k, v) # ps)" "\<forall>p \<in> set ((k, v) # ps). nonul (fst p)" "(j, w) \<in> set ps"
  shows "MojStrCmp k j < 0"
  using assms by auto

lemma props_ext:
  assumes "sorted_props ps" "sorted_props qs" "\<forall>p \<in> set ps. nonul (fst p)" "\<forall>p \<in> set qs. nonul (fst p)"
    and "\<And>k. nonul k \<Longrightarrow> map_of ps k = map_of qs k"
  shows "ps = qs"
  using assms
proof (induction ps arbitrary: qs)
  case Nil
  then show ?case by (cases qs) (force, use Nil.prems(4,5) in fastforce)
next
  case (Cons p ps)
  obtain k v where p: "p = (k, v)" by (cases p)
  have k: "nonul k" using Cons.prems(3) p by simp
  show ?case
  proof (cases qs)
    case Nil
    then show ?thesis using Cons.prems(5) [OF k] p by simp
  next
    case (Cons q qs')
    obtain j w where q: "q = (j, w)" by (cases q)
    have j: "nonul j" using Cons.prems(4) Cons q by simp
    have same: "j = k"
    proof (rule ccontr)
      assume ne: "j \<noteq> k"
      have "map_of qs' k = Some v" using Cons.prems(5) [OF k] ne by (simp add: p q Cons)
      then have "MojStrCmp j k < 0" using Cons.prems(2) map_of_SomeD [of qs' k v] by (force simp: Cons q)
      moreover have "map_of ps j = Some w" using Cons.prems(5) [OF j] ne by (simp add: p q Cons)
      then have "MojStrCmp k j < 0" using Cons.prems(1) map_of_SomeD [of ps j w] by (force simp: p)
      ultimately show False using str_comp.cmp_lt_iff [of j k] by simp
    qed
    have fresh: "map_of ps k = None" "map_of qs' k = None"
      using Cons.prems(1,2) str_comp.cmp_refl [of k] same by (fastforce simp: p q Cons map_of_eq_None_iff)+
    have "v = w" using Cons.prems(5) [OF k] same by (simp add: p q Cons)
    moreover have "ps = qs'"
    proof (rule Cons.IH)
      fix i :: string
      assume i: "nonul i"
      show "map_of ps i = map_of qs' i"
        using Cons.prems(5) [OF i] fresh same by (cases "i = k") (simp_all add: p q Cons)
    qed (use Cons.prems in \<open>auto simp: p q Cons\<close>)
    ultimately show ?thesis using same by (simp add: p q Cons)
  qed
qed

lemma obj_get_map_of: "wf_obj (OObject ps) \<Longrightarrow> nonul k \<Longrightarrow> obj_get k (OObject ps) = map_of ps k"
  by (simp add: get_map_of)

lemma obj_ext:
  assumes "wf_obj (OObject ps)" "wf_obj (OObject qs)" "\<And>k. nonul k \<Longrightarrow> obj_get k (OObject ps) = obj_get k (OObject qs)"
  shows "ps = qs"
  by (rule props_ext) (use assms in \<open>auto simp: get_map_of\<close>)

section \<open>Putting properties one after the other\<close>

definition obj_puts :: "obj \<Rightarrow> (string \<times> obj) list \<Rightarrow> obj" where
  "obj_puts = foldl (\<lambda>obj (k, v). obj_put k v obj)"

lemma obj_puts_simps [simp]:
  "obj_puts obj [] = obj" "obj_puts obj ((k, v) # ps) = obj_puts (obj_put k v obj) ps"
  "obj_puts obj (ps @ qs) = obj_puts (obj_puts obj ps) qs"
  by (simp_all add: obj_puts_def)

lemma obj_put_get:
  "wf_obj obj \<Longrightarrow> nonul k \<Longrightarrow> nonul j \<Longrightarrow> obj_get j (obj_put k v obj) = (if j = k then Some v else obj_get j obj)"
  by (cases obj) (auto simp: obj_put_def str_comp_nonul.cmp_eq_iff str_map.get_put)

lemma obj_puts_wf: "wf_obj obj \<Longrightarrow> \<forall>p \<in> set ps. nonul (fst p) \<and> wf_obj (snd p) \<Longrightarrow> wf_obj (obj_puts obj ps)"
proof (induction ps arbitrary: obj)
  case (Cons p ps)
  then show ?case by (cases p) (simp add: obj_put_wf)
qed simp

lemma obj_puts_get:
  assumes "wf_obj obj" "\<forall>p \<in> set ps. nonul (fst p) \<and> wf_obj (snd p)" "nonul k"
  shows "obj_get k (obj_puts obj ps) = (case map_of (rev ps) k of Some v \<Rightarrow> Some v | None \<Rightarrow> obj_get k obj)"
  using assms
proof (induction ps arbitrary: obj)
  case (Cons p ps)
  obtain j v where p: "p = (j, v)" by (cases p)
  have "wf_obj (obj_put j v obj)" using Cons.prems p by (auto intro: obj_put_wf)
  from Cons.IH [OF this] Cons.prems show ?case
    by (auto simp: p obj_put_get map_add_def split: option.splits)
qed simp

lemma obj_puts_object: "\<exists>qs. obj_puts (OObject ds) ps = OObject qs"
  by (induction ps arbitrary: ds) (auto simp: obj_put_def)

text \<open>What a builder makes of properties in any order, repeated ones included.\<close>

lemma run_puts:
  assumes "\<forall>p \<in> set ps. wf_obj (snd p)"
  shows "\<exists>pn'. run builder_ev (b\<lparr>m_stack := (OObject ds, pn) # st\<rparr>) (concat (map (\<lambda>(k, v). PropName k # obj_visit v) ps)) =
    Inr (b\<lparr>m_propName := pn', m_stack := (obj_puts (OObject ds) (map (\<lambda>(k, v). (k, undef_to_null v)) ps), pn) # st\<rparr>)"
  using assms
proof (induction ps arbitrary: ds b)
  case Nil
  show ?case by (intro exI [of _ "m_propName b"]) (cases b, simp)
next
  case (Cons p ps)
  obtain k v where p: "p = (k, v)" by (cases p)
  obtain ds' where ds': "obj_put k (undef_to_null v) (OObject ds) = OObject ds'" by (simp add: obj_put_def)
  have "run builder_ev (b\<lparr>m_stack := (OObject ds, pn) # st\<rparr>) (PropName k # obj_visit v) =
      Inr (b\<lparr>m_propName := k, m_stack := (OObject ds', pn) # st\<rparr>)"
    using Cons.prems by (simp add: p run_visit builder_value_def ds')
  with Cons.IH [of ds' "b\<lparr>m_propName := k\<rparr>"] Cons.prems show ?case
    by (simp add: p run_append ds' del: append_Cons add: append_Cons [symmetric])
qed

end
