(* ===== verification/Sorting.thy ===== *)
theory Sorting
  imports Compare "HOL-Library.Multiset"
begin

text \<open>
  \<^verbatim>\<open>MojQuickSort\<close> and \<^verbatim>\<open>MojBinarySearch\<close> (\<^verbatim>\<open>inc/core/internal/MojUtilInternal.h\<close>) on arrays with a comparison functor.
\<close>

section \<open>The array operations\<close>

definition MojSwap :: "nat \<Rightarrow> nat \<Rightarrow> 'a list \<Rightarrow> 'a list" where
  "MojSwap i j xs = xs[i := xs ! j, j := xs ! i]"

function partition_loop :: "('a \<Rightarrow> 'a \<Rightarrow> int) \<Rightarrow> nat \<Rightarrow> nat \<Rightarrow> nat \<Rightarrow> 'a list \<Rightarrow> nat \<times> 'a list" where
  "partition_loop cmp lastIdx i mid xs =
     (if i < lastIdx then
        if cmp (xs ! i) (xs ! lastIdx) < 0 then partition_loop cmp lastIdx (i + 1) (mid + 1) (MojSwap i mid xs)
        else partition_loop cmp lastIdx (i + 1) mid xs
      else (mid, xs))"
  by pat_completeness auto
termination by (relation "measure (\<lambda>(cmp, lastIdx, i, mid, xs). lastIdx - i)") auto

declare partition_loop.simps [simp del]

text \<open>\<open>rand\<close> is \<^verbatim>\<open>rand_r\<close> of the C library, whose seed is the left border.\<close>

definition MojQuickSortPartition ::
  "(u32 \<Rightarrow> nat) \<Rightarrow> ('a \<Rightarrow> 'a \<Rightarrow> int) \<Rightarrow> nat \<Rightarrow> nat \<Rightarrow> 'a list \<Rightarrow> nat \<times> 'a list" where
  "MojQuickSortPartition rand cmp left right xs =
     (let pivot = left + rand (word_of_nat left) mod (right - left);
          lastIdx = right - 1;
          (mid, xs) = partition_loop cmp lastIdx left left (MojSwap pivot lastIdx xs) in
      (mid, MojSwap mid lastIdx xs))"

lemma partition_loop_bounds: "mid \<le> i \<Longrightarrow> i \<le> lastIdx \<Longrightarrow> fst (partition_loop cmp lastIdx i mid xs) \<in> {mid..lastIdx}"
proof (induction cmp lastIdx i mid xs rule: partition_loop.induct)
  case (1 cmp lastIdx i mid xs)
  then show ?case by (subst partition_loop.simps) force
qed

lemma partition_bounds:
  "left + 1 < right \<Longrightarrow> fst (MojQuickSortPartition rand cmp left right xs) \<in> {left..<right}"
proof -
  assume r: "left + 1 < right"
  let ?ys = "MojSwap (left + rand (word_of_nat left) mod (right - left)) (right - 1) xs"
  have "fst (MojQuickSortPartition rand cmp left right xs) = fst (partition_loop cmp (right - 1) left left ?ys)"
    by (simp add: MojQuickSortPartition_def Let_def split: prod.splits)
  also have "\<dots> \<in> {left..right - 1}" by (rule partition_loop_bounds) (use r in simp_all)
  finally show ?thesis using r by auto
qed

function MojQuickSortImpl :: "(u32 \<Rightarrow> nat) \<Rightarrow> ('a \<Rightarrow> 'a \<Rightarrow> int) \<Rightarrow> nat \<Rightarrow> nat \<Rightarrow> 'a list \<Rightarrow> 'a list" where
  "MojQuickSortImpl rand cmp left right xs =
     (if left + 1 \<ge> right then xs
      else
        let (mid, xs) = MojQuickSortPartition rand cmp left right xs in
        MojQuickSortImpl rand cmp (mid + 1) right (MojQuickSortImpl rand cmp left mid xs))"
  by pat_completeness auto
termination
proof (relation "measure (\<lambda>(rand, cmp, left, right, xs). right - left)")
  fix rand :: "u32 \<Rightarrow> nat" and cmp :: "'a \<Rightarrow> 'a \<Rightarrow> int" and left right xs x mid ys
  assume r: "\<not> right \<le> left + 1" and p: "x = MojQuickSortPartition rand cmp left right xs" "(mid, ys) = x"
  have "left \<le> mid" "mid < right" using partition_bounds [of left right rand cmp xs] r p(2) [symmetric] unfolding p(1) by auto
  then show "((rand, cmp, left, mid, ys), rand, cmp, left, right, xs) \<in> measure (\<lambda>(rand, cmp, left, right, xs). right - left)"
    and "\<And>zs. ((rand, cmp, mid + 1, right, zs), rand, cmp, left, right, xs) \<in> measure (\<lambda>(rand, cmp, left, right, xs). right - left)"
    by auto
qed simp

declare MojQuickSortImpl.simps [simp del]

definition MojQuickSort :: "(u32 \<Rightarrow> nat) \<Rightarrow> ('a \<Rightarrow> 'a \<Rightarrow> int) \<Rightarrow> 'a list \<Rightarrow> 'a list" where
  "MojQuickSort rand cmp xs = MojQuickSortImpl rand cmp 0 (length xs) xs"

function binary_search :: "('k \<Rightarrow> 'a \<Rightarrow> int) \<Rightarrow> 'k \<Rightarrow> 'a list \<Rightarrow> nat \<Rightarrow> nat \<Rightarrow> nat option" where
  "binary_search cmp key xs low high =
     (if low < high then
        let mid = low + (high - low) div 2; comp = cmp key (xs ! mid) in
        if comp = 0 then Some mid
        else if comp > 0 then binary_search cmp key xs (mid + 1) high
        else binary_search cmp key xs low mid
      else None)"
  by pat_completeness auto
termination by (relation "measure (\<lambda>(cmp, key, xs, low, high). high - low)") (auto simp: Let_def)

declare binary_search.simps [simp del]

definition MojBinarySearch :: "('k \<Rightarrow> 'a \<Rightarrow> int) \<Rightarrow> 'k \<Rightarrow> 'a list \<Rightarrow> nat option" where
  "MojBinarySearch cmp key xs = binary_search cmp key xs 0 (length xs)"

section \<open>Permutations within a segment\<close>

definition permuted :: "nat \<Rightarrow> nat \<Rightarrow> 'a list \<Rightarrow> 'a list \<Rightarrow> bool" where
  "permuted l r xs ys \<longleftrightarrow> take l ys = take l xs \<and> drop r ys = drop r xs \<and> mset ys = mset xs"

lemma permuted_refl [simp]: "permuted l r xs xs"
  by (simp add: permuted_def)

lemma permuted_trans: "permuted l r xs ys \<Longrightarrow> permuted l r ys zs \<Longrightarrow> permuted l r xs zs"
  by (simp add: permuted_def)

lemma permuted_widen: "permuted l r xs ys \<Longrightarrow> l' \<le> l \<Longrightarrow> r \<le> r' \<Longrightarrow> permuted l' r' xs ys"
proof -
  assume p: "permuted l r xs ys" and "l' \<le> l" "r \<le> r'"
  then have "take l' zs = take l' (take l zs)" "drop r' zs = drop (r' - r) (drop r zs)" for zs :: "'a list"
    by (simp_all add: min_def)
  then show ?thesis using p unfolding permuted_def by metis
qed

lemma permuted_length: "permuted l r xs ys \<Longrightarrow> length ys = length xs"
  by (metis permuted_def size_mset)

lemma permuted_nth:
  assumes "permuted l r xs ys" "i < length xs" "i < l \<or> r \<le> i"
  shows "ys ! i = xs ! i"
  using assms(3)
proof
  assume "i < l"
  then show ?thesis using assms(1) nth_take [of i l xs] nth_take [of i l ys] by (simp add: permuted_def)
next
  assume "r \<le> i"
  then have "i = r + (i - r)" by simp
  moreover have "length ys = length xs" using assms(1) by (rule permuted_length)
  ultimately have "xs ! i = drop r xs ! (i - r)" "ys ! i = drop r ys ! (i - r)" using assms(2) by simp_all
  then show ?thesis using assms(1) by (simp add: permuted_def)
qed

lemma permuted_swap:
  assumes "l \<le> i" "i < r" "l \<le> j" "j < r" "r \<le> length xs"
  shows "permuted l r xs (MojSwap i j xs)"
  using assms by (simp add: permuted_def MojSwap_def mset_swap)

lemma set_segment: "r \<le> length xs \<Longrightarrow> set (take (r - l) (drop l xs)) = (!) xs ` {l..<r}"
proof -
  assume "r \<le> length xs"
  then have "take (r - l) (drop l xs) = map ((!) xs) [l..<r]" by (auto simp: list_eq_iff_nth_eq)
  then show ?thesis by simp
qed

lemma permuted_segment:
  assumes "permuted l r xs ys" "l \<le> r" "r \<le> length xs"
  shows "(!) ys ` {l..<r} = (!) xs ` {l..<r}"
proof -
  have split: "mset zs = mset (take l zs) + mset (take (r - l) (drop l zs)) + mset (drop r zs)" for zs :: "'a list"
    using assms(2) append_take_drop_id [of l zs] append_take_drop_id [of "r - l" "drop l zs"]
    by (metis drop_drop le_add_diff_inverse2 mset_append add.assoc)
  have "mset (take (r - l) (drop l ys)) = mset (take (r - l) (drop l xs))"
    using split [of xs] split [of ys] assms(1) unfolding permuted_def by (metis add_left_cancel add_right_cancel)
  then have "set (take (r - l) (drop l ys)) = set (take (r - l) (drop l xs))" by (rule mset_eq_setD)
  then show ?thesis using assms(3) permuted_length [OF assms(1)] by (simp add: set_segment)
qed

lemma permuted_all:
  assumes "permuted l r xs ys" "r \<le> length xs" "\<And>i. l \<le> i \<Longrightarrow> i < r \<Longrightarrow> P (xs ! i)" "l \<le> i" "i < r"
  shows "P (ys ! i)"
proof -
  have "ys ! i \<in> (!) ys ` {l..<r}" using assms(4,5) by simp
  then have "ys ! i \<in> (!) xs ` {l..<r}" using permuted_segment [OF assms(1) _ assms(2)] assms(4,5) by simp
  then show ?thesis using assms(3) by auto
qed

section \<open>The partition\<close>

lemma MojSwap_nth: "i < length xs \<Longrightarrow> j < length xs \<Longrightarrow> k < length xs \<Longrightarrow>
    MojSwap i j xs ! k = (if k = j then xs ! i else if k = i then xs ! j else xs ! k)"
  by (simp add: MojSwap_def nth_list_update)

lemma MojSwap_length [simp]: "length (MojSwap i j xs) = length xs"
  by (simp add: MojSwap_def)

definition parted :: "('a \<Rightarrow> 'a \<Rightarrow> int) \<Rightarrow> nat \<Rightarrow> nat \<Rightarrow> nat \<Rightarrow> 'a \<Rightarrow> 'a list \<Rightarrow> bool" where
  "parted cmp l mid i p xs \<longleftrightarrow> (\<forall>j. l \<le> j \<and> j < mid \<longrightarrow> cmp (xs ! j) p < 0) \<and> (\<forall>j. mid \<le> j \<and> j < i \<longrightarrow> cmp (xs ! j) p \<ge> 0)"

lemma partition_loop_parts:
  assumes "partition_loop cmp lastIdx i mid xs = (m, ys)" "l \<le> mid" "mid \<le> i" "i \<le> lastIdx" "lastIdx < length xs"
    and "parted cmp l mid i (xs ! lastIdx) xs"
  shows "permuted l lastIdx xs ys \<and> l \<le> m \<and> m \<le> lastIdx \<and> parted cmp l m lastIdx (xs ! lastIdx) ys"
  using assms
proof (induction cmp lastIdx i mid xs rule: partition_loop.induct)
  case (1 cmp lastIdx i mid xs)
  note eq = 1(3) [unfolded partition_loop.simps [of cmp lastIdx i mid xs]] and bounds = 1(4-7) and parts = 1(8) [unfolded parted_def]
  consider (less) "i < lastIdx" "cmp (xs ! i) (xs ! lastIdx) < 0" | (geq) "i < lastIdx" "\<not> cmp (xs ! i) (xs ! lastIdx) < 0"
    | (stop) "i = lastIdx"
    using bounds by linarith
  then show ?case
  proof cases
    case less
    let ?zs = "MojSwap i mid xs"
    have p: "?zs ! lastIdx = xs ! lastIdx" using less(1) bounds by (simp add: MojSwap_nth)
    have "parted cmp l (mid + 1) (i + 1) (?zs ! lastIdx) ?zs"
      unfolding parted_def p using less bounds parts by (auto simp: MojSwap_nth le_Suc_eq less_Suc_eq)
    with 1(1) [OF less] eq less bounds have "permuted l lastIdx ?zs ys \<and> l \<le> m \<and> m \<le> lastIdx \<and> parted cmp l m lastIdx (?zs ! lastIdx) ys"
      by simp
    moreover have "permuted l lastIdx xs ?zs" using less(1) bounds by (intro permuted_swap) auto
    ultimately show ?thesis using permuted_trans p by metis
  next
    case geq
    have "parted cmp l mid (i + 1) (xs ! lastIdx) xs" using geq parts by (auto simp: parted_def less_Suc_eq)
    with 1(2) [OF geq] eq geq bounds show ?thesis by simp
  next
    case stop
    then show ?thesis using eq bounds parts by (simp add: parted_def)
  qed
qed

lemma partition_parts:
  assumes "MojQuickSortPartition rand cmp left right xs = (mid, ys)" "left + 1 < right" "right \<le> length xs"
  shows "permuted left right xs ys" "left \<le> mid" "mid < right" "parted cmp left mid right (ys ! mid) ys \<or> cmp (ys ! mid) (ys ! mid) < 0"
proof -
  let ?pivot = "left + rand (word_of_nat left) mod (right - left)"
  let ?zs = "MojSwap ?pivot (right - 1) xs"
  have "rand (word_of_nat left) mod (right - left) < right - left" using assms(2) by simp
  then have pivot: "left \<le> ?pivot" "?pivot < right" by linarith+
  obtain us where us: "partition_loop cmp (right - 1) left left ?zs = (mid, us)" "ys = MojSwap mid (right - 1) us"
    using assms(1) by (auto simp: MojQuickSortPartition_def Let_def split: prod.splits)
  have "permuted left (right - 1) ?zs us \<and> left \<le> mid \<and> mid \<le> right - 1 \<and> parted cmp left mid (right - 1) (?zs ! (right - 1)) us"
    by (rule partition_loop_parts [OF us(1)]) (use assms in \<open>auto simp: parted_def\<close>)
  then have u: "permuted left (right - 1) ?zs us" "left \<le> mid" "mid \<le> right - 1" "parted cmp left mid (right - 1) (?zs ! (right - 1)) us"
    by auto
  have len: "length us = length xs" using permuted_length [OF u(1)] by simp
  have p: "us ! (right - 1) = ?zs ! (right - 1)" by (rule permuted_nth [OF u(1)]) (use assms in simp_all)
  have "permuted left right xs ?zs" using pivot assms by (intro permuted_swap) auto
  moreover have "permuted left right ?zs us" using permuted_widen [OF u(1), of left right] by simp
  moreover have "permuted left right us ys" unfolding us(2) using u assms len by (intro permuted_swap) auto
  ultimately show "permuted left right xs ys" by (metis permuted_trans)
  show "left \<le> mid" "mid < right" using u assms(2) by auto
  have pm: "ys ! mid = us ! (right - 1)" using u assms len unfolding us(2) by (auto simp: MojSwap_nth)
  show "parted cmp left mid right (ys ! mid) ys \<or> cmp (ys ! mid) (ys ! mid) < 0"
  proof (rule disjCI)
    assume refl: "\<not> cmp (ys ! mid) (ys ! mid) < 0"
    have "cmp (ys ! j) (ys ! mid) < 0" if "left \<le> j" "j < mid" for j
      using u(4) that u(3) assms len p pm unfolding us(2) parted_def by (simp add: MojSwap_nth)
    moreover have "cmp (ys ! j) (ys ! mid) \<ge> 0" if "mid \<le> j" "j < right" for j
    proof (cases "j = mid")
      case True
      then show ?thesis using refl by simp
    next
      case False
      let ?j = "if j = right - 1 then mid else j"
      have "ys ! j = us ! ?j" "mid \<le> ?j" "?j < right - 1" using that False u(3) assms len unfolding us(2) by (auto simp: MojSwap_nth)
      then show ?thesis using u(4) p pm by (auto simp: parted_def)
    qed
    ultimately show "parted cmp left mid right (ys ! mid) ys" by (simp add: parted_def)
  qed
qed

section \<open>Quick sort\<close>

definition sorted_in :: "('a \<Rightarrow> 'a \<Rightarrow> int) \<Rightarrow> nat \<Rightarrow> nat \<Rightarrow> 'a list \<Rightarrow> bool" where
  "sorted_in cmp l r xs \<longleftrightarrow> (\<forall>i j. l \<le> i \<and> i < j \<and> j < r \<longrightarrow> cmp (xs ! i) (xs ! j) \<le> 0)"

context comparator
begin

lemma sort_impl:
  assumes "left \<le> right" "right \<le> length xs" "list_all ok xs"
  shows "permuted left right xs (MojQuickSortImpl rand cmp left right xs) \<and>
    sorted_in cmp left right (MojQuickSortImpl rand cmp left right xs)"
  using assms
proof (induction "right - left" arbitrary: left right xs rule: less_induct)
  case less
  show ?case
  proof (cases "left + 1 \<ge> right")
    case True
    then show ?thesis by (simp add: MojQuickSortImpl.simps [of rand cmp left right xs] sorted_in_def)
  next
    case False
    then have lt: "left + 1 < right" by simp
    obtain mid ys where ys: "MojQuickSortPartition rand cmp left right xs = (mid, ys)" by fastforce
    note part = partition_parts [OF ys lt less.prems(2)]
    have oks: "list_all ok zs" if "permuted left right xs zs" for zs
      using that less.prems(3) mset_eq_setD [of zs xs] by (simp add: permuted_def list_all_iff)
    have len_ys: "length ys = length xs" by (rule permuted_length [OF part(1)])
    let ?us = "MojQuickSortImpl rand cmp left mid ys" and ?zs = "MojQuickSortImpl rand cmp left right xs"
    have zs: "?zs = MojQuickSortImpl rand cmp (mid + 1) right ?us"
      using lt ys by (simp add: MojQuickSortImpl.simps [of rand cmp left right xs])
    have us: "permuted left mid ys ?us" "sorted_in cmp left mid ?us"
      using less.hyps [of mid left ys] part(2,3) less.prems(2) oks [OF part(1)] len_ys by auto
    have perm_us: "permuted left right xs ?us"
      using permuted_trans [OF part(1)] permuted_widen [OF us(1), of left right] part(3) by simp
    have len_us: "length ?us = length xs" by (rule permuted_length [OF perm_us])
    have zs': "permuted (mid + 1) right ?us ?zs" "sorted_in cmp (mid + 1) right ?zs"
      unfolding zs using less.hyps [of right "mid + 1" ?us] part(2,3) less.prems(2) oks [OF perm_us] len_us by auto
    have perm: "permuted left right xs ?zs"
      using permuted_trans [OF perm_us] permuted_widen [OF zs'(1), of left right] part(2) by simp
    have len: "length ?zs = length xs" by (rule permuted_length [OF perm])
    have ok: "ok (?zs ! i)" if "i < right" for i
      using oks [OF perm] len less.prems(2) that by (simp add: list_all_length)
    have low: "?zs ! i = ?us ! i" if "i \<le> mid" for i
      by (rule permuted_nth [OF zs'(1)]) (use that part(3) less.prems(2) len_us in simp_all)
    have pivot: "?zs ! mid = ys ! mid"
      using low [of mid] permuted_nth [OF us(1), of mid] part(3) less.prems(2) len_ys by simp
    have "cmp (ys ! mid) (ys ! mid) = 0" using cmp_refl ok [of mid] part(3) pivot by simp
    then have parts: "parted cmp left mid right (?zs ! mid) ys" using part(4) pivot by simp
    have below: "cmp (?zs ! i) (?zs ! mid) \<le> 0" if "left \<le> i" "i < mid" for i
    proof -
      have "cmp (?us ! i) (?zs ! mid) \<le> 0"
        using that parts part(3) less.prems(2) len_ys
        by (intro permuted_all [OF us(1), where P = "\<lambda>x. cmp x (?zs ! mid) \<le> 0"]) (auto simp: parted_def order.strict_iff_order)
      then show ?thesis using low [of i] that by simp
    qed
    have above: "cmp (?zs ! mid) (?zs ! i) \<le> 0" if "mid < i" "i < right" for i
    proof -
      have "?us ! j = ys ! j" if "mid < j" "j < right" for j
        by (rule permuted_nth [OF us(1)]) (use that less.prems(2) len_ys in simp_all)
      then have "cmp (?zs ! i) (?zs ! mid) \<ge> 0"
        using that parts less.prems(2) len_us
        by (intro permuted_all [OF zs'(1), where P = "\<lambda>x. cmp x (?zs ! mid) \<ge> 0"]) (auto simp: parted_def)
      then show ?thesis using cmp_le_iff ok that part(3) by simp
    qed
    have "cmp (?zs ! i) (?zs ! j) \<le> 0" if "left \<le> i" "i < j" "j < right" for i j
    proof -
      consider "j < mid" | "mid < i" | "i \<le> mid" "mid \<le> j" by linarith
      then show ?thesis
      proof cases
        case 1
        then show ?thesis using us(2) that low [of i] low [of j] by (simp add: sorted_in_def)
      next
        case 2
        then show ?thesis using zs'(2) that by (simp add: sorted_in_def)
      next
        case 3
        then have "cmp (?zs ! i) (?zs ! mid) \<le> 0" "cmp (?zs ! mid) (?zs ! j) \<le> 0"
          using below [of i] above [of j] that part(3) cmp_refl ok [of mid] by (cases "i = mid"; cases "j = mid"; simp)+
        then show ?thesis using cmp_trans ok that part(3) by (meson less_trans less.prems)
      qed
    qed
    then show ?thesis using perm by (simp add: sorted_in_def)
  qed
qed

lemma quick_sort:
  assumes "list_all ok xs"
  shows "mset (MojQuickSort rand cmp xs) = mset xs" "sorted_wrt (\<lambda>x y. cmp x y \<le> 0) (MojQuickSort rand cmp xs)"
  using sort_impl [of 0 "length xs" xs rand] assms permuted_length [of 0 "length xs" xs "MojQuickSort rand cmp xs"]
  by (simp_all add: MojQuickSort_def permuted_def sorted_in_def sorted_wrt_iff_nth_less)

text \<open>A binary search of a sorted array finds the key wherever it is.\<close>

lemma binary_search_spec:
  assumes "sorted_wrt (\<lambda>x y. cmp x y \<le> 0) xs" "list_all ok xs" "ok key" "high \<le> length xs"
  shows "case binary_search cmp key xs low high of
      Some i \<Rightarrow> low \<le> i \<and> i < high \<and> cmp key (xs ! i) = 0
    | None \<Rightarrow> (\<forall>i. low \<le> i \<and> i < high \<longrightarrow> cmp key (xs ! i) \<noteq> 0)"
  using assms(4)
proof (induction "high - low" arbitrary: low high rule: less_induct)
  case less
  show ?case
  proof (cases "low < high")
    case True
    let ?mid = "low + (high - low) div 2"
    have mid: "low \<le> ?mid" "?mid < high" using True by auto
    have ord: "cmp (xs ! i) (xs ! j) \<le> 0" if "i \<le> j" "j < high" for i j
      using assms(1,2) less.prems that cmp_refl by (cases "i = j") (auto simp: sorted_wrt_iff_nth_less list_all_length)
    have okn: "ok (xs ! i)" if "i < high" for i using assms(2) less.prems that by (simp add: list_all_length)
    consider "cmp key (xs ! ?mid) = 0" | "cmp key (xs ! ?mid) > 0" | "cmp key (xs ! ?mid) < 0" by linarith
    then show ?thesis
    proof cases
      case 1
      then show ?thesis using mid True by (subst binary_search.simps) (simp add: Let_def)
    next
      case 2
      have "cmp key (xs ! i) \<noteq> 0" if "low \<le> i" "i \<le> ?mid" for i
      proof
        assume "cmp key (xs ! i) = 0"
        moreover have "cmp (xs ! i) (xs ! ?mid) \<le> 0" "ok (xs ! i)" "ok (xs ! ?mid)"
          using ord [of i ?mid] okn [of i] okn [of ?mid] that mid by auto
        ultimately have "cmp key (xs ! ?mid) \<le> 0" using cmp_trans [of key "xs ! i" "xs ! ?mid"] assms(3) by simp
        then show False using 2 by simp
      qed
      moreover have "binary_search cmp key xs low high = binary_search cmp key xs (?mid + 1) high"
        using 2 True by (subst binary_search.simps) (simp add: Let_def)
      moreover have "case binary_search cmp key xs (?mid + 1) high of
          Some i \<Rightarrow> ?mid + 1 \<le> i \<and> i < high \<and> cmp key (xs ! i) = 0
        | None \<Rightarrow> (\<forall>i. ?mid + 1 \<le> i \<and> i < high \<longrightarrow> cmp key (xs ! i) \<noteq> 0)"
        by (rule less.hyps) (use less.prems mid in auto)
      ultimately show ?thesis using mid by (cases "binary_search cmp key xs (?mid + 1) high") (auto, meson not_less_eq_eq)
    next
      case 3
      have "cmp key (xs ! i) \<noteq> 0" if "?mid \<le> i" "i < high" for i
      proof
        assume "cmp key (xs ! i) = 0"
        moreover have oks: "ok (xs ! i)" "ok (xs ! ?mid)" using okn [of i] okn [of ?mid] that mid by auto
        moreover have "cmp (xs ! ?mid) (xs ! i) \<le> 0" using ord [of ?mid i] that by simp
        ultimately have "cmp (xs ! ?mid) key \<le> 0"
          using cmp_trans [of "xs ! ?mid" "xs ! i" key] cmp_le_iff [of key "xs ! i"] assms(3) by simp
        then show False using 3 cmp_le_iff [of key "xs ! ?mid"] assms(3) oks by simp
      qed
      moreover have "binary_search cmp key xs low high = binary_search cmp key xs low ?mid"
        using 3 True by (subst binary_search.simps) (simp add: Let_def)
      moreover have "case binary_search cmp key xs low ?mid of
          Some i \<Rightarrow> low \<le> i \<and> i < ?mid \<and> cmp key (xs ! i) = 0
        | None \<Rightarrow> (\<forall>i. low \<le> i \<and> i < ?mid \<longrightarrow> cmp key (xs ! i) \<noteq> 0)"
        by (rule less.hyps) (use less.prems mid in auto)
      ultimately show ?thesis using mid by (cases "binary_search cmp key xs low ?mid") (auto, meson not_less)
    qed
  next
    case False
    then show ?thesis by (subst binary_search.simps) simp
  qed
qed

end

end
