(* ===== verification/DbTokens.thy ===== *)
theory DbTokens
  imports LevelSeq
begin

text \<open>
  The state of a kind in the store (\<^verbatim>\<open>src/db/MojDbKindState.cpp\<close>): the tokens of its property names, its own token
  and the ids of its indexes. \<^verbatim>\<open>MojDbKindState\<close> provides the interface \<^verbatim>\<open>MojSharedTokenSet\<close>, the locale
  \<open>shared_tokens\<close>, on which the writer of objects relies.
\<close>

section \<open>Steps with a result and a state that survives an error\<close>

type_synonym ('s, 'a) step = "'s \<Rightarrow> 'a res \<times> 's"

definition sbind :: "('s, 'a) step \<Rightarrow> ('a \<Rightarrow> ('s, 'b) step) \<Rightarrow> ('s, 'b) step" where
  "sbind m f = (\<lambda>s. case m s of (Inl e, s') \<Rightarrow> (Inl e, s') | (Inr a, s') \<Rightarrow> f a s')"

definition sret :: "'a res \<Rightarrow> ('s, 'a) step" where
  "sret r = (\<lambda>s. (r, s))"

lemma sret_apply [simp]: "sret r s = (r, s)"
  by (simp add: sret_def)

lemma sbind_Inr_iff: "sbind m f s = (Inr b, s'') \<longleftrightarrow> (\<exists>a s'. m s = (Inr a, s') \<and> f a s' = (Inr b, s''))"
  by (auto simp: sbind_def split: prod.splits sum.splits)

lemma sbind_simps [simp]:
  "m s = (Inr a, s') \<Longrightarrow> sbind m f s = f a s'"
  "m s = (Inl e, s') \<Longrightarrow> sbind m f s = (Inl e, s')"
  by (simp_all add: sbind_def)

section \<open>MojDbKindState\<close>

definition IndexIdsKey :: string where "IndexIdsKey = ''indexIds''"
definition KindTokensKey :: string where "KindTokensKey = ''kindTokens''"
definition TokensKey :: string where "TokensKey = ''tokens''"

record kind_state =
  ks_oldTokensItem :: "byte list option"
  ks_kindId :: string
  ks_tokensObj :: obj
  ks_tokenVec :: "string list"
  ks_kindToken :: i64
  ks_nextToken :: byte

definition kind_state_new :: "string \<Rightarrow> kind_state" where
  "kind_state_new kindId = \<lparr>ks_oldTokensItem = None, ks_kindId = kindId, ks_tokensObj = OUndefined, ks_tokenVec = [],
     ks_kindToken = 0x7FFFFFFFFFFFFFFF, ks_nextToken = TokenStartMarker\<rparr>"

text \<open>
  What a state works on: the databases and the sequence of the kind engine, and the transaction of the request.
\<close>

record 'it kind_env =
  ke_world :: level_world
  ke_seq :: "level_seq \<times> contents"
  ke_txn :: "'it level_txn"

section \<open>Reading and writing the records of a kind\<close>

definition ks_readObj ::
  "string \<Rightarrow> string \<Rightarrow> obj \<Rightarrow> string \<Rightarrow> level_world \<Rightarrow> 'it level_txn \<Rightarrow> (obj \<times> byte list option) res" where
  "ks_readObj kindId key val db w t =
     rbind (ldb_get db (OString kindId) w t) (\<lambda>oldItem.
       case oldItem of
         None \<Rightarrow> Inr (val, None)
       | Some item \<Rightarrow> rbind (item_toObject item) (\<lambda>obj.
           Inr (case obj_get key obj of Some v \<Rightarrow> v | None \<Rightarrow> OUndefined, Some item)))"

definition ks_writeObj ::
  "'it engine_iters \<Rightarrow> string \<Rightarrow> string \<Rightarrow> obj \<Rightarrow> string \<Rightarrow> level_world \<Rightarrow> byte list option \<Rightarrow> 'it level_txn \<Rightarrow>
   (byte list option \<times> 'it level_txn) res" where
  "ks_writeObj iters kindId key val db w oldItem t =
     rbind (case oldItem of Some item \<Rightarrow> item_toObject item | None \<Rightarrow> Inr OUndefined) (\<lambda>obj.
     rbind (toBytes (obj_put key val obj)) (\<lambda>buf.
     let t = t\<lparr>t_quotaEnabled := False\<rparr> in
     rbind (case oldItem of
              Some item \<Rightarrow> rbind (ldb_update iters db (OString kindId) buf item w t) (\<lambda>t. Inr (oldItem, t))
            | None \<Rightarrow>
                rbind (ldb_insert iters db (OString kindId) buf w t) (\<lambda>t.
                rbind (ldb_get db (OString kindId) w t) (\<lambda>item.
                  if item = None then Inl MojAssertFailed else Inr (item, t)))) (\<lambda>(oldItem, t).
       Inr (oldItem, t\<lparr>t_quotaEnabled := True\<rparr>))))"

text \<open>The tokens are written in a transaction of their own; \<open>status\<close> is what the databases answer to its commit.\<close>

definition ks_writeTokens ::
  "'it engine_iters \<Rightarrow> (string \<Rightarrow> MojErr option) \<Rightarrow> obj \<Rightarrow> (kind_state \<times> 'it kind_env, unit) step" where
  "ks_writeTokens iters status tokensObj = (\<lambda>(s, e).
     case ks_writeObj iters (ks_kindId s) TokensKey tokensObj KindsDbName (ke_world e) (ks_oldTokensItem s) level_txn_new of
       Inl err \<Rightarrow> (Inl err, s, e)
     | Inr (item, t) \<Rightarrow>
         (case env_commitImpl status t (ke_world e) of
            (w, None) \<Rightarrow> (Inr (), s\<lparr>ks_oldTokensItem := item\<rparr>, e\<lparr>ke_world := w\<rparr>)
          | (w, Some err) \<Rightarrow> (Inl err, s\<lparr>ks_oldTokensItem := item\<rparr>, e\<lparr>ke_world := w\<rparr>)))"

definition ks_readIds ::
  "string \<Rightarrow> string \<Rightarrow> level_world \<Rightarrow> 'it level_txn \<Rightarrow> (obj \<times> byte list option) res" where
  "ks_readIds kindId key w t = ks_readObj kindId key OUndefined IndexIdsDbName w t"

definition ks_writeIds ::
  "'it engine_iters \<Rightarrow> string \<Rightarrow> string \<Rightarrow> obj \<Rightarrow> level_world \<Rightarrow> byte list option \<Rightarrow> 'it level_txn \<Rightarrow>
   (byte list option \<times> 'it level_txn) res" where
  "ks_writeIds iters kindId key obj w oldItem t = ks_writeObj iters kindId key obj IndexIdsDbName w oldItem t"

section \<open>Ids\<close>

text \<open>The id of a name and whether it is new.\<close>

definition ks_id ::
  "'it engine_iters \<Rightarrow> string \<Rightarrow> string \<Rightarrow> (kind_state \<times> 'it kind_env, obj \<times> bool) step" where
  "ks_id iters name objKey = (\<lambda>(s, e).
     case ks_readIds (ks_kindId s) objKey (ke_world e) (ke_txn e) of
       Inl err \<Rightarrow> (Inl err, s, e)
     | Inr (obj, item) \<Rightarrow>
         (case obj_get name obj of
            Some idOut \<Rightarrow> (Inr (idOut, False), s, e)
          | None \<Rightarrow>
              (case seq_get (ke_seq e) of
                 (Inl err, sq) \<Rightarrow> (Inl err, s, e\<lparr>ke_seq := sq\<rparr>)
               | (Inr newId, sq) \<Rightarrow>
                   (case ks_writeIds iters (ks_kindId s) objKey (obj_put name (OInt newId) obj) (ke_world e) item (ke_txn e) of
                      Inl err \<Rightarrow> (Inl err, s, e\<lparr>ke_seq := sq\<rparr>)
                    | Inr (_, t) \<Rightarrow> (Inr (OInt newId, True), s, e\<lparr>ke_seq := sq, ke_txn := t\<rparr>)))))"

definition ks_indexId :: "'it engine_iters \<Rightarrow> string \<Rightarrow> (kind_state \<times> 'it kind_env, obj \<times> bool) step" where
  "ks_indexId iters indexName = ks_id iters indexName IndexIdsKey"

definition ks_delIndex :: "'it engine_iters \<Rightarrow> string \<Rightarrow> (kind_state \<times> 'it kind_env, unit) step" where
  "ks_delIndex iters indexName = (\<lambda>(s, e).
     case rbind (ks_readIds (ks_kindId s) IndexIdsKey (ke_world e) (ke_txn e)) (\<lambda>(obj, item).
            let (found, obj) = obj_del indexName obj in
            if \<not> found then Inl MojAssertFailed
            else ks_writeIds iters (ks_kindId s) IndexIdsKey obj (ke_world e) item (ke_txn e)) of
       Inl err \<Rightarrow> (Inl err, s, e)
     | Inr (_, t) \<Rightarrow> (Inr (), s, e\<lparr>ke_txn := t\<rparr>))"

section \<open>Tokens\<close>

text \<open>
  When the name has a token already, or when the tokens are used up, the vector and the object are left as the caller
  made them, which is empty.
\<close>

definition ks_addPropImpl ::
  "'it engine_iters \<Rightarrow> (string \<Rightarrow> MojErr option) \<Rightarrow> string \<Rightarrow> bool \<Rightarrow>
   (kind_state \<times> 'it kind_env, byte \<times> string list \<times> obj) step" where
  "ks_addPropImpl iters status propName write = (\<lambda>(s, e).
     case get_uint32 MojStrToInt64 propName (ks_tokensObj s) of
       Inl err \<Rightarrow> (Inl err, s, e)
     | Inr (Some token) \<Rightarrow>
         (if \<not> token \<le> 255 then Inl MojAssertFailed else Inr (ucast token, [], OUndefined), s, e)
     | Inr None \<Rightarrow>
         if ks_nextToken s < 255 then
           let obj = obj_put propName (OInt (ucast (ks_nextToken s))) (ks_tokensObj s);
               tokenVec = ks_tokenVec s @ [propName] in
           sbind (if write then ks_writeTokens iters status obj else sret (Inr ())) (\<lambda>_ (s, e).
             (Inr (ks_nextToken s, tokenVec, obj),
              s\<lparr>ks_tokensObj := obj, ks_tokenVec := tokenVec, ks_nextToken := ks_nextToken s + 1\<rparr>, e)) (s, e)
         else (Inr (InvalidToken, [], OUndefined), s, e))"

definition ks_addToken ::
  "'it engine_iters \<Rightarrow> (string \<Rightarrow> MojErr option) \<Rightarrow> string \<Rightarrow>
   (kind_state \<times> 'it kind_env, byte \<times> string list \<times> obj) step" where
  "ks_addToken iters status propName = ks_addPropImpl iters status propName True"

text \<open>\<^verbatim>\<open>MojTokenSet::init\<close> takes a copy of the kind's tokens.\<close>

definition ks_tokenSet :: "kind_state \<times> 'it kind_env \<Rightarrow> (kind_state \<times> 'it kind_env) token_set" where
  "ks_tokenSet = (\<lambda>(s, e). \<lparr>m_tokenVec = ks_tokenVec s, m_tokenObj = ks_tokensObj s, m_sharedTokenSet = (s, e)\<rparr>)"

section \<open>Loading\<close>

definition ks_initKindToken :: "'it engine_iters \<Rightarrow> (kind_state \<times> 'it kind_env, unit) step" where
  "ks_initKindToken iters = (\<lambda>(s, e).
     sbind (ks_id iters (ks_kindId s) KindTokensKey) (\<lambda>(token, _) (s, e).
       (Inr (), s\<lparr>ks_kindToken := intValueWith MojStrToInt64 token\<rparr>, e)) (s, e))"

text \<open>
  The vector is filled from the stored object, each name at the place its token says. A state whose loading fails is
  given up by its kind, so the part of the vector that was filled is not kept.
\<close>

definition ks_setToken :: "string list \<times> byte \<Rightarrow> string \<times> obj \<Rightarrow> (string list \<times> byte) res" where
  "ks_setToken = (\<lambda>(vec, maxToken) (key, val).
     let value = intValueWith MojStrToInt64 val; idx = unat (value - ucast TokenStartMarker) in
     if sint value < 32 \<or> sint value \<ge> 255 \<or> idx \<ge> length vec then Inl MojErrDbInvalidToken
     else
       let maxToken = (if sint value > uint maxToken then ucast value else maxToken) in
       rbind (vec_setAt idx key vec) (\<lambda>vec. Inr (vec, maxToken)))"

definition ks_loadTokens :: "obj \<Rightarrow> byte \<Rightarrow> (string list \<times> byte) res" where
  "ks_loadTokens tokensObj nextToken =
     rbind (run ks_setToken (vec_resize (containerSize tokensObj) [] [], 0) (ensureObject tokensObj)) (\<lambda>(vec, maxToken).
       Inr (vec, if maxToken > 0 then maxToken + 1 else nextToken))"

fun ks_addStrings ::
  "'it engine_iters \<Rightarrow> (string \<Rightarrow> MojErr option) \<Rightarrow> string list \<Rightarrow> bool \<Rightarrow> (kind_state \<times> 'it kind_env, bool) step" where
  "ks_addStrings iters status [] updated = sret (Inr updated)"
| "ks_addStrings iters status (str # strings) updated = (\<lambda>(s, e).
     if \<not> obj_contains str (ks_tokensObj s)
     then sbind (ks_addPropImpl iters status str False) (\<lambda>_. ks_addStrings iters status strings True) (s, e)
     else ks_addStrings iters status strings updated (s, e))"

definition ks_initTokens ::
  "'it engine_iters \<Rightarrow> (string \<Rightarrow> MojErr option) \<Rightarrow> string list \<Rightarrow> (kind_state \<times> 'it kind_env, unit) step" where
  "ks_initTokens iters status strings = (\<lambda>(s, e).
     case ks_readObj (ks_kindId s) TokensKey (ks_tokensObj s) KindsDbName (ke_world e) (ke_txn e) of
       Inl err \<Rightarrow> (Inl err, s, e)
     | Inr (tokensObj, item) \<Rightarrow>
         let s = s\<lparr>ks_tokensObj := tokensObj, ks_oldTokensItem := item\<rparr> in
         (case ks_loadTokens tokensObj (ks_nextToken s) of
            Inl err \<Rightarrow> (Inl err, s, e)
          | Inr (vec, nextToken) \<Rightarrow>
              sbind (ks_addStrings iters status strings False) (\<lambda>updated (s, e).
                if updated then ks_writeTokens iters status (ks_tokensObj s) (s, e) else (Inr (), s, e))
                (s\<lparr>ks_tokenVec := vec, ks_nextToken := nextToken\<rparr>, e)))"

definition ks_init ::
  "'it engine_iters \<Rightarrow> (string \<Rightarrow> MojErr option) \<Rightarrow> string list \<Rightarrow> (kind_state \<times> 'it kind_env, unit) step" where
  "ks_init iters status strings = sbind (ks_initKindToken iters) (\<lambda>_. ks_initTokens iters status strings)"

section \<open>What the tokens are\<close>

text \<open>The object that holds the tokens of a vector of names, and the vectors that occur.\<close>

fun tokens_from :: "nat \<Rightarrow> string list \<Rightarrow> obj \<Rightarrow> obj" where
  "tokens_from i [] o' = o'"
| "tokens_from i (s # names) o' = tokens_from (Suc i) names (obj_put s (OInt (word_of_nat (32 + i))) o')"

definition tokens_obj :: "string list \<Rightarrow> obj" where
  "tokens_obj names = tokens_from 0 names OUndefined"

definition names_ok :: "string list \<Rightarrow> bool" where
  "names_ok names \<longleftrightarrow> distinct names \<and> length names \<le> 223 \<and> (\<forall>s \<in> set names. nonul s)"

lemma names_ok_Nil [simp]: "names_ok []"
  by (simp add: names_ok_def)

lemma tokens_from_append: "tokens_from i (names @ names') o' = tokens_from (i + length names) names' (tokens_from i names o')"
  by (induction names arbitrary: i o') simp_all

lemma tokens_obj_simps [simp]:
  "tokens_obj [] = OUndefined"
  "tokens_obj (names @ [s]) = obj_put s (OInt (word_of_nat (32 + length names))) (tokens_obj names)"
  by (simp_all add: tokens_obj_def tokens_from_append)

lemmas str_eq = str_comp_nonul.cmp_eq_iff

lemma obj_get_put':
  "wf_obj obj \<Longrightarrow> obj_get key' (obj_put key val obj) = (if MojStrCmp key key' = 0 then Some val else obj_get key' obj)"
  by (cases obj) (simp_all only: obj_get_put obj.case obj_get.simps)

lemma obj_put_no_undef: "no_undef val \<Longrightarrow> (\<forall>p \<in> set (ensureObject o'). no_undef (snd p)) \<Longrightarrow> no_undef (obj_put key val o')"
  by (auto simp: obj_put_def dest: map_put_mem)

lemma tokens_obj_ok:
  "\<forall>s \<in> set names. nonul s \<Longrightarrow> wf_obj (tokens_obj names) \<and> (names \<noteq> [] \<longrightarrow> no_undef (tokens_obj names)) \<and>
    (tokens_obj names = OUndefined \<and> names = [] \<or> (\<exists>ps. tokens_obj names = OObject ps \<and> names \<noteq> []))"
proof (induction names rule: rev_induct)
  case (snoc s names)
  then have "wf_obj (obj_put s (OInt (word_of_nat (32 + length names))) (tokens_obj names))" by auto
  moreover have "no_undef (obj_put s (OInt (word_of_nat (32 + length names))) (tokens_obj names))"
    using snoc by (intro obj_put_no_undef) force+
  moreover have "\<exists>ps. obj_put s (OInt (word_of_nat (32 + length names))) (tokens_obj names) = OObject ps"
    by (simp add: obj_put_def)
  ultimately show ?case by simp
qed simp

lemma tokens_obj_get:
  "\<forall>s \<in> set names. nonul s \<Longrightarrow> distinct names \<Longrightarrow> i < length names \<Longrightarrow>
   obj_get (names ! i) (tokens_obj names) = Some (OInt (word_of_nat (32 + i)))"
proof (induction names rule: rev_induct)
  case (snoc s names)
  have wf: "wf_obj (tokens_obj names)" using snoc.prems tokens_obj_ok [of names] by simp
  have "names ! i \<noteq> s" if "i < length names" using that snoc.prems(2) by auto
  moreover have "MojStrCmp s (names ! i) = 0 \<longleftrightarrow> s = names ! i" if "i < length names"
    using that snoc.prems(1) by (intro str_eq) auto
  moreover have "MojStrCmp s s = 0" by (simp add: str_comp.cmp_refl)
  ultimately show ?case
    using snoc by (cases "i = length names") (auto simp: obj_get_put' [OF wf] nth_append less_Suc_eq)
qed simp

lemma tokens_obj_get_None:
  "\<forall>s \<in> set names. nonul s \<Longrightarrow> nonul s \<Longrightarrow> s \<notin> set names \<Longrightarrow> obj_get s (tokens_obj names) = None"
proof (induction names rule: rev_induct)
  case (snoc t names)
  have wf: "wf_obj (tokens_obj names)" using snoc.prems tokens_obj_ok [of names] by simp
  have "obj_get s (tokens_obj names) = None" using snoc by simp
  moreover have "MojStrCmp t s \<noteq> 0" using str_eq [of t s] snoc.prems by auto
  ultimately show ?case by (simp add: obj_get_put' [OF wf])
qed simp

lemma tokens_obj_contains: "names_ok names \<Longrightarrow> nonul s \<Longrightarrow> obj_contains s (tokens_obj names) \<longleftrightarrow> s \<in> set names"
  using tokens_obj_get [of names] tokens_obj_get_None [of names s]
  by (cases "s \<in> set names") (auto simp: obj_contains_def names_ok_def in_set_conv_nth)

section \<open>The tokens are kept\<close>

definition tokens_ok :: "string list \<Rightarrow> kind_state \<Rightarrow> bool" where
  "tokens_ok names s \<longleftrightarrow> names_ok names \<and> nonul (ks_kindId s) \<and> ks_tokenVec s = names \<and> ks_tokensObj s = tokens_obj names \<and>
     ks_nextToken s = word_of_nat (32 + length names) \<and>
     (\<forall>item. ks_oldTokensItem s = Some item \<longrightarrow> (\<exists>x. item_toObject item = Inr (OObject [(TokensKey, x)])))"

definition tokens_record :: "string list \<Rightarrow> byte list option" where
  "tokens_record names = (if names = [] then None else Some (enc (OObject [(TokensKey, tokens_obj names)])))"

definition stored :: "string \<Rightarrow> level_world \<Rightarrow> byte list option" where
  "stored kindId w = lw_dbs w KindsDbName (enc (OString kindId))"

definition store_tokens :: "string \<Rightarrow> obj \<Rightarrow> level_world \<Rightarrow> level_world" where
  "store_tokens kindId obj w = w\<lparr>lw_dbs := (lw_dbs w)(KindsDbName :=
     (lw_dbs w KindsDbName)(enc (OString kindId) \<mapsto> enc (OObject [(TokensKey, obj)])))\<rparr>"

lemma stored_store_tokens [simp]:
  "stored kindId (store_tokens kindId obj w) = Some (enc (OObject [(TokensKey, obj)]))"
  by (simp add: stored_def store_tokens_def)

lemma ldb_putItem_new:
  "ldb_putItem iters db key val q w (level_txn_new\<lparr>t_quotaEnabled := False\<rparr>) =
   Inr (level_txn_new\<lparr>t_quotaEnabled := False,
     lt_tableTxns := [(db, \<lparr>tt_values = [(key, val)], tt_deletes = [], tt_iters = []\<rparr>)]\<rparr>)"
  by (simp add: ldb_putItem_def offsetQuota_def level_txn_new_def tableTxn_def table_txn_new_def tt_Put_def
      set_tableTxn_def)

lemma env_commit_one:
  "lt_tableTxns t = [(db, \<lparr>tt_values = [(key, val)], tt_deletes = [], tt_iters = []\<rparr>)] \<Longrightarrow> env_commitImpl status t w =
   (case status db of
      None \<Rightarrow> (w\<lparr>lw_dbs := (lw_dbs w)(db := (lw_dbs w db)(key \<mapsto> val))\<rparr>, None)
    | Some e \<Rightarrow> (w, Some e))"
  by (simp add: env_commitImpl_def commitImpl_def commit_batch_def split: option.split)

lemma item_toObject_tokens:
  "wf_obj obj \<Longrightarrow> item_toObject (enc (OObject [(TokensKey, obj)])) = Inr (OObject [(TokensKey, undef_to_null obj)])"
  by (simp add: item_toObject_def fromBytes_enc TokensKey_def nonul_def del: enc.simps)

lemma put_TokensKey:
  "obj_put TokensKey obj OUndefined = OObject [(TokensKey, obj)]"
  "obj_put TokensKey obj (OObject [(TokensKey, x)]) = OObject [(TokensKey, obj)]"
  by (simp_all add: obj_put_def str_comp.cmp_refl)

text \<open>What writing the tokens does, when the old item is one of tokens.\<close>

lemma writeTokens_eval:
  assumes "\<forall>item. ks_oldTokensItem s = Some item \<longrightarrow> (\<exists>x. item_toObject item = Inr (OObject [(TokensKey, x)]))"
    and "wf_obj obj"
  shows "\<exists>item. (\<exists>x. item_toObject item = Inr (OObject [(TokensKey, x)])) \<and>
    ks_writeTokens iters status obj (s, e) =
      (case status KindsDbName of
         None \<Rightarrow> (Inr (), s\<lparr>ks_oldTokensItem := Some item\<rparr>, e\<lparr>ke_world := store_tokens (ks_kindId s) obj (ke_world e)\<rparr>)
       | Some err \<Rightarrow> (Inl err, s\<lparr>ks_oldTokensItem := Some item\<rparr>, e))"
proof (cases "ks_oldTokensItem s")
  case None
  then show ?thesis
    using item_toObject_tokens [OF assms(2)]
    by (intro exI [of _ "enc (OObject [(TokensKey, obj)])"])
      (simp add: ks_writeTokens_def ks_writeObj_def put_TokensKey ldb_defs ldb_putItem_new Let_def ldb_getItem_def tableTxn_def
        tt_Get_def isDeleted_def set_contains_def env_commit_one store_tokens_def
        bcmp.cmp_refl del: enc.simps split: option.split)
next
  case (Some item)
  then obtain x where "item_toObject item = Inr (OObject [(TokensKey, x)])" using assms(1) by auto
  then show ?thesis
    using Some
    by (intro exI [of _ item])
      (simp add: ks_writeTokens_def ks_writeObj_def put_TokensKey ldb_defs offsetQuota_def ldb_putItem_new Let_def
        env_commit_one store_tokens_def
        del: enc.simps split: option.split)
qed

lemma token_word:
  assumes "i < 223"
  shows "sint (word_of_nat (32 + i) :: i64) = 32 + int i" "unat (word_of_nat (32 + i) :: byte) = 32 + i"
    "ucast (word_of_nat (32 + i) :: i64) = (word_of_nat (32 + i) :: u32)"
    "ucast (word_of_nat (32 + i) :: u32) = (word_of_nat (32 + i) :: byte)"
    "ucast (word_of_nat (32 + i) :: byte) = (word_of_nat (32 + i) :: i64)"
    "ucast (word_of_nat (32 + i) :: i64) = (word_of_nat (32 + i) :: byte)"
proof -
  have "(word_of_nat (32 + i) :: i64) = word_of_int (32 + int i)" by simp
  then show "sint (word_of_nat (32 + i) :: i64) = 32 + int i"
    using assms by (simp only: signed_of_int) (simp add: signed_take_bit_int_eq_self)
  have *: "unat (word_of_nat (32 + i) :: byte) = 32 + i" "unat (word_of_nat (32 + i) :: u32) = 32 + i"
    "unat (word_of_nat (32 + i) :: i64) = 32 + i"
    using assms by (simp_all only: unat_of_nat) (simp_all add: take_bit_nat_eq_self)
  then show "unat (word_of_nat (32 + i) :: byte) = 32 + i" by simp
  show "ucast (word_of_nat (32 + i) :: i64) = (word_of_nat (32 + i) :: u32)"
    "ucast (word_of_nat (32 + i) :: u32) = (word_of_nat (32 + i) :: byte)"
    "ucast (word_of_nat (32 + i) :: byte) = (word_of_nat (32 + i) :: i64)"
    "ucast (word_of_nat (32 + i) :: i64) = (word_of_nat (32 + i) :: byte)"
    using * by (metis of_nat_unat)+
qed

abbreviation token_at :: "nat \<Rightarrow> byte" where
  "token_at i \<equiv> word_of_nat (32 + i)"

lemma addProp_found:
  assumes "tokens_ok names s" "i < length names"
  shows "ks_addPropImpl iters status (names ! i) write (s, e) = (Inr (token_at i, [], OUndefined), s, e)"
proof -
  have i: "i < 223" and get: "obj_get (names ! i) (ks_tokensObj s) = Some (OInt (word_of_nat (32 + i)))"
    using assms tokens_obj_get [of names i] by (auto simp: tokens_ok_def names_ok_def)
  note w = token_word [OF i]
  have "get_uint32 MojStrToInt64 (names ! i) (ks_tokensObj s) = Inr (Some (word_of_nat (32 + i)))"
    using i w(1,3) by (simp add: get_uint32_def get_int_def get del: of_nat_add)
  moreover have "(word_of_nat (32 + i) :: u32) \<le> 255"
    using i by (simp add: word_le_nat_alt unat_of_nat take_bit_nat_eq_self del: of_nat_add)
  ultimately show ?thesis using w(4) by (simp add: ks_addPropImpl_def del: of_nat_add)
qed

lemma addProp_absent:
  assumes "tokens_ok names s" "nonul str" "str \<notin> set names"
  shows "get_uint32 MojStrToInt64 str (ks_tokensObj s) = Inr None"
  using assms tokens_obj_get_None [of names str] by (simp add: tokens_ok_def names_ok_def get_uint32_def get_int_def)

lemma addProp_full:
  assumes "tokens_ok names s" "nonul str" "str \<notin> set names" "length names = 223"
  shows "ks_addPropImpl iters status str write (s, e) = (Inr (InvalidToken, [], OUndefined), s, e)"
proof -
  have "ks_nextToken s = 255" using assms(1,4) by (simp add: tokens_ok_def)
  then show ?thesis by (simp add: ks_addPropImpl_def addProp_absent [OF assms(1-3)])
qed

lemma names_ok_add: "names_ok names \<Longrightarrow> nonul str \<Longrightarrow> str \<notin> set names \<Longrightarrow> length names < 223 \<Longrightarrow> names_ok (names @ [str])"
  by (auto simp: names_ok_def)

lemma addProp_new:
  assumes "tokens_ok names s" "nonul str" "str \<notin> set names" "length names < 223"
  shows "\<exists>s'. ks_addPropImpl iters status str False (s, e) = (Inr (token_at (length names), names @ [str], tokens_obj (names @ [str])), s', e) \<and>
      tokens_ok (names @ [str]) s' \<and> ks_kindId s' = ks_kindId s" (is ?memory)
    and "case status KindsDbName of
      None \<Rightarrow> \<exists>s'. ks_addPropImpl iters status str True (s, e) =
          (Inr (token_at (length names), names @ [str], tokens_obj (names @ [str])), s',
           e\<lparr>ke_world := store_tokens (ks_kindId s) (tokens_obj (names @ [str])) (ke_world e)\<rparr>) \<and>
        tokens_ok (names @ [str]) s' \<and> ks_kindId s' = ks_kindId s
    | Some err \<Rightarrow> \<exists>s'. ks_addPropImpl iters status str True (s, e) = (Inl err, s', e) \<and> tokens_ok names s' \<and> ks_kindId s' = ks_kindId s"
      (is ?written)
proof -
  note w = token_word [OF assms(4)]
  let ?obj = "tokens_obj (names @ [str])"
  have s: "ks_tokenVec s = names" "ks_tokensObj s = tokens_obj names" "ks_nextToken s = token_at (length names)" "names_ok names"
    and old: "\<forall>item. ks_oldTokensItem s = Some item \<longrightarrow> (\<exists>x. item_toObject item = Inr (OObject [(TokensKey, x)]))"
    using assms(1) by (auto simp: tokens_ok_def)
  have less: "token_at (length names) < 255"
    using assms(4) w(2) by (simp add: word_less_nat_alt del: of_nat_add)
  have obj: "obj_put str (OInt (ucast (token_at (length names)))) (ks_tokensObj s) = ?obj"
    using w(5) by (simp add: s del: of_nat_add)
  have wf: "wf_obj ?obj"
    using tokens_obj_ok [of "names @ [str]"] s(4) assms(2) by (auto simp: names_ok_def)
  have succ: "token_at (length names) + 1 = (token_at (length (names @ [str])) :: byte)" by simp
  have next_ok: "tokens_ok (names @ [str]) (s\<lparr>ks_oldTokensItem := Some item, ks_tokensObj := ?obj, ks_tokenVec := names @ [str],
       ks_nextToken := token_at (length names) + 1\<rparr>)"
    "tokens_ok names (s\<lparr>ks_oldTokensItem := Some item\<rparr>)"
    if "\<exists>x. item_toObject item = Inr (OObject [(TokensKey, x)])" for item
    using assms(1) that names_ok_add [OF s(4) assms(2-4)] unfolding succ
    by (auto simp: tokens_ok_def simp del: tokens_obj_simps of_nat_add)
  have next_ok1: "tokens_ok (names @ [str]) (s\<lparr>ks_tokensObj := ?obj, ks_tokenVec := names @ [str], ks_nextToken := token_at (length names) + 1\<rparr>)"
    using assms(1) names_ok_add [OF s(4) assms(2-4)] unfolding succ
    by (auto simp: tokens_ok_def simp del: tokens_obj_simps of_nat_add)
  show ?memory
    using next_ok1 less by (simp add: ks_addPropImpl_def addProp_absent [OF assms(1-3)] obj s(1,3) Let_def sbind_def
        del: tokens_obj_simps of_nat_add)
  obtain item where item: "\<exists>x. item_toObject item = Inr (OObject [(TokensKey, x)])"
    "ks_writeTokens iters status ?obj (s, e) =
      (case status KindsDbName of
         None \<Rightarrow> (Inr (), s\<lparr>ks_oldTokensItem := Some item\<rparr>, e\<lparr>ke_world := store_tokens (ks_kindId s) ?obj (ke_world e)\<rparr>)
       | Some err \<Rightarrow> (Inl err, s\<lparr>ks_oldTokensItem := Some item\<rparr>, e))"
    using writeTokens_eval [OF old wf] by blast
  show ?written
    using next_ok [OF item(1)] less
    by (simp add: ks_addPropImpl_def addProp_absent [OF assms(1-3)] obj s(1,3) Let_def sbind_def item(2)
        del: tokens_obj_simps of_nat_add split: option.split)
qed

text \<open>Loading gives the vector back.\<close>

lemma map_put_new:
  "\<forall>p \<in> set nodes. kcmp (fst p) key \<noteq> 0 \<Longrightarrow>
   set (map_put kcmp key val nodes) = insert (key, val) (set nodes) \<and> length (map_put kcmp key val nodes) = Suc (length nodes)"
  by (induction nodes) (auto split: if_splits)

lemma tokens_obj_nodes:
  "names_ok names \<Longrightarrow> set (ensureObject (tokens_obj names)) = (\<lambda>i. (names ! i, OInt (word_of_nat (32 + i)))) ` {..<length names} \<and>
   containerSize (tokens_obj names) = length names"
proof (induction names rule: rev_induct)
  case (snoc s names)
  have ok: "names_ok names" "nonul s" "s \<notin> set names" using snoc.prems by (auto simp: names_ok_def)
  note IH = snoc.IH [OF ok(1)]
  have "MojStrCmp (fst p) s \<noteq> 0" if p: "p \<in> set (ensureObject (tokens_obj names))" for p
  proof -
    obtain i where "i < length names" "fst p = names ! i" using p IH by (auto simp del: of_nat_add)
    then show ?thesis using ok str_eq [of "names ! i" s] by (auto simp: names_ok_def)
  qed
  then have "\<forall>p \<in> set (ensureObject (tokens_obj names)). MojStrCmp (fst p) s \<noteq> 0" by blast
  note put = map_put_new [where kcmp = MojStrCmp, OF this]
  have "\<forall>s \<in> set names. nonul s" using ok(1) by (simp add: names_ok_def)
  from tokens_obj_ok [OF this] have "tokens_obj names = OUndefined \<and> names = [] \<or> (\<exists>ps. tokens_obj names = OObject ps)" by blast
  then have len: "length (ensureObject (tokens_obj names)) = length names"
    using conjunct2 [OF IH] by (elim disjE exE conjE) simp_all
  have "(\<lambda>i. ((names @ [s]) ! i, OInt (word_of_nat (32 + i)))) ` {..<length names} =
      (\<lambda>i. (names ! i, OInt (word_of_nat (32 + i)))) ` {..<length names}"
    by (rule image_cong) (simp_all add: nth_append)
  then have "(\<lambda>i. ((names @ [s]) ! i, OInt (word_of_nat (32 + i)))) ` {..<length (names @ [s])} =
      insert (s, OInt (word_of_nat (32 + length names))) ((\<lambda>i. (names ! i, OInt (word_of_nat (32 + i)))) ` {..<length names})"
    by (simp add: lessThan_Suc del: of_nat_add)
  then show ?case using IH put len by (simp add: obj_put_def del: of_nat_add)
qed simp

lemma setTokens:
  assumes "names_ok names" "\<forall>p \<in> set ps. \<exists>i < length names. p = (names ! i, OInt (word_of_nat (32 + i)))" "length vec = length names"
  shows "\<exists>vec' m'. run ks_setToken (vec, m) ps = Inr (vec', m') \<and> length vec' = length names \<and>
    (\<forall>i < length names. vec' ! i = (if (names ! i, OInt (word_of_nat (32 + i))) \<in> set ps then names ! i else vec ! i)) \<and>
    (\<forall>n. unat m \<le> n \<longrightarrow> (\<forall>i < length names. (names ! i, OInt (word_of_nat (32 + i))) \<in> set ps \<longrightarrow> 32 + i \<le> n) \<longrightarrow> unat m' \<le> n) \<and>
    unat m \<le> unat m' \<and> (\<forall>i < length names. (names ! i, OInt (word_of_nat (32 + i))) \<in> set ps \<longrightarrow> 32 + i \<le> unat m')"
  using assms(2,3)
proof (induction ps arbitrary: vec m)
  case (Cons p ps)
  obtain i where i: "i < length names" "p = (names ! i, OInt (word_of_nat (32 + i)))" using Cons.prems by auto
  have i223: "i < 223" using i(1) assms(1) by (simp add: names_ok_def)
  note w = token_word [OF i223]
  have idx: "unat (word_of_nat (32 + i) - ucast TokenStartMarker :: i64) = i"
    using i223 by (simp add: TokenStartMarker_def unat_of_nat take_bit_nat_eq_self)
  let ?m = "if unat m < 32 + i then token_at i else m"
  have less: "sint (word_of_nat (32 + i) :: i64) > uint m \<longleftrightarrow> unat m < 32 + i"
  proof -
    have "int (unat m) = uint m" by simp
    then show ?thesis using w(1) by linarith
  qed
  have step: "ks_setToken (vec, m) p = Inr (vec[i := names ! i], ?m)"
    using i Cons.prems(2) w(1,6) idx i223 less
    by (simp add: ks_setToken_def vec_setAt_def Let_def del: of_nat_add)
  have inj: "(names ! j, OInt (word_of_nat (32 + j))) = p \<longleftrightarrow> j = i" if "j < length names" for j
    using that i assms(1) by (auto simp: names_ok_def nth_eq_iff_index_eq simp del: of_nat_add)
  have m: "unat ?m = max (unat m) (32 + i)" using w(2) by (simp add: max_def del: of_nat_add)
  have "\<forall>p \<in> set ps. \<exists>i < length names. p = (names ! i, OInt (word_of_nat (32 + i)))" "length (vec[i := names ! i]) = length names"
    using Cons.prems by auto
  from Cons.IH [OF this, of ?m] obtain vec' m' where IH: "run ks_setToken (vec[i := names ! i], ?m) ps = Inr (vec', m')" "length vec' = length names"
    "\<forall>j < length names. vec' ! j = (if (names ! j, OInt (word_of_nat (32 + j))) \<in> set ps then names ! j else vec[i := names ! i] ! j)"
    "\<forall>n. unat ?m \<le> n \<longrightarrow> (\<forall>j < length names. (names ! j, OInt (word_of_nat (32 + j))) \<in> set ps \<longrightarrow> 32 + j \<le> n) \<longrightarrow> unat m' \<le> n"
    "unat ?m \<le> unat m'" "\<forall>j < length names. (names ! j, OInt (word_of_nat (32 + j))) \<in> set ps \<longrightarrow> 32 + j \<le> unat m'"
    by blast
  show ?case
  proof (intro exI [of _ vec'] exI [of _ m'] conjI allI impI)
    show "run ks_setToken (vec, m) (p # ps) = Inr (vec', m')" using IH(1) step by simp
    show "length vec' = length names" by (rule IH(2))
    show "unat m \<le> unat m'" using IH(5) m by simp
    fix j assume j: "j < length names"
    show "vec' ! j = (if (names ! j, OInt (word_of_nat (32 + j))) \<in> set (p # ps) then names ! j else vec ! j)"
      using IH(3) j inj [OF j] i(1) Cons.prems(2) by (auto simp: nth_list_update simp del: of_nat_add)
    show "32 + j \<le> unat m'" if "(names ! j, OInt (word_of_nat (32 + j))) \<in> set (p # ps)"
      using that IH(5,6) j inj [OF j] m by auto
  next
    fix n assume n: "unat m \<le> n" "\<forall>j < length names. (names ! j, OInt (word_of_nat (32 + j))) \<in> set (p # ps) \<longrightarrow> 32 + j \<le> n"
    then have "unat ?m \<le> n" using i m by auto
    then show "unat m' \<le> n" using IH(4) n by auto
  qed
qed simp

lemma loadTokens_ok:
  assumes "names_ok names" "nextToken = TokenStartMarker"
  shows "ks_loadTokens (tokens_obj names) nextToken = Inr (names, token_at (length names))"
proof (cases "names = []")
  case True
  then show ?thesis using assms(2) by (simp add: ks_loadTokens_def vec_resize_def TokenStartMarker_def)
next
  case False
  note nodes = tokens_obj_nodes [OF assms(1)]
  let ?vec = "vec_resize (length names) [] [] :: string list"
  have "\<forall>p \<in> set (ensureObject (tokens_obj names)). \<exists>i < length names. p = (names ! i, OInt (word_of_nat (32 + i)))"
    using nodes by auto
  moreover have "length ?vec = length names" by (simp add: vec_resize_def)
  ultimately obtain vec' m' where run: "run ks_setToken (?vec, 0) (ensureObject (tokens_obj names)) = Inr (vec', m')"
    and vec': "length vec' = length names" "\<forall>i < length names. vec' ! i = names ! i"
    and m': "\<forall>n. (\<forall>i < length names. 32 + i \<le> n) \<longrightarrow> unat m' \<le> n" "\<forall>i < length names. 32 + i \<le> unat m'"
  proof -
    have "(names ! i, OInt (word_of_nat (32 + i))) \<in> set (ensureObject (tokens_obj names))" if "i < length names" for i
      using nodes that by (auto simp del: of_nat_add)
    then show ?thesis
      using setTokens [OF assms(1), of "ensureObject (tokens_obj names)" ?vec 0] \<open>length ?vec = length names\<close>
        \<open>\<forall>p \<in> set (ensureObject (tokens_obj names)). _ p\<close> that by (simp del: of_nat_add) metis
  qed
  have "vec' = names" using vec' by (simp add: list_eq_iff_nth_eq)
  moreover have "unat m' = 31 + length names"
    using m'(1) [rule_format, of "31 + length names"] m'(2) [rule_format, of "length names - 1"] False by (cases names) auto
  then have "m' > 0" by (auto simp: word_gt_0)
  from \<open>unat m' = _\<close> have "m' = word_of_nat (31 + length names)" by (metis of_nat_unat ucast_id)
  then have "m' + 1 = token_at (length names)" by simp
  ultimately show ?thesis using run nodes \<open>m' > 0\<close> by (simp add: ks_loadTokens_def del: of_nat_add)
qed

text \<open>The request's transaction has not touched the database of the tokens.\<close>

definition kinds_free :: "'it level_txn \<Rightarrow> bool" where
  "kinds_free t \<longleftrightarrow> KindsDbName \<notin> fst ` set (lt_tableTxns t)"

lemma kinds_free_new [simp]: "kinds_free level_txn_new"
  by (simp add: kinds_free_def level_txn_new_def)

lemma kinds_free_get: "kinds_free t \<Longrightarrow> ldb_get KindsDbName (OString kindId) w t = Inr (stored kindId w)"
  by (simp add: ldb_defs ldb_getItem_def tableTxn_def kinds_free_def map_of_eq_None_iff [symmetric] stored_def
      tt_Get_def isDeleted_def set_contains_def table_txn_new_def del: enc.simps)

lemma lt_tables_offsetQuota: "offsetQuota quotas off t = Inr t' \<Longrightarrow> lt_tableTxns t' = lt_tableTxns t"
  by (auto simp: offsetQuota_def rbind_Inr_iff split: option.splits bool.splits)

lemma kinds_free_quota [simp]: "kinds_free (t\<lparr>t_quotaEnabled := b\<rparr>) = kinds_free t"
  by (simp add: kinds_free_def)

lemma kinds_free_offset: "offsetQuota quotas off t = Inr t' \<Longrightarrow> kinds_free t' = kinds_free t"
  by (drule lt_tables_offsetQuota) (simp add: kinds_free_def)

lemma kinds_free_put:
  assumes "ldb_putItem iters db key val q w t = Inr t'" "kinds_free t" "db \<noteq> KindsDbName"
  shows "kinds_free t'"
proof -
  obtain t1 tt where "t' = set_tableTxn db tt t1" "kinds_free t1"
    using assms(1,2) by (auto simp: ldb_putItem_def rbind_Inr_iff kinds_free_offset)
  then show ?thesis using assms(3) by (simp add: kinds_free_def set_tableTxn_def dom_update)
qed

lemma IndexIds_not_Kinds: "IndexIdsDbName \<noteq> KindsDbName"
  by (simp add: KindsDbName_def IndexIdsDbName_def)

lemma kinds_free_writeIds:
  assumes "ks_writeIds iters kindId key obj w item t = Inr (item', t')" "kinds_free t"
  shows "kinds_free t'"
  using assms IndexIds_not_Kinds
  by (auto simp: ks_writeIds_def ks_writeObj_def ldb_defs rbind_Inr_iff Let_def kinds_free_offset
      dest: kinds_free_put split: option.splits if_splits)

lemma ks_id_env:
  assumes "ks_id iters name objKey (s, e) = (r, s', e')" "kinds_free (ke_txn e)"
  shows "s' = s" "ke_world e' = ke_world e" "kinds_free (ke_txn e')"
  using assms by (auto simp: ks_id_def split: sum.splits option.splits prod.splits dest: kinds_free_writeIds)

lemma ks_initKindToken_env:
  assumes "ks_initKindToken iters (s, e) = (r, s', e')" "kinds_free (ke_txn e)"
  shows "\<exists>n. s' = s\<lparr>ks_kindToken := n\<rparr>" "ke_world e' = ke_world e" "kinds_free (ke_txn e')"
proof -
  obtain r1 s1 e1 where id: "ks_id iters (ks_kindId s) KindTokensKey (s, e) = (r1, s1, e1)" by (metis prod_cases3)
  have "s = s\<lparr>ks_kindToken := ks_kindToken s\<rparr>" by simp
  then show "\<exists>n. s' = s\<lparr>ks_kindToken := n\<rparr>" "ke_world e' = ke_world e" "kinds_free (ke_txn e')"
    using assms ks_id_env [OF id assms(2)]
    by (auto simp: ks_initKindToken_def sbind_def id intro: exI [of _ "ks_kindToken s'"] split: sum.splits)
qed

lemma addStrings_True: "ks_addStrings iters status strings True se = (Inr u', se') \<Longrightarrow> u'"
  by (induction strings arbitrary: se) (auto simp: sbind_def split: if_splits prod.splits sum.splits)

lemma addStrings_ok:
  assumes "tokens_ok names s" "\<forall>str \<in> set strings. nonul str"
  shows "\<exists>more u' s'. ks_addStrings iters status strings u (s, e) = (Inr u', s', e) \<and> tokens_ok (names @ more) s' \<and>
    ks_kindId s' = ks_kindId s \<and> (\<not> u' \<longrightarrow> more = []) \<and> (u' \<longrightarrow> u \<or> names @ more \<noteq> [])"
  using assms
proof (induction strings arbitrary: names s u)
  case Nil
  then show ?case by (intro exI [of _ "[]"]) simp
next
  case (Cons str strings)
  have names: "names_ok names" "ks_tokensObj s = tokens_obj names" using Cons.prems(1) by (simp_all add: tokens_ok_def)
  have str: "nonul str" "\<forall>str \<in> set strings. nonul str" using Cons.prems(2) by simp_all
  consider "str \<in> set names" | "str \<notin> set names" "length names = 223" | "str \<notin> set names" "length names < 223"
    using names(1) by (fastforce simp: names_ok_def)
  then show ?case
  proof cases
    case 1
    then show ?thesis using Cons.IH [OF Cons.prems(1) str(2), of u] names str(1) by (simp add: tokens_obj_contains)
  next
    case 2
    then have "names \<noteq> []" by auto
    then show ?thesis
      using Cons.IH [OF Cons.prems(1) str(2), of True] 2 names str(1)
      by (simp add: tokens_obj_contains sbind_def addProp_full [OF Cons.prems(1) str(1) 2])
  next
    case 3
    obtain s1 where s1: "ks_addPropImpl iters status str False (s, e) =
        (Inr (token_at (length names), names @ [str], tokens_obj (names @ [str])), s1, e)"
      "tokens_ok (names @ [str]) s1" "ks_kindId s1 = ks_kindId s"
      using addProp_new(1) [OF Cons.prems(1) str(1) 3] by blast
    then obtain more u' s' where "ks_addStrings iters status strings True (s1, e) = (Inr u', s', e)"
      "tokens_ok ((names @ [str]) @ more) s'" "ks_kindId s' = ks_kindId s1"
      using Cons.IH [OF s1(2) str(2), of True] by blast
    then show ?thesis
      using s1 3 names str(1) addStrings_True [of iters status strings "(s1, e)" u' "(s', e)"]
      by (intro exI [of _ "str # more"]) (auto simp: tokens_obj_contains sbind_def)
  qed
qed

lemma readTokens:
  assumes "names_ok names" "stored kindId w = tokens_record names" "kinds_free t"
  shows "\<exists>item. ks_readObj kindId TokensKey OUndefined KindsDbName w t = Inr (tokens_obj names, item) \<and>
    (\<forall>i. item = Some i \<longrightarrow> (\<exists>x. item_toObject i = Inr (OObject [(TokensKey, x)])))"
proof (cases "names = []")
  case True
  then show ?thesis using assms(2) by (simp add: ks_readObj_def kinds_free_get [OF assms(3)] tokens_record_def del: enc.simps)
next
  case False
  have "wf_obj (tokens_obj names)" "undef_to_null (tokens_obj names) = tokens_obj names"
    using tokens_obj_ok [of names] assms(1) False by (auto simp: names_ok_def undef_to_null_id)
  then show ?thesis
    using assms(2) False
    by (simp add: ks_readObj_def kinds_free_get [OF assms(3)] tokens_record_def item_toObject_tokens str_comp.cmp_refl
        del: enc.simps)
qed

lemma initTokens_ok:
  assumes "names_ok names" "stored kindId (ke_world e) = tokens_record names" "kinds_free (ke_txn e)" "nonul kindId"
    and "\<forall>str \<in> set strings. nonul str"
    and "ks_kindId s = kindId" "ks_tokensObj s = OUndefined" "ks_nextToken s = TokenStartMarker"
  shows "\<exists>r s' e' more. ks_initTokens iters status strings (s, e) = (r, s', e') \<and> kinds_free (ke_txn e') \<and>
    ks_kindId s' = kindId \<and> stored kindId (ke_world e') = tokens_record (names @ more) \<and> names_ok (names @ more) \<and>
    (r = Inr () \<longrightarrow> tokens_ok (names @ more) s')"
proof -
  obtain item where read: "ks_readObj kindId TokensKey OUndefined KindsDbName (ke_world e) (ke_txn e) = Inr (tokens_obj names, item)"
    "\<forall>i. item = Some i \<longrightarrow> (\<exists>x. item_toObject i = Inr (OObject [(TokensKey, x)]))"
    using readTokens [OF assms(1-3)] by blast
  let ?s = "s\<lparr>ks_tokensObj := tokens_obj names, ks_oldTokensItem := item, ks_tokenVec := names, ks_nextToken := token_at (length names)\<rparr>"
  have "tokens_ok names ?s" using read(2) assms(1,4,6) by (simp add: tokens_ok_def)
  from addStrings_ok [OF this assms(5), of iters status False e]
  obtain more u' s' where add: "ks_addStrings iters status strings False (?s, e) = (Inr u', s', e)"
    "tokens_ok (names @ more) s'" "ks_kindId s' = kindId" "\<not> u' \<longrightarrow> more = []" "u' \<longrightarrow> names @ more \<noteq> []"
    using assms(6) by auto
  have ok: "names_ok (names @ more)" "ks_tokensObj s' = tokens_obj (names @ more)"
    "\<forall>item. ks_oldTokensItem s' = Some item \<longrightarrow> (\<exists>x. item_toObject item = Inr (OObject [(TokensKey, x)]))"
    using add(2) by (simp_all add: tokens_ok_def)
  have init: "ks_initTokens iters status strings (s, e) =
      (if u' then ks_writeTokens iters status (tokens_obj (names @ more)) (s', e) else (Inr (), s', e))"
    using read(1) assms(6-8) add(1) ok(2) by (simp add: ks_initTokens_def loadTokens_ok [OF assms(1) refl] sbind_def)
  show ?thesis
  proof (cases u')
    case False
    then show ?thesis
      using init add assms(1-3) by (intro exI [of _ "Inr ()"] exI [of _ s'] exI [of _ e] exI [of _ "[]"]) simp
  next
    case True
    have "wf_obj (tokens_obj (names @ more))"
      using tokens_obj_ok [of "names @ more"] ok(1) by (auto simp: names_ok_def)
    then obtain i where i: "\<exists>x. item_toObject i = Inr (OObject [(TokensKey, x)])"
      "ks_writeTokens iters status (tokens_obj (names @ more)) (s', e) =
        (case status KindsDbName of
           None \<Rightarrow> (Inr (), s'\<lparr>ks_oldTokensItem := Some i\<rparr>, e\<lparr>ke_world := store_tokens kindId (tokens_obj (names @ more)) (ke_world e)\<rparr>)
         | Some err \<Rightarrow> (Inl err, s'\<lparr>ks_oldTokensItem := Some i\<rparr>, e))"
      using writeTokens_eval [OF ok(3)] add(3) by blast
    have "tokens_ok (names @ more) (s'\<lparr>ks_oldTokensItem := Some i\<rparr>)"
      using add(2) i(1) by (simp add: tokens_ok_def)
    then show ?thesis
    proof (cases "status KindsDbName")
      case None
      then show ?thesis
        using init True i(2) add assms(3) ok(1) \<open>tokens_ok (names @ more) (s'\<lparr>ks_oldTokensItem := Some i\<rparr>)\<close>
        by (intro exI [of _ "Inr ()"] exI [of _ "s'\<lparr>ks_oldTokensItem := Some i\<rparr>"]
              exI [of _ "e\<lparr>ke_world := store_tokens kindId (tokens_obj (names @ more)) (ke_world e)\<rparr>"] exI [of _ more])
          (simp add: tokens_record_def del: enc.simps append_is_Nil_conv)
    next
      case (Some err)
      then show ?thesis
        using init True i(2) add(3) assms(1-3)
        by (intro exI [of _ "Inl err"] exI [of _ "s'\<lparr>ks_oldTokensItem := Some i\<rparr>"] exI [of _ e] exI [of _ "[]"]) simp
    qed
  qed
qed

lemma init_ok:
  assumes "names_ok names" "stored kindId (ke_world e) = tokens_record names" "kinds_free (ke_txn e)" "nonul kindId"
    and "\<forall>str \<in> set strings. nonul str"
  shows "\<exists>r s' e' more. ks_init iters status strings (kind_state_new kindId, e) = (r, s', e') \<and> kinds_free (ke_txn e') \<and>
    ks_kindId s' = kindId \<and> stored kindId (ke_world e') = tokens_record (names @ more) \<and> names_ok (names @ more) \<and>
    (r = Inr () \<longrightarrow> tokens_ok (names @ more) s')"
proof -
  obtain r1 s1 e1 where tok: "ks_initKindToken iters (kind_state_new kindId, e) = (r1, s1, e1)" by (metis prod_cases3)
  note env = ks_initKindToken_env [OF tok assms(3)]
  have s1: "ks_kindId s1 = kindId" "ks_tokensObj s1 = OUndefined" "ks_nextToken s1 = TokenStartMarker"
    using env(1) by (auto simp: kind_state_new_def)
  show ?thesis
  proof (cases r1)
    case (Inl err)
    then show ?thesis
      using tok env assms(1,2) s1(1) by (intro exI [of _ "Inl err"] exI [of _ s1] exI [of _ e1] exI [of _ "[]"])
        (simp add: ks_init_def sbind_def)
  next
    case (Inr u)
    then have "ks_init iters status strings (kind_state_new kindId, e) = ks_initTokens iters status strings (s1, e1)"
      using tok by (simp add: ks_init_def sbind_def)
    moreover have "stored kindId (ke_world e1) = tokens_record names" using assms(2) env(2) by simp
    ultimately show ?thesis
      using initTokens_ok [OF assms(1) _ env(3) assms(4,5) s1, of iters status] by simp
  qed
qed

text \<open>A name and the token it got: the names' place, or none.\<close>

definition token_names :: "string list \<Rightarrow> string \<times> byte \<Rightarrow> bool" where
  "token_names names = (\<lambda>(str, tok). tok = InvalidToken \<or> (\<exists>i < length names. names ! i = str \<and> tok = token_at i))"

lemma token_names_mono: "token_names names p \<Longrightarrow> token_names (names @ names') p"
  by (fastforce simp: token_names_def nth_append simp del: of_nat_add)

lemma addToken_ok:
  assumes "tokens_ok names s" "stored (ks_kindId s) (ke_world e) = tokens_record names" "nonul str"
  shows "\<exists>r s' e' more. ks_addToken iters status str (s, e) = (r, s', e') \<and> tokens_ok (names @ more) s' \<and>
    ks_kindId s' = ks_kindId s \<and> stored (ks_kindId s) (ke_world e') = tokens_record (names @ more) \<and> ke_txn e' = ke_txn e \<and>
    (\<forall>tok vec o'. r = Inr (tok, vec, o') \<longrightarrow>
      token_names (names @ more) (str, tok) \<and> (vec = [] \<or> vec = names @ more) \<and> o' = tokens_obj vec) \<and>
    (status KindsDbName = None \<longrightarrow> (\<exists>v. r = Inr v))"
proof -
  have len: "length names \<le> 223" using assms(1) by (simp add: tokens_ok_def names_ok_def)
  have same: ?thesis if "ks_addToken iters status str (s, e) = (Inr (tok, [], OUndefined), s, e)"
    "token_names names (str, tok)" for tok
    using that assms(1,2)
    by (intro exI [of _ "Inr (tok, [], OUndefined)"] exI [of _ s] exI [of _ e] exI [of _ "[]"]) (simp del: of_nat_add)
  consider i where "i < length names" "names ! i = str" | "str \<notin> set names" "length names = 223"
    | "str \<notin> set names" "length names < 223"
    using len by (fastforce simp: in_set_conv_nth)
  then show ?thesis
  proof cases
    case 1
    then show ?thesis using addProp_found [OF assms(1) 1(1), of iters status True e] by (intro same) (auto simp: ks_addToken_def token_names_def)
  next
    case 2
    then show ?thesis
      using addProp_full [OF assms(1,3) 2, of iters status True e] by (intro same) (auto simp: ks_addToken_def token_names_def)
  next
    case 3
    note new = addProp_new(2) [OF assms(1,3) 3, where status = status and iters = iters and e = e]
    show ?thesis
    proof (cases "status KindsDbName")
      case None
      then obtain s' where s': "ks_addToken iters status str (s, e) =
          (Inr (token_at (length names), names @ [str], tokens_obj (names @ [str])), s',
           e\<lparr>ke_world := store_tokens (ks_kindId s) (tokens_obj (names @ [str])) (ke_world e)\<rparr>)"
        "tokens_ok (names @ [str]) s'" "ks_kindId s' = ks_kindId s"
        using new by (auto simp: ks_addToken_def simp del: tokens_obj_simps of_nat_add)
      show ?thesis
        by (intro exI [of _ "Inr (token_at (length names), names @ [str], tokens_obj (names @ [str]))"] exI [of _ s']
            exI [of _ "e\<lparr>ke_world := store_tokens (ks_kindId s) (tokens_obj (names @ [str])) (ke_world e)\<rparr>"] exI [of _ "[str]"])
          (use s' in \<open>simp add: tokens_record_def token_names_def exI [of _ "length names"] del: tokens_obj_simps of_nat_add enc.simps\<close>)
    next
      case (Some err)
      then obtain s' where "ks_addToken iters status str (s, e) = (Inl err, s', e)" "tokens_ok names s'"
        "ks_kindId s' = ks_kindId s"
        using new by (auto simp: ks_addToken_def)
      then show ?thesis
        using assms(2) Some by (intro exI [of _ "Inl err"] exI [of _ s'] exI [of _ e] exI [of _ "[]"]) simp
    qed
  qed
qed

text \<open>The transaction of a request commits without touching the tokens.\<close>

lemma env_commit_other:
  assumes "\<forall>p \<in> set (lt_tableTxns t). fst p \<noteq> db"
  shows "lw_dbs (fst (env_commitImpl status t w)) db = lw_dbs w db"
proof -
  have "lw_dbs (fst (foldl (\<lambda>(w, accErr) (db, tt).
         case commitImpl (status db) (lw_dbs w db) tt of
           Inl e \<Rightarrow> (w, if accErr = None then Some e else accErr)
         | Inr (contents, _) \<Rightarrow> (w\<lparr>lw_dbs := (lw_dbs w)(db := contents)\<rparr>, accErr)) (w, acc) tts)) db = lw_dbs w db"
    if "\<forall>p \<in> set tts. fst p \<noteq> db" for tts acc and w :: level_world
    using that by (induction tts arbitrary: w acc) (auto split: sum.splits)
  then show ?thesis using assms by (simp add: env_commitImpl_def)
qed

lemma stored_commit: "kinds_free t \<Longrightarrow> stored kindId (fst (env_commitImpl status t w)) = stored kindId w"
  unfolding stored_def kinds_free_def by (subst env_commit_other) (auto intro: rev_image_eqI)

section \<open>The life of a kind's tokens\<close>

text \<open>
  What happens around a kind: it is loaded, by a start of the program or after a failed change (the state is new, and a
  kind that cannot be loaded has none), names are added, index ids looked up and deleted, and the request's transaction
  commits or is given up. \<open>MojErr option\<close> is what the database answers to a commit.
\<close>

datatype kind_op =
    KindInit "string list" "MojErr option"
  | KindAddToken string "MojErr option"
  | KindIndexId string
  | KindDelIndex string
  | TxnCommit "MojErr option"
  | TxnAbort

fun op_names :: "kind_op \<Rightarrow> string list" where
  "op_names (KindInit strings st) = strings"
| "op_names (KindAddToken str st) = [str]"
| "op_names _ = []"

type_synonym 'it kind_life = "(string \<times> byte) list \<times> kind_state option \<times> 'it kind_env"

definition kind_step :: "'it engine_iters \<Rightarrow> string \<Rightarrow> 'it kind_life \<Rightarrow> kind_op \<Rightarrow> 'it kind_life" where
  "kind_step iters kindId = (\<lambda>(log, k, e) op'.
     case op' of
       KindInit strings st \<Rightarrow>
         (case ks_init iters (\<lambda>_. st) strings (kind_state_new kindId, e) of
            (Inr _, s, e) \<Rightarrow> (log, Some s, e)
          | (Inl _, _, e) \<Rightarrow> (log, None, e))
     | KindAddToken str st \<Rightarrow>
         (case k of
            None \<Rightarrow> (log, k, e)
          | Some s \<Rightarrow>
              (case ks_addToken iters (\<lambda>_. st) str (s, e) of
                 (Inr (tok, _), s, e) \<Rightarrow> ((str, tok) # log, Some s, e)
               | (Inl _, s, e) \<Rightarrow> (log, Some s, e)))
     | KindIndexId name \<Rightarrow>
         (case k of None \<Rightarrow> (log, k, e) | Some s \<Rightarrow> (case ks_indexId iters name (s, e) of (_, s, e) \<Rightarrow> (log, Some s, e)))
     | KindDelIndex name \<Rightarrow>
         (case k of None \<Rightarrow> (log, k, e) | Some s \<Rightarrow> (case ks_delIndex iters name (s, e) of (_, s, e) \<Rightarrow> (log, Some s, e)))
     | TxnCommit st \<Rightarrow>
         (log, k, e\<lparr>ke_world := fst (env_commitImpl (\<lambda>_. st) (ke_txn e) (ke_world e)), ke_txn := level_txn_new\<rparr>)
     | TxnAbort \<Rightarrow> (log, k, e\<lparr>ke_txn := level_txn_new\<rparr>))"

definition kind_live :: "string \<Rightarrow> string list \<Rightarrow> 'it kind_life \<Rightarrow> bool" where
  "kind_live kindId names = (\<lambda>(log, k, e).
     names_ok names \<and> stored kindId (ke_world e) = tokens_record names \<and> kinds_free (ke_txn e) \<and>
     (\<forall>s. k = Some s \<longrightarrow> tokens_ok names s \<and> ks_kindId s = kindId) \<and>
     (\<forall>p \<in> set log. token_names names p))"

lemma kind_step_live:
  assumes "kind_live kindId names life" "nonul kindId" "\<forall>str \<in> set (op_names op'). nonul str"
  shows "\<exists>more. kind_live kindId (names @ more) (kind_step iters kindId life op')"
proof -
  obtain log k e where life: "life = (log, k, e)" by (cases life)
  have L: "names_ok names" "stored kindId (ke_world e) = tokens_record names" "kinds_free (ke_txn e)"
    "\<forall>s. k = Some s \<longrightarrow> tokens_ok names s \<and> ks_kindId s = kindId"
    "\<forall>p \<in> set log. token_names names p"
    using assms(1) by (simp_all add: kind_live_def life)
  have log: "\<forall>p \<in> set log. token_names (names @ more) p" for more using L(5) token_names_mono by blast
  show ?thesis
  proof (cases op')
    case (KindInit strings st)
    have "\<forall>str \<in> set strings. nonul str" using assms(3) KindInit by simp
    from init_ok [OF L(1-3) assms(2) this, of iters "\<lambda>_. st"]
    obtain r s' e' more where "ks_init iters (\<lambda>_. st) strings (kind_state_new kindId, e) = (r, s', e')"
      "kinds_free (ke_txn e')" "ks_kindId s' = kindId" "stored kindId (ke_world e') = tokens_record (names @ more)"
      "names_ok (names @ more)" "r = Inr () \<longrightarrow> tokens_ok (names @ more) s'"
      by blast
    then show ?thesis
      using log [of more] KindInit
      by (intro exI [of _ more]) (cases r; simp add: kind_step_def kind_live_def life del: of_nat_add)
  next
    case (KindAddToken str st)
    show ?thesis
    proof (cases k)
      case None
      then show ?thesis using assms(1) KindAddToken by (intro exI [of _ "[]"]) (simp add: kind_step_def life)
    next
      case (Some s)
      have s: "tokens_ok names s" "stored (ks_kindId s) (ke_world e) = tokens_record names" "nonul str" "ks_kindId s = kindId"
        using L Some assms(3) KindAddToken by auto
      from addToken_ok [OF s(1-3), of iters "\<lambda>_. st"]
      obtain r s' e' more where A: "ks_addToken iters (\<lambda>_. st) str (s, e) = (r, s', e')" "tokens_ok (names @ more) s'"
        "ks_kindId s' = kindId" "stored kindId (ke_world e') = tokens_record (names @ more)" "ke_txn e' = ke_txn e"
        "\<forall>tok vec o'. r = Inr (tok, vec, o') \<longrightarrow> token_names (names @ more) (str, tok)"
        unfolding s(4) by blast
      have "names_ok (names @ more)" using A(2) by (simp add: tokens_ok_def)
      then show ?thesis
        using log [of more] KindAddToken Some A L(3)
        by (intro exI [of _ more]) (cases r; auto simp add: kind_step_def kind_live_def life simp del: of_nat_add)
    qed
  next
    case (KindIndexId name)
    show ?thesis
    proof (cases k)
      case None
      then show ?thesis using assms(1) KindIndexId by (intro exI [of _ "[]"]) (simp add: kind_step_def life)
    next
      case (Some s)
      obtain r s' e' where id: "ks_id iters name IndexIdsKey (s, e) = (r, s', e')" by (metis prod_cases3)
      from ks_id_env [OF id L(3)] show ?thesis
        using id L KindIndexId Some
        by (intro exI [of _ "[]"]) (simp add: kind_step_def kind_live_def life ks_indexId_def del: of_nat_add)
    qed
  next
    case (KindDelIndex name)
    show ?thesis
    proof (cases k)
      case None
      then show ?thesis using assms(1) KindDelIndex by (intro exI [of _ "[]"]) (simp add: kind_step_def life)
    next
      case (Some s)
      obtain r s' e' where del: "ks_delIndex iters name (s, e) = (r, s', e')" by (metis prod_cases3)
      have "s' = s" "ke_world e' = ke_world e" "kinds_free (ke_txn e')"
        using del L(3)
        by (auto simp: ks_delIndex_def rbind_def Let_def split: sum.splits prod.splits if_splits dest: kinds_free_writeIds)
      then show ?thesis
        using del L KindDelIndex Some
        by (intro exI [of _ "[]"]) (simp add: kind_step_def kind_live_def life del: of_nat_add)
    qed
  next
    case (TxnCommit st)
    then show ?thesis
      using L by (intro exI [of _ "[]"]) (simp add: kind_step_def kind_live_def life stored_commit del: of_nat_add)
  next
    case TxnAbort
    then show ?thesis
      using L by (intro exI [of _ "[]"]) (simp add: kind_step_def kind_live_def life del: of_nat_add)
  qed
qed

lemma kind_run_live:
  assumes "kind_live kindId names life" "nonul kindId" "\<forall>op' \<in> set ops. \<forall>str \<in> set (op_names op'). nonul str"
  shows "\<exists>more. kind_live kindId (names @ more) (foldl (kind_step iters kindId) life ops)"
  using assms(1,3)
proof (induction ops arbitrary: names life)
  case Nil
  then show ?case by (intro exI [of _ "[]"]) simp
next
  case (Cons op' ops)
  obtain more where "kind_live kindId (names @ more) (kind_step iters kindId life op')"
    using kind_step_live [OF Cons.prems(1) assms(2), of op' iters] Cons.prems(2) by auto
  from Cons.IH [OF this] Cons.prems(2) show ?case by auto
qed

lemma token_names_unique:
  assumes "names_ok names" "token_names names (a, t)" "token_names names (b, u)" "t \<noteq> InvalidToken" "u \<noteq> InvalidToken"
  shows "a = b \<longleftrightarrow> t = u"
proof -
  obtain i j where ij: "i < length names" "names ! i = a" "t = token_at i" "j < length names" "names ! j = b" "u = token_at j"
    using assms(2-5) by (auto simp: token_names_def)
  have "i < 223" "j < 223" using ij assms(1) by (auto simp: names_ok_def)
  then have "t = u \<longleftrightarrow> i = j" using token_word(2) [of i] token_word(2) [of j] ij(3,6) by (metis add_left_cancel)
  moreover have "a = b \<longleftrightarrow> i = j" using ij assms(1) by (auto simp: names_ok_def nth_eq_iff_index_eq)
  ultimately show ?thesis by simp
qed

text \<open>
  C9. Tokens are permanent. Whatever happens around a kind, loads after a restart or a failed change, names added,
  index ids looked up and deleted, commits that succeed or fail, and requests that are rolled back: the names that have
  tokens only grow at the end, the record in the database and the state in memory hold exactly them, and every token
  that was ever handed out stands for the name it was handed out for, two names never sharing one.
\<close>

theorem tokens_permanent:
  assumes "nonul kindId" "\<forall>op' \<in> set ops. \<forall>str \<in> set (op_names op'). nonul str"
    and "names_ok names" "stored kindId (ke_world e) = tokens_record names" "kinds_free (ke_txn e)"
    and "foldl (kind_step iters kindId) ([], None, e) ops = (log, k, e')"
  shows "\<exists>more. names_ok (names @ more) \<and> stored kindId (ke_world e') = tokens_record (names @ more) \<and>
    (\<forall>s. k = Some s \<longrightarrow> tokens_ok (names @ more) s) \<and> (\<forall>p \<in> set log. token_names (names @ more) p) \<and>
    (\<forall>(a, t) \<in> set log. \<forall>(b, u) \<in> set log. t \<noteq> InvalidToken \<longrightarrow> u \<noteq> InvalidToken \<longrightarrow> (a = b \<longleftrightarrow> t = u))"
proof -
  have "kind_live kindId names ([], None, e)" using assms(3-5) by (simp add: kind_live_def)
  from kind_run_live [OF this assms(1,2), of iters] obtain more where "kind_live kindId (names @ more) (log, k, e')"
    using assms(6) by auto
  then show ?thesis
    using token_names_unique [of "names @ more"] unfolding kind_live_def by (intro exI [of _ more]) fastforce
qed

definition env_ex :: "dbkey option kind_env" where
  "env_ex = \<lparr>ke_world = \<lparr>lw_dbs = (\<lambda>_ _. None), lw_quotas = []\<rparr>,
     ke_seq = (\<lparr>sq_key = map byte_of ''indexId'', sq_next = 0, sq_allocated = 0, sq_answers = []\<rparr>, \<lambda>_. None), ke_txn = level_txn_new\<rparr>"

theorem tokens_permanent_witness:
  "\<exists>log k e' more. foldl (kind_step (\<lambda>_. list_ldb []) ''Person:1'') ([], None, env_ex)
      [KindInit [''name''] None, KindAddToken ''age'' None, TxnAbort, KindInit [''name''] None, KindAddToken ''age'' None] = (log, k, e') \<and>
    names_ok ([] @ more) \<and> stored ''Person:1'' (ke_world e') = tokens_record ([] @ more) \<and>
    (\<forall>s. k = Some s \<longrightarrow> tokens_ok ([] @ more) s) \<and> (\<forall>p \<in> set log. token_names ([] @ more) p) \<and>
    (\<forall>(a, t) \<in> set log. \<forall>(b, u) \<in> set log. t \<noteq> InvalidToken \<longrightarrow> u \<noteq> InvalidToken \<longrightarrow> (a = b \<longleftrightarrow> t = u))"
proof -
  obtain log k e' where "foldl (kind_step (\<lambda>_. list_ldb []) ''Person:1'') ([], None, env_ex)
      [KindInit [''name''] None, KindAddToken ''age'' None, TxnAbort, KindInit [''name''] None, KindAddToken ''age'' None] = (log, k, e')"
    by (metis prod_cases3)
  from tokens_permanent [OF _ _ _ _ _ this, of "[]"] this show ?thesis
    by (auto simp: nonul_def tokens_record_def stored_def env_ex_def)
qed

section \<open>Writing with the tokens of a kind\<close>

text \<open>
  What a writer relies on of \<^verbatim>\<open>MojSharedTokenSet\<close>: a name gets a token that stands for it from then on, or none, and the
  vector that comes back is the beginning of the names.
\<close>

locale shared_tokens =
  fixes add :: "'k add_token" and names_of :: "'k \<Rightarrow> string list" and ok :: "'k \<Rightarrow> bool"
  assumes names_law: "ok k \<Longrightarrow> names_ok (names_of k)"
    and add_law: "ok k \<Longrightarrow> nonul str \<Longrightarrow> \<exists>tok vec k' more. add str k = Inr (tok, vec, tokens_obj vec, k') \<and> ok k' \<and>
      names_of k' = names_of k @ more \<and> token_names (names_of k') (str, tok) \<and> (\<exists>n. vec = take n (names_of k'))"
begin

text \<open>The writer's own set is a beginning of the shared one.\<close>

definition local_ok :: "'k token_set \<Rightarrow> bool" where
  "local_ok ts \<longleftrightarrow> ok (m_sharedTokenSet ts) \<and> (\<exists>n. m_tokenVec ts = take n (names_of (m_sharedTokenSet ts))) \<and>
     m_tokenObj ts = tokens_obj (m_tokenVec ts)"

definition grows :: "'k token_set \<Rightarrow> 'k token_set \<Rightarrow> bool" where
  "grows ts ts' \<longleftrightarrow> (\<exists>more. names_of (m_sharedTokenSet ts') = names_of (m_sharedTokenSet ts) @ more)"

lemma grows_refl [simp]: "grows ts ts"
  by (simp add: grows_def)

lemma grows_trans: "grows ts ts' \<Longrightarrow> grows ts' ts'' \<Longrightarrow> grows ts ts''"
  by (auto simp: grows_def)

lemma tok_enc_grows:
  "grows ts ts' \<Longrightarrow> tok_enc (names_of (m_sharedTokenSet ts)) v bs \<Longrightarrow> tok_enc (names_of (m_sharedTokenSet ts')) v bs"
  by (auto simp: grows_def intro: tok_enc_mono)

lemma tok_str_grows:
  "grows ts ts' \<Longrightarrow> tok_str (names_of (m_sharedTokenSet ts)) s bs \<Longrightarrow> tok_str (names_of (m_sharedTokenSet ts')) s bs"
  by (auto simp: grows_def intro: tok_str_mono)

lemma names_ok_take: "names_ok names \<Longrightarrow> names_ok (take n names)"
  by (auto simp: names_ok_def dest: in_set_takeD)

lemma tokenFromString_ok:
  assumes "local_ok ts" "nonul str"
  shows "\<exists>tok ts'. tokenFromString add str b ts = Inr (tok, ts') \<and> local_ok ts' \<and> grows ts ts' \<and>
    token_names (names_of (m_sharedTokenSet ts')) (str, tok)"
proof -
  let ?k = "m_sharedTokenSet ts"
  obtain n where loc: "ok ?k" "m_tokenVec ts = take n (names_of ?k)" "m_tokenObj ts = tokens_obj (take n (names_of ?k))"
    using assms(1) by (auto simp: local_ok_def)
  have vec: "names_ok (take n (names_of ?k))" using names_law [OF loc(1)] by (rule names_ok_take)
  show ?thesis
  proof (cases "str \<in> set (take n (names_of ?k))")
    case True
    then obtain i where i: "i < length (take n (names_of ?k))" "take n (names_of ?k) ! i = str" by (auto simp: in_set_conv_nth)
    have "length (take n (names_of ?k)) \<le> 223" using vec unfolding names_ok_def by blast
    with i(1) have i223: "i < 223" by (rule less_le_trans)
    note w = token_word [OF i223]
    have "obj_get str (m_tokenObj ts) = Some (OInt (word_of_nat (32 + i)))"
      using tokens_obj_get [of "take n (names_of ?k)" i] vec i loc(3) by (auto simp: names_ok_def simp del: of_nat_add)
    then have "get_uint32 MojStrToInt64 str (m_tokenObj ts) = Inr (Some (word_of_nat (32 + i)))"
      using w(1,3) i223 by (simp add: get_uint32_def get_int_def del: of_nat_add)
    moreover have "(word_of_nat (32 + i) :: u32) \<le> 255 \<and> (word_of_nat (32 + i) :: u32) \<noteq> 0"
    proof -
      have "unat (word_of_nat (32 + i) :: u32) = 32 + i" using i223 by (simp only: unat_of_nat) (simp add: take_bit_nat_eq_self)
      moreover from this have "(word_of_nat (32 + i) :: u32) \<noteq> 0" by (metis add_is_0 unat_0 zero_neq_numeral)
      ultimately show ?thesis using i223 by (simp add: word_le_nat_alt del: of_nat_add)
    qed
    ultimately have "tokenFromString add str b ts = Inr (token_at i, ts)"
      using w(4) by (simp add: tokenFromString_def del: of_nat_add)
    moreover have "token_names (names_of ?k) (str, token_at i)"
      using i by (auto simp: token_names_def simp del: of_nat_add)
    ultimately show ?thesis using assms(1) by auto
  next
    case False
    then have none: "get_uint32 MojStrToInt64 str (m_tokenObj ts) = Inr None"
      using tokens_obj_get_None [of "take n (names_of ?k)" str] vec assms(2) loc(3)
      by (simp add: get_uint32_def get_int_def names_ok_def)
    show ?thesis
    proof (cases b)
      case True
      obtain tok vec k' more m where "add str ?k = Inr (tok, vec, tokens_obj vec, k')" "ok k'" "names_of k' = names_of ?k @ more"
        "token_names (names_of k') (str, tok)" "vec = take m (names_of k')"
        using add_law [OF loc(1) assms(2)] by blast
      then show ?thesis
        using True none by (auto simp: tokenFromString_def local_ok_def grows_def)
    next
      case False
      then show ?thesis using none assms(1) by (auto simp: tokenFromString_def token_names_def)
    qed
  qed
qed

text \<open>What the writer leaves for a value.\<close>

lemma writeString_ok:
  assumes "w_tokenSet w = Some ts" "local_ok ts" "nonul str"
  shows "\<exists>bs ts'. writeString add str b w = Inr (w\<lparr>w_buf := w_buf w @ bs, w_tokenSet := Some ts'\<rparr>) \<and> local_ok ts' \<and> grows ts ts' \<and>
    tok_str (names_of (m_sharedTokenSet ts')) str bs"
proof -
  obtain tok ts' where t: "tokenFromString add str b ts = Inr (tok, ts')" "local_ok ts'" "grows ts ts'"
    "token_names (names_of (m_sharedTokenSet ts')) (str, tok)"
    using tokenFromString_ok [OF assms(2,3)] by blast
  show ?thesis
  proof (cases "tok = InvalidToken")
    case True
    then show ?thesis
      using assms(1) t
      by (intro exI [of _ "enc_str str"] exI [of _ ts'])
        (simp add: writeString_def enc_str_def writeUInt8_def writeChars_def tok_str_def)
  next
    case False
    then obtain i where i: "i < length (names_of (m_sharedTokenSet ts'))" "names_of (m_sharedTokenSet ts') ! i = str" "tok = token_at i"
      using t(4) by (auto simp: token_names_def)
    have "i < 223" using i(1) names_law t(2) by (fastforce simp: local_ok_def names_ok_def)
    moreover have "tok = TokenStartMarker + word_of_nat i" using i(3) by (simp add: TokenStartMarker_def)
    ultimately show ?thesis
      using assms(1) t i False
      by (intro exI [of _ "[tok]"] exI [of _ ts']) (auto simp: writeString_def writeUInt8_def tok_str_def)
  qed
qed

lemma writer_same: "w_tokenSet w = Some ts \<Longrightarrow> w\<lparr>w_buf := w_buf w, w_tokenSet := Some ts\<rparr> = w"
  by (cases w) simp

lemma writer_props:
  assumes "\<And>p ts w. p \<in> set ps \<Longrightarrow> w_tokenSet w = Some ts \<Longrightarrow> local_ok ts \<Longrightarrow>
      \<exists>bs ts'. run (writer_ev add) w (obj_visit (snd p)) = Inr (w\<lparr>w_buf := w_buf w @ bs, w_tokenSet := Some ts'\<rparr>) \<and> local_ok ts' \<and>
        grows ts ts' \<and> tok_enc (names_of (m_sharedTokenSet ts')) (snd p) bs"
    and "\<forall>p \<in> set ps. nonul (fst p)" "w_tokenSet w = Some ts" "local_ok ts"
  shows "\<exists>bss ts'. run (writer_ev add) w (concat (map (\<lambda>(k, v). PropName k # obj_visit v) ps)) =
      Inr (w\<lparr>w_buf := w_buf w @ concat bss, w_tokenSet := Some ts'\<rparr>) \<and> local_ok ts' \<and> grows ts ts' \<and>
      list_all2 (\<lambda>p bs. \<exists>b b'. bs = b @ b' \<and> tok_str (names_of (m_sharedTokenSet ts')) (fst p) b \<and>
        tok_enc (names_of (m_sharedTokenSet ts')) (snd p) b') ps bss"
  using assms
proof (induction ps arbitrary: w ts)
  case Nil
  then show ?case by (intro exI [of _ "[]"] exI [of _ ts]) (simp add: writer_same)
next
  case (Cons p ps)
  obtain k v where p: "p = (k, v)" by (cases p)
  have k: "nonul k" using Cons.prems(2) p by simp
  obtain b ts1 where b: "writeString add k True w = Inr (w\<lparr>w_buf := w_buf w @ b, w_tokenSet := Some ts1\<rparr>)" "local_ok ts1" "grows ts ts1"
    "tok_str (names_of (m_sharedTokenSet ts1)) k b"
    using writeString_ok [OF Cons.prems(3,4) k] by blast
  obtain b' ts2 where b': "run (writer_ev add) (w\<lparr>w_buf := w_buf w @ b, w_tokenSet := Some ts1\<rparr>) (obj_visit v) =
      Inr (w\<lparr>w_buf := (w_buf w @ b) @ b', w_tokenSet := Some ts2\<rparr>)" "local_ok ts2" "grows ts1 ts2"
    "tok_enc (names_of (m_sharedTokenSet ts2)) v b'"
    using Cons.prems(1) [of p "w\<lparr>w_buf := w_buf w @ b, w_tokenSet := Some ts1\<rparr>" ts1] b(2) p by auto
  obtain bss ts3 where bss: "run (writer_ev add) (w\<lparr>w_buf := (w_buf w @ b) @ b', w_tokenSet := Some ts2\<rparr>)
        (concat (map (\<lambda>(k, v). PropName k # obj_visit v) ps)) =
      Inr (w\<lparr>w_buf := ((w_buf w @ b) @ b') @ concat bss, w_tokenSet := Some ts3\<rparr>)" "local_ok ts3" "grows ts2 ts3"
    "list_all2 (\<lambda>p bs. \<exists>b b'. bs = b @ b' \<and> tok_str (names_of (m_sharedTokenSet ts3)) (fst p) b \<and>
        tok_enc (names_of (m_sharedTokenSet ts3)) (snd p) b') ps bss"
    using Cons.IH [of "w\<lparr>w_buf := (w_buf w @ b) @ b', w_tokenSet := Some ts2\<rparr>" ts2] Cons.prems(1,2) b'(2) by auto
  have "tok_str (names_of (m_sharedTokenSet ts3)) k b" "tok_enc (names_of (m_sharedTokenSet ts3)) v b'"
    using b b' bss(3) tok_str_grows tok_enc_grows grows_trans by blast+
  then show ?case
    using b b' bss by (intro exI [of _ "(b @ b') # bss"] exI [of _ ts3]) (auto simp: p run_append intro: grows_trans)
qed

lemma writer_elems:
  assumes "\<And>x ts w. x \<in> set xs \<Longrightarrow> w_tokenSet w = Some ts \<Longrightarrow> local_ok ts \<Longrightarrow>
      \<exists>bs ts'. run (writer_ev add) w (obj_visit x) = Inr (w\<lparr>w_buf := w_buf w @ bs, w_tokenSet := Some ts'\<rparr>) \<and> local_ok ts' \<and>
        grows ts ts' \<and> tok_enc (names_of (m_sharedTokenSet ts')) x bs"
    and "w_tokenSet w = Some ts" "local_ok ts"
  shows "\<exists>bss ts'. run (writer_ev add) w (concat (map obj_visit xs)) =
      Inr (w\<lparr>w_buf := w_buf w @ concat bss, w_tokenSet := Some ts'\<rparr>) \<and> local_ok ts' \<and> grows ts ts' \<and>
      list_all2 (tok_enc (names_of (m_sharedTokenSet ts'))) xs bss"
  using assms
proof (induction xs arbitrary: w ts)
  case Nil
  then show ?case by (intro exI [of _ "[]"] exI [of _ ts]) (simp add: writer_same)
next
  case (Cons x xs)
  obtain b ts1 where b: "run (writer_ev add) w (obj_visit x) = Inr (w\<lparr>w_buf := w_buf w @ b, w_tokenSet := Some ts1\<rparr>)" "local_ok ts1"
    "grows ts ts1" "tok_enc (names_of (m_sharedTokenSet ts1)) x b"
    using Cons.prems(1) [of x, OF _ Cons.prems(2,3)] by auto
  obtain bss ts2 where bss: "run (writer_ev add) (w\<lparr>w_buf := w_buf w @ b, w_tokenSet := Some ts1\<rparr>) (concat (map obj_visit xs)) =
      Inr (w\<lparr>w_buf := (w_buf w @ b) @ concat bss, w_tokenSet := Some ts2\<rparr>)" "local_ok ts2" "grows ts1 ts2"
    "list_all2 (tok_enc (names_of (m_sharedTokenSet ts2))) xs bss"
    using Cons.IH [of "w\<lparr>w_buf := w_buf w @ b, w_tokenSet := Some ts1\<rparr>" ts1] Cons.prems(1) b(2) by auto
  then show ?case
    using b tok_enc_grows by (intro exI [of _ "b # bss"] exI [of _ ts2]) (auto simp: run_append intro: grows_trans)
qed

lemma writer_ok:
  "\<lbrakk>wf_obj v; w_tokenSet w = Some ts; local_ok ts\<rbrakk> \<Longrightarrow>
   \<exists>bs ts'. run (writer_ev add) w (obj_visit v) = Inr (w\<lparr>w_buf := w_buf w @ bs, w_tokenSet := Some ts'\<rparr>) \<and> local_ok ts' \<and>
     grows ts ts' \<and> tok_enc (names_of (m_sharedTokenSet ts')) v bs"
proof (induction v arbitrary: w ts rule: enc.induct)
  case (1 ps)
  let ?w = "w\<lparr>w_buf := w_buf w @ [MarkerObjectBegin]\<rparr>"
  have "\<exists>bs ts'. run (writer_ev add) w (obj_visit (snd p)) = Inr (w\<lparr>w_buf := w_buf w @ bs, w_tokenSet := Some ts'\<rparr>) \<and> local_ok ts' \<and>
        grows ts ts' \<and> tok_enc (names_of (m_sharedTokenSet ts')) (snd p) bs"
    if "p \<in> set ps" "w_tokenSet w = Some ts" "local_ok ts" for p ts w
    using 1(1) [OF that(1) prod.collapse, OF _ that(2,3)] 1(2) that(1) by auto
  then obtain bss ts' where r: "run (writer_ev add) ?w (concat (map (\<lambda>(k, v). PropName k # obj_visit v) ps)) =
      Inr (?w\<lparr>w_buf := w_buf ?w @ concat bss, w_tokenSet := Some ts'\<rparr>)" "local_ok ts'" "grows ts ts'"
      "list_all2 (\<lambda>p bs. \<exists>b b'. bs = b @ b' \<and> tok_str (names_of (m_sharedTokenSet ts')) (fst p) b \<and>
        tok_enc (names_of (m_sharedTokenSet ts')) (snd p) b') ps bss"
    using writer_props [of ps ?w ts] 1(2,3,4) by auto
  from tok_object [OF r(4)] show ?case
    using r by (intro exI [of _ "MarkerObjectBegin # concat bss @ [MarkerObjectEnd]"] exI [of _ ts'])
      (simp add: run_append writeUInt8_def)
next
  case (2 xs)
  let ?w = "w\<lparr>w_buf := w_buf w @ [MarkerArrayBegin]\<rparr>"
  obtain bss ts' where r: "run (writer_ev add) ?w (concat (map obj_visit xs)) =
      Inr (?w\<lparr>w_buf := w_buf ?w @ concat bss, w_tokenSet := Some ts'\<rparr>)" "local_ok ts'" "grows ts ts'"
      "list_all2 (tok_enc (names_of (m_sharedTokenSet ts'))) xs bss"
    using writer_elems [of xs ?w ts] 2 by auto
  from tok_array [OF r(4)] show ?case
    using r by (intro exI [of _ "MarkerArrayBegin # concat bss @ [MarkerObjectEnd]"] exI [of _ ts'])
      (simp add: run_append writeUInt8_def)
next
  case (3 s)
  then show ?case using writeString_ok [of w ts s False] by (auto intro: tok_string)
qed (auto intro!: exI tok_leaf simp: writeUInt8_def; simp)+

end

text \<open>The provider: the state of a kind, when its commits succeed.\<close>

definition kind_addToken ::
  "'it engine_iters \<Rightarrow> (string \<Rightarrow> MojErr option) \<Rightarrow> (kind_state \<times> 'it kind_env) add_token" where
  "kind_addToken iters status str k =
     (case ks_addToken iters status str k of (Inr (tok, vec, obj), k') \<Rightarrow> Inr (tok, vec, obj, k') | (Inl e, _) \<Rightarrow> Inl e)"

definition kind_ok :: "kind_state \<times> 'it kind_env \<Rightarrow> bool" where
  "kind_ok = (\<lambda>(s, e). tokens_ok (ks_tokenVec s) s \<and> stored (ks_kindId s) (ke_world e) = tokens_record (ks_tokenVec s))"

interpretation kind_tokens: shared_tokens "kind_addToken iters (\<lambda>_. None)" "\<lambda>(s, e). ks_tokenVec s" kind_ok
proof
  fix k :: "kind_state \<times> 'a kind_env" and str
  obtain s e where k: "k = (s, e)" by (cases k)
  assume ok: "kind_ok k"
  then have s: "tokens_ok (ks_tokenVec s) s" "stored (ks_kindId s) (ke_world e) = tokens_record (ks_tokenVec s)"
    by (simp_all add: kind_ok_def k)
  then show "names_ok (case k of (s, e) \<Rightarrow> ks_tokenVec s)" by (simp add: k tokens_ok_def)
  assume "nonul str"
  from addToken_ok [OF s this, of iters "\<lambda>_. None"]
  obtain r s' e' more where A: "ks_addToken iters (\<lambda>_. None) str (s, e) = (r, s', e')"
    "tokens_ok (ks_tokenVec s @ more) s'" "ks_kindId s' = ks_kindId s" "stored (ks_kindId s) (ke_world e') = tokens_record (ks_tokenVec s @ more)"
    and r: "\<forall>tok vec o'. r = Inr (tok, vec, o') \<longrightarrow> token_names (ks_tokenVec s @ more) (str, tok) \<and>
      (vec = [] \<or> vec = ks_tokenVec s @ more) \<and> o' = tokens_obj vec" "\<exists>v. r = Inr v"
    by blast
  obtain tok vec o' where "r = Inr (tok, vec, o')" using r(2) by (metis prod_cases3)
  then have r: "r = Inr (tok, vec, tokens_obj vec)" "token_names (ks_tokenVec s @ more) (str, tok)"
    "vec = [] \<or> vec = ks_tokenVec s @ more" using r(1) by blast+
  have names: "ks_tokenVec s' = ks_tokenVec s @ more" using A(2) by (simp add: tokens_ok_def)
  have vec: "\<exists>n. vec = take n (ks_tokenVec s')" unfolding names using r(3) by (metis take_all_iff order_refl take_0)
  have ok': "kind_ok (s', e')" using A(2-4) names by (simp add: kind_ok_def)
  have add: "kind_addToken iters (\<lambda>_. None) str k = Inr (tok, vec, tokens_obj vec, (s', e'))"
    using A(1) r(1) by (simp add: k kind_addToken_def)
  show "\<exists>tok vec k' more. kind_addToken iters (\<lambda>_. None) str k = Inr (tok, vec, tokens_obj vec, k') \<and> kind_ok k' \<and>
      (case k' of (s, e) \<Rightarrow> ks_tokenVec s) = (case k of (s, e) \<Rightarrow> ks_tokenVec s) @ more \<and>
      token_names (case k' of (s, e) \<Rightarrow> ks_tokenVec s) (str, tok) \<and> (\<exists>n. vec = take n (case k' of (s, e) \<Rightarrow> ks_tokenVec s))"
    unfolding add using ok' names vec r(2) by (intro exI [of _ tok] exI [of _ vec] exI [of _ "(s', e')"] exI [of _ more]) (simp add: k)
qed

end
