(* ===== verification/DbKind.thy ===== *)
theory DbKind
  imports DbTokens DbIndexOk DbPermit Schema
begin

text \<open>
  Kinds (\<^verbatim>\<open>src/db/MojDbKind.cpp\<close>): their ids, the hierarchy they form, permissions on them and the update of an object
  through a kind and its supers, with the revision sets (\<^verbatim>\<open>src/db/MojDbRevisionSet.cpp\<close>). Kinds refer to each other by
  pointer; here they live in a heap from their ids, since at most one kind of an id is alive at a time.
\<close>

section \<open>Revision sets\<close>

definition RevKey :: string where "RevKey = ''_rev''"

record rev_set =
  rs_name :: string
  rs_props :: "extractor list"

definition rev_new :: rev_set where
  "rev_new = \<lparr>rs_name = [], rs_props = []\<rparr>"

definition rev_addProp :: "icu \<Rightarrow> obj \<Rightarrow> rev_set \<Rightarrow> rev_set res" where
  "rev_addProp lib propObj rs =
     rbind (ext_fromObject lib propObj []) (\<lambda>extractor. Inr (rs\<lparr>rs_props := rs_props rs @ [PropExtractor extractor]\<rparr>))"

definition rev_fromObject :: "icu \<Rightarrow> obj \<Rightarrow> rev_set res" where
  "rev_fromObject lib obj =
     rbind (getRequired_string ''name'' obj) (\<lambda>name.
     rbind (getRequired ''props'' obj) (\<lambda>props.
     rbind (run (\<lambda>rs propObj. rev_addProp lib propObj rs) (rev_new\<lparr>rs_name := name\<rparr>) (ensureArray props)) (\<lambda>rs.
       if rs_props rs = [] then Inl MojErrDbInvalidRevisionSet else Inr rs)))"

definition rev_updateRev :: "rev_set \<Rightarrow> obj \<Rightarrow> obj res" where
  "rev_updateRev rs obj = rbind (getRequired RevKey obj) (\<lambda>rev. Inr (obj_put (rs_name rs) rev obj))"

fun rev_diff_loop :: "extractor list \<Rightarrow> obj \<Rightarrow> obj \<Rightarrow> bool res" where
  "rev_diff_loop [] newObj oldObj = Inr False"
| "rev_diff_loop (e # es) newObj oldObj =
     rbind (ext_vals e newObj []) (\<lambda>newVals.
     rbind (ext_vals e oldObj []) (\<lambda>oldVals.
       if newVals \<noteq> oldVals then Inr True else rev_diff_loop es newObj oldObj))"

definition rev_diff :: "rev_set \<Rightarrow> obj \<Rightarrow> obj \<Rightarrow> obj res" where
  "rev_diff rs newObj oldObj =
     rbind (rev_diff_loop (rs_props rs) newObj oldObj) (\<lambda>changed. if changed then rev_updateRev rs newObj else Inr newObj)"

definition rev_update :: "rev_set \<Rightarrow> obj \<Rightarrow> obj option \<Rightarrow> obj res" where
  "rev_update rs newObj oldObj =
     (case oldObj of None \<Rightarrow> rev_updateRev rs newObj | Some old \<Rightarrow> rev_diff rs newObj old)"

section \<open>Kinds\<close>

record kind =
  k_obj :: obj
  k_id :: string
  k_name :: string
  k_owner :: string
  k_schema :: schema
  k_indexObjects :: "obj list"
  k_indexes :: "(db_index \<times> windex) list"
  k_revSets :: "rev_set list"
  k_superIds :: "string list"
  k_supers :: "string list"
  k_subs :: "string list"
  k_version :: u32
  k_state :: "kind_state option"
  k_backup :: bool
  k_builtin :: bool

type_synonym kinds = "string \<Rightarrow> kind option"

definition kind_new :: "bool \<Rightarrow> kind" where
  "kind_new builtin = \<lparr>k_obj = OUndefined, k_id = [], k_name = [], k_owner = [], k_schema = schema_new, k_indexObjects = [],
     k_indexes = [], k_revSets = [], k_superIds = [], k_supers = [], k_subs = [], k_version = 0, k_state = None,
     k_backup = False, k_builtin = builtin\<rparr>"

definition RootKindId :: string where "RootKindId = ''Object:1''"
definition VersionSeparator :: char where "VersionSeparator = CHR '':''"
definition KindIdLenMax :: nat where "KindIdLenMax = 256"

fun str_rfind :: "char \<Rightarrow> string \<Rightarrow> nat option" where
  "str_rfind c [] = None"
| "str_rfind c (d # s) = (case str_rfind c s of Some i \<Rightarrow> Some (Suc i) | None \<Rightarrow> if d = c then Some 0 else None)"

definition kind_init :: "string \<Rightarrow> kind \<Rightarrow> kind res" where
  "kind_init ident k =
     (if length ident > KindIdLenMax then Inl MojErrDbMalformedId
      else
        case str_rfind VersionSeparator ident of
          None \<Rightarrow> Inl MojErrDbMalformedId
        | Some sepIdx \<Rightarrow>
            let name = take sepIdx ident;
                (ver, rest) = strtoll (cstr (drop (sepIdx + 1) ident)) in
            if rest \<noteq> [] \<or> sint ver < 0 \<or> sint ver > 4294967295 then Inl MojErrDbMalformedId
            else Inr (k\<lparr>k_name := name, k_version := ucast ver, k_id := ident\<rparr>))"

text \<open>What a kind points to. A kind that is not there has no supers and no subs.\<close>

definition supers_of :: "kinds \<Rightarrow> string \<Rightarrow> string list" where
  "supers_of h k = (case h k of Some d \<Rightarrow> k_supers d | None \<Rightarrow> [])"

definition subs_of :: "kinds \<Rightarrow> string \<Rightarrow> string list" where
  "subs_of h k = (case h k of Some d \<Rightarrow> k_subs d | None \<Rightarrow> [])"

definition superIds_of :: "kinds \<Rightarrow> string \<Rightarrow> string list" where
  "superIds_of h k = (case h k of Some d \<Rightarrow> k_superIds d | None \<Rightarrow> [])"

definition on_kind :: "string \<Rightarrow> (kind \<Rightarrow> kind) \<Rightarrow> kinds \<Rightarrow> kinds" where
  "on_kind k f h = (case h k of Some d \<Rightarrow> h(k \<mapsto> f d) | None \<Rightarrow> h)"

section \<open>The hierarchy\<close>

text \<open>The recursions over the hierarchy have fuel; more than the number of kinds is enough.\<close>

fun any_res :: "('a \<Rightarrow> bool res) \<Rightarrow> 'a list \<Rightarrow> bool res" where
  "any_res f [] = Inr False"
| "any_res f (x # xs) = rbind (f x) (\<lambda>b. if b then Inr True else any_res f xs)"

fun kind_extends :: "nat \<Rightarrow> kinds \<Rightarrow> string \<Rightarrow> string \<Rightarrow> bool res" where
  "kind_extends 0 h k ident = Inl MojStackOverflow"
| "kind_extends (Suc n) h k ident =
     (if k = ident then Inr True else any_res (\<lambda>super. kind_extends n h super ident) (supers_of h k))"

definition removeKind :: "string \<Rightarrow> string list \<Rightarrow> string list res" where
  "removeKind k vec = (if k \<in> set vec then Inr (remove1 k vec) else Inl MojAssertFailed)"

definition removeSub :: "string \<Rightarrow> string \<Rightarrow> kinds \<Rightarrow> kinds res" where
  "removeSub this super h = rbind (removeKind this (subs_of h super)) (\<lambda>subs. Inr (on_kind super (k_subs_update (\<lambda>_. subs)) h))"

definition removeSuper :: "string \<Rightarrow> string \<Rightarrow> kinds \<Rightarrow> kinds res" where
  "removeSuper this sub h = rbind (removeKind this (supers_of h sub)) (\<lambda>supers. Inr (on_kind sub (k_supers_update (\<lambda>_. supers)) h))"

definition addSuper :: "nat \<Rightarrow> string \<Rightarrow> string \<Rightarrow> kinds \<Rightarrow> kinds res" where
  "addSuper n this k h =
     rbind (kind_extends n h k this) (\<lambda>cycle.
       if cycle then Inr h
       else
         rbind (if supers_of h this \<noteq> [] \<and> hd (supers_of h this) = RootKindId
                then rbind (removeSub this RootKindId h) (\<lambda>h. Inr (on_kind this (k_supers_update (\<lambda>_. [])) h))
                else Inr h) (\<lambda>h.
           Inr (on_kind k (k_subs_update (\<lambda>subs. subs @ [this])) (on_kind this (k_supers_update (\<lambda>supers. supers @ [k])) h))))"

definition clearSupers :: "string \<Rightarrow> kinds \<Rightarrow> kinds res" where
  "clearSupers this h =
     rbind (run (\<lambda>h super. removeSub this super h) h (supers_of h this)) (\<lambda>h.
     let h = on_kind this (k_supers_update (\<lambda>_. [])) h in
     rbind (run (\<lambda>h sub. removeSuper this sub h) h (subs_of h this)) (\<lambda>h.
       Inr (on_kind this (k_subs_update (\<lambda>_. [])) h)))"

definition diffSupers :: "string list \<Rightarrow> string list \<Rightarrow> string list \<Rightarrow> string list" where
  "diffSupers kindMap vec1 vec2 = filter (\<lambda>i. i \<notin> set vec2 \<and> i \<in> set kindMap) vec1"

text \<open>The second half of \<^verbatim>\<open>updateSupers\<close>, which puts the links in place; \<open>kindMap\<close> is the map of the kind engine.\<close>

definition linkSupers :: "nat \<Rightarrow> string list \<Rightarrow> string \<Rightarrow> string list \<Rightarrow> kinds \<Rightarrow> kinds res" where
  "linkSupers n kindMap this superIds h =
     rbind (clearSupers this (on_kind this (k_superIds_update (\<lambda>_. superIds)) h)) (\<lambda>h.
     rbind (run (\<lambda>h super. if super \<in> set kindMap then addSuper n this super h else Inr h) h superIds) (\<lambda>h.
     rbind (run (\<lambda>h k. if this \<in> set (superIds_of h k) then addSuper n k this h else Inr h) h kindMap) (\<lambda>h.
       if supers_of h this = [] \<and> RootKindId \<in> set kindMap then addSuper n this RootKindId h else Inr h)))"

text \<open>The kinds below a kind, each shown by its first super only.\<close>

fun subKinds :: "nat \<Rightarrow> kinds \<Rightarrow> string \<Rightarrow> string option \<Rightarrow> obj list \<Rightarrow> obj list res" where
  "subKinds 0 h this parent kindsOut = Inl MojStackOverflow"
| "subKinds (Suc n) h this parent kindsOut =
     (if supers_of h this \<noteq> [] \<and> parent \<noteq> Some (hd (supers_of h this)) then Inr kindsOut
      else
        let kindsOut = (case h this of Some d \<Rightarrow> if k_builtin d then kindsOut else kindsOut @ [k_obj d] | None \<Rightarrow> kindsOut) in
        run (\<lambda>kindsOut sub. subKinds n h sub (Some this) kindsOut) kindsOut (subs_of h this))"

section \<open>Permissions\<close>

datatype MojDbOp = DbOpNone | DbOpUndefined | DbOpCreate | DbOpRead | DbOpUpdate | DbOpDelete | DbOpExtend | DbOpKindUpdate

fun stringFromOperation :: "MojDbOp \<Rightarrow> string" where
  "stringFromOperation DbOpNone = ''none''"
| "stringFromOperation DbOpCreate = ''create''"
| "stringFromOperation DbOpRead = ''read''"
| "stringFromOperation DbOpUpdate = ''update''"
| "stringFromOperation DbOpDelete = ''delete''"
| "stringFromOperation DbOpExtend = ''extend''"
| "stringFromOperation DbOpUndefined = ''unknown''"
| "stringFromOperation DbOpKindUpdate = ''unknown''"

record db_req =
  rq_domain :: string
  rq_admin :: bool
  rq_fixmode :: bool

definition owner_of :: "kinds \<Rightarrow> string \<Rightarrow> string" where
  "owner_of h k = (case h k of Some d \<Rightarrow> k_owner d | None \<Rightarrow> [])"

definition hasOwnerPermission :: "kinds \<Rightarrow> string \<Rightarrow> db_req \<Rightarrow> bool" where
  "hasOwnerPermission h this req \<longleftrightarrow> rq_admin req \<or> rq_domain req = owner_of h this"

definition kind_deny :: "perm_engine \<Rightarrow> unit res" where
  "kind_deny pe = (if pe_enabled pe then Inl MojErrDbPermissionDenied else Inr ())"

fun objectPermission :: "nat \<Rightarrow> perm_engine \<Rightarrow> kinds \<Rightarrow> string \<Rightarrow> string \<Rightarrow> db_req \<Rightarrow> perm_value res" where
  "objectPermission 0 pe h this opStr req = Inl MojStackOverflow"
| "objectPermission (Suc n) pe h this opStr req =
     rbind (perm_check pe PermissionType this (rq_domain req) opStr) (\<lambda>val.
       if val = ValueUndefined \<and> supers_of h this \<noteq> []
       then objectPermission n pe h (hd (supers_of h this)) opStr req else Inr val)"

definition kind_checkPermission :: "nat \<Rightarrow> perm_engine \<Rightarrow> kinds \<Rightarrow> string \<Rightarrow> MojDbOp \<Rightarrow> db_req \<Rightarrow> unit res" where
  "kind_checkPermission n pe h this opn req =
     (if hasOwnerPermission h this req then Inr ()
      else if opn = DbOpKindUpdate then kind_deny pe
      else
        rbind (objectPermission n pe h this (stringFromOperation opn) req) (\<lambda>val.
          if val \<noteq> ValueAllow then kind_deny pe else Inr ()))"

definition kind_checkOwnerPermission :: "perm_engine \<Rightarrow> kinds \<Rightarrow> string \<Rightarrow> db_req \<Rightarrow> unit res" where
  "kind_checkOwnerPermission pe h this req = (if \<not> hasOwnerPermission h this req then kind_deny pe else Inr ())"

section \<open>The update of an object\<close>

text \<open>What an update changes, by the id of the index. The choice of the quota that is charged is left out.\<close>

type_synonym index_txns = "obj \<Rightarrow> index_txn"

definition SyncKey :: string where "SyncKey = ''_sync''"

definition updateOwnIndexes ::
  "kinds \<Rightarrow> obj option \<Rightarrow> obj option \<Rightarrow> bool \<Rightarrow> index_txns \<Rightarrow> string \<Rightarrow> index_txns res" where
  "updateOwnIndexes h newObj oldObj fixmode t this =
     run (\<lambda>t (ix, x). rbind (index_update ix x newObj oldObj fixmode (t (i_id ix))) (\<lambda>it. Inr (t(i_id ix := it)))) t
       (case h this of Some d \<Rightarrow> k_indexes d | None \<Rightarrow> [])"

fun updateIndexes ::
  "nat \<Rightarrow> kinds \<Rightarrow> obj option \<Rightarrow> obj option \<Rightarrow> bool \<Rightarrow> string \<Rightarrow> string list \<times> index_txns \<Rightarrow> (string list \<times> index_txns) res" where
  "updateIndexes 0 h newObj oldObj fixmode this kt = Inl MojStackOverflow"
| "updateIndexes (Suc n) h newObj oldObj fixmode this (kindVec, t) =
     rbind (run (\<lambda>(kindVec, t) super.
              if super \<notin> set kindVec then updateIndexes n h newObj oldObj fixmode super (kindVec, t) else Inr (kindVec, t))
            (kindVec @ [this], t) (supers_of h this)) (\<lambda>(kindVec, t).
     rbind (updateOwnIndexes h newObj oldObj fixmode t this) (\<lambda>t. Inr (kindVec, t)))"

definition sresult_new :: sresult where
  "sresult_new = \<lparr>r_valid = False, r_msg = []\<rparr>"

text \<open>The supers come first, each as often as there are ways to it. A schema that does not hold is only logged here.\<close>

fun preUpdate :: "nat \<Rightarrow> kinds \<Rightarrow> obj option \<Rightarrow> string \<Rightarrow> obj option \<Rightarrow> obj option res" where
  "preUpdate 0 h oldObj this newObj = Inl MojStackOverflow"
| "preUpdate (Suc n) h oldObj this newObj =
     rbind (run (\<lambda>newObj super. preUpdate n h oldObj super newObj) newObj (supers_of h this)) (\<lambda>newObj.
       case (newObj, h this) of
         (Some new, Some d) \<Rightarrow>
           rbind (run (\<lambda>new rs. rev_update rs new oldObj) new (k_revSets d)) (\<lambda>new.
           rbind (schema_validate (k_schema d) new sresult_new) (\<lambda>_. Inr (Some new)))
       | _ \<Rightarrow> Inr newObj)"

definition kind_update ::
  "nat \<Rightarrow> perm_engine \<Rightarrow> kinds \<Rightarrow> obj option \<Rightarrow> obj option \<Rightarrow> MojDbOp \<Rightarrow> db_req \<Rightarrow> bool \<Rightarrow> string \<Rightarrow> index_txns \<Rightarrow>
   (obj option \<times> index_txns) res" where
  "kind_update n pe h newObj oldObj opn req checkSchema this t =
     rbind (kind_checkPermission n pe h this opn req) (\<lambda>_.
     rbind (case (newObj, h this) of
              (Some new, Some d) \<Rightarrow>
                let new = (if k_backup d \<and> \<not> obj_contains SyncKey new then obj_put SyncKey (OBool True) new else new) in
                if checkSchema
                then rbind (schema_validate (k_schema d) new sresult_new) (\<lambda>r.
                       if \<not> r_valid r then Inl MojErrSchemaValidation else Inr (Some new))
                else Inr (Some new)
            | _ \<Rightarrow> Inr newObj) (\<lambda>newObj.
     rbind (preUpdate n h oldObj this newObj) (\<lambda>newObj.
     rbind (updateIndexes n h newObj oldObj (rq_fixmode req) this ([], t)) (\<lambda>(kindVec, t).
       Inr (newObj, t)))))"

text \<open>Nothing behind the separator is the version 0.\<close>

lemma kind_init_no_version:
  "kind_init ''Person:'' k = Inr (k\<lparr>k_name := ''Person'', k_version := 0, k_id := ''Person:''\<rparr>)"
proof -
  have "str_rfind VersionSeparator ''Person:'' = Some 6" "strtoll (cstr []) = (0, [])" by code_simp+
  then show ?thesis by (simp add: kind_init_def KindIdLenMax_def)
qed

end
