(* ===== verification/DbHierarchy.thy ===== *)
theory DbHierarchy
  imports DbKind "HOL-Library.Multiset"
begin

text \<open>
  The hierarchy of kinds as a graph: the recursions of \<^verbatim>\<open>MojDbKind\<close> end on it, an update reaches every kind above
  the object's kind exactly once, permissions are inherited along the first supers, and the operations that link kinds
  keep the graph acyclic and mirrored whatever the kinds declare, and as they declare it when that has no cycle.
\<close>

section \<open>The graph\<close>

definition links :: "kinds \<Rightarrow> (string \<times> string) set" where
  "links h = {(k, s). s \<in> set (supers_of h k)}"

definition ancestors :: "kinds \<Rightarrow> string \<Rightarrow> string set" where
  "ancestors h k = {s. (k, s) \<in> (links h)\<^sup>*}"

definition graph_ok :: "kinds \<Rightarrow> bool" where
  "graph_ok h \<longleftrightarrow> acyclic (links h) \<and> finite (links h)"

lemma above_self [simp]: "k \<in> ancestors h k"
  by (simp add: ancestors_def)

lemma above_unfold: "ancestors h k = insert k (\<Union>s \<in> set (supers_of h k). ancestors h s)"
  by (auto simp: ancestors_def links_def elim: converse_rtranclE intro: converse_rtrancl_into_rtrancl)

lemma above_trans: "s \<in> ancestors h k \<Longrightarrow> ancestors h s \<subseteq> ancestors h k"
  by (auto simp: ancestors_def)

lemma finite_above: "graph_ok h \<Longrightarrow> finite (ancestors h k)"
proof -
  assume "graph_ok h"
  then have "finite (snd ` links h)" by (simp add: graph_ok_def)
  moreover have "ancestors h k \<subseteq> insert k (snd ` links h)"
  proof
    fix x
    assume "x \<in> ancestors h k"
    then have "(k, x) \<in> (links h)\<^sup>*" by (simp add: ancestors_def)
    then show "x \<in> insert k (snd ` links h)" by (cases rule: rtranclE) (auto intro: rev_image_eqI)
  qed
  ultimately show ?thesis by (meson finite_insert finite_subset)
qed

lemma not_above_super: "graph_ok h \<Longrightarrow> s \<in> set (supers_of h k) \<Longrightarrow> k \<notin> ancestors h s"
  unfolding ancestors_def graph_ok_def acyclic_def links_def
  by (metis (mono_tags, lifting) case_prodI mem_Collect_eq rtrancl_into_trancl2)

lemma above_super:
  assumes "graph_ok h" "s \<in> set (supers_of h k)"
  shows "ancestors h s \<subseteq> ancestors h k" "card (ancestors h s) < card (ancestors h k)"
proof -
  show sub: "ancestors h s \<subseteq> ancestors h k" using assms(2) above_unfold [of h k] by blast
  then have "ancestors h s \<subset> ancestors h k" using not_above_super [OF assms] above_self [of k h] by blast
  then show "card (ancestors h s) < card (ancestors h k)" by (rule psubset_card_mono [OF finite_above [OF assms(1)]])
qed

lemma above_pos: "graph_ok h \<Longrightarrow> 0 < card (ancestors h k)"
  by (metis above_self card_gt_0_iff empty_iff finite_above)

text \<open>Induction from the top of the hierarchy.\<close>

lemma fuel_cases:
  assumes "graph_ok h" "card (ancestors h k) \<le> n"
  obtains m where "n = Suc m" "\<And>s. s \<in> set (supers_of h k) \<Longrightarrow> card (ancestors h s) \<le> m"
proof -
  obtain m where "n = Suc m" using assms above_pos [OF assms(1), of k] by (cases n) auto
  moreover have "card (ancestors h s) \<le> m" if "s \<in> set (supers_of h k)" for s
    using above_super(2) [OF assms(1) that] assms(2) \<open>n = Suc m\<close> by simp
  ultimately show thesis by (rule that)
qed

section \<open>extends\<close>

lemma any_res_Inr: "(\<And>x. x \<in> set xs \<Longrightarrow> f x = Inr (P x)) \<Longrightarrow> any_res f xs = Inr (\<exists>x \<in> set xs. P x)"
  by (induction xs) auto

lemma extends_above:
  assumes "graph_ok h"
  shows "card (ancestors h k) \<le> n \<Longrightarrow> kind_extends n h k ident = Inr (ident \<in> ancestors h k)"
proof (induction n arbitrary: k)
  case 0
  then show ?case using above_pos [OF assms, of k] by simp
next
  case (Suc n)
  obtain m where m: "Suc n = Suc m" "\<And>s. s \<in> set (supers_of h k) \<Longrightarrow> card (ancestors h s) \<le> m"
    using fuel_cases [OF assms Suc.prems] by blast
  then have "any_res (\<lambda>super. kind_extends n h super ident) (supers_of h k) = Inr (\<exists>s \<in> set (supers_of h k). ident \<in> ancestors h s)"
    using Suc.IH by (intro any_res_Inr) simp
  then show ?case by (subst above_unfold) auto
qed

section \<open>Every kind above is updated once\<close>

lemma run_rbind: "run f t (xs @ ys) = rbind (run f t xs) (\<lambda>t. run f t ys)"
  by (rule run_append)

lemma updateIndexes_order:
  assumes "graph_ok h" and "card (ancestors h k) \<le> n"
    and "k \<notin> set kindVec" "\<And>x. x \<in> set kindVec \<Longrightarrow> x \<in> ancestors h k \<Longrightarrow> ancestors h x \<subseteq> set kindVec"
  shows "\<exists>order kindVec'. (\<forall>t. updateIndexes n h newObj oldObj fix k (kindVec, t) =
      rbind (run (updateOwnIndexes h newObj oldObj fix) t order) (\<lambda>t. Inr (kindVec', t))) \<and>
    set kindVec' = set kindVec \<union> ancestors h k \<and> distinct order \<and> set order = ancestors h k - set kindVec"
  using assms(2-)
proof (induction n arbitrary: k kindVec)
  case 0
  then show ?case using above_pos [OF assms(1), of k] by simp
next
  case (Suc n)
  obtain m where m: "Suc n = Suc m" "\<And>s. s \<in> set (supers_of h k) \<Longrightarrow> card (ancestors h s) \<le> m"
    using fuel_cases [OF assms(1) Suc.prems(1)] by blast
  let ?step = "\<lambda>(kindVec, t) super. if super \<notin> set kindVec then updateIndexes n h newObj oldObj fix super (kindVec, t)
      else Inr (kindVec, t)"
  let ?own = "updateOwnIndexes h newObj oldObj fix"
  have loop: "\<exists>order kindVec'. (\<forall>t. run ?step (kv, t) ss = rbind (run ?own t order) (\<lambda>t. Inr (kindVec', t))) \<and>
      set kindVec' = set kv \<union> (\<Union>s \<in> set ss. ancestors h s) \<and> distinct order \<and> set order = (\<Union>s \<in> set ss. ancestors h s) - set kv"
    if "set ss \<subseteq> set (supers_of h k)" "k \<in> set kv" "\<And>x. x \<in> set kv \<Longrightarrow> x \<in> ancestors h k \<Longrightarrow> x \<noteq> k \<Longrightarrow> ancestors h x \<subseteq> set kv" for ss kv
    using that
  proof (induction ss arbitrary: kv)
    case Nil
    show ?case by (rule exI [of _ "[]"]) simp
  next
    case (Cons s ss)
    have s: "s \<in> set (supers_of h k)" using Cons.prems(1) by simp
    have up: "ancestors h s \<subseteq> ancestors h k" "k \<notin> ancestors h s"
      using above_super(1) [OF assms(1) s] not_above_super [OF assms(1) s] by auto
    have closed: "ancestors h x \<subseteq> set kv" if "x \<in> set kv" "x \<in> ancestors h s" for x
      using Cons.prems(3) [OF that(1)] that(2) up by blast
    have "\<exists>order kv'. (\<forall>t. ?step (kv, t) s = rbind (run ?own t order) (\<lambda>t. Inr (kv', t))) \<and>
        set kv' = set kv \<union> ancestors h s \<and> distinct order \<and> set order = ancestors h s - set kv"
    proof (cases "s \<in> set kv")
      case True
      then have "ancestors h s \<subseteq> set kv" using closed by simp
      then show ?thesis using True by (intro exI [of _ "[]"] exI [of _ kv]) auto
    next
      case False
      from Suc.IH [OF _ this closed] m s show ?thesis using False by auto
    qed
    then obtain o1 kv1 where o1: "\<And>t. ?step (kv, t) s = rbind (run ?own t o1) (\<lambda>t. Inr (kv1, t))"
      "set kv1 = set kv \<union> ancestors h s" "distinct o1" "set o1 = ancestors h s - set kv"
      by blast
    have "ancestors h x \<subseteq> set kv1" if "x \<in> set kv1" "x \<in> ancestors h k" "x \<noteq> k" for x
      using that Cons.prems(3) [of x] above_trans [of x h s] o1(2) by blast
    then obtain o2 kv2 where o2: "\<And>t. run ?step (kv1, t) ss = rbind (run ?own t o2) (\<lambda>t. Inr (kv2, t))"
      "set kv2 = set kv1 \<union> (\<Union>s \<in> set ss. ancestors h s)" "distinct o2" "set o2 = (\<Union>s \<in> set ss. ancestors h s) - set kv1"
      using Cons.IH [of kv1] Cons.prems(1,2) o1(2) by auto
    have "run ?step (kv, t) (s # ss) = rbind (run ?own t (o1 @ o2)) (\<lambda>t. Inr (kv2, t))" for t
      using o1(1) o2(1) by (simp add: run_append rbind_assoc)
    then show ?case
      using o1(2-4) o2(2-4) by (intro exI [of _ "o1 @ o2"] exI [of _ kv2]) auto
  qed
  have "ancestors h x \<subseteq> set (kindVec @ [k])" if "x \<in> set (kindVec @ [k])" "x \<in> ancestors h k" "x \<noteq> k" for x
    using that Suc.prems(3) by auto
  then obtain order kv' where o: "\<And>t. run ?step (kindVec @ [k], t) (supers_of h k) = rbind (run ?own t order) (\<lambda>t. Inr (kv', t))"
    "set kv' = set (kindVec @ [k]) \<union> (\<Union>s \<in> set (supers_of h k). ancestors h s)" "distinct order"
    "set order = (\<Union>s \<in> set (supers_of h k). ancestors h s) - set (kindVec @ [k])"
    using loop [of "supers_of h k" "kindVec @ [k]"] by auto
  have no_k: "k \<notin> (\<Union>s \<in> set (supers_of h k). ancestors h s)" using not_above_super [OF assms(1)] by blast
  have "updateIndexes (Suc n) h newObj oldObj fix k (kindVec, t) = rbind (run ?own t (order @ [k])) (\<lambda>t. Inr (kv', t))" for t
    using o(1) by (simp add: run_append rbind_assoc)
  moreover have "set kv' = set kindVec \<union> ancestors h k" "set (order @ [k]) = ancestors h k - set kindVec"
    using o(2,4) above_unfold [of h k] no_k Suc.prems(2) by auto
  moreover have "distinct (order @ [k])" using o(3,4) by simp
  ultimately show ?case by blast
qed

section \<open>Changing the links\<close>

lemma on_kind_dom [simp]: "on_kind k f h x = None \<longleftrightarrow> h x = None"
  by (auto simp: on_kind_def split: option.splits)

lemma on_supers [simp]:
  "supers_of (on_kind k (k_supers_update g) h) x = (if x = k \<and> h k \<noteq> None then g (supers_of h k) else supers_of h x)"
  "subs_of (on_kind k (k_supers_update g) h) x = subs_of h x"
  "superIds_of (on_kind k (k_supers_update g) h) x = superIds_of h x"
  by (auto simp: on_kind_def supers_of_def subs_of_def superIds_of_def split: option.splits)

lemma on_subs [simp]:
  "subs_of (on_kind k (k_subs_update g) h) x = (if x = k \<and> h k \<noteq> None then g (subs_of h k) else subs_of h x)"
  "supers_of (on_kind k (k_subs_update g) h) x = supers_of h x"
  "superIds_of (on_kind k (k_subs_update g) h) x = superIds_of h x"
  by (auto simp: on_kind_def supers_of_def subs_of_def superIds_of_def split: option.splits)

lemma on_superIds [simp]:
  "superIds_of (on_kind k (k_superIds_update g) h) x = (if x = k \<and> h k \<noteq> None then g (superIds_of h k) else superIds_of h x)"
  "supers_of (on_kind k (k_superIds_update g) h) x = supers_of h x"
  "subs_of (on_kind k (k_superIds_update g) h) x = subs_of h x"
  by (auto simp: on_kind_def supers_of_def subs_of_def superIds_of_def split: option.splits)

lemma of_dom: "supers_of h k \<noteq> [] \<Longrightarrow> h k \<noteq> None" "subs_of h k \<noteq> [] \<Longrightarrow> h k \<noteq> None" "superIds_of h k \<noteq> [] \<Longrightarrow> h k \<noteq> None"
  by (auto simp: supers_of_def subs_of_def superIds_of_def split: option.splits)

text \<open>What an operation on links leaves alone.\<close>

definition same_kinds :: "kinds \<Rightarrow> kinds \<Rightarrow> bool" where
  "same_kinds h h' \<longleftrightarrow> (\<forall>k. (h' k = None) = (h k = None) \<and> superIds_of h' k = superIds_of h k)"

lemma same_kinds_refl [simp]: "same_kinds h h"
  by (simp add: same_kinds_def)

lemma same_kinds_trans: "same_kinds h h' \<Longrightarrow> same_kinds h' h'' \<Longrightarrow> same_kinds h h''"
  by (simp add: same_kinds_def)

lemma same_kinds_on [simp]:
  "same_kinds h (on_kind k (k_supers_update g) h') = same_kinds h h'"
  "same_kinds h (on_kind k (k_subs_update g) h') = same_kinds h h'"
  by (simp_all add: same_kinds_def)

text \<open>Supers and subs are two views of the same links.\<close>

definition mirror :: "kinds \<Rightarrow> bool" where
  "mirror h \<longleftrightarrow> (\<forall>a b. count (mset (supers_of h a)) b = count (mset (subs_of h b)) a)"

lemma mirror_mem: "mirror h \<Longrightarrow> b \<in> set (supers_of h a) \<longleftrightarrow> a \<in> set (subs_of h b)"
  unfolding mirror_def by (metis count_greater_zero_iff set_mset_mset)

lemma funpow_remove1_Cons: "y \<noteq> x \<Longrightarrow> (remove1 x ^^ n) (y # xs) = y # (remove1 x ^^ n) xs"
  by (induction n) auto

lemma remove1_all: "(remove1 x ^^ count (mset xs) x) xs = filter (\<lambda>y. y \<noteq> x) xs"
proof (induction xs)
  case (Cons y xs)
  then show ?case
    by (cases "y = x") (simp_all add: funpow_remove1_Cons funpow_swap1 [symmetric] del: funpow.simps add: funpow_Suc_right)
qed simp

lemma count_remove1: "count (mset (remove1 x xs)) y = count (mset xs) y - (if y = x then 1 else 0)"
  by simp

lemma removeSubs:
  assumes "\<And>s. count (mset ss) s \<le> count (mset (subs_of h s)) this"
  shows "\<exists>h'. run (\<lambda>h super. removeSub this super h) h ss = Inr h' \<and> same_kinds h h' \<and> supers_of h' = supers_of h \<and>
    (\<forall>s. subs_of h' s = (remove1 this ^^ count (mset ss) s) (subs_of h s))"
  using assms
proof (induction ss arbitrary: h)
  case (Cons s ss)
  have s: "this \<in> set (subs_of h s)"
    by (rule ccontr) (use Cons.prems [of s] in \<open>simp add: count_mset_0_iff [THEN iffD2]\<close>)
  let ?h = "on_kind s (k_subs_update (\<lambda>_. remove1 this (subs_of h s))) h"
  have dom: "h s \<noteq> None" by (rule of_dom(2)) (use s in auto)
  have "count (mset ss) s' \<le> count (mset (subs_of ?h s')) this" for s'
    using Cons.prems [of s'] dom by auto
  from Cons.IH [OF this] obtain h' where h': "run (\<lambda>h super. removeSub this super h) ?h ss = Inr h'" "same_kinds ?h h'"
    "supers_of h' = supers_of ?h" "\<forall>s'. subs_of h' s' = (remove1 this ^^ count (mset ss) s') (subs_of ?h s')"
    by blast
  have "run (\<lambda>h super. removeSub this super h) h (s # ss) = Inr h'"
    using h'(1) s by (simp add: removeSub_def removeKind_def)
  moreover have "same_kinds h h'" using h'(2) same_kinds_trans [of h ?h h'] by simp
  moreover have "subs_of h' s' = (remove1 this ^^ count (mset (s # ss)) s') (subs_of h s')" for s'
    using h'(4) dom by (auto simp: funpow_Suc_right simp del: funpow.simps)
  moreover have "supers_of h' = supers_of h" using h'(3) by (auto simp: fun_eq_iff)
  ultimately show ?case by blast
qed auto

lemma removeSupers:
  assumes "\<And>s. count (mset ss) s \<le> count (mset (supers_of h s)) this"
  shows "\<exists>h'. run (\<lambda>h sub. removeSuper this sub h) h ss = Inr h' \<and> same_kinds h h' \<and> subs_of h' = subs_of h \<and>
    (\<forall>s. supers_of h' s = (remove1 this ^^ count (mset ss) s) (supers_of h s))"
  using assms
proof (induction ss arbitrary: h)
  case (Cons s ss)
  have s: "this \<in> set (supers_of h s)"
    by (rule ccontr) (use Cons.prems [of s] in \<open>simp add: count_mset_0_iff [THEN iffD2]\<close>)
  let ?h = "on_kind s (k_supers_update (\<lambda>_. remove1 this (supers_of h s))) h"
  have dom: "h s \<noteq> None" by (rule of_dom(1)) (use s in auto)
  have "count (mset ss) s' \<le> count (mset (supers_of ?h s')) this" for s'
    using Cons.prems [of s'] dom by auto
  from Cons.IH [OF this] obtain h' where h': "run (\<lambda>h sub. removeSuper this sub h) ?h ss = Inr h'" "same_kinds ?h h'"
    "subs_of h' = subs_of ?h" "\<forall>s'. supers_of h' s' = (remove1 this ^^ count (mset ss) s') (supers_of ?h s')"
    by blast
  have "run (\<lambda>h sub. removeSuper this sub h) h (s # ss) = Inr h'"
    using h'(1) s by (simp add: removeSuper_def removeKind_def)
  moreover have "same_kinds h h'" using h'(2) same_kinds_trans [of h ?h h'] by simp
  moreover have "supers_of h' s' = (remove1 this ^^ count (mset (s # ss)) s') (supers_of h s')" for s'
    using h'(4) dom by (auto simp: funpow_Suc_right simp del: funpow.simps)
  moreover have "subs_of h' = subs_of h" using h'(3) by (auto simp: fun_eq_iff)
  ultimately show ?case by blast
qed auto

text \<open>A cleared kind stands alone; the other links stay.\<close>

lemma clearSupers_alone:
  assumes "mirror h" "this \<notin> set (supers_of h this)"
  shows "\<exists>h'. clearSupers this h = Inr h' \<and> same_kinds h h' \<and>
    (\<forall>k. supers_of h' k = (if k = this then [] else filter (\<lambda>s. s \<noteq> this) (supers_of h k))) \<and>
    (\<forall>k. subs_of h' k = (if k = this then [] else filter (\<lambda>s. s \<noteq> this) (subs_of h k)))"
proof -
  have cnt: "count (mset (supers_of h a)) b = count (mset (subs_of h b)) a" for a b
    using assms(1) by (simp add: mirror_def)
  obtain h1 where h1: "run (\<lambda>h super. removeSub this super h) h (supers_of h this) = Inr h1" "same_kinds h h1"
    "supers_of h1 = supers_of h" "\<And>s. subs_of h1 s = filter (\<lambda>y. y \<noteq> this) (subs_of h s)"
    using removeSubs [of "supers_of h this" h this] by (auto simp: cnt remove1_all)
  let ?h1 = "on_kind this (k_supers_update (\<lambda>_. [])) h1"
  have none: "this \<notin> set (subs_of h this)" using mirror_mem [OF assms(1)] assms(2) by simp
  have sub: "subs_of ?h1 this = subs_of h this" using h1(4) none by (auto intro: filter_True)
  have cnt1: "count (mset (subs_of h this)) k = count (mset (supers_of ?h1 k)) this" for k
    using none h1(3) cnt [of k this] of_dom(1) [of h this] by (auto simp: not_in_iff [symmetric])
  obtain h2 where h2: "run (\<lambda>h sub. removeSuper this sub h) ?h1 (subs_of h this) = Inr h2" "same_kinds ?h1 h2"
    "subs_of h2 = subs_of ?h1" "\<And>k. supers_of h2 k = filter (\<lambda>y. y \<noteq> this) (supers_of ?h1 k)"
    using removeSupers [of "subs_of h this" ?h1 this] by (auto simp: cnt1 remove1_all)
  let ?h' = "on_kind this (k_subs_update (\<lambda>_. [])) h2"
  have "clearSupers this h = Inr ?h'"
    using h1(1) h2(1) sub by (simp add: clearSupers_def Let_def)
  moreover have same: "same_kinds h ?h'" using h1(2) h2(2) same_kinds_trans [of h ?h1 h2] by simp
  moreover have "supers_of ?h' k = (if k = this then [] else filter (\<lambda>s. s \<noteq> this) (supers_of h k))" for k
    using h2(4) h1(3) of_dom(1) [of h1 this] by (cases "supers_of h this = []") auto
  moreover have "subs_of ?h' k = (if k = this then [] else filter (\<lambda>s. s \<noteq> this) (subs_of h k))" for k
    using h2(3) h1(4) of_dom(2) [of h2 this] by (cases "filter (\<lambda>s. s \<noteq> this) (subs_of h this) = []") auto
  ultimately show ?thesis by blast
qed

lemma mirror_cleared:
  assumes "mirror h" "\<forall>k. supers_of h' k = (if k = this then [] else filter (\<lambda>s. s \<noteq> this) (supers_of h k))"
    "\<forall>k. subs_of h' k = (if k = this then [] else filter (\<lambda>s. s \<noteq> this) (subs_of h k))"
  shows "mirror h'"
  using assms by (auto simp: mirror_def mset_filter)

section \<open>The declared hierarchy\<close>

text \<open>
  The kinds declare the kinds they extend, which need not be there, and which may form cycles. The links lead along what
  is declared, or to the root, which is the only super of a kind it is a super of, and never form a cycle.
\<close>

definition declared :: "kinds \<Rightarrow> (string \<times> string) set" where
  "declared h = {(k, s). s \<in> set (superIds_of h k)}"

definition links_ok :: "kinds \<Rightarrow> bool" where
  "links_ok h \<longleftrightarrow> mirror h \<and> finite (dom h) \<and> acyclic (links h) \<and> superIds_of h RootKindId = [] \<and> supers_of h RootKindId = [] \<and>
     (\<forall>k. RootKindId \<notin> set (superIds_of h k)) \<and>
     (\<forall>k. set (supers_of h k) \<subseteq> set (superIds_of h k) \<or> supers_of h k = [RootKindId])"

lemma links_D:
  assumes "links_ok h" "(a, b) \<in> links h"
  shows "a \<noteq> RootKindId" "(a, b) \<in> declared h \<or> b = RootKindId"
proof -
  have b: "b \<in> set (supers_of h a)" using assms(2) by (simp add: links_def)
  then show "a \<noteq> RootKindId" using assms(1) by (auto simp: links_ok_def)
  have "set (supers_of h a) \<subseteq> set (superIds_of h a) \<or> supers_of h a = [RootKindId]" using assms(1) by (simp add: links_ok_def)
  then show "(a, b) \<in> declared h \<or> b = RootKindId" using b by (auto simp: declared_def)
qed

lemma links_rtrancl:
  assumes "links_ok h" "(a, b) \<in> (links h)\<^sup>*"
  shows "(a, b) \<in> (declared h)\<^sup>* \<or> b = RootKindId"
  using assms(2)
proof (induction rule: rtrancl_induct)
  case (step y z)
  then show ?case using links_D [OF assms(1) step(2)] by (auto intro: rtrancl_into_rtrancl)
qed simp

lemma finite_links:
  assumes "finite (dom h)"
  shows "finite (links h)"
proof (rule finite_subset)
  show "links h \<subseteq> (\<Union>k \<in> dom h. {k} \<times> set (supers_of h k))"
  proof
    fix e assume e: "e \<in> links h"
    obtain k s where ks: "e = (k, s)" by (cases e)
    then have "s \<in> set (supers_of h k)" using e by (simp add: links_def)
    moreover from this have "h k \<noteq> None" by (intro of_dom(1)) auto
    ultimately show "e \<in> (\<Union>k \<in> dom h. {k} \<times> set (supers_of h k))" using ks by auto
  qed
  show "finite (\<Union>k \<in> dom h. {k} \<times> set (supers_of h k))" using assms by simp
qed

lemma links_graph: "links_ok h \<Longrightarrow> graph_ok h"
  by (simp add: graph_ok_def links_ok_def finite_links)

lemma ancestors_dom:
  assumes "links_ok h" "h k \<noteq> None"
  shows "ancestors h k \<subseteq> dom h"
proof
  fix s
  assume "s \<in> ancestors h k"
  then have "(k, s) \<in> (links h)\<^sup>*" by (simp add: ancestors_def)
  then show "s \<in> dom h"
  proof (cases rule: rtranclE)
    case base
    then show ?thesis using assms(2) by auto
  next
    case (step y)
    then have "y \<in> set (subs_of h s)" using mirror_mem [of h s y] assms(1) by (simp add: links_def links_ok_def)
    then have "h s \<noteq> None" by (intro of_dom(2)) auto
    then show ?thesis by blast
  qed
qed

text \<open>When what is declared has no cycle, no kind that a kind declares is below it.\<close>

lemma not_extends:
  assumes "links_ok h" "this \<noteq> RootKindId" "(this, k) \<in> declared h" "acyclic (declared h)"
  shows "this \<notin> ancestors h k"
proof
  assume "this \<in> ancestors h k"
  then have "(k, this) \<in> (links h)\<^sup>*" by (simp add: ancestors_def)
  then have "(k, this) \<in> (declared h)\<^sup>*" using links_rtrancl [OF assms(1)] assms(2) by blast
  with assms(3) have "(this, this) \<in> (declared h)\<^sup>+" by (rule rtrancl_into_trancl2)
  then show False using assms(4) by (simp add: acyclic_def)
qed

lemma not_above_root: "links_ok h \<Longrightarrow> this \<noteq> RootKindId \<Longrightarrow> this \<notin> ancestors h RootKindId"
  using above_unfold [of h RootKindId] by (simp add: links_ok_def)

lemma not_above: "\<forall>x. this \<notin> set (supers_of h x) \<Longrightarrow> k \<noteq> this \<Longrightarrow> this \<notin> ancestors h k"
  by (auto simp: ancestors_def links_def elim: rtranclE)

text \<open>The kinds above a kind depend on their supers only.\<close>

lemma ancestors_sub:
  assumes "\<And>x. x \<in> ancestors h k \<Longrightarrow> set (supers_of h x) \<subseteq> set (supers_of h' x)"
  shows "ancestors h k \<subseteq> ancestors h' k"
proof
  fix s
  assume "s \<in> ancestors h k"
  then have "(k, s) \<in> (links h)\<^sup>*" by (simp add: ancestors_def)
  then show "s \<in> ancestors h' k"
  proof (induction rule: rtrancl_induct)
    case (step y z)
    then have "(y, z) \<in> links h'" using assms [of y] by (auto simp: ancestors_def links_def)
    then show ?case using step.IH by (auto simp: ancestors_def)
  qed simp
qed

lemma ancestors_cong:
  assumes "\<And>x. x \<in> ancestors h k \<Longrightarrow> supers_of h' x = supers_of h x"
  shows "ancestors h' k = ancestors h k"
proof
  show "ancestors h k \<subseteq> ancestors h' k" by (rule ancestors_sub) (simp add: assms)
  show "ancestors h' k \<subseteq> ancestors h k"
  proof
    fix s
    assume "s \<in> ancestors h' k"
    then have "(k, s) \<in> (links h')\<^sup>*" by (simp add: ancestors_def)
    then show "s \<in> ancestors h k"
    proof (induction rule: rtrancl_induct)
      case (step y z)
      then have "(y, z) \<in> links h" using assms [of y] by (simp add: links_def)
      then show ?case using step.IH by (auto simp: ancestors_def)
    qed simp
  qed
qed

lemma declared_same: "same_kinds h h' \<Longrightarrow> declared h' = declared h"
  by (simp add: declared_def same_kinds_def)

lemma dom_same: "same_kinds h h' \<Longrightarrow> dom h' = dom h"
  by (auto simp: same_kinds_def dom_def)

text \<open>The supers of a kind without the root, which gives way to any other.\<close>

definition no_root :: "string list \<Rightarrow> string list" where
  "no_root ss = (if ss = [RootKindId] then [] else ss)"

lemma no_root_sub: "set (no_root ss) \<subseteq> set ss"
  by (simp add: no_root_def)

text \<open>A super is added unless the kind is above it already, which would close a cycle.\<close>

lemma addSuper_links:
  assumes "links_ok h" "this \<noteq> RootKindId" "h this \<noteq> None" "h k \<noteq> None" "card (dom h) \<le> n"
    and "k \<in> set (superIds_of h this) \<or> k = RootKindId \<and> supers_of h this = []"
  shows "\<exists>h'. addSuper n this k h = Inr h' \<and> links_ok h' \<and> same_kinds h h' \<and>
    supers_of h' = (if this \<in> ancestors h k then supers_of h else (supers_of h)(this := no_root (supers_of h this) @ [k]))"
proof -
  have fin: "finite (dom h)" using assms(1) by (simp add: links_ok_def)
  have "card (ancestors h k) \<le> n"
    using card_mono [OF fin ancestors_dom [OF assms(1,4)]] assms(5) by simp
  then have ext: "kind_extends n h k this = Inr (this \<in> ancestors h k)"
    using extends_above [OF links_graph [OF assms(1)]] by auto
  show ?thesis
  proof (cases "this \<in> ancestors h k")
    case True
    then show ?thesis using ext assms(1) by (simp add: addSuper_def)
  next
    case no_cycle: False
    have cnt: "\<And>a b. count (mset (supers_of h a)) b = count (mset (subs_of h b)) a"
      using assms(1) by (simp add: links_ok_def mirror_def)
    have noR: "\<And>k. RootKindId \<notin> set (superIds_of h k)" using assms(1) by (simp add: links_ok_def)
    have cases_this: "set (supers_of h this) \<subseteq> set (superIds_of h this) \<or> supers_of h this = [RootKindId]"
      using assms(1) by (simp add: links_ok_def)
    let ?B = "no_root (supers_of h this)"
    obtain h1 where h1: "(if supers_of h this \<noteq> [] \<and> hd (supers_of h this) = RootKindId
                  then rbind (removeSub this RootKindId h) (\<lambda>h. Inr (on_kind this (k_supers_update (\<lambda>_. [])) h))
                  else Inr h) = Inr h1" "same_kinds h h1" "supers_of h1 = (supers_of h)(this := ?B)" "mirror h1"
    proof (cases "supers_of h this = [RootKindId]")
      case True
      let ?h = "on_kind this (k_supers_update (\<lambda>_. [])) (on_kind RootKindId (k_subs_update (\<lambda>_. remove1 this (subs_of h RootKindId))) h)"
      have sub: "this \<in> set (subs_of h RootKindId)" using mirror_mem [of h RootKindId this] assms(1) True by (simp add: links_ok_def)
      have R: "h RootKindId \<noteq> None" by (rule of_dom(2)) (use sub in auto)
      have "count (mset (supers_of ?h a)) b = count (mset (subs_of ?h b)) a" for a b
        using cnt [of a b, symmetric] cnt [of this b, symmetric] R assms(3) True by (cases "a = this"; cases "b = RootKindId") simp_all
      then have "mirror ?h" by (simp add: mirror_def)
      then show thesis
        using True sub assms(3) by (intro that [of ?h]) (auto simp: removeSub_def removeKind_def no_root_def fun_eq_iff)
    next
      case False
      then have "RootKindId \<notin> set (supers_of h this)" using cases_this noR by auto
      then have "\<not> (supers_of h this \<noteq> [] \<and> hd (supers_of h this) = RootKindId)" by (metis list.set_sel(1))
      then show thesis using False assms(1) by (intro that [of h]) (auto simp: no_root_def fun_eq_iff links_ok_def)
    qed
    let ?h' = "on_kind k (k_subs_update (\<lambda>subs. subs @ [this])) (on_kind this (k_supers_update (\<lambda>supers. supers @ [k])) h1)"
    have dom1: "h1 this \<noteq> None" "h1 k \<noteq> None" using h1(2) assms(3,4) by (auto simp: same_kinds_def)
    have add: "addSuper n this k h = Inr ?h'"
      using ext no_cycle h1(1) by (simp add: addSuper_def)
    have same: "same_kinds h ?h'" using h1(2) by simp
    have sup: "supers_of ?h' = (supers_of h)(this := ?B @ [k])"
      using h1(3) dom1 by (auto simp: fun_eq_iff)
    have "mirror ?h'" using h1(4) dom1 by (auto simp: mirror_def)
    moreover have "set (?B @ [k]) \<subseteq> set (superIds_of h this) \<or> ?B @ [k] = [RootKindId]"
      using cases_this assms(6) by (auto simp: no_root_def)
    then have "\<forall>j. set (supers_of ?h' j) \<subseteq> set (superIds_of h j) \<or> supers_of ?h' j = [RootKindId]"
      unfolding sup using assms(1) by (auto simp: links_ok_def)
    moreover have "links ?h' \<subseteq> insert (this, k) (links h)"
      unfolding links_def sup using no_root_sub [of "supers_of h this"] by (auto split: if_splits)
    moreover have "acyclic (insert (this, k) (links h))"
      using assms(1) no_cycle by (simp add: acyclic_insert ancestors_def links_ok_def)
    then have "acyclic (links ?h')" if "links ?h' \<subseteq> insert (this, k) (links h)" using that by (rule acyclic_subset)
    ultimately have "links_ok ?h'"
      using assms(1,2) same dom_same [OF same] sup
      by (auto simp: links_ok_def same_kinds_def)
    then show ?thesis using add same sup no_cycle by (intro exI [of _ ?h']) simp
  qed
qed

text \<open>A kind that is not a super of any other gets all the supers that are there; only itself is refused.\<close>

lemma link_up:
  assumes "links_ok h" "this \<noteq> RootKindId" "h this \<noteq> None" "set kindMap \<subseteq> dom h" "card (dom h) \<le> n"
    and "set ids \<subseteq> set (superIds_of h this)" "RootKindId \<notin> set (supers_of h this)" "\<forall>x. this \<notin> set (supers_of h x)"
  shows "\<exists>h'. run (\<lambda>h super. if super \<in> set kindMap then addSuper n this super h else Inr h) h ids = Inr h' \<and> links_ok h' \<and>
    same_kinds h h' \<and> supers_of h' = (supers_of h)(this := supers_of h this @ filter (\<lambda>s. s \<in> set kindMap \<and> s \<noteq> this) ids)"
  using assms
proof (induction ids arbitrary: h)
  case Nil
  then show ?case by (intro exI [of _ h]) simp
next
  case (Cons s ids)
  show ?case
  proof (cases "s \<in> set kindMap")
    case False
    then show ?thesis using Cons.IH [OF Cons.prems(1-5) _ Cons.prems(7,8)] Cons.prems(6) by simp
  next
    case True
    have s: "h s \<noteq> None" "s \<in> set (superIds_of h this)" "s \<noteq> RootKindId"
      using True Cons.prems(1,4,6) by (auto simp: links_ok_def)
    have noR: "no_root (supers_of h this) = supers_of h this" using Cons.prems(7) by (auto simp: no_root_def)
    have up: "this \<in> ancestors h s \<longleftrightarrow> s = this" using not_above [OF Cons.prems(8)] by auto
    obtain h1 where h1: "addSuper n this s h = Inr h1" "links_ok h1" "same_kinds h h1"
      "supers_of h1 = (if s = this then supers_of h else (supers_of h)(this := supers_of h this @ [s]))"
      using addSuper_links [OF Cons.prems(1-3) s(1) Cons.prems(5)] s(2) unfolding noR up by blast
    note same = dom_same [OF h1(3)]
    have "h1 this \<noteq> None" "set ids \<subseteq> set (superIds_of h1 this)" "RootKindId \<notin> set (supers_of h1 this)"
      "\<forall>x. this \<notin> set (supers_of h1 x)"
      using h1(3,4) Cons.prems(3,6-8) s(3) by (auto simp: same_kinds_def)
    with Cons.IH [OF h1(2) Cons.prems(2), unfolded same] Cons.prems(4,5)
    obtain h' where "run (\<lambda>h super. if super \<in> set kindMap then addSuper n this super h else Inr h) h1 ids = Inr h'" "links_ok h'"
      "same_kinds h1 h'"
      "supers_of h' = (supers_of h1)(this := supers_of h1 this @ filter (\<lambda>s. s \<in> set kindMap \<and> s \<noteq> this) ids)"
      by blast
    then show ?thesis using True h1(1,3,4) same_kinds_trans [OF h1(3)] by (intro exI [of _ h']) auto
  qed
qed

text \<open>A kind becomes a super of the kinds that declare it, but not of those above it.\<close>

lemma link_down:
  assumes "links_ok h" "this \<noteq> RootKindId" "h this \<noteq> None" "set ks \<subseteq> dom h" "card (dom h) \<le> n" "distinct ks"
  shows "\<exists>h'. run (\<lambda>h k. if this \<in> set (superIds_of h k) then addSuper n k this h else Inr h) h ks = Inr h' \<and> links_ok h' \<and>
    same_kinds h h' \<and> supers_of h' = (\<lambda>k. if k \<in> set ks \<and> this \<in> set (superIds_of h k) \<and> k \<notin> ancestors h this
      then no_root (supers_of h k) @ [this] else supers_of h k)"
  using assms
proof (induction ks arbitrary: h)
  case Nil
  then show ?case by (intro exI [of _ h]) simp
next
  case (Cons k ks)
  have k: "h k \<noteq> None" "k \<notin> set ks" using Cons.prems(4,6) by auto
  show ?case
  proof (cases "this \<in> set (superIds_of h k)")
    case False
    obtain h' where "run (\<lambda>h k. if this \<in> set (superIds_of h k) then addSuper n k this h else Inr h) h ks = Inr h'" "links_ok h'"
      "same_kinds h h'"
      "supers_of h' = (\<lambda>k. if k \<in> set ks \<and> this \<in> set (superIds_of h k) \<and> k \<notin> ancestors h this
         then no_root (supers_of h k) @ [this] else supers_of h k)"
      using Cons.IH [OF Cons.prems(1-3) _ Cons.prems(5)] Cons.prems(4,6) by auto
    then show ?thesis using False by (intro exI [of _ h']) (auto simp: fun_eq_iff)
  next
    case True
    have "k \<noteq> RootKindId" using True Cons.prems(1) by (auto simp: links_ok_def)
    from addSuper_links [OF Cons.prems(1) this k(1) Cons.prems(3,5)] True
    obtain h1 where h1: "addSuper n k this h = Inr h1" "links_ok h1" "same_kinds h h1"
      "supers_of h1 = (if k \<in> ancestors h this then supers_of h else (supers_of h)(k := no_root (supers_of h k) @ [this]))"
      by blast
    note same = dom_same [OF h1(3)]
    have up: "ancestors h1 this = ancestors h this" by (rule ancestors_cong) (use h1(4) in auto)
    have "h1 this \<noteq> None" "superIds_of h1 = superIds_of h" using h1(3) Cons.prems(3) by (auto simp: same_kinds_def)
    then obtain h' where h': "run (\<lambda>h k. if this \<in> set (superIds_of h k) then addSuper n k this h else Inr h) h1 ks = Inr h'"
      "links_ok h'" "same_kinds h1 h'"
      "supers_of h' = (\<lambda>k. if k \<in> set ks \<and> this \<in> set (superIds_of h1 k) \<and> k \<notin> ancestors h1 this
         then no_root (supers_of h1 k) @ [this] else supers_of h1 k)"
      using Cons.IH [OF h1(2) Cons.prems(2), unfolded same] Cons.prems(4,5,6) by auto
    have "supers_of h' = (\<lambda>j. if j \<in> set (k # ks) \<and> this \<in> set (superIds_of h j) \<and> j \<notin> ancestors h this
        then no_root (supers_of h j) @ [this] else supers_of h j)"
      using h'(4) h1(4) True k(2) \<open>superIds_of h1 = superIds_of h\<close> unfolding up by (auto simp: fun_eq_iff)
    then show ?thesis
      using True h1(1) h' same_kinds_trans [OF h1(3) h'(3)] by (intro exI [of _ h']) simp
  qed
qed

text \<open>
  The supers that a kind should have: the others it declares that are there, or the root. In a hierarchy that is settled
  every kind has them, unless it has lost its last super, because that one was dropped, and has none at all.
\<close>

definition resolved :: "string list \<Rightarrow> kinds \<Rightarrow> string \<Rightarrow> string set" where
  "resolved kindMap h k =
     (let declared = set (superIds_of h k) \<inter> set kindMap - {k} in if declared = {} then {RootKindId} else declared)"

definition orphan :: "string list \<Rightarrow> kinds \<Rightarrow> string \<Rightarrow> bool" where
  "orphan kindMap h k \<longleftrightarrow> supers_of h k = [] \<and> set (superIds_of h k) \<inter> set kindMap - {k} = {}"

definition hierarchy_ok :: "string list \<Rightarrow> kinds \<Rightarrow> bool" where
  "hierarchy_ok kindMap h \<longleftrightarrow> distinct kindMap \<and> dom h = set kindMap \<and> RootKindId \<in> set kindMap \<and> links_ok h"

definition settled :: "string list \<Rightarrow> kinds \<Rightarrow> bool" where
  "settled kindMap h \<longleftrightarrow> acyclic (declared h) \<and>
     (\<forall>k \<in> set kindMap. k \<noteq> RootKindId \<longrightarrow> set (supers_of h k) = resolved kindMap h k \<or> orphan kindMap h k)"

text \<open>
  Linking a kind that is new, or already there, into a hierarchy. In the heap the kind itself is there; in the map of the
  engine it is not, when it is new. A kind that declares it gets it for a super, unless that closed a cycle.
\<close>

definition linked_in :: "string list \<Rightarrow> kinds \<Rightarrow> string \<Rightarrow> bool" where
  "linked_in M h this \<longleftrightarrow> set (supers_of h this) = resolved M h this \<and>
     (\<forall>k \<in> set M. this \<in> set (superIds_of h k) \<longrightarrow> this \<in> set (supers_of h k) \<or> k \<in> ancestors h this)"

lemma linkSupers_hierarchy:
  assumes "distinct kindMap" "RootKindId \<in> set kindMap" "dom h = insert this (set kindMap)" "this \<noteq> RootKindId"
    and "links_ok h" "this \<notin> set kindMap \<longrightarrow> supers_of h this = [] \<and> subs_of h this = []"
    and "RootKindId \<notin> set superIds" "length kindMap < n"
  shows "\<exists>h'. linkSupers n kindMap this superIds h = Inr h' \<and> superIds_of h' = (superIds_of h)(this := superIds) \<and>
    (\<forall>M. distinct M \<longrightarrow> set M = insert this (set kindMap) \<longrightarrow> hierarchy_ok M h' \<and> linked_in M h' this \<and>
       (settled kindMap h \<and> acyclic (declared (on_kind this (k_superIds_update (\<lambda>_. superIds)) h)) \<longrightarrow> settled M h'))"
proof -
  let ?h0 = "on_kind this (k_superIds_update (\<lambda>_. superIds)) h"
  have dom_this: "h this \<noteq> None" using assms(3) by auto
  have ids0: "superIds_of ?h0 = (superIds_of h)(this := superIds)" using dom_this by (auto simp: fun_eq_iff)
  have view0: "supers_of ?h0 = supers_of h" "subs_of ?h0 = subs_of h" "dom ?h0 = dom h"
    by (auto simp: fun_eq_iff dom_def)
  have mirror0: "mirror ?h0" using assms(5) unfolding mirror_def view0 by (simp add: links_ok_def mirror_def)
  have self: "this \<notin> set (supers_of h this)"
  proof
    assume "this \<in> set (supers_of h this)"
    then have "(this, this) \<in> (links h)\<^sup>+" by (intro r_into_trancl) (simp add: links_def)
    then show False using links_graph [OF assms(5)] by (auto simp: graph_ok_def acyclic_def)
  qed
  then have self0: "this \<notin> set (supers_of ?h0 this)" unfolding view0(1) .
  from clearSupers_alone [OF mirror0 self0] obtain h1 where h1: "clearSupers this ?h0 = Inr h1" "same_kinds ?h0 h1"
    "\<forall>k. supers_of h1 k = (if k = this then [] else filter (\<lambda>s. s \<noteq> this) (supers_of h k))"
    "\<forall>k. subs_of h1 k = (if k = this then [] else filter (\<lambda>s. s \<noteq> this) (subs_of h k))"
    unfolding view0 by blast
  have dom1: "dom h1 = insert this (set kindMap)" using dom_same [OF h1(2)] view0(3) assms(3) by simp
  have ids1: "superIds_of h1 = (superIds_of h)(this := superIds)" using h1(2) ids0 by (auto simp: same_kinds_def fun_eq_iff)
  have noR: "\<And>k. RootKindId \<notin> set (superIds_of h k)" and decl: "\<And>k. set (supers_of h k) \<subseteq> set (superIds_of h k) \<or> supers_of h k = [RootKindId]"
    and R: "superIds_of h RootKindId = []" "supers_of h RootKindId = []"
    using assms(5) by (simp_all add: links_ok_def)
  have ok1: "links_ok h1"
    unfolding links_ok_def
  proof (intro conjI allI)
    show "mirror h1" by (rule mirror_cleared [OF mirror0, where this = this]) (use h1(3,4) view0 in simp_all)
    show "finite (dom h1)" using dom1 by simp
    have "links h1 \<subseteq> links h" using h1(3) by (auto simp: links_def split: if_splits)
    then show "acyclic (links h1)" using assms(5) acyclic_subset by (auto simp: links_ok_def)
    show "superIds_of h1 RootKindId = []" "supers_of h1 RootKindId = []" using ids1 h1(3) R assms(4) by auto
    fix k
    show "RootKindId \<notin> set (superIds_of h1 k)" using ids1 noR assms(7) by simp
    show "set (supers_of h1 k) \<subseteq> set (superIds_of h1 k) \<or> supers_of h1 k = [RootKindId]"
      using decl [of k] h1(3) ids1 assms(4) by auto
  qed
  have "card (dom h1) \<le> Suc (card (set kindMap))" unfolding dom1 by (simp add: card_insert_if)
  then have n: "card (dom h1) \<le> n" using card_length [of kindMap] assms(8) by linarith
  have sub1: "set kindMap \<subseteq> dom h1" "h1 this \<noteq> None" using dom1 by auto
  have alone1: "\<forall>x. this \<notin> set (supers_of h1 x)" using h1(3) by simp
  let ?own = "filter (\<lambda>s. s \<in> set kindMap \<and> s \<noteq> this) superIds"
  obtain h2 where h2: "run (\<lambda>h super. if super \<in> set kindMap then addSuper n this super h else Inr h) h1 superIds = Inr h2" "links_ok h2"
    "same_kinds h1 h2" "supers_of h2 = (supers_of h1)(this := ?own)"
    using link_up [OF ok1 assms(4) sub1(2,1) n _ _ alone1, of superIds] ids1 h1(3) by auto
  note dom2 = dom_same [OF h2(3)]
  have this_in: "h2 this \<noteq> None" using h2(3) sub1(2) by (simp add: same_kinds_def)
  obtain h3 where h3: "run (\<lambda>h k. if this \<in> set (superIds_of h k) then addSuper n k this h else Inr h) h2 kindMap = Inr h3" "links_ok h3"
    "same_kinds h2 h3"
    "supers_of h3 = (\<lambda>k. if k \<in> set kindMap \<and> this \<in> set (superIds_of h2 k) \<and> k \<notin> ancestors h2 this
       then no_root (supers_of h2 k) @ [this] else supers_of h2 k)"
    using link_down [OF h2(2) assms(4) _ _ _ assms(1), of n] this_in by (simp only: dom2) (use sub1 n in blast)
  have ids3: "superIds_of h2 = (superIds_of h)(this := superIds)" "superIds_of h3 = (superIds_of h)(this := superIds)"
    using h2(3) h3(3) ids1 by (auto simp: same_kinds_def fun_eq_iff)
  note dom3 = dom_same [OF h3(3), unfolded dom2 dom1]
  obtain h4 where h4: "(if supers_of h3 this = [] \<and> RootKindId \<in> set kindMap then addSuper n this RootKindId h3 else Inr h3) = Inr h4"
    "links_ok h4" "same_kinds h3 h4"
    "supers_of h4 = (if supers_of h3 this = [] then (supers_of h3)(this := [RootKindId]) else supers_of h3)"
  proof (cases "supers_of h3 this = []")
    case True
    have "h3 this \<noteq> None" "h3 RootKindId \<noteq> None" "card (dom h3) \<le> n" using dom3 dom1 assms(2) n by auto
    from addSuper_links [OF h3(2) assms(4) this] True not_above_root [OF h3(2) assms(4)]
    obtain h' where "addSuper n this RootKindId h3 = Inr h'" "links_ok h'" "same_kinds h3 h'"
      "supers_of h' = (supers_of h3)(this := [RootKindId])"
      by (auto simp: no_root_def)
    then show thesis using True assms(2) by (intro that [of h']) simp_all
  next
    case False
    then show thesis using h3 by (intro that [of h3]) simp_all
  qed
  note dom4 = dom_same [OF h4(3), unfolded dom3]
  have ids4: "superIds_of h4 = (superIds_of h)(this := superIds)" using h4(3) ids3 by (auto simp: same_kinds_def fun_eq_iff)
  have sup_this: "supers_of h3 this = ?own" using h3(4) h2(4) by auto
  have res_this: "set (supers_of h4 this) = resolved M h4 this" if M: "set M = insert this (set kindMap)" for M
  proof -
    have "set superIds \<inter> set M - {this} = set ?own" using M by auto
    then show ?thesis using h4(4) sup_this ids4 unfolding resolved_def Let_def by (auto simp: filter_empty_conv)
  qed
  have up: "ancestors h2 this \<subseteq> ancestors h4 this"
    by (rule ancestors_sub) (use h3(4) h4(4) in auto)
  have down: "this \<in> set (supers_of h4 k) \<or> k \<in> ancestors h4 this" if "k \<in> insert this (set kindMap)" "this \<in> set (superIds_of h4 k)" for k
    using that up h3(4) h4(4) ids3(1) ids4 by (cases "k = this") auto
  have res: "set (supers_of h4 k) = resolved M h4 k \<or> orphan M h4 k"
    if M: "set M = insert this (set kindMap)" and kM: "k \<in> set kindMap" "k \<noteq> RootKindId" "k \<noteq> this"
      and settled: "settled kindMap h" "acyclic (declared ?h0)" for M k
  proof -
    have old: "set (supers_of h k) = resolved kindMap h k \<or> orphan kindMap h k" using settled(1) kM by (simp add: settled_def)
    have "declared h2 = declared ?h0" using ids3(1) ids0 by (simp add: declared_def)
    then have "k \<notin> ancestors h2 this" if "this \<in> set (superIds_of h k)"
      using not_extends [OF h2(2) kM(2), of this] settled(2) that kM(3) ids3(1) by (simp add: declared_def)
    then have sup: "supers_of h4 k = (if this \<in> set (superIds_of h k) then no_root (filter (\<lambda>s. s \<noteq> this) (supers_of h k)) @ [this]
        else filter (\<lambda>s. s \<noteq> this) (supers_of h k))"
      using h4(4) h3(4) h2(4) h1(3) kM ids3(1) by auto
    have ids: "superIds_of h4 k = superIds_of h k" using ids4 kM(3) by simp
    show ?thesis
    proof (cases "this \<in> set (superIds_of h k)")
      case True
      have "set (no_root (filter (\<lambda>s. s \<noteq> this) (supers_of h k))) = (set (superIds_of h k) \<inter> set kindMap - {k}) - {this}"
      proof (cases "supers_of h k = [RootKindId]")
        case True
        then have "set (superIds_of h k) \<inter> set kindMap - {k} = {}"
          using old noR [of k] by (auto simp: resolved_def orphan_def Let_def split: if_splits)
        then show ?thesis using True assms(4) by (auto simp: no_root_def)
      next
        case False
        then have "set (supers_of h k) \<subseteq> set (superIds_of h k)" using decl [of k] by simp
        then have noR': "RootKindId \<notin> set (supers_of h k)" using noR [of k] by blast
        then have "set (supers_of h k) = set (superIds_of h k) \<inter> set kindMap - {k}"
          using old by (auto simp: resolved_def orphan_def Let_def split: if_splits)
        moreover have "filter (\<lambda>s. s \<noteq> this) (supers_of h k) \<noteq> [RootKindId]" using noR' by (auto simp: filter_eq_Cons_iff)
        ultimately show ?thesis by (auto simp: no_root_def)
      qed
      then show ?thesis using sup True ids M kM(3) unfolding resolved_def Let_def by auto
    next
      case no: False
      have "this \<notin> set (supers_of h k)" using decl [of k] no assms(4) by auto
      moreover have "set (superIds_of h k) \<inter> set M = set (superIds_of h k) \<inter> set kindMap" using no M by auto
      ultimately show ?thesis using sup no ids old unfolding resolved_def orphan_def Let_def by (auto split: if_splits)
    qed
  qed
  have "hierarchy_ok M h4 \<and> linked_in M h4 this \<and> (settled kindMap h \<and> acyclic (declared ?h0) \<longrightarrow> settled M h4)"
    if "distinct M" "set M = insert this (set kindMap)" for M
  proof (intro conjI impI)
    show "hierarchy_ok M h4" using that dom4 dom1 assms(2) h4(2) by (simp add: hierarchy_ok_def)
    show "linked_in M h4 this" using res_this [OF that(2)] down that(2) by (simp add: linked_in_def)
    assume s: "settled kindMap h \<and> acyclic (declared ?h0)"
    have "declared h4 = declared ?h0" using ids4 ids0 by (simp add: declared_def)
    then show "settled M h4"
      unfolding settled_def
    proof (intro conjI ballI impI)
      fix k assume k: "k \<in> set M" "k \<noteq> RootKindId"
      then show "set (supers_of h4 k) = resolved M h4 k \<or> orphan M h4 k"
        using res_this [OF that(2)] res [OF that(2), of k] that(2) s by (cases "k = this") simp_all
    qed (use s in simp)
  qed
  moreover have "linkSupers n kindMap this superIds h = Inr h4"
    using h1(1) h2(1) h3(1) h4(1) by (simp add: linkSupers_def)
  ultimately show ?thesis using ids4 by blast
qed

text \<open>A kind that is cleared and goes away leaves a hierarchy; what has lost its last super with it is an orphan.\<close>

lemma supers_of_None: "h k = None \<Longrightarrow> supers_of h k = []" "h k = None \<Longrightarrow> subs_of h k = []" "h k = None \<Longrightarrow> superIds_of h k = []"
  by (simp_all add: supers_of_def subs_of_def superIds_of_def)

lemma of_del [simp]:
  "supers_of (h(k := None)) x = (if x = k then [] else supers_of h x)"
  "subs_of (h(k := None)) x = (if x = k then [] else subs_of h x)"
  "superIds_of (h(k := None)) x = (if x = k then [] else superIds_of h x)"
  by (simp_all add: supers_of_def subs_of_def superIds_of_def)

lemma not_own_super: "links_ok h \<Longrightarrow> this \<notin> set (supers_of h this)"
proof
  assume "links_ok h" "this \<in> set (supers_of h this)"
  then have "(this, this) \<in> (links h)\<^sup>+" by (intro r_into_trancl) (simp add: links_def)
  then show False using links_graph [OF \<open>links_ok h\<close>] by (auto simp: graph_ok_def acyclic_def)
qed

lemma links_ok_cleared:
  assumes "links_ok h" "this \<noteq> RootKindId" "dom h' \<subseteq> dom h" "superIds_of h' = (\<lambda>k. if k \<in> K then [] else superIds_of h k)"
    and "supers_of h' = (\<lambda>k. if k = this then [] else filter (\<lambda>s. s \<noteq> this) (supers_of h k))"
    and "subs_of h' = (\<lambda>k. if k = this then [] else filter (\<lambda>s. s \<noteq> this) (subs_of h k))" "K \<subseteq> {this}"
  shows "links_ok h'"
  unfolding links_ok_def
proof (intro conjI allI)
  have ok: "mirror h" "finite (dom h)" "acyclic (links h)" "superIds_of h RootKindId = []" "supers_of h RootKindId = []"
    "\<And>k. RootKindId \<notin> set (superIds_of h k)" "\<And>k. set (supers_of h k) \<subseteq> set (superIds_of h k) \<or> supers_of h k = [RootKindId]"
    using assms(1) by (simp_all add: links_ok_def)
  show "mirror h'" by (rule mirror_cleared [OF ok(1), where this = this]) (simp_all add: assms(5,6))
  show "finite (dom h')" using ok(2) assms(3) by (rule rev_finite_subset)
  have "links h' \<subseteq> links h" by (auto simp: links_def assms(5) split: if_splits)
  then show "acyclic (links h')" using ok(3) acyclic_subset by blast
  show "superIds_of h' RootKindId = []" "supers_of h' RootKindId = []" using ok(4,5) by (simp_all add: assms(4,5))
  fix k
  show "RootKindId \<notin> set (superIds_of h' k)" using ok(6) by (simp add: assms(4))
  show "set (supers_of h' k) \<subseteq> set (superIds_of h' k) \<or> supers_of h' k = [RootKindId]"
    using ok(7) [of k] assms(2,7) by (auto simp: assms(4,5))
qed

lemma clear_hierarchy:
  assumes "links_ok h" "this \<noteq> RootKindId"
  shows "\<exists>h'. clearSupers this h = Inr h' \<and> links_ok h' \<and> same_kinds h h' \<and> supers_of h' this = [] \<and> subs_of h' this = [] \<and>
    (\<forall>k. k \<noteq> this \<longrightarrow> supers_of h' k = filter (\<lambda>s. s \<noteq> this) (supers_of h k))"
proof -
  have "mirror h" using assms(1) by (simp add: links_ok_def)
  from clearSupers_alone [OF this not_own_super [OF assms(1)]]
  obtain h' where h': "clearSupers this h = Inr h'" "same_kinds h h'"
    "\<forall>k. supers_of h' k = (if k = this then [] else filter (\<lambda>s. s \<noteq> this) (supers_of h k))"
    "\<forall>k. subs_of h' k = (if k = this then [] else filter (\<lambda>s. s \<noteq> this) (subs_of h k))"
    by blast
  have "links_ok h'"
    by (rule links_ok_cleared [OF assms, where K = "{}"]) (use h'(2-4) dom_same [OF h'(2)] in \<open>simp_all add: same_kinds_def fun_eq_iff\<close>)
  then show ?thesis using h' by (intro exI [of _ h']) simp
qed

lemma settled_without:
  assumes "settled kindMap h" "this \<noteq> RootKindId" "set M = set kindMap - {this}" "superIds_of h' this = superIds_of h this \<or> superIds_of h' this = []"
    and "\<forall>k. k \<noteq> this \<longrightarrow> supers_of h' k = filter (\<lambda>s. s \<noteq> this) (supers_of h k) \<and> superIds_of h' k = superIds_of h k"
  shows "settled M h'"
  unfolding settled_def
proof (intro conjI ballI impI)
  have "declared h' \<subseteq> declared h"
  proof
    fix e assume e: "e \<in> declared h'"
    obtain k s where ks: "e = (k, s)" by (cases e)
    then have "superIds_of h' k \<noteq> []" using e by (auto simp: declared_def)
    then have "superIds_of h' k = superIds_of h k" using assms(4,5) by (cases "k = this") auto
    then show "e \<in> declared h" using e ks by (simp add: declared_def)
  qed
  then show "acyclic (declared h')" using assms(1) acyclic_subset by (auto simp: settled_def)
  fix k
  assume k: "k \<in> set M" "k \<noteq> RootKindId"
  have sup: "set (supers_of h' k) = set (supers_of h k) - {this}" and ids: "superIds_of h' k = superIds_of h k"
    using k(1) assms(3,5) by auto
  have old: "set (supers_of h k) = resolved kindMap h k \<or> orphan kindMap h k"
    using assms(1,3) k by (auto simp: settled_def)
  have cap: "set (superIds_of h k) \<inter> set M - {k} = (set (superIds_of h k) \<inter> set kindMap - {k}) - {this}" using assms(3) by auto
  show "set (supers_of h' k) = resolved M h' k \<or> orphan M h' k"
  proof (cases "set (superIds_of h k) \<inter> set kindMap - {k} = {}")
    case True
    then have "set (superIds_of h k) \<inter> set M - {k} = {}" "set (supers_of h' k) \<subseteq> {RootKindId}" "set (supers_of h k) \<subseteq> {RootKindId}"
      using old sup cap by (auto simp: resolved_def orphan_def)
    then show ?thesis using old sup assms(2) True by (auto simp: resolved_def orphan_def ids)
  next
    case False
    then have "set (supers_of h k) = set (superIds_of h k) \<inter> set kindMap - {k}" using old by (auto simp: resolved_def orphan_def Let_def)
    then have "set (supers_of h' k) = set (superIds_of h k) \<inter> set M - {k}" using sup cap by simp
    then show ?thesis by (cases "set (superIds_of h k) \<inter> set M - {k} = {}") (simp_all add: resolved_def orphan_def ids)
  qed
qed

text \<open>
  A kind whose first super is the root loses all its supers for a new one, and is still below the others; a kind whose
  only super is cleared is left without any.
\<close>

lemma addSuper_loses_supers:
  assumes "h ''K:1'' = Some k" "k_supers k = [RootKindId, ''Y:1'']" "h ''Y:1'' = Some y" "k_subs y = [''K:1'']"
    and "h RootKindId = Some r" "k_subs r = [''K:1'']" "h ''X:1'' = Some x" "k_supers x = []"
  shows "\<exists>h'. addSuper (Suc (Suc n)) ''K:1'' ''X:1'' h = Inr h' \<and> supers_of h' ''K:1'' = [''X:1''] \<and> subs_of h' ''Y:1'' = [''K:1'']"
  using assms by (simp add: addSuper_def removeSub_def removeKind_def supers_of_def subs_of_def on_kind_def RootKindId_def)

lemma clearSupers_leaves_orphan:
  assumes "h ''A:1'' = Some a" "k_supers a = []" "k_subs a = [''B:1'']" "h ''B:1'' = Some b" "k_supers b = [''A:1'']"
  shows "\<exists>h'. clearSupers ''A:1'' h = Inr h' \<and> supers_of h' ''B:1'' = []"
  using assms by (simp add: clearSupers_def removeSuper_def removeKind_def supers_of_def subs_of_def on_kind_def Let_def)

end
