(* ===== verification/DbEngine.thy ===== *)
theory DbEngine
  imports DbHierarchy Sorting
begin

text \<open>
  The configuration of kinds (\<^verbatim>\<open>src/db/MojDbKind.cpp\<close>) and the engine that keeps them
  (\<^verbatim>\<open>src/db/MojDbKindEngine.cpp\<close>), and that whatever becomes of a configuration, the hierarchy is kept.
\<close>

section \<open>The state\<close>

text \<open>
  The kinds that are alive, those in the map of the engine, the id of each token, what its requests work on, and the
  contents of the indexes.
\<close>

record 'it kind_engine =
  en_kinds :: kinds
  en_map :: "string list"
  en_tokens :: "i64 \<Rightarrow> string option"
  en_locale :: string
  en_perms :: perm_engine
  en_env :: "'it kind_env"
  en_txns :: index_txns

text \<open>
  What is not part of the engine: the collators, the regular expressions, the C library, the engine of the store; the
  watchers in memory; and the objects of a kind that a cursor over it delivers, the deleted ones included.
\<close>

record 'it engine_lib =
  ee_icu :: icu
  ee_schema :: schema_env
  ee_rand :: "u32 \<Rightarrow> nat"
  ee_iters :: "'it engine_iters"
  ee_status :: "string \<Rightarrow> MojErr option"
  ee_mem :: "nat \<Rightarrow> watcher"
  ee_find :: "string \<Rightarrow> 'it kind_engine \<Rightarrow> obj list res"

type_synonym ('it, 'a) estep = "('it kind_engine, 'a) step"

text \<open>More than the kinds that are alive: those of the map, and one that is created.\<close>

definition en_fuel :: "'it kind_engine \<Rightarrow> nat" where
  "en_fuel e = length (en_map e) + 1"

definition sget :: "('s \<Rightarrow> 'a res) \<Rightarrow> ('s, 'a) step" where
  "sget f = (\<lambda>s. (f s, s))"

definition smod :: "('s \<Rightarrow> 's) \<Rightarrow> ('s, unit) step" where
  "smod f = (\<lambda>s. (Inr (), f s))"

fun srun :: "('a \<Rightarrow> 'b \<Rightarrow> ('s, 'a) step) \<Rightarrow> 'a \<Rightarrow> 'b list \<Rightarrow> ('s, 'a) step" where
  "srun f acc [] = sret (Inr acc)"
| "srun f acc (x # xs) = sbind (f acc x) (\<lambda>acc. srun f acc xs)"

definition en_on :: "string \<Rightarrow> (kind \<Rightarrow> kind) \<Rightarrow> ('it, unit) estep" where
  "en_on this f = smod (\<lambda>e. e\<lparr>en_kinds := on_kind this f (en_kinds e)\<rparr>)"

definition with_kind :: "string \<Rightarrow> (kind \<Rightarrow> ('it, 'a) estep) \<Rightarrow> ('it, 'a) estep" where
  "with_kind this f = (\<lambda>e. case en_kinds e this of None \<Rightarrow> (Inl MojAssertFailed, e) | Some d \<Rightarrow> f d e)"

definition with_state :: "string \<Rightarrow> (kind_state \<times> 'it kind_env, 'a) step \<Rightarrow> ('it, 'a) estep" where
  "with_state this m = with_kind this (\<lambda>d e.
     case k_state d of
       None \<Rightarrow> (Inl MojAssertFailed, e)
     | Some s \<Rightarrow>
         let (r, s, env) = m (s, en_env e) in
         (r, e\<lparr>en_env := env, en_kinds := on_kind this (k_state_update (\<lambda>_. Some s)) (en_kinds e)\<rparr>))"

section \<open>The indexes of a kind\<close>

definition KIdIndexName :: string where "KIdIndexName = ''_id''"

definition IdIndexJson :: obj where
  "IdIndexJson = OObject [(''incDel'', OBool True), (''name'', OString ''_id''), (''props'', OArray [OObject [(''name'', OString ''_id'')]])]"

definition MojToLower :: "char \<Rightarrow> char" where
  "MojToLower c = (if (65 :: nat) \<le> of_char c \<and> of_char c \<le> (90 :: nat) then char_of (of_char c + (32 :: nat)) else c)"

definition windex_new :: "(nat \<Rightarrow> watcher) \<Rightarrow> windex" where
  "windex_new mem = \<lparr>x_mem = mem, x_watcherVec = [], x_watcherMap = [], x_signals = []\<rparr>"

definition kind_openIndex :: "'it engine_lib \<Rightarrow> string \<Rightarrow> db_index \<Rightarrow> ('it, db_index) estep" where
  "kind_openIndex L this ix =
     sbind (with_state this (ks_indexId (ee_iters L) (i_name ix))) (\<lambda>(ident, created).
       sret (index_open (ee_icu L) ident created ix))"

definition kind_dropIndex :: "'it engine_lib \<Rightarrow> string \<Rightarrow> db_index \<Rightarrow> ('it, unit) estep" where
  "kind_dropIndex L this ix =
     sbind (with_state this (ks_delIndex (ee_iters L) (i_name ix))) (\<lambda>_.
       if \<not> i_open ix then sret (Inl MojAssertFailed)
       else smod (\<lambda>e. e\<lparr>en_txns := (en_txns e)(i_id ix := (en_txns e (i_id ix))\<lparr>t_store := []\<rparr>)\<rparr>))"

text \<open>The set of the index objects, the primary index among them, the names in lower case.\<close>

definition index_objects :: "obj \<Rightarrow> obj list res" where
  "index_objects obj =
     rbind (run (\<lambda>(newIndexObjects, indexNames) i.
              rbind (getRequired_string ''name'' i) (\<lambda>indexName.
              let indexName = map MojToLower indexName in
              if \<not> name_in indexName indexNames
              then Inr (set_put obj_compare (obj_put ''name'' (OString indexName) i) newIndexObjects, set_put MojStrCmp indexName indexNames)
              else Inl MojErrDbInvalidIndexName))
            ([IdIndexJson], [KIdIndexName])
            (case obj_get ''indexes'' obj of Some indexArray \<Rightarrow> ensureArray indexArray | None \<Rightarrow> [])) (\<lambda>(newIndexObjects, _).
       Inr newIndexObjects)"

definition obj_in :: "obj \<Rightarrow> obj list \<Rightarrow> bool" where
  "obj_in obj objs \<longleftrightarrow> (\<exists>x \<in> set objs. obj_compare x obj = 0)"

text \<open>Indexes that share a prefix of their properties are sorted so that the shortest comes first.\<close>

definition IndexComp :: "db_index \<times> windex \<Rightarrow> db_index \<times> windex \<Rightarrow> int" where
  "IndexComp i1 i2 = vec_compare MojStrCmp (i_sortKey (fst i1)) (i_sortKey (fst i2))"

definition sort_indexes :: "(u32 \<Rightarrow> nat) \<Rightarrow> (db_index \<times> windex) list \<Rightarrow> (db_index \<times> windex) list" where
  "sort_indexes rand ixs = MojQuickSort rand IndexComp ixs"

lemma IndexComp_comparator: "comparator IndexComp (\<lambda>_. True)"
proof
  fix x y z :: "db_index \<times> windex"
  show "sgn (IndexComp y x) = - sgn (IndexComp x y)"
    unfolding IndexComp_def by (rule str_comp.vec_antisym) (simp_all add: list_all_iff)
  show "IndexComp x z \<le> 0" if "IndexComp x y \<le> 0" "IndexComp y z \<le> 0"
    using str_comp.vec_trans [of "i_sortKey (fst x)" "i_sortKey (fst y)" "i_sortKey (fst z)"] that
    by (simp add: IndexComp_def list_all_iff)
qed

interpretation index_comp: comparator IndexComp "\<lambda>_. True"
  by (rule IndexComp_comparator)

lemma sort_indexes_sorted:
  "mset (sort_indexes rand ixs) = mset ixs" "sorted_wrt (\<lambda>i j. IndexComp i j \<le> 0) (sort_indexes rand ixs)"
  using index_comp.quick_sort [of ixs rand] by (simp_all add: sort_indexes_def list_all_iff)

definition configureIndexes :: "'it engine_lib \<Rightarrow> string \<Rightarrow> obj \<Rightarrow> string \<Rightarrow> ('it, unit) estep" where
  "configureIndexes L this obj locale' = with_kind this (\<lambda>d.
     sbind (sret (index_objects obj)) (\<lambda>newIndexObjects.
     let toDrop = set_diff obj_compare (k_indexObjects d) newIndexObjects [];
         toAdd = set_diff obj_compare newIndexObjects (k_indexObjects d) [] in
     sbind (srun (\<lambda>newIndexes (ix, x).
              if obj_in (i_obj ix) toDrop then sbind (kind_dropIndex L this ix) (\<lambda>_. sret (Inr newIndexes))
              else sret (Inr (newIndexes @ [(ix, x)]))) [] (k_indexes d)) (\<lambda>newIndexes.
     sbind (srun (\<lambda>newIndexes i.
              sbind (sret (index_fromObject (ee_icu L) i locale' index_new)) (\<lambda>ix.
              sbind (kind_openIndex L this ix) (\<lambda>ix. sret (Inr (newIndexes @ [(ix, windex_new (ee_mem L))])))))
            newIndexes toAdd) (\<lambda>newIndexes.
       en_on this (\<lambda>d. d\<lparr>k_indexObjects := newIndexObjects, k_indexes := sort_indexes (ee_rand L) newIndexes\<rparr>)))))"

section \<open>Configuring a kind\<close>

definition configureRevSets :: "'it engine_lib \<Rightarrow> string \<Rightarrow> obj \<Rightarrow> ('it, unit) estep" where
  "configureRevSets L this obj =
     sbind (en_on this (k_revSets_update (\<lambda>_. []))) (\<lambda>_.
     sbind (srun (\<lambda>setNames i.
              sbind (sret (rev_fromObject (ee_icu L) i)) (\<lambda>rs.
                if name_in (rs_name rs) setNames then sret (Inl MojErrDbInvalidRevisionSet)
                else sbind (en_on this (k_revSets_update (\<lambda>sets. sets @ [rs]))) (\<lambda>_.
                  sret (Inr (set_put MojStrCmp (rs_name rs) setNames)))))
            [] (case obj_get ''revSets'' obj of Some array \<Rightarrow> ensureArray array | None \<Rightarrow> [])) (\<lambda>_.
       sret (Inr ())))"

text \<open>
  The objects of a kind go into the indexes of the supers it gets and out of those of the supers it loses; the kinds
  that have been visited are shared by both.
\<close>

definition moveObject ::
  "nat \<Rightarrow> kinds \<Rightarrow> bool \<Rightarrow> string list \<Rightarrow> string list \<Rightarrow> index_txns \<Rightarrow> obj \<Rightarrow> index_txns res" where
  "moveObject n h fixmode addedSupers removedSupers t obj =
     rbind (run (\<lambda>kt i. updateIndexes n h (Some obj) None fixmode i kt) ([], t) addedSupers) (\<lambda>kt.
     rbind (run (\<lambda>kt i. updateIndexes n h None (Some obj) fixmode i kt) kt removedSupers) (\<lambda>(kindVec, t).
       Inr t))"

definition moveObjects :: "'it engine_lib \<Rightarrow> string \<Rightarrow> string list \<Rightarrow> db_req \<Rightarrow> ('it, unit) estep" where
  "moveObjects L this superIds req = (\<lambda>e.
     let addedSupers = diffSupers (en_map e) superIds (superIds_of (en_kinds e) this);
         removedSupers = diffSupers (en_map e) (superIds_of (en_kinds e) this) superIds in
     if addedSupers = [] \<and> removedSupers = [] then (Inr (), e)
     else
       case rbind (ee_find L this e)
              (run (moveObject (en_fuel e) (en_kinds e) (rq_fixmode req) addedSupers removedSupers) (en_txns e)) of
         Inl err \<Rightarrow> (Inl err, e)
       | Inr t \<Rightarrow> (Inr (), e\<lparr>en_txns := t\<rparr>))"

definition updateSupers :: "'it engine_lib \<Rightarrow> string \<Rightarrow> string list \<Rightarrow> bool \<Rightarrow> db_req \<Rightarrow> ('it, unit) estep" where
  "updateSupers L this superIds updating req =
     sbind (if updating then moveObjects L this superIds req else sret (Inr ())) (\<lambda>_ e.
       case linkSupers (en_fuel e) (en_map e) this superIds (en_kinds e) of
         Inl err \<Rightarrow> (Inl err, e)
       | Inr h \<Rightarrow> (Inr (), e\<lparr>en_kinds := h\<rparr>))"

definition extends_of :: "obj \<Rightarrow> string list res" where
  "extends_of obj = run (\<lambda>superIds i. rbind (obj_stringValue i) (\<lambda>str. Inr (superIds @ [str]))) []
     (case obj_get ''extends'' obj of Some supers \<Rightarrow> ensureArray supers | None \<Rightarrow> [])"

text \<open>
  What the object does not name keeps its value from before: the schema and the \<^verbatim>\<open>sync\<close> flag. A schema that fails to
  parse leaves the old one.
\<close>

definition kind_configure :: "'it engine_lib \<Rightarrow> string \<Rightarrow> obj \<Rightarrow> string \<Rightarrow> db_req \<Rightarrow> ('it, unit) estep" where
  "kind_configure L this obj locale' req =
     sbind (sret (getRequired_string ''owner'' obj)) (\<lambda>owner.
     sbind (sget (\<lambda>e. if owner_of (en_kinds e) this \<noteq> [] \<and> owner_of (en_kinds e) this \<noteq> owner \<and> \<not> rq_admin req
                      then kind_deny (en_perms e) else Inr ())) (\<lambda>_.
     sbind (en_on this (k_owner_update (\<lambda>_. owner))) (\<lambda>_.
     sbind (sget (\<lambda>e. kind_checkPermission (en_fuel e) (en_perms e) (en_kinds e) this DbOpKindUpdate req)) (\<lambda>_.
     sbind (case obj_get ''schema'' obj of
              Some schema \<Rightarrow> with_kind this (\<lambda>d.
                sbind (sret (schema_fromObject (ee_schema L) schema (k_schema d))) (\<lambda>sch. en_on this (k_schema_update (\<lambda>_. sch))))
            | None \<Rightarrow> sret (Inr ())) (\<lambda>_.
     sbind (sret (extends_of obj)) (\<lambda>superIds.
     sbind (case get_bool ''sync'' obj of Some backup \<Rightarrow> en_on this (k_backup_update (\<lambda>_. backup)) | None \<Rightarrow> sret (Inr ())) (\<lambda>_.
     with_kind this (\<lambda>d.
     sbind (en_on this (k_state_update (\<lambda>_. Some (kind_state_new (k_id d))))) (\<lambda>_.
     sbind (with_state this (ks_init (ee_iters L) (ee_status L) (s_strings (k_schema d)))) (\<lambda>_.
     sbind (configureIndexes L this obj locale') (\<lambda>_.
     sbind (updateSupers L this superIds (k_obj d \<noteq> OUndefined) req) (\<lambda>_.
     sbind (configureRevSets L this obj) (\<lambda>_.
       en_on this (k_obj_update (\<lambda>_. obj)))))))))))))))"

text \<open>Closing takes a kind out of the hierarchy; its indexes are given up.\<close>

definition kind_close :: "string \<Rightarrow> ('it, unit) estep" where
  "kind_close this =
     sbind (\<lambda>e. case clearSupers this (en_kinds e) of
              Inl err \<Rightarrow> (Inr (Some err), e)
            | Inr h \<Rightarrow> (Inr None, e\<lparr>en_kinds := h\<rparr>)) (\<lambda>err.
     sbind (en_on this (\<lambda>d. d\<lparr>k_indexes := [], k_indexObjects := [], k_schema := schema_clear (k_schema d), k_revSets := [], k_superIds := []\<rparr>)) (\<lambda>_.
       sret (case err of Some e \<Rightarrow> Inl e | None \<Rightarrow> Inr ())))"

text \<open>The last error that occurs is the one that is returned.\<close>

definition accumulate :: "MojErr option \<Rightarrow> ('s, unit) step \<Rightarrow> ('s, MojErr option) step" where
  "accumulate err m = (\<lambda>s. case m s of (Inl e, s) \<Rightarrow> (Inr (Some e), s) | (Inr _, s) \<Rightarrow> (Inr err, s))"

definition kind_drop :: "'it engine_lib \<Rightarrow> string \<Rightarrow> db_req \<Rightarrow> ('it, unit) estep" where
  "kind_drop L this req =
     sbind (sget (\<lambda>e. kind_checkPermission (en_fuel e) (en_perms e) (en_kinds e) this DbOpKindUpdate req)) (\<lambda>_.
     with_kind this (\<lambda>d.
     sbind (srun (\<lambda>err (ix, x). accumulate err (kind_dropIndex L this ix)) None (k_indexes d)) (\<lambda>err.
     sbind (en_on this (k_indexes_update (\<lambda>_. []))) (\<lambda>_.
     sbind (accumulate err (kind_close this)) (\<lambda>err.
       sret (case err of Some e \<Rightarrow> Inl e | None \<Rightarrow> Inr ()))))))"

section \<open>The engine\<close>

text \<open>A kind is destroyed when the last reference to it goes, which closes it.\<close>

definition kind_destroy :: "string \<Rightarrow> 'it kind_engine \<Rightarrow> 'it kind_engine" where
  "kind_destroy ident e = (let (_, e) = kind_close ident e in e\<lparr>en_kinds := (en_kinds e)(ident := None)\<rparr>)"

definition createKind :: "'it engine_lib \<Rightarrow> string \<Rightarrow> obj \<Rightarrow> db_req \<Rightarrow> bool \<Rightarrow> ('it, unit) estep" where
  "createKind L ident obj req builtin = (\<lambda>e.
     case kind_init ident (kind_new builtin) of
       Inl err \<Rightarrow> (Inl err, e)
     | Inr d \<Rightarrow>
         (case kind_configure L ident obj (en_locale e) req (e\<lparr>en_kinds := (en_kinds e)(ident \<mapsto> d)\<rparr>) of
            (Inl err, e) \<Rightarrow> (Inl err, kind_destroy ident e)
          | (Inr _, e) \<Rightarrow>
              let e = e\<lparr>en_map := en_map e @ [ident]\<rparr> in
              (case en_kinds e ident of
                 Some d \<Rightarrow>
                   (case k_state d of
                      Some s \<Rightarrow> (Inr (), e\<lparr>en_tokens := (en_tokens e)(ks_kindToken s \<mapsto> ident)\<rparr>)
                    | None \<Rightarrow> (Inl MojAssertFailed, e))
               | None \<Rightarrow> (Inl MojAssertFailed, e))))"

definition putKind :: "'it engine_lib \<Rightarrow> obj \<Rightarrow> db_req \<Rightarrow> bool \<Rightarrow> ('it, unit) estep" where
  "putKind L obj req builtin =
     sbind (sret (getRequired_string ''id'' obj)) (\<lambda>ident e.
       if ident \<notin> set (en_map e) then createKind L ident obj req builtin e
       else kind_configure L ident obj (en_locale e) req e)"

definition delKind :: "'it engine_lib \<Rightarrow> string \<Rightarrow> db_req \<Rightarrow> ('it, unit) estep" where
  "delKind L ident req = (\<lambda>e.
     if ident \<in> set (en_map e)
     then sbind (kind_drop L ident req) (\<lambda>_ e. (Inr (), kind_destroy ident (e\<lparr>en_map := remove1 ident (en_map e)\<rparr>))) e
     else (Inr (), e))"

definition reloadKind :: "'it engine_lib \<Rightarrow> string \<Rightarrow> obj \<Rightarrow> db_req \<Rightarrow> ('it, unit) estep" where
  "reloadKind L ident kindObj req = (\<lambda>e.
     createKind L ident kindObj req False
       (if ident \<in> set (en_map e) then kind_destroy ident (e\<lparr>en_map := remove1 ident (en_map e)\<rparr>) else e))"

definition getKindByName :: "string \<Rightarrow> 'it kind_engine \<Rightarrow> kind res" where
  "getKindByName kindName e =
     (if kindName \<in> set (en_map e) then (case en_kinds e kindName of Some d \<Rightarrow> Inr d | None \<Rightarrow> Inl MojAssertFailed)
      else Inl MojErrDbKindNotRegistered)"

definition getKind :: "obj \<Rightarrow> 'it kind_engine \<Rightarrow> kind res" where
  "getKind obj e =
     rbind (get_string KindKey obj) (\<lambda>found.
       case found of None \<Rightarrow> Inl MojErrDbKindNotSpecified | Some kindName \<Rightarrow> getKindByName kindName e)"

definition tokenFromId :: "string \<Rightarrow> 'it kind_engine \<Rightarrow> i64 res" where
  "tokenFromId ident e =
     rbind (getKindByName ident e) (\<lambda>d. case k_state d of Some s \<Rightarrow> Inr (ks_kindToken s) | None \<Rightarrow> Inl MojAssertFailed)"

definition idFromToken :: "i64 \<Rightarrow> 'it kind_engine \<Rightarrow> string res" where
  "idFromToken tok e = (case en_tokens e tok of None \<Rightarrow> Inl MojErrDbInvalidKindToken | Some ident \<Rightarrow> Inr ident)"

definition en_checkPermission :: "string \<Rightarrow> MojDbOp \<Rightarrow> db_req \<Rightarrow> 'it kind_engine \<Rightarrow> unit res" where
  "en_checkPermission ident opn req e =
     rbind (getKindByName ident e) (\<lambda>d. kind_checkPermission (en_fuel e) (en_perms e) (en_kinds e) (k_id d) opn req)"

definition en_checkOwnerPermission :: "string \<Rightarrow> db_req \<Rightarrow> 'it kind_engine \<Rightarrow> unit res" where
  "en_checkOwnerPermission ident req e =
     rbind (getKindByName ident e) (\<lambda>d. kind_checkOwnerPermission (en_perms e) (en_kinds e) (k_id d) req)"

definition getKinds :: "'it kind_engine \<Rightarrow> obj list res" where
  "getKinds e = rbind (getKindByName RootKindId e) (\<lambda>d. subKinds (en_fuel e) (en_kinds e) (k_id d) None [])"

text \<open>An object that changes its kind is removed from the one and added to the other.\<close>

definition en_update ::
  "obj option \<Rightarrow> obj option \<Rightarrow> db_req \<Rightarrow> MojDbOp \<Rightarrow> bool \<Rightarrow> ('it, obj option \<times> string) estep" where
  "en_update newObj oldObj req opn checkSchema = (\<lambda>e.
     let upd = kind_update (en_fuel e) (en_perms e) (en_kinds e) in
     case rbind (case oldObj of None \<Rightarrow> Inr None | Some old \<Rightarrow> rbind (getKind old e) (\<lambda>d. Inr (Some (k_id d)))) (\<lambda>oldKind.
          rbind (case (newObj, oldObj) of
                   (Some new, _) \<Rightarrow> getKind new e
                 | (None, Some old) \<Rightarrow> getKind old e
                 | (None, None) \<Rightarrow> Inl MojAssertFailed) (\<lambda>newKind.
          rbind (if oldKind \<noteq> None \<and> oldKind \<noteq> Some (k_id newKind)
                 then rbind (upd None oldObj DbOpDelete req checkSchema (the oldKind) (en_txns e)) (\<lambda>(_, t).
                      upd newObj None DbOpCreate req checkSchema (k_id newKind) t)
                 else upd newObj oldObj opn req checkSchema (k_id newKind) (en_txns e)) (\<lambda>(newObj, t).
            Inr (newObj, k_id newKind, t)))) of
       Inl err \<Rightarrow> (Inl err, e)
     | Inr (newObj, ident, t) \<Rightarrow> (Inr (newObj, ident), e\<lparr>en_txns := t\<rparr>))"

section \<open>What a step leaves alone\<close>

definition same_links :: "kinds \<Rightarrow> kinds \<Rightarrow> bool" where
  "same_links h h' \<longleftrightarrow> dom h' = dom h \<and> supers_of h' = supers_of h \<and> subs_of h' = subs_of h \<and> superIds_of h' = superIds_of h"

lemma same_links_refl [simp]: "same_links h h"
  by (simp add: same_links_def)

lemma same_links_trans: "same_links h h' \<Longrightarrow> same_links h' h'' \<Longrightarrow> same_links h h''"
  by (simp add: same_links_def)

lemma same_links_on:
  assumes "\<And>d. k_supers (f d) = k_supers d" "\<And>d. k_subs (f d) = k_subs d" "\<And>d. k_superIds (f d) = k_superIds d"
  shows "same_links h (on_kind this f h)"
  using assms
  by (auto simp: same_links_def on_kind_def supers_of_def subs_of_def superIds_of_def fun_eq_iff split: option.splits)

definition frames :: "('it, 'a) estep \<Rightarrow> bool" where
  "frames m \<longleftrightarrow> (\<forall>e. same_links (en_kinds e) (en_kinds (snd (m e))) \<and> en_map (snd (m e)) = en_map e)"

named_theorems frame_rules

lemma framesI:
  assumes "\<And>e. same_links (en_kinds e) (en_kinds (snd (m e))) \<and> en_map (snd (m e)) = en_map e"
  shows "frames m"
  using assms by (simp add: frames_def)

lemma framesD: "frames m \<Longrightarrow> m e = (r, e') \<Longrightarrow> same_links (en_kinds e) (en_kinds e') \<and> en_map e' = en_map e"
  by (metis frames_def snd_conv)

lemma frames_bind [frame_rules]: "frames m \<Longrightarrow> (\<And>a. frames (f a)) \<Longrightarrow> frames (sbind m f)"
  by (intro framesI) (auto simp: sbind_def frames_def split: prod.splits sum.splits intro: same_links_trans dest: framesD; metis same_links_trans snd_conv)

lemma frames_ret [frame_rules]: "frames (sret r)" "frames (sget f)"
  by (simp_all add: frames_def sret_def sget_def)

lemma frames_run [frame_rules]: "(\<And>acc x. frames (f acc x)) \<Longrightarrow> frames (srun f acc xs)"
  by (induction xs arbitrary: acc) (auto intro: frame_rules)

lemma frames_kind [frame_rules]: "(\<And>d. frames (f d)) \<Longrightarrow> frames (with_kind this f)"
  by (intro framesI) (auto simp: with_kind_def frames_def split: option.splits)

lemma frames_state [frame_rules]: "frames (with_state this m)"
  unfolding with_state_def
  by (intro frames_kind framesI) (auto split: option.splits prod.splits intro: same_links_on)

lemma frames_on:
  assumes "\<And>d. k_supers (f d) = k_supers d" "\<And>d. k_subs (f d) = k_subs d" "\<And>d. k_superIds (f d) = k_superIds d"
  shows "frames (en_on this f)"
  using same_links_on [OF assms] by (simp add: frames_def en_on_def smod_def)

lemma frames_dropIndex [frame_rules]: "frames (kind_dropIndex L this ix)"
  unfolding kind_dropIndex_def by (intro frame_rules) (auto simp: frames_def smod_def sret_def)

lemma frames_openIndex [frame_rules]: "frames (kind_openIndex L this ix)"
  unfolding kind_openIndex_def by (intro frame_rules) (auto intro: frame_rules)

lemma frames_configureIndexes [frame_rules]: "frames (configureIndexes L this obj locale')"
  unfolding configureIndexes_def Let_def
  by (intro frame_rules frames_on) (auto intro!: frame_rules split: prod.splits)

lemma frames_configureRevSets [frame_rules]: "frames (configureRevSets L this obj)"
  unfolding configureRevSets_def by (intro frame_rules frames_on) (auto intro!: frame_rules frames_on)

lemma frames_moveObjects [frame_rules]: "frames (moveObjects L this superIds req)"
  by (intro framesI) (auto simp: moveObjects_def Let_def split: sum.splits)

lemma frames_accumulate [frame_rules]: "frames m \<Longrightarrow> frames (accumulate err m)"
  by (intro framesI) (auto simp: accumulate_def frames_def split: prod.splits sum.splits dest: framesD; metis snd_conv)

section \<open>What a configuration does to the links\<close>

text \<open>A step that fails without touching the links, or links the kind along the ids that it has read.\<close>

definition relinks :: "string \<Rightarrow> string list res \<Rightarrow> ('it, 'a) estep \<Rightarrow> bool" where
  "relinks this ids m \<longleftrightarrow> (\<forall>e r e'. m e = (r, e') \<longrightarrow> en_map e' = en_map e \<and>
     ((\<exists>err. r = Inl err) \<and> same_links (en_kinds e) (en_kinds e') \<or>
      (\<exists>superIds h0 h. ids = Inr superIds \<and> same_links (en_kinds e) h0 \<and>
         linkSupers (en_fuel e) (en_map e) this superIds h0 = Inr h \<and> same_links h (en_kinds e'))))"

lemma relinks_before:
  assumes "frames m" "\<And>a. relinks this ids (f a)"
  shows "relinks this ids (sbind m f)"
  unfolding relinks_def
proof (intro allI impI)
  fix e r e'
  assume run: "sbind m f e = (r, e')"
  obtain ra e1 where m: "m e = (ra, e1)" by fastforce
  note frame = framesD [OF assms(1) m]
  then have fuel: "en_fuel e1 = en_fuel e" by (simp add: en_fuel_def)
  show "en_map e' = en_map e \<and>
     ((\<exists>err. r = Inl err) \<and> same_links (en_kinds e) (en_kinds e') \<or>
      (\<exists>superIds h0 h. ids = Inr superIds \<and> same_links (en_kinds e) h0 \<and>
         linkSupers (en_fuel e) (en_map e) this superIds h0 = Inr h \<and> same_links h (en_kinds e')))"
  proof (cases ra)
    case (Inl err)
    then show ?thesis using run m frame by (auto simp: sbind_def)
  next
    case (Inr a)
    then have fa: "f a e1 = (r, e')" using run m by (simp add: sbind_def)
    note trans = same_links_trans [OF frame [THEN conjunct1]]
    show ?thesis
      using assms(2) [of a, unfolded relinks_def, rule_format, OF fa]
      unfolding fuel frame [THEN conjunct2] by (blast intro: trans)
  qed
qed

lemma relinks_after:
  assumes "relinks this ids m" "\<And>a. frames (f a)"
  shows "relinks this ids (sbind m f)"
  unfolding relinks_def
proof (intro allI impI)
  fix e r e'
  assume run: "sbind m f e = (r, e')"
  obtain ra e1 where m: "m e = (ra, e1)" by fastforce
  note step = assms(1) [unfolded relinks_def, rule_format, OF m]
  show "en_map e' = en_map e \<and>
     ((\<exists>err. r = Inl err) \<and> same_links (en_kinds e) (en_kinds e') \<or>
      (\<exists>superIds h0 h. ids = Inr superIds \<and> same_links (en_kinds e) h0 \<and>
         linkSupers (en_fuel e) (en_map e) this superIds h0 = Inr h \<and> same_links h (en_kinds e')))"
  proof (cases ra)
    case (Inl err)
    then show ?thesis using run m step by (auto simp: sbind_def)
  next
    case (Inr a)
    then have fa: "f a e1 = (r, e')" using run m by (simp add: sbind_def)
    note frame = framesD [OF assms(2) fa]
    have "same_links h (en_kinds e1) \<Longrightarrow> same_links h (en_kinds e')" for h using frame same_links_trans by blast
    then show ?thesis using step frame Inr by (metis (no_types, lifting) sum.distinct(1))
  qed
qed

lemma relinks_ret: "(\<And>a. ids = Inr a \<Longrightarrow> relinks this ids (f a)) \<Longrightarrow> relinks this ids (sbind (sret ids) f)"
  by (cases ids) (auto simp: relinks_def sbind_def sret_def)

lemma relinks_kind: "(\<And>d. relinks this ids (f d)) \<Longrightarrow> relinks this ids (with_kind this' f)"
  by (auto simp: relinks_def with_kind_def split: option.splits)

lemma relinks_updateSupers: "ids = Inr superIds \<Longrightarrow> relinks this ids (updateSupers L this superIds updating req)"
  unfolding updateSupers_def
proof (rule relinks_before)
  show "frames (if updating then moveObjects L this superIds req else sret (Inr ()))" by (auto intro: frame_rules)
  assume "ids = Inr superIds"
  then show "relinks this ids (\<lambda>e. case linkSupers (en_fuel e) (en_map e) this superIds (en_kinds e) of
       Inl err \<Rightarrow> (Inl err, e) | Inr h \<Rightarrow> (Inr (), e\<lparr>en_kinds := h\<rparr>))"
    unfolding relinks_def by (auto split: sum.splits intro: same_links_refl)
qed

lemma relinks_configure: "relinks this (extends_of obj) (kind_configure L this obj locale' req)"
proof -
  have schema: "frames (case obj_get ''schema'' obj of
      Some schema \<Rightarrow> with_kind this (\<lambda>d.
        sbind (sret (schema_fromObject (ee_schema L) schema (k_schema d))) (\<lambda>sch. en_on this (k_schema_update (\<lambda>_. sch))))
    | None \<Rightarrow> sret (Inr ()))"
    and sync: "frames (case get_bool ''sync'' obj of Some backup \<Rightarrow> en_on this (k_backup_update (\<lambda>_. backup)) | None \<Rightarrow> sret (Inr ()))"
    for obj by (auto intro!: frame_rules frames_on split: option.splits)
  show ?thesis
    unfolding kind_configure_def
    apply (rule relinks_before, rule frames_ret)
    apply (rule relinks_before, rule frames_ret)
    apply (rule relinks_before, rule frames_on, simp, simp, simp)
    apply (rule relinks_before, rule frames_ret)
    apply (rule relinks_before, rule schema)
    apply (rule relinks_ret)
    apply (rule relinks_before, rule sync)
    apply (rule relinks_kind)
    apply (rule relinks_before, rule frames_on, simp, simp, simp)
    apply (rule relinks_before, rule frames_state)
    apply (rule relinks_before, rule frames_configureIndexes)
    apply (rule relinks_after, erule relinks_updateSupers)
    apply (rule frames_bind, rule frames_configureRevSets, rule frames_on, simp_all)
    done
qed

section \<open>The hierarchy is kept\<close>

lemma hierarchy_same: "same_links h h' \<Longrightarrow> hierarchy_ok M h' \<longleftrightarrow> hierarchy_ok M h" "same_links h h' \<Longrightarrow> links_ok h' \<longleftrightarrow> links_ok h"
    "same_links h h' \<Longrightarrow> resolved M h' k = resolved M h k" "same_links h h' \<Longrightarrow> settled M h' \<longleftrightarrow> settled M h"
    "same_links h h' \<Longrightarrow> linked_in M h' k \<longleftrightarrow> linked_in M h k"
  by (simp_all add: same_links_def hierarchy_ok_def links_ok_def links_def mirror_def declared_def resolved_def orphan_def settled_def
      linked_in_def ancestors_def)

text \<open>The declarations have no cycle when a kind extends these ids.\<close>

definition may_extend :: "kinds \<Rightarrow> string \<Rightarrow> string list \<Rightarrow> bool" where
  "may_extend h ident superIds \<longleftrightarrow> acyclic ({(k, s). k \<noteq> ident \<and> s \<in> set (superIds_of h k)} \<union> {ident} \<times> set superIds)"

text \<open>A hierarchy together with a kind that is not in the map yet, or is.\<close>

definition with_new :: "string list \<Rightarrow> string \<Rightarrow> kinds \<Rightarrow> bool" where
  "with_new kindMap ident h \<longleftrightarrow> distinct kindMap \<and> RootKindId \<in> set kindMap \<and> dom h = insert ident (set kindMap) \<and> ident \<noteq> RootKindId \<and>
     links_ok h \<and> (ident \<notin> set kindMap \<longrightarrow> supers_of h ident = [] \<and> subs_of h ident = [])"

lemma with_new_same: "same_links h h' \<Longrightarrow> with_new M ident h' \<longleftrightarrow> with_new M ident h"
  using hierarchy_same [of h h'] by (simp add: with_new_def same_links_def orphan_def)

lemma with_new_old: "hierarchy_ok M h \<Longrightarrow> ident \<in> set M \<Longrightarrow> ident \<noteq> RootKindId \<Longrightarrow> with_new M ident h"
  by (auto simp: with_new_def hierarchy_ok_def)

lemma of_upd [simp]:
  "supers_of (h(k \<mapsto> d)) x = (if x = k then k_supers d else supers_of h x)"
  "subs_of (h(k \<mapsto> d)) x = (if x = k then k_subs d else subs_of h x)"
  "superIds_of (h(k \<mapsto> d)) x = (if x = k then k_superIds d else superIds_of h x)"
  by (simp_all add: supers_of_def subs_of_def superIds_of_def)

lemma with_new_fresh:
  assumes "hierarchy_ok M h" "ident \<notin> set M" "k_supers d = []" "k_subs d = []" "k_superIds d = []"
  shows "with_new M ident (h(ident \<mapsto> d))" "settled M (h(ident \<mapsto> d)) \<longleftrightarrow> settled M h"
proof -
  have none: "h ident = None" using assms(1,2) by (auto simp: hierarchy_ok_def)
  note empty = supers_of_None [of h ident, OF none]
  have same: "supers_of (h(ident \<mapsto> d)) = supers_of h" "subs_of (h(ident \<mapsto> d)) = subs_of h" "superIds_of (h(ident \<mapsto> d)) = superIds_of h"
    using assms(3-5) empty by (auto simp: fun_eq_iff)
  then have "mirror (h(ident \<mapsto> d)) = mirror h" "links (h(ident \<mapsto> d)) = links h" by (simp_all add: mirror_def links_def)
  then show "with_new M ident (h(ident \<mapsto> d))" using assms(1,2) empty by (auto simp: with_new_def hierarchy_ok_def links_ok_def same)
  show "settled M (h(ident \<mapsto> d)) \<longleftrightarrow> settled M h"
    by (simp only: settled_def declared_def resolved_def orphan_def same)
qed

lemma configure_hierarchy:
  assumes "with_new (en_map e) ident (en_kinds e)" "kind_configure L ident obj locale' req e = (r, e')"
    and "\<And>superIds. extends_of obj = Inr superIds \<Longrightarrow> RootKindId \<notin> set superIds"
  shows "en_map e' = en_map e \<and>
    ((\<exists>err. r = Inl err) \<and> same_links (en_kinds e) (en_kinds e') \<or>
     (\<forall>M. distinct M \<longrightarrow> set M = insert ident (set (en_map e)) \<longrightarrow> hierarchy_ok M (en_kinds e') \<and> linked_in M (en_kinds e') ident \<and>
        (settled (en_map e) (en_kinds e) \<and> (\<forall>superIds. extends_of obj = Inr superIds \<longrightarrow> may_extend (en_kinds e) ident superIds) \<longrightarrow>
           settled M (en_kinds e'))))"
proof -
  note step = relinks_configure [unfolded relinks_def, rule_format, OF assms(2)]
  show ?thesis
  proof (cases "(\<exists>err. r = Inl err) \<and> same_links (en_kinds e) (en_kinds e')")
    case True
    then show ?thesis using step by blast
  next
    case False
    then obtain superIds h0 h where h: "extends_of obj = Inr superIds" "same_links (en_kinds e) h0"
      "linkSupers (en_fuel e) (en_map e) ident superIds h0 = Inr h" "same_links h (en_kinds e')"
      using step by blast
    have new: "with_new (en_map e) ident h0" using assms(1) with_new_same [OF h(2)] by simp
    have ids: "superIds_of h0 = superIds_of (en_kinds e)" using h(2) by (simp add: same_links_def)
    have "ident \<in> dom h0" using new by (simp add: with_new_def)
    then have there: "h0 ident \<noteq> None" by blast
    have decl: "declared (on_kind ident (k_superIds_update (\<lambda>_. superIds)) h0) =
        {(k, s). k \<noteq> ident \<and> s \<in> set (superIds_of (en_kinds e) k)} \<union> {ident} \<times> set superIds"
      by (auto simp only: declared_def on_superIds ids there split: if_splits)
    obtain h' where "linkSupers (en_fuel e) (en_map e) ident superIds h0 = Inr h'"
      "\<forall>M. distinct M \<longrightarrow> set M = insert ident (set (en_map e)) \<longrightarrow> hierarchy_ok M h' \<and> linked_in M h' ident \<and>
         (settled (en_map e) h0 \<and> acyclic (declared (on_kind ident (k_superIds_update (\<lambda>_. superIds)) h0)) \<longrightarrow> settled M h')"
      using linkSupers_hierarchy [of "en_map e" h0 ident superIds "en_fuel e"] new assms(3) [OF h(1)]
      unfolding with_new_def en_fuel_def by (metis less_add_one)
    then show ?thesis
      using step h(1,3) hierarchy_same [OF h(4)] hierarchy_same(4) [OF h(2)] unfolding decl may_extend_def by simp
  qed
qed

lemma on_fields [simp]:
  assumes "\<And>d. k_supers (f d) = k_supers d" "\<And>d. k_subs (f d) = k_subs d"
  shows "supers_of (on_kind this f h) = supers_of h" "subs_of (on_kind this f h) = subs_of h"
  using assms by (auto simp: on_kind_def supers_of_def subs_of_def fun_eq_iff split: option.splits)

lemma destroy_map: "en_map (kind_destroy ident e) = en_map e"
  by (auto simp: kind_destroy_def kind_close_def sbind_def en_on_def smod_def sret_def split: sum.splits option.splits)

lemma destroy_links:
  assumes "links_ok (en_kinds e)" "ident \<noteq> RootKindId"
  shows "\<exists>h'. clearSupers ident (en_kinds e) = Inr h' \<and> same_kinds (en_kinds e) h' \<and> en_map (kind_destroy ident e) = en_map e \<and>
    dom (en_kinds (kind_destroy ident e)) = dom (en_kinds e) - {ident} \<and>
    superIds_of (en_kinds (kind_destroy ident e)) = (superIds_of h')(ident := []) \<and>
    supers_of (en_kinds (kind_destroy ident e)) = supers_of h' \<and> subs_of (en_kinds (kind_destroy ident e)) = subs_of h' \<and>
    links_ok (en_kinds (kind_destroy ident e)) \<and>
    (\<forall>k. k \<noteq> ident \<longrightarrow> supers_of h' k = filter (\<lambda>s. s \<noteq> ident) (supers_of (en_kinds e) k))"
proof -
  obtain h' where h': "clearSupers ident (en_kinds e) = Inr h'" "links_ok h'" "same_kinds (en_kinds e) h'" "supers_of h' ident = []"
    "subs_of h' ident = []" "\<forall>k. k \<noteq> ident \<longrightarrow> supers_of h' k = filter (\<lambda>s. s \<noteq> ident) (supers_of (en_kinds e) k)"
    using clear_hierarchy [OF assms] by blast
  let ?f = "\<lambda>d. d\<lparr>k_indexes := [], k_indexObjects := [], k_schema := schema_clear (k_schema d), k_revSets := [], k_superIds := []\<rparr>"
  let ?h = "(on_kind ident ?f h')(ident := None)"
  have e': "en_kinds (kind_destroy ident e) = ?h" "en_map (kind_destroy ident e) = en_map e"
    using h'(1) by (simp_all add: kind_destroy_def kind_close_def sbind_def en_on_def smod_def sret_def)
  have sup: "supers_of ?h = supers_of h'" "subs_of ?h = subs_of h'" using h'(4,5) by (auto simp: fun_eq_iff)
  have ids: "superIds_of ?h = (superIds_of h')(ident := [])"
    by (auto simp: fun_eq_iff superIds_of_def on_kind_def split: option.splits)
  have dom: "dom ?h = dom (en_kinds e) - {ident}"
    using dom_same [OF h'(3)] by (auto simp: on_kind_def dom_def split: option.splits if_splits)
  have "ident \<notin> set (supers_of h' k)" for k using h'(4,6) by (cases "k = ident") auto
  then have same: "filter (\<lambda>s. s \<noteq> ident) (supers_of h' k) = supers_of h' k" for k by (auto intro: filter_True)
  have "ident \<notin> set (subs_of h' k)" for k
    using mirror_mem [of h' k ident] h'(2,4) by (simp add: links_ok_def)
  then have same': "filter (\<lambda>s. s \<noteq> ident) (subs_of h' k) = subs_of h' k" for k by (auto intro: filter_True)
  have "links_ok ?h"
    by (rule links_ok_cleared [OF h'(2) assms(2), where K = "{ident}"])
       (use sup ids h'(4,5) same same' dom dom_same [OF h'(3)] in \<open>auto simp: fun_eq_iff\<close>)
  then show ?thesis using h' e' sup ids dom by (intro exI [of _ h']) simp
qed

lemma destroy_hierarchy:
  assumes "hierarchy_ok M (en_kinds e)" "ident \<noteq> RootKindId"
  shows "hierarchy_ok (remove1 ident M) (en_kinds (kind_destroy ident e))" "en_map (kind_destroy ident e) = en_map e"
    "settled M (en_kinds e) \<Longrightarrow> settled (remove1 ident M) (en_kinds (kind_destroy ident e))"
proof -
  have ok: "links_ok (en_kinds e)" "dom (en_kinds e) = set M" "distinct M" "RootKindId \<in> set M" using assms(1) by (simp_all add: hierarchy_ok_def)
  obtain h' where h': "same_kinds (en_kinds e) h'" "en_map (kind_destroy ident e) = en_map e"
    "dom (en_kinds (kind_destroy ident e)) = dom (en_kinds e) - {ident}"
    "superIds_of (en_kinds (kind_destroy ident e)) = (superIds_of h')(ident := [])"
    "supers_of (en_kinds (kind_destroy ident e)) = supers_of h'" "links_ok (en_kinds (kind_destroy ident e))"
    "\<forall>k. k \<noteq> ident \<longrightarrow> supers_of h' k = filter (\<lambda>s. s \<noteq> ident) (supers_of (en_kinds e) k)"
    using destroy_links [OF ok(1) assms(2)] by blast
  show "en_map (kind_destroy ident e) = en_map e" by (rule h'(2))
  show "hierarchy_ok (remove1 ident M) (en_kinds (kind_destroy ident e))"
    using h'(3,6) ok(2-4) assms(2) by (simp add: hierarchy_ok_def)
  show "settled (remove1 ident M) (en_kinds (kind_destroy ident e))" if "settled M (en_kinds e)"
    by (rule settled_without [OF that assms(2)]) (use h' ok(2,3) in \<open>simp_all add: same_kinds_def\<close>)
qed

text \<open>A kind whose creation failed before it was linked leaves no trace.\<close>

lemma destroy_new:
  assumes "with_new M ident (en_kinds e)" "ident \<notin> set M"
  shows "hierarchy_ok M (en_kinds (kind_destroy ident e))" "en_map (kind_destroy ident e) = en_map e"
    "settled M (en_kinds e) \<Longrightarrow> settled M (en_kinds (kind_destroy ident e))"
proof -
  have ok: "links_ok (en_kinds e)" "ident \<noteq> RootKindId" "dom (en_kinds e) = insert ident (set M)" "subs_of (en_kinds e) ident = []"
    "distinct M" "RootKindId \<in> set M"
    using assms by (simp_all add: with_new_def)
  obtain h' where h': "en_map (kind_destroy ident e) = en_map e" "same_kinds (en_kinds e) h'"
    "dom (en_kinds (kind_destroy ident e)) = dom (en_kinds e) - {ident}"
    "superIds_of (en_kinds (kind_destroy ident e)) = (superIds_of h')(ident := [])"
    "supers_of (en_kinds (kind_destroy ident e)) = supers_of h'" "links_ok (en_kinds (kind_destroy ident e))"
    "\<forall>k. k \<noteq> ident \<longrightarrow> supers_of h' k = filter (\<lambda>s. s \<noteq> ident) (supers_of (en_kinds e) k)"
    using destroy_links [OF ok(1,2)] by blast
  show "en_map (kind_destroy ident e) = en_map e" by (rule h'(1))
  show "hierarchy_ok M (en_kinds (kind_destroy ident e))"
    using ok(3,5,6) h'(3,6) assms(2) by (simp add: hierarchy_ok_def)
  show "settled M (en_kinds (kind_destroy ident e))" if "settled M (en_kinds e)"
    by (rule settled_without [OF that ok(2)]) (use h'(2,4,5,7) assms(2) in \<open>simp_all add: same_kinds_def\<close>)
qed

lemma destroy_cleared:
  assumes "hierarchy_ok M (en_kinds e)" "ident \<noteq> RootKindId" "kind_close ident e = (Inr (), e1)"
  shows "hierarchy_ok (remove1 ident M) (en_kinds (kind_destroy ident (e1\<lparr>en_map := M'\<rparr>)))" "en_map e1 = en_map e"
    "settled M (en_kinds e) \<Longrightarrow> settled (remove1 ident M) (en_kinds (kind_destroy ident (e1\<lparr>en_map := M'\<rparr>)))"
proof -
  have ok: "links_ok (en_kinds e)" "dom (en_kinds e) = set M" "distinct M" "RootKindId \<in> set M" using assms(1) by (simp_all add: hierarchy_ok_def)
  let ?f = "\<lambda>d. d\<lparr>k_indexes := [], k_indexObjects := [], k_schema := schema_clear (k_schema d), k_revSets := [], k_superIds := []\<rparr>"
  obtain h where h: "clearSupers ident (en_kinds e) = Inr h" "en_kinds e1 = on_kind ident ?f h" "en_map e1 = en_map e"
    using assms(3) by (auto simp: kind_close_def sbind_def en_on_def smod_def sret_def split: sum.splits)
  obtain h' where h': "clearSupers ident (en_kinds e) = Inr h'" "links_ok h'" "same_kinds (en_kinds e) h'"
    "\<forall>k. k \<noteq> ident \<longrightarrow> supers_of h' k = filter (\<lambda>s. s \<noteq> ident) (supers_of (en_kinds e) k)" "supers_of h' ident = []" "subs_of h' ident = []"
    using clear_hierarchy [OF ok(1) assms(2)] by blast
  have eq: "h = h'" using h(1) h'(1) by simp
  have e1: "supers_of (en_kinds e1) = supers_of h'" "subs_of (en_kinds e1) = subs_of h'" "dom (en_kinds e1) = dom (en_kinds e)"
    "superIds_of (en_kinds e1) = (superIds_of h')(ident := [])"
    using dom_same [OF h'(3)]
    by (simp_all add: h(2) eq dom_def) (auto simp: fun_eq_iff superIds_of_def on_kind_def split: option.splits)
  have "ident \<notin> set (supers_of h' k)" for k using h'(4,5) by (cases "k = ident") auto
  then have same: "filter (\<lambda>s. s \<noteq> ident) (supers_of h' k) = supers_of h' k" for k by (auto intro: filter_True)
  have "ident \<notin> set (subs_of h' k)" for k using mirror_mem [of h' k ident] h'(2,5) by (simp add: links_ok_def)
  then have same': "filter (\<lambda>s. s \<noteq> ident) (subs_of h' k) = subs_of h' k" for k by (auto intro: filter_True)
  have "links_ok (en_kinds e1)"
    by (rule links_ok_cleared [OF h'(2) assms(2), where K = "{ident}"])
       (use e1 h'(5,6) same same' dom_same [OF h'(3)] in \<open>auto simp: fun_eq_iff\<close>)
  then have "links_ok (en_kinds (e1\<lparr>en_map := M'\<rparr>))" by simp
  from destroy_links [OF this assms(2)] obtain h2 where h2: "same_kinds (en_kinds e1) h2"
    "dom (en_kinds (kind_destroy ident (e1\<lparr>en_map := M'\<rparr>))) = dom (en_kinds e1) - {ident}"
    "superIds_of (en_kinds (kind_destroy ident (e1\<lparr>en_map := M'\<rparr>))) = (superIds_of h2)(ident := [])"
    "supers_of (en_kinds (kind_destroy ident (e1\<lparr>en_map := M'\<rparr>))) = supers_of h2"
    "links_ok (en_kinds (kind_destroy ident (e1\<lparr>en_map := M'\<rparr>)))"
    "\<forall>k. k \<noteq> ident \<longrightarrow> supers_of h2 k = filter (\<lambda>s. s \<noteq> ident) (supers_of (en_kinds e1) k)"
    by auto
  show "hierarchy_ok (remove1 ident M) (en_kinds (kind_destroy ident (e1\<lparr>en_map := M'\<rparr>)))"
    using h2(2,5) e1(3) ok(2-4) assms(2) by (simp add: hierarchy_ok_def)
  show "settled (remove1 ident M) (en_kinds (kind_destroy ident (e1\<lparr>en_map := M'\<rparr>)))" if "settled M (en_kinds e)"
    by (rule settled_without [OF that assms(2)])
       (use h2 e1 h'(3,4) ok(2,3) in \<open>simp_all add: same_kinds_def filter_True\<close>)
  show "en_map e1 = en_map e" by (rule h(3))
qed

lemma drop_close:
  assumes "kind_drop L ident req e = (Inr (), e1)"
  shows "\<exists>e0. same_links (en_kinds e) (en_kinds e0) \<and> en_map e0 = en_map e \<and> kind_close ident e0 = (Inr (), e1)"
proof -
  let ?rest = "\<lambda>err. sbind (en_on ident (k_indexes_update (\<lambda>_. []))) (\<lambda>_. sbind (accumulate err (kind_close ident)) (\<lambda>err.
       sret (case err of Some e \<Rightarrow> Inl e | None \<Rightarrow> Inr ())))"
  let ?body = "\<lambda>d :: kind. sbind (srun (\<lambda>err (ix, x). accumulate err (kind_dropIndex L ident ix)) None (k_indexes d)) ?rest"
  obtain u e0 where "sget (\<lambda>e. kind_checkPermission (en_fuel e) (en_perms e) (en_kinds e) ident DbOpKindUpdate req) e = (Inr u, e0)"
    "with_kind ident ?body e0 = (Inr (), e1)"
    using assms [unfolded kind_drop_def, THEN sbind_Inr_iff [THEN iffD1]] by blast
  then have "with_kind ident ?body e = (Inr (), e1)" by (simp add: sget_def)
  then obtain d :: kind where "?body d e = (Inr (), e1)" by (cases "en_kinds e ident") (simp_all add: with_kind_def)
  then obtain err e2 where e2: "srun (\<lambda>err (ix, x). accumulate err (kind_dropIndex L ident ix)) None (k_indexes d) e = (Inr err, e2)"
    "?rest err e2 = (Inr (), e1)"
    by (meson sbind_Inr_iff)
  obtain e3 where e3: "en_on ident (k_indexes_update (\<lambda>_. [])) e2 = (Inr (), e3)"
    "sbind (accumulate err (kind_close ident)) (\<lambda>err. sret (case err of Some e \<Rightarrow> Inl e | None \<Rightarrow> Inr ())) e3 = (Inr (), e1)"
    using e2(2) by (auto simp: sbind_Inr_iff)
  obtain rc ec where close: "kind_close ident e3 = (rc, ec)" by fastforce
  then have "kind_close ident e3 = (Inr (), e1)"
    using e3(2) by (cases rc) (auto simp: sbind_def accumulate_def sret_def split: option.splits)
  have "frames (srun (\<lambda>err (ix, x). accumulate err (kind_dropIndex L ident ix)) None (k_indexes d))"
    by (auto intro!: frame_rules split: prod.splits)
  from framesD [OF this e2(1)] have one: "same_links (en_kinds e) (en_kinds e2) \<and> en_map e2 = en_map e" .
  have "frames (en_on ident (k_indexes_update (\<lambda>_. [])) :: ('a, unit) estep)" by (rule frames_on) simp_all
  from framesD [OF this e3(1)] one \<open>kind_close ident e3 = (Inr (), e1)\<close> show ?thesis using same_links_trans by metis
qed

lemma init_new: "kind_init ident (kind_new builtin) = Inr d \<Longrightarrow> k_supers d = [] \<and> k_subs d = [] \<and> k_superIds d = []"
  by (auto simp: kind_init_def kind_new_def Let_def split: option.splits prod.splits if_splits)

lemma createKind_hierarchy:
  assumes "hierarchy_ok (en_map e) (en_kinds e)" "ident \<notin> set (en_map e)" "createKind L ident obj req builtin e = (r, e')"
    and "\<And>superIds. extends_of obj = Inr superIds \<Longrightarrow> RootKindId \<notin> set superIds"
  shows "hierarchy_ok (en_map e') (en_kinds e') \<and>
    (r = Inr () \<longrightarrow> ident \<in> set (en_map e') \<and> linked_in (en_map e') (en_kinds e') ident) \<and>
    (settled (en_map e) (en_kinds e) \<and> (\<forall>superIds. extends_of obj = Inr superIds \<longrightarrow> may_extend (en_kinds e) ident superIds) \<longrightarrow>
       settled (en_map e') (en_kinds e'))"
proof (cases "kind_init ident (kind_new builtin)")
  case (Inl err)
  then show ?thesis using assms(1,3) by (auto simp: createKind_def)
next
  case (Inr d)
  let ?e = "e\<lparr>en_kinds := (en_kinds e)(ident \<mapsto> d)\<rparr>"
  let ?acyclic = "\<forall>superIds. extends_of obj = Inr superIds \<longrightarrow> may_extend (en_kinds e) ident superIds"
  note d = init_new [OF Inr]
  have ident: "en_kinds e ident = None" using assms(1,2) by (auto simp: hierarchy_ok_def)
  have noroot: "ident \<noteq> RootKindId" using assms(1,2) by (auto simp: hierarchy_ok_def)
  have new: "with_new (en_map ?e) ident (en_kinds ?e)" "settled (en_map e) (en_kinds ?e) \<longleftrightarrow> settled (en_map e) (en_kinds e)"
    using with_new_fresh [OF assms(1,2)] d by simp_all
  have ids: "superIds_of (en_kinds ?e) = superIds_of (en_kinds e)"
    using d supers_of_None(3) [of "en_kinds e" ident, OF ident] by (auto simp: fun_eq_iff)
  have may: "may_extend (en_kinds ?e) = may_extend (en_kinds e)" using ids by (simp add: may_extend_def fun_eq_iff)
  obtain rc ec where conf: "kind_configure L ident obj (en_locale e) req ?e = (rc, ec)" by fastforce
  note ok = configure_hierarchy [OF new(1) conf assms(4)]
  have M: "distinct (en_map e @ [ident])" "set (en_map e @ [ident]) = insert ident (set (en_map e))"
    using assms(1,2) by (auto simp: hierarchy_ok_def)
  have linked: "hierarchy_ok (en_map e @ [ident]) (en_kinds ec) \<and> linked_in (en_map e @ [ident]) (en_kinds ec) ident \<and>
      (settled (en_map e) (en_kinds e) \<and> ?acyclic \<longrightarrow> settled (en_map e @ [ident]) (en_kinds ec))"
    if "\<not> ((\<exists>err. rc = Inl err) \<and> same_links (en_kinds ?e) (en_kinds ec))"
  proof -
    have "\<forall>M. distinct M \<longrightarrow> set M = insert ident (set (en_map e)) \<longrightarrow> hierarchy_ok M (en_kinds ec) \<and> linked_in M (en_kinds ec) ident \<and>
        (settled (en_map e) (en_kinds ?e) \<and> ?acyclic \<longrightarrow> settled M (en_kinds ec))"
      using conjunct2 [OF ok [unfolded may]] by (rule disjE) (use that in simp_all)
    then show ?thesis using M unfolding new(2) by (elim allE [of _ "en_map e @ [ident]"] impE) assumption
  qed
  have map: "en_map ec = en_map e" using ok by simp
  show ?thesis
  proof (cases rc)
    case (Inl err)
    then have e': "r = Inl err" "e' = kind_destroy ident ec" using assms(3) Inr conf by (auto simp: createKind_def)
    have "hierarchy_ok (en_map e) (en_kinds e') \<and> en_map e' = en_map ec \<and>
        (settled (en_map e) (en_kinds e) \<and> ?acyclic \<longrightarrow> settled (en_map e) (en_kinds e'))"
    proof (cases "same_links (en_kinds ?e) (en_kinds ec)")
      case True
      then have "with_new (en_map e) ident (en_kinds ec)" using with_new_same new(1) by simp
      from destroy_new [OF this assms(2)] show ?thesis using new(2) hierarchy_same(4) [OF True] by (simp add: e')
    next
      case False
      with linked have ok': "hierarchy_ok (en_map e @ [ident]) (en_kinds ec)"
        "settled (en_map e) (en_kinds e) \<and> ?acyclic \<longrightarrow> settled (en_map e @ [ident]) (en_kinds ec)" by simp_all
      from destroy_hierarchy [OF ok'(1) noroot] ok'(2) show ?thesis using assms(2) by (auto simp: e' remove1_append)
    qed
    then show ?thesis using map e'(1) by simp
  next
    case inr: (Inr u)
    have "en_kinds e' = en_kinds ec" "en_map e' = en_map ec @ [ident]"
      using assms(3) Inr conf inr by (auto simp: createKind_def Let_def split: option.splits)
    then show ?thesis using linked inr map by simp
  qed
qed

text \<open>
  C6. The hierarchy of the kinds is kept, whatever the kinds declare, cycles included. Putting a kind, whether it
  succeeds or fails at any point, keeps the links acyclic, the supers and subs mirrors of each other, and every super one
  that the kind declares, or the root alone, which gives way to any other. A kind that has been put has for its supers
  all others that it declares and that are there, or the root when there is none; a kind that declares it has it for a super, unless it is above it
  and the link would close a cycle. When nothing declared before or by the new kind forms a cycle and every kind had all the supers it
  declares, every kind has them afterwards, too (but for a kind that has lost its last super, which has none).
  A kind that has been deleted leaves such a hierarchy of the others. The two conditions: the kind that is put or deleted is not the root, and
  the object that is put does not name the root in its extends (\<open>addSuper_loses_supers\<close> shows what happens then).
\<close>

theorem hierarchy_kept:
  assumes "hierarchy_ok (en_map e) (en_kinds e)"
    and "\<forall>superIds. extends_of obj = Inr superIds \<longrightarrow> RootKindId \<notin> set superIds"
    and "\<forall>ident. getRequired_string ''id'' obj = Inr ident \<longrightarrow> ident \<noteq> RootKindId" "ident' \<noteq> RootKindId"
  shows "(case putKind L obj req builtin e of (r, e') \<Rightarrow> hierarchy_ok (en_map e') (en_kinds e') \<and>
      (r = Inr () \<longrightarrow> (\<exists>ident. getRequired_string ''id'' obj = Inr ident \<and> ident \<in> set (en_map e') \<and>
         set (supers_of (en_kinds e') ident) = resolved (en_map e') (en_kinds e') ident \<and>
         (\<forall>k \<in> set (en_map e'). ident \<in> set (superIds_of (en_kinds e') k) \<longrightarrow>
            ident \<in> set (supers_of (en_kinds e') k) \<or> k \<in> ancestors (en_kinds e') ident))) \<and>
      (settled (en_map e) (en_kinds e) \<and>
         (\<forall>ident superIds. getRequired_string ''id'' obj = Inr ident \<and> extends_of obj = Inr superIds \<longrightarrow> may_extend (en_kinds e) ident superIds) \<longrightarrow>
       settled (en_map e') (en_kinds e'))) \<and>
    (case delKind L ident' req e of (r, e') \<Rightarrow> r = Inr () \<longrightarrow>
      hierarchy_ok (en_map e') (en_kinds e') \<and> set (en_map e') = set (en_map e) - {ident'} \<and>
      (settled (en_map e) (en_kinds e) \<longrightarrow> settled (en_map e') (en_kinds e')))"
proof (intro conjI)
  let ?acyclic = "\<lambda>ident. \<forall>superIds. extends_of obj = Inr superIds \<longrightarrow> may_extend (en_kinds e) ident superIds"
  have M: "distinct (en_map e)" using assms(1) by (simp add: hierarchy_ok_def)
  have put: "hierarchy_ok (en_map e') (en_kinds e') \<and>
      (r = Inr () \<longrightarrow> ident \<in> set (en_map e') \<and> linked_in (en_map e') (en_kinds e') ident) \<and>
      (settled (en_map e) (en_kinds e) \<and> ?acyclic ident \<longrightarrow> settled (en_map e') (en_kinds e'))"
    if id: "getRequired_string ''id'' obj = Inr ident" and run: "putKind L obj req builtin e = (r, e')" for ident r e'
  proof (cases "ident \<in> set (en_map e)")
    case False
    then have "createKind L ident obj req builtin e = (r, e')" using run id by (simp add: putKind_def sbind_def sret_def)
    from createKind_hierarchy [OF assms(1) False this] show ?thesis using assms(2) by simp
  next
    case True
    then have conf: "kind_configure L ident obj (en_locale e) req e = (r, e')" using run id by (simp add: putKind_def sbind_def sret_def)
    have "with_new (en_map e) ident (en_kinds e)" using assms(1,3) True id by (auto simp: with_new_def hierarchy_ok_def)
    from configure_hierarchy [OF this conf] assms(2) have ok: "en_map e' = en_map e"
      "(\<exists>err. r = Inl err) \<and> same_links (en_kinds e) (en_kinds e') \<or>
       hierarchy_ok (en_map e) (en_kinds e') \<and> linked_in (en_map e) (en_kinds e') ident \<and>
         (settled (en_map e) (en_kinds e) \<and> ?acyclic ident \<longrightarrow> settled (en_map e) (en_kinds e'))"
      using M True by auto
    from ok(2) show ?thesis
    proof
      assume "(\<exists>err. r = Inl err) \<and> same_links (en_kinds e) (en_kinds e')"
      then show ?thesis using ok(1) hierarchy_same assms(1) by auto
    qed (use ok(1) True in simp)
  qed
  obtain r e' where run: "putKind L obj req builtin e = (r, e')" by fastforce
  show "case putKind L obj req builtin e of (r, e') \<Rightarrow> hierarchy_ok (en_map e') (en_kinds e') \<and>
      (r = Inr () \<longrightarrow> (\<exists>ident. getRequired_string ''id'' obj = Inr ident \<and> ident \<in> set (en_map e') \<and>
         set (supers_of (en_kinds e') ident) = resolved (en_map e') (en_kinds e') ident \<and>
         (\<forall>k \<in> set (en_map e'). ident \<in> set (superIds_of (en_kinds e') k) \<longrightarrow>
            ident \<in> set (supers_of (en_kinds e') k) \<or> k \<in> ancestors (en_kinds e') ident))) \<and>
      (settled (en_map e) (en_kinds e) \<and>
         (\<forall>ident superIds. getRequired_string ''id'' obj = Inr ident \<and> extends_of obj = Inr superIds \<longrightarrow> may_extend (en_kinds e) ident superIds) \<longrightarrow>
       settled (en_map e') (en_kinds e'))"
  proof (cases "getRequired_string ''id'' obj")
    case (Inl err)
    then show ?thesis using assms(1) by (simp add: putKind_def sbind_def sret_def)
  next
    case (Inr ident)
    then show ?thesis using put [OF Inr run] run unfolding linked_in_def by simp
  qed
  show "case delKind L ident' req e of (r, e') \<Rightarrow> r = Inr () \<longrightarrow>
      hierarchy_ok (en_map e') (en_kinds e') \<and> set (en_map e') = set (en_map e) - {ident'} \<and>
      (settled (en_map e) (en_kinds e) \<longrightarrow> settled (en_map e') (en_kinds e'))"
  proof (cases "ident' \<in> set (en_map e) \<and> (\<exists>e1. kind_drop L ident' req e = (Inr (), e1))")
    case False
    then show ?thesis using assms(1) by (auto simp: delKind_def sbind_def split: prod.splits sum.splits)
  next
    case True
    then obtain e1 where e1: "kind_drop L ident' req e = (Inr (), e1)" by blast
    obtain e0 where e0: "same_links (en_kinds e) (en_kinds e0)" "en_map e0 = en_map e" "kind_close ident' e0 = (Inr (), e1)"
      using drop_close [OF e1] by blast
    have "hierarchy_ok (en_map e) (en_kinds e0)" using hierarchy_same(1) [OF e0(1)] assms(1) by simp
    from destroy_cleared [OF this assms(4) e0(3)] M e0(2) e1 True hierarchy_same(4) [OF e0(1)] show ?thesis
      by (auto simp: delKind_def sbind_def destroy_map)
  qed
qed

definition kinds_ex :: kinds where
  "kinds_ex = [RootKindId \<mapsto> (kind_new True)\<lparr>k_id := RootKindId, k_subs := [''B:1'']\<rparr>,
     ''B:1'' \<mapsto> (kind_new False)\<lparr>k_id := ''B:1'', k_supers := [RootKindId]\<rparr>]"

definition engine_ex :: "dbkey option kind_engine" where
  "engine_ex = \<lparr>en_kinds = kinds_ex, en_map = [RootKindId, ''B:1''], en_tokens = (\<lambda>_. None), en_locale = [], en_perms = perm_new,
     en_env = env_ex, en_txns = (\<lambda>_. \<lparr>t_store = [], t_answers = [], t_reports = True, t_watchers = [], t_misses = 0\<rparr>)\<rparr>"

definition engine_lib_ex :: "dbkey option engine_lib" where
  "engine_lib_ex = \<lparr>ee_icu = icu_ex, ee_schema = schema_env_ex, ee_rand = (\<lambda>_. 0), ee_iters = (\<lambda>_. list_ldb []),
     ee_status = (\<lambda>_. None), ee_mem = (\<lambda>_. watcher_new), ee_find = (\<lambda>_ _. Inr [])\<rparr>"

definition kind_obj_ex :: obj where
  "kind_obj_ex = OObject [(''extends'', OArray [OString ''B:1'']), (''id'', OString ''A:1''), (''owner'', OString ''me'')]"

lemma of_kinds_ex:
  "supers_of kinds_ex k = (if k = ''B:1'' then [RootKindId] else [])" "subs_of kinds_ex k = (if k = RootKindId then [''B:1''] else [])"
  "superIds_of kinds_ex k = []"
  by (simp_all add: kinds_ex_def supers_of_def subs_of_def superIds_of_def kind_new_def RootKindId_def)

lemma hierarchy_ex: "hierarchy_ok (en_map engine_ex) (en_kinds engine_ex)"
proof -
  have "dom kinds_ex = {RootKindId, ''B:1''}" by (auto simp: kinds_ex_def)
  moreover have "mirror kinds_ex" by (simp add: mirror_def of_kinds_ex)
  moreover have "links kinds_ex = {(''B:1'', RootKindId)}" by (auto simp: links_def of_kinds_ex)
  then have "acyclic (links kinds_ex)" using acyclic_insert [of "''B:1''" RootKindId "{}"] by (simp add: acyclic_def RootKindId_def)
  ultimately have "links_ok kinds_ex" by (simp add: links_ok_def of_kinds_ex RootKindId_def)
  then show ?thesis
    using \<open>dom kinds_ex = _\<close> by (simp add: hierarchy_ok_def engine_ex_def RootKindId_def)
qed

lemma kind_obj_ex_fields: "getRequired_string ''id'' kind_obj_ex = Inr ''A:1''" "extends_of kind_obj_ex = Inr [''B:1'']"
  by code_simp+

theorem hierarchy_kept_witness:
  "(case putKind engine_lib_ex kind_obj_ex \<lparr>rq_domain = ''me'', rq_admin = False, rq_fixmode = False\<rparr> False engine_ex of
      (r, e') \<Rightarrow> hierarchy_ok (en_map e') (en_kinds e') \<and>
        (r = Inr () \<longrightarrow> set (supers_of (en_kinds e') ''A:1'') = resolved (en_map e') (en_kinds e') ''A:1'')) \<and>
   (case delKind engine_lib_ex ''B:1'' \<lparr>rq_domain = ''me'', rq_admin = True, rq_fixmode = False\<rparr> engine_ex of
      (r, e') \<Rightarrow> r = Inr () \<longrightarrow> hierarchy_ok (en_map e') (en_kinds e'))"
proof -
  have noroot: "\<forall>superIds. extends_of kind_obj_ex = Inr superIds \<longrightarrow> RootKindId \<notin> set superIds"
    "\<forall>ident. getRequired_string ''id'' kind_obj_ex = Inr ident \<longrightarrow> ident \<noteq> RootKindId" "''B:1'' \<noteq> RootKindId"
    by (simp_all add: kind_obj_ex_fields RootKindId_def)
  show ?thesis
    using hierarchy_kept [OF hierarchy_ex noroot, of engine_lib_ex "\<lparr>rq_domain = ''me'', rq_admin = False, rq_fixmode = False\<rparr>" False]
      hierarchy_kept [OF hierarchy_ex noroot, of engine_lib_ex "\<lparr>rq_domain = ''me'', rq_admin = True, rq_fixmode = False\<rparr>"]
    by (auto simp: kind_obj_ex_fields split: prod.splits)
qed

text \<open>A kind that gives up its only super is back under the root, but its objects leave the indexes of the root.\<close>

lemma moveObject_leaves_root:
  assumes "h super = Some d" "k_supers d = [RootKindId]" "k_indexes d = []" "super \<noteq> RootKindId"
    and "h RootKindId = Some r" "k_supers r = []" "k_indexes r = [(ix, x)]"
    and "index_update ix x None (Some obj) fixmode (t (i_id ix)) = Inr t'"
  shows "moveObject (Suc (Suc n)) h fixmode [] [super] t obj = Inr (t(i_id ix := t'))"
  using assms by (simp add: moveObject_def updateOwnIndexes_def supers_of_def)

end
