(* ===== verification/DbInherit.thy ===== *)
theory DbInherit
  imports DbEngine
begin

text \<open>
  What a kind inherits: an update of an object reaches the indexes of every kind above it once
  (\<^verbatim>\<open>MojDbKind::updateIndexes\<close>), and a permission is that of the nearest first super that has one
  (\<^verbatim>\<open>MojDbKind::checkPermission\<close>).
\<close>

lemma ancestors_fuel:
  assumes "hierarchy_ok (en_map e) (en_kinds e)" "ident \<in> set (en_map e)"
  shows "card (ancestors (en_kinds e) ident) \<le> en_fuel e"
proof -
  have ok: "links_ok (en_kinds e)" "dom (en_kinds e) = set (en_map e)" using assms(1) by (simp_all add: hierarchy_ok_def)
  have "ancestors (en_kinds e) ident \<subseteq> set (en_map e)" using ancestors_dom [OF ok(1), of ident] ok(2) assms(2) by blast
  then have "card (ancestors (en_kinds e) ident) \<le> length (en_map e)" by (meson card_length card_mono List.finite_set le_trans)
  then show ?thesis by (simp add: en_fuel_def)
qed

section \<open>Indexes\<close>

definition indexes_of :: "kinds \<Rightarrow> string \<Rightarrow> (db_index \<times> windex) list" where
  "indexes_of h k = (case h k of Some d \<Rightarrow> k_indexes d | None \<Rightarrow> [])"

definition index_ids :: "kinds \<Rightarrow> string \<Rightarrow> obj list" where
  "index_ids h k = map (\<lambda>p. i_id (fst p)) (indexes_of h k)"

text \<open>No two indexes have the same id, as the sequence that the ids are drawn from takes care of.\<close>

definition index_ids_ok :: "kinds \<Rightarrow> bool" where
  "index_ids_ok h \<longleftrightarrow> (\<forall>k. distinct (index_ids h k)) \<and> (\<forall>k k'. k \<noteq> k' \<longrightarrow> set (index_ids h k) \<inter> set (index_ids h k') = {})"

definition update_one ::
  "obj option \<Rightarrow> obj option \<Rightarrow> bool \<Rightarrow> index_txns \<Rightarrow> db_index \<times> windex \<Rightarrow> index_txns res" where
  "update_one newObj oldObj fixmode t p =
     rbind (index_update (fst p) (snd p) newObj oldObj fixmode (t (i_id (fst p)))) (\<lambda>it. Inr (t(i_id (fst p) := it)))"

lemma updateOwnIndexes_run: "updateOwnIndexes h newObj oldObj fixmode t k = run (update_one newObj oldObj fixmode) t (indexes_of h k)"
  unfolding updateOwnIndexes_def indexes_of_def by (rule arg_cong [of _ _ "\<lambda>f. run f t _"]) (auto simp: fun_eq_iff update_one_def)

lemma run_concat: "run (\<lambda>t k. run f t (g k)) t ks = run f t (concat (map g ks))"
  by (induction ks arbitrary: t) (simp_all add: run_append)

lemma update_all:
  assumes "distinct (map (\<lambda>p. i_id (fst p)) ps)"
  shows "case run (update_one newObj oldObj fixmode) t ps of
      Inr t' \<Rightarrow> (\<forall>p \<in> set ps. index_update (fst p) (snd p) newObj oldObj fixmode (t (i_id (fst p))) = Inr (t' (i_id (fst p)))) \<and>
        (\<forall>i. i \<notin> (\<lambda>p. i_id (fst p)) ` set ps \<longrightarrow> t' i = t i)
    | Inl err \<Rightarrow> \<exists>p \<in> set ps. index_update (fst p) (snd p) newObj oldObj fixmode (t (i_id (fst p))) = Inl err"
  using assms
proof (induction ps arbitrary: t)
  case (Cons p ps)
  show ?case
  proof (cases "index_update (fst p) (snd p) newObj oldObj fixmode (t (i_id (fst p)))")
    case (Inl err)
    then show ?thesis by (auto simp: update_one_def)
  next
    case (Inr it)
    let ?t = "t(i_id (fst p) := it)"
    have fresh: "i_id (fst q) \<noteq> i_id (fst p)" if "q \<in> set ps" for q
      using that Cons.prems by simp (metis imageI)
    then have other: "?t (i_id (fst q)) = t (i_id (fst q))" if "q \<in> set ps" for q using that by simp
    have one: "run (update_one newObj oldObj fixmode) t (p # ps) = run (update_one newObj oldObj fixmode) ?t ps"
      using Inr by (simp add: update_one_def)
    have IH: "case run (update_one newObj oldObj fixmode) ?t ps of
        Inr t' \<Rightarrow> (\<forall>p \<in> set ps. index_update (fst p) (snd p) newObj oldObj fixmode (?t (i_id (fst p))) = Inr (t' (i_id (fst p)))) \<and>
          (\<forall>i. i \<notin> (\<lambda>p. i_id (fst p)) ` set ps \<longrightarrow> t' i = ?t i)
      | Inl err \<Rightarrow> \<exists>p \<in> set ps. index_update (fst p) (snd p) newObj oldObj fixmode (?t (i_id (fst p))) = Inl err"
      by (rule Cons.IH) (use Cons.prems in simp)
    show ?thesis
    proof (cases "run (update_one newObj oldObj fixmode) ?t ps")
      case (Inl err)
      then obtain q where "q \<in> set ps" "index_update (fst q) (snd q) newObj oldObj fixmode (?t (i_id (fst q))) = Inl err"
        using IH by auto
      then show ?thesis using Inl one other [of q] by auto
    next
      case inr: (Inr t')
      have "t' (i_id (fst p)) = it" using IH inr Cons.prems by auto
      moreover have "index_update (fst q) (snd q) newObj oldObj fixmode (t (i_id (fst q))) = Inr (t' (i_id (fst q)))" if "q \<in> set ps" for q
        using IH inr that other [OF that] by auto
      ultimately show ?thesis using IH inr one Inr by auto
    qed
  qed
qed simp

text \<open>
  C7. When the hierarchy is as the engine keeps it and no two indexes share an id, an update of an object of a kind
  updates each index of the kind and of every kind above it, on whatever ways, exactly once, from the index's state
  before, and no other index; it fails only if the update of one of these indexes fails.
\<close>

theorem update_once:
  assumes "hierarchy_ok (en_map e) (en_kinds e)" "ident \<in> set (en_map e)" "index_ids_ok (en_kinds e)"
  shows "case updateIndexes (en_fuel e) (en_kinds e) newObj oldObj fixmode ident ([], t) of
      Inr (kindVec, t') \<Rightarrow> set kindVec = ancestors (en_kinds e) ident \<and>
        (\<forall>k \<in> ancestors (en_kinds e) ident. \<forall>p \<in> set (indexes_of (en_kinds e) k).
           index_update (fst p) (snd p) newObj oldObj fixmode (t (i_id (fst p))) = Inr (t' (i_id (fst p)))) \<and>
        (\<forall>i. (\<forall>k \<in> ancestors (en_kinds e) ident. i \<notin> set (index_ids (en_kinds e) k)) \<longrightarrow> t' i = t i)
    | Inl err \<Rightarrow> \<exists>k \<in> ancestors (en_kinds e) ident. \<exists>p \<in> set (indexes_of (en_kinds e) k).
        index_update (fst p) (snd p) newObj oldObj fixmode (t (i_id (fst p))) = Inl err"
proof -
  let ?h = "en_kinds e"
  have ok: "links_ok ?h" "dom ?h = set (en_map e)" using assms(1) by (simp_all add: hierarchy_ok_def)
  have fuel: "card (ancestors ?h ident) \<le> en_fuel e"
    using ancestors_fuel [OF assms(1,2)] .
  obtain order kindVec where o: "\<And>t. updateIndexes (en_fuel e) ?h newObj oldObj fixmode ident ([], t) =
      rbind (run (updateOwnIndexes ?h newObj oldObj fixmode) t order) (\<lambda>t. Inr (kindVec, t))"
    "set kindVec = ancestors ?h ident" "distinct order" "set order = ancestors ?h ident"
    using updateIndexes_order [OF links_graph [OF ok(1)] fuel, of "[]" newObj oldObj fixmode] by auto
  let ?ps = "concat (map (indexes_of ?h) order)"
  have run: "run (updateOwnIndexes ?h newObj oldObj fixmode) t order = run (update_one newObj oldObj fixmode) t ?ps"
    using run_concat [of "update_one newObj oldObj fixmode" "indexes_of ?h" t order] by (simp add: updateOwnIndexes_run [abs_def])
  have "distinct (concat (map (index_ids ?h) order))" using o(3)
  proof (induction order)
    case (Cons k ks)
    have "set (index_ids ?h k) \<inter> set (index_ids ?h k') = {}" if "k' \<in> set ks" for k'
      using that Cons.prems assms(3) unfolding index_ids_ok_def by (metis distinct.simps(2))
    then show ?case using Cons assms(3) by (auto simp: index_ids_ok_def)
  qed simp
  then have "distinct (map (\<lambda>p. i_id (fst p)) ?ps)" by (simp add: map_concat index_ids_def [abs_def] comp_def)
  from update_all [OF this, of newObj oldObj fixmode t] show ?thesis
    unfolding o(1) run using o(2,4)
    by (cases "run (update_one newObj oldObj fixmode) t ?ps") (force simp: index_ids_def)+
qed

definition index_ex' :: "i64 \<Rightarrow> db_index \<times> windex" where
  "index_ex' i = (index_new\<lparr>i_id := OInt i, i_open := True\<rparr>, windex_new (\<lambda>_. watcher_new))"

definition indexed_ex :: "dbkey option kind_engine" where
  "indexed_ex = engine_ex\<lparr>en_kinds := on_kind RootKindId (k_indexes_update (\<lambda>_. [index_ex' 1]))
     (on_kind ''B:1'' (k_indexes_update (\<lambda>_. [index_ex' 2])) kinds_ex)\<rparr>"

lemma indexed_ex_ok: "hierarchy_ok (en_map indexed_ex) (en_kinds indexed_ex)" "index_ids_ok (en_kinds indexed_ex)"
proof -
  have "same_links kinds_ex (en_kinds indexed_ex)"
    by (simp add: indexed_ex_def) (rule same_links_trans [OF same_links_on same_links_on]; simp)
  then show "hierarchy_ok (en_map indexed_ex) (en_kinds indexed_ex)"
    using hierarchy_ex hierarchy_same(1) by (simp add: indexed_ex_def engine_ex_def)
  have "index_ids (en_kinds indexed_ex) k = (if k = RootKindId then [OInt 1] else if k = ''B:1'' then [OInt 2] else [])" for k
    by (simp add: index_ids_def indexes_of_def indexed_ex_def kinds_ex_def on_kind_def RootKindId_def index_ex'_def)
  then show "index_ids_ok (en_kinds indexed_ex)" by (auto simp: index_ids_ok_def)
qed

theorem update_once_witness:
  "case updateIndexes (en_fuel indexed_ex) (en_kinds indexed_ex) (Some (OObject [])) None False ''B:1''
      ([], \<lambda>_. \<lparr>t_store = [], t_answers = [], t_reports = True, t_watchers = [], t_misses = 0\<rparr>) of
     Inr (kindVec, t') \<Rightarrow> set kindVec = ancestors (en_kinds indexed_ex) ''B:1''
   | Inl err \<Rightarrow> True"
  using update_once [OF indexed_ex_ok(1) _ indexed_ex_ok(2), of "''B:1''" "Some (OObject [])" None False
      "\<lambda>_. \<lparr>t_store = [], t_answers = [], t_reports = True, t_watchers = [], t_misses = 0\<rparr>"]
  by (auto simp: indexed_ex_def engine_ex_def split: sum.splits prod.splits)

section \<open>Permissions\<close>

text \<open>A kind, its first super, the first super of that, and so on.\<close>

fun lineage :: "kinds \<Rightarrow> string list \<Rightarrow> bool" where
  "lineage h [] \<longleftrightarrow> False"
| "lineage h [k] \<longleftrightarrow> True"
| "lineage h (k # s # ks) \<longleftrightarrow> supers_of h k \<noteq> [] \<and> s = hd (supers_of h k) \<and> lineage h (s # ks)"

definition allowed :: "kinds \<Rightarrow> (string \<Rightarrow> perm_value) \<Rightarrow> string \<Rightarrow> bool" where
  "allowed h perms k \<longleftrightarrow> (\<exists>ks. lineage h (k # ks) \<and> (\<forall>s \<in> set (butlast (k # ks)). perms s = ValueUndefined) \<and>
     perms (last (k # ks)) = ValueAllow)"

lemma butlast_Cons2: "butlast (k # s # ks) = k # butlast (s # ks)" "last (k # s # ks) = last (s # ks)"
  by simp_all

lemma allowed_unfold:
  "allowed h perms k \<longleftrightarrow>
     (if perms k = ValueUndefined then supers_of h k \<noteq> [] \<and> allowed h perms (hd (supers_of h k)) else perms k = ValueAllow)"
proof
  assume "allowed h perms k"
  then obtain ks where ks: "lineage h (k # ks)" "\<forall>s \<in> set (butlast (k # ks)). perms s = ValueUndefined" "perms (last (k # ks)) = ValueAllow"
    by (auto simp: allowed_def)
  show "if perms k = ValueUndefined then supers_of h k \<noteq> [] \<and> allowed h perms (hd (supers_of h k)) else perms k = ValueAllow"
  proof (cases ks)
    case Nil
    then show ?thesis using ks by simp
  next
    case (Cons s ss)
    then have "supers_of h k \<noteq> []" "s = hd (supers_of h k)" "allowed h perms s" "perms k = ValueUndefined"
      using ks by (auto simp only: allowed_def lineage.simps butlast_Cons2 list.set insert_iff)
    then show ?thesis by simp
  qed
next
  assume a: "if perms k = ValueUndefined then supers_of h k \<noteq> [] \<and> allowed h perms (hd (supers_of h k)) else perms k = ValueAllow"
  show "allowed h perms k"
  proof (cases "perms k = ValueUndefined")
    case True
    then obtain ks where ks: "lineage h (hd (supers_of h k) # ks)"
      "\<forall>s \<in> set (butlast (hd (supers_of h k) # ks)). perms s = ValueUndefined" "perms (last (hd (supers_of h k) # ks)) = ValueAllow"
      "supers_of h k \<noteq> []"
      using a by (auto simp: allowed_def)
    then show ?thesis
      unfolding allowed_def using True
      by (intro exI [of _ "hd (supers_of h k) # ks"]) (simp only: lineage.simps butlast_Cons2 list.set ball_simps simp_thms)
  next
    case False
    then show ?thesis using a unfolding allowed_def by (intro exI [of _ "[]"]) simp
  qed
qed

lemma objectPermission_lineage:
  assumes "graph_ok h" "\<And>k. perm_check pe PermissionType k (rq_domain req) opStr = Inr (perms k)"
  shows "card (ancestors h k) \<le> n \<Longrightarrow> \<exists>val. objectPermission n pe h k opStr req = Inr val \<and> (val = ValueAllow \<longleftrightarrow> allowed h perms k)"
proof (induction n arbitrary: k)
  case 0
  then show ?case using above_pos [OF assms(1), of k] by simp
next
  case (Suc n)
  obtain m where m: "Suc n = Suc m" "\<And>s. s \<in> set (supers_of h k) \<Longrightarrow> card (ancestors h s) \<le> m"
    using fuel_cases [OF assms(1) Suc.prems] by blast
  show ?case
  proof (cases "perms k = ValueUndefined \<and> supers_of h k \<noteq> []")
    case True
    then have "card (ancestors h (hd (supers_of h k))) \<le> n" using m by simp
    from Suc.IH [OF this] True show ?thesis by (simp add: assms(2) allowed_unfold [of h perms k])
  next
    case False
    then show ?thesis by (auto simp: assms(2) allowed_unfold [of h perms k])
  qed
qed

text \<open>
  C8. Who may do what: an administrator and the owner of a kind may do anything with its objects; anybody else may not
  change the kind, and may do what the nearest of the kind, its first super, the first super of that and so on that has a
  permission for it allows. When permissions are switched off nobody is denied. The check always comes to
  a result.
\<close>

theorem permission_inherited:
  assumes "hierarchy_ok (en_map e) (en_kinds e)" "ident \<in> set (en_map e)"
    and "\<forall>k. perm_check (en_perms e) PermissionType k (rq_domain req) (stringFromOperation opn) = Inr (perms k)"
  shows "kind_checkPermission (en_fuel e) (en_perms e) (en_kinds e) ident opn req =
    (if \<not> pe_enabled (en_perms e) \<or> rq_admin req \<or> rq_domain req = owner_of (en_kinds e) ident \<or>
        opn \<noteq> DbOpKindUpdate \<and> allowed (en_kinds e) perms ident
     then Inr () else Inl MojErrDbPermissionDenied)"
proof -
  have "links_ok (en_kinds e)" using assms(1) by (simp add: hierarchy_ok_def)
  from objectPermission_lineage [OF links_graph [OF this] assms(3) [rule_format] ancestors_fuel [OF assms(1,2)]]
  show ?thesis by (auto simp: kind_checkPermission_def hasOwnerPermission_def kind_deny_def)
qed

definition perms_ex :: perm_engine where
  "perms_ex = perm_update PermissionType RootKindId ''you'' [(''read'', ValueAllow)] perm_new"

lemma perms_ex_check:
  "perm_check perms_ex PermissionType k ''you'' ''read'' = Inr (if cstr k = RootKindId then ValueAllow else ValueUndefined)"
proof -
  have c: "cstr RootKindId = RootKindId" "cstr PermissionType = PermissionType" by code_simp+
  have f: "perm_find [(''you'', [(''read'', ValueAllow)])] ''you'' = Inr (Some [(''read'', ValueAllow)])"
    "map_get MojStrCmp ''read'' [(''read'', ValueAllow)] = Some ValueAllow"
    by code_simp+
  show ?thesis by (simp add: perm_check_def perms_ex_def perm_update_def perm_new_def c f)
qed

theorem permission_inherited_witness:
  "kind_checkPermission 3 perms_ex kinds_ex ''B:1'' DbOpRead \<lparr>rq_domain = ''you'', rq_admin = False, rq_fixmode = False\<rparr> = Inr ()"
proof -
  let ?e = "engine_ex\<lparr>en_perms := perms_ex\<rparr>" and ?perms = "\<lambda>k. if cstr k = RootKindId then ValueAllow else ValueUndefined"
  have perms: "\<forall>k. perm_check (en_perms ?e) PermissionType k (rq_domain \<lparr>rq_domain = ''you'', rq_admin = False, rq_fixmode = False\<rparr>)
      (stringFromOperation DbOpRead) = Inr (?perms k)"
    using perms_ex_check by simp
  have ok: "hierarchy_ok (en_map ?e) (en_kinds ?e)" "''B:1'' \<in> set (en_map ?e)" using hierarchy_ex by (simp_all add: engine_ex_def)
  have "cstr ''B:1'' \<noteq> RootKindId" "cstr RootKindId = RootKindId" by code_simp+
  then have "allowed kinds_ex ?perms ''B:1''"
    by (simp add: allowed_unfold [of kinds_ex ?perms "''B:1''"] allowed_unfold [of kinds_ex ?perms RootKindId] of_kinds_ex)
  then show ?thesis using permission_inherited [OF ok perms] by (simp add: engine_ex_def en_fuel_def numeral_3_eq_3)
qed

end
