(* ===== verification/DbHeader.thy ===== *)
theory DbHeader
  imports ObjMaps DbEngine
begin

text \<open>
  How an object is stored: its id, kind and revision go into a header (\<^verbatim>\<open>src/db/MojDbObjectHeader.cpp\<close>), the rest is
  written with the tokens of its kind; and how an item of the store is read back
  (\<^verbatim>\<open>src/db-engine/leveldb/MojDbLevelItem.cpp\<close>, \<^verbatim>\<open>src/db/MojDbStorageItem.cpp\<close>).
\<close>

section \<open>MojDbObjectHeader\<close>

definition HeaderVersion :: byte where "HeaderVersion = 1"

record 'k obj_header =
  h_reader :: "'k obj_reader"
  h_id :: obj
  h_kindId :: string
  h_rev :: i64
  h_del :: bool
  h_read :: bool

definition header_new :: "'k obj_header" where
  "header_new = \<lparr>h_reader = \<lparr>r_reader = [], r_stack = [], r_skipBeginObj = False, r_tokenSet = None\<rparr>, h_id = OUndefined,
     h_kindId = [], h_rev = 0, h_del = False, h_read = False\<rparr>"

definition header_of :: "obj \<Rightarrow> 'k obj_header" where
  "header_of ident = header_new\<lparr>h_id := ident\<rparr>"

definition header_addTo :: "'k obj_header \<Rightarrow> obj \<Rightarrow> obj" where
  "header_addTo h obj =
     (let obj = obj_put IdKey (h_id h) obj;
          obj = obj_put RevKey (OInt (h_rev h)) obj;
          obj = obj_put KindKey (OString (h_kindId h)) obj in
      if h_del h then obj_put DelKey (OBool (h_del h)) obj else obj)"

text \<open>The flag of a deleted object is not taken out of it.\<close>

definition header_extractFrom :: "'k obj_header \<Rightarrow> obj \<Rightarrow> ('k obj_header \<times> obj) res" where
  "header_extractFrom h obj =
     (let (found, obj) = obj_del IdKey obj in
      if \<not> found then Inl MojAssertFailed
      else
        rbind (getRequired_string KindKey obj) (\<lambda>kindId.
        let (found, obj) = obj_del KindKey obj in
        rbind (getRequired_int MojStrToInt64 RevKey obj) (\<lambda>rev.
        let (found, obj) = obj_del RevKey obj;
            del = (case get_bool DelKey obj of Some True \<Rightarrow> True | _ \<Rightarrow> h_del h) in
        Inr (h\<lparr>h_kindId := kindId, h_rev := rev, h_del := del\<rparr>, obj))))"

definition header_write :: "(string \<Rightarrow> i64 res) \<Rightarrow> 'k obj_header \<Rightarrow> byte list res" where
  "header_write tokOf h =
     rbind (tokOf (h_kindId h)) (\<lambda>kindTok.
     rbind (run (writer_ev (\<lambda>_ _. Inl MojErrNotFound)) \<lparr>w_buf = writeUInt8 HeaderVersion, w_tokenSet = (None :: unit token_set option)\<rparr>
              ([IntValue kindTok, IntValue (h_rev h)] @ (if h_del h then [BoolValue True] else []))) (\<lambda>w.
       Inr (w_buf w @ writeUInt8 MarkerHeaderEnd)))"

text \<open>One step of the header's reader, into a builder; its data reader; what comes next.\<close>

definition header_next :: "builder \<Rightarrow> ('k obj_header, builder) step" where
  "header_next b = (\<lambda>h.
     case reader_next (h_reader h) of
       Inl err \<Rightarrow> (Inl err, h)
     | Inr (es, rd) \<Rightarrow> (run builder_ev b es, h\<lparr>h_reader := rd\<rparr>))"

definition header_readUInt8 :: "('k obj_header, byte) step" where
  "header_readUInt8 = (\<lambda>h.
     case readUInt8 (r_reader (h_reader h)) of
       Inl err \<Rightarrow> (Inl err, h)
     | Inr (v, r) \<Rightarrow> (Inr v, h\<lparr>h_reader := (h_reader h)\<lparr>r_reader := r\<rparr>\<rparr>))"

definition reader_peek :: "'k obj_reader \<Rightarrow> byte option" where
  "reader_peek rd = (case r_reader rd of [] \<Rightarrow> None | b # _ \<Rightarrow> Some b)"

text \<open>What a later version may have added to the header is eaten.\<close>

function reader_eat :: "'k obj_reader \<Rightarrow> 'k obj_reader res \<times> 'k obj_reader" where
  "reader_eat rd =
     (if reader_peek rd = Some MarkerHeaderEnd then (Inr rd, rd)
      else case reader_next rd of
        Inl err \<Rightarrow> (Inl err, rd)
      | Inr (es, rd') \<Rightarrow> reader_eat rd')"
  by pat_completeness auto
termination by (relation "measure (\<lambda>rd. length (r_reader rd))") (auto dest!: reader_next_shrinks)

declare reader_eat.simps [simp del]

definition header_eat :: "('k obj_header, unit) step" where
  "header_eat = (\<lambda>h.
     case reader_eat (h_reader h) of
       (Inl err, rd) \<Rightarrow> (Inl err, h\<lparr>h_reader := rd\<rparr>)
     | (Inr _, rd) \<Rightarrow> (Inr (), h\<lparr>h_reader := rd\<rparr>))"

definition header_readDel :: "builder \<Rightarrow> ('k obj_header, unit) step" where
  "header_readDel b = (\<lambda>h.
     if reader_peek (h_reader h) \<noteq> Some MarkerHeaderEnd
     then sbind (header_next b) (\<lambda>b. smod (h_del_update (\<lambda>_. boolValue (m_obj b)))) h
     else (Inr (), h))"

text \<open>The header is read once; it counts as read even when that fails.\<close>

definition header_read :: "(i64 \<Rightarrow> string res) \<Rightarrow> ('k obj_header, unit) step" where
  "header_read idOf = (\<lambda>h.
     if h_read h then (Inr (), h)
     else
       (sbind (smod (h_read_update (\<lambda>_. True))) (\<lambda>_.
        sbind header_readUInt8 (\<lambda>version.
        if version \<noteq> HeaderVersion then sret (Inl MojErrDbHeaderVersionMismatch)
        else
          sbind (header_next builder_reset) (\<lambda>b.
          sbind (sret (idOf (intValueWith MojStrToInt64 (m_obj b)))) (\<lambda>kindId.
          sbind (smod (h_kindId_update (\<lambda>_. kindId))) (\<lambda>_.
          sbind (header_next b) (\<lambda>b.
          sbind (smod (h_rev_update (\<lambda>_. intValueWith MojStrToInt64 (m_obj b)))) (\<lambda>_.
          sbind (header_readDel b) (\<lambda>_.
          sbind header_eat (\<lambda>_.
          sbind header_readUInt8 (\<lambda>_.
            sret (Inr ())))))))))))) h)"

text \<open>The header's part of the object, whose beginning the reader of the body then leaves out.\<close>

definition header_visit ::
  "(i64 \<Rightarrow> string res) \<Rightarrow> ('s \<Rightarrow> ev \<Rightarrow> 's res) \<Rightarrow> 's \<Rightarrow> ('k obj_header, 's) step" where
  "header_visit idOf visitor s =
     sbind (header_read idOf) (\<lambda>_.
     sbind (smod (h_reader_update (r_skipBeginObj_update (\<lambda>_. True)))) (\<lambda>_ h.
       (run visitor s ([BeginObject] @ objectProp IdKey (h_id h) @ stringProp KindKey (h_kindId h) @ intProp RevKey (h_rev h) @
          (if h_del h then boolProp DelKey (h_del h) else [])), h)))"

text \<open>New data leaves the stack of the reader alone.\<close>

definition reader_data :: "byte list \<Rightarrow> 'k obj_reader \<Rightarrow> 'k obj_reader" where
  "reader_data bytes rd = rd\<lparr>r_reader := bytes, r_skipBeginObj := False, r_tokenSet := None\<rparr>"

definition header_reset :: "'k obj_header \<Rightarrow> 'k obj_header" where
  "header_reset h = h\<lparr>h_id := OUndefined, h_kindId := [], h_rev := 0, h_del := False, h_read := False, h_reader := reader_data [] (h_reader h)\<rparr>"

section \<open>MojDbLevelItem\<close>

record 'k level_item =
  li_data :: "byte list"
  li_header :: "'k obj_header"

definition item_setData :: "byte list \<Rightarrow> 'k level_item \<Rightarrow> 'k level_item" where
  "item_setData bytes it = it\<lparr>li_data := bytes, li_header := (header_reset (li_header it))\<lparr>h_reader := reader_data bytes (h_reader (header_reset (li_header it)))\<rparr>\<rparr>"

definition item_new :: "byte list \<Rightarrow> 'k level_item" where
  "item_new bytes = item_setData bytes \<lparr>li_data = [], li_header = header_new\<rparr>"

definition item_id :: "obj \<Rightarrow> 'k level_item \<Rightarrow> 'k level_item" where
  "item_id ident it =
     (let h = (header_reset (li_header it))\<lparr>h_id := ident\<rparr> in
      it\<lparr>li_header := h\<lparr>h_reader := reader_data (li_data it) (h_reader h)\<rparr>\<rparr>)"

definition on_header :: "('k obj_header, 'a) step \<Rightarrow> ('k level_item, 'a) step" where
  "on_header m = (\<lambda>it. let (r, h) = m (li_header it) in (r, it\<lparr>li_header := h\<rparr>))"

definition item_kindId :: "(i64 \<Rightarrow> string res) \<Rightarrow> ('k level_item, string) step" where
  "item_kindId idOf = on_header (sbind (header_read idOf) (\<lambda>_. sget (\<lambda>h. Inr (h_kindId h))))"

text \<open>\<open>tokens\<close> is that of the kind engine. The reader keeps pointing to the set after the visit is over.\<close>

definition item_visit ::
  "(i64 \<Rightarrow> string res) \<Rightarrow> (string \<Rightarrow> 'k token_set res) \<Rightarrow> ('s \<Rightarrow> ev \<Rightarrow> 's res) \<Rightarrow> 's \<Rightarrow> bool \<Rightarrow> ('k level_item, 's) step" where
  "item_visit idOf tokens visitor s headerExpected =
     (if headerExpected then
        on_header
          (sbind (header_visit idOf visitor s) (\<lambda>s.
           sbind (sget (\<lambda>h. tokens (h_kindId h))) (\<lambda>ts.
           sbind (smod (h_reader_update (r_tokenSet_update (\<lambda>_. Some ts)))) (\<lambda>_ h.
             case reader_read visitor s (h_reader h) of
               Inl err \<Rightarrow> (Inl err, h)
             | Inr (s, rd) \<Rightarrow> (Inr s, h\<lparr>h_reader := rd\<rparr>)))))
      else sget (\<lambda>it. rbind (reader_read visitor s (reader_init (li_data it))) (\<lambda>(s, _). Inr s)))"

definition sitem_toObject ::
  "(i64 \<Rightarrow> string res) \<Rightarrow> (string \<Rightarrow> 'k token_set res) \<Rightarrow> bool \<Rightarrow> ('k level_item, obj) step" where
  "sitem_toObject idOf tokens headerExpected =
     sbind (item_visit idOf tokens builder_ev builder_reset headerExpected) (\<lambda>b. sret (Inr (m_obj b)))"

text \<open>What \<^verbatim>\<open>MojDb::putObj\<close> stores of an object: the header, and the rest with the tokens of the kind.\<close>

definition serialize_obj ::
  "'k add_token \<Rightarrow> (string \<Rightarrow> i64 res) \<Rightarrow> obj \<Rightarrow> 'k token_set \<Rightarrow> obj \<Rightarrow> ('k obj_header \<times> obj \<times> byte list \<times> 'k token_set option) res" where
  "serialize_obj add tokOf putId tokens obj =
     rbind (header_extractFrom (header_of putId) obj) (\<lambda>(header, obj).
     rbind (header_write tokOf header) (\<lambda>buf.
     rbind (run (writer_ev add) \<lparr>w_buf = buf, w_tokenSet = Some tokens\<rparr> (obj_visit obj)) (\<lambda>w.
       Inr (header, obj, w_buf w, w_tokenSet w))))"

section \<open>What comes back\<close>

context reader_loop
begin

text \<open>The properties of an object that has been begun.\<close>

lemma loop_props:
  assumes "list_all2 (\<lambda>p bs. \<exists>b b'. bs = b @ b' \<and> tok_str names (fst p) b \<and> tok_enc names (snd p) b') ps bss"
    and "reads_names ts names" "\<forall>p \<in> set ps. nonul (fst p) \<and> wf_obj (snd p)"
  shows "loop s (rd_at ts (RStateObject # st) (concat bss @ r)) =
    rbind (run visitor s (concat (map (\<lambda>(k, v). PropName k # obj_visit v) ps))) (\<lambda>s. loop s (rd_at ts (RStateObject # st) r))"
  using assms(1,3)
proof (induction ps bss arbitrary: s rule: list_all2_induct)
  case (Cons p ps b bss)
  obtain k v where p: "p = (k, v)" by (cases p)
  obtain b1 b2 where b: "b = b1 @ b2" "tok_str names k b1" "tok_enc names v b2" using Cons.hyps(1) p by auto
  have kv: "nonul k" "wf_obj v" using Cons.prems p by auto
  have "loop s (rd_at ts (RStateObject # st) (b1 @ b2 @ concat bss @ r)) =
      rbind (visitor s (PropName k)) (\<lambda>s. loop s (rd_at ts (RStateValue # RStateObject # st) (b2 @ concat bss @ r)))"
    using tok_str_not_Nil [OF b(2)] by (subst loop_next [OF _ next_propName [OF kv(1) b(2) assms(2)]]) (auto simp: cont_loop)
  moreover have "loop s' (rd_at ts (RStateValue # RStateObject # st) (b2 @ concat bss @ r)) =
      rbind (run visitor s' (obj_visit v)) (\<lambda>s. loop s (rd_at ts (RStateObject # st) (concat bss @ r)))" for s'
    using loop_value [OF b(3) assms(2) kv(2), of "RStateValue # RStateObject # st" s' "concat bss @ r"]
    by (simp add: value_next_def after_value_def cont_loop)
  ultimately show ?case using Cons.IH Cons.prems by (simp add: p b(1) run_append rbind_assoc)
qed simp

end

lemma read_body:
  assumes "tok_enc names (OObject ps) bs" "reads_names ts names" "wf_obj (OObject ps)"
  shows "reader_read visitor s ((rd_at ts [] bs)\<lparr>r_skipBeginObj := True\<rparr>) =
    rbind (run visitor s (concat (map (\<lambda>(k, v). PropName k # obj_visit v) ps) @ [EndObject])) (\<lambda>s. Inr (s, rd_at ts [] []))"
proof -
  obtain bss where bss: "bs = MarkerObjectBegin # concat bss @ [MarkerObjectEnd]"
    "list_all2 (\<lambda>p bs. \<exists>b b'. bs = b @ b' \<and> tok_str names (fst p) b \<and> tok_enc names (snd p) b') ps bss"
    using assms(1) by (auto elim: tok_enc.cases)
  have first: "reader_next ((rd_at ts [] bs)\<lparr>r_skipBeginObj := True\<rparr>) = Inr ([], rd_at ts [RStateObject] (concat bss @ [MarkerObjectEnd]))"
    by (simp add: bss(1) reader_next_def readUInt8_def next_value_def Let_def)
  have "reader_read visitor s ((rd_at ts [] bs)\<lparr>r_skipBeginObj := True\<rparr>) = reader_read visitor s (rd_at ts [RStateObject] (concat bss @ [MarkerObjectEnd]))"
    by (subst reader_read.simps) (simp add: first [unfolded bss(1), simplified] bss(1))
  also have "\<dots> = rbind (run visitor s (concat (map (\<lambda>(k, v). PropName k # obj_visit v) ps)))
      (\<lambda>s. reader_read visitor s (rd_at ts [RStateObject] [MarkerObjectEnd]))"
    by (rule read_loop.loop_props [OF bss(2) assms(2)]) (use assms(3) in simp)
  also have "(\<lambda>s. reader_read visitor s (rd_at ts [RStateObject] [MarkerObjectEnd])) =
      (\<lambda>s. rbind (visitor s EndObject) (\<lambda>s. Inr (s, rd_at ts [] [])))"
    by (rule ext) (subst reader_read.simps, simp add: next_end reader_read.simps [of _ _ "rd_at ts [] []"])
  finally show ?thesis by (simp add: run_append rbind_assoc)
qed

lemma header_next_int:
  assumes "h_reader h = rd_at ts [] (enc v @ r)" "obj_leaf v" "wf_obj v" "m_stack b = []"
  shows "header_next b h = (Inr (b\<lparr>m_obj := undef_to_null v\<rparr>), h\<lparr>h_reader := rd_at ts [] r\<rparr>)"
  using next_leaf [of "[]" v, where ts = ts and r = r] assms
  by (simp add: header_next_def value_next_def after_value_def run_visit builder_value_def)

lemma sbind_known [simp]: "sbind (smod f) g s = g () (f s)" "sbind (sret (Inr a)) g' s = g' a s" "sbind (sget f') g'' s = (case f' s of Inl e \<Rightarrow> (Inl e, s) | Inr a \<Rightarrow> g'' a s)"
  by (simp_all add: sbind_def smod_def sget_def)

lemma header_read_write:
  assumes "\<not> h_read h" "\<not> h_del h" "tokOf kindId = Inr tok" "idOf tok = Inr kindId"
    and "header_write tokOf g = Inr hb" "h_kindId g = kindId" "h_rev g = rv" "h_del g = del" "h_reader h = rd_at ts [] (hb @ rest)"
  shows "header_read idOf h = (Inr (), h\<lparr>h_reader := rd_at ts [] rest, h_kindId := kindId, h_rev := rv, h_del := del, h_read := True\<rparr>)"
proof -
  let ?del = "if del then enc (OBool True) else []"
  have hb: "hb = HeaderVersion # enc (OInt tok) @ enc (OInt rv) @ ?del @ [MarkerHeaderEnd]"
    using assms(3,5-8) by (auto simp: header_write_def writeUInt8_def split: if_splits)
  let ?h1 = "h\<lparr>h_read := True, h_reader := rd_at ts [] (enc (OInt tok) @ enc (OInt rv) @ ?del @ MarkerHeaderEnd # rest)\<rparr>"
  have 1: "header_readUInt8 (h\<lparr>h_read := True\<rparr>) = (Inr HeaderVersion, ?h1)"
    using assms(9) by (simp add: header_readUInt8_def readUInt8_def hb)
  let ?h2 = "?h1\<lparr>h_reader := rd_at ts [] (enc (OInt rv) @ ?del @ MarkerHeaderEnd # rest)\<rparr>"
  let ?b1 = "builder_reset\<lparr>m_obj := OInt tok\<rparr>"
  have 2: "header_next builder_reset ?h1 = (Inr ?b1, ?h2)"
    by (subst header_next_int [where v = "OInt tok"]) (simp_all add: builder_reset_def)
  let ?h3 = "?h2\<lparr>h_kindId := kindId, h_reader := rd_at ts [] (?del @ MarkerHeaderEnd # rest)\<rparr>"
  let ?b2 = "?b1\<lparr>m_obj := OInt rv\<rparr>"
  have 3: "header_next ?b1 (?h2\<lparr>h_kindId := kindId\<rparr>) = (Inr ?b2, ?h3)"
    by (subst header_next_int [where v = "OInt rv"]) (simp_all add: builder_reset_def)
  let ?h4 = "?h3\<lparr>h_rev := rv, h_del := del, h_reader := rd_at ts [] (MarkerHeaderEnd # rest)\<rparr>"
  have 4: "header_readDel ?b2 (?h3\<lparr>h_rev := rv\<rparr>) = (Inr (), ?h4)"
  proof (cases del)
    case True
    have "header_next ?b2 (?h3\<lparr>h_rev := rv\<rparr>) = (Inr (?b2\<lparr>m_obj := OBool True\<rparr>), ?h3\<lparr>h_rev := rv, h_reader := rd_at ts [] (MarkerHeaderEnd # rest)\<rparr>)"
      by (subst header_next_int [where v = "OBool True"]) (simp_all add: builder_reset_def True)
    then show ?thesis using True by (simp add: header_readDel_def reader_peek_def sbind_def smod_def MarkerTrueValue_def MarkerHeaderEnd_def)
  next
    case False
    then show ?thesis using assms(2) by (simp add: header_readDel_def reader_peek_def)
  qed
  have 5: "header_eat ?h4 = (Inr (), ?h4)" by (simp add: header_eat_def reader_eat.simps reader_peek_def)
  have 6: "header_readUInt8 ?h4 = (Inr MarkerHeaderEnd, ?h4\<lparr>h_reader := rd_at ts [] rest\<rparr>)"
    by (simp add: header_readUInt8_def readUInt8_def)
  note bind = sbind_simps(1)
  have m: "m_obj (b\<lparr>m_obj := v\<rparr>) = v" for b :: builder and v by simp
  show ?thesis
    unfolding header_read_def using assms(1)
    apply (simp only: if_False sbind_known)
    apply (subst bind [where m = header_readUInt8, OF 1])
    apply (simp only: simp_thms if_False)
    apply (subst bind [where m = "header_next builder_reset", OF 2])
    apply (simp only: m intValueWith.simps assms(4) sbind_known)
    apply (subst bind [where m = "header_next ?b1", OF 3])
    apply (simp only: m intValueWith.simps sbind_known)
    apply (subst bind [where m = "header_readDel ?b2", OF 4])
    apply (subst bind [where m = header_eat, OF 5])
    apply (subst bind [where m = header_readUInt8, OF 6])
    apply (simp add: sret_def)
    done
qed

text \<open>The properties of the header, and of the object without them.\<close>

definition header_props :: "'k obj_header \<Rightarrow> (string \<times> obj) list" where
  "header_props h = [(IdKey, h_id h), (KindKey, OString (h_kindId h)), (RevKey, OInt (h_rev h))] @
     (if h_del h then [(DelKey, OBool (h_del h))] else [])"

lemma key_defs: "nonul IdKey" "nonul KindKey" "nonul RevKey" "nonul DelKey" "IdKey \<noteq> KindKey" "IdKey \<noteq> RevKey" "KindKey \<noteq> RevKey"
    "IdKey \<noteq> DelKey" "KindKey \<noteq> DelKey" "RevKey \<noteq> DelKey"
  by (simp_all add: IdKey_def KindKey_def RevKey_def DelKey_def nonul_def)

lemma obj_del_get:
  "wf_obj (OObject ps) \<Longrightarrow> nonul k \<Longrightarrow> nonul j \<Longrightarrow>
   obj_get j (snd (obj_del k (OObject ps))) = (if j = k then None else obj_get j (OObject ps))"
  by (simp add: str_comp_nonul.cmp_eq_iff str_map.get_del)

lemma obj_del_parts: "\<exists>qs. snd (obj_del k (OObject ps)) = OObject qs \<and> set qs \<subseteq> set ps" "fst (obj_del k obj) \<longleftrightarrow> obj_get k obj \<noteq> None"
  using map_del_subset [of MojStrCmp k ps] by (auto simp: obj_del_found obj_contains_def)

lemma extractFrom_ok:
  assumes "wf_obj obj" "obj_get IdKey obj = Some ident" "obj_get KindKey obj = Some (OString kindId)" "obj_get RevKey obj = Some (OInt rv)"
  shows "\<exists>qs. header_extractFrom (header_of ident) obj =
      Inr ((header_of ident)\<lparr>h_kindId := kindId, h_rev := rv, h_del := (get_bool DelKey obj = Some True)\<rparr>, OObject qs) \<and>
    wf_obj (OObject qs) \<and> (\<forall>k. nonul k \<longrightarrow> obj_get k (OObject qs) = (if k \<in> {IdKey, KindKey, RevKey} then None else obj_get k obj)) \<and>
    set qs \<subseteq> set (ensureObject obj)"
proof -
  obtain ps where ps: "obj = OObject ps" using assms(2) by (cases obj) auto
  obtain q1 where q1: "obj_del IdKey obj = (True, OObject q1)" "set q1 \<subseteq> set ps" "wf_obj (OObject q1)"
    using obj_del_parts(1) [of IdKey ps] obj_del_parts(2) [of IdKey obj] assms(2) obj_del_wf [OF assms(1), of IdKey]
    unfolding ps by (metis prod.collapse option.distinct(1))
  have g1: "obj_get k (OObject q1) = (if k = IdKey then None else obj_get k obj)" if "nonul k" for k
    using obj_del_get [of ps IdKey k] assms(1) q1(1) that key_defs ps by simp
  obtain q2 where q2: "obj_del KindKey (OObject q1) = (True, OObject q2)" "set q2 \<subseteq> set q1" "wf_obj (OObject q2)"
    using obj_del_parts(1) [of KindKey q1] obj_del_parts(2) [of KindKey "OObject q1"] assms(3) g1 [OF key_defs(2)] obj_del_wf [OF q1(3), of KindKey]
      key_defs by (metis prod.collapse option.distinct(1))
  have g2: "obj_get k (OObject q2) = (if k = KindKey then None else obj_get k (OObject q1))" if "nonul k" for k
    using obj_del_get [OF q1(3) key_defs(2) that] q2(1) by simp
  obtain q3 where q3: "obj_del RevKey (OObject q2) = (True, OObject q3)" "set q3 \<subseteq> set q2" "wf_obj (OObject q3)"
    using obj_del_parts(1) [of RevKey q2] obj_del_parts(2) [of RevKey "OObject q2"] assms(4) g2 [OF key_defs(3)] g1 [OF key_defs(3)]
      obj_del_wf [OF q2(3), of RevKey] key_defs by (metis prod.collapse option.distinct(1))
  have g3: "obj_get k (OObject q3) = (if k = RevKey then None else obj_get k (OObject q2))" if "nonul k" for k
    using obj_del_get [OF q2(3) key_defs(3) that] q3(1) by simp
  have kind: "getRequired_string KindKey (OObject q1) = Inr kindId"
    using g1 [OF key_defs(2)] assms(3) key_defs by (simp add: getRequired_string_def getRequiredErrT_def getRequiredT_def get_string_def)
  have rev': "getRequired_int MojStrToInt64 RevKey (OObject q2) = Inr rv"
    using g2 [OF key_defs(3)] g1 [OF key_defs(3)] assms(4) key_defs by (simp add: getRequired_int_def getRequiredT_def get_int_def)
  have del: "get_bool DelKey (OObject q3) = get_bool DelKey obj"
    using g3 [OF key_defs(4)] g2 [OF key_defs(4)] g1 [OF key_defs(4)] key_defs by (simp add: get_bool_def)
  have "header_extractFrom (header_of ident) obj =
      Inr ((header_of ident)\<lparr>h_kindId := kindId, h_rev := rv, h_del := (get_bool DelKey obj = Some True)\<rparr>, OObject q3)"
    using q1(1) q2(1) q3(1) kind rev' del
    by (simp add: header_extractFrom_def header_of_def header_new_def split: option.splits bool.splits)
  moreover have "obj_get k (OObject q3) = (if k \<in> {IdKey, KindKey, RevKey} then None else obj_get k obj)" if "nonul k" for k
    using g1 [OF that] g2 [OF that] g3 [OF that]
    by (cases "k = IdKey"; cases "k = KindKey"; cases "k = RevKey") (simp_all del: obj_get.simps)
  ultimately show ?thesis using q1(2) q2(2) q3(2,3) ps by (intro exI [of _ q3]) auto
qed

lemma header_props_merge:
  assumes "wf_obj (OObject ps)" "wf_obj (OObject qs)" "obj_get IdKey (OObject ps) = Some (h_id h)"
    "obj_get KindKey (OObject ps) = Some (OString (h_kindId h))" "obj_get RevKey (OObject ps) = Some (OInt (h_rev h))"
    and "\<forall>k. nonul k \<longrightarrow> obj_get k (OObject qs) = (if k \<in> {IdKey, KindKey, RevKey} then None else obj_get k (OObject ps))"
    and "h_del h \<longrightarrow> obj_get DelKey (OObject ps) \<noteq> None"
  shows "obj_puts (OObject []) (header_props h @ qs) = OObject ps"
proof -
  have ident: "wf_obj (h_id h)" "nonul (h_kindId h)"
    using assms(1,3,4) by (auto simp: get_map_of key_defs dest!: map_of_SomeD)
  have ok: "\<forall>p \<in> set (header_props h @ qs). nonul (fst p) \<and> wf_obj (snd p)"
    using ident assms(2) by (auto simp: header_props_def key_defs)
  have dist: "map_of (rev qs) k = map_of qs k" for k
  proof -
    have "sorted_wrt (\<lambda>p q. MojStrCmp (fst p) (fst q) < 0) qs \<Longrightarrow> distinct (map fst qs)"
      by (induction qs) (auto simp: str_comp.cmp_refl)
    moreover have "sorted_wrt (\<lambda>p q. MojStrCmp (fst p) (fst q) < 0) qs" using assms(2) by (induction qs) force+
    ultimately have d: "distinct (map fst qs)" by blast
    then show ?thesis using map_of_inject_set [of "rev qs" qs] by (simp add: rev_map [symmetric])
  qed
  obtain rs where rs: "obj_puts (OObject []) (header_props h @ qs) = OObject rs" using obj_puts_object by blast
  have "rs = ps"
  proof (rule obj_ext)
    show "wf_obj (OObject rs)" using obj_puts_wf [OF _ ok, of "OObject []"] rs by simp
    show "wf_obj (OObject ps)" by (rule assms(1))
    fix k :: string
    assume k: "nonul k"
    have empty: "obj_get k (OObject []) = None" by simp
    have "obj_get k (OObject rs) = (case map_of (rev (header_props h @ qs)) k of Some v \<Rightarrow> Some v | None \<Rightarrow> None)"
      using obj_puts_get [OF _ ok k, of "OObject []"] unfolding rs empty by simp
    also have "\<dots> = (case obj_get k (OObject qs) of Some v \<Rightarrow> Some v | None \<Rightarrow> map_of (rev (header_props h)) k)"
      using assms(2) k by (simp add: map_add_def dist get_map_of split: option.splits)
    also have "\<dots> = obj_get k (OObject ps)"
      using assms(3-7) k by (auto simp: header_props_def key_defs split: option.splits)
    finally show "obj_get k (OObject rs) = obj_get k (OObject ps)" .
  qed
  then show ?thesis using rs by simp
qed

text \<open>
  C10. What is stored of an object comes back: the header takes its id, kind and revision out of it, the rest is written
  with the tokens of its kind, new names getting tokens on the way; an item with these bytes and the object's id is read,
  with the tokens that the kind has at any later time, as the same object, deleted or not.
\<close>

theorem stored_object_reads_back:
  fixes k :: "kind_state \<times> 'it kind_env" and tokensOf :: "string \<Rightarrow> 'k token_set res"
  assumes "wf_obj obj" "no_undef obj" "obj_get IdKey obj = Some ident" "obj_get KindKey obj = Some (OString kindId)"
    "obj_get RevKey obj = Some (OInt rv)"
    and "tokOf kindId = Inr tok" "idOf tok = Inr kindId" "kind_ok k"
  shows "\<exists>h body bytes ts.
    serialize_obj (kind_addToken iters (\<lambda>_. None)) tokOf ident (ks_tokenSet k) obj = Inr (h, body, bytes, Some ts) \<and>
    kind_ok (m_sharedTokenSet ts) \<and>
    (\<forall>later rest. m_tokenVec later = ks_tokenVec (fst (m_sharedTokenSet ts)) @ rest \<longrightarrow> tokensOf kindId = Inr later \<longrightarrow>
       fst (sitem_toObject idOf tokensOf True (item_id ident (item_new bytes))) = Inr obj)"
proof -
  obtain ps where ps: "obj = OObject ps" using assms(3) by (cases obj) auto
  let ?del = "get_bool DelKey obj = Some True"
  define h :: "(kind_state \<times> 'it kind_env) obj_header" where
    "h = (header_of ident)\<lparr>h_kindId := kindId, h_rev := rv, h_del := ?del\<rparr>"
  obtain qs where qs: "header_extractFrom (header_of ident) obj = Inr (h, OObject qs)" "wf_obj (OObject qs)"
    "\<forall>k. nonul k \<longrightarrow> obj_get k (OObject qs) = (if k \<in> {IdKey, KindKey, RevKey} then None else obj_get k obj)" "set qs \<subseteq> set ps"
    using extractFrom_ok [OF assms(1,3-5)] unfolding h_def ps ensureObject.simps by blast
  obtain hb where hb: "header_write tokOf h = Inr hb" using assms(6) by (cases ?del) (auto simp: header_write_def h_def)
  let ?w = "\<lparr>w_buf = hb, w_tokenSet = Some (ks_tokenSet k)\<rparr>"
  have "kind_tokens.local_ok (ks_tokenSet k)"
  proof -
    obtain s e where k: "k = (s, e)" by (cases k)
    then have "ks_tokensObj s = tokens_obj (ks_tokenVec s)" using assms(8) by (simp add: kind_ok_def tokens_ok_def)
    then show ?thesis
      using assms(8) unfolding kind_tokens.local_ok_def ks_tokenSet_def k by (auto intro: exI [of _ "length (ks_tokenVec s)"])
  qed
  then obtain bs ts where bs: "run (writer_ev (kind_addToken iters (\<lambda>_. None))) ?w (obj_visit (OObject qs)) =
      Inr \<lparr>w_buf = hb @ bs, w_tokenSet = Some ts\<rparr>" "kind_tokens.local_ok ts"
    "tok_enc (ks_tokenVec (fst (m_sharedTokenSet ts))) (OObject qs) bs"
    using kind_tokens.writer_ok [OF qs(2), of ?w "ks_tokenSet k" iters] by (auto simp: case_prod_unfold)
  have ser: "serialize_obj (kind_addToken iters (\<lambda>_. None)) tokOf ident (ks_tokenSet k) obj = Inr (h, OObject qs, hb @ bs, Some ts)"
    using qs(1) hb bs(1) by (simp add: serialize_obj_def del: obj_visit.simps)
  have ok: "kind_ok (m_sharedTokenSet ts)" using bs(2) by (simp add: kind_tokens.local_ok_def)
  have again: "fst (sitem_toObject idOf tokensOf True (item_id ident (item_new (hb @ bs)))) = Inr obj"
    if later: "m_tokenVec later = ks_tokenVec (fst (m_sharedTokenSet ts)) @ rest" "tokensOf kindId = Inr later" for later rest
  proof -
    let ?it = "item_id ident (item_new (hb @ bs)) :: 'k level_item" and ?r = "rd_at None [] bs"
    let ?h = "li_header ?it"
    have h0: "\<not> h_read ?h" "\<not> h_del ?h" "h_id ?h = ident" "h_reader ?h = rd_at None [] (hb @ bs)"
      by (simp_all add: item_id_def item_new_def item_setData_def header_reset_def reader_data_def header_new_def)
    have read: "header_read idOf ?h = (Inr (), ?h\<lparr>h_reader := rd_at None [] bs, h_kindId := kindId, h_rev := rv, h_del := ?del, h_read := True\<rparr>)"
      by (rule header_read_write [where h = ?h and tokOf = tokOf and idOf = idOf and kindId = kindId and g = h, OF h0(1,2) assms(6,7) hb])
        (use h0(4) in \<open>simp_all add: h_def\<close>)
    let ?props = "\<lambda>ps. concat (map (\<lambda>(k, v). PropName k # obj_visit v) ps)"
    let ?h1 = "?h\<lparr>h_reader := (rd_at None [] bs)\<lparr>r_skipBeginObj := True\<rparr>, h_kindId := kindId, h_rev := rv, h_del := ?del, h_read := True\<rparr>"
    have events: "[BeginObject] @ objectProp IdKey ident @ stringProp KindKey kindId @ intProp RevKey rv @
        (if ?del then boolProp DelKey ?del else []) = BeginObject # ?props (header_props h)"
      by (simp add: header_props_def h_def header_of_def objectProp_def stringProp_def intProp_def boolProp_def)
    have visit: "header_visit idOf visitor s ?h = (run visitor s (BeginObject # ?props (header_props h)), ?h1)" for visitor :: "'s \<Rightarrow> ev \<Rightarrow> 's res" and s
      unfolding header_visit_def sbind_simps(1) [where m = "header_read idOf", OF read] events [symmetric]
      by (simp add: h0(3))
    have "\<forall>p \<in> set qs. no_undef (snd p)" "no_undef ident"
      using assms(1-3) qs(4) by (auto simp: ps get_map_of key_defs dest!: map_of_SomeD)
    then have props: "\<forall>p \<in> set (header_props h @ qs). wf_obj (snd p)" "map (\<lambda>(k, v). (k, undef_to_null v)) (header_props h @ qs) = header_props h @ qs"
      using assms(1-4) qs(2,4) by (auto simp: ps header_props_def h_def header_of_def get_map_of key_defs case_prod_unfold
          intro!: map_idI undef_to_null_id dest!: map_of_SomeD)
    have merge: "obj_puts (OObject []) (header_props h @ qs) = obj"
      unfolding ps by (rule header_props_merge) (use assms(1-5) qs(2,3) in \<open>auto simp: ps h_def header_of_def get_bool_def\<close>)
    define P where "P = ?props (header_props h @ qs)"
    obtain pn where "run builder_ev (builder_reset\<lparr>m_stack := [(OObject [], [])]\<rparr>) P = Inr (builder_reset\<lparr>m_propName := pn, m_stack := [(obj, [])]\<rparr>)"
      using run_puts [OF props(1), where b = builder_reset and ds = "[]" and pn = "[]" and st = "[]"] unfolding props(2) merge P_def by blast
    then have "run builder_ev builder_reset (BeginObject # P @ [EndObject]) = Inr (builder_reset\<lparr>m_obj := obj\<rparr>)"
      by (simp add: builder_push_def builder_pop_def builder_value_def builder_reset_def run_append)
    then have "run builder_ev builder_reset (BeginObject # ?props (header_props h) @ ?props qs @ [EndObject]) = Inr (builder_reset\<lparr>m_obj := obj\<rparr>)"
      by (simp add: P_def)
    then obtain b1 where b1: "run builder_ev builder_reset (BeginObject # ?props (header_props h)) = Inr b1"
      "run builder_ev b1 (?props qs @ [EndObject]) = Inr (builder_reset\<lparr>m_obj := obj\<rparr>)"
      unfolding append_Cons [symmetric] run_append [of _ _ "BeginObject # ?props (header_props h)"] by (auto simp: rbind_Inr_iff)
    have names: "reads_names (Some later) (ks_tokenVec (fst (m_sharedTokenSet ts)) @ rest)" using later(1) by (simp add: reads_names_def)
    have enc: "tok_enc (ks_tokenVec (fst (m_sharedTokenSet ts)) @ rest) (OObject qs) bs" using bs(3) by (rule tok_enc_mono)
    have "reader_read builder_ev b1 ((rd_at (Some later) [] bs)\<lparr>r_skipBeginObj := True\<rparr>) = Inr (builder_reset\<lparr>m_obj := obj\<rparr>, rd_at (Some later) [] [])"
      using read_body [OF enc names qs(2), where visitor = builder_ev and s = b1] b1(2) by simp
    then show ?thesis
      using visit [of builder_ev builder_reset] b1(1) later(2)
      by (simp add: sitem_toObject_def item_visit_def on_header_def sbind_def sget_def smod_def)
  qed
  show ?thesis using ser ok again by blast
qed

theorem stored_object_reads_back_witness:
  "\<exists>h body bytes ts.
    serialize_obj (kind_addToken (\<lambda>_. list_ldb []) (\<lambda>_. None)) (\<lambda>_. Inr 5) (OString ''++Jx'') (ks_tokenSet (kind_state_new ''Person:1'', env_ex))
      (OObject [(''_id'', OString ''++Jx''), (''_kind'', OString ''Person:1''), (''_rev'', OInt 7), (''name'', OString ''ann'')]) = Inr (h, body, bytes, Some ts) \<and>
    kind_ok (m_sharedTokenSet ts) \<and>
    (\<forall>later rest. m_tokenVec later = ks_tokenVec (fst (m_sharedTokenSet ts)) @ rest \<longrightarrow>
       ((\<lambda>_. Inr \<lparr>m_tokenVec = [''name'', ''age''], m_tokenObj = tokens_obj [''name'', ''age''], m_sharedTokenSet = ()\<rparr>) :: string \<Rightarrow> unit token_set res) ''Person:1'' = Inr later \<longrightarrow>
       fst (sitem_toObject (\<lambda>_. Inr ''Person:1'') (\<lambda>_. Inr \<lparr>m_tokenVec = [''name'', ''age''], m_tokenObj = tokens_obj [''name'', ''age''], m_sharedTokenSet = ()\<rparr>) True (item_id (OString ''++Jx'') (item_new bytes))) =
         Inr (OObject [(''_id'', OString ''++Jx''), (''_kind'', OString ''Person:1''), (''_rev'', OInt 7), (''name'', OString ''ann'')]))"
proof -
  have "kind_ok (kind_state_new ''Person:1'', env_ex)"
    by (simp add: kind_ok_def tokens_ok_def kind_state_new_def env_ex_def stored_def tokens_record_def nonul_def TokenStartMarker_def)
  note ok = this
  show ?thesis
    by (rule stored_object_reads_back [where k = "(kind_state_new ''Person:1'', env_ex)" and kindId = "''Person:1''" and tok = 5 and rv = 7 and
      tokensOf = "(\<lambda>_. Inr \<lparr>m_tokenVec = [''name'', ''age''], m_tokenObj = tokens_obj [''name'', ''age''], m_sharedTokenSet = ()\<rparr>)" and obj = "(OObject [(''_id'', OString ''++Jx''), (''_kind'', OString ''Person:1''), (''_rev'', OInt 7), (''name'', OString ''ann'')])" and tokOf = "\<lambda>_. Inr 5" and idOf = "\<lambda>_. Inr ''Person:1''"])
      (simp_all add: IdKey_def KindKey_def RevKey_def nonul_def ok)
qed

text \<open>A header whose version is wrong is refused once only.\<close>

lemma header_read_again:
  assumes "\<not> h_read h" "r_reader (h_reader h) = v # bytes" "v \<noteq> HeaderVersion"
  shows "\<exists>h'. header_read idOf h = (Inl MojErrDbHeaderVersionMismatch, h') \<and> header_read idOf h' = (Inr (), h')"
  using assms by (simp add: header_read_def header_readUInt8_def readUInt8_def sbind_def smod_def sret_def)

end
