(* ===== verification/Spec2Isabelle.thy ===== *)
theory Spec2Isabelle
  imports Prelude Compare DataSerial MojMap MojObj Decimal ObjOps CStrings Visitor OrderEnc ObjSerial
    ObjOrder ObjReader Base64 JsonWrite JsonParse JsonRound JsonSafe DbKey DbQuery
    DbFilter DbExtract DbPlan DbPlanOk DbWatcher DbIndex DbIndexOk DbAnswer LevelTxn LevelIter DbPermit Schema
    DbTxn LevelStore LevelCursor LevelSeq DbScan DbFind
    ObjMaps Sorting DbTokens DbKind DbHierarchy DbEngine DbInherit DbHeader
begin

text \<open>
  \<^bold>\<open>DB8: a verification library.\<close>

  DB8 is an object database: a value model (\<^verbatim>\<open>src/core\<close>, \<^verbatim>\<open>inc/core\<close>) with its codecs, and a database
  (\<^verbatim>\<open>src/db\<close>, \<^verbatim>\<open>inc/db\<close>) that keeps objects in a storage engine (\<^verbatim>\<open>src/db-engine\<close>) under byte keys, answers
  queries by scanning key ranges of an index, and tells watchers about changes. The program's
  correctness hangs on one chain: objects are serialized so that their bytes compare as the
  values do; an index stores, for every combination of values of an object, the concatenation of their
  bytes as a key; a query becomes a set of key ranges; a watcher fires when a changed key falls into the
  ranges. This library models the parts of that chain and proves that it holds.

  \<^bold>\<open>Conventions.\<close> A \<^verbatim>\<open>MojErr\<close> with its out parameters is a value of \<open>'a res\<close> (\<open>MojErr + 'a\<close>), and
  \<^verbatim>\<open>MojErrCheck\<close> is \<open>rbind\<close>. A \<^verbatim>\<open>MojAssert\<close> that fails is the error \<open>MojAssertFailed\<close>, a division by zero
  \<open>MojDivByZero\<close>, a read past a buffer \<open>MojReadPastEnd\<close>: the model stops where a debug build stops. Machine
  integers are words. Objects with identity (visitors, builders, watchers, indexes) are records that an
  operation returns updated. Logging and locks leave no trace in the model.

  \<^bold>\<open>The theories.\<close>

  \<^item> \<open>Prelude\<close>: machine types, errors, \<open>rbind\<close>, the run of a list of callbacks (\<^verbatim>\<open>MojErr.h\<close>, \<^verbatim>\<open>MojCoreDefs.h\<close>).
  \<^item> \<open>Compare\<close>: comparison functors, \<^verbatim>\<open>MojLexicalCompare\<close>, \<^verbatim>\<open>MojPrefixSize\<close>; the locale \<open>comparator\<close> of total
    preorders, interpreted on each of them.
  \<^item> \<open>MojMap\<close>: maps and sets as their nodes in key order, with the locale \<open>sorted_map\<close>.
  \<^item> \<open>DataSerial\<close>: the big-endian reader and writer (\<^verbatim>\<open>MojDataSerialization.cpp\<close>).
  \<^item> \<open>MojObj\<close>, \<open>ObjOps\<close>: \<^verbatim>\<open>MojObject\<close>, its comparison, its property and array operations; \<open>ObjMaps\<close>: objects as maps from
    their property names.
  \<^item> \<open>Sorting\<close>: \<^verbatim>\<open>MojQuickSort\<close>, which gives the array's elements in order for every choice of pivots, and
    \<^verbatim>\<open>MojBinarySearch\<close>.
  \<^item> \<open>Decimal\<close>, \<open>CStrings\<close>: \<^verbatim>\<open>MojDecimal\<close>, the number lexer and parser, the C string functions used.
  \<^item> \<open>Visitor\<close>: the events of a visit and \<^verbatim>\<open>MojObjectBuilder\<close>; a builder rebuilds what it visits.
  \<^item> \<open>OrderEnc\<close>: the locale of order-preserving, prefix-free encodings; \<open>ObjSerial\<close>, \<open>ObjOrder\<close>,
    \<open>ObjReader\<close>: the writer, the proof that its bytes are ordered as the values, the reader's state machine.
  \<^item> \<open>Base64\<close>: both alphabets with the locale \<open>alphabet\<close>; \<open>JsonWrite\<close>, \<open>JsonParse\<close>, \<open>JsonRound\<close>, \<open>JsonSafe\<close>:
    the JSON writer, the parser's character machine, the round trip, termination and safety.
  \<^item> \<open>DbKey\<close>: keys, increments, ranges and the key builder; \<open>DbQuery\<close>, \<open>DbFilter\<close>: queries, their
    clauses and the test of an object against them; \<open>DbExtract\<close>: property extractors.
  \<^item> \<open>DbPlan\<close>, \<open>DbPlanOk\<close>: from clauses to key ranges, and what the ranges contain.
  \<^item> \<open>DbIndex\<close>, \<open>DbIndexOk\<close>: configuration and update of an index, and the invariant of its keys. A write to the
    storage index may be refused, for the quota or by the disk: the answers to the next writes are part of the state, and
    an update of a consistent index is shown to fail only with one of them, and to miss no key it deletes;
    \<open>DbAnswer\<close>: query, index and plan together.
  \<^item> \<open>DbWatcher\<close>: watchers and the notification at commit.
  \<^item> \<open>LevelTxn\<close>, \<open>LevelIter\<close>: the LevelDB transaction and the iterator that merges pending changes with the database;
    \<open>LevelStore\<close>: items, databases and the transaction over several of them, behind
    the locale \<open>storage\<close> of \<^verbatim>\<open>MojDbStorageDatabase\<close>; \<open>LevelCursor\<close>: cursors, statistics, deletion by prefix;
    \<open>LevelSeq\<close>: persistent sequences, over gets, refused writes, crashes and reopenings.
  \<^item> \<open>DbScan\<close>: the scan of an index (\<^verbatim>\<open>MojDbIsamQuery\<close> on \<^verbatim>\<open>MojDbLevelQuery\<close>): seeking range after range, reading the
    id out of a key, skipping what the primary database lacks, limit and page. \<open>DbFind\<close>: the ranges of a plan are in scanning
    order, so that plan, scan and index together answer a query, and fetching page after page gives the whole answer. All
    indexes of an engine share one table (\<^verbatim>\<open>MojDbLevelIndex.cpp\<close>): what is assumed of it concerns the keys behind the id of the
    queried index only (\<open>shows_objects\<close>), and the lemma \<open>shared_table_shows\<close> gives it for a table of many indexes whose ids are
    prefix-free.
  \<^item> \<open>DbTokens\<close>: the state of a kind in the store (\<^verbatim>\<open>MojDbKindState.cpp\<close>), its tokens for property names and the ids of
    its indexes, which once given stay, whatever fails. \<open>DbHeader\<close>: how an object is stored under a header
    (\<^verbatim>\<open>MojDbObjectHeader.cpp\<close>, \<^verbatim>\<open>MojDbLevelItem.cpp\<close>), and that it reads back.
  \<^item> \<open>DbKind\<close>: kinds (\<^verbatim>\<open>MojDbKind.cpp\<close>), their ids, links, permissions, the update of an object and the revision sets.
    \<open>DbHierarchy\<close>: the links as a graph. \<open>addSuper\<close> refuses a link that would close a cycle, so that the links never have one,
    whatever the kinds declare; the kind that is put is linked to its declared supers, or to the root, and as long as the
    declarations have no cycle so is every other kind, but for the case that \<open>orphan\<close> names. \<open>DbEngine\<close>: configuration of kinds and \<^verbatim>\<open>putKind\<close>, \<^verbatim>\<open>delKind\<close>, \<^verbatim>\<open>reloadKind\<close> of the
    kind engine, all of which keep this invariant. \<open>DbInherit\<close>: an update reaches the indexes of every kind above once, and a
    permission is that of the nearest super that has one.
  \<^item> \<open>DbPermit\<close>: permissions with wildcards; \<open>DbTxn\<close>: quotas and the charge of a transaction; \<open>Schema\<close>: schema rules and
    validation.

  \<^bold>\<open>Bounds and fuel.\<close> The JSON parser's loop is bounded by a measure (its states between two characters are
  ranked), so that it is total. \<open>DbKey.builder_loop\<close> is a partial function whose result is proved to exist.
  The recursions over the links of kinds take fuel: the number of kinds and one more, which bounds every path as there is no cycle
  (\<open>DbHierarchy\<close>). \<open>DbScan.iq_get\<close>, \<open>LevelCursor.stats_loop\<close> and \<open>LevelCursor.delPrefix_loop\<close> are partial functions too; that they return is part of
  the theorems about them. \<open>LevelTxn.skip_loop\<close> takes one turn per deleted key; every turn meets another one, so that this is enough.

  \<^bold>\<open>Parameters.\<close> ICU (collators, tokenizers, case conversion, substring search), the shared set of tokens,
  the iterators of LevelDB and, for the kind engine, the objects of a kind that a cursor over it delivers are arguments of the definitions that use them; what is relied on is a
  hypothesis (\<open>plain\<close> extractors, \<open>comparison\<close> clauses without a collation).

  \<^bold>\<open>Not modelled.\<close> Process set-up, threads, sockets, the bus, logging: calls of the operating system. The Berkeley and
  sandwich engines and the opening of databases: calls of libraries that are not in the repository. Conversions
  to and from floating point. Of kinds and their engine: \<^verbatim>\<open>find\<close> and statistics, the change of the locale, the loading of the kinds
  when the database opens, and the charge of the quota to a kind (\<^verbatim>\<open>curKind\<close>), which \<open>DbTxn\<close> models by itself. Of an index:
  its drop, build and statistics, and the slots of the commit signals, whose effect (the ids of an index that
  becomes ready) is an operation of its own.
\<close>

end
